(* ===== verification/Prelude.thy ===== *)
theory Prelude
  imports Main "HOL-Library.Word" "HOL-Library.Sublist"
begin

text \<open>
  Shared vocabulary of the development: the exceptions of the C++ sources as values, the
  machine integers the sources use, and the generic list lemmas that several components need.

  An exception thrown by the code is a value \<open>Inl e\<close> of \<open>'a result\<close>; a normal return is
  \<open>Inr v\<close>. The constructor of \<open>error\<close> is the exception class of the \<open>throw\<close> expression and
  its argument is the message text.

  \<open>size_t\<close> is 64 bits wide. Where the sources guard an operation against overflow the model
  uses \<open>nat\<close> together with \<open>SIZE_MAX\<close>, so that a guard is visible as a condition; where the
  sources rely on wrap-around (hashes, free-running counters) the model uses \<open>64 word\<close>.
\<close>

named_theorems dev_simps \<open>equations that evaluate the operations of the model\<close>
named_theorems inv_intros \<open>preservation of the components' invariants\<close>

subsection \<open>Exceptions\<close>

datatype error =
    RuntimeError string
  | InvalidArgument string
  | OutOfRange string

type_synonym 'a result = "error + 'a"

fun res_bind :: "'a result \<Rightarrow> ('a \<Rightarrow> 'b result) \<Rightarrow> 'b result" where
  "res_bind (Inl e) f = Inl e"
| "res_bind (Inr x) f = f x"

lemma res_bind_Inr_iff [simp]:
  "res_bind m f = Inr y \<longleftrightarrow> (\<exists>x. m = Inr x \<and> f x = Inr y)"
  by (cases m) auto

lemma res_bind_Inl_iff:
  "res_bind m f = Inl e \<longleftrightarrow> m = Inl e \<or> (\<exists>x. m = Inr x \<and> f x = Inl e)"
  by (cases m) auto

lemma res_bind_assoc: "res_bind (res_bind m f) g = res_bind m (\<lambda>x. res_bind (f x) g)"
  by (cases m) auto

lemma res_bind_cong [fundef_cong]:
  "m = m' \<Longrightarrow> (\<And>x. m' = Inr x \<Longrightarrow> f x = g x) \<Longrightarrow> res_bind m f = res_bind m' g"
  by (cases m') auto

text \<open>A loop that pushes the result of a fallible call for every element, in order.\<close>

fun res_map :: "('a \<Rightarrow> 'b result) \<Rightarrow> 'a list \<Rightarrow> 'b list result" where
  "res_map f [] = Inr []"
| "res_map f (x # xs) = res_bind (f x) (\<lambda>y. res_bind (res_map f xs) (\<lambda>ys. Inr (y # ys)))"

lemma res_map_cong [fundef_cong]:
  "xs = ys \<Longrightarrow> (\<And>x. x \<in> set ys \<Longrightarrow> f x = g x) \<Longrightarrow> res_map f xs = res_map g ys"
  by (induction ys arbitrary: xs) auto

lemma res_map_Inr_length: "res_map f xs = Inr ys \<Longrightarrow> length ys = length xs"
  by (induction xs arbitrary: ys) auto

lemma res_map_Inr_nth:
  "res_map f xs = Inr ys \<Longrightarrow> i < length xs \<Longrightarrow> f (xs ! i) = Inr (ys ! i)"
proof (induction xs arbitrary: ys i)
  case Nil
  then show ?case by simp
next
  case (Cons x xs)
  then show ?case by (cases i) auto
qed

lemma res_map_all_Inr:
  "(\<And>x. x \<in> set xs \<Longrightarrow> f x = Inr (g x)) \<Longrightarrow> res_map f xs = Inr (map g xs)"
  by (induction xs) auto

lemma res_map_append:
  "res_map f (xs @ ys) = res_bind (res_map f xs) (\<lambda>us. res_bind (res_map f ys) (\<lambda>vs. Inr (us @ vs)))"
proof (induction xs)
  case Nil
  show ?case by (cases "res_map f ys") auto
qed (simp add: res_bind_assoc)

lemma res_map_list_all2:
  "\<forall>x \<in> set xs. \<exists>y. f x = Inr y \<and> P x y \<Longrightarrow> \<exists>ys. res_map f xs = Inr ys \<and> list_all2 P xs ys"
proof (induction xs)
  case (Cons x xs)
  then obtain y ys where "f x = Inr y" "P x y" "res_map f xs = Inr ys" "list_all2 P xs ys" by auto
  then show ?case by (intro exI [of _ "y # ys"]) simp
qed simp

subsection \<open>Components as transition systems\<close>

text \<open>
  A component with initial states and steps, and an invariant that its operations keep. A
  component proves the two laws for its own operations by interpreting the locale; the reachable
  states are the reflexive transitive closure of its steps.
\<close>

locale invariant_system =
  fixes initial :: "'s \<Rightarrow> bool"
    and step :: "'s \<Rightarrow> 's \<Rightarrow> bool"
    and inv :: "'s \<Rightarrow> bool"
  assumes inv_initial: "initial s \<Longrightarrow> inv s"
    and inv_step: "inv s \<Longrightarrow> step s s' \<Longrightarrow> inv s'"
begin

lemma inv_run: "step\<^sup>*\<^sup>* s s' \<Longrightarrow> inv s \<Longrightarrow> inv s'"
  by (induction rule: rtranclp_induct) (auto intro: inv_step)

lemma inv_reachable: "initial s \<Longrightarrow> step\<^sup>*\<^sup>* s s' \<Longrightarrow> inv s'"
  using inv_run inv_initial by blast

end

subsection \<open>Machine integers\<close>

type_synonym u8 = "8 word"
type_synonym u32 = "32 word"
type_synonym u64 = "64 word"

definition SIZE_MAX :: nat where
  "SIZE_MAX = 18446744073709551615"

text \<open>\<open>size_t\<close> addition and multiplication on \<open>nat\<close> with the wrap-around written out.\<close>

definition sz_add :: "nat \<Rightarrow> nat \<Rightarrow> nat" where
  "sz_add a b = (a + b) mod 18446744073709551616"

definition sz_mul :: "nat \<Rightarrow> nat \<Rightarrow> nat" where
  "sz_mul a b = (a * b) mod 18446744073709551616"

lemma sz_add_exact [simp]: "a + b \<le> SIZE_MAX \<Longrightarrow> sz_add a b = a + b"
  by (simp add: sz_add_def SIZE_MAX_def)

lemma sz_mul_exact [simp]: "a * b \<le> SIZE_MAX \<Longrightarrow> sz_mul a b = a * b"
  by (simp add: sz_mul_def SIZE_MAX_def)

lemma sz_add_bound: "sz_add a b \<le> SIZE_MAX"
  using mod_less_divisor [of 18446744073709551616 "a + b"]
  unfolding sz_add_def SIZE_MAX_def by linarith

lemma sz_mul_bound: "sz_mul a b \<le> SIZE_MAX"
  using mod_less_divisor [of 18446744073709551616 "a * b"]
  unfolding sz_mul_def SIZE_MAX_def by linarith

subsection \<open>Lists\<close>

lemma nth_eq_take_eq:
  "n \<le> length xs \<Longrightarrow> n \<le> length ys \<Longrightarrow> (\<And>i. i < n \<Longrightarrow> xs ! i = ys ! i) \<Longrightarrow> take n xs = take n ys"
  by (rule nth_equalityI) auto

lemma take_eq_nth_eq: "take n xs = take n ys \<Longrightarrow> i < n \<Longrightarrow> xs ! i = ys ! i"
  by (metis nth_take)

lemma map_upt_add: "map (\<lambda>i. f (a + i)) [0..<n] = map f [a..<a + n]"
  by (rule nth_equalityI) auto

lemma map_const_upt: "map (\<lambda>_. c) [0..<n] = replicate n c"
  by (simp add: map_replicate_const)


subsection \<open>Process environment and number parsing of the C library\<close>

text \<open>
  \<open>getenv\<close> is a lookup in the environment the process runs in. \<open>strtoul\<close> in base 10 skips
  white space, accepts one sign, reads the longest run of digits, negates modulo \<open>2 ^ 64\<close> and
  saturates; \<open>None\<close> is the case in which no digit is found and \<open>end\<close> stays at the start.
\<close>

type_synonym environment = "string \<Rightarrow> string option"

definition is_space_char :: "char \<Rightarrow> bool" where
  "is_space_char c \<longleftrightarrow> (let n = (of_char c :: nat) in n = 32 \<or> 9 \<le> n \<and> n \<le> 13)"

definition is_digit_char :: "char \<Rightarrow> bool" where
  "is_digit_char c \<longleftrightarrow> (let n = (of_char c :: nat) in 48 \<le> n \<and> n \<le> 57)"

definition digit_value :: "char \<Rightarrow> nat" where
  "digit_value c = of_char c - 48"

definition digits_value :: "string \<Rightarrow> nat" where
  "digits_value ds = fold (\<lambda>c v. 10 * v + digit_value c) ds 0"

definition strtoul10 :: "string \<Rightarrow> (nat \<times> string) option" where
  "strtoul10 raw =
     (let s = dropWhile is_space_char raw;
          negative = (case s of c # _ \<Rightarrow> c = CHR ''-'' | [] \<Rightarrow> False);
          body = (case s of c # cs \<Rightarrow> if c = CHR ''-'' \<or> c = CHR ''+'' then cs else s | [] \<Rightarrow> []);
          ds = takeWhile is_digit_char body;
          v = digits_value ds
      in if ds = [] then None
         else Some (if v > SIZE_MAX then SIZE_MAX
                    else if negative then (SIZE_MAX + 1 - v) mod (SIZE_MAX + 1) else v,
                    dropWhile is_digit_char body))"

subsection \<open>Decimal printing\<close>

text \<open>\<open>std::to_string\<close> of an unsigned and of a signed integer.\<close>

definition digit_char :: "nat \<Rightarrow> char" where
  "digit_char d = char_of (48 + d)"

fun show_nat :: "nat \<Rightarrow> string" where
  "show_nat n = (if n < 10 then [digit_char n] else show_nat (n div 10) @ [digit_char (n mod 10)])"

declare show_nat.simps [simp del]

definition show_int :: "int \<Rightarrow> string" where
  "show_int i = (if i < 0 then CHR ''-'' # show_nat (nat (- i)) else show_nat (nat i))"

lemma of_char_digit_char [simp]: "d < 10 \<Longrightarrow> of_char (digit_char d) = (48 + d :: nat)"
  by (simp add: digit_char_def)

lemma digit_char_is_digit [simp]: "d < 10 \<Longrightarrow> is_digit_char (digit_char d)"
  by (simp add: is_digit_char_def)

lemma digits_value_snoc: "digits_value (ds @ [c]) = 10 * digits_value ds + digit_value c"
  by (simp add: digits_value_def)

lemma show_nat_value [simp]: "digits_value (show_nat n) = n"
proof (induction n rule: show_nat.induct)
  case (1 n)
  then show ?case
    by (cases "n < 10")
      (simp_all add: show_nat.simps [of n] digits_value_snoc digit_value_def digits_value_def)
qed

lemma show_nat_digits: "c \<in> set (show_nat n) \<Longrightarrow> is_digit_char c"
proof (induction n rule: show_nat.induct)
  case (1 n)
  then show ?case by (cases "n < 10") (auto simp: show_nat.simps [of n])
qed

lemma show_nat_nonempty [simp]: "show_nat n \<noteq> []"
  by (simp add: show_nat.simps [of n])

lemma show_nat_no_leading_zero: "0 < n \<Longrightarrow> hd (show_nat n) \<noteq> CHR ''0''"
proof (induction n rule: show_nat.induct)
  case (1 n)
  show ?case
  proof (cases "n < 10")
    case True
    have "digit_char n \<noteq> CHR ''0''"
    proof
      assume e: "digit_char n = CHR ''0''"
      have "of_char (digit_char n) = (48 :: nat)" unfolding e by simp
      then show False using True "1.prems" by simp
    qed
    then show ?thesis using True by (auto simp: show_nat.simps [of n])
  next
    case False
    then show ?thesis using 1 by (simp add: show_nat.simps [of n])
  qed
qed

subsection \<open>String scanning\<close>

definition trim_both :: "(char \<Rightarrow> bool) \<Rightarrow> string \<Rightarrow> string" where
  "trim_both blank s = rev (dropWhile blank (rev (dropWhile blank s)))"

text \<open>\<open>find\<close>: what is before the first occurrence of a pattern and what follows it.\<close>

fun find_split :: "string \<Rightarrow> string \<Rightarrow> (string \<times> string) option" where
  "find_split pat [] = (if pat = [] then Some ([], []) else None)"
| "find_split pat (c # s) =
     (if prefix pat (c # s) then Some ([], drop (length pat) (c # s))
      else map_option (\<lambda>(before, after). (c # before, after)) (find_split pat s))"

text \<open>The characters that may not occur in the names of the XML-like tags.\<close>

definition is_xml_reserved :: "char \<Rightarrow> bool" where
  "is_xml_reserved c \<longleftrightarrow> c = CHR ''<'' \<or> c = CHR ''>'' \<or> c = CHR 0x0D \<or> c = CHR 0x0A"

lemma find_split_append: "find_split pat s = Some (before, after) \<Longrightarrow> s = before @ pat @ after"
proof (induction s arbitrary: before)
  case (Cons c s)
  then show ?case by (auto simp: prefix_def split: if_splits)
qed (simp split: if_splits)

lemma find_split_shorter: "find_split pat s = Some (before, after) \<Longrightarrow> length after + length pat \<le> length s"
  using find_split_append by fastforce

lemma find_split_None: "find_split pat s = None \<Longrightarrow> \<not> sublist pat s"
proof (induction s)
  case (Cons c s)
  then show ?case by (auto simp: sublist_Cons_right split: if_splits)
qed (auto split: if_splits)

end
