(* ===== verification/Mtp_Lifecycle.thy ===== *)
theory Mtp_Lifecycle
  imports Prelude
begin

text \<open>
  The pure bookkeeping of multi-token prediction, \<^verbatim>\<open>src/mtp_lifecycle.cpp\<close>: which hidden row is
  paired with which prompt token when the prompt arrives in chunks (\<open>plan_chunk\<close>), how far a
  round may commit (\<open>plan_mtp_commit\<close>), and how many drafts the target confirms
  (\<open>decide_mtp_greedy\<close>).
\<close>

subsection \<open>Prompt lifecycle\<close>

datatype MtpHiddenSource = Hidden_carry | Hidden_chunk

record MtpPromptPair =
  hidden_source :: MtpHiddenSource
  hidden_index :: nat
  token_index :: nat
  query_position :: nat

record MtpPromptLifecycle =
  lc_initialized :: bool
  lc_has_carry :: bool
  lc_carry_position :: nat
  lc_next_position :: nat

definition lifecycle_init :: MtpPromptLifecycle where
  "lifecycle_init = \<lparr>lc_initialized = False, lc_has_carry = False,
     lc_carry_position = 0, lc_next_position = 0\<rparr>"

definition lifecycle_reset :: "MtpPromptLifecycle \<Rightarrow> MtpPromptLifecycle" where
  "lifecycle_reset lc = lc\<lparr>lc_initialized := False, lc_has_carry := False,
     lc_carry_position := 0, lc_next_position := 0\<rparr>"

definition carry_pair :: "nat \<Rightarrow> MtpPromptPair" where
  "carry_pair first = \<lparr>hidden_source = Hidden_carry, hidden_index = 0, token_index = 0,
     query_position = first\<rparr>"

definition chunk_pair :: "nat \<Rightarrow> nat \<Rightarrow> MtpPromptPair" where
  "chunk_pair first index = \<lparr>hidden_source = Hidden_chunk, hidden_index = index,
     token_index = index + 1, query_position = sz_add (sz_add first index) 1\<rparr>"

definition plan_chunk ::
    "nat \<Rightarrow> nat \<Rightarrow> MtpPromptLifecycle \<Rightarrow> MtpPromptPair list result \<times> MtpPromptLifecycle" where
  "plan_chunk first_position token_count lc0 =
     (if token_count = 0 then
        (Inl (RuntimeError ''MTP prompt chunk must not be empty''), lc0)
      else
        let lc = (if first_position = 0 then lifecycle_reset lc0 else lc0) in
        if lc_initialized lc \<and> first_position \<noteq> lc_next_position lc then
          (Inl (RuntimeError ''MTP prompt chunks must be position-contiguous''), lc)
        else if token_count > SIZE_MAX - first_position then
          (Inl (RuntimeError ''MTP prompt position overflow''), lc)
        else if lc_has_carry lc \<and> sz_add (lc_carry_position lc) 1 \<noteq> first_position then
          (Inl (RuntimeError ''MTP hidden carry is not adjacent to the prompt chunk''), lc)
        else
          (Inr ((if lc_has_carry lc then [carry_pair first_position] else []) @
                map (chunk_pair first_position) [0..<token_count - 1]),
           lc\<lparr>lc_initialized := True, lc_has_carry := True,
              lc_carry_position := sz_add first_position token_count - 1,
              lc_next_position := sz_add first_position token_count\<rparr>))"

text \<open>
  The invariant between the fields: a carry exists exactly after the first planned chunk and
  is the last row before the next position.
\<close>

definition lifecycle_inv :: "MtpPromptLifecycle \<Rightarrow> bool" where
  "lifecycle_inv lc \<longleftrightarrow>
     lc_initialized lc = lc_has_carry lc \<and>
     (if lc_initialized lc then lc_next_position lc = lc_carry_position lc + 1 \<and>
        lc_next_position lc \<le> SIZE_MAX
      else lc_carry_position lc = 0 \<and> lc_next_position lc = 0)"

lemma lifecycle_inv_init [simp]: "lifecycle_inv lifecycle_init"
  by (simp add: lifecycle_inv_def lifecycle_init_def)

lemma lifecycle_inv_reset [simp]: "lifecycle_inv (lifecycle_reset lc)"
  by (simp add: lifecycle_inv_def lifecycle_reset_def)

lemma plan_chunk_inv [inv_intros]:
  assumes "lifecycle_inv lc"
  shows "lifecycle_inv (snd (plan_chunk first n lc))"
  using assms
  by (auto simp: plan_chunk_def Let_def lifecycle_inv_def lifecycle_reset_def split: if_splits)

text \<open>Whole prompts: the chunks of one prompt, planned one after the other.\<close>

fun plan_chunks ::
    "nat \<Rightarrow> nat list \<Rightarrow> MtpPromptLifecycle \<Rightarrow> MtpPromptPair list list result \<times> MtpPromptLifecycle" where
  "plan_chunks first [] lc = (Inr [], lc)"
| "plan_chunks first (n # ns) lc =
     (case plan_chunk first n lc of
        (Inl e, lc') \<Rightarrow> (Inl e, lc')
      | (Inr ps, lc') \<Rightarrow>
          (case plan_chunks (first + n) ns lc' of
             (Inl e, lc'') \<Rightarrow> (Inl e, lc'')
           | (Inr pss, lc'') \<Rightarrow> (Inr (ps # pss), lc'')))"

text \<open>
  Absolute prompt positions of a pair planned in a chunk that starts at \<open>first\<close>: of the
  hidden row it reads, of the token it consumes, and of the query.
\<close>

fun absolute_pair :: "nat \<Rightarrow> MtpPromptPair \<Rightarrow> nat \<times> nat \<times> nat" where
  "absolute_pair first p =
     ((case hidden_source p of
         Hidden_carry \<Rightarrow> first - 1
       | Hidden_chunk \<Rightarrow> first + hidden_index p),
      first + token_index p, query_position p)"

fun absolute_pairs :: "nat \<Rightarrow> nat list \<Rightarrow> MtpPromptPair list list \<Rightarrow> (nat \<times> nat \<times> nat) list" where
  "absolute_pairs first (n # ns) (ps # pss) =
     map (absolute_pair first) ps @ absolute_pairs (first + n) ns pss"
| "absolute_pairs first _ _ = []"

lemma plan_chunk_first:
  assumes "0 < n" and "n \<le> SIZE_MAX"
  shows "plan_chunk 0 n lc =
    (Inr (map (chunk_pair 0) [0..<n - 1]),
     lc\<lparr>lc_initialized := True, lc_has_carry := True, lc_carry_position := n - 1,
        lc_next_position := n\<rparr>)"
  using assms by (simp add: plan_chunk_def Let_def lifecycle_reset_def)

lemma plan_chunk_next:
  assumes "lc_initialized lc" "lc_has_carry lc" "lc_next_position lc = first"
    and "lc_carry_position lc = first - 1" and "0 < first" and "0 < n" and "first + n \<le> SIZE_MAX"
  shows "plan_chunk first n lc =
    (Inr (carry_pair first # map (chunk_pair first) [0..<n - 1]),
     lc\<lparr>lc_initialized := True, lc_has_carry := True, lc_carry_position := first + n - 1,
        lc_next_position := first + n\<rparr>)"
  using assms by (simp add: plan_chunk_def Let_def)

lemma absolute_chunk_pairs:
  assumes "first + n \<le> SIZE_MAX"
  shows "map (absolute_pair first) (map (chunk_pair first) [0..<n - 1]) =
    map (\<lambda>q. (q - 1, q, q)) [first + 1..<first + n]"
  using assms by (intro nth_equalityI) (auto simp: chunk_pair_def)

lemma upt_adjacent: "a \<le> b \<Longrightarrow> b \<le> c \<Longrightarrow> [a..<b] @ [b..<c] = [a..<c]"
  using upt_add_eq_append [of a b "c - b"] by simp

lemma plan_chunks_continue:
  assumes "lc_initialized lc" "lc_has_carry lc" "lc_next_position lc = first"
    and "lc_carry_position lc = first - 1" and "0 < first"
    and "\<forall>n \<in> set ns. 0 < n" and "first + sum_list ns \<le> SIZE_MAX"
  shows "\<exists>pss lc'. plan_chunks first ns lc = (Inr pss, lc') \<and>
    absolute_pairs first ns pss = map (\<lambda>q. (q - 1, q, q)) [first..<first + sum_list ns]"
  using assms
proof (induction ns arbitrary: first lc)
  case Nil
  then show ?case by simp
next
  case (Cons n ns)
  let ?lc = "lc\<lparr>lc_initialized := True, lc_has_carry := True,
    lc_carry_position := first + n - 1, lc_next_position := first + n\<rparr>"
  have step: "plan_chunk first n lc =
      (Inr (carry_pair first # map (chunk_pair first) [0..<n - 1]), ?lc)"
    using Cons.prems by (intro plan_chunk_next) auto
  obtain pss lc' where rest: "plan_chunks (first + n) ns ?lc = (Inr pss, lc')"
    and abs: "absolute_pairs (first + n) ns pss =
      map (\<lambda>q. (q - 1, q, q)) [first + n..<first + n + sum_list ns]"
    using Cons.IH [of ?lc "first + n"] Cons.prems by auto
  have "[first + 1..<first + n] @ [first + n..<first + n + sum_list ns] =
      [first + 1..<first + n + sum_list ns]"
    using Cons.prems by (intro upt_adjacent) auto
  moreover have "[first..<first + (n + sum_list ns)] = first # [first + 1..<first + n + sum_list ns]"
    using Cons.prems by (simp add: upt_conv_Cons add.assoc)
  ultimately have "absolute_pairs first (n # ns) ((carry_pair first # map (chunk_pair first) [0..<n - 1]) # pss)
      = map (\<lambda>q. (q - 1, q, q)) [first..<first + sum_list (n # ns)]"
    using Cons.prems absolute_chunk_pairs [of first n] abs
    by (simp add: carry_pair_def map_append [symmetric] del: map_append map_map)
  then show ?case using step rest by auto
qed


text \<open>C15. Prompt ingestion is independent of the chunking: for every way to cut a prompt of
  \<open>sum_list (n # ns)\<close> tokens into non-empty chunks, planning the chunks in order succeeds, and
  the planned pairs are, in order, exactly one pair per position \<open>q = 1, 2, \<dots>\<close>, which
  reads the hidden row of position \<open>q - 1\<close>, consumes the token at \<open>q\<close> and queries at \<open>q\<close>.\<close>

theorem plan_chunks_cover_prompt:
  assumes "\<forall>m \<in> set (n # ns). 0 < m" and "sum_list (n # ns) \<le> SIZE_MAX"
  shows "\<exists>pss lc'. plan_chunks 0 (n # ns) lc = (Inr pss, lc') \<and>
    absolute_pairs 0 (n # ns) pss = map (\<lambda>q. (q - 1, q, q)) [1..<sum_list (n # ns)]"
proof -
  let ?lc = "lc\<lparr>lc_initialized := True, lc_has_carry := True,
    lc_carry_position := n - 1, lc_next_position := n\<rparr>"
  have step: "plan_chunk 0 n lc = (Inr (map (chunk_pair 0) [0..<n - 1]), ?lc)"
    using assms by (intro plan_chunk_first) auto
  obtain pss lc' where rest: "plan_chunks n ns ?lc = (Inr pss, lc')"
    and abs: "absolute_pairs n ns pss = map (\<lambda>q. (q - 1, q, q)) [n..<n + sum_list ns]"
    using plan_chunks_continue [of ?lc n ns] assms by auto
  have "[1..<n] @ [n..<n + sum_list ns] = [1..<n + sum_list ns]"
    using assms by (intro upt_adjacent) auto
  then have "absolute_pairs 0 (n # ns) (map (chunk_pair 0) [0..<n - 1] # pss) =
      map (\<lambda>q. (q - 1, q, q)) [1..<sum_list (n # ns)]"
    using absolute_chunk_pairs [of 0 n] abs assms
    by (simp add: map_append [symmetric] del: map_append map_map)
  then show ?thesis using step rest by auto
qed

theorem plan_chunks_cover_prompt_witness:
  "\<exists>pss lc'. plan_chunks 0 [2, 3] lifecycle_init = (Inr pss, lc') \<and>
    absolute_pairs 0 [2, 3] pss = map (\<lambda>q. (q - 1, q, q)) [1..<5]"
  using plan_chunks_cover_prompt [of 2 "[3]" lifecycle_init] by (simp add: SIZE_MAX_def)

text \<open>Outside the resetting position 0 a chunk that does not start at the next expected
  position is rejected and leaves the lifecycle unchanged, whatever its length: after planned
  chunks no prompt position can be skipped or repeated.\<close>

theorem plan_chunk_rejects_gap:
  assumes "lc_initialized lc" and "first \<noteq> 0" and "first \<noteq> lc_next_position lc"
  shows "\<exists>msg. plan_chunk first n lc = (Inl (RuntimeError msg), lc)"
  using assms by (auto simp: plan_chunk_def)

theorem plan_chunk_rejects_gap_witness:
  "\<exists>msg. plan_chunk 5 2 (snd (plan_chunk 0 4 lifecycle_init)) =
    (Inl (RuntimeError msg), snd (plan_chunk 0 4 lifecycle_init))"
  by (rule plan_chunk_rejects_gap)
     (simp_all add: plan_chunk_first SIZE_MAX_def)

subsection \<open>Commit plan\<close>

record MtpCommitPlan =
  truncate_head_to :: nat
  target_rows_to_keep :: nat
  stash_rows :: nat
  committed_boundary :: nat

definition plan_mtp_commit :: "nat \<Rightarrow> nat \<Rightarrow> nat \<Rightarrow> MtpCommitPlan result" where
  "plan_mtp_commit round_offset drafted accepted =
     (if accepted > drafted then
        Inl (RuntimeError ''MTP accepted count exceeds drafted count'')
      else if accepted = SIZE_MAX \<or> round_offset > SIZE_MAX - (accepted + 1) then
        Inl (RuntimeError ''MTP committed boundary overflow'')
      else
        let committed = 1 + accepted in
        Inr \<lparr>truncate_head_to = round_offset, target_rows_to_keep = committed,
             stash_rows = committed, committed_boundary = sz_add round_offset committed\<rparr>)"

lemma plan_mtp_commit_eq:
  assumes "drafted \<le> SIZE_MAX" and "accepted \<le> drafted"
  shows "plan_mtp_commit off drafted accepted =
    (if off + accepted + 1 \<le> SIZE_MAX
     then Inr \<lparr>truncate_head_to = off, target_rows_to_keep = accepted + 1,
               stash_rows = accepted + 1, committed_boundary = off + accepted + 1\<rparr>
     else Inl (RuntimeError ''MTP committed boundary overflow''))"
  using assms by (auto simp: plan_mtp_commit_def Let_def SIZE_MAX_def sz_add_def)

subsection \<open>Greedy acceptance\<close>

record MtpGreedyDecision =
  dec_accepted :: nat
  dec_correction_row :: nat
  dec_next_token :: u32

function accept_from :: "u32 list \<Rightarrow> u32 list \<Rightarrow> u32 list \<Rightarrow> nat \<Rightarrow> nat" where
  "accept_from drafts rows stop_tokens accepted =
     (if accepted < length drafts \<and> drafts ! accepted = rows ! accepted then
        (if drafts ! accepted \<in> set stop_tokens then accepted
         else accept_from drafts rows stop_tokens (accepted + 1))
      else accepted)"
  by pat_completeness auto
termination
  by (relation "measure (\<lambda>(drafts, rows, stop_tokens, accepted). length drafts - accepted)") auto

declare accept_from.simps [simp del]

definition decide_mtp_greedy ::
    "u32 list \<Rightarrow> u32 list \<Rightarrow> u32 list \<Rightarrow> MtpGreedyDecision result" where
  "decide_mtp_greedy drafts target_argmax_rows stop_tokens =
     (if drafts = [] then
        Inl (RuntimeError ''MTP verification requires at least one draft'')
      else if length target_argmax_rows \<noteq> length drafts + 1 then
        Inl (RuntimeError ''MTP target verification must include the bonus row'')
      else
        let accepted = accept_from drafts target_argmax_rows stop_tokens 0 in
        Inr \<lparr>dec_accepted = accepted, dec_correction_row = accepted,
             dec_next_token = target_argmax_rows ! accepted\<rparr>)"

text \<open>What the acceptance loop returns from a start index, by induction over its own recursion.\<close>

lemma accept_from_bounds:
  "a \<le> length ds \<Longrightarrow> a \<le> accept_from ds rs st a \<and> accept_from ds rs st a \<le> length ds"
proof (induction ds rs st a rule: accept_from.induct)
  case (1 ds rs st a)
  then show ?case by (subst (1 2) accept_from.simps) auto
qed

lemma accept_from_step:
  "a < length ds \<Longrightarrow> ds ! a = rs ! a \<Longrightarrow> ds ! a \<notin> set st \<Longrightarrow>
     accept_from ds rs st a = accept_from ds rs st (a + 1)"
  by (subst accept_from.simps) auto

lemma accept_from_agree:
  "a \<le> i \<Longrightarrow> i < accept_from ds rs st a \<Longrightarrow> ds ! i = rs ! i \<and> ds ! i \<notin> set st"
proof (induction ds rs st a arbitrary: i rule: accept_from.induct)
  case (1 ds rs st a)
  show ?case
  proof (cases "a < length ds \<and> ds ! a = rs ! a \<and> ds ! a \<notin> set st")
    case True
    then have "accept_from ds rs st a = accept_from ds rs st (a + 1)"
      using accept_from_step by blast
    moreover have "i = a \<or> a + 1 \<le> i" using 1(2) by auto
    ultimately show ?thesis using 1 True by metis
  next
    case False
    then have "accept_from ds rs st a = a" by (subst accept_from.simps) auto
    with 1 show ?thesis by simp
  qed
qed

lemma accept_from_stops:
  "accept_from ds rs st a < length ds \<Longrightarrow>
     ds ! accept_from ds rs st a \<noteq> rs ! accept_from ds rs st a \<or>
     ds ! accept_from ds rs st a \<in> set st"
proof (induction ds rs st a rule: accept_from.induct)
  case (1 ds rs st a)
  show ?case
  proof (cases "a < length ds \<and> ds ! a = rs ! a \<and> ds ! a \<notin> set st")
    case True
    then have "accept_from ds rs st a = accept_from ds rs st (a + 1)"
      using accept_from_step by blast
    with 1 True show ?thesis by auto
  next
    case False
    then have "accept_from ds rs st a = a" by (subst accept_from.simps) auto
    with 1 False show ?thesis by auto
  qed
qed

lemma accept_le [simp]: "accept_from ds rs st 0 \<le> length ds"
  using accept_from_bounds [of 0 ds rs st] by simp

lemma decide_mtp_greedy_InrD:
  assumes "decide_mtp_greedy ds rs st = Inr d"
  shows "ds \<noteq> [] \<and> length rs = length ds + 1 \<and> dec_accepted d = accept_from ds rs st 0 \<and>
    dec_correction_row d = dec_accepted d \<and> dec_next_token d = rs ! dec_accepted d"
  using assms by (auto simp: decide_mtp_greedy_def Let_def split: if_splits)

lemma decide_mtp_greedy_total:
  assumes "ds \<noteq> []" and "length rs = length ds + 1"
  shows "\<exists>d. decide_mtp_greedy ds rs st = Inr d"
  using assms by (simp add: decide_mtp_greedy_def Let_def)

lemma accepted_drafts_eq_rows:
  assumes "length rs = length ds + 1"
  shows "take (accept_from ds rs st 0) ds = take (accept_from ds rs st 0) rs"
  using assms accept_from_agree [of 0 _ ds rs st] le_SucI [OF accept_le [of ds rs st]]
  by (intro nth_eq_take_eq) auto

lemma emitted_eq_target_rows:
  assumes "length rs = length ds + 1"
  shows "take (accept_from ds rs st 0) ds @ [rs ! accept_from ds rs st 0] =
    take (accept_from ds rs st 0 + 1) rs"
  using assms accepted_drafts_eq_rows [OF assms, of st] le_imp_less_Suc [OF accept_le [of ds rs st]]
  by (simp add: take_Suc_conv_app_nth)

text \<open>C14. Greedy acceptance is lossless and maximal: whenever a decision is made, the accepted
  drafts followed by the correction token are exactly the first \<open>accepted + 1\<close> target argmax
  tokens, no accepted draft is a stop token, and acceptance ends only at the end of the
  drafts, at the first draft the target contradicts, or at a stop token.\<close>

theorem decide_mtp_greedy_lossless:
  assumes "decide_mtp_greedy drafts rows stops = Inr d"
  shows "take (dec_accepted d) drafts @ [dec_next_token d] = take (dec_accepted d + 1) rows \<and>
    dec_accepted d \<le> length drafts \<and>
    set (take (dec_accepted d) drafts) \<inter> set stops = {} \<and>
    (dec_accepted d < length drafts \<longrightarrow>
      drafts ! dec_accepted d \<noteq> rows ! dec_accepted d \<or> drafts ! dec_accepted d \<in> set stops)"
proof -
  note D = decide_mtp_greedy_InrD [OF assms]
  have "take (dec_accepted d) drafts @ [dec_next_token d] = take (dec_accepted d + 1) rows"
    using D emitted_eq_target_rows [of rows drafts stops] by simp
  moreover have "set (take (dec_accepted d) drafts) \<inter> set stops = {}"
    using D accept_from_agree [of 0 _ drafts rows stops] by (fastforce simp: in_set_conv_nth)
  ultimately show ?thesis
    using D accept_from_stops [of drafts rows stops 0] by simp
qed

theorem decide_mtp_greedy_lossless_witness:
  "decide_mtp_greedy [5, 6, 7] [5, 6, 9, 1] [99] =
     Inr \<lparr>dec_accepted = 2, dec_correction_row = 2, dec_next_token = 9\<rparr> \<and>
   take 2 [5, 6, 7] @ [9] = take 3 [5, 6, 9, 1 :: u32]"
proof -
  have d: "decide_mtp_greedy [5, 6, 7] [5, 6, 9, 1] [99] =
      Inr \<lparr>dec_accepted = 2, dec_correction_row = 2, dec_next_token = 9\<rparr>"
    by (simp add: decide_mtp_greedy_def accept_from.simps Let_def)
  show ?thesis using d decide_mtp_greedy_lossless [OF d] by simp
qed

end
