(* ===== verification/Decode_State.thy ===== *)
theory Decode_State
  imports Prelude
begin

text \<open>
  The state that decoding keeps: \<open>ModelDecodeState\<close> and \<open>MtpDecodeState\<close> over the state of one
  layer, and the state of one decoder layer as the sources declare it. Arrays live in a
  third-party library; \<open>'a\<close> is their type.
\<close>

record 'ls decode_state =
  ds_layers :: "'ls list"
  ds_token_count :: nat

record 'hl mtp_decode_state =
  ms_layer :: 'hl
  ms_row_count :: nat
  ms_position_base :: "nat option"

record 'a GatedDeltaNetState =
  gd_convolution :: 'a
  gd_recurrent :: 'a
  gd_rollback_key :: 'a
  gd_rollback_value :: 'a
  gd_rollback_decay :: 'a
  gd_rollback_beta :: 'a
  gd_rollback_rows :: nat
  gd_initialized :: bool

record 'a SelfAttentionState =
  sa_keys :: 'a
  sa_values :: 'a
  sa_key_weights :: 'a
  sa_key_scales :: 'a
  sa_key_biases :: 'a
  sa_value_weights :: 'a
  sa_value_scales :: 'a
  sa_value_biases :: 'a
  sa_kv_q8 :: bool
  sa_kv_q8_cold_tokens :: nat
  sa_qsa_raw_keys :: 'a
  sa_qsa_raw_start :: nat
  sa_qsa_pooled_keys :: 'a
  sa_qsa_pooled_count :: nat
  sa_token_count :: nat
  sa_position_base :: nat

record NgramState =
  ng_previous0 :: u32
  ng_previous1 :: u32
  ng_segment_length :: nat
  ng_initialized :: bool

record 'a PleState =
  ple_ngram :: NgramState
  ple_convolution :: 'a
  ple_convolution_initialized :: bool

record 'a DecoderLayerState =
  dl_linear_attention :: "'a GatedDeltaNetState"
  dl_full_attention :: "'a SelfAttentionState"
  dl_ple :: "'a PleState"

end
