(* ===== verification/Target_Model.thy ===== *)
theory Target_Model
  imports Decode_State
begin

text \<open>
  The orchestration of the target model, \<^verbatim>\<open>src/model.cpp\<close>: how one token is decoded through all
  layers, how several rows are verified layer by layer, how the work a verification deferred is
  materialised, and how prompt chunks are ingested.

  The numerical work inside one layer, the embedding table, the final mixer and the language
  head run on MLX arrays, a library outside the sources. They are the fields of the record
  \<open>model\<close>, so every definition below is about an arbitrary choice of them. Nothing says that the
  single-row, the several-row and the chunk kernel of a layer agree: the repository's README
  reports that their greedy trajectories may differ. A verification kernel rejects a layer state
  that still holds deferred rollback rows, and materialising an ill-formed rollback throws, so
  these two kernels return results. A batch array \<^verbatim>\<open>[1,S,D]\<close> is the list of its \<open>S\<close> rows. Evaluation barriers only force lazy arrays
  and have no effect on values; what remains of them is the check of their environment
  variable and, for prompt chunks, the layer group that one \<open>advance\<close> call covers.
\<close>

subsection \<open>State and kernels\<close>

record ('s, 'ls) layer =
  lk_decode :: "'s \<Rightarrow> u32 \<Rightarrow> 'ls \<Rightarrow> 's \<times> 'ls"
  lk_verify :: "'s list \<Rightarrow> u32 list \<Rightarrow> 'ls \<Rightarrow> ('s list \<times> 'ls list) result"
  lk_prefill :: "'s list \<Rightarrow> u32 list \<Rightarrow> 'ls \<Rightarrow> 's list \<times> 'ls"
  lk_materialize :: "'ls \<Rightarrow> 'ls result"

record ('s, 'ls, 'm, 'g) model =
  md_vocabulary_size :: nat
  md_embed_stream :: "u32 \<Rightarrow> 's"
  md_embed_batch :: "u32 list \<Rightarrow> 's list"
  md_layers :: "('s, 'ls) layer list"
  md_read :: "'s \<Rightarrow> 'm"
  md_read_batch :: "'s list \<Rightarrow> 'm list"
  md_head :: "'m \<Rightarrow> 'g"
  md_head_batch :: "'m list \<Rightarrow> 'g list"
  md_argmax :: "'g \<Rightarrow> u32"
  md_take_logit :: "'g \<Rightarrow> u32 \<Rightarrow> u32"

record ('s, 'g) target_decode_step =
  td_logits :: 'g
  td_pre_mixer_stream :: 's

record ('s, 'ls, 'm, 'g) target_verify_step =
  tv_logits :: 'g
  tv_final_mixed :: 'm
  tv_pre_mixer_stream :: 's
  tv_state_after :: "'ls decode_state"

abbreviation layer_mismatch :: error where
  "layer_mismatch \<equiv> RuntimeError ''model state layer count mismatch''"

definition state_fits :: "('s, 'ls, 'm, 'g) model \<Rightarrow> 'ls decode_state \<Rightarrow> bool" where
  "state_fits M st \<longleftrightarrow> length (ds_layers st) = length (md_layers M)"

definition snapshot_state :: "('s, 'ls, 'm, 'g) model \<Rightarrow> 'ls decode_state \<Rightarrow> 'ls decode_state result" where
  "snapshot_state M st = (if \<not> state_fits M st then Inl layer_mismatch else Inr st)"

definition barrier_stride :: "string \<Rightarrow> nat \<Rightarrow> string \<Rightarrow> environment \<Rightarrow> nat result" where
  "barrier_stride name fallback message env =
     (case env name of
        None \<Rightarrow> Inr fallback
      | Some raw \<Rightarrow>
          (case strtoul10 raw of
             None \<Rightarrow> Inl (RuntimeError message)
           | Some (parsed, rest) \<Rightarrow>
               if rest \<noteq> [] \<or> parsed < 1 \<or> parsed > 48 then Inl (RuntimeError message)
               else Inr parsed))"

definition verify_barrier_stride :: "environment \<Rightarrow> nat result" where
  "verify_barrier_stride = barrier_stride ''QWEN38_VERIFY_BARRIER_STRIDE'' 16
     ''verify barrier stride must be between 1 and 48''"

definition prefill_barrier_stride :: "environment \<Rightarrow> nat result" where
  "prefill_barrier_stride = barrier_stride ''QWEN38_PREFILL_BARRIER_STRIDE'' 1
     ''prefill barrier stride must be between 1 and 48''"

definition decode_barrier_stride :: "environment \<Rightarrow> nat result" where
  "decode_barrier_stride = barrier_stride ''QWEN38_DECODE_BARRIER_STRIDE'' 48
     ''decode barrier stride must be between 1 and 48''"

lemma barrier_stride_range:
  "barrier_stride name fallback message env = Inr n \<Longrightarrow> 1 \<le> fallback \<Longrightarrow> fallback \<le> 48 \<Longrightarrow>
     1 \<le> n \<and> n \<le> 48"
  by (auto simp: barrier_stride_def split: option.splits prod.splits if_splits)

lemma prefill_barrier_stride_pos: "prefill_barrier_stride env = Inr n \<Longrightarrow> 0 < n"
  unfolding prefill_barrier_stride_def by (drule barrier_stride_range) auto

subsection \<open>Decoding one token\<close>

definition embed :: "('s, 'ls, 'm, 'g) model \<Rightarrow> u32 \<Rightarrow> 's result" where
  "embed M token =
     (if unat token \<ge> md_vocabulary_size M then Inl (RuntimeError ''token id is out of range'')
      else Inr (md_embed_stream M token))"

fun decode_layers :: "('s, 'ls) layer list \<Rightarrow> 's \<Rightarrow> u32 \<Rightarrow> 'ls list \<Rightarrow> 's \<times> 'ls list" where
  "decode_layers (l # ls) s token (x # xs) =
     (let (s', x') = lk_decode l s token x;
          (s'', xs') = decode_layers ls s' token xs
      in (s'', x' # xs'))"
| "decode_layers _ s token xs = (s, xs)"

definition forward_hidden_decode_impl ::
    "environment \<Rightarrow> ('s, 'ls, 'm, 'g) model \<Rightarrow> u32 \<Rightarrow> 'ls decode_state \<Rightarrow>
     ('m \<times> 's) result \<times> 'ls decode_state" where
  "forward_hidden_decode_impl env M token st =
     (if \<not> state_fits M st then (Inl layer_mismatch, st)
      else case embed M token of
        Inl e \<Rightarrow> (Inl e, st)
      | Inr stream \<Rightarrow>
          (case decode_barrier_stride env of
             Inl e \<Rightarrow> (Inl e, st)
           | Inr _ \<Rightarrow>
               let (stream', layers') = decode_layers (md_layers M) stream token (ds_layers st)
               in (Inr (md_read M stream', stream'),
                   \<lparr>ds_layers = layers', ds_token_count = ds_token_count st + 1\<rparr>)))"

definition forward_decode_capture ::
    "environment \<Rightarrow> ('s, 'ls, 'm, 'g) model \<Rightarrow> u32 \<Rightarrow> 'ls decode_state \<Rightarrow>
     ('s, 'g) target_decode_step result \<times> 'ls decode_state" where
  "forward_decode_capture env M token st =
     (case forward_hidden_decode_impl env M token st of
        (Inl e, st') \<Rightarrow> (Inl e, st')
      | (Inr (mixed, stream), st') \<Rightarrow>
          (Inr \<lparr>td_logits = md_head M mixed, td_pre_mixer_stream = stream\<rparr>, st'))"

text \<open>
  Materialisation goes through the layers in order; a layer that throws leaves the layers before
  it materialised and the others as they were.
\<close>

fun materialize_layers :: "('s, 'ls) layer list \<Rightarrow> 'ls list \<Rightarrow> unit result \<times> 'ls list" where
  "materialize_layers (l # ls) (x # xs) =
     (case lk_materialize l x of
        Inl e \<Rightarrow> (Inl e, x # xs)
      | Inr x' \<Rightarrow> (case materialize_layers ls xs of (r, xs') \<Rightarrow> (r, x' # xs')))"
| "materialize_layers _ xs = (Inr (), xs)"

definition materialize_speculative_state ::
    "('s, 'ls, 'm, 'g) model \<Rightarrow> 'ls decode_state \<Rightarrow> unit result \<times> 'ls decode_state" where
  "materialize_speculative_state M st =
     (if \<not> state_fits M st then (Inl layer_mismatch, st)
      else case materialize_layers (md_layers M) (ds_layers st) of
        (r, layers) \<Rightarrow> (r, st\<lparr>ds_layers := layers\<rparr>))"

subsection \<open>Layer-major verification of several rows\<close>

fun verify_layers ::
    "('s, 'ls) layer list \<Rightarrow> 's list \<Rightarrow> u32 list \<Rightarrow> 'ls list \<Rightarrow> ('s list \<times> 'ls list list) result" where
  "verify_layers (l # ls) streams tokens (x # xs) =
     res_bind (lk_verify l streams tokens x) (\<lambda>(streams', checkpoints).
       res_bind (verify_layers ls streams' tokens xs) (\<lambda>(streams'', rest).
         Inr (streams'', checkpoints # rest)))"
| "verify_layers _ streams tokens _ = Inr (streams, [])"

definition verify_head ::
    "environment \<Rightarrow> ('s, 'ls, 'm, 'g) model \<Rightarrow> 's list \<Rightarrow> ('g \<times> 'm) list" where
  "verify_head env M streams =
     (if env ''QWEN38_BATCH_VERIFY_HEAD'' = Some ''0''
      then map (\<lambda>s. (md_head M (md_read M s), md_read M s)) streams
      else let mixed = md_read_batch M streams
           in zip (md_head_batch M mixed) mixed)"

definition forward_verify_layer_major_reference ::
    "environment \<Rightarrow> ('s, 'ls, 'm, 'g) model \<Rightarrow> u32 list \<Rightarrow> 'ls decode_state \<Rightarrow>
     ('s, 'ls, 'm, 'g) target_verify_step list result" where
  "forward_verify_layer_major_reference env M tokens origin =
     (if tokens = [] \<or> length tokens > 25 then
        Inl (RuntimeError ''target verify row count must be between 1 and 25'')
      else if \<not> state_fits M origin then Inl layer_mismatch
      else if ds_token_count origin > SIZE_MAX - length tokens then
        Inl (RuntimeError ''target verify token count overflow'')
      else res_bind (res_map (embed M) tokens) (\<lambda>embedded.
        res_bind (verify_barrier_stride env) (\<lambda>_.
          res_bind (verify_layers (md_layers M) embedded tokens (ds_layers origin))
            (\<lambda>(streams, checkpoints).
              let heads = verify_head env M streams
              in Inr (map (\<lambda>row.
                   \<lparr>tv_logits = fst (heads ! row), tv_final_mixed = snd (heads ! row),
                    tv_pre_mixer_stream = streams ! row,
                    tv_state_after =
                      \<lparr>ds_layers = map (\<lambda>cs. cs ! row) checkpoints,
                       ds_token_count = ds_token_count origin + row + 1\<rparr>\<rparr>) [0..<length tokens])))))"


subsection \<open>Steady states\<close>

text \<open>
  What the layers promise of their states, as far as success goes. A predicate \<open>ok\<close> holds of the
  states that hold no deferred work: decoding and prefilling keep it, prefilling returns one
  stream per row, and verifying up to 25 rows succeeds with one stream and one checkpoint per row,
  each of which materialises to an \<open>ok\<close> state. Nothing is said about the values computed.
\<close>

definition layer_steady :: "('ls \<Rightarrow> bool) \<Rightarrow> ('s, 'ls) layer \<Rightarrow> bool" where
  "layer_steady ok l \<longleftrightarrow>
     (\<forall>s t x. ok x \<longrightarrow> ok (snd (lk_decode l s t x))) \<and>
     (\<forall>ss ts x. ok x \<longrightarrow> ts \<noteq> [] \<longrightarrow> length ss = length ts \<longrightarrow>
        length (fst (lk_prefill l ss ts x)) = length ts \<and> ok (snd (lk_prefill l ss ts x))) \<and>
     (\<forall>ss ts x. ok x \<longrightarrow> ts \<noteq> [] \<longrightarrow> length ts \<le> 25 \<longrightarrow> length ss = length ts \<longrightarrow>
        (\<exists>ss' cs. lk_verify l ss ts x = Inr (ss', cs) \<and> length ss' = length ts \<and> length cs = length ts \<and>
           (\<forall>c \<in> set cs. \<exists>c'. lk_materialize l c = Inr c' \<and> ok c')))"

definition steady :: "('ls \<Rightarrow> bool) \<Rightarrow> ('s, 'ls, 'm, 'g) model \<Rightarrow> bool" where
  "steady ok M \<longleftrightarrow> md_layers M \<noteq> [] \<and> (\<forall>l \<in> set (md_layers M). layer_steady ok l) \<and>
     (\<forall>ts. length (md_embed_batch M ts) = length ts)"

definition state_ok :: "('ls \<Rightarrow> bool) \<Rightarrow> ('s, 'ls, 'm, 'g) model \<Rightarrow> 'ls decode_state \<Rightarrow> bool" where
  "state_ok ok M st \<longleftrightarrow> state_fits M st \<and> (\<forall>x \<in> set (ds_layers st). ok x)"

lemma state_ok_fits [dest]: "state_ok ok M st \<Longrightarrow> state_fits M st"
  by (simp add: state_ok_def)

lemma layer_steady_decode: "layer_steady ok l \<Longrightarrow> ok x \<Longrightarrow> ok (snd (lk_decode l s t x))"
  unfolding layer_steady_def by blast

lemma layer_steady_prefill:
  "layer_steady ok l \<Longrightarrow> ok x \<Longrightarrow> ts \<noteq> [] \<Longrightarrow> length ss = length ts \<Longrightarrow>
     length (fst (lk_prefill l ss ts x)) = length ts \<and> ok (snd (lk_prefill l ss ts x))"
  unfolding layer_steady_def by blast

lemma layer_steady_verify:
  assumes "layer_steady ok l" and "ok x" and "ts \<noteq> []" and "length ts \<le> 25" and "length ss = length ts"
  obtains ss' cs where "lk_verify l ss ts x = Inr (ss', cs)" and "length ss' = length ts"
    and "length cs = length ts" and "\<forall>c \<in> set cs. \<exists>c'. lk_materialize l c = Inr c' \<and> ok c'"
proof -
  have "\<exists>ss' cs. lk_verify l ss ts x = Inr (ss', cs) \<and> length ss' = length ts \<and> length cs = length ts \<and>
      (\<forall>c \<in> set cs. \<exists>c'. lk_materialize l c = Inr c' \<and> ok c')"
    by (rule assms(1) [unfolded layer_steady_def, THEN conjunct2, THEN conjunct2, rule_format, OF assms(2-5)])
  then show thesis using that by (elim exE conjE)
qed

lemma decode_layers_length:
  "length L = length xs \<Longrightarrow> length (snd (decode_layers L s t xs)) = length L"
  by (induction L s t xs rule: decode_layers.induct) (auto simp: Let_def split: prod.splits)

lemma decode_layers_ok:
  "length L = length xs \<Longrightarrow> \<forall>l \<in> set L. layer_steady ok l \<Longrightarrow> \<forall>x \<in> set xs. ok x \<Longrightarrow>
     \<forall>x \<in> set (snd (decode_layers L s t xs)). ok x"
proof (induction L s t xs rule: decode_layers.induct)
  case (1 l ls s t x xs)
  obtain s' x' where d: "lk_decode l s t x = (s', x')" by fastforce
  obtain s'' xs' where r: "decode_layers ls s' t xs = (s'', xs')" by fastforce
  have "ok x'" using layer_steady_decode [of ok l x s t] 1(3,4) d by simp
  moreover have "\<forall>x \<in> set xs'. ok x" using 1(1) [OF d [symmetric] refl] 1(2-4) r by simp
  ultimately show ?case by (simp add: d r)
qed simp_all

lemma verify_layers_steady:
  assumes "ts \<noteq> []" and "length ts \<le> 25"
  shows "length L = length xs \<Longrightarrow> \<forall>l \<in> set L. layer_steady ok l \<Longrightarrow> \<forall>x \<in> set xs. ok x \<Longrightarrow>
    length ss = length ts \<Longrightarrow>
    \<exists>ss' css. verify_layers L ss ts xs = Inr (ss', css) \<and> length ss' = length ts \<and> length css = length L \<and>
      (\<forall>i < length L. length (css ! i) = length ts \<and>
         (\<forall>c \<in> set (css ! i). \<exists>c'. lk_materialize (L ! i) c = Inr c' \<and> ok c'))"
proof (induction L arbitrary: ss xs)
  case Nil
  then show ?case by simp
next
  case (Cons l L)
  obtain x xs' where xs: "xs = x # xs'" using Cons.prems(1) by (cases xs) auto
  have l: "layer_steady ok l" and x: "ok x" using Cons.prems(2,3) xs by simp_all
  obtain ss1 cs where v: "lk_verify l ss ts x = Inr (ss1, cs)" "length ss1 = length ts" "length cs = length ts"
      "\<forall>c \<in> set cs. \<exists>c'. lk_materialize l c = Inr c' \<and> ok c'"
    by (rule layer_steady_verify [OF l x assms Cons.prems(4)])
  have "length L = length xs'" "\<forall>l \<in> set L. layer_steady ok l" "\<forall>x \<in> set xs'. ok x"
    using Cons.prems(1-3) xs by simp_all
  from Cons.IH [OF this v(2)] obtain ss' css where r: "verify_layers L ss1 ts xs' = Inr (ss', css)"
    "length ss' = length ts" "length css = length L"
    "\<forall>i < length L. length (css ! i) = length ts \<and>
       (\<forall>c \<in> set (css ! i). \<exists>c'. lk_materialize (L ! i) c = Inr c' \<and> ok c')"
    by blast
  have "\<forall>i < length (l # L). length ((cs # css) ! i) = length ts \<and>
      (\<forall>c \<in> set ((cs # css) ! i). \<exists>c'. lk_materialize ((l # L) ! i) c = Inr c' \<and> ok c')"
    using v(3,4) r(4) by (simp add: All_less_Suc2)
  then show ?case using v(1) r(1-3) xs by (intro exI [of _ ss'] exI [of _ "cs # css"]) simp
qed

lemma materialize_layers_length:
  "length (snd (materialize_layers L xs)) = length xs"
  by (induction L xs rule: materialize_layers.induct) (auto split: sum.splits prod.splits)

lemma materialize_layers_ok:
  "length L = length xs \<Longrightarrow> \<forall>i < length L. \<exists>c'. lk_materialize (L ! i) (xs ! i) = Inr c' \<and> ok c' \<Longrightarrow>
     \<exists>xs'. materialize_layers L xs = (Inr (), xs') \<and> length xs' = length L \<and> (\<forall>x \<in> set xs'. ok x)"
proof (induction L xs rule: list_induct2)
  case Nil
  then show ?case by simp
next
  case (Cons l L x xs)
  obtain c' where c': "lk_materialize l x = Inr c'" "ok c'" using Cons.prems by fastforce
  have "\<forall>i < length L. \<exists>c'. lk_materialize (L ! i) (xs ! i) = Inr c' \<and> ok c'"
    using Cons.prems by fastforce
  from Cons.IH [OF this] obtain xs' where "materialize_layers L xs = (Inr (), xs')" "length xs' = length L"
    "\<forall>x \<in> set xs'. ok x" by blast
  then show ?case using c' by simp
qed

lemma materialize_fits:
  "materialize_speculative_state M st = (r, st') \<Longrightarrow>
     ds_token_count st' = ds_token_count st \<and> (state_fits M st' \<longleftrightarrow> state_fits M st)"
  using materialize_layers_length [of "md_layers M" "ds_layers st"]
  by (auto simp: materialize_speculative_state_def state_fits_def split: if_splits prod.splits)

subsection \<open>What a target call does to the state\<close>

lemma forward_hidden_decode_ok:
  assumes "state_fits M st" and "embed M t = Inr s" and "decode_barrier_stride env = Inr d"
    and "decode_layers (md_layers M) s t (ds_layers st) = (s', xs')"
  shows "forward_decode_capture env M t st =
    (Inr \<lparr>td_logits = md_head M (md_read M s'), td_pre_mixer_stream = s'\<rparr>,
     \<lparr>ds_layers = xs', ds_token_count = ds_token_count st + 1\<rparr>)"
  using assms by (simp add: forward_decode_capture_def forward_hidden_decode_impl_def)

lemma forward_decode_captureE:
  assumes "forward_decode_capture env M t st = (Inr step, st')"
  obtains s s' xs' where "state_fits M st" and "embed M t = Inr s"
    and "decode_layers (md_layers M) s t (ds_layers st) = (s', xs')"
    and "st' = \<lparr>ds_layers = xs', ds_token_count = ds_token_count st + 1\<rparr>"
  using assms
  by (auto simp: forward_decode_capture_def forward_hidden_decode_impl_def Let_def
      split: sum.splits prod.splits if_splits)

lemma forward_decode_capture_fits:
  assumes "forward_decode_capture env M t st = (Inr step, st')"
  shows "state_fits M st \<and> state_fits M st' \<and> ds_token_count st' = ds_token_count st + 1"
proof -
  obtain s s' xs' where d: "state_fits M st" "decode_layers (md_layers M) s t (ds_layers st) = (s', xs')"
    "st' = \<lparr>ds_layers = xs', ds_token_count = ds_token_count st + 1\<rparr>"
    by (rule forward_decode_captureE [OF assms])
  then show ?thesis
    using decode_layers_length [of "md_layers M" "ds_layers st" s t] by (simp add: state_fits_def)
qed

lemma forward_decode_capture_keeps_ok:
  assumes "forward_decode_capture env M t st = (Inr step, st')" and "steady ok M" and "state_ok ok M st"
  shows "state_ok ok M st'"
proof -
  obtain s s' xs' where d: "decode_layers (md_layers M) s t (ds_layers st) = (s', xs')"
    "st' = \<lparr>ds_layers = xs', ds_token_count = ds_token_count st + 1\<rparr>"
    by (rule forward_decode_captureE [OF assms(1)])
  have "\<forall>x \<in> set xs'. ok x"
    using decode_layers_ok [of "md_layers M" "ds_layers st" ok s t] assms(2,3) d(1)
    by (simp add: steady_def state_ok_def state_fits_def)
  then show ?thesis using forward_decode_capture_fits [OF assms(1)] d(2) by (simp add: state_ok_def)
qed

lemma forward_decode_capture_error_keeps_state:
  assumes "forward_decode_capture env M t st = (Inl e, st')"
  shows "st' = st"
  using assms
  by (auto simp: forward_decode_capture_def forward_hidden_decode_impl_def Let_def
      split: sum.splits prod.splits if_splits)

lemma verify_layers_length:
  "length L = length xs \<Longrightarrow> verify_layers L ss ts xs = Inr (ss', css) \<Longrightarrow> length css = length L"
  by (induction L ss ts xs arbitrary: ss' css rule: verify_layers.induct)
     (auto split: prod.splits)

text \<open>A verification that returns has checked its arguments and returns one row per token.\<close>

lemma forward_verify_shape:
  assumes "forward_verify_layer_major_reference env M ts st = Inr rows"
  shows "ts \<noteq> [] \<and> length ts \<le> 25 \<and> length rows = length ts \<and> state_fits M st \<and>
    ds_token_count st + length ts \<le> SIZE_MAX \<and>
    (\<forall>r < length ts. state_fits M (tv_state_after (rows ! r)) \<and>
       ds_token_count (tv_state_after (rows ! r)) = ds_token_count st + r + 1)"
proof -
  have fits: "state_fits M st" "ts \<noteq> []" "length ts \<le> 25" "ds_token_count st + length ts \<le> SIZE_MAX"
    using assms by (auto simp: forward_verify_layer_major_reference_def SIZE_MAX_def split: if_splits)
  from assms obtain embedded streams css where
      "verify_layers (md_layers M) embedded ts (ds_layers st) = Inr (streams, css)"
    and rows: "rows = map (\<lambda>row.
        \<lparr>tv_logits = fst (verify_head env M streams ! row), tv_final_mixed = snd (verify_head env M streams ! row),
         tv_pre_mixer_stream = streams ! row,
         tv_state_after = \<lparr>ds_layers = map (\<lambda>cs. cs ! row) css,
           ds_token_count = ds_token_count st + row + 1\<rparr>\<rparr>) [0..<length ts]"
    by (auto simp: forward_verify_layer_major_reference_def Let_def
        split: if_splits prod.splits)
  then have "length css = length (md_layers M)"
    using verify_layers_length fits(1) by (metis state_fits_def)
  then show ?thesis using fits by (auto simp: rows state_fits_def)
qed

lemma embed_all_vocabulary: "res_map (embed M) ts = Inr ss \<Longrightarrow> \<forall>x \<in> set ts. unat x < md_vocabulary_size M"
  by (induction ts arbitrary: ss) (auto simp: embed_def split: if_splits)

lemma forward_verify_total:
  assumes "steady ok M" and "state_ok ok M st" and "ts \<noteq> []" and "length ts \<le> 25"
    and "ds_token_count st + length ts \<le> SIZE_MAX" and "\<forall>t \<in> set ts. unat t < md_vocabulary_size M"
    and "verify_barrier_stride env = Inr n"
  shows "\<exists>rows. forward_verify_layer_major_reference env M ts st = Inr rows \<and>
    (\<forall>r < length ts. \<exists>st'. materialize_speculative_state M (tv_state_after (rows ! r)) = (Inr (), st') \<and>
       state_ok ok M st')"
proof -
  let ?ss = "map (md_embed_stream M) ts" and ?L = "md_layers M"
  have fits: "state_fits M st" and oks: "\<forall>x \<in> set (ds_layers st). ok x"
    using assms(2) by (auto simp: state_ok_def)
  have emb: "res_map (embed M) ts = Inr ?ss"
    using assms(6) by (intro res_map_all_Inr) (auto simp: embed_def not_le)
  have L: "length ?L = length (ds_layers st)" using fits by (simp add: state_fits_def)
  from verify_layers_steady [OF assms(3,4) L _ oks, of ?ss] assms(1)
  obtain ss' css where v: "verify_layers ?L ?ss ts (ds_layers st) = Inr (ss', css)" "length css = length ?L"
    and c: "\<forall>i < length ?L. length (css ! i) = length ts \<and>
       (\<forall>c \<in> set (css ! i). \<exists>c'. lk_materialize (?L ! i) c = Inr c' \<and> ok c')"
    by (auto simp: steady_def)
  let ?row = "\<lambda>row. \<lparr>tv_logits = fst (verify_head env M ss' ! row), tv_final_mixed = snd (verify_head env M ss' ! row),
    tv_pre_mixer_stream = ss' ! row, tv_state_after = \<lparr>ds_layers = map (\<lambda>cs. cs ! row) css,
      ds_token_count = ds_token_count st + row + 1\<rparr>\<rparr>"
  have rows: "forward_verify_layer_major_reference env M ts st = Inr (map ?row [0..<length ts])"
    using emb v(1) assms(3,4,5,7) fits
    by (simp add: forward_verify_layer_major_reference_def Let_def not_less del: upt_Suc)
  have "\<exists>st'. materialize_speculative_state M (tv_state_after (?row r)) = (Inr (), st') \<and> state_ok ok M st'"
    if r: "r < length ts" for r
  proof -
    have "\<forall>i < length ?L. \<exists>c'. lk_materialize (?L ! i) (map (\<lambda>cs. cs ! r) css ! i) = Inr c' \<and> ok c'"
      using c r v(2) by simp
    from materialize_layers_ok [OF _ this] obtain xs' where
      "materialize_layers ?L (map (\<lambda>cs. cs ! r) css) = (Inr (), xs')" "length xs' = length ?L" "\<forall>x \<in> set xs'. ok x"
      using v(2) by auto
    then show ?thesis
      using v(2) by (simp add: materialize_speculative_state_def state_ok_def state_fits_def)
  qed
  then show ?thesis using rows by (intro exI [of _ "map ?row [0..<length ts]"]) simp
qed

subsection \<open>A small model for evaluation\<close>

text \<open>
  A concrete model with two layers and a vocabulary of 64 tokens. A layer adds the token and
  the length of its history to the stream; the head reads the stream.
\<close>

fun decode_rows :: "('s, 'ls) layer \<Rightarrow> 's list \<Rightarrow> u32 list \<Rightarrow> 'ls \<Rightarrow> 's list \<times> 'ls list" where
  "decode_rows l (s # ss) (t # ts) x =
     (let (s', x') = lk_decode l s t x;
          (ss', xs') = decode_rows l ss ts x'
      in (s' # ss', x' # xs'))"
| "decode_rows l _ _ x = ([], [])"

lemma decode_rows_length:
  "length ss = length ts \<Longrightarrow>
     length (fst (decode_rows l ss ts x)) = length ts \<and> length (snd (decode_rows l ss ts x)) = length ts"
  by (induction l ss ts x rule: decode_rows.induct) (auto simp: Let_def split: prod.splits)

definition sample_serial_layer :: "(u32, u32 list) layer" where
  "sample_serial_layer = \<lparr>lk_decode = (\<lambda>s t x. (s + t + of_nat (length x), t # x)),
     lk_verify = (\<lambda>_ _ _. Inr ([], [])), lk_prefill = (\<lambda>ss ts x. (ss, rev ts @ x)),
     lk_materialize = Inr\<rparr>"

definition sample_layer :: "(u32, u32 list) layer" where
  "sample_layer = sample_serial_layer\<lparr>lk_verify := (\<lambda>ss ts x. Inr (decode_rows sample_serial_layer ss ts x))\<rparr>"

definition sample_model :: "(u32, u32 list, u32, u32) model" where
  "sample_model = \<lparr>md_vocabulary_size = 64, md_embed_stream = (\<lambda>t. t), md_embed_batch = (\<lambda>ts. ts),
     md_layers = [sample_layer, sample_layer], md_read = (\<lambda>s. s), md_read_batch = (\<lambda>ss. ss),
     md_head = (\<lambda>m. m), md_head_batch = (\<lambda>ms. ms), md_argmax = (\<lambda>g. g mod 64),
     md_take_logit = (\<lambda>g t. g)\<rparr>"

definition sample_state :: "u32 list decode_state" where
  "sample_state = \<lparr>ds_layers = [[], []], ds_token_count = 0\<rparr>"

lemma sample_layer_steady: "layer_steady (\<lambda>_. True) sample_layer"
  unfolding layer_steady_def
proof (intro conjI allI impI TrueI, goal_cases)
  case (1 ss ts x)
  then show ?case by (simp add: sample_layer_def sample_serial_layer_def)
next
  case (2 ss ts x)
  then show ?case
    using decode_rows_length [OF 2(4), of sample_serial_layer x]
    by (cases "decode_rows sample_serial_layer ss ts x") (simp add: sample_layer_def sample_serial_layer_def)
qed

lemma sample_steady: "steady (\<lambda>_. True) sample_model"
  using sample_layer_steady by (simp add: steady_def sample_model_def)

lemmas sample_defs = sample_model_def sample_layer_def sample_serial_layer_def sample_state_def

abbreviation no_environment :: environment where
  "no_environment \<equiv> (\<lambda>_. None)"

lemma default_strides:
  "verify_barrier_stride no_environment = Inr 16"
  "prefill_barrier_stride no_environment = Inr 1"
  "decode_barrier_stride no_environment = Inr 48"
  by (simp_all add: verify_barrier_stride_def prefill_barrier_stride_def decode_barrier_stride_def
      barrier_stride_def)

end
