(* ===== verification/Target_Multi.thy ===== *)
theory Target_Multi
  imports Target_Model
begin

text \<open>
  Decoding one token for several requests at once, \<open>QwenModel::forward_decode_capture_multi\<close> of
  \<^verbatim>\<open>src/model.cpp\<close>. The kernel of a layer gets the streams, the tokens and the layer states of all
  rows; \<open>read_branch2\<close> is the final mixer for two rows. Both are MLX graphs and so parameters.
\<close>

record ('s, 'ls, 'm) multi_kernels =
  mk_decode_multi :: "('s list \<Rightarrow> u32 list \<Rightarrow> 'ls list \<Rightarrow> 's list \<times> 'ls list) list"
  mk_read_branch2 :: "'s list \<Rightarrow> 'm list"

fun check_multi_rows :: "('s, 'ls, 'm, 'g) model \<Rightarrow> u32 list \<Rightarrow> 'ls decode_state list \<Rightarrow> unit result" where
  "check_multi_rows M (t # ts) (st # sts) =
     (if \<not> state_fits M st then Inl (RuntimeError ''multi-request model state layer count mismatch'')
      else if unat t \<ge> md_vocabulary_size M then Inl (RuntimeError ''multi-request token id is out of range'')
      else check_multi_rows M ts sts)"
| "check_multi_rows M _ _ = Inr ()"

text \<open>The loop over the layers; row \<open>r\<close> of \<open>xss\<close> holds the layer states of request \<open>r\<close>.\<close>

fun multi_layers ::
    "('s list \<Rightarrow> u32 list \<Rightarrow> 'ls list \<Rightarrow> 's list \<times> 'ls list) list \<Rightarrow> nat \<Rightarrow> u32 list \<Rightarrow> 's list \<Rightarrow>
     'ls list list \<Rightarrow> 's list \<times> 'ls list list" where
  "multi_layers [] layer tokens streams xss = (streams, xss)"
| "multi_layers (k # ks) layer tokens streams xss =
     (case k streams tokens (map (\<lambda>xs. xs ! layer) xss) of
        (streams', column) \<Rightarrow>
          multi_layers ks (layer + 1) tokens streams' (map2 (\<lambda>xs x. xs[layer := x]) xss column))"

definition hc_branch_batch_enabled :: "environment \<Rightarrow> bool" where
  "hc_branch_batch_enabled env \<longleftrightarrow> env ''QWEN38_HC_EXACT_BRANCH_BATCH'' = Some ''1''"

definition forward_decode_capture_multi ::
    "environment \<Rightarrow> ('s, 'ls, 'm) multi_kernels \<Rightarrow> ('s, 'ls, 'm, 'g) model \<Rightarrow> u32 list \<Rightarrow> 'ls decode_state list \<Rightarrow>
     ('s, 'g) target_decode_step list result \<times> 'ls decode_state list" where
  "forward_decode_capture_multi env K M tokens states =
     (if tokens = [] \<or> length tokens \<noteq> length states \<or> length tokens > 64 then
        (Inl (RuntimeError ''multi-request model decode requires 1 to 64 matching rows''), states)
      else case res_bind (check_multi_rows M tokens states) (\<lambda>_. decode_barrier_stride env) of
        Inl e \<Rightarrow> (Inl e, states)
      | Inr _ \<Rightarrow>
          (case multi_layers (mk_decode_multi K) 0 tokens (map (md_embed_stream M) tokens)
              (map ds_layers states) of
             (streams, xss) \<Rightarrow>
               let mixed = (if length streams = 2 \<and> hc_branch_batch_enabled env
                     then mk_read_branch2 K streams else map (md_read M) streams)
               in (Inr (map2 (\<lambda>m s. \<lparr>td_logits = md_head M m, td_pre_mixer_stream = s\<rparr>) mixed streams),
                   map2 (\<lambda>xs st. \<lparr>ds_layers = xs, ds_token_count = ds_token_count st + 1\<rparr>) xss states)))"

subsection \<open>Shapes\<close>

text \<open>
  The kernels for several rows return one stream and one layer state per row and keep the states
  free of deferred work. As for one row, nothing is said about the values.
\<close>

definition kernel_steady :: "('ls \<Rightarrow> bool) \<Rightarrow> ('s list \<Rightarrow> u32 list \<Rightarrow> 'ls list \<Rightarrow> 's list \<times> 'ls list) \<Rightarrow> bool" where
  "kernel_steady ok k \<longleftrightarrow>
     (\<forall>ss ts xs. length ss = length ts \<longrightarrow> length xs = length ts \<longrightarrow>
        length (fst (k ss ts xs)) = length ts \<and> length (snd (k ss ts xs)) = length ts \<and>
        (\<forall>r < length ts. ok (xs ! r) \<longrightarrow> ok (snd (k ss ts xs) ! r)))"

definition multi_steady ::
    "('ls \<Rightarrow> bool) \<Rightarrow> ('s, 'ls, 'm) multi_kernels \<Rightarrow> ('s, 'ls, 'm, 'g) model \<Rightarrow> bool" where
  "multi_steady ok K M \<longleftrightarrow>
     length (mk_decode_multi K) = length (md_layers M) \<and>
     (\<forall>ss. length (mk_read_branch2 K ss) = length ss) \<and> (\<forall>k \<in> set (mk_decode_multi K). kernel_steady ok k)"

lemma kernel_steadyD:
  assumes "kernel_steady ok k" and "length ss = length ts" and "length xs = length ts"
  shows "length (fst (k ss ts xs)) = length ts \<and> length (snd (k ss ts xs)) = length ts \<and>
    (\<forall>r < length ts. ok (xs ! r) \<longrightarrow> ok (snd (k ss ts xs) ! r))"
  by (rule assms(1) [unfolded kernel_steady_def, rule_format, OF assms(2,3)])

text \<open>Whatever the kernels return, a row that comes out has a state for every layer.\<close>

lemma multi_layers_fits:
  "\<forall>xs \<in> set xss. length xs = n \<Longrightarrow> multi_layers ks layer ts ss xss = (ss', xss') \<Longrightarrow>
     \<forall>xs \<in> set xss'. length xs = n"
proof (induction ks arbitrary: layer ss xss)
  case Nil
  then show ?case by simp
next
  case (Cons k ks)
  obtain ss1 col where k: "k ss ts (map (\<lambda>xs. xs ! layer) xss) = (ss1, col)" by fastforce
  have "\<forall>xs \<in> set (map2 (\<lambda>xs x. xs[layer := x]) xss col). length xs = n"
    using Cons.prems(1) by (auto dest: set_zip_leftD)
  from Cons.IH [OF this] show ?case using Cons.prems(2) k by simp
qed

lemma set_list_update_ok: "\<forall>x \<in> set xs. P x \<Longrightarrow> P y \<Longrightarrow> \<forall>x \<in> set (xs[i := y]). P x"
  using set_update_subset_insert [of xs i y] by blast

lemma multi_layers_steady:
  assumes st: "multi_steady ok K M"
  shows "layer + length ks \<le> n \<Longrightarrow> set ks \<subseteq> set (mk_decode_multi K) \<Longrightarrow>
    length ss = length ts \<Longrightarrow> length xss = length ts \<Longrightarrow> \<forall>xs \<in> set xss. length xs = n \<Longrightarrow>
    multi_layers ks layer ts ss xss = (ss', xss') \<Longrightarrow>
      length ss' = length ts \<and> length xss' = length ts \<and>
      (\<forall>r < length ts. (\<forall>x \<in> set (xss ! r). ok x) \<longrightarrow> (\<forall>x \<in> set (xss' ! r). ok x))"
proof (induction ks arbitrary: layer ss xss)
  case Nil
  then show ?case by auto
next
  case (Cons k ks)
  let ?col = "map (\<lambda>xs. xs ! layer) xss"
  obtain ss1 col where k: "k ss ts ?col = (ss1, col)" by fastforce
  have ks: "kernel_steady ok k" using st Cons.prems(2) by (simp add: multi_steady_def)
  have "length ?col = length ts" using Cons.prems(4) by simp
  from kernel_steadyD [OF ks Cons.prems(3) this, unfolded k fst_conv snd_conv]
  have len: "length ss1 = length ts" "length col = length ts"
    and col: "\<And>r. r < length ts \<Longrightarrow> ok (?col ! r) \<Longrightarrow> ok (col ! r)"
    by blast+
  let ?xss = "map2 (\<lambda>xs x. xs[layer := x]) xss col"
  have upd: "\<forall>xs \<in> set ?xss. length xs = n"
    using Cons.prems(5) by (auto dest: set_zip_leftD)
  have lenx: "length ?xss = length ts" using Cons.prems(4) len(2) by simp
  have run: "multi_layers ks (layer + 1) ts ss1 ?xss = (ss', xss')" using Cons.prems(6) k by simp
  have "layer + 1 + length ks \<le> n" "set ks \<subseteq> set (mk_decode_multi K)" using Cons.prems(1,2) by simp_all
  note IH = Cons.IH [OF this len(1) lenx upd run]
  have "\<forall>x \<in> set (xss' ! r). ok x" if r: "r < length ts" and old: "\<forall>x \<in> set (xss ! r). ok x" for r
  proof -
    have "length (xss ! r) = n" using Cons.prems(4,5) r by simp
    then have "ok (xss ! r ! layer)" using old Cons.prems(1) by simp
    then have "ok (col ! r)" using col [OF r] r Cons.prems(4) by simp
    then have "\<forall>x \<in> set ((xss ! r)[layer := col ! r]). ok x" using old by (intro set_list_update_ok)
    moreover have "?xss ! r = (xss ! r)[layer := col ! r]" using r Cons.prems(4) len(2) by simp
    ultimately have "\<forall>x \<in> set (?xss ! r). ok x" by (simp only:)
    with IH r show ?thesis by blast
  qed
  then show ?case using IH by blast
qed

lemma check_multi_rows_ok:
  "length ts = length sts \<Longrightarrow> \<forall>st \<in> set sts. state_fits M st \<Longrightarrow> \<forall>t \<in> set ts. unat t < md_vocabulary_size M \<Longrightarrow>
     check_multi_rows M ts sts = Inr ()"
  by (induction ts sts rule: list_induct2) auto

lemma check_multi_rows_fits:
  "length ts = length sts \<Longrightarrow> check_multi_rows M ts sts = Inr () \<Longrightarrow> \<forall>st \<in> set sts. state_fits M st"
  by (induction ts sts rule: list_induct2) (auto split: if_splits)

text \<open>A call that returns has added one token to every row it returns.\<close>

lemma forward_multi_shape:
  assumes "forward_decode_capture_multi env K M ts sts = (Inr steps, sts')" and "r < length sts'"
  shows "length ts = length sts \<and> r < length ts \<and> state_fits M (sts' ! r) \<and>
    ds_token_count (sts' ! r) = ds_token_count (sts ! r) + 1"
proof -
  from assms(1) obtain ss xss where len: "length ts = length sts" and chk: "check_multi_rows M ts sts = Inr ()"
    and run: "multi_layers (mk_decode_multi K) 0 ts (map (md_embed_stream M) ts) (map ds_layers sts) = (ss, xss)"
    and sts': "sts' = map2 (\<lambda>xs st. \<lparr>ds_layers = xs, ds_token_count = ds_token_count st + 1\<rparr>) xss sts"
    by (auto simp: forward_decode_capture_multi_def Let_def split: if_splits sum.splits prod.splits)
  have "\<forall>xs \<in> set (map ds_layers sts). length xs = length (md_layers M)"
    using check_multi_rows_fits [OF len chk] by (auto simp: state_fits_def)
  from multi_layers_fits [OF this run] show ?thesis
    using assms(2) len by (auto simp: sts' state_fits_def)
qed

lemma forward_multi_error_keeps_states:
  "forward_decode_capture_multi env K M ts sts = (Inl e, sts') \<Longrightarrow> sts' = sts"
  by (auto simp: forward_decode_capture_multi_def Let_def split: if_splits sum.splits prod.splits)

text \<open>A row keeps its state free of deferred work whatever the other rows hold.\<close>

lemma forward_multi_keeps_ok:
  assumes st: "multi_steady ok K M" and run: "forward_decode_capture_multi env K M ts sts = (Inr steps, sts')"
  shows "length steps = length ts \<and> length sts' = length ts \<and>
    (\<forall>r < length ts. state_ok ok M (sts ! r) \<longrightarrow> state_ok ok M (sts' ! r))"
proof -
  let ?n = "length (md_layers M)"
  from run obtain ss' xss' where len: "length ts = length sts" and chk: "check_multi_rows M ts sts = Inr ()"
    and layers: "multi_layers (mk_decode_multi K) 0 ts (map (md_embed_stream M) ts) (map ds_layers sts) = (ss', xss')"
    and steps: "steps = map2 (\<lambda>m s. \<lparr>td_logits = md_head M m, td_pre_mixer_stream = s\<rparr>)
      (if length ss' = 2 \<and> hc_branch_batch_enabled env then mk_read_branch2 K ss' else map (md_read M) ss') ss'"
    and sts': "sts' = map2 (\<lambda>xs st. \<lparr>ds_layers = xs, ds_token_count = ds_token_count st + 1\<rparr>) xss' sts"
    by (auto simp: forward_decode_capture_multi_def Let_def split: if_splits sum.splits prod.splits)
  have fits: "\<forall>xs \<in> set (map ds_layers sts). length xs = ?n"
    using check_multi_rows_fits [OF len chk] by (auto simp: state_fits_def)
  have "0 + length (mk_decode_multi K) \<le> ?n" using st by (simp add: multi_steady_def)
  note L = multi_layers_steady [OF st this subset_refl _ _ fits layers]
  have lens: "length ss' = length ts" "length xss' = length ts" using L len by simp_all
  have "state_ok ok M (sts' ! r)" if r: "r < length ts" and old: "state_ok ok M (sts ! r)" for r
  proof -
    have "r < length sts'" using r len lens sts' by simp
    then have "state_fits M (sts' ! r)" using forward_multi_shape [OF run] by blast
    moreover have "\<forall>x \<in> set (xss' ! r). ok x"
      using L r old len by (simp add: state_ok_def)
    moreover have "ds_layers (sts' ! r) = xss' ! r" using r len lens by (simp add: sts')
    ultimately show ?thesis by (simp add: state_ok_def)
  qed
  moreover have "length steps = length ts" "length sts' = length ts"
    using st lens len by (simp_all add: steps sts' multi_steady_def)
  ultimately show ?thesis by blast
qed

lemma forward_multi_total:
  assumes st: "multi_steady ok K M" and stride: "decode_barrier_stride env = Inr d"
    and n: "ts \<noteq> []" "length ts \<le> 64" "length sts = length ts"
    and fit: "\<forall>st \<in> set sts. state_fits M st" and vocab: "\<forall>t \<in> set ts. unat t < md_vocabulary_size M"
  shows "\<exists>steps sts'. forward_decode_capture_multi env K M ts sts = (Inr steps, sts') \<and>
    length steps = length ts \<and> length sts' = length ts"
proof -
  obtain ss xss where layers: "multi_layers (mk_decode_multi K) 0 ts (map (md_embed_stream M) ts) (map ds_layers sts) =
      (ss, xss)" by fastforce
  have "\<exists>steps sts'. forward_decode_capture_multi env K M ts sts = (Inr steps, sts')"
    using n check_multi_rows_ok [OF n(3) [symmetric] fit vocab] stride layers
    by (simp add: forward_decode_capture_multi_def Let_def)
  then show ?thesis using forward_multi_keeps_ok [OF st] by blast
qed

text \<open>Kernels for several rows over the layers of the concrete model.\<close>

definition sample_multi :: "(u32, u32 list, u32) multi_kernels" where
  "sample_multi =
     (let row = (\<lambda>ss ts xs r. lk_decode sample_layer (ss ! r) (ts ! r) (xs ! r));
          kernel = (\<lambda>ss ts xs. (map (\<lambda>r. fst (row ss ts xs r)) [0..<length ts],
                                  map (\<lambda>r. snd (row ss ts xs r)) [0..<length ts]))
      in \<lparr>mk_decode_multi = [kernel, kernel], mk_read_branch2 = (\<lambda>ss. ss)\<rparr>)"

lemma sample_multi_steady: "multi_steady (\<lambda>_. True) sample_multi sample_model"
  by (simp add: multi_steady_def sample_multi_def sample_model_def kernel_steady_def Let_def)

end
