(* ===== verification/Prefill.thy ===== *)
theory Prefill
  imports Target_Model
begin

text \<open>
  Prompt ingestion of the target model, \<^verbatim>\<open>src/model.cpp\<close>: a chunk of prompt tokens advances
  through the layers in barrier groups and can be paused between groups
  (\<open>begin_prefill_chunk_batch\<close>, \<open>advance_prefill_chunk_batch\<close>). Several chunks can be advanced
  group by group (\<open>prefill_chunks_layer_major\<close>) instead of one after the other. The optional
  timing profile \<open>layer_ms\<close> is the null pointer throughout.
\<close>

record 's prefill_chunk_state =
  pc_stream_batch :: "'s list"
  pc_next_layer :: nat
  pc_row_count :: nat

definition embed_token_batch :: "('s, 'ls, 'm, 'g) model \<Rightarrow> u32 list \<Rightarrow> 's list result" where
  "embed_token_batch M tokens =
     (if tokens = [] \<or> length tokens > 2048 then
        Inl (RuntimeError ''token embedding batch must contain 1 to 2048 ids'')
      else if \<exists>token \<in> set tokens. unat token \<ge> md_vocabulary_size M \<or> unat token > 2147483647 then
        Inl (RuntimeError ''token id is out of range'')
      else Inr (md_embed_batch M tokens))"

definition begin_prefill_chunk_batch ::
    "('s, 'ls, 'm, 'g) model \<Rightarrow> u32 list \<Rightarrow> 'ls decode_state \<Rightarrow> 's prefill_chunk_state result" where
  "begin_prefill_chunk_batch M tokens st =
     (if tokens = [] \<or> length tokens > 2048 then
        Inl (RuntimeError ''prefill chunk must contain 1 to 2048 tokens'')
      else if \<not> state_fits M st then Inl layer_mismatch
      else if ds_token_count st > SIZE_MAX - length tokens then
        Inl (RuntimeError ''prefill token count overflow'')
      else res_bind (embed_token_batch M tokens) (\<lambda>batch.
        Inr \<lparr>pc_stream_batch = batch, pc_next_layer = 0, pc_row_count = length tokens\<rparr>))"

text \<open>The loop over the layers \<open>i, \<dots>, i + n - 1\<close> of one barrier group.\<close>

primrec prefill_range ::
    "nat \<Rightarrow> ('s, 'ls, 'm, 'g) model \<Rightarrow> u32 list \<Rightarrow> nat \<Rightarrow> 's list \<Rightarrow> 'ls list \<Rightarrow> 's list \<times> 'ls list" where
  "prefill_range 0 M tokens i batch layers = (batch, layers)"
| "prefill_range (Suc n) M tokens i batch layers =
     (case lk_prefill (md_layers M ! i) batch tokens (layers ! i) of
        (batch', x) \<Rightarrow> prefill_range n M tokens (i + 1) batch' (layers[i := x]))"

definition barrier_end :: "('s, 'ls, 'm, 'g) model \<Rightarrow> nat \<Rightarrow> nat \<Rightarrow> nat" where
  "barrier_end M stride barrier_begin =
     min (length (md_layers M)) ((barrier_begin div stride + 1) * stride)"

definition advance_prefill_chunk_batch ::
    "environment \<Rightarrow> ('s, 'ls, 'm, 'g) model \<Rightarrow> 's prefill_chunk_state \<Rightarrow> u32 list \<Rightarrow> 'ls decode_state \<Rightarrow>
     bool result \<times> 's prefill_chunk_state \<times> 'ls decode_state" where
  "advance_prefill_chunk_batch env M chunk tokens st =
     (if pc_row_count chunk = 0 \<or> pc_row_count chunk \<noteq> length tokens \<or>
         pc_next_layer chunk \<ge> length (md_layers M) then
        (Inl (RuntimeError ''invalid resumable prefill chunk''), chunk, st)
      else if \<not> state_fits M st then (Inl layer_mismatch, chunk, st)
      else case prefill_barrier_stride env of
        Inl e \<Rightarrow> (Inl e, chunk, st)
      | Inr stride \<Rightarrow>
          let b = pc_next_layer chunk;
              e = barrier_end M stride b;
              (batch, layers) = prefill_range (e - b) M tokens b (pc_stream_batch chunk) (ds_layers st);
              chunk' = chunk\<lparr>pc_stream_batch := batch, pc_next_layer := e\<rparr>
          in if e \<noteq> length (md_layers M) then (Inr False, chunk', st\<lparr>ds_layers := layers\<rparr>)
             else (Inr True, chunk', st\<lparr>ds_layers := layers,
                     ds_token_count := ds_token_count st + pc_row_count chunk\<rparr>))"

lemma barrier_end_bounds:
  assumes "0 < stride" and "b < length (md_layers M)"
  shows "b < barrier_end M stride b \<and> barrier_end M stride b \<le> length (md_layers M)"
  using assms dividend_less_div_times [of stride b]
  by (auto simp: barrier_end_def algebra_simps)

lemma advance_progress:
  assumes "advance_prefill_chunk_batch env M chunk tokens st = (Inr done, chunk', st')"
  shows "pc_next_layer chunk < length (md_layers M) \<and> pc_next_layer chunk < pc_next_layer chunk' \<and>
    pc_next_layer chunk' \<le> length (md_layers M) \<and> (done \<longleftrightarrow> pc_next_layer chunk' = length (md_layers M))"
  using assms barrier_end_bounds [OF prefill_barrier_stride_pos, of env _ "pc_next_layer chunk" M]
  by (auto simp: advance_prefill_chunk_batch_def Let_def split: if_splits sum.splits prod.splits)

text \<open>\<open>while (!advance(...))\<close>: each call that returns false has advanced \<open>next_layer\<close>.\<close>

function prefill_loop ::
    "environment \<Rightarrow> ('s, 'ls, 'm, 'g) model \<Rightarrow> u32 list \<Rightarrow> 's prefill_chunk_state \<Rightarrow> 'ls decode_state \<Rightarrow>
     's list result \<times> 'ls decode_state" where
  "prefill_loop env M tokens chunk st =
     (case advance_prefill_chunk_batch env M chunk tokens st of
        (Inl e, _, st') \<Rightarrow> (Inl e, st')
      | (Inr done, chunk', st') \<Rightarrow>
          if done then (Inr (pc_stream_batch chunk'), st')
          else prefill_loop env M tokens chunk' st')"
  by pat_completeness auto
termination
  by (relation "measure (\<lambda>(env, M, tokens, chunk, st). length (md_layers M) - pc_next_layer chunk)")
     (auto dest!: advance_progress [OF sym])

declare prefill_loop.simps [simp del]

definition prefill_chunk_batch ::
    "environment \<Rightarrow> ('s, 'ls, 'm, 'g) model \<Rightarrow> u32 list \<Rightarrow> 'ls decode_state \<Rightarrow>
     's list result \<times> 'ls decode_state" where
  "prefill_chunk_batch env M tokens st =
     (case begin_prefill_chunk_batch M tokens st of
        Inl e \<Rightarrow> (Inl e, st)
      | Inr chunk \<Rightarrow> prefill_loop env M tokens chunk st)"

text \<open>The consecutive sub-spans of at most \<open>chunk_rows\<close> tokens.\<close>

function chunk_spans :: "nat \<Rightarrow> u32 list \<Rightarrow> u32 list list" where
  "chunk_spans rows tokens =
     (if tokens = [] \<or> rows = 0 then [] else take rows tokens # chunk_spans rows (drop rows tokens))"
  by pat_completeness auto
termination by (relation "measure (\<lambda>(rows, tokens). length tokens)") auto

declare chunk_spans.simps [simp del]

type_synonym 's pending = "u32 list \<times> 's prefill_chunk_state"

definition begin_pending ::
    "('s, 'ls, 'm, 'g) model \<Rightarrow> 'ls decode_state \<Rightarrow> u32 list \<Rightarrow> 's pending result" where
  "begin_pending M st span = res_bind (begin_prefill_chunk_batch M span st) (\<lambda>c. Inr (span, c))"

fun advance_all ::
    "environment \<Rightarrow> ('s, 'ls, 'm, 'g) model \<Rightarrow> 's pending list \<Rightarrow> 'ls decode_state \<Rightarrow>
     's pending list result \<times> 'ls decode_state" where
  "advance_all env M [] st = (Inr [], st)"
| "advance_all env M ((span, chunk) # items) st =
     (case advance_prefill_chunk_batch env M chunk span st of
        (Inl e, _, st') \<Rightarrow> (Inl e, st')
      | (Inr _, chunk', st') \<Rightarrow>
          (case advance_all env M items st' of
             (Inl e, st'') \<Rightarrow> (Inl e, st'')
           | (Inr items', st'') \<Rightarrow> (Inr ((span, chunk') # items'), st'')))"

function layer_major_loop ::
    "environment \<Rightarrow> ('s, 'ls, 'm, 'g) model \<Rightarrow> 's pending list \<Rightarrow> 'ls decode_state \<Rightarrow>
     's pending list result \<times> 'ls decode_state" where
  "layer_major_loop env M items st =
     (if items \<noteq> [] \<and> pc_next_layer (snd (hd items)) < length (md_layers M) then
        (case advance_all env M items st of
           (Inl e, st') \<Rightarrow> (Inl e, st')
         | (Inr items', st') \<Rightarrow> layer_major_loop env M items' st')
      else (Inr items, st))"
  by pat_completeness auto
termination
proof (relation "measure (\<lambda>(env, M, items, st). length (md_layers M) - pc_next_layer (snd (hd items)))",
       goal_cases)
  case 1
  then show ?case by simp
next
  case (2 env M items st x st' items')
  obtain span chunk rest where items: "items = (span, chunk) # rest"
    using 2(1) by (cases items) auto
  with 2 show ?case
    by (auto split: prod.splits sum.splits dest!: advance_progress)
qed

declare layer_major_loop.simps [simp del]

definition prefill_chunks_layer_major ::
    "environment \<Rightarrow> ('s, 'ls, 'm, 'g) model \<Rightarrow> u32 list \<Rightarrow> nat \<Rightarrow> 'ls decode_state \<Rightarrow>
     's list list result \<times> 'ls decode_state" where
  "prefill_chunks_layer_major env M tokens chunk_rows st =
     (if tokens = [] \<or> length tokens > 8192 \<or> chunk_rows = 0 \<or> chunk_rows > 2048 then
        (Inl (RuntimeError
           ''layer-major prefill requires 1..8192 tokens and chunk_rows between 1 and 2048''), st)
      else if ds_token_count st > SIZE_MAX - length tokens then
        (Inl (RuntimeError ''layer-major prefill token count overflow''), st)
      else case res_map (begin_pending M st) (chunk_spans chunk_rows tokens) of
        Inl e \<Rightarrow> (Inl e, st)
      | Inr pending \<Rightarrow>
          (case layer_major_loop env M pending st of
             (Inl e, st') \<Rightarrow> (Inl e, st')
           | (Inr pending', st') \<Rightarrow> (Inr (map (\<lambda>(_, c). pc_stream_batch c) pending'), st')))"

subsection \<open>Reference semantics: one chunk after the other through a list of layers\<close>

fun prefill_all ::
    "('s, 'ls) layer list \<Rightarrow> u32 list \<Rightarrow> 's list \<Rightarrow> 'ls list \<Rightarrow> 's list \<times> 'ls list" where
  "prefill_all (l # L) ts s (x # xs) =
     (let (s', x') = lk_prefill l s ts x; (s'', xs') = prefill_all L ts s' xs in (s'', x' # xs'))"
| "prefill_all _ ts s xs = (s, xs)"

fun prefill_seq ::
    "('s, 'ls) layer list \<Rightarrow> u32 list list \<Rightarrow> 's list list \<Rightarrow> 'ls list \<Rightarrow> 's list list \<times> 'ls list" where
  "prefill_seq L (ts # tss) (s # ss) xs =
     (let (s', xs') = prefill_all L ts s xs; (ss', xs'') = prefill_seq L tss ss xs' in (s' # ss', xs''))"
| "prefill_seq L _ _ xs = ([], xs)"

lemma prefill_all_length: "length (snd (prefill_all L ts s xs)) = length xs"
  by (induction L ts s xs rule: prefill_all.induct) (auto simp: Let_def split: prod.splits)

lemma prefill_seq_length:
  "length tss = length ss \<Longrightarrow>
     length (fst (prefill_seq L tss ss xs)) = length ss \<and> length (snd (prefill_seq L tss ss xs)) = length xs"
proof (induction tss ss arbitrary: xs rule: list_induct2)
  case (Cons ts tss s ss)
  then show ?case
    using prefill_all_length [of L ts s xs] by (simp add: Let_def split_beta)
qed simp

lemma prefill_all_append:
  "length L1 = length xs1 \<Longrightarrow> prefill_all (L1 @ L2) ts s (xs1 @ xs2) =
    (let (s1, xs1') = prefill_all L1 ts s xs1; (s2, xs2') = prefill_all L2 ts s1 xs2
     in (s2, xs1' @ xs2'))"
proof (induction L1 xs1 arbitrary: s rule: list_induct2)
  case Nil
  then show ?case by (simp split: prod.splits)
next
  case (Cons l L1 x xs1)
  then show ?case by (auto simp: Let_def split: prod.splits)
qed

lemma prefill_seq_Nil: "length tss = length ss \<Longrightarrow> prefill_seq [] tss ss [] = (ss, [])"
  by (induction tss ss rule: list_induct2) auto

text \<open>The interchange: sending all chunks through the first layers and then all chunks through
  the remaining layers is the same as sending each chunk through all layers.\<close>

lemma prefill_seq_append:
  assumes "length tss = length ss" and "length L1 = length xs1"
  shows "prefill_seq (L1 @ L2) tss ss (xs1 @ xs2) =
    (let (ss1, xs1') = prefill_seq L1 tss ss xs1; (ss2, xs2') = prefill_seq L2 tss ss1 xs2
     in (ss2, xs1' @ xs2'))"
  using assms
proof (induction tss ss arbitrary: xs1 xs2 rule: list_induct2)
  case Nil
  then show ?case by simp
next
  case (Cons ts tss s ss)
  obtain s1 ys1 where p1: "prefill_all L1 ts s xs1 = (s1, ys1)" by fastforce
  obtain s2 ys2 where p2: "prefill_all L2 ts s1 xs2 = (s2, ys2)" by fastforce
  have len: "length L1 = length ys1" using prefill_all_length [of L1 ts s xs1] p1 Cons.prems by simp
  obtain ss1 zs1 where q1: "prefill_seq L1 tss ss ys1 = (ss1, zs1)" by fastforce
  obtain ss2 zs2 where q2: "prefill_seq L2 tss ss1 ys2 = (ss2, zs2)" by fastforce
  show ?case
    using Cons.IH [OF len, of ys2] prefill_all_append [OF Cons.prems, of L2 ts s xs2] p1 p2 q1 q2
    by (simp add: Let_def)
qed

lemma prefill_range_eq:
  assumes "i + n \<le> length layers" and "length (md_layers M) = length layers"
  shows "prefill_range n M ts i s layers =
    (let (s', xs') = prefill_all (take n (drop i (md_layers M))) ts s (take n (drop i layers))
     in (s', take i layers @ xs' @ drop (i + n) layers))"
  using assms
proof (induction n arbitrary: i s layers)
  case 0
  then show ?case by simp
next
  case (Suc n)
  obtain s1 x1 where l: "lk_prefill (md_layers M ! i) s ts (layers ! i) = (s1, x1)" by fastforce
  have d: "drop i (md_layers M) = md_layers M ! i # drop (i + 1) (md_layers M)"
      "drop i layers = layers ! i # drop (i + 1) layers"
    using Suc.prems by (simp_all add: Cons_nth_drop_Suc)
  have t: "take (i + 1) (layers[i := x1]) = take i layers @ [x1]"
    using Suc.prems by (simp add: take_Suc_conv_app_nth)
  have IH: "prefill_range n M ts (i + 1) s1 (layers[i := x1]) =
    (let (s', xs') = prefill_all (take n (drop (i + 1) (md_layers M))) ts s1 (take n (drop (i + 1) layers))
     in (s', (take i layers @ [x1]) @ xs' @ drop (i + 1 + n) layers))"
    using Suc.IH [of "i + 1" "layers[i := x1]" s1] Suc.prems t by simp
  show ?case using IH by (simp add: l d split: prod.splits)
qed

subsection \<open>Chunks at a common barrier\<close>

text \<open>The pending chunks with token spans \<open>tss\<close> and streams \<open>ss\<close>, all paused at layer \<open>b\<close>.\<close>

definition chunk_at :: "nat \<Rightarrow> u32 list \<Rightarrow> 's list \<Rightarrow> 's prefill_chunk_state" where
  "chunk_at b ts s = \<lparr>pc_stream_batch = s, pc_next_layer = b, pc_row_count = length ts\<rparr>"

definition pending_at :: "nat \<Rightarrow> u32 list list \<Rightarrow> 's list list \<Rightarrow> 's pending list" where
  "pending_at b tss ss = map2 (\<lambda>ts s. (ts, chunk_at b ts s)) tss ss"

lemma pending_at_Cons [simp]:
  "pending_at b (ts # tss) (s # ss) = (ts, chunk_at b ts s) # pending_at b tss ss"
  by (simp add: pending_at_def)

lemma pending_at_Nil [simp]: "pending_at b [] ss = []"
  by (simp add: pending_at_def)

definition segment :: "nat \<Rightarrow> nat \<Rightarrow> 'a list \<Rightarrow> 'a list" where
  "segment b e xs = take (e - b) (drop b xs)"

definition set_segment :: "nat \<Rightarrow> nat \<Rightarrow> 'a list \<Rightarrow> 'a list \<Rightarrow> 'a list" where
  "set_segment b e ys xs = take b xs @ ys @ drop e xs"

lemma segment_length [simp]: "b \<le> e \<Longrightarrow> e \<le> length xs \<Longrightarrow> length (segment b e xs) = e - b"
  by (simp add: segment_def)

lemma segment_set_segment:
  "b \<le> e \<Longrightarrow> e \<le> length xs \<Longrightarrow> length ys = e - b \<Longrightarrow> segment b e (set_segment b e ys xs) = ys"
  by (simp add: segment_def set_segment_def)

lemma set_segment_set_segment:
  "b \<le> e \<Longrightarrow> e \<le> length xs \<Longrightarrow> length ys = e - b \<Longrightarrow>
     set_segment b e zs (set_segment b e ys xs) = set_segment b e zs xs"
  by (simp add: set_segment_def)

lemma set_segment_length:
  "b \<le> e \<Longrightarrow> e \<le> length xs \<Longrightarrow> length ys = e - b \<Longrightarrow> length (set_segment b e ys xs) = length xs"
  by (simp add: set_segment_def)

lemma set_segment_segment: "b \<le> e \<Longrightarrow> e \<le> length xs \<Longrightarrow> set_segment b e (segment b e xs) xs = xs"
  by (simp add: set_segment_def segment_def)
     (metis append_assoc append_take_drop_id le_add_diff_inverse take_add)

definition rows_done :: "('s, 'ls, 'm, 'g) model \<Rightarrow> nat \<Rightarrow> nat \<Rightarrow> nat" where
  "rows_done M e rows = (if e = length (md_layers M) then rows else 0)"

lemma advance_ok:
  assumes "ts \<noteq> []" and "b < length (md_layers M)" and "state_fits M st"
    and "prefill_barrier_stride env = Inr stride"
  defines "e \<equiv> barrier_end M stride b"
  shows "advance_prefill_chunk_batch env M (chunk_at b ts s) ts st =
    (case prefill_all (segment b e (md_layers M)) ts s (segment b e (ds_layers st)) of
       (s', xs') \<Rightarrow> (Inr (e = length (md_layers M)), chunk_at e ts s',
         \<lparr>ds_layers = set_segment b e xs' (ds_layers st),
          ds_token_count = ds_token_count st + rows_done M e (length ts)\<rparr>))"
proof -
  have be: "b < e" "e \<le> length (md_layers M)"
    using barrier_end_bounds [OF prefill_barrier_stride_pos [OF assms(4)] assms(2)] by (auto simp: e_def)
  obtain s' xs' where p:
    "prefill_all (segment b e (md_layers M)) ts s (segment b e (ds_layers st)) = (s', xs')" by fastforce
  have range: "prefill_range (e - b) M ts b s (ds_layers st) = (s', set_segment b e xs' (ds_layers st))"
    using prefill_range_eq [of b "e - b" "ds_layers st" M ts s] be assms(3) p
    by (simp add: segment_def set_segment_def state_fits_def)
  show ?thesis
    using assms(1-4) be range p
    by (cases st) (auto simp: advance_prefill_chunk_batch_def chunk_at_def rows_done_def
        e_def [symmetric] Let_def)
qed

lemma advance_all_ok:
  assumes "length tss = length ss" and "[] \<notin> set tss" and "b < length (md_layers M)"
    and "state_fits M st" and "prefill_barrier_stride env = Inr stride"
  defines "e \<equiv> barrier_end M stride b"
  shows "advance_all env M (pending_at b tss ss) st =
    (case prefill_seq (segment b e (md_layers M)) tss ss (segment b e (ds_layers st)) of
       (ss', xs') \<Rightarrow> (Inr (pending_at e tss ss'),
         \<lparr>ds_layers = set_segment b e xs' (ds_layers st),
          ds_token_count = ds_token_count st + rows_done M e (length (concat tss))\<rparr>))"
  using assms(1,2,4)
proof (induction tss ss arbitrary: st rule: list_induct2)
  case Nil
  have "b \<le> e" "e \<le> length (md_layers M)"
    using barrier_end_bounds [OF prefill_barrier_stride_pos [OF assms(5)] assms(3)] by (auto simp: e_def)
  with Nil show ?case by (simp add: set_segment_segment state_fits_def rows_done_def)
next
  case (Cons ts tss s ss)
  have be: "b \<le> e" "e \<le> length (md_layers M)"
    using barrier_end_bounds [OF prefill_barrier_stride_pos [OF assms(5)] assms(3)] by (auto simp: e_def)
  obtain s' xs' where p:
    "prefill_all (segment b e (md_layers M)) ts s (segment b e (ds_layers st)) = (s', xs')" by fastforce
  let ?st = "\<lparr>ds_layers = set_segment b e xs' (ds_layers st),
    ds_token_count = ds_token_count st + rows_done M e (length ts)\<rparr>"
  have n: "length (ds_layers st) = length (md_layers M)" using Cons.prems by (simp add: state_fits_def)
  have len: "length xs' = e - b"
    using prefill_all_length [of "segment b e (md_layers M)" ts s "segment b e (ds_layers st)"] p be n by simp
  have fits: "state_fits M ?st" using len be n by (simp add: state_fits_def set_segment_length)
  have step: "advance_prefill_chunk_batch env M (chunk_at b ts s) ts st =
      (Inr (e = length (md_layers M)), chunk_at e ts s', ?st)"
    using advance_ok [OF _ assms(3) _ assms(5), of ts st s] Cons.prems p by (auto simp: e_def [symmetric])
  show ?case
    using Cons.IH [OF _ fits] Cons.prems p len be n
    by (simp add: step segment_set_segment set_segment_set_segment rows_done_def split: prod.splits)
qed

lemma segment_drop: "b \<le> e \<Longrightarrow> segment b e xs @ drop e xs = drop b xs"
  unfolding segment_def by (metis append_take_drop_id drop_drop le_add_diff_inverse2)

lemma take_set_segment:
  "b \<le> e \<Longrightarrow> e \<le> length xs \<Longrightarrow> length ys = e - b \<Longrightarrow> take e (set_segment b e ys xs) = take b xs @ ys"
  by (simp add: set_segment_def)

lemma drop_set_segment:
  "b \<le> e \<Longrightarrow> e \<le> length xs \<Longrightarrow> length ys = e - b \<Longrightarrow> drop e (set_segment b e ys xs) = drop e xs"
  by (simp add: set_segment_def)

lemma layer_major_loop_ok:
  assumes "length tss = length ss" and "tss \<noteq> []" and "[] \<notin> set tss"
    and "b \<le> length (md_layers M)" and "state_fits M st" and "prefill_barrier_stride env = Inr stride"
  shows "layer_major_loop env M (pending_at b tss ss) st =
    (case prefill_seq (drop b (md_layers M)) tss ss (drop b (ds_layers st)) of
       (ss', xs') \<Rightarrow> (Inr (pending_at (length (md_layers M)) tss ss'),
         \<lparr>ds_layers = take b (ds_layers st) @ xs', ds_token_count = ds_token_count st +
            (if b < length (md_layers M) then length (concat tss) else 0)\<rparr>))"
  using assms(1,4,5)
proof (induction "length (md_layers M) - b" arbitrary: b ss st rule: less_induct)
  case less
  have hd: "pc_next_layer (snd (hd (pending_at b tss ss))) = b" "pending_at b tss ss \<noteq> []"
    using less.prems(1) assms(2) by (cases tss; cases ss; simp add: chunk_at_def)+
  have n: "length (ds_layers st) = length (md_layers M)" using less.prems by (simp add: state_fits_def)
  show ?case
  proof (cases "b < length (md_layers M)")
    case False
    then have b: "b = length (md_layers M)" using less.prems by simp
    then show ?thesis
      using hd n less.prems(1) by (subst layer_major_loop.simps) (simp add: prefill_seq_Nil)
  next
    case True
    let ?e = "barrier_end M stride b"
    have be: "b < ?e" "?e \<le> length (md_layers M)"
      using barrier_end_bounds [OF prefill_barrier_stride_pos [OF assms(6)] True] by auto
    obtain ss1 xs1 where p: "prefill_seq (segment b ?e (md_layers M)) tss ss (segment b ?e (ds_layers st))
        = (ss1, xs1)" by fastforce
    have len1: "length tss = length ss1" "length xs1 = ?e - b"
      using prefill_seq_length [OF less.prems(1), of "segment b ?e (md_layers M)" "segment b ?e (ds_layers st)"]
        p be n less.prems(1) by auto
    let ?st = "\<lparr>ds_layers = set_segment b ?e xs1 (ds_layers st),
      ds_token_count = ds_token_count st + rows_done M ?e (length (concat tss))\<rparr>"
    have fits: "state_fits M ?st" using len1 be n by (simp add: state_fits_def set_segment_length)
    have step: "advance_all env M (pending_at b tss ss) st = (Inr (pending_at ?e tss ss1), ?st)"
      using advance_all_ok [OF less.prems(1) assms(3) True less.prems(3) assms(6)] p by simp
    have IH: "layer_major_loop env M (pending_at ?e tss ss1) ?st =
      (case prefill_seq (drop ?e (md_layers M)) tss ss1 (drop ?e (ds_layers st)) of
         (ss', xs') \<Rightarrow> (Inr (pending_at (length (md_layers M)) tss ss'),
           \<lparr>ds_layers = (take b (ds_layers st) @ xs1) @ xs', ds_token_count = ds_token_count ?st +
              (if ?e < length (md_layers M) then length (concat tss) else 0)\<rparr>))"
      using less.hyps [OF _ len1(1) _ fits] be len1 n by (simp add: take_set_segment drop_set_segment)
    have split: "prefill_seq (drop b (md_layers M)) tss ss (drop b (ds_layers st)) =
      (let (ss1, xs1') = prefill_seq (segment b ?e (md_layers M)) tss ss (segment b ?e (ds_layers st));
           (ss2, xs2') = prefill_seq (drop ?e (md_layers M)) tss ss1 (drop ?e (ds_layers st))
       in (ss2, xs1' @ xs2'))"
      using prefill_seq_append [OF less.prems(1), of "segment b ?e (md_layers M)"
          "segment b ?e (ds_layers st)" "drop ?e (md_layers M)" "drop ?e (ds_layers st)"] be n
      by (simp add: segment_drop)
    show ?thesis
      using step IH split p be hd True
      by (subst layer_major_loop.simps) (auto simp: rows_done_def split: prod.splits)
  qed
qed

lemma prefill_loop_as_layer_major:
  "pc_next_layer chunk < length (md_layers M) \<Longrightarrow>
   prefill_loop env M ts chunk st =
    (case layer_major_loop env M [(ts, chunk)] st of
       (Inl e, st') \<Rightarrow> (Inl e, st')
     | (Inr items, st') \<Rightarrow> (Inr (pc_stream_batch (snd (hd items))), st'))"
proof (induction env M ts chunk st rule: prefill_loop.induct)
  case (1 env M ts chunk st)
  obtain r chunk' st' where adv: "advance_prefill_chunk_batch env M chunk ts st = (r, chunk', st')"
    by (metis prod_cases3)
  show ?case
  proof (cases r)
    case (Inl e)
    then show ?thesis
      using adv 1(2) by (subst prefill_loop.simps, subst layer_major_loop.simps) simp
  next
    case (Inr fin)
    note prog = advance_progress [OF adv [unfolded Inr]]
    have "layer_major_loop env M [(ts, chunk)] st = layer_major_loop env M [(ts, chunk')] st'"
      using adv Inr 1(2) by (subst layer_major_loop.simps) simp
    moreover have "prefill_loop env M ts chunk st =
        (if fin then (Inr (pc_stream_batch chunk'), st') else prefill_loop env M ts chunk' st')"
      using adv Inr by (subst prefill_loop.simps) simp
    moreover have "layer_major_loop env M [(ts, chunk')] st' = (Inr [(ts, chunk')], st')" if fin
      using prog that by (subst layer_major_loop.simps) simp
    ultimately show ?thesis
      using 1(1) [OF adv [symmetric, unfolded Inr] refl refl] prog by auto
  qed
qed

subsection \<open>Layer-major ingestion equals sequential ingestion\<close>

definition tokens_in_range :: "('s, 'ls, 'm, 'g) model \<Rightarrow> u32 list \<Rightarrow> bool" where
  "tokens_in_range M tokens \<longleftrightarrow>
     (\<forall>t \<in> set tokens. unat t < md_vocabulary_size M \<and> unat t \<le> 2147483647)"

fun prefill_chunks_sequential ::
    "environment \<Rightarrow> ('s, 'ls, 'm, 'g) model \<Rightarrow> u32 list list \<Rightarrow> 'ls decode_state \<Rightarrow>
     's list list result \<times> 'ls decode_state" where
  "prefill_chunks_sequential env M [] st = (Inr [], st)"
| "prefill_chunks_sequential env M (span # spans) st =
     (case prefill_chunk_batch env M span st of
        (Inl e, st') \<Rightarrow> (Inl e, st')
      | (Inr batch, st') \<Rightarrow>
          (case prefill_chunks_sequential env M spans st' of
             (Inl e, st'') \<Rightarrow> (Inl e, st'')
           | (Inr batches, st'') \<Rightarrow> (Inr (batch # batches), st'')))"

lemma chunk_spans_props:
  "0 < rows \<Longrightarrow> concat (chunk_spans rows tokens) = tokens \<and>
     (\<forall>span \<in> set (chunk_spans rows tokens). span \<noteq> [] \<and> length span \<le> rows)"
proof (induction rows tokens rule: chunk_spans.induct)
  case (1 rows tokens)
  show ?case
  proof (cases "tokens = []")
    case True
    then show ?thesis by (subst (1 2) chunk_spans.simps) simp
  next
    case False
    then have "chunk_spans rows tokens = take rows tokens # chunk_spans rows (drop rows tokens)"
      using 1(2) by (subst chunk_spans.simps) simp
    then show ?thesis using 1 False by auto
  qed
qed

lemma begin_ok:
  assumes "span \<noteq> []" and "length span \<le> 2048" and "state_fits M st"
    and "ds_token_count st + length span \<le> SIZE_MAX" and "tokens_in_range M span"
  shows "begin_prefill_chunk_batch M span st = Inr (chunk_at 0 span (md_embed_batch M span))"
  using assms
  by (auto simp: begin_prefill_chunk_batch_def embed_token_batch_def chunk_at_def tokens_in_range_def
      not_le)

lemma prefill_chunk_batch_ok:
  assumes "span \<noteq> []" and "length span \<le> 2048" and "state_fits M st"
    and "ds_token_count st + length span \<le> SIZE_MAX" and "tokens_in_range M span"
    and "md_layers M \<noteq> []" and "prefill_barrier_stride env = Inr stride"
  shows "prefill_chunk_batch env M span st =
    (case prefill_all (md_layers M) span (md_embed_batch M span) (ds_layers st) of
       (s', xs') \<Rightarrow> (Inr s', \<lparr>ds_layers = xs', ds_token_count = ds_token_count st + length span\<rparr>))"
proof -
  let ?s = "md_embed_batch M span"
  have "prefill_chunk_batch env M span st = prefill_loop env M span (chunk_at 0 span ?s) st"
    using begin_ok [OF assms(1-5)] by (simp add: prefill_chunk_batch_def)
  moreover have "pc_next_layer (chunk_at 0 span ?s) < length (md_layers M)"
    using assms(6) by (simp add: chunk_at_def)
  ultimately show ?thesis
    using layer_major_loop_ok [of "[span]" "[?s]" 0 M st env stride] assms
    by (simp add: prefill_loop_as_layer_major chunk_at_def split: prod.splits)
qed

lemma sequential_ok:
  assumes "\<forall>span \<in> set spans. span \<noteq> [] \<and> length span \<le> 2048" and "state_fits M st"
    and "ds_token_count st + length (concat spans) \<le> SIZE_MAX" and "tokens_in_range M (concat spans)"
    and "md_layers M \<noteq> []" and "prefill_barrier_stride env = Inr stride"
  shows "prefill_chunks_sequential env M spans st =
    (case prefill_seq (md_layers M) spans (map (md_embed_batch M) spans) (ds_layers st) of
       (ss', xs') \<Rightarrow> (Inr ss',
         \<lparr>ds_layers = xs', ds_token_count = ds_token_count st + length (concat spans)\<rparr>))"
  using assms(1-4)
proof (induction spans arbitrary: st)
  case Nil
  then show ?case by simp
next
  case (Cons span spans)
  obtain s' xs' where p:
    "prefill_all (md_layers M) span (md_embed_batch M span) (ds_layers st) = (s', xs')" by fastforce
  let ?st = "\<lparr>ds_layers = xs', ds_token_count = ds_token_count st + length span\<rparr>"
  have step: "prefill_chunk_batch env M span st = (Inr s', ?st)"
    using prefill_chunk_batch_ok [OF _ _ Cons.prems(2) _ _ assms(5,6), of span] Cons.prems p
    by (simp add: tokens_in_range_def)
  have fits: "state_fits M ?st"
    using prefill_all_length [of "md_layers M" span "md_embed_batch M span" "ds_layers st"] p Cons.prems
    by (simp add: state_fits_def)
  have ranges: "tokens_in_range M (concat spans)"
    using Cons.prems by (auto simp: tokens_in_range_def)
  show ?case
    using Cons.IH [OF _ fits _ ranges] Cons.prems step p
    by (simp add: add.assoc split_beta)
qed

lemma layer_major_sequential:
  assumes "md_layers M \<noteq> []" and "state_fits M st" and "prefill_barrier_stride env = Inr stride"
    and "tokens \<noteq> []" and "length tokens \<le> 8192" and "0 < rows" and "rows \<le> 2048"
    and "ds_token_count st + length tokens \<le> SIZE_MAX" and "tokens_in_range M tokens"
  shows "prefill_chunks_layer_major env M tokens rows st =
      prefill_chunks_sequential env M (chunk_spans rows tokens) st \<and>
    (\<exists>batches st'. prefill_chunks_layer_major env M tokens rows st = (Inr batches, st') \<and>
      length batches = length (chunk_spans rows tokens) \<and>
      ds_token_count st' = ds_token_count st + length tokens)"
proof -
  let ?spans = "chunk_spans rows tokens" and ?L = "md_layers M"
  let ?ss = "map (md_embed_batch M) ?spans"
  have spans: "concat ?spans = tokens" "\<forall>span \<in> set ?spans. span \<noteq> [] \<and> length span \<le> 2048"
    using chunk_spans_props [OF assms(6), of tokens] assms(7) by auto
  have ok: "begin_pending M st span = Inr (span, chunk_at 0 span (md_embed_batch M span))"
    if "span \<in> set ?spans" for span
  proof -
    have "set span \<subseteq> set tokens" "length span \<le> length tokens"
      using that arg_cong [OF spans(1), of set] arg_cong [OF spans(1), of length]
        member_le_sum_list [of "length span" "map length ?spans"]
      by (auto simp: length_concat)
    then have "begin_prefill_chunk_batch M span st = Inr (chunk_at 0 span (md_embed_batch M span))"
      using spans(2) that assms(2,8,9) by (intro begin_ok) (auto simp: tokens_in_range_def)
    then show ?thesis by (simp add: begin_pending_def)
  qed
  have beg: "res_map (begin_pending M st) ?spans = Inr (pending_at 0 ?spans ?ss)"
    using res_map_all_Inr [of ?spans "begin_pending M st"
        "\<lambda>span. (span, chunk_at 0 span (md_embed_batch M span))"] ok
    by (simp add: pending_at_def zip_map2 map_zip_map zip_same_conv_map)
  obtain ss' xs' where p: "prefill_seq ?L ?spans ?ss (ds_layers st) = (ss', xs')" by fastforce
  have len: "length ss' = length ?spans"
    using prefill_seq_length [of ?spans ?ss ?L "ds_layers st"] p by simp
  have ne: "?spans \<noteq> []" using spans(1) assms(4) by auto
  have loop: "layer_major_loop env M (pending_at 0 ?spans ?ss) st =
    (Inr (pending_at (length ?L) ?spans ss'),
     \<lparr>ds_layers = xs', ds_token_count = ds_token_count st + length tokens\<rparr>)"
    using layer_major_loop_ok [of ?spans ?ss 0 M st env stride] p assms spans ne by auto
  have out: "map (\<lambda>(_, c). pc_stream_batch c) (pending_at (length ?L) ?spans ss') = ss'"
    using len by (intro nth_equalityI) (auto simp: pending_at_def chunk_at_def)
  show ?thesis
    using beg loop out assms len sequential_ok [OF spans(2) assms(2) _ _ assms(1,3)] p spans(1)
    by (auto simp: prefill_chunks_layer_major_def)
qed

text \<open>C12. Layer-major prompt ingestion is an optimisation of the sequential one: for every
  prompt, chunk size and barrier stride, advancing all chunks together through the barrier
  groups of layers returns the same streams for every chunk and leaves the same decode state as
  ingesting the chunks one after the other, and the token count grows by the prompt length.\<close>

theorem layer_major_prefill_equals_sequential:
  assumes "md_layers M \<noteq> []" and "state_fits M st" and "prefill_barrier_stride env = Inr stride"
    and "tokens \<noteq> []" and "length tokens \<le> 8192" and "0 < rows" and "rows \<le> 2048"
    and "ds_token_count st + length tokens \<le> SIZE_MAX" and "tokens_in_range M tokens"
  shows "prefill_chunks_layer_major env M tokens rows st =
      prefill_chunks_sequential env M (chunk_spans rows tokens) st \<and>
    (\<exists>batches st'. prefill_chunks_layer_major env M tokens rows st = (Inr batches, st') \<and>
      length batches = length (chunk_spans rows tokens) \<and>
      ds_token_count st' = ds_token_count st + length tokens)"
  using layer_major_sequential [OF assms] .

theorem layer_major_prefill_equals_sequential_witness:
  "prefill_chunks_layer_major no_environment sample_model [1, 2, 3] 2 sample_state =
      prefill_chunks_sequential no_environment sample_model (chunk_spans 2 [1, 2, 3]) sample_state \<and>
    (\<exists>batches st'. prefill_chunks_layer_major no_environment sample_model [1, 2, 3] 2 sample_state =
        (Inr batches, st') \<and>
      length batches = length (chunk_spans 2 [1, 2, 3]) \<and>
      ds_token_count st' = ds_token_count sample_state + length [1, 2, 3 :: u32])"
  by (rule layer_major_prefill_equals_sequential)
     (simp_all add: sample_model_def sample_state_def state_fits_def default_strides SIZE_MAX_def
       tokens_in_range_def)

end
