(* ===== verification/Target_Run.thy ===== *)
theory Target_Run
  imports Target_Multi Prefill
begin

text \<open>
  The specification the engine's decoding is measured by: how a target state came about.
  \<open>target_run env K M st0 hist outs st\<close> says that \<open>st\<close> was reached from \<open>st0\<close> by calls of the target
  that consumed exactly the tokens \<open>hist\<close>, each once and in this order, and that \<open>outs\<close> records for
  every consumed token the argmax of the logits the target computed after it, or nothing where a
  prompt chunk was ingested without evaluating the head.

  The relation does not fix which of the target's entry points consumed a token, because the
  program is free to choose (one token, several sessions at once, a speculative batch with a
  rollback, a prompt chunk) and the entry points are different kernels whose results need not
  agree. What it does exclude is what would make an answer wrong: a token that was consumed
  twice, skipped, taken from a rejected draft, or attributed to another session's state.
\<close>

inductive target_run ::
    "environment \<Rightarrow> ('s, 'ls, 'm) multi_kernels \<Rightarrow> ('s, 'ls, 'm, 'g) model \<Rightarrow> 'ls decode_state \<Rightarrow>
     u32 list \<Rightarrow> u32 option list \<Rightarrow> 'ls decode_state \<Rightarrow> bool" for env K M st0 where
  start: "target_run env K M st0 [] [] st0"
| decode: "target_run env K M st0 hist outs st \<Longrightarrow> forward_decode_capture env M t st = (Inr step, st') \<Longrightarrow>
     target_run env K M st0 (hist @ [t]) (outs @ [Some (md_argmax M (td_logits step))]) st'"
| prefill: "target_run env K M st0 hist outs st \<Longrightarrow> prefill_chunk_batch env M ts st = (Inr batch, st') \<Longrightarrow>
     target_run env K M st0 (hist @ ts) (outs @ replicate (length ts) None) st'"
| verify: "target_run env K M st0 hist outs st \<Longrightarrow>
     forward_verify_layer_major_reference env M ts st = Inr rows \<Longrightarrow> r < length ts \<Longrightarrow>
     materialize_speculative_state M (tv_state_after (rows ! r)) = (Inr (), st') \<Longrightarrow>
     target_run env K M st0 (hist @ take (Suc r) ts)
       (outs @ map (\<lambda>row. Some (md_argmax M (tv_logits row))) (take (Suc r) rows)) st'"
| multi: "target_run env K M st0 hist outs st \<Longrightarrow>
     forward_decode_capture_multi env K M ts sts = (Inr steps, sts') \<Longrightarrow> r < length steps \<Longrightarrow>
     r < length sts' \<Longrightarrow> sts ! r = st \<Longrightarrow>
     target_run env K M st0 (hist @ [ts ! r]) (outs @ [Some (md_argmax M (td_logits (steps ! r)))]) (sts' ! r)"

lemma target_run_trans:
  assumes "target_run env K M st0 h1 o1 st1" and "target_run env K M st1 h2 o2 st2"
  shows "target_run env K M st0 (h1 @ h2) (o1 @ o2) st2"
  using assms(2)
proof (induction rule: target_run.induct)
  case start
  then show ?case using assms(1) by simp
next
  case (decode hist outs st t step st')
  from target_run.decode [OF decode(3,2)] show ?case by simp
next
  case (prefill hist outs st ts batch st')
  from target_run.prefill [OF prefill(3,2)] show ?case by simp
next
  case (verify hist outs st ts rows r st')
  from target_run.verify [OF verify(5,2,3,4)] show ?case by simp
next
  case (multi hist outs st ts sts steps sts' r)
  from target_run.multi [OF multi(6,2,3,4,5)] show ?case by simp
qed

subsection \<open>Prompt chunks\<close>

lemma prefill_range_length:
  "prefill_range n M ts i batch layers = (batch', layers') \<Longrightarrow> length layers' = length layers"
  by (induction n arbitrary: i batch layers) (auto split: prod.splits)

lemma advance_shape:
  assumes "advance_prefill_chunk_batch env M chunk ts st = (Inr fin, chunk', st')"
  shows "state_fits M st \<and> state_fits M st' \<and> pc_row_count chunk = length ts \<and> ts \<noteq> [] \<and>
    pc_row_count chunk' = length ts \<and>
    ds_token_count st' = ds_token_count st + (if fin then length ts else 0)"
  using assms
  by (auto simp: advance_prefill_chunk_batch_def Let_def state_fits_def
      split: if_splits sum.splits prod.splits dest!: prefill_range_length)

lemma prefill_loop_shape:
  "prefill_loop env M ts chunk st = (Inr batch, st') \<Longrightarrow>
     ts \<noteq> [] \<and> state_fits M st \<and> state_fits M st' \<and> ds_token_count st' = ds_token_count st + length ts"
proof (induction env M ts chunk st rule: prefill_loop.induct)
  case (1 env M ts chunk st)
  obtain r chunk1 st1 where adv: "advance_prefill_chunk_batch env M chunk ts st = (r, chunk1, st1)"
    by (metis prod_cases3)
  show ?case
  proof (cases r)
    case (Inl e)
    then show ?thesis using 1(2) adv by (simp add: prefill_loop.simps)
  next
    case (Inr fin)
    note shape = advance_shape [OF adv [unfolded Inr]]
    show ?thesis
    proof (cases fin)
      case True
      then show ?thesis using 1(2) adv Inr shape by (subst (asm) prefill_loop.simps) simp
    next
      case False
      then have "prefill_loop env M ts chunk1 st1 = (Inr batch, st')"
        using 1(2) adv Inr by (subst (asm) prefill_loop.simps) simp
      from 1(1) [OF adv [symmetric, unfolded Inr] refl refl False this] show ?thesis
        using shape False by simp
    qed
  qed
qed

lemma prefill_chunk_batch_shape:
  assumes "prefill_chunk_batch env M ts st = (Inr batch, st')"
  shows "ts \<noteq> [] \<and> state_fits M st \<and> state_fits M st' \<and> ds_token_count st' = ds_token_count st + length ts"
proof -
  from assms obtain chunk where "prefill_loop env M ts chunk st = (Inr batch, st')"
    by (auto simp: prefill_chunk_batch_def split: sum.splits)
  then show ?thesis by (rule prefill_loop_shape)
qed

lemma prefill_range_steady:
  assumes "steady ok M" and "ts \<noteq> []"
  shows "i + n \<le> length (md_layers M) \<Longrightarrow> length layers = length (md_layers M) \<Longrightarrow>
    \<forall>x \<in> set layers. ok x \<Longrightarrow> length batch = length ts \<Longrightarrow>
    prefill_range n M ts i batch layers = (batch', layers') \<Longrightarrow>
      length batch' = length ts \<and> (\<forall>x \<in> set layers'. ok x)"
proof (induction n arbitrary: i batch layers)
  case 0
  then show ?case by simp
next
  case (Suc n)
  obtain b x where k: "lk_prefill (md_layers M ! i) batch ts (layers ! i) = (b, x)" by fastforce
  have l: "layer_steady ok (md_layers M ! i)" and oi: "ok (layers ! i)"
    using assms(1) Suc.prems(1-3) by (simp_all add: steady_def)
  have b: "length b = length ts" "ok x"
    using layer_steady_prefill [OF l oi assms(2) Suc.prems(4)] k by simp_all
  show ?case
    by (rule Suc.IH [of "i + 1" "layers[i := x]" b])
       (use Suc.prems k b set_list_update_ok [of layers ok x i] in simp_all)
qed

lemma prefill_loop_steady:
  assumes "steady ok M"
  shows "prefill_loop env M ts chunk st = (Inr batch, st') \<Longrightarrow> length (pc_stream_batch chunk) = length ts \<Longrightarrow>
    state_ok ok M st \<Longrightarrow> length batch = length ts \<and> state_ok ok M st'"
  using assms
proof (induction env M ts chunk st rule: prefill_loop.induct)
  case (1 env M ts chunk st)
  obtain r chunk1 st1 where adv: "advance_prefill_chunk_batch env M chunk ts st = (r, chunk1, st1)"
    by (metis prod_cases3)
  show ?case
  proof (cases r)
    case (Inl e)
    then show ?thesis using 1(2) adv by (simp add: prefill_loop.simps)
  next
    case (Inr fin)
    note shape = advance_shape [OF adv [unfolded Inr]]
    from adv Inr obtain stride layers where
        stride: "prefill_barrier_stride env = Inr stride"
      and range: "prefill_range (barrier_end M stride (pc_next_layer chunk) - pc_next_layer chunk) M ts
        (pc_next_layer chunk) (pc_stream_batch chunk) (ds_layers st) = (pc_stream_batch chunk1, layers)"
      and layers: "ds_layers st1 = layers" and next_lt: "pc_next_layer chunk < length (md_layers M)"
      by (auto simp: advance_prefill_chunk_batch_def Let_def split: if_splits sum.splits prod.splits)
    have be: "pc_next_layer chunk < barrier_end M stride (pc_next_layer chunk)"
      "barrier_end M stride (pc_next_layer chunk) \<le> length (md_layers M)"
      using barrier_end_bounds [OF prefill_barrier_stride_pos [OF stride] next_lt] by auto
    have "length (pc_stream_batch chunk1) = length ts \<and> (\<forall>x \<in> set layers. ok x)"
      using prefill_range_steady [OF 1(5) _ _ _ _ _ range] be shape 1(3,4)
      by (simp add: state_ok_def state_fits_def)
    then have chunk1: "length (pc_stream_batch chunk1) = length ts" and st1: "state_ok ok M st1"
      using layers shape by (simp_all add: state_ok_def)
    show ?thesis
    proof (cases fin)
      case True
      then have "batch = pc_stream_batch chunk1" "st' = st1"
        using 1(2) adv Inr by (subst (asm) prefill_loop.simps, simp)+
      then show ?thesis using chunk1 st1 by simp
    next
      case False
      then have "prefill_loop env M ts chunk1 st1 = (Inr batch, st')"
        using 1(2) adv Inr by (subst (asm) prefill_loop.simps) simp
      from 1(1) [OF adv [symmetric, unfolded Inr] refl refl False this chunk1 st1 1(5)] show ?thesis .
    qed
  qed
qed

lemma prefill_chunk_batch_steady:
  assumes "steady ok M" and "state_ok ok M st" and "prefill_chunk_batch env M ts st = (Inr batch, st')"
  shows "length batch = length ts \<and> state_ok ok M st'"
proof -
  from assms(3) obtain chunk where c: "begin_prefill_chunk_batch M ts st = Inr chunk"
    and loop: "prefill_loop env M ts chunk st = (Inr batch, st')"
    by (auto simp: prefill_chunk_batch_def split: sum.splits)
  have "length (pc_stream_batch chunk) = length ts"
    using c assms(1)
    by (auto simp: begin_prefill_chunk_batch_def embed_token_batch_def steady_def split: if_splits)
  from prefill_loop_steady [OF assms(1) loop this assms(2)] show ?thesis .
qed

lemma prefill_chunk_batch_total:
  assumes "steady ok M" and "state_ok ok M st" and "ts \<noteq> []" and "length ts \<le> 2048"
    and "ds_token_count st + length ts \<le> SIZE_MAX" and "tokens_in_range M ts"
    and "prefill_barrier_stride env = Inr stride"
  shows "\<exists>batch st'. prefill_chunk_batch env M ts st = (Inr batch, st') \<and> length batch = length ts \<and>
    state_ok ok M st' \<and> ds_token_count st' = ds_token_count st + length ts"
proof -
  have "md_layers M \<noteq> []" "state_fits M st" using assms(1,2) by (auto simp: steady_def)
  from prefill_chunk_batch_ok [OF assms(3,4) this(2) assms(5,6) this(1) assms(7)]
  obtain batch st' where run: "prefill_chunk_batch env M ts st = (Inr batch, st')"
    by (auto split: prod.splits)
  then show ?thesis
    using prefill_chunk_batch_steady [OF assms(1,2) run] prefill_chunk_batch_shape [OF run] by blast
qed

subsection \<open>What a run determines\<close>

text \<open>One output per consumed token, and the state counts exactly the consumed tokens.\<close>

lemma target_run_shape:
  assumes "target_run env K M st0 hist outs st"
  shows "length outs = length hist \<and> ds_token_count st = ds_token_count st0 + length hist \<and>
    (state_fits M st0 \<longrightarrow> state_fits M st)"
  using assms
proof (induction rule: target_run.induct)
  case start
  then show ?case by simp
next
  case (decode hist outs st t step st')
  then show ?case using forward_decode_capture_fits [OF decode(2)] by simp
next
  case (prefill hist outs st ts batch st')
  then show ?case using prefill_chunk_batch_shape [OF prefill(2)] by simp
next
  case (verify hist outs st ts rows r st')
  then show ?case
    using forward_verify_shape [OF verify(2)] materialize_fits [OF verify(4)] by auto
next
  case (multi hist outs st ts sts steps sts' r)
  then show ?case using forward_multi_shape [OF multi(2,4)] by simp
qed

lemma target_run_fits: "target_run env K M st0 hist outs st \<Longrightarrow> state_fits M st0 \<Longrightarrow> state_fits M st"
  using target_run_shape by blast

lemma target_run_count:
  "target_run env K M st0 hist outs st \<Longrightarrow> ds_token_count st = ds_token_count st0 + length hist"
  using target_run_shape by blast

lemma target_run_outs: "target_run env K M st0 hist outs st \<Longrightarrow> length outs = length hist"
  using target_run_shape by blast

text \<open>
  Steady kernels keep every state they reach free of deferred work.
\<close>

definition kernels_steady ::
    "('ls \<Rightarrow> bool) \<Rightarrow> ('s, 'ls, 'm) multi_kernels \<Rightarrow> ('s, 'ls, 'm, 'g) model \<Rightarrow> bool" where
  "kernels_steady ok K M \<longleftrightarrow> steady ok M \<and> multi_steady ok K M"

lemma forward_verify_keeps_ok:
  assumes "steady ok M" and "state_ok ok M st" and "forward_verify_layer_major_reference env M ts st = Inr rows"
    and "r < length ts" and "materialize_speculative_state M (tv_state_after (rows ! r)) = (Inr (), st')"
  shows "state_ok ok M st'"
proof -
  note S = forward_verify_shape [OF assms(3)]
  obtain n where n: "verify_barrier_stride env = Inr n"
    using assms(3) by (cases "verify_barrier_stride env") (auto simp: forward_verify_layer_major_reference_def split: if_splits)
  obtain ss where "res_map (embed M) ts = Inr ss"
    using assms(3) by (auto simp: forward_verify_layer_major_reference_def split: if_splits)
  then have "\<forall>t \<in> set ts. unat t < md_vocabulary_size M" by (rule embed_all_vocabulary)
  then show ?thesis
    using forward_verify_total [OF assms(1,2) _ _ _ _ n, of ts] S assms(3-5) by fastforce
qed

lemma target_run_ok:
  assumes "target_run env K M st0 hist outs st" and "kernels_steady ok K M" and "state_ok ok M st0"
  shows "state_ok ok M st"
  using assms(1)
proof (induction rule: target_run.induct)
  case start
  then show ?case using assms(3) .
next
  case (decode hist outs st t step st')
  then show ?case using forward_decode_capture_keeps_ok assms(2) by (auto simp: kernels_steady_def)
next
  case (prefill hist outs st ts batch st')
  then show ?case using prefill_chunk_batch_steady assms(2) unfolding kernels_steady_def by blast
next
  case (verify hist outs st ts rows r st')
  then show ?case using forward_verify_keeps_ok assms(2) unfolding kernels_steady_def by blast
next
  case (multi hist outs st ts sts steps sts' r)
  have "multi_steady ok K M" using assms(2) by (simp add: kernels_steady_def)
  note k = forward_multi_keeps_ok [OF this multi(2)]
  then show ?case using multi(3,5,6) by auto
qed

text \<open>Single steps, as runs of their own.\<close>

lemma target_run_decode1:
  "forward_decode_capture env M t st = (Inr step, st') \<Longrightarrow>
     target_run env K M st [t] [Some (md_argmax M (td_logits step))] st'"
  using target_run.decode [OF target_run.start] by fastforce

lemma target_run_prefill1:
  "prefill_chunk_batch env M ts st = (Inr batch, st') \<Longrightarrow>
     target_run env K M st ts (replicate (length ts) None) st'"
  using target_run.prefill [OF target_run.start] by fastforce

lemma target_run_verify1:
  "forward_verify_layer_major_reference env M ts st = Inr rows \<Longrightarrow> r < length ts \<Longrightarrow>
   materialize_speculative_state M (tv_state_after (rows ! r)) = (Inr (), st') \<Longrightarrow>
     target_run env K M st (take (Suc r) ts)
       (map (\<lambda>row. Some (md_argmax M (tv_logits row))) (take (Suc r) rows)) st'"
  using target_run.verify [OF target_run.start] by fastforce

lemma target_run_multi1:
  "forward_decode_capture_multi env K M ts sts = (Inr steps, sts') \<Longrightarrow> r < length steps \<Longrightarrow> r < length sts' \<Longrightarrow>
     target_run env K M (sts ! r) [ts ! r] [Some (md_argmax M (td_logits (steps ! r)))] (sts' ! r)"
  using target_run.multi [OF target_run.start] by fastforce

text \<open>The tokens the target selects after each of the tokens it is given.\<close>

definition selects ::
    "environment \<Rightarrow> ('s, 'ls, 'm) multi_kernels \<Rightarrow> ('s, 'ls, 'm, 'g) model \<Rightarrow> u32 list \<Rightarrow> u32 list \<Rightarrow>
     'ls decode_state \<Rightarrow> 'ls decode_state \<Rightarrow> bool" where
  "selects env K M ts gs st st' \<longleftrightarrow> target_run env K M st ts (map Some gs) st'"

lemma selects_Nil [intro]: "selects env K M [] [] st st"
  using target_run.start by (fastforce simp: selects_def)

lemma selects_append:
  "selects env K M ts gs st st1 \<Longrightarrow> selects env K M us hs st1 st2 \<Longrightarrow> selects env K M (ts @ us) (gs @ hs) st st2"
  unfolding selects_def using target_run_trans by fastforce

lemma selects_length:
  "selects env K M ts gs st st' \<Longrightarrow>
     length gs = length ts \<and> ds_token_count st' = ds_token_count st + length ts \<and> (state_fits M st \<longrightarrow> state_fits M st')"
  unfolding selects_def using target_run_shape by fastforce

text \<open>Some run consumed exactly these tokens, whatever it selected.\<close>

definition feeds ::
    "environment \<Rightarrow> ('s, 'ls, 'm) multi_kernels \<Rightarrow> ('s, 'ls, 'm, 'g) model \<Rightarrow> u32 list \<Rightarrow>
     'ls decode_state \<Rightarrow> 'ls decode_state \<Rightarrow> bool" where
  "feeds env K M ts st st' \<longleftrightarrow> (\<exists>outs. target_run env K M st ts outs st')"

lemma feeds_Nil [intro]: "feeds env K M [] st st"
  unfolding feeds_def by (intro exI [of _ "[]"] target_run.start)

lemma feeds_append: "feeds env K M ts st st1 \<Longrightarrow> feeds env K M us st1 st2 \<Longrightarrow> feeds env K M (ts @ us) st st2"
  unfolding feeds_def using target_run_trans by blast

lemma feeds_count: "feeds env K M ts st st' \<Longrightarrow> ds_token_count st' = ds_token_count st + length ts"
  unfolding feeds_def using target_run_count by blast

lemma feeds_fits: "feeds env K M ts st st' \<Longrightarrow> state_fits M st \<Longrightarrow> state_fits M st'"
  unfolding feeds_def using target_run_fits by blast

lemma feeds_ok: "feeds env K M ts st st' \<Longrightarrow> kernels_steady ok K M \<Longrightarrow> state_ok ok M st \<Longrightarrow> state_ok ok M st'"
  unfolding feeds_def using target_run_ok by blast

lemma feeds_prefill: "prefill_chunk_batch env M ts st = (Inr batch, st') \<Longrightarrow> feeds env K M ts st st'"
  unfolding feeds_def using target_run_prefill1 by blast

lemma selects_feeds: "selects env K M ts gs st st' \<Longrightarrow> feeds env K M ts st st'"
  unfolding feeds_def selects_def by blast

text \<open>
  Plain greedy continuation: after the token \<open>t\<close> the target selected the tokens \<open>gs\<close>, each after
  having consumed all the tokens before it; the last one is selected but not yet consumed.
\<close>

definition continuation ::
    "environment \<Rightarrow> ('s, 'ls, 'm) multi_kernels \<Rightarrow> ('s, 'ls, 'm, 'g) model \<Rightarrow> u32 \<Rightarrow> u32 list \<Rightarrow>
     'ls decode_state \<Rightarrow> 'ls decode_state \<Rightarrow> bool" where
  "continuation env K M t gs st st' \<longleftrightarrow> selects env K M (butlast (t # gs)) gs st st'"

lemma continuation_Nil: "continuation env K M t [] st st"
  by (simp add: continuation_def selects_Nil)

lemma butlast_step: "gs \<noteq> [] \<Longrightarrow> butlast (t # gs @ hs) = butlast (t # gs) @ butlast (last gs # hs)"
proof (cases hs rule: rev_cases)
  case (snoc ys y)
  assume "gs \<noteq> []"
  then show ?thesis using snoc by (simp add: butlast_append)
qed simp

lemma continuation_append:
  assumes "continuation env K M t gs st st1" and "continuation env K M (last (t # gs)) hs st1 st2"
  shows "continuation env K M t (gs @ hs) st st2"
proof (cases "gs = []")
  case True
  then have "selects env K M [] [] st st1" using assms(1) by (simp add: continuation_def)
  from selects_append [OF this] show ?thesis using True assms(2) by (simp add: continuation_def)
next
  case False
  then show ?thesis
    using selects_append [OF assms [unfolded continuation_def]] butlast_step [OF False, of t hs]
    by (simp add: continuation_def)
qed

lemma continuation_step:
  "forward_decode_capture env M t st = (Inr step, st') \<Longrightarrow>
     continuation env K M t [md_argmax M (td_logits step)] st st'"
  using target_run_decode1 by (fastforce simp: continuation_def selects_def)

lemma continuation_multi:
  "forward_decode_capture_multi env K M ts sts = (Inr steps, sts') \<Longrightarrow> r < length steps \<Longrightarrow> r < length sts' \<Longrightarrow>
     continuation env K M (ts ! r) [md_argmax M (td_logits (steps ! r))] (sts ! r) (sts' ! r)"
  using target_run_multi1 by (fastforce simp: continuation_def selects_def)

lemma continuation_shape:
  "continuation env K M t gs st st' \<Longrightarrow>
     ds_token_count st' = ds_token_count st + length gs \<and> (state_fits M st \<longrightarrow> state_fits M st')"
  unfolding continuation_def using selects_length by fastforce

lemma continuation_feeds: "continuation env K M t gs st st' \<Longrightarrow> feeds env K M (butlast (t # gs)) st st'"
  unfolding continuation_def by (rule selects_feeds)

end
