(* ===== verification/Mtp_Verifier.thy ===== *)
theory Mtp_Verifier
  imports Target_Run
begin

text \<open>
  Speculative verification by the target model, \<^verbatim>\<open>src/mtp_verifier.cpp\<close>: the serial oracle, the
  layer-major production path, and the transactional commit of a verified prefix.
  A logit value is the bit pattern of its \<open>float\<close>. The \<open>final_mixed\<close> array of a row is
  \<open>None\<close> for the default-constructed \<open>MlxArray{}\<close>.
\<close>

record greedy_step =
  gs_token :: u32
  gs_logit :: u32

record ('s, 'ls, 'm) verify_row =
  vr_greedy :: greedy_step
  vr_final_mixed :: "'m option"
  vr_pre_mixer_stream :: 's
  vr_state_after :: "'ls decode_state"

record ('s, 'ls, 'm) verification =
  vf_draft_count :: nat
  vf_rows :: "('s, 'ls, 'm) verify_row list"

definition validate_draft_count :: "nat \<Rightarrow> unit result" where
  "validate_draft_count count =
     (if count < 2 \<or> count > 24
      then Inl (RuntimeError ''speculative verifier requires 2 to 24 draft tokens'') else Inr ())"

definition greedy_from_logits :: "('s, 'ls, 'm, 'g) model \<Rightarrow> 'g \<Rightarrow> greedy_step" where
  "greedy_from_logits M logits =
     (let token = md_argmax M logits
      in \<lparr>gs_token = token, gs_logit = md_take_logit M logits token\<rparr>)"

definition greedy_batch_from_logits :: "('s, 'ls, 'm, 'g) model \<Rightarrow> 'g list \<Rightarrow> greedy_step list" where
  "greedy_batch_from_logits M logits =
     (let tokens = map (md_argmax M) logits;
          selected = map2 (md_take_logit M) logits tokens
      in map (\<lambda>row. \<lparr>gs_token = tokens ! row, gs_logit = selected ! row\<rparr>) [0..<length logits])"

fun serial_oracle_rows ::
    "environment \<Rightarrow> ('s, 'ls, 'm, 'g) model \<Rightarrow> u32 list \<Rightarrow> 'ls decode_state \<Rightarrow>
     ('s, 'ls, 'm) verify_row list result" where
  "serial_oracle_rows env M [] working = Inr []"
| "serial_oracle_rows env M (input # inputs) working =
     (case forward_decode_capture env M input working of
        (Inl e, _) \<Rightarrow> Inl e
      | (Inr target, working') \<Rightarrow>
          res_bind (snapshot_state M working') (\<lambda>snapshot.
            res_bind (serial_oracle_rows env M inputs working') (\<lambda>rows.
              Inr (\<lparr>vr_greedy = greedy_from_logits M (td_logits target), vr_final_mixed = None,
                    vr_pre_mixer_stream = td_pre_mixer_stream target,
                    vr_state_after = snapshot\<rparr> # rows))))"

definition verify_mtp_target_serial_oracle ::
    "environment \<Rightarrow> ('s, 'ls, 'm, 'g) model \<Rightarrow> u32 \<Rightarrow> u32 list \<Rightarrow> 'ls decode_state \<Rightarrow>
     ('s, 'ls, 'm) verification result" where
  "verify_mtp_target_serial_oracle env M current_token drafts origin =
     res_bind (validate_draft_count (length drafts)) (\<lambda>_.
       res_bind (snapshot_state M origin) (\<lambda>working.
         res_bind (serial_oracle_rows env M (current_token # drafts) working) (\<lambda>rows.
           Inr \<lparr>vf_draft_count = length drafts, vf_rows = rows\<rparr>)))"

definition batch_argmax_enabled :: "environment \<Rightarrow> bool" where
  "batch_argmax_enabled env \<longleftrightarrow>
     (case env ''QWEN38_BATCH_VERIFY_ARGMAX'' of None \<Rightarrow> True | Some v \<Rightarrow> v \<noteq> ''0'')"

definition verify_mtp_target_layer_major_reference ::
    "environment \<Rightarrow> ('s, 'ls, 'm, 'g) model \<Rightarrow> u32 \<Rightarrow> u32 list \<Rightarrow> 'ls decode_state \<Rightarrow>
     ('s, 'ls, 'm) verification result" where
  "verify_mtp_target_layer_major_reference env M current_token drafts origin =
     res_bind (validate_draft_count (length drafts)) (\<lambda>_.
       res_bind (forward_verify_layer_major_reference env M (current_token # drafts) origin) (\<lambda>target.
         let greedy_rows = (if batch_argmax_enabled env
               then greedy_batch_from_logits M (map tv_logits target)
               else map (\<lambda>row. greedy_from_logits M (tv_logits row)) target)
         in Inr \<lparr>vf_draft_count = length drafts,
                 vf_rows = map (\<lambda>index. let row = target ! index in
                   \<lparr>vr_greedy = greedy_rows ! index, vr_final_mixed = Some (tv_final_mixed row),
                    vr_pre_mixer_stream = tv_pre_mixer_stream row,
                    vr_state_after = tv_state_after row\<rparr>) [0..<length target]\<rparr>))"

text \<open>
  \<open>commit_mtp_target_verification\<close> mutates both the verification and the destination; on a
  validation failure both are returned as they came.
\<close>

definition commit_mtp_target_verification ::
    "('s, 'ls, 'm) verification \<Rightarrow> nat \<Rightarrow> 'ls decode_state \<Rightarrow>
     unit result \<times> ('s, 'ls, 'm) verification \<times> 'ls decode_state" where
  "commit_mtp_target_verification verification accepted destination =
     (if length (vf_rows verification) \<noteq> vf_draft_count verification + 1 then
        (Inl (RuntimeError ''MTP verification row count is invalid''), verification, destination)
      else if accepted > vf_draft_count verification then
        (Inl (RuntimeError ''MTP accepted count exceeds verified draft count''),
         verification, destination)
      else (Inr (), verification\<lparr>vf_rows := [], vf_draft_count := 0\<rparr>,
            vr_state_after (vf_rows verification ! accepted)))"

lemma greedy_batch_eq:
  "greedy_batch_from_logits M logits = map (greedy_from_logits M) logits"
  by (rule nth_equalityI) (auto simp: greedy_batch_from_logits_def greedy_from_logits_def Let_def)

subsection \<open>The serial oracle\<close>

text \<open>The oracle fails only on a token outside the vocabulary, once the state and the environment fit.\<close>

lemma serial_oracle_rows_error:
  "state_fits M st \<Longrightarrow> decode_barrier_stride env = Inr d \<Longrightarrow>
     serial_oracle_rows env M ts st = Inl e \<longleftrightarrow> res_map (embed M) ts = Inl e"
proof (induction ts arbitrary: st)
  case Nil
  then show ?case by simp
next
  case (Cons t ts)
  show ?case
  proof (cases "embed M t")
    case (Inl e')
    then show ?thesis
      using Cons.prems by (simp add: forward_decode_capture_def forward_hidden_decode_impl_def)
  next
    case (Inr s)
    obtain s' xs' where dec: "decode_layers (md_layers M) s t (ds_layers st) = (s', xs')" by fastforce
    let ?st = "\<lparr>ds_layers = xs', ds_token_count = ds_token_count st + 1\<rparr>"
    note step = forward_hidden_decode_ok [OF Cons.prems(1) Inr Cons.prems(2) dec]
    have fits: "state_fits M ?st" using forward_decode_capture_fits [OF step] by blast
    show ?thesis
      using Cons.IH [OF fits Cons.prems(2)] Inr fits
      by (cases "serial_oracle_rows env M ts ?st"; cases "res_map (embed M) ts")
         (simp_all add: step snapshot_state_def)
  qed
qed

text \<open>Every row of the oracle is the outcome of decoding the tokens up to that row.\<close>

lemma serial_oracle_rows_run:
  assumes "serial_oracle_rows env M ts st = Inr rows" and "r < length ts"
  shows "length rows = length ts \<and>
    selects env K M (take (r + 1) ts) (map (gs_token \<circ> vr_greedy) (take (r + 1) rows)) st
      (vr_state_after (rows ! r))"
  using assms
proof (induction ts arbitrary: st rows r)
  case Nil
  then show ?case by simp
next
  case (Cons t ts)
  from Cons.prems(1) obtain step st1 rows1 where
      step: "forward_decode_capture env M t st = (Inr step, st1)"
    and rest: "serial_oracle_rows env M ts st1 = Inr rows1"
    and rows: "rows = \<lparr>vr_greedy = greedy_from_logits M (td_logits step), vr_final_mixed = None,
      vr_pre_mixer_stream = td_pre_mixer_stream step, vr_state_after = st1\<rparr> # rows1"
    by (auto simp: snapshot_state_def split: prod.splits sum.splits if_splits)
  have len: "length rows1 = length ts" using Cons.IH [OF rest, of 0] rest by (cases ts) auto
  have one: "selects env K M [t] [md_argmax M (td_logits step)] st st1"
    using target_run_decode1 [OF step] by (simp add: selects_def)
  show ?case
  proof (cases r)
    case 0
    then show ?thesis using one rows len by (simp add: greedy_from_logits_def Let_def)
  next
    case (Suc q)
    then have "selects env K M (take (q + 1) ts) (map (gs_token \<circ> vr_greedy) (take (q + 1) rows1)) st1
        (vr_state_after (rows1 ! q))"
      using Cons.IH [OF rest, of q] Cons.prems(2) by (simp add: comp_def)
    from selects_append [OF one this] show ?thesis
      using Suc rows len by (simp add: greedy_from_logits_def Let_def comp_def)
  qed
qed

lemma serial_oracle_verification:
  assumes "verify_mtp_target_serial_oracle env M t ds st = Inr v"
  shows "vf_draft_count v = length ds \<and> length (vf_rows v) = length ds + 1 \<and>
    (\<forall>r \<le> length ds. selects env K M (take (r + 1) (t # ds))
       (map (gs_token \<circ> vr_greedy) (take (r + 1) (vf_rows v))) st (vr_state_after (vf_rows v ! r)))"
proof -
  from assms have rows: "serial_oracle_rows env M (t # ds) st = Inr (vf_rows v)" "vf_draft_count v = length ds"
    by (auto simp: verify_mtp_target_serial_oracle_def snapshot_state_def split: if_splits
        simp del: serial_oracle_rows.simps)
  then show ?thesis using serial_oracle_rows_run [OF rows(1), of _ K] by (auto simp: less_Suc_eq_le)
qed

subsection \<open>The layer-major verification\<close>

text \<open>
  Every row of the layer-major verification is the outcome of a verification call over the
  current token and all drafts, rolled back to that row; its state is usable once it has been
  materialised.
\<close>

lemma layer_major_verification:
  assumes "verify_mtp_target_layer_major_reference env M t ds st = Inr v"
  shows "vf_draft_count v = length ds \<and> length (vf_rows v) = length ds + 1 \<and>
    2 \<le> length ds \<and> length ds \<le> 24 \<and> state_fits M st \<and> ds_token_count st + length ds + 1 \<le> SIZE_MAX"
    and "r \<le> length ds \<Longrightarrow> state_fits M (vr_state_after (vf_rows v ! r)) \<and>
       ds_token_count (vr_state_after (vf_rows v ! r)) = ds_token_count st + r + 1"
    and "r \<le> length ds \<Longrightarrow>
       materialize_speculative_state M (vr_state_after (vf_rows v ! r)) = (Inr (), st') \<Longrightarrow>
       selects env K M (take (r + 1) (t # ds)) (map (gs_token \<circ> vr_greedy) (take (r + 1) (vf_rows v))) st st'"
proof -
  from assms obtain rows where rows: "forward_verify_layer_major_reference env M (t # ds) st = Inr rows"
    and v: "vf_draft_count v = length ds" "2 \<le> length ds" "length ds \<le> 24" "length (vf_rows v) = length rows"
    and row: "\<And>i. i < length rows \<Longrightarrow> vr_state_after (vf_rows v ! i) = tv_state_after (rows ! i) \<and>
      gs_token (vr_greedy (vf_rows v ! i)) = md_argmax M (tv_logits (rows ! i))"
    by (auto simp: verify_mtp_target_layer_major_reference_def validate_draft_count_def greedy_batch_eq
        greedy_from_logits_def Let_def split: if_splits simp del: upt_Suc)
  note S = forward_verify_shape [OF rows]
  show "vf_draft_count v = length ds \<and> length (vf_rows v) = length ds + 1 \<and>
    2 \<le> length ds \<and> length ds \<le> 24 \<and> state_fits M st \<and> ds_token_count st + length ds + 1 \<le> SIZE_MAX"
    using v S by auto
  show "state_fits M (vr_state_after (vf_rows v ! r)) \<and>
       ds_token_count (vr_state_after (vf_rows v ! r)) = ds_token_count st + r + 1" if "r \<le> length ds"
    using that S row [of r] by auto
  assume r: "r \<le> length ds"
    and mat: "materialize_speculative_state M (vr_state_after (vf_rows v ! r)) = (Inr (), st')"
  have lr: "r < length (t # ds)" "length rows = length (t # ds)" using r S by auto
  have "map (\<lambda>row. Some (md_argmax M (tv_logits row))) (take (Suc r) rows) =
      map Some (map (gs_token \<circ> vr_greedy) (take (r + 1) (vf_rows v)))"
    using lr v(4) row by (intro nth_equalityI) auto
  then show "selects env K M (take (r + 1) (t # ds)) (map (gs_token \<circ> vr_greedy) (take (r + 1) (vf_rows v))) st st'"
    using target_run_verify1 [OF rows lr(1), of st' K] mat row [of r] lr by (simp add: selects_def)
qed

lemma layer_major_total:
  assumes "steady ok M" and "state_ok ok M st" and "2 \<le> length ds" and "length ds \<le> 24"
    and "ds_token_count st + length ds + 1 \<le> SIZE_MAX"
    and "\<forall>x \<in> set (t # ds). unat x < md_vocabulary_size M" and "verify_barrier_stride env = Inr n"
  shows "\<exists>v. verify_mtp_target_layer_major_reference env M t ds st = Inr v \<and>
    (\<forall>r \<le> length ds. \<exists>st'. materialize_speculative_state M (vr_state_after (vf_rows v ! r)) = (Inr (), st') \<and>
       state_ok ok M st')"
proof -
  obtain rows where rows: "forward_verify_layer_major_reference env M (t # ds) st = Inr rows"
    and mat: "\<forall>r < length (t # ds). \<exists>st'. materialize_speculative_state M (tv_state_after (rows ! r)) = (Inr (), st') \<and>
       state_ok ok M st'"
    using forward_verify_total [OF assms(1,2) _ _ _ assms(6,7)] assms(3-5) by auto
  have len: "length rows = length (t # ds)" using forward_verify_shape [OF rows] by simp
  then obtain v where v: "verify_mtp_target_layer_major_reference env M t ds st = Inr v"
    and row: "\<forall>i < length rows. vr_state_after (vf_rows v ! i) = tv_state_after (rows ! i)"
    using rows assms(3,4)
    by (auto simp: verify_mtp_target_layer_major_reference_def validate_draft_count_def Let_def simp del: upt_Suc)
  have "\<exists>st'. materialize_speculative_state M (vr_state_after (vf_rows v ! r)) = (Inr (), st') \<and> state_ok ok M st'"
    if "r \<le> length ds" for r
    using mat row that len by simp
  then show ?thesis using v by blast
qed

lemma layer_major_vocabulary:
  assumes "verify_mtp_target_layer_major_reference env M t ds st = Inr v"
  shows "\<forall>x \<in> set (t # ds). unat x < md_vocabulary_size M"
proof -
  from assms obtain ss where "res_map (embed M) (t # ds) = Inr ss"
    by (auto simp: verify_mtp_target_layer_major_reference_def forward_verify_layer_major_reference_def
        split: if_splits simp del: res_map.simps)
  then show ?thesis by (rule embed_all_vocabulary)
qed

lemma layer_major_stride:
  assumes "verify_mtp_target_layer_major_reference env M t ds st = Inr v"
  shows "\<exists>n. verify_barrier_stride env = Inr n"
  using assms
  by (cases "verify_barrier_stride env")
     (auto simp: verify_mtp_target_layer_major_reference_def forward_verify_layer_major_reference_def split: if_splits)

subsection \<open>The two verifiers\<close>

lemma layer_major_error:
  assumes "steady ok M" and "state_ok ok M st" and "2 \<le> length ds" and "length ds \<le> 24"
    and "ds_token_count st + length ds + 1 \<le> SIZE_MAX" and "verify_barrier_stride env = Inr n"
  shows "verify_mtp_target_layer_major_reference env M t ds st = Inl e \<longleftrightarrow> res_map (embed M) (t # ds) = Inl e"
proof (cases "res_map (embed M) (t # ds)")
  case (Inl e')
  have "state_fits M st" using assms(2) by blast
  then have "forward_verify_layer_major_reference env M (t # ds) st = Inl e'"
    using assms(3-5) Inl by (auto simp: forward_verify_layer_major_reference_def simp del: res_map.simps)
  then show ?thesis
    using assms(3,4) Inl
    by (simp add: verify_mtp_target_layer_major_reference_def validate_draft_count_def del: res_map.simps)
next
  case (Inr ss)
  have "\<forall>x \<in> set (t # ds). unat x < md_vocabulary_size M" by (rule embed_all_vocabulary [OF Inr])
  then show ?thesis using layer_major_total [OF assms(1-5) _ assms(6)] Inr by fastforce
qed

lemma verifiers_agree:
  assumes "steady ok M" and "state_ok ok M st"
    and "verify_barrier_stride env = Inr n" and "decode_barrier_stride env = Inr d"
    and "ds_token_count st + length ds + 1 \<le> SIZE_MAX"
  shows "verify_mtp_target_layer_major_reference env M t ds st = Inl e \<longleftrightarrow>
    verify_mtp_target_serial_oracle env M t ds st = Inl e"
proof (cases "2 \<le> length ds \<and> length ds \<le> 24")
  case False
  then show ?thesis
    by (auto simp: verify_mtp_target_layer_major_reference_def verify_mtp_target_serial_oracle_def
        validate_draft_count_def)
next
  case True
  have fits: "state_fits M st" using assms(2) by blast
  have "verify_mtp_target_serial_oracle env M t ds st = Inl e \<longleftrightarrow> serial_oracle_rows env M (t # ds) st = Inl e"
    using True fits by (simp add: verify_mtp_target_serial_oracle_def validate_draft_count_def snapshot_state_def
        res_bind_Inl_iff del: serial_oracle_rows.simps)
  then show ?thesis
    using layer_major_error [OF assms(1,2) _ _ assms(5,3)] serial_oracle_rows_error [OF fits assms(4), of "t # ds"]
      True by (simp del: serial_oracle_rows.simps res_map.simps)
qed


lemma sample_verification:
  "\<exists>v. verify_mtp_target_layer_major_reference no_environment sample_model 3 [4, 5] sample_state = Inr v"
proof -
  have "\<exists>v. verify_mtp_target_layer_major_reference no_environment sample_model 3 [4, 5] sample_state = Inr v \<and>
    (\<forall>r \<le> length [4, 5 :: u32]. \<exists>st'. materialize_speculative_state sample_model (vr_state_after (vf_rows v ! r)) =
       (Inr (), st') \<and> state_ok (\<lambda>_. True) sample_model st')"
    by (rule layer_major_total [OF sample_steady _ _ _ _ _ default_strides(1)])
       (simp_all add: state_ok_def state_fits_def SIZE_MAX_def sample_defs)
  then show ?thesis by blast
qed


subsection \<open>The commit\<close>

lemma commit_ok:
  assumes "length (vf_rows v) = vf_draft_count v + 1" and "accepted \<le> vf_draft_count v"
  shows "commit_mtp_target_verification v accepted dest =
    (Inr (), v\<lparr>vf_rows := [], vf_draft_count := 0\<rparr>, vr_state_after (vf_rows v ! accepted))"
  using assms by (simp add: commit_mtp_target_verification_def)

text \<open>C13. Verify and commit together are a rollback-safe transaction, for arbitrary kernels: after
  a successful layer-major verification, committing \<open>accepted\<close> drafts empties the verification and
  installs the state after exactly that row; once this state has been materialised, it is one a
  run of the target over exactly the current token and the first \<open>accepted\<close> drafts reached, one
  token count per consumed token, and no rejected draft has entered it. Claiming more drafts than
  were verified throws and changes neither the verification nor the destination.\<close>

theorem commit_installs_verified_prefix:
  assumes "verify_mtp_target_layer_major_reference env M t ds st = Inr v"
  shows "if accepted \<le> length ds
    then \<exists>v' row. commit_mtp_target_verification v accepted dest = (Inr (), v', row) \<and> vf_rows v' = [] \<and>
      state_fits M row \<and> ds_token_count row = ds_token_count st + accepted + 1 \<and>
      (\<forall>st'. materialize_speculative_state M row = (Inr (), st') \<longrightarrow>
         selects env K M (t # take accepted ds) (map (gs_token \<circ> vr_greedy) (take (accepted + 1) (vf_rows v))) st st' \<and>
         ds_token_count st' = ds_token_count st + accepted + 1)
    else \<exists>e. commit_mtp_target_verification v accepted dest = (Inl e, v, dest)"
proof (cases "accepted \<le> length ds")
  case True
  note V = layer_major_verification [OF assms]
  let ?row = "vr_state_after (vf_rows v ! accepted)"
  have "commit_mtp_target_verification v accepted dest =
      (Inr (), v\<lparr>vf_rows := [], vf_draft_count := 0\<rparr>, ?row)"
    using commit_ok V(1) True by metis
  moreover have "selects env K M (t # take accepted ds) (map (gs_token \<circ> vr_greedy) (take (accepted + 1) (vf_rows v))) st st' \<and>
      ds_token_count st' = ds_token_count st + accepted + 1"
    if "materialize_speculative_state M ?row = (Inr (), st')" for st'
    using V(3) [OF True that, of K] materialize_fits [OF that] V(2) [OF True] by simp
  ultimately show ?thesis using V(2) [OF True] True by auto
next
  case False
  then show ?thesis
    using layer_major_verification(1) [OF assms] by (simp add: commit_mtp_target_verification_def)
qed

theorem commit_installs_verified_prefix_witness:
  "\<exists>v v' st'.
    verify_mtp_target_layer_major_reference no_environment sample_model 3 [4, 5] sample_state = Inr v \<and>
    commit_mtp_target_verification v 1 sample_state = (Inr (), v', st') \<and> vf_rows v' = [] \<and> ds_token_count st' = 2"
proof -
  obtain v where v: "verify_mtp_target_layer_major_reference no_environment sample_model 3 [4, 5] sample_state = Inr v"
    using sample_verification by blast
  show ?thesis
    using v commit_installs_verified_prefix [OF v, of 1 sample_state sample_multi]
    by (auto simp: sample_state_def)
qed

end
