(* ===== verification/Mtp_Head.thy ===== *)
theory Mtp_Head
  imports Target_Model
begin

text \<open>
  The companion head that drafts tokens, \<^verbatim>\<open>src/mtp_head.cpp\<close>, and the replay of cached rows in
  \<^verbatim>\<open>src/native_engine.cpp\<close>. The numerical kernels (input combination, the one decoder
  layer, the final mixer, the projection with its adapters) are the fields of \<open>mtp_head\<close>. What is
  modelled is the state the head keeps: how many rows it holds, from which position, and which
  calls it rejects. A row array of the wrong width is one for which \<open>hd_shape_ok\<close> is false.
\<close>

record ('s, 'hl, 'm, 'g) mtp_head =
  hd_vocabulary_size :: nat
  hd_shape_ok :: "'s \<Rightarrow> bool"
  hd_combine :: "'s list \<Rightarrow> u32 list \<Rightarrow> 's list"
  hd_set_position_base :: "nat \<Rightarrow> 'hl \<Rightarrow> 'hl"
  hd_layer :: "('s, 'hl) layer"
  hd_read :: "'s \<Rightarrow> 'm"
  hd_project :: "nat \<Rightarrow> 'm \<Rightarrow> 'g"
  hd_argmax :: "'g \<Rightarrow> u32"
  hd_logit_count :: "'g \<Rightarrow> nat"
  hd_top2 :: "'g \<Rightarrow> u32 list"

record ('s, 'g) mtp_decode_step =
  mt_logits :: 'g
  mt_pre_mixer_stream :: 's

text \<open>The position checks every entry point starts with; the first one may set the base.\<close>

definition claim_position ::
    "string \<Rightarrow> ('s, 'hl, 'm, 'g) mtp_head \<Rightarrow> nat \<Rightarrow> 'hl mtp_decode_state \<Rightarrow>
     unit result \<times> 'hl mtp_decode_state" where
  "claim_position message H query_position st =
     (let base = (case ms_position_base st of None \<Rightarrow> query_position | Some b \<Rightarrow> b);
          st1 = st\<lparr>ms_position_base := Some base\<rparr>
      in if query_position \<noteq> sz_add base (ms_row_count st) then (Inl (RuntimeError message), st1)
         else if ms_row_count st = 0 then
           (Inr (), st1\<lparr>ms_layer := hd_set_position_base H query_position (ms_layer st)\<rparr>)
         else (Inr (), st1))"

definition forward_stream_lazy_token ::
    "('s, 'hl, 'm, 'g) mtp_head \<Rightarrow> 's \<Rightarrow> u32 \<Rightarrow> nat \<Rightarrow> 'hl mtp_decode_state \<Rightarrow>
     's result \<times> 'hl mtp_decode_state" where
  "forward_stream_lazy_token H stream token query_position st =
     (if \<not> hd_shape_ok H stream then
        (Inl (RuntimeError ''MTP target stream must have shape [1,1,10240]''), st)
      else case claim_position ''MTP query positions must be contiguous'' H query_position st of
        (Inl e, st1) \<Rightarrow> (Inl e, st1)
      | (Inr _, st1) \<Rightarrow>
          (case lk_decode (hd_layer H) (hd (hd_combine H [stream] [token])) 0 (ms_layer st1) of
             (stream', layer') \<Rightarrow>
               (Inr stream', st1\<lparr>ms_layer := layer', ms_row_count := ms_row_count st1 + 1\<rparr>)))"

definition forward_stream ::
    "('s, 'hl, 'm, 'g) mtp_head \<Rightarrow> 's \<Rightarrow> u32 \<Rightarrow> nat \<Rightarrow> 'hl mtp_decode_state \<Rightarrow>
     's result \<times> 'hl mtp_decode_state" where
  "forward_stream H stream token query_position st =
     (if unat token \<ge> hd_vocabulary_size H then
        (Inl (RuntimeError ''MTP token id is out of range''), st)
      else forward_stream_lazy_token H stream token query_position st)"

definition consume_decode ::
    "('s, 'hl, 'm, 'g) mtp_head \<Rightarrow> 's \<Rightarrow> u32 \<Rightarrow> nat \<Rightarrow> 'hl mtp_decode_state \<Rightarrow>
     unit result \<times> 'hl mtp_decode_state" where
  "consume_decode H stream token query_position st =
     (case forward_stream H stream token query_position st of
        (Inl e, st') \<Rightarrow> (Inl e, st')
      | (Inr _, st') \<Rightarrow> (Inr (), st'))"

definition combine_inputs ::
    "('s, 'hl, 'm, 'g) mtp_head \<Rightarrow> 's list \<Rightarrow> u32 list \<Rightarrow> 's list result" where
  "combine_inputs H streams tokens =
     (if (\<exists>s \<in> set streams. \<not> hd_shape_ok H s) \<or> length tokens \<noteq> length streams then
        Inl (RuntimeError ''MTP target streams and tokens have incompatible shapes'')
      else Inr (hd_combine H streams tokens))"

definition consume_committed_batch ::
    "('s, 'hl, 'm, 'g) mtp_head \<Rightarrow> 's list \<Rightarrow> u32 list \<Rightarrow> nat \<Rightarrow> 'hl mtp_decode_state \<Rightarrow>
     unit result \<times> 'hl mtp_decode_state" where
  "consume_committed_batch H streams tokens query_position st =
     (if length tokens < 2 \<or> length tokens > 25 \<or> length streams \<noteq> length tokens then
        (Inl (RuntimeError ''MTP committed batch requires 2 to 25 matching rows''), st)
      else case claim_position ''MTP committed batch positions must be contiguous'' H query_position st of
        (Inl e, st1) \<Rightarrow> (Inl e, st1)
      | (Inr _, st1) \<Rightarrow>
          if \<exists>t \<in> set tokens. unat t \<ge> hd_vocabulary_size H then
            (Inl (RuntimeError ''MTP token id is out of range''), st1)
          else case combine_inputs H streams tokens of
            Inl e \<Rightarrow> (Inl e, st1)
          | Inr combined \<Rightarrow>
              (case lk_verify (hd_layer H) combined tokens (ms_layer st1) of
                 Inl e \<Rightarrow> (Inl e, st1)
               | Inr (_, checkpoints) \<Rightarrow>
                   (Inr (), st1\<lparr>ms_layer := last checkpoints,
                                ms_row_count := ms_row_count st1 + length tokens\<rparr>)))"

definition consume_prefill_batch ::
    "('s, 'hl, 'm, 'g) mtp_head \<Rightarrow> 's list \<Rightarrow> u32 list \<Rightarrow> nat \<Rightarrow> 'hl mtp_decode_state \<Rightarrow>
     unit result \<times> 'hl mtp_decode_state" where
  "consume_prefill_batch H streams tokens query_position st =
     (if tokens = [] then (Inl (RuntimeError ''invalid MTP dimension: prefill rows''), st)
      else if length tokens > 512 \<or> length streams \<noteq> length tokens \<or>
         (\<exists>s \<in> set streams. \<not> hd_shape_ok H s) then
        (Inl (RuntimeError ''MTP prefill batch requires 1 to 512 matching target rows''), st)
      else case claim_position ''MTP prefill positions must be contiguous'' H query_position st of
        (Inl e, st1) \<Rightarrow> (Inl e, st1)
      | (Inr _, st1) \<Rightarrow>
          if \<exists>t \<in> set tokens. unat t \<ge> hd_vocabulary_size H then
            (Inl (RuntimeError ''MTP token id is out of range''), st1)
          else case combine_inputs H streams tokens of
            Inl e \<Rightarrow> (Inl e, st1)
          | Inr combined \<Rightarrow>
              (case lk_prefill (hd_layer H) combined tokens (ms_layer st1) of
                 (_, layer') \<Rightarrow>
                   (Inr (), st1\<lparr>ms_layer := layer', ms_row_count := ms_row_count st1 + length tokens\<rparr>)))"

definition mtp_forward_decode ::
    "('s, 'hl, 'm, 'g) mtp_head \<Rightarrow> 's \<Rightarrow> u32 \<Rightarrow> nat \<Rightarrow> 'hl mtp_decode_state \<Rightarrow>
     ('s, 'g) mtp_decode_step result \<times> 'hl mtp_decode_state" where
  "mtp_forward_decode H stream token query_position st =
     (case forward_stream H stream token query_position st of
        (Inl e, st') \<Rightarrow> (Inl e, st')
      | (Inr stream', st') \<Rightarrow>
          (Inr \<lparr>mt_logits = hd_project H 0 (hd_read H stream'), mt_pre_mixer_stream = stream'\<rparr>, st'))"

text \<open>The second component is what \<open>final_mixed_trace\<close> receives.\<close>

definition forward_decode_lazy_token ::
    "('s, 'hl, 'm, 'g) mtp_head \<Rightarrow> 's \<Rightarrow> u32 \<Rightarrow> nat \<Rightarrow> 'hl mtp_decode_state \<Rightarrow> nat \<Rightarrow>
     (('s, 'g) mtp_decode_step \<times> 'm) result \<times> 'hl mtp_decode_state" where
  "forward_decode_lazy_token H stream token query_position st adapter_depth =
     (case forward_stream_lazy_token H stream token query_position st of
        (Inl e, st') \<Rightarrow> (Inl e, st')
      | (Inr stream', st') \<Rightarrow>
          let mixed = hd_read H stream' in
          (Inr (\<lparr>mt_logits = hd_project H adapter_depth mixed, mt_pre_mixer_stream = stream'\<rparr>, mixed), st'))"

text \<open>\<open>mtp_state_matches_target\<close> and \<open>consume_pending_mtp_rows\<close> of the engine.\<close>

definition mtp_state_matches_target :: "'hl mtp_decode_state \<Rightarrow> nat \<Rightarrow> bool" where
  "mtp_state_matches_target st target_token_count \<longleftrightarrow>
     (case ms_position_base st of
        None \<Rightarrow> False
      | Some b \<Rightarrow> b \<le> target_token_count \<and> ms_row_count st = target_token_count - b)"

function consume_pending_loop ::
    "('s, 'hl, 'm, 'g) mtp_head \<Rightarrow> 's list \<Rightarrow> u32 list \<Rightarrow> 'hl mtp_decode_state \<Rightarrow>
     unit result \<times> 'hl mtp_decode_state" where
  "consume_pending_loop H streams tokens st =
     (if tokens = [] then (Inr (), st)
      else
        let position = sz_add (case ms_position_base st of None \<Rightarrow> 0 | Some b \<Rightarrow> b) (ms_row_count st) in
        if length tokens = 1 then consume_decode H (hd streams) (hd tokens) position st
        else
          let count = min (length tokens) 5 in
          (case consume_committed_batch H (take count streams) (take count tokens) position st of
             (Inl e, st') \<Rightarrow> (Inl e, st')
           | (Inr _, st') \<Rightarrow> consume_pending_loop H (drop count streams) (drop count tokens) st'))"
  by pat_completeness auto
termination
  by (relation "measure (\<lambda>(H, streams, tokens, st). length tokens)") auto

declare consume_pending_loop.simps [simp del]

definition consume_pending_mtp_rows ::
    "('s, 'hl, 'm, 'g) mtp_head \<Rightarrow> 's list \<Rightarrow> u32 list \<Rightarrow> 'hl mtp_decode_state \<Rightarrow>
     unit result \<times> 'hl mtp_decode_state" where
  "consume_pending_mtp_rows H streams tokens st =
     (if length streams \<noteq> length tokens then
        (Inl (RuntimeError ''cached MTP rows must have matching streams and tokens''), st)
      else if tokens \<noteq> [] \<and> ms_position_base st = None then
        (Inl (RuntimeError ''cached MTP rows require an initialized position base''), st)
      else consume_pending_loop H streams tokens st)"

subsection \<open>What the head has consumed\<close>

text \<open>
  \<open>head_run H q st0 rows st\<close>: from \<open>st0\<close> the head has consumed exactly the rows \<open>rows\<close>, pairs of a
  target stream and the token that follows it, in this order and at the positions
  \<open>q, q + 1, \<dots>\<close>, by whichever of its entry points, and is now in the state \<open>st\<close>. The entry points
  are different kernels, so the relation says what went in and not that they compute the same.
\<close>

inductive head_run ::
    "('s, 'hl, 'm, 'g) mtp_head \<Rightarrow> nat \<Rightarrow> 'hl mtp_decode_state \<Rightarrow> ('s \<times> u32) list \<Rightarrow> 'hl mtp_decode_state \<Rightarrow> bool"
  for H q st0 where
  start: "head_run H q st0 [] st0"
| single: "head_run H q st0 rows st \<Longrightarrow> consume_decode H s t (q + length rows) st = (Inr (), st') \<Longrightarrow>
     head_run H q st0 (rows @ [(s, t)]) st'"
| committed: "head_run H q st0 rows st \<Longrightarrow>
     consume_committed_batch H ss ts (q + length rows) st = (Inr (), st') \<Longrightarrow>
     head_run H q st0 (rows @ zip ss ts) st'"
| prefilled: "head_run H q st0 rows st \<Longrightarrow>
     consume_prefill_batch H ss ts (q + length rows) st = (Inr (), st') \<Longrightarrow>
     head_run H q st0 (rows @ zip ss ts) st'"

definition rows_valid :: "('s, 'hl, 'm, 'g) mtp_head \<Rightarrow> 's list \<Rightarrow> u32 list \<Rightarrow> bool" where
  "rows_valid H ss ts \<longleftrightarrow> length ss = length ts \<and> (\<forall>s \<in> set ss. hd_shape_ok H s) \<and>
     (\<forall>t \<in> set ts. unat t < hd_vocabulary_size H)"

definition head_in_sync :: "nat \<Rightarrow> 'hl mtp_decode_state \<Rightarrow> bool" where
  "head_in_sync q st \<longleftrightarrow>
     (case ms_position_base st of None \<Rightarrow> ms_row_count st = 0 | Some b \<Rightarrow> b + ms_row_count st = q)"

text \<open>
  The one layer of the head is a full-attention layer, which defers no work, so its verification
  kernel accepts every state.
\<close>

definition head_commits :: "('s, 'hl, 'm, 'g) mtp_head \<Rightarrow> bool" where
  "head_commits H \<longleftrightarrow>
     (\<forall>ss ts x. length ss = length ts \<longrightarrow> 2 \<le> length ts \<longrightarrow> length ts \<le> 25 \<longrightarrow>
        (\<exists>r. lk_verify (hd_layer H) (hd_combine H ss ts) ts x = Inr r))"

definition based_layer :: "('s, 'hl, 'm, 'g) mtp_head \<Rightarrow> nat \<Rightarrow> 'hl mtp_decode_state \<Rightarrow> 'hl" where
  "based_layer H q st =
     (if ms_row_count st = 0 then hd_set_position_base H q (ms_layer st) else ms_layer st)"

lemma claim_position_ok:
  assumes "head_in_sync q st" and "q \<le> SIZE_MAX"
  shows "claim_position msg H q st =
    (Inr (), st\<lparr>ms_position_base := Some (q - ms_row_count st), ms_layer := based_layer H q st\<rparr>)"
  using assms
  by (cases st) (auto simp: claim_position_def head_in_sync_def based_layer_def Let_def split: option.splits)

lemma head_in_sync_next:
  assumes "head_in_sync q st"
  shows "head_in_sync (q + n) \<lparr>ms_layer = x, ms_row_count = ms_row_count st + n,
    ms_position_base = Some (q - ms_row_count st)\<rparr>"
  using assms by (auto simp: head_in_sync_def split: option.splits)

lemma consume_decode_ok:
  assumes "head_in_sync q st" and "q \<le> SIZE_MAX" and "hd_shape_ok H s" and "unat t < hd_vocabulary_size H"
  shows "\<exists>x. consume_decode H s t q st =
    (Inr (), \<lparr>ms_layer = x, ms_row_count = ms_row_count st + 1, ms_position_base = Some (q - ms_row_count st)\<rparr>)"
  using assms
  by (cases st) (simp add: consume_decode_def forward_stream_def forward_stream_lazy_token_def
      claim_position_ok not_le split: prod.splits)

lemma committed_batch_ok:
  assumes "head_commits H" and "rows_valid H ss ts" and "2 \<le> length ts" and "length ts \<le> 25"
    and "head_in_sync q st" and "q \<le> SIZE_MAX"
  shows "\<exists>x. consume_committed_batch H ss ts q st =
    (Inr (), \<lparr>ms_layer = x, ms_row_count = ms_row_count st + length ts,
              ms_position_base = Some (q - ms_row_count st)\<rparr>)"
proof -
  have valid: "(\<exists>t \<in> set ts. unat t \<ge> hd_vocabulary_size H) = False" "length ss = length ts"
      "combine_inputs H ss ts = Inr (hd_combine H ss ts)"
    using assms(2) by (auto simp: rows_valid_def combine_inputs_def not_le)
  obtain r where "lk_verify (hd_layer H) (hd_combine H ss ts) ts (based_layer H q st) = Inr r"
    using assms(1) [unfolded head_commits_def, rule_format, OF valid(2) assms(3,4)] by blast
  then show ?thesis
    unfolding consume_committed_batch_def claim_position_ok [OF assms(5,6)] valid(1,3)
    using assms(3,4) valid by (cases st; cases r) simp
qed

lemma consume_decode_InrD:
  assumes "consume_decode H s t q st = (Inr (), st')"
  shows "ms_row_count st' = ms_row_count st + 1 \<and> ms_position_base st' \<noteq> None \<and>
    (\<forall>b. ms_position_base st = Some b \<longrightarrow> ms_position_base st' = Some b)"
  using assms
  by (auto simp: consume_decode_def forward_stream_def forward_stream_lazy_token_def claim_position_def Let_def
      split: if_splits prod.splits sum.splits option.splits)

subsection \<open>Rows replayed one by one or as a batch\<close>

lemma head_run_single:
  assumes "head_in_sync q st" and "q \<le> SIZE_MAX" and "hd_shape_ok H s" and "unat t < hd_vocabulary_size H"
  shows "\<exists>st'. consume_decode H s t q st = (Inr (), st') \<and> head_run H q st [(s, t)] st' \<and>
    head_in_sync (q + 1) st' \<and> ms_position_base st' = Some (q - ms_row_count st) \<and>
    ms_row_count st' = ms_row_count st + 1"
proof -
  obtain x where x: "consume_decode H s t q st =
      (Inr (), \<lparr>ms_layer = x, ms_row_count = ms_row_count st + 1, ms_position_base = Some (q - ms_row_count st)\<rparr>)"
    using consume_decode_ok [OF assms] by blast
  then have "head_run H q st ([] @ [(s, t)])
      \<lparr>ms_layer = x, ms_row_count = ms_row_count st + 1, ms_position_base = Some (q - ms_row_count st)\<rparr>"
    by (intro head_run.single [OF head_run.start]) simp
  then show ?thesis using x head_in_sync_next [OF assms(1), where x = x and n = 1] by simp
qed

lemma head_run_batch:
  assumes "head_commits H" and "rows_valid H ss ts" and "2 \<le> length ts" and "length ts \<le> 25"
    and "head_in_sync q st" and "q \<le> SIZE_MAX"
  shows "\<exists>st'. consume_committed_batch H ss ts q st = (Inr (), st') \<and> head_run H q st (zip ss ts) st' \<and>
    head_in_sync (q + length ts) st' \<and> ms_position_base st' = Some (q - ms_row_count st) \<and>
    ms_row_count st' = ms_row_count st + length ts"
proof -
  obtain x where x: "consume_committed_batch H ss ts q st = (Inr (), \<lparr>ms_layer = x,
      ms_row_count = ms_row_count st + length ts, ms_position_base = Some (q - ms_row_count st)\<rparr>)"
    using committed_batch_ok [OF assms] by blast
  then have "head_run H q st ([] @ zip ss ts) \<lparr>ms_layer = x,
      ms_row_count = ms_row_count st + length ts, ms_position_base = Some (q - ms_row_count st)\<rparr>"
    by (intro head_run.committed [OF head_run.start]) simp
  then show ?thesis using x head_in_sync_next [OF assms(5), where x = x and n = "length ts"] by simp
qed

lemma head_run_trans:
  assumes "head_run H q st0 rows1 st1" and "head_run H (q + length rows1) st1 rows2 st2"
  shows "head_run H q st0 (rows1 @ rows2) st2"
  using assms(2)
proof (induction rule: head_run.induct)
  case start
  then show ?case using assms(1) by simp
next
  case (single rows st s t st')
  then show ?case using head_run.single [of H q st0 "rows1 @ rows" st s t st'] by (simp add: add.assoc)
next
  case (committed rows st ss ts st')
  then show ?case using head_run.committed [of H q st0 "rows1 @ rows" st ss ts st'] by (simp add: add.assoc)
next
  case (prefilled rows st ss ts st')
  then show ?case using head_run.prefilled [of H q st0 "rows1 @ rows" st ss ts st'] by (simp add: add.assoc)
qed

lemma rows_valid_take: "rows_valid H ss ts \<Longrightarrow> rows_valid H (take n ss) (take n ts)"
  by (auto simp: rows_valid_def dest: in_set_takeD)

lemma rows_valid_drop: "rows_valid H ss ts \<Longrightarrow> rows_valid H (drop n ss) (drop n ts)"
  by (auto simp: rows_valid_def dest: in_set_dropD)

text \<open>The concrete head the witnesses use.\<close>

definition sample_head :: "(u32, u32 list, u32, u32) mtp_head" where
  "sample_head = \<lparr>hd_vocabulary_size = 64, hd_shape_ok = (\<lambda>_. True),
     hd_combine = (\<lambda>ss ts. map2 (+) ss ts), hd_set_position_base = (\<lambda>q x. x),
     hd_layer = \<lparr>lk_decode = (\<lambda>s _ x. (s + of_nat (length x), s # x)),
       lk_verify = (\<lambda>ss ts x. Inr (map (\<lambda>i. ss ! i + of_nat (length x + i)) [0..<length ss],
         map (\<lambda>i. rev (take (i + 1) ss) @ x) [0..<length ss])),
       lk_prefill = (\<lambda>ss ts x. (ss, rev ss @ x)), lk_materialize = Inr\<rparr>,
     hd_read = (\<lambda>s. s), hd_project = (\<lambda>_ m. m), hd_argmax = (\<lambda>g. g mod 64),
     hd_logit_count = (\<lambda>_. 64), hd_top2 = (\<lambda>g. [g mod 64, (g + 1) mod 64])\<rparr>"

definition sample_head_state :: "u32 list mtp_decode_state" where
  "sample_head_state = \<lparr>ms_layer = [], ms_row_count = 0, ms_position_base = None\<rparr>"

lemma sample_head_commits: "head_commits sample_head"
  by (simp add: head_commits_def sample_head_def)

subsection \<open>Replay of cached rows\<close>

lemma consume_pending_loop_ok:
  "head_commits H \<Longrightarrow> rows_valid H ss ts \<Longrightarrow> ms_position_base st = Some b \<Longrightarrow>
    b + ms_row_count st + length ts \<le> SIZE_MAX \<Longrightarrow>
    \<exists>st'. consume_pending_loop H ss ts st = (Inr (), st') \<and>
      head_run H (b + ms_row_count st) st (zip ss ts) st' \<and> ms_position_base st' = Some b \<and>
      ms_row_count st' = ms_row_count st + length ts"
proof (induction H ss ts st rule: consume_pending_loop.induct)
  case (1 H ss ts st)
  let ?q = "b + ms_row_count st" and ?n = "min (length ts) 5"
  have sync: "head_in_sync ?q st" using 1(4) by (simp add: head_in_sync_def)
  have q: "?q \<le> SIZE_MAX" "sz_add b (ms_row_count st) = ?q" using 1(5) by simp_all
  consider (none) "ts = []" | (one) "length ts = 1" | (many) "2 \<le> length ts"
    by (cases ts; cases "tl ts"; auto)
  then show ?case
  proof cases
    case none
    then show ?thesis
      using head_run.start [of H ?q st] 1(4) by (subst consume_pending_loop.simps) simp
  next
    case one
    then obtain s t where st: "ss = [s]" "ts = [t]"
      using 1(3) by (auto simp: rows_valid_def length_Suc_conv)
    then have "hd_shape_ok H s" "unat t < hd_vocabulary_size H" using 1(3) by (auto simp: rows_valid_def)
    from head_run_single [OF sync q(1) this] show ?thesis
      using st 1(4) q(2) by (subst consume_pending_loop.simps) (auto simp: Let_def)
  next
    case many
    have n: "2 \<le> length (take ?n ts)" "length (take ?n ts) \<le> 25" and ne: "ts \<noteq> []" using many by auto
    obtain st1 where batch: "consume_committed_batch H (take ?n ss) (take ?n ts) ?q st = (Inr (), st1)"
      and run: "head_run H ?q st (zip (take ?n ss) (take ?n ts)) st1"
      and st1: "ms_position_base st1 = Some b" "ms_row_count st1 = ms_row_count st + ?n"
      using head_run_batch [OF 1(2) rows_valid_take [OF 1(3)] n sync q(1)] by auto
    have "\<exists>st'. consume_pending_loop H (drop ?n ss) (drop ?n ts) st1 = (Inr (), st') \<and>
        head_run H (b + ms_row_count st1) st1 (zip (drop ?n ss) (drop ?n ts)) st' \<and>
        ms_position_base st' = Some b \<and> ms_row_count st' = ms_row_count st1 + length (drop ?n ts)"
      using 1(1) [OF ne refl _ refl _ _ 1(2) rows_valid_drop [OF 1(3)] st1(1)]
        many batch 1(4,5) q(2) st1(2) by (auto simp: Let_def)
    then obtain st' where rest: "consume_pending_loop H (drop ?n ss) (drop ?n ts) st1 = (Inr (), st')"
      "head_run H (b + ms_row_count st1) st1 (zip (drop ?n ss) (drop ?n ts)) st'"
      "ms_position_base st' = Some b" "ms_row_count st' = ms_row_count st1 + length (drop ?n ts)"
      by blast
    have len: "length ss = length ts" using 1(3) by (simp add: rows_valid_def)
    have "head_run H ?q st (zip (take ?n ss) (take ?n ts) @ zip (drop ?n ss) (drop ?n ts)) st'"
      by (rule head_run_trans [OF run]) (use rest(2) st1(2) len in \<open>simp add: add.assoc\<close>)
    moreover have "zip (take ?n ss) (take ?n ts) @ zip (drop ?n ss) (drop ?n ts) = zip ss ts"
      using len by (metis append_take_drop_id length_take zip_append)
    moreover have "consume_pending_loop H ss ts st = (Inr (), st')"
      using many ne batch rest(1) q(2) 1(4) by (subst consume_pending_loop.simps) (simp add: Let_def)
    ultimately show ?thesis using rest(3,4) st1(2) by simp
  qed
qed

text \<open>C17. Replaying the cached head rows of a restored conversation in groups of at most five
  and a trailing single row loses, repeats and reorders no row: for valid rows and an initialised
  position base the call succeeds, the head has consumed exactly the given pairs of stream and
  token in order, the first at its next position, and it afterwards matches a target that is
  exactly that many tokens longer.\<close>

theorem pending_rows_replayed_once:
  assumes "head_commits H" and "rows_valid H ss ts" and "mtp_state_matches_target st n"
    and "n + length ts \<le> SIZE_MAX"
  shows "\<exists>st'. consume_pending_mtp_rows H ss ts st = (Inr (), st') \<and> head_run H n st (zip ss ts) st' \<and>
    mtp_state_matches_target st' (n + length ts)"
proof -
  obtain b where b: "ms_position_base st = Some b" "b + ms_row_count st = n"
    using assms(3) by (auto simp: mtp_state_matches_target_def split: option.splits)
  obtain st' where "consume_pending_loop H ss ts st = (Inr (), st')" "head_run H n st (zip ss ts) st'"
    "ms_position_base st' = Some b" "ms_row_count st' = ms_row_count st + length ts"
    using consume_pending_loop_ok [OF assms(1,2) b(1)] b(2) assms(4) by auto
  then show ?thesis
    using b assms(2) by (auto simp: consume_pending_mtp_rows_def rows_valid_def mtp_state_matches_target_def)
qed

theorem pending_rows_replayed_once_witness:
  "let st = \<lparr>ms_layer = [], ms_row_count = 3, ms_position_base = Some 7\<rparr> in
   \<exists>st'. consume_pending_mtp_rows sample_head [1, 2, 3, 4, 5, 6] [1, 2, 3, 4, 5, 6] st = (Inr (), st') \<and>
     head_run sample_head 10 st (zip [1, 2, 3, 4, 5, 6] [1, 2, 3, 4, 5, 6]) st' \<and>
     mtp_state_matches_target st' (10 + length [1, 2, 3, 4, 5, 6 :: u32])"
  unfolding Let_def
  by (rule pending_rows_replayed_once [OF sample_head_commits])
     (simp_all add: rows_valid_def sample_head_def mtp_state_matches_target_def SIZE_MAX_def)

end
