(* ===== verification/Mtp_Runner.thy ===== *)
theory Mtp_Runner
  imports Mtp_Lifecycle Mtp_Verifier Mtp_Head
begin

text \<open>
  One round of speculative decoding, \<^verbatim>\<open>src/mtp_runner.cpp\<close>: drafting a chain of tokens with the
  companion head, restoring the head, verifying the drafts with the target, deciding how many are
  accepted, replaying the accepted rows into the head and committing the target state. The
  diagnostic calibration file is a byte list per path; timings are left out, and writing to an
  opened file succeeds.
\<close>

subsection \<open>Calibration capture\<close>

record 'm calibration =
  cal_files :: "string \<Rightarrow> u8 list option"
  cal_can_open :: "string \<Rightarrow> bool"
  cal_to_float32 :: "'m \<Rightarrow> u32 list"
  cal_request :: u64
  cal_next_request :: u64

definition calibration_path :: "environment \<Rightarrow> string option" where
  "calibration_path env =
     (case env ''QWEN38_MTP_CALIBRATION_FILE'' of
        None \<Rightarrow> None
      | Some value \<Rightarrow> if value \<noteq> [] then Some value else None)"

text \<open>The object representation of an integer on the little-endian machines the code targets.\<close>

primrec le_bytes :: "nat \<Rightarrow> nat \<Rightarrow> u8 list" where
  "le_bytes 0 v = []"
| "le_bytes (Suc n) v = word_of_nat v # le_bytes n (v div 256)"

definition write_u32 :: "u32 \<Rightarrow> u8 list" where
  "write_u32 w = le_bytes 4 (unat w)"

definition write_u64 :: "u64 \<Rightarrow> u8 list" where
  "write_u64 w = le_bytes 8 (unat w)"

definition calibration_header :: "u8 list" where
  "calibration_header = map of_char ''Q38MTPA3'' @ write_u32 3 @ write_u32 2560"

definition calibration_record ::
    "nat \<Rightarrow> u32 \<Rightarrow> u32 \<Rightarrow> nat \<Rightarrow> u64 \<Rightarrow> u32 list \<Rightarrow> u32 list \<Rightarrow> u8 list" where
  "calibration_record index draft target q request hidden target_hidden =
     write_u32 (of_nat (index + 1)) @ write_u32 draft @ write_u32 target @
     write_u32 (if draft = target then 1 else 0) @ write_u64 (of_nat q) @
     write_u64 request @ concat (map write_u32 hidden) @ concat (map write_u32 target_hidden)"

text \<open>The rows are written one by one; an invalid row throws after the rows before it.\<close>

fun calibration_rows ::
    "('m \<Rightarrow> u32 list) \<Rightarrow> nat \<Rightarrow> u64 \<Rightarrow> nat \<Rightarrow> 'm list \<Rightarrow> 'm option list \<Rightarrow> u32 list \<Rightarrow> u32 list \<Rightarrow>
     unit result \<times> u8 list" where
  "calibration_rows conv q request index (h # hs) (t # ts) (d # ds) (g # gs) =
     (case t of
        None \<Rightarrow> (Inl (RuntimeError ''MTP calibration v3 requires the layer-major target verifier''), [])
      | Some target \<Rightarrow>
          if length (conv h) \<noteq> 2560 \<or> length (conv target) \<noteq> 2560 then
            (Inl (RuntimeError ''MTP calibration hidden width mismatch''), [])
          else case calibration_rows conv q request (index + 1) hs ts ds gs of
            (r, bytes) \<Rightarrow>
              (r, calibration_record index d g q request (conv h) (conv target) @ bytes))"
| "calibration_rows conv q request index _ _ _ _ = (Inr (), [])"

definition append_calibration_rows ::
    "string option \<Rightarrow> 'm calibration \<Rightarrow> 'm list \<Rightarrow> 'm option list \<Rightarrow> u32 list \<Rightarrow> u32 list \<Rightarrow> nat \<Rightarrow>
     unit result \<times> 'm calibration" where
  "append_calibration_rows path cal hidden_rows target_hidden_rows drafts targets q =
     (case path of
        None \<Rightarrow> (Inr (), cal)
      | Some name \<Rightarrow>
          if length hidden_rows \<noteq> length drafts \<or> length target_hidden_rows \<noteq> length drafts \<or>
             length targets < length drafts then (Inr (), cal)
          else if \<not> cal_can_open cal name then
            (Inl (RuntimeError (''cannot open MTP calibration file: '' @ name)), cal)
          else
            let old = (case cal_files cal name of None \<Rightarrow> [] | Some bytes \<Rightarrow> bytes);
                header = (if old = [] then calibration_header else []);
                (r, rows) = calibration_rows (cal_to_float32 cal) q (cal_request cal) 0
                  hidden_rows target_hidden_rows drafts targets
            in (r, cal\<lparr>cal_files := (cal_files cal)(name \<mapsto> old @ header @ rows)\<rparr>))"

definition begin_mtp_calibration_request :: "environment \<Rightarrow> 'm calibration \<Rightarrow> 'm calibration" where
  "begin_mtp_calibration_request env cal =
     (if calibration_path env \<noteq> None
      then cal\<lparr>cal_request := cal_next_request cal + 1, cal_next_request := cal_next_request cal + 1\<rparr>
      else cal)"

subsection \<open>Drafting\<close>

record 'm draft_chain =
  ch_primary :: "u32 list"
  ch_secondary :: "u32 list"
  ch_final_mixed :: "'m list"

definition no_candidate :: u32 where
  "no_candidate = - 1"

definition top2_oracle_enabled :: "environment \<Rightarrow> bool" where
  "top2_oracle_enabled env \<longleftrightarrow>
     env ''QWEN38_MTP_TOP2_ORACLE'' = Some ''1'' \<or> env ''QWEN38_MTP_TOP2_ORACLE'' = Some ''all''"

definition top2_oracle_all_positions :: "environment \<Rightarrow> bool" where
  "top2_oracle_all_positions env \<longleftrightarrow> env ''QWEN38_MTP_TOP2_ORACLE'' = Some ''all''"

text \<open>
  The drafting loop from index \<open>index\<close>: its accumulators are the drafts so far, the candidate
  arrays with their positions, and the captured mixer outputs.
\<close>

primrec lazy_chain_loop ::
    "nat \<Rightarrow> environment \<Rightarrow> ('s, 'hl, 'm, 'g) mtp_head \<Rightarrow> nat \<Rightarrow> nat \<Rightarrow> 's \<Rightarrow> u32 \<Rightarrow>
     u32 list \<times> (nat \<times> u32 list) list \<times> 'm list \<Rightarrow> 'hl mtp_decode_state \<Rightarrow>
     (u32 list \<times> (nat \<times> u32 list) list \<times> 'm list) result \<times> 'hl mtp_decode_state" where
  "lazy_chain_loop 0 env H q index stream token acc st = (Inr acc, st)"
| "lazy_chain_loop (Suc n) env H q index stream token acc st =
     (case forward_decode_lazy_token H stream token (sz_add q index) st (index + 1) of
        (Inl e, st') \<Rightarrow> (Inl e, st')
      | (Inr (step, mixed), st') \<Rightarrow>
          let (drafts, top2, hidden) = acc;
              draft = hd_argmax H (mt_logits step);
              collect = top2_oracle_enabled env \<and> (top2_oracle_all_positions env \<or> n = 0);
              hidden' = (if calibration_path env \<noteq> None then hidden @ [mixed] else hidden)
          in if collect \<and> hd_logit_count H (mt_logits step) < 2 then
               (Inl (RuntimeError ''MTP top-2 oracle requires a vocabulary axis''), st')
             else lazy_chain_loop n env H q (index + 1) (mt_pre_mixer_stream step) draft
               (drafts @ [draft],
                if collect then top2 @ [(index, hd_top2 H (mt_logits step))] else top2,
                hidden') st')"

fun fill_secondary :: "u32 list \<Rightarrow> (nat \<times> u32 list) list \<Rightarrow> u32 list \<Rightarrow> u32 list result" where
  "fill_secondary primary [] secondary = Inr secondary"
| "fill_secondary primary ((position, candidates) # rest) secondary =
     (if length candidates \<noteq> 2 then
        Inl (RuntimeError ''MTP top-2 oracle returned an invalid candidate set'')
      else
        let first = candidates ! 0; second = candidates ! 1 in
        fill_secondary primary rest
          (secondary[position := if first = primary ! position then second else first]))"

definition draft_lazy_chain ::
    "environment \<Rightarrow> ('s, 'hl, 'm, 'g) mtp_head \<Rightarrow> 's \<Rightarrow> u32 \<Rightarrow> nat \<Rightarrow> nat \<Rightarrow> 'hl mtp_decode_state \<Rightarrow>
     'm draft_chain result \<times> 'hl mtp_decode_state" where
  "draft_lazy_chain env H stream current_token q draft_depth st =
     (case lazy_chain_loop draft_depth env H q 0 stream current_token ([], [], []) st of
        (Inl e, st') \<Rightarrow> (Inl e, st')
      | (Inr (drafts, top2, hidden), st') \<Rightarrow>
          (res_bind (fill_secondary drafts top2 (replicate (length drafts) no_candidate))
             (\<lambda>secondary. Inr \<lparr>ch_primary = drafts, ch_secondary = secondary, ch_final_mixed = hidden\<rparr>),
           st'))"

primrec eager_chain_loop ::
    "nat \<Rightarrow> ('s, 'hl, 'm, 'g) mtp_head \<Rightarrow> nat \<Rightarrow> nat \<Rightarrow> 's \<Rightarrow> u32 \<Rightarrow> u32 list \<Rightarrow> 'hl mtp_decode_state \<Rightarrow>
     u32 list result \<times> 'hl mtp_decode_state" where
  "eager_chain_loop 0 H q index stream token drafts st = (Inr drafts, st)"
| "eager_chain_loop (Suc n) H q index stream token drafts st =
     (case mtp_forward_decode H stream token (sz_add q index) st of
        (Inl e, st') \<Rightarrow> (Inl e, st')
      | (Inr draft, st') \<Rightarrow>
          let next = hd_argmax H (mt_logits draft) in
          eager_chain_loop n H q (index + 1) (mt_pre_mixer_stream draft) next (drafts @ [next]) st')"

subsection \<open>The round\<close>

record 's round_step =
  rs_emitted_tokens :: "u32 list"
  rs_draft_tokens :: "u32 list"
  rs_accepted :: nat
  rs_next_current_token :: u32
  rs_next_query_position :: nat
  rs_next_target_stream :: 's
  rs_top2_rejected :: "nat list"
  rs_top2_recovered :: "nat list"

text \<open>The mutable objects of a round: target state, head state, calibration file.\<close>

record ('ls, 'hl, 'm) round_world =
  rw_target :: "'ls decode_state"
  rw_head :: "'hl mtp_decode_state"
  rw_cal :: "'m calibration"

definition top2_counters :: "nat \<Rightarrow> u32 list \<Rightarrow> u32 list \<Rightarrow> u32 list \<Rightarrow> nat list \<times> nat list" where
  "top2_counters accepted drafts secondary rows =
     (let zeros = [0, 0, 0, 0 :: nat] in
      if accepted < length drafts \<and> length secondary = length drafts \<and>
         secondary ! accepted \<noteq> no_candidate
      then (if accepted < 4 then zeros[accepted := 1] else zeros,
            if accepted < 4 \<and> secondary ! accepted = rows ! accepted then zeros[accepted := 1] else zeros)
      else (zeros, zeros))"

definition batch_commit_enabled :: "environment \<Rightarrow> bool" where
  "batch_commit_enabled env \<longleftrightarrow> env ''QWEN38_BATCH_MTP_COMMIT'' \<noteq> Some ''0''"

primrec replay_accepted ::
    "nat \<Rightarrow> ('s, 'hl, 'm, 'g) mtp_head \<Rightarrow> nat \<Rightarrow> nat \<Rightarrow> 's list \<Rightarrow> u32 list \<Rightarrow> 'hl mtp_decode_state \<Rightarrow>
     unit result \<times> 'hl mtp_decode_state" where
  "replay_accepted 0 H q index streams drafts st = (Inr (), st)"
| "replay_accepted (Suc n) H q index streams drafts st =
     (case consume_decode H (streams ! index) (drafts ! index) (sz_add (sz_add q index) 1) st of
        (Inl e, st') \<Rightarrow> (Inl e, st')
      | (Inr _, st') \<Rightarrow> replay_accepted n H q (index + 1) streams drafts st')"

definition commit_head ::
    "environment \<Rightarrow> ('s, 'hl, 'm, 'g) mtp_head \<Rightarrow> 's \<Rightarrow> u32 \<Rightarrow> 's list \<Rightarrow> u32 list \<Rightarrow> nat \<Rightarrow> nat \<Rightarrow>
     'hl mtp_decode_state \<Rightarrow> unit result \<times> 'hl mtp_decode_state" where
  "commit_head env H previous current streams drafts accepted q st =
     (if accepted \<noteq> 0 \<and> batch_commit_enabled env then
        consume_committed_batch H (previous # take accepted streams) (current # take accepted drafts) q st
      else case consume_decode H previous current q st of
        (Inl e, st') \<Rightarrow> (Inl e, st')
      | (Inr _, st') \<Rightarrow> replay_accepted accepted H q 0 streams drafts st')"

text \<open>
  Commit, materialisation and the length check; the value is the next query position. The target
  has been replaced when materialisation throws: it is then the committed row, with the layers
  before the throwing one already materialised.
\<close>

definition commit_target ::
    "('s, 'ls, 'm, 'g) model \<Rightarrow> ('s, 'ls, 'm) verification \<Rightarrow> nat \<Rightarrow> nat \<Rightarrow> 'ls decode_state \<Rightarrow>
     nat result \<times> 'ls decode_state" where
  "commit_target M verification accepted q target_state =
     (case commit_mtp_target_verification verification accepted target_state of
        (Inl e, _, target) \<Rightarrow> (Inl e, target)
      | (Inr _, _, target) \<Rightarrow>
          (case materialize_speculative_state M target of
             (Inl e, target') \<Rightarrow> (Inl e, target')
           | (Inr _, target') \<Rightarrow>
               let next_q = sz_add (sz_add q accepted) 1 in
               if ds_token_count target' \<noteq> next_q then
                 (Inl (RuntimeError ''MTP committed target length mismatch''), target')
               else (Inr next_q, target')))"

definition finish_greedy_mtp_round ::
    "environment \<Rightarrow> ('s, 'ls, 'm, 'g) model \<Rightarrow> ('s, 'hl, 'm, 'g) mtp_head \<Rightarrow> u32 \<Rightarrow> 's \<Rightarrow> nat \<Rightarrow>
     u32 list \<Rightarrow> u32 list \<Rightarrow> 'm list \<Rightarrow> 'hl mtp_decode_state \<Rightarrow> u32 list \<Rightarrow>
     ('ls, 'hl, 'm) round_world \<Rightarrow> 's round_step result \<times> ('ls, 'hl, 'm) round_world" where
  "finish_greedy_mtp_round env M H current_token previous q drafts secondary hidden_rows head_origin
       stop_tokens w =
     (if length drafts < 2 \<or> length drafts > 24 then
        (Inl (RuntimeError ''speculative proposal depth must be between 2 and 24''), w)
      else if q \<noteq> ds_token_count (rw_target w) then
        (Inl (RuntimeError ''MTP query position must match target committed length''), w)
      else if q > SIZE_MAX - length drafts then
        (Inl (RuntimeError ''MTP query position overflow''), w)
      else
        let w1 = w\<lparr>rw_head := head_origin\<rparr> in
        case verify_mtp_target_layer_major_reference env M current_token drafts (rw_target w1) of
          Inl e \<Rightarrow> (Inl e, w1)
        | Inr verification \<Rightarrow>
            let target_rows = map (gs_token \<circ> vr_greedy) (vf_rows verification);
                target_hidden = map vr_final_mixed (take (length drafts) (vf_rows verification));
                streams = map vr_pre_mixer_stream (vf_rows verification)
            in case append_calibration_rows (calibration_path env) (rw_cal w1) hidden_rows target_hidden
                 drafts target_rows q of
              (Inl e, cal) \<Rightarrow> (Inl e, w1\<lparr>rw_cal := cal\<rparr>)
            | (Inr _, cal) \<Rightarrow>
                let w2 = w1\<lparr>rw_cal := cal\<rparr> in
                case decide_mtp_greedy drafts target_rows stop_tokens of
                  Inl e \<Rightarrow> (Inl e, w2)
                | Inr decision \<Rightarrow>
                    let accepted = dec_accepted decision;
                        next_stream = streams ! dec_correction_row decision;
                        (rejected, recovered) = top2_counters accepted drafts secondary target_rows
                    in case commit_head env H previous current_token streams drafts accepted q (rw_head w2) of
                      (Inl e, head) \<Rightarrow> (Inl e, w2\<lparr>rw_head := head\<rparr>)
                    | (Inr _, head) \<Rightarrow>
                        let w3 = w2\<lparr>rw_head := head\<rparr> in
                        case commit_target M verification accepted q (rw_target w3) of
                          (Inl e, target) \<Rightarrow> (Inl e, w3\<lparr>rw_target := target\<rparr>)
                        | (Inr next_q, target) \<Rightarrow>
                            (Inr \<lparr>rs_emitted_tokens = take accepted drafts @ [dec_next_token decision],
                                  rs_draft_tokens = drafts, rs_accepted = accepted,
                                  rs_next_current_token = dec_next_token decision,
                                  rs_next_query_position = next_q,
                                  rs_next_target_stream = next_stream,
                                  rs_top2_rejected = rejected,
                                  rs_top2_recovered = recovered\<rparr>, w3\<lparr>rw_target := target\<rparr>))"

definition lazy_chain_enabled :: "environment \<Rightarrow> bool" where
  "lazy_chain_enabled env \<longleftrightarrow> env ''QWEN38_LAZY_MTP_DRAFT_CHAIN'' \<noteq> Some ''0''"

definition run_greedy_mtp_round_reference ::
    "environment \<Rightarrow> ('s, 'ls, 'm, 'g) model \<Rightarrow> ('s, 'hl, 'm, 'g) mtp_head \<Rightarrow> u32 \<Rightarrow> 's \<Rightarrow> nat \<Rightarrow> nat \<Rightarrow>
     u32 list \<Rightarrow> ('ls, 'hl, 'm) round_world \<Rightarrow> 's round_step result \<times> ('ls, 'hl, 'm) round_world" where
  "run_greedy_mtp_round_reference env M H current_token previous q draft_depth stop_tokens w =
     (if draft_depth < 2 \<or> draft_depth > 4 then
        (Inl (RuntimeError ''MTP draft depth must be between 2 and 4''), w)
      else
        let head_origin = rw_head w in
        if lazy_chain_enabled env then
          (case draft_lazy_chain env H previous current_token q draft_depth (rw_head w) of
             (Inl e, head) \<Rightarrow> (Inl e, w\<lparr>rw_head := head\<rparr>)
           | (Inr chain, head) \<Rightarrow>
               finish_greedy_mtp_round env M H current_token previous q (ch_primary chain)
                 (ch_secondary chain) (ch_final_mixed chain) head_origin stop_tokens (w\<lparr>rw_head := head\<rparr>))
        else
          (case eager_chain_loop draft_depth H q 0 previous current_token [] (rw_head w) of
             (Inl e, head) \<Rightarrow> (Inl e, w\<lparr>rw_head := head\<rparr>)
           | (Inr drafts, head) \<Rightarrow>
               finish_greedy_mtp_round env M H current_token previous q drafts [] [] head_origin
                 stop_tokens (w\<lparr>rw_head := head\<rparr>)))"

definition run_greedy_external_draft_round_reference ::
    "environment \<Rightarrow> ('s, 'ls, 'm, 'g) model \<Rightarrow> ('s, 'hl, 'm, 'g) mtp_head \<Rightarrow> u32 \<Rightarrow> 's \<Rightarrow> nat \<Rightarrow>
     u32 list \<Rightarrow> u32 list \<Rightarrow> ('ls, 'hl, 'm) round_world \<Rightarrow>
     's round_step result \<times> ('ls, 'hl, 'm) round_world" where
  "run_greedy_external_draft_round_reference env M H current_token previous q drafts stop_tokens w =
     finish_greedy_mtp_round env M H current_token previous q drafts [] [] (rw_head w) stop_tokens w"

subsection \<open>What a round has done when it returns or throws\<close>

lemma finish_InrD:
  assumes "finish_greedy_mtp_round env M H t previous q ds sec hid origin stops w = (Inr step, w')"
  shows "\<exists>v dec. q = ds_token_count (rw_target w) \<and>
    verify_mtp_target_layer_major_reference env M t ds (rw_target w) = Inr v \<and>
    decide_mtp_greedy ds (map (gs_token \<circ> vr_greedy) (vf_rows v)) stops = Inr dec \<and>
    commit_head env H previous t (map vr_pre_mixer_stream (vf_rows v)) ds (dec_accepted dec) q origin =
      (Inr (), rw_head w') \<and>
    commit_target M v (dec_accepted dec) q (rw_target w) =
      (Inr (rs_next_query_position step), rw_target w') \<and>
    rs_accepted step = dec_accepted dec \<and>
    rs_emitted_tokens step = take (dec_accepted dec) ds @ [dec_next_token dec] \<and>
    rs_next_current_token step = dec_next_token dec \<and>
    rs_next_target_stream step = map vr_pre_mixer_stream (vf_rows v) ! dec_correction_row dec"
  using assms
  unfolding finish_greedy_mtp_round_def Let_def
  by (auto split: if_splits sum.splits prod.splits)

lemma finish_InlD:
  assumes "finish_greedy_mtp_round env M H t previous q ds sec hid origin stops w = (Inl e, w')"
  shows "rw_target w' = rw_target w \<or>
    (\<exists>v dec. q = ds_token_count (rw_target w) \<and>
      verify_mtp_target_layer_major_reference env M t ds (rw_target w) = Inr v \<and>
      decide_mtp_greedy ds (map (gs_token \<circ> vr_greedy) (vf_rows v)) stops = Inr dec \<and>
      commit_target M v (dec_accepted dec) q (rw_target w) = (Inl e, rw_target w'))"
  using assms
  unfolding finish_greedy_mtp_round_def Let_def
  by (auto split: if_splits sum.splits prod.splits)

text \<open>The commit of a verified round fails exactly when the committed row cannot be materialised.\<close>

lemma commit_target_verified:
  assumes "verify_mtp_target_layer_major_reference env M t ds st = Inr v" and "a \<le> length ds"
    and "materialize_speculative_state M (vr_state_after (vf_rows v ! a)) = (r, tgt)"
  shows "commit_target M v a (ds_token_count st) dest =
    (case r of Inl e \<Rightarrow> (Inl e, tgt) | Inr _ \<Rightarrow> (Inr (ds_token_count st + a + 1), tgt))"
proof -
  note V = layer_major_verification(1) [OF assms(1)] layer_major_verification(2) [OF assms(1,2)]
  have "sz_add (sz_add (ds_token_count st) a) 1 = ds_token_count st + a + 1"
    using V(1) assms(2) by auto
  moreover have "ds_token_count tgt = ds_token_count st + a + 1"
    using materialize_fits [OF assms(3)] V(2) by simp
  moreover have "commit_mtp_target_verification v a dest =
      (Inr (), v\<lparr>vf_rows := [], vf_draft_count := 0\<rparr>, vr_state_after (vf_rows v ! a))"
    using V(1) assms(2) by (intro commit_ok) simp_all
  ultimately show ?thesis using assms(3) by (simp add: commit_target_def Let_def split: sum.splits)
qed

text \<open>
  A round that returns has continued the target by the tokens it emits: each of them is what the
  target selected after the current token and the emitted tokens before it, and the new target
  state has consumed exactly these.
\<close>

lemma round_continues:
  assumes fin: "finish_greedy_mtp_round env M H t previous q ds sec hid origin stops w = (Inr step, w')"
  shows "continuation env K M t (rs_emitted_tokens step) (rw_target w) (rw_target w') \<and>
    rs_accepted step \<le> length ds \<and> length (rs_emitted_tokens step) = rs_accepted step + 1 \<and>
    rs_next_query_position step = q + length (rs_emitted_tokens step) \<and>
    ds_token_count (rw_target w') = rs_next_query_position step \<and>
    state_fits M (rw_target w') \<and>
    rs_next_current_token step = last (rs_emitted_tokens step)"
proof -
  from finish_InrD [OF fin] obtain v dec where
      v: "verify_mtp_target_layer_major_reference env M t ds (rw_target w) = Inr v"
    and dec: "decide_mtp_greedy ds (map (gs_token \<circ> vr_greedy) (vf_rows v)) stops = Inr dec"
    and com: "commit_target M v (dec_accepted dec) q (rw_target w) =
      (Inr (rs_next_query_position step), rw_target w')"
    and step: "rs_accepted step = dec_accepted dec"
      "rs_emitted_tokens step = take (dec_accepted dec) ds @ [dec_next_token dec]"
      "rs_next_current_token step = dec_next_token dec"
    and q: "q = ds_token_count (rw_target w)"
    by blast
  let ?rows = "map (gs_token \<circ> vr_greedy) (vf_rows v)" and ?a = "dec_accepted dec"
  note D = decide_mtp_greedy_InrD [OF dec]
  have a: "?a \<le> length ds" and len: "length ?rows = length ds + 1" using D by auto
  note V = layer_major_verification [OF v]
  obtain r tgt where mat: "materialize_speculative_state M (vr_state_after (vf_rows v ! ?a)) = (r, tgt)"
    by fastforce
  have r: "r = Inr ()" "tgt = rw_target w'" "rs_next_query_position step = q + ?a + 1"
    using commit_target_verified [OF v a mat, of "rw_target w"] com q by (cases r; auto)+
  note mat = mat [unfolded r(1,2)]
  have emit: "rs_emitted_tokens step = take (?a + 1) ?rows"
    using emitted_eq_target_rows [OF len, of stops] D step(2) by auto
  have "butlast (t # rs_emitted_tokens step) = take (?a + 1) (t # ds)"
    using step(2) by (simp add: butlast_append)
  then have "continuation env K M t (rs_emitted_tokens step) (rw_target w) (rw_target w')"
    using V(3) [OF a mat, of K] emit by (simp add: continuation_def take_map)
  moreover have "rs_next_current_token step = last (rs_emitted_tokens step)"
      "length (rs_emitted_tokens step) = ?a + 1"
    using step a by auto
  moreover have "ds_token_count (rw_target w') = q + ?a + 1" "state_fits M (rw_target w')"
    using materialize_fits [OF mat] V(2) [OF a] q by simp_all
  ultimately show ?thesis using a step(1) r(3) by simp
qed

lemma failed_round_target:
  assumes "finish_greedy_mtp_round env M H t previous q ds sec hid origin stops w = (Inl e, w')"
  shows "rw_target w' = rw_target w \<or>
    (\<exists>v dec. verify_mtp_target_layer_major_reference env M t ds (rw_target w) = Inr v \<and>
      decide_mtp_greedy ds (map (gs_token \<circ> vr_greedy) (vf_rows v)) stops = Inr dec \<and>
      materialize_speculative_state M (vr_state_after (vf_rows v ! dec_accepted dec)) = (Inl e, rw_target w'))"
  using finish_InlD [OF assms]
proof (elim disjE exE conjE)
  fix v dec
  assume q: "q = ds_token_count (rw_target w)"
    and v: "verify_mtp_target_layer_major_reference env M t ds (rw_target w) = Inr v"
    and dec: "decide_mtp_greedy ds (map (gs_token \<circ> vr_greedy) (vf_rows v)) stops = Inr dec"
    and com: "commit_target M v (dec_accepted dec) q (rw_target w) = (Inl e, rw_target w')"
  have a: "dec_accepted dec \<le> length ds" using decide_mtp_greedy_InrD [OF dec] by simp
  obtain r tgt where mat: "materialize_speculative_state M (vr_state_after (vf_rows v ! dec_accepted dec)) = (r, tgt)"
    by fastforce
  have "r = Inl e \<and> tgt = rw_target w'"
    using commit_target_verified [OF v a mat, of "rw_target w"] com q by (cases r) auto
  then show ?thesis using v dec mat by blast
qed simp

text \<open>A drafted round throws before or in the common part.\<close>

lemma mtp_round_InlD:
  assumes "run_greedy_mtp_round_reference env M H t previous q depth stops w = (Inl e, w')"
  shows "rw_target w' = rw_target w \<or> (\<exists>ds sec hid origin w1.
    finish_greedy_mtp_round env M H t previous q ds sec hid origin stops w1 = (Inl e, w') \<and>
    rw_target w1 = rw_target w)"
proof (cases "depth < 2 \<or> depth > 4")
  case True
  then show ?thesis using assms by (simp add: run_greedy_mtp_round_reference_def)
next
  case False
  show ?thesis
  proof (cases "lazy_chain_enabled env")
    case True
    obtain r head where chain: "draft_lazy_chain env H previous t q depth (rw_head w) = (r, head)" by fastforce
    show ?thesis
    proof (cases r)
      case (Inl e')
      then show ?thesis using assms False True chain by (auto simp: run_greedy_mtp_round_reference_def Let_def)
    next
      case (Inr c)
      then have "finish_greedy_mtp_round env M H t previous q (ch_primary c) (ch_secondary c) (ch_final_mixed c)
          (rw_head w) stops (w\<lparr>rw_head := head\<rparr>) = (Inl e, w')"
        using assms False True chain by (simp add: run_greedy_mtp_round_reference_def Let_def)
      moreover have "rw_target (w\<lparr>rw_head := head\<rparr>) = rw_target w" by simp
      ultimately show ?thesis by blast
    qed
  next
    case eager: False
    obtain r head where chain: "eager_chain_loop depth H q 0 previous t [] (rw_head w) = (r, head)" by fastforce
    show ?thesis
    proof (cases r)
      case (Inl e')
      then show ?thesis using assms False eager chain by (auto simp: run_greedy_mtp_round_reference_def Let_def)
    next
      case (Inr c)
      then have "finish_greedy_mtp_round env M H t previous q c [] [] (rw_head w) stops (w\<lparr>rw_head := head\<rparr>) =
          (Inl e, w')"
        using assms False eager chain by (simp add: run_greedy_mtp_round_reference_def Let_def)
      moreover have "rw_target (w\<lparr>rw_head := head\<rparr>) = rw_target w" by simp
      ultimately show ?thesis by blast
    qed
  qed
qed

text \<open>From a state without deferred work the committed row always materialises.\<close>

lemma failed_round_target_steady:
  assumes "finish_greedy_mtp_round env M H t previous q ds sec hid origin stops w = (Inl e, w')"
    and "steady ok M" and "state_ok ok M (rw_target w)"
  shows "rw_target w' = rw_target w"
  using failed_round_target [OF assms(1)]
proof (elim disjE exE conjE)
  fix v dec
  assume v: "verify_mtp_target_layer_major_reference env M t ds (rw_target w) = Inr v"
    and dec: "decide_mtp_greedy ds (map (gs_token \<circ> vr_greedy) (vf_rows v)) stops = Inr dec"
    and mat: "materialize_speculative_state M (vr_state_after (vf_rows v ! dec_accepted dec)) = (Inl e, rw_target w')"
  note V = layer_major_verification(1) [OF v]
  obtain n where n: "verify_barrier_stride env = Inr n" using layer_major_stride [OF v] by blast
  have "dec_accepted dec \<le> length ds" using decide_mtp_greedy_InrD [OF dec] by simp
  then show ?thesis
    using layer_major_total [OF assms(2,3) _ _ _ layer_major_vocabulary [OF v] n] V v mat by fastforce
qed simp

subsection \<open>The accepted rows go into the head\<close>

lemma replay_accepted_ok:
  assumes "\<forall>s. hd_shape_ok H s" and "\<forall>x \<in> set ds. unat x < hd_vocabulary_size H"
  shows "i + n \<le> length ss \<Longrightarrow> i + n \<le> length ds \<Longrightarrow> q + i + n + 1 \<le> SIZE_MAX \<Longrightarrow> head_in_sync (q + i + 1) st \<Longrightarrow>
    \<exists>st'. replay_accepted n H q i ss ds st = (Inr (), st') \<and>
      head_run H (q + i + 1) st (zip (take n (drop i ss)) (take n (drop i ds))) st' \<and>
      head_in_sync (q + i + n + 1) st'"
proof (induction n arbitrary: i st)
  case 0
  then show ?case using head_run.start by fastforce
next
  case (Suc n)
  have sz: "sz_add (sz_add q i) 1 = q + i + 1" "q + i + 1 \<le> SIZE_MAX" using Suc.prems by auto
  have t: "unat (ds ! i) < hd_vocabulary_size H" using assms(2) Suc.prems(2) by simp
  obtain st1 where one: "consume_decode H (ss ! i) (ds ! i) (q + i + 1) st = (Inr (), st1)"
    "head_run H (q + i + 1) st [(ss ! i, ds ! i)] st1" "head_in_sync (q + i + 1 + 1) st1"
    using head_run_single [OF Suc.prems(4) sz(2) _ t] assms(1) by blast
  obtain st' where rest: "replay_accepted n H q (i + 1) ss ds st1 = (Inr (), st')"
    "head_run H (q + (i + 1) + 1) st1 (zip (take n (drop (i + 1) ss)) (take n (drop (i + 1) ds))) st'"
    "head_in_sync (q + (i + 1) + n + 1) st'"
    using Suc.IH [of "i + 1" st1] Suc.prems one(3) by auto
  have d: "drop i ss = ss ! i # drop (i + 1) ss" "drop i ds = ds ! i # drop (i + 1) ds"
    using Suc.prems by (simp_all add: Cons_nth_drop_Suc)
  have "head_run H (q + i + 1) st ([(ss ! i, ds ! i)] @ zip (take n (drop (i + 1) ss)) (take n (drop (i + 1) ds))) st'"
    by (rule head_run_trans [OF one(2)]) (use rest(2) in simp)
  then show ?case using one(1) rest(1,3) sz(1) by (simp add: d)
qed

lemma commit_head_rows:
  assumes "head_commits H" and "\<forall>s. hd_shape_ok H s" and "\<forall>x \<in> set (t # ds). unat x < hd_vocabulary_size H"
    and "a \<le> length ds" and "a \<le> length ss" and "a \<le> 24"
    and "head_in_sync q st" and "q + a + 1 \<le> SIZE_MAX"
  shows "\<exists>st'. commit_head env H previous t ss ds a q st = (Inr (), st') \<and>
    head_run H q st ((previous, t) # zip (take a ss) (take a ds)) st' \<and> head_in_sync (q + a + 1) st'"
proof (cases "a \<noteq> 0 \<and> batch_commit_enabled env")
  case True
  have valid: "rows_valid H (previous # take a ss) (t # take a ds)"
    using assms(2-5) by (auto simp: rows_valid_def dest: in_set_takeD)
  have len: "length (t # take a ds) = a + 1" using assms(4) by simp
  have n: "2 \<le> length (t # take a ds)" "length (t # take a ds) \<le> 25" "q \<le> SIZE_MAX"
    using True assms(6,8) unfolding len by simp_all
  from head_run_batch [OF assms(1) valid n(1,2) assms(7) n(3), unfolded len]
  obtain st' where "consume_committed_batch H (previous # take a ss) (t # take a ds) q st = (Inr (), st')"
    "head_run H q st (zip (previous # take a ss) (t # take a ds)) st'" "head_in_sync (q + (a + 1)) st'"
    by auto
  then show ?thesis using True by (simp add: commit_head_def)
next
  case False
  have t: "unat t < hd_vocabulary_size H" "\<forall>x \<in> set ds. unat x < hd_vocabulary_size H" using assms(3) by simp_all
  have q: "q \<le> SIZE_MAX" using assms(8) by simp
  obtain st1 where one: "consume_decode H previous t q st = (Inr (), st1)"
    "head_run H q st [(previous, t)] st1" "head_in_sync (q + 1) st1"
    using head_run_single [OF assms(7) q _ t(1)] assms(2) by blast
  obtain st' where rest: "replay_accepted a H q 0 ss ds st1 = (Inr (), st')"
    "head_run H (q + 1) st1 (zip (take a ss) (take a ds)) st'" "head_in_sync (q + a + 1) st'"
    using replay_accepted_ok [OF assms(2) t(2), of 0 a ss q st1] assms(4,5,8) one(3) by auto
  have "head_run H q st ([(previous, t)] @ zip (take a ss) (take a ds)) st'"
    by (rule head_run_trans [OF one(2)]) (use rest(2) in simp)
  then show ?thesis using one(1) rest(1,3) False by (auto simp: commit_head_def)
qed

subsection \<open>A round succeeds\<close>

text \<open>
  The situation in which a round is started: the head stands at the target's committed length,
  the tokens are in both vocabularies, the position does not overflow and no capture is configured.
\<close>

definition round_ready ::
    "environment \<Rightarrow> ('s, 'ls, 'm, 'g) model \<Rightarrow> ('s, 'hl, 'm, 'g) mtp_head \<Rightarrow> u32 \<Rightarrow> u32 list \<Rightarrow>
     'ls decode_state \<Rightarrow> 'hl mtp_decode_state \<Rightarrow> bool" where
  "round_ready env M H t ds target head \<longleftrightarrow>
     2 \<le> length ds \<and> length ds \<le> 24 \<and> state_fits M target \<and>
     ds_token_count target + length ds + 1 \<le> SIZE_MAX \<and>
     (\<forall>x \<in> set (t # ds). unat x < md_vocabulary_size M \<and> unat x < hd_vocabulary_size H) \<and>
     head_in_sync (ds_token_count target) head \<and> calibration_path env = None"

lemma finish_total:
  assumes "steady ok M" and "state_ok ok M (rw_target w)"
    and "head_commits H" and "\<forall>s. hd_shape_ok H s" and "verify_barrier_stride env = Inr n"
    and ready: "round_ready env M H t ds (rw_target w) origin"
  defines "q \<equiv> ds_token_count (rw_target w)"
  shows "\<exists>step w'. finish_greedy_mtp_round env M H t previous q ds sec hid origin stops w =
      (Inr step, w') \<and> head_in_sync (rs_next_query_position step) (rw_head w') \<and>
    state_ok ok M (rw_target w')"
proof -
  note r = ready [unfolded round_ready_def]
  have vocab: "\<forall>x \<in> set (t # ds). unat x < md_vocabulary_size M"
    "\<forall>x \<in> set (t # ds). unat x < hd_vocabulary_size H" using r by simp_all
  obtain v where v: "verify_mtp_target_layer_major_reference env M t ds (rw_target w) = Inr v"
    and mats: "\<forall>r \<le> length ds. \<exists>st'. materialize_speculative_state M (vr_state_after (vf_rows v ! r)) = (Inr (), st') \<and>
      state_ok ok M st'"
    using layer_major_total [OF assms(1,2) _ _ _ vocab(1) assms(5)] r by blast
  note V = layer_major_verification(1) [OF v]
  let ?rows = "map (gs_token \<circ> vr_greedy) (vf_rows v)"
  let ?ss = "map vr_pre_mixer_stream (vf_rows v)"
  obtain dec where dec: "decide_mtp_greedy ds ?rows stops = Inr dec"
    using decide_mtp_greedy_total [of ds ?rows stops] V r by force
  let ?a = "dec_accepted dec"
  have a: "?a \<le> length ds" using decide_mtp_greedy_InrD [OF dec] by simp
  obtain hd' where hd': "commit_head env H previous t ?ss ds ?a q origin = (Inr (), hd')"
      "head_in_sync (q + ?a + 1) hd'"
    using commit_head_rows [OF assms(3,4) vocab(2) a, of ?ss q origin env previous] V a r by (auto simp: q_def)
  obtain tgt where mat: "materialize_speculative_state M (vr_state_after (vf_rows v ! ?a)) = (Inr (), tgt)"
      "state_ok ok M tgt"
    using mats a by blast
  have tgt: "commit_target M v ?a q (rw_target w) = (Inr (q + ?a + 1), tgt)"
    using commit_target_verified [OF v a mat(1), of "rw_target w"] by (simp add: q_def)
  have "\<not> (length ds < 2 \<or> 24 < length ds)" "\<not> SIZE_MAX - length ds < q"
    using r by (auto simp: q_def)
  then show ?thesis
    using v dec hd' tgt mat(2) r
    by (simp add: finish_greedy_mtp_round_def
        append_calibration_rows_def q_def Let_def split_beta)
qed

subsection \<open>Several rounds\<close>

fun speculative_rounds ::
    "environment \<Rightarrow> ('s, 'ls, 'm, 'g) model \<Rightarrow> ('s, 'hl, 'm, 'g) mtp_head \<Rightarrow> u32 list \<Rightarrow> u32 list list \<Rightarrow>
     u32 \<Rightarrow> 's \<Rightarrow> nat \<Rightarrow> ('ls, 'hl, 'm) round_world \<Rightarrow> (u32 list \<times> ('ls, 'hl, 'm) round_world) result" where
  "speculative_rounds env M H stops [] t previous q w = Inr ([], w)"
| "speculative_rounds env M H stops (ds # dss) t previous q w =
     (case run_greedy_external_draft_round_reference env M H t previous q ds stops w of
        (Inl e, _) \<Rightarrow> Inl e
      | (Inr step, w') \<Rightarrow>
          res_bind (speculative_rounds env M H stops dss (rs_next_current_token step)
              (rs_next_target_stream step) (rs_next_query_position step) w')
            (\<lambda>(emitted, w''). Inr (rs_emitted_tokens step @ emitted, w'')))"

lemma speculative_rounds_continue:
  "speculative_rounds env M H stops dss t previous q w = Inr (emitted, w') \<Longrightarrow>
    continuation env K M t emitted (rw_target w) (rw_target w') \<and> length dss \<le> length emitted"
proof (induction dss arbitrary: t previous q w emitted)
  case Nil
  then show ?case by (simp add: continuation_Nil)
next
  case (Cons ds dss)
  from Cons.prems obtain step w1 rest where
      round: "finish_greedy_mtp_round env M H t previous q ds [] [] (rw_head w) stops w = (Inr step, w1)"
    and tail: "speculative_rounds env M H stops dss (rs_next_current_token step)
        (rs_next_target_stream step) (rs_next_query_position step) w1 = Inr (rest, w')"
    and emitted: "emitted = rs_emitted_tokens step @ rest"
    by (auto simp: run_greedy_external_draft_round_reference_def split: prod.splits sum.splits)
  have R: "continuation env K M t (rs_emitted_tokens step) (rw_target w) (rw_target w1)"
    "length (rs_emitted_tokens step) = rs_accepted step + 1"
    "rs_next_current_token step = last (rs_emitted_tokens step)"
    using round_continues [OF round] by blast+
  then have "last (t # rs_emitted_tokens step) = rs_next_current_token step" by auto
  then show ?case
    using continuation_append [OF R(1)] Cons.IH [OF tail] R(2) emitted by simp
qed

subsection \<open>The learned drafter\<close>

lemma forward_lazy_ok:
  assumes "head_in_sync q st" and "q \<le> SIZE_MAX" and "\<forall>s. hd_shape_ok H s"
  shows "\<exists>step mixed st'. forward_decode_lazy_token H s t q st k = (Inr (step, mixed), st') \<and>
    head_in_sync (q + 1) st'"
  using assms head_in_sync_next [OF assms(1), of 1]
  by (cases st) (auto simp: forward_decode_lazy_token_def forward_stream_lazy_token_def claim_position_ok
      Let_def split: prod.splits)

lemma mtp_forward_ok:
  assumes "head_in_sync q st" and "q \<le> SIZE_MAX" and "\<forall>s. hd_shape_ok H s"
    and "unat t < hd_vocabulary_size H"
  shows "\<exists>step st'. mtp_forward_decode H s t q st = (Inr step, st') \<and> head_in_sync (q + 1) st'"
  using assms head_in_sync_next [OF assms(1), of 1]
  by (cases st) (auto simp: mtp_forward_decode_def forward_stream_def forward_stream_lazy_token_def
      claim_position_ok Let_def split: prod.splits)

lemma lazy_chain_loop_ok:
  assumes "\<not> top2_oracle_enabled env" and "\<forall>s. hd_shape_ok H s"
  shows "head_in_sync (q + i) st \<Longrightarrow> q + i + n \<le> SIZE_MAX \<Longrightarrow>
    \<exists>ds' hid' st'. lazy_chain_loop n env H q i s t (ds, [], hid) st = (Inr (ds @ ds', [], hid'), st') \<and>
      length ds' = n \<and> set ds' \<subseteq> range (hd_argmax H)"
proof (induction n arbitrary: i s t ds hid st)
  case 0
  then show ?case by simp
next
  case (Suc n)
  obtain step mixed st1 where step:
    "forward_decode_lazy_token H s t (q + i) st (i + 1) = (Inr (step, mixed), st1)"
    and sync: "head_in_sync (q + (i + 1)) st1"
    using forward_lazy_ok [OF Suc.prems(1) _ assms(2), of s t "i + 1"] Suc.prems(2) by auto
  let ?d = "hd_argmax H (mt_logits step)"
  let ?hid = "if calibration_path env \<noteq> None then hid @ [mixed] else hid"
  obtain ds' hid' st' where rest: "lazy_chain_loop n env H q (i + 1) (mt_pre_mixer_stream step) ?d
      (ds @ [?d], [], ?hid) st1 = (Inr ((ds @ [?d]) @ ds', [], hid'), st')"
    "length ds' = n" "set ds' \<subseteq> range (hd_argmax H)"
    using Suc.IH [OF sync, of "mt_pre_mixer_stream step" ?d "ds @ [?d]" ?hid] Suc.prems(2) by auto
  have "lazy_chain_loop (Suc n) env H q i s t (ds, [], hid) st = (Inr (ds @ (?d # ds'), [], hid'), st')"
    using step rest(1) assms(1) Suc.prems(2) by simp
  then show ?case using rest(2,3) by (intro exI [of _ "?d # ds'"]) auto
qed

lemma eager_chain_loop_ok:
  assumes "\<forall>s. hd_shape_ok H s" and "\<forall>g. unat (hd_argmax H g) < hd_vocabulary_size H"
  shows "head_in_sync (q + i) st \<Longrightarrow> q + i + n \<le> SIZE_MAX \<Longrightarrow> unat t < hd_vocabulary_size H \<Longrightarrow>
    \<exists>ds' st'. eager_chain_loop n H q i s t ds st = (Inr (ds @ ds'), st') \<and>
      length ds' = n \<and> set ds' \<subseteq> range (hd_argmax H)"
proof (induction n arbitrary: i s t ds st)
  case 0
  then show ?case by simp
next
  case (Suc n)
  obtain step st1 where step: "mtp_forward_decode H s t (q + i) st = (Inr step, st1)"
    and sync: "head_in_sync (q + (i + 1)) st1"
    using mtp_forward_ok [OF Suc.prems(1) _ assms(1) Suc.prems(3), of s] Suc.prems(2) by auto
  let ?d = "hd_argmax H (mt_logits step)"
  obtain ds' st' where rest: "eager_chain_loop n H q (i + 1) (mt_pre_mixer_stream step) ?d (ds @ [?d]) st1 =
      (Inr ((ds @ [?d]) @ ds'), st')" "length ds' = n" "set ds' \<subseteq> range (hd_argmax H)"
    using Suc.IH [OF sync, of ?d "mt_pre_mixer_stream step" "ds @ [?d]"] Suc.prems(2) assms(2) by auto
  have "eager_chain_loop (Suc n) H q i s t ds st = (Inr (ds @ (?d # ds')), st')"
    using step rest(1) Suc.prems(2) by simp
  then show ?case using rest(2,3) by (intro exI [of _ "?d # ds'"]) auto
qed

lemma run_mtp_round_as_finish:
  assumes "2 \<le> depth" and "depth \<le> 4" and "\<forall>s. hd_shape_ok H s" and "\<not> top2_oracle_enabled env"
    and "\<forall>g. unat (hd_argmax H g) < hd_vocabulary_size H" and "unat t < hd_vocabulary_size H"
    and "head_in_sync q (rw_head w)" and "q + depth \<le> SIZE_MAX"
  shows "\<exists>ds sec hid head. length ds = depth \<and> set ds \<subseteq> range (hd_argmax H) \<and>
    run_greedy_mtp_round_reference env M H t previous q depth stops w =
      finish_greedy_mtp_round env M H t previous q ds sec hid (rw_head w) stops (w\<lparr>rw_head := head\<rparr>)"
proof (cases "lazy_chain_enabled env")
  case True
  obtain ds hid head where
    "lazy_chain_loop depth env H q 0 previous t ([], [], []) (rw_head w) = (Inr (ds, [], hid), head)"
    "length ds = depth" "set ds \<subseteq> range (hd_argmax H)"
    using lazy_chain_loop_ok [OF assms(4,3), of q 0 "rw_head w" depth previous t "[]" "[]"] assms(7,8)
    by auto
  then show ?thesis
    using True assms(1,2)
    by (auto simp: run_greedy_mtp_round_reference_def draft_lazy_chain_def Let_def)
next
  case False
  obtain ds head where
    "eager_chain_loop depth H q 0 previous t [] (rw_head w) = (Inr ds, head)"
    "length ds = depth" "set ds \<subseteq> range (hd_argmax H)"
    using eager_chain_loop_ok [OF assms(3,5), of q 0 "rw_head w" depth t previous "[]"] assms(6-8)
    by auto
  then show ?thesis
    using False assms(1,2) by (auto simp: run_greedy_mtp_round_reference_def Let_def)
qed

subsection \<open>Properties\<close>

definition sample_world :: "(u32 list, u32 list, u32) round_world" where
  "sample_world = \<lparr>rw_target = sample_state, rw_head = sample_head_state,
     rw_cal = \<lparr>cal_files = (\<lambda>_. None), cal_can_open = (\<lambda>_. True), cal_to_float32 = (\<lambda>_. []),
       cal_request = 0, cal_next_request = 0\<rparr>\<rparr>"

lemma sample_ready:
  "length drafts = 2 \<Longrightarrow> \<forall>x \<in> set (t # drafts). unat x < 64 \<Longrightarrow>
     round_ready no_environment sample_model sample_head t drafts (rw_target sample_world) (rw_head sample_world)"
  by (simp add: round_ready_def sample_world_def sample_model_def sample_head_def sample_state_def
      sample_head_state_def state_fits_def SIZE_MAX_def head_in_sync_def calibration_path_def)

lemma sample_shape: "\<forall>s. hd_shape_ok sample_head s"
  by (simp add: sample_head_def)

lemma sample_state_ok: "state_ok (\<lambda>_. True) sample_model (rw_target sample_world)"
  by (simp add: state_ok_def state_fits_def sample_world_def sample_defs)

text \<open>C16. Committing the accepted rows of a round to the companion head succeeds for every
  number of accepted drafts, and the head has then consumed exactly the previous target stream
  with the current token followed by the streams of the verified rows with the accepted drafts, at
  consecutive positions from its next one. \<open>QWEN38_BATCH_MTP_COMMIT\<close> chooses between a batch and
  single rows; it decides which kernel consumes them, and not which rows at which positions.\<close>

theorem head_consumes_accepted_rows:
  assumes "head_commits H" and "\<forall>s. hd_shape_ok H s" and "\<forall>x \<in> set (t # drafts). unat x < hd_vocabulary_size H"
    and "accepted \<le> length drafts" and "accepted \<le> length streams" and "accepted \<le> 24"
    and "head_in_sync q st" and "q + accepted + 1 \<le> SIZE_MAX"
  shows "\<exists>st'. commit_head env H previous t streams drafts accepted q st = (Inr (), st') \<and>
    head_run H q st ((previous, t) # zip (take accepted streams) (take accepted drafts)) st' \<and>
    head_in_sync (q + accepted + 1) st'"
  using commit_head_rows [OF assms] .

theorem head_consumes_accepted_rows_witness:
  "\<exists>st'. commit_head no_environment sample_head 7 1 [8, 9, 10] [2, 3] 1 10 sample_head_state = (Inr (), st') \<and>
    head_run sample_head 10 sample_head_state ((7, 1) # zip (take 1 [8, 9, 10]) (take 1 [2, 3])) st' \<and>
    head_in_sync (10 + 1 + 1) st'"
  by (rule head_consumes_accepted_rows [OF sample_head_commits sample_shape])
     (simp_all add: sample_head_def head_in_sync_def sample_head_state_def SIZE_MAX_def)

text \<open>C5. A round drafted by the companion head is total and sound, for every depth from 2 to 4 and
  for the lazy as well as the eager draft chain. When the layers hold no deferred work and target
  and head stand at the same position, the round returns; every token it emits is what the target
  selected after the current token and the emitted tokens before it, whatever the head proposed;
  the committed target state has consumed exactly the current and the accepted tokens and holds no
  deferred work; and target, head and query position agree again.\<close>

theorem mtp_round_total_and_sound:
  assumes "steady ok M" and "state_ok ok M (rw_target w)" and "head_commits H" and "\<forall>s. hd_shape_ok H s"
    and "verify_barrier_stride env = Inr n"
    and "2 \<le> depth" and "depth \<le> 4" and "\<not> top2_oracle_enabled env" and "calibration_path env = None"
    and "\<forall>g. unat (hd_argmax H g) < hd_vocabulary_size H \<and> unat (hd_argmax H g) < md_vocabulary_size M"
    and "unat t < hd_vocabulary_size H" and "unat t < md_vocabulary_size M"
    and "q = ds_token_count (rw_target w)"
    and "head_in_sync q (rw_head w)" and "q + depth + 1 \<le> SIZE_MAX"
  shows "\<exists>step w'.
    run_greedy_mtp_round_reference env M H t previous q depth stops w = (Inr step, w') \<and>
    continuation env K M t (rs_emitted_tokens step) (rw_target w) (rw_target w') \<and>
    1 \<le> length (rs_emitted_tokens step) \<and> length (rs_emitted_tokens step) \<le> depth + 1 \<and>
    rs_next_current_token step = last (rs_emitted_tokens step) \<and>
    rs_next_query_position step = q + length (rs_emitted_tokens step) \<and>
    ds_token_count (rw_target w') = rs_next_query_position step \<and>
    state_ok ok M (rw_target w') \<and> head_in_sync (rs_next_query_position step) (rw_head w')"
proof -
  have range: "\<forall>g. unat (hd_argmax H g) < hd_vocabulary_size H" and room: "q + depth \<le> SIZE_MAX"
    using assms(10,15) by auto
  from run_mtp_round_as_finish [OF assms(6,7,4,8) range assms(11,14) room]
  obtain ds sec hid head where ds: "length ds = depth" "set ds \<subseteq> range (hd_argmax H)"
    and run: "run_greedy_mtp_round_reference env M H t previous q depth stops w =
      finish_greedy_mtp_round env M H t previous q ds sec hid (rw_head w) stops (w\<lparr>rw_head := head\<rparr>)"
    by blast
  let ?w = "w\<lparr>rw_head := head\<rparr>"
  have ready: "round_ready env M H t ds (rw_target ?w) (rw_head w)"
    using assms ds by (auto simp: round_ready_def)
  have ok: "state_ok ok M (rw_target ?w)" using assms(2) by simp
  from finish_total [OF assms(1) ok assms(3-5) ready, of previous sec hid stops] obtain step w' where fin:
    "finish_greedy_mtp_round env M H t previous q ds sec hid (rw_head w) stops ?w = (Inr step, w')"
    "head_in_sync (rs_next_query_position step) (rw_head w')" "state_ok ok M (rw_target w')"
    using assms(13) by auto
  from round_continues [OF fin(1), of K] fin ds(1) show ?thesis
    unfolding run by (intro exI [of _ step] exI [of _ w']) simp
qed

theorem mtp_round_total_and_sound_witness:
  "\<exists>step w'.
    run_greedy_mtp_round_reference no_environment sample_model sample_head 3 7 0 3 [9] sample_world =
      (Inr step, w') \<and>
    continuation no_environment sample_multi sample_model 3 (rs_emitted_tokens step) (rw_target sample_world) (rw_target w') \<and>
    1 \<le> length (rs_emitted_tokens step) \<and> length (rs_emitted_tokens step) \<le> 3 + 1 \<and>
    rs_next_current_token step = last (rs_emitted_tokens step) \<and>
    rs_next_query_position step = 0 + length (rs_emitted_tokens step) \<and>
    ds_token_count (rw_target w') = rs_next_query_position step \<and>
    state_ok (\<lambda>_. True) sample_model (rw_target w') \<and> head_in_sync (rs_next_query_position step) (rw_head w')"
proof (rule mtp_round_total_and_sound [OF sample_steady sample_state_ok sample_head_commits sample_shape
        default_strides(1)], goal_cases)
  case 5
  then show ?case
    by (auto simp: sample_head_def sample_model_def unat_mod)
qed (simp_all add: sample_world_def sample_state_def sample_head_state_def sample_model_def
      sample_head_def top2_oracle_enabled_def calibration_path_def state_fits_def head_in_sync_def
      SIZE_MAX_def)

text \<open>C9. What a round that throws does to the target, whatever the kernels, the environment, the
  drafts and the state. Either the committed target state is the one from before the round, or the
  verification had returned, the accepted row had already been committed, and materialising that
  row threw: then the target is this row with some of its layers materialised. The second case
  cannot occur when the round starts from a state without deferred work.\<close>

theorem failed_round_keeps_target:
  assumes "run_greedy_mtp_round_reference env M H t previous q depth stops w = (Inl e, w') \<or>
    run_greedy_external_draft_round_reference env M H t previous q drafts stops w = (Inl e, w')"
  shows "(rw_target w' = rw_target w \<or>
      (\<exists>ds v dec. verify_mtp_target_layer_major_reference env M t ds (rw_target w) = Inr v \<and>
        decide_mtp_greedy ds (map (gs_token \<circ> vr_greedy) (vf_rows v)) stops = Inr dec \<and>
        materialize_speculative_state M (vr_state_after (vf_rows v ! dec_accepted dec)) = (Inl e, rw_target w'))) \<and>
    (steady ok M \<and> state_ok ok M (rw_target w) \<longrightarrow> rw_target w' = rw_target w)"
proof -
  have "rw_target w' = rw_target w \<or> (\<exists>ds sec hid origin w1.
      finish_greedy_mtp_round env M H t previous q ds sec hid origin stops w1 = (Inl e, w') \<and>
      rw_target w1 = rw_target w)"
    using assms
  proof (elim disjE)
    assume "run_greedy_mtp_round_reference env M H t previous q depth stops w = (Inl e, w')"
    then show ?thesis by (rule mtp_round_InlD)
  next
    assume "run_greedy_external_draft_round_reference env M H t previous q drafts stops w = (Inl e, w')"
    then show ?thesis unfolding run_greedy_external_draft_round_reference_def by blast
  qed
  then consider "rw_target w' = rw_target w" | ds sec hid origin w1 where
      "finish_greedy_mtp_round env M H t previous q ds sec hid origin stops w1 = (Inl e, w')"
      "rw_target w1 = rw_target w"
    by blast
  then show ?thesis
  proof cases
    case 1
    then show ?thesis by simp
  next
    case (2 ds sec hid origin w1)
    show ?thesis
      using failed_round_target [OF 2(1)] failed_round_target_steady [OF 2(1), of ok] unfolding 2(2) by blast
  qed
qed

lemma sample_error:
  "fst (run_greedy_external_draft_round_reference no_environment sample_model sample_head 3 7 0 [99, 5] [9]
    sample_world) = Inl (RuntimeError ''token id is out of range'')"
  by (simp add: run_greedy_external_draft_round_reference_def finish_greedy_mtp_round_def
      verify_mtp_target_layer_major_reference_def validate_draft_count_def
      forward_verify_layer_major_reference_def state_fits_def embed_def SIZE_MAX_def sample_world_def
      sample_defs)

theorem failed_round_keeps_target_witness:
  "fst (run_greedy_external_draft_round_reference no_environment sample_model sample_head 3 7 0 [99, 5] [9]
      sample_world) = Inl (RuntimeError ''token id is out of range'') \<and>
    rw_target (snd (run_greedy_external_draft_round_reference no_environment sample_model sample_head 3 7 0
      [99, 5] [9] sample_world)) = rw_target sample_world"
proof -
  let ?r = "run_greedy_external_draft_round_reference no_environment sample_model sample_head 3 7 0
    [99, 5] [9] sample_world"
  have "?r = (Inl (RuntimeError ''token id is out of range''), snd ?r)"
    using sample_error by (metis prod.collapse)
  from failed_round_keeps_target [OF disjI2, OF this] show ?thesis
    using sample_error sample_steady sample_state_ok by blast
qed

text \<open>C3. Speculative decoding emits only what the target selected, for arbitrary kernels: however
  many rounds run, with whatever proposals and stop tokens, every emitted token is the argmax the
  target computed after exactly the current token and the emitted tokens before it, never after a
  rejected draft, and the final target state has consumed exactly these tokens, each once. Every
  round emits at least one token.\<close>

theorem speculative_rounds_emit_selections:
  assumes "speculative_rounds env M H stops proposals t previous q w = Inr (emitted, w')"
  shows "target_run env K M (rw_target w) (butlast (t # emitted)) (map Some emitted) (rw_target w') \<and>
    length proposals \<le> length emitted"
  using speculative_rounds_continue [OF assms, of K] by (simp add: continuation_def selects_def)

theorem speculative_rounds_emit_selections_witness:
  "\<exists>emitted w'.
    speculative_rounds no_environment sample_model sample_head [9] [[6, 5]] 3 7 0 sample_world = Inr (emitted, w') \<and>
    target_run no_environment sample_multi sample_model (rw_target sample_world) (butlast (3 # emitted))
      (map Some emitted) (rw_target w') \<and> length [[6, 5 :: u32]] \<le> length emitted"
proof -
  obtain step w' where "finish_greedy_mtp_round no_environment sample_model sample_head 3 7 0 [6, 5] [] []
      (rw_head sample_world) [9] sample_world = (Inr step, w')"
    using finish_total [OF sample_steady sample_state_ok sample_head_commits sample_shape default_strides(1)
        sample_ready [of "[6, 5]" 3], of 7 "[]" "[]" "[9]"]
    by (auto simp: sample_world_def sample_state_def)
  then have rounds: "speculative_rounds no_environment sample_model sample_head [9] [[6, 5]] 3 7 0 sample_world =
      Inr (rs_emitted_tokens step, w')"
    by (simp add: run_greedy_external_draft_round_reference_def)
  from speculative_rounds_emit_selections [OF rounds, of sample_multi] rounds show ?thesis by blast
qed

end
