(* ===== verification/History_Draft.thy ===== *)
theory History_Draft
  imports Prelude
begin

unbundle bit_operations_syntax

text \<open>
  Draft proposals without a learned head, \<^verbatim>\<open>src/history_draft.cpp\<close>: the admission policy, the
  suffix cache over the request's own history, and the prompt-only cache for long copies. Hash
  tables are maps from 64-bit keys; the keys wrap around as in the code, and a collision shows up
  as an entry whose tokens do not match. The interface both caches offer to the round runner
  is the locale \<open>proposal_source\<close>.
\<close>

subsection \<open>Admission policy\<close>

datatype HistoryDraftMode = Mode_disabled | Mode_adaptive | Mode_forced

record HistoryDraftPolicy =
  hp_mode :: HistoryDraftMode
  hp_active :: bool
  hp_rejected :: bool
  hp_learned_rounds :: nat
  hp_learned_proposed :: nat
  hp_learned_accepted :: nat
  hp_history_rounds :: nat
  hp_history_proposed :: nat
  hp_history_accepted :: nat
  hp_activations :: nat
  hp_deactivations :: nat

definition history_policy :: "HistoryDraftMode \<Rightarrow> HistoryDraftPolicy" where
  "history_policy mode = \<lparr>hp_mode = mode, hp_active = (mode = Mode_forced), hp_rejected = False,
     hp_learned_rounds = 0, hp_learned_proposed = 0, hp_learned_accepted = 0,
     hp_history_rounds = 0, hp_history_proposed = 0, hp_history_accepted = 0,
     hp_activations = 0, hp_deactivations = 0\<rparr>"

definition validate_observation :: "nat \<Rightarrow> nat \<Rightarrow> unit result" where
  "validate_observation proposed accepted =
     (if accepted > proposed then Inl (RuntimeError ''draft acceptance exceeds proposed tokens'')
      else Inr ())"

definition observe_learned :: "nat \<Rightarrow> nat \<Rightarrow> HistoryDraftPolicy \<Rightarrow> HistoryDraftPolicy result" where
  "observe_learned proposed accepted pol =
     res_bind (validate_observation proposed accepted) (\<lambda>_.
       if hp_mode pol \<noteq> Mode_adaptive \<or> hp_active pol \<or> hp_rejected pol \<or> proposed = 0 then Inr pol
       else
         let pol1 = pol\<lparr>hp_learned_rounds := sz_add (hp_learned_rounds pol) 1,
                        hp_learned_proposed := sz_add (hp_learned_proposed pol) proposed,
                        hp_learned_accepted := sz_add (hp_learned_accepted pol) accepted\<rparr>
         in if hp_learned_rounds pol1 < 8 then Inr pol1
            else
              let pol2 = (if sz_mul (hp_learned_accepted pol1) 2 < hp_learned_proposed pol1
                          then pol1\<lparr>hp_active := True, hp_activations := sz_add (hp_activations pol1) 1\<rparr>
                          else pol1)
              in Inr (pol2\<lparr>hp_learned_rounds := 0, hp_learned_proposed := 0, hp_learned_accepted := 0\<rparr>))"

definition observe_history :: "nat \<Rightarrow> nat \<Rightarrow> HistoryDraftPolicy \<Rightarrow> HistoryDraftPolicy result" where
  "observe_history proposed accepted pol =
     res_bind (validate_observation proposed accepted) (\<lambda>_.
       if hp_mode pol \<noteq> Mode_adaptive \<or> \<not> hp_active pol \<or> proposed = 0 then Inr pol
       else
         let pol1 = pol\<lparr>hp_history_rounds := sz_add (hp_history_rounds pol) 1,
                        hp_history_proposed := sz_add (hp_history_proposed pol) proposed,
                        hp_history_accepted := sz_add (hp_history_accepted pol) accepted\<rparr>
         in if hp_history_rounds pol1 < 2 then Inr pol1
            else
              let pol2 = (if sz_mul (hp_history_accepted pol1) 2 < hp_history_proposed pol1
                          then pol1\<lparr>hp_active := False, hp_rejected := True,
                                    hp_deactivations := sz_add (hp_deactivations pol1) 1\<rparr>
                          else pol1)
              in Inr (pol2\<lparr>hp_history_rounds := 0, hp_history_proposed := 0, hp_history_accepted := 0\<rparr>))"

text \<open>A request's observations, in any order, as a step relation.\<close>

inductive policy_step :: "HistoryDraftPolicy \<Rightarrow> HistoryDraftPolicy \<Rightarrow> bool" where
  learned: "observe_learned p a pol = Inr pol' \<Longrightarrow> policy_step pol pol'"
| history: "observe_history p a pol = Inr pol' \<Longrightarrow> policy_step pol pol'"

inductive_cases policy_stepE: "policy_step pol pol'"

definition policy_inv :: "HistoryDraftMode \<Rightarrow> HistoryDraftPolicy \<Rightarrow> bool" where
  "policy_inv mode pol \<longleftrightarrow>
     hp_mode pol = mode \<and> hp_learned_rounds pol < 8 \<and> hp_history_rounds pol < 2 \<and>
     (mode = Mode_disabled \<longrightarrow> \<not> hp_active pol) \<and> (mode = Mode_forced \<longrightarrow> hp_active pol) \<and>
     \<not> (hp_active pol \<and> hp_rejected pol) \<and>
     (if mode = Mode_adaptive
      then hp_activations pol = (if hp_active pol \<or> hp_rejected pol then 1 else 0) \<and>
           hp_deactivations pol = (if hp_rejected pol then 1 else 0)
      else hp_activations pol = 0 \<and> hp_deactivations pol = 0 \<and> \<not> hp_rejected pol)"

lemma policy_inv_init: "policy_inv mode (history_policy mode)"
  by (cases mode) (auto simp: policy_inv_def history_policy_def)

lemma policy_inv_step [inv_intros]:
  assumes "policy_inv mode pol" and "policy_step pol pol'"
  shows "policy_inv mode pol'"
  using assms(2,1)
  by (elim policy_stepE)
     (auto simp: observe_learned_def observe_history_def validate_observation_def policy_inv_def Let_def
       sz_add_def split: if_splits)

interpretation history_policy_system: invariant_system
  "\<lambda>pol. pol = history_policy mode" policy_step "policy_inv mode" for mode
  by unfold_locales (auto intro: policy_inv_init inv_intros)

text \<open>Over any sequence of observations, in adaptive mode history drafting is switched on at
  most once and switched off at most once, a rejected policy never becomes active again, and the
  two counters are exactly these events; the disabled and the forced mode never change.\<close>

theorem history_policy_one_shot:
  assumes "policy_step\<^sup>*\<^sup>* (history_policy mode) pol"
  shows "hp_activations pol \<le> 1 \<and> hp_deactivations pol \<le> hp_activations pol \<and>
    (hp_rejected pol \<longrightarrow> \<not> hp_active pol) \<and>
    (mode = Mode_disabled \<longrightarrow> \<not> hp_active pol) \<and> (mode = Mode_forced \<longrightarrow> hp_active pol) \<and>
    (mode = Mode_adaptive \<longrightarrow> (hp_active pol \<longleftrightarrow> hp_activations pol = 1 \<and> hp_deactivations pol = 0))"
  using history_policy_system.inv_reachable [OF refl assms]
  by (auto simp: policy_inv_def split: if_splits)

theorem history_policy_one_shot_witness:
  "\<exists>pol. observe_learned 4 1 (history_policy Mode_adaptive) = Inr pol \<and>
    policy_step\<^sup>*\<^sup>* (history_policy Mode_adaptive) pol \<and> hp_learned_rounds pol = 1 \<and>
    hp_activations pol \<le> 1"
proof -
  obtain pol where pol: "observe_learned 4 1 (history_policy Mode_adaptive) = Inr pol" "hp_learned_rounds pol = 1"
    by (simp add: observe_learned_def validate_observation_def history_policy_def sz_add_def)
  then have run: "policy_step\<^sup>*\<^sup>* (history_policy Mode_adaptive) pol"
    by (intro r_into_rtranclp policy_step.learned)
  show ?thesis using pol run history_policy_one_shot [OF run] by blast
qed

subsection \<open>Keys\<close>

definition fnv_offset :: u64 where
  "fnv_offset = 1469598103934665603"

definition fnv_prime :: u64 where
  "fnv_prime = 1099511628211"

definition fnv_mix :: "u32 \<Rightarrow> u64 \<Rightarrow> u64" where
  "fnv_mix token hash = (hash XOR ucast token) * fnv_prime"

definition fnv_key :: "u32 list \<Rightarrow> u64" where
  "fnv_key tokens = fold fnv_mix tokens (fnv_offset XOR of_nat (length tokens))"

subsection \<open>The interface of a proposal source\<close>

text \<open>
  A source holds an indexed token sequence \<open>indexed c\<close> and is asked with a current sequence
  \<open>current c h\<close> for at most \<open>n\<close> tokens. Its promise: whatever it proposes was copied from the
  indexed sequence right after an earlier occurrence of the current suffix, of at least the
  minimal order.
\<close>

definition copied_after :: "nat \<Rightarrow> u32 list \<Rightarrow> u32 list \<Rightarrow> nat \<Rightarrow> u32 list \<Rightarrow> bool" where
  "copied_after order indexed current n out \<longleftrightarrow>
     (\<exists>pos. order \<le> pos \<and> pos < length indexed \<and> order \<le> length current \<and>
        take order (drop (pos - order) indexed) = drop (length current - order) current \<and>
        out = take n (drop pos indexed))"

locale proposal_source =
  fixes indexed :: "'c \<Rightarrow> u32 list"
    and current :: "'c \<Rightarrow> 'h \<Rightarrow> u32 list"
    and min_order :: "'c \<Rightarrow> nat"
    and valid :: "'c \<Rightarrow> bool"
    and proposal :: "'c \<Rightarrow> 'h \<Rightarrow> nat \<Rightarrow> u32 list"
  assumes proposal_sound: "valid c \<Longrightarrow> proposal c h n \<noteq> [] \<Longrightarrow>
      \<exists>order \<ge> min_order c. copied_after order (indexed c) (current c h) n (proposal c h n)"
begin

lemma proposal_bounded: "valid c \<Longrightarrow> length (proposal c h n) \<le> n"
  using proposal_sound [of c h n] by (cases "proposal c h n = []") (auto simp: copied_after_def)

lemma proposal_known_tokens: "valid c \<Longrightarrow> set (proposal c h n) \<subseteq> set (indexed c)"
  using proposal_sound [of c h n]
  by (cases "proposal c h n = []") (auto simp: copied_after_def dest!: in_set_takeD in_set_dropD)

text \<open>So a source whose tokens are in the vocabulary proposes drafts in the vocabulary.\<close>

lemma proposal_in_vocabulary:
  "valid c \<Longrightarrow> \<forall>t \<in> set (indexed c). unat t < v \<Longrightarrow> t \<in> set (proposal c h n) \<Longrightarrow> unat t < v"
  using proposal_known_tokens by blast

end

subsection \<open>History cache\<close>

record HistoryDraftCache =
  hc_minimum_order :: nat
  hc_maximum_order :: nat
  hc_history :: "u32 list"
  hc_latest :: "u64 \<Rightarrow> nat option"

definition history_cache :: "nat \<Rightarrow> nat \<Rightarrow> HistoryDraftCache result" where
  "history_cache minimum_order maximum_order =
     (if minimum_order = 0 \<or> minimum_order > maximum_order then
        Inl (RuntimeError ''invalid history draft order range'')
      else Inr \<lparr>hc_minimum_order = minimum_order, hc_maximum_order = maximum_order,
                hc_history = [], hc_latest = (\<lambda>_. None)\<rparr>)"

definition history_key :: "u32 list \<Rightarrow> nat \<Rightarrow> nat \<Rightarrow> u64" where
  "history_key history start order =
     fold (\<lambda>index. fnv_mix (history ! (start + index))) [0..<order] (fnv_offset XOR of_nat order)"

fun publish_suffixes :: "u32 list \<Rightarrow> nat list \<Rightarrow> (u64 \<Rightarrow> nat option) \<Rightarrow> (u64 \<Rightarrow> nat option)" where
  "publish_suffixes history [] latest = latest"
| "publish_suffixes history (order # orders) latest =
     (if length history < order + 1 then latest
      else
        let start = length history - order - 1 in
        publish_suffixes history orders (latest(history_key history start order \<mapsto> start)))"

definition history_append :: "u32 \<Rightarrow> HistoryDraftCache \<Rightarrow> HistoryDraftCache" where
  "history_append token cache =
     (let history = hc_history cache @ [token] in
      cache\<lparr>hc_history := history,
            hc_latest := publish_suffixes history
              [hc_minimum_order cache..<hc_maximum_order cache + 1] (hc_latest cache)\<rparr>)"

definition history_append_all :: "u32 list \<Rightarrow> HistoryDraftCache \<Rightarrow> HistoryDraftCache" where
  "history_append_all tokens cache = fold history_append tokens cache"

definition suffix_matches :: "u32 list \<Rightarrow> nat \<Rightarrow> nat \<Rightarrow> bool" where
  "suffix_matches history start order \<longleftrightarrow>
     \<not> (start + order \<ge> length history \<or> order > length history) \<and>
     take order (drop start history) = drop (length history - order) history"

fun propose_orders :: "HistoryDraftCache \<Rightarrow> nat \<Rightarrow> nat list \<Rightarrow> u32 list" where
  "propose_orders cache maximum_tokens [] = []"
| "propose_orders cache maximum_tokens (order # orders) =
     (let history = hc_history cache in
      if length history \<ge> order then
        (case hc_latest cache (history_key history (length history - order) order) of
           None \<Rightarrow> propose_orders cache maximum_tokens orders
         | Some start \<Rightarrow>
             if suffix_matches history start order then
               let continuation = start + order;
                   count = min maximum_tokens (length history - continuation)
               in take count (drop continuation history)
             else propose_orders cache maximum_tokens orders)
      else propose_orders cache maximum_tokens orders)"

definition history_propose :: "HistoryDraftCache \<Rightarrow> nat \<Rightarrow> u32 list" where
  "history_propose cache maximum_tokens =
     (if maximum_tokens = 0 then []
      else propose_orders cache maximum_tokens
        (rev [hc_minimum_order cache..<hc_maximum_order cache + 1]))"

lemma take_min_length: "take (min n (length xs)) xs = take n xs"
  by (cases "n \<le> length xs") (auto simp: min_def)

lemma propose_orders_sound:
  assumes "propose_orders cache n orders \<noteq> []"
  shows "\<exists>order \<in> set orders.
    copied_after order (hc_history cache) (hc_history cache) n (propose_orders cache n orders)"
  using assms
proof (induction orders)
  case Nil
  then show ?case by simp
next
  case (Cons order orders)
  let ?h = "hc_history cache"
  show ?case
  proof (cases "length ?h \<ge> order \<and> (\<exists>start. hc_latest cache (history_key ?h (length ?h - order) order) =
      Some start \<and> suffix_matches ?h start order)")
    case True
    then obtain start where start: "length ?h \<ge> order"
      "hc_latest cache (history_key ?h (length ?h - order) order) = Some start"
      "suffix_matches ?h start order" by blast
    then have "propose_orders cache n (order # orders) = take n (drop (start + order) ?h)"
      using take_min_length [of n "drop (start + order) ?h"] by (simp add: Let_def)
    then have "copied_after order ?h ?h n (propose_orders cache n (order # orders))"
      using start(3) unfolding copied_after_def suffix_matches_def
      by (intro exI [of _ "start + order"]) auto
    then show ?thesis by simp
  next
    case False
    then have "propose_orders cache n (order # orders) = propose_orders cache n orders"
      by (auto simp: Let_def split: option.splits)
    then show ?thesis using Cons by auto
  qed
qed

interpretation history_source: proposal_source
  hc_history "\<lambda>cache (_ :: unit). hc_history cache" hc_minimum_order "\<lambda>_. True"
  "\<lambda>cache _ n. history_propose cache n"
proof (unfold_locales, goal_cases)
  case (1 c h n)
  then have eq: "history_propose c n = propose_orders c n (rev [hc_minimum_order c..<hc_maximum_order c + 1])"
    by (auto simp: history_propose_def)
  with 1 propose_orders_sound [of c n "rev [hc_minimum_order c..<hc_maximum_order c + 1]"]
  show ?case unfolding eq by fastforce
qed

subsection \<open>What the history cache finds\<close>

definition gram :: "u32 list \<Rightarrow> nat \<Rightarrow> nat \<Rightarrow> u32 list" where
  "gram h start order = take order (drop start h)"

lemma history_key_gram: "start + order \<le> length h \<Longrightarrow> history_key h start order = fnv_key (gram h start order)"
proof -
  assume len: "start + order \<le> length h"
  have "gram h start order = map (\<lambda>i. h ! (start + i)) [0..<order]"
    using len by (intro nth_equalityI) (auto simp: gram_def)
  then show ?thesis by (simp add: history_key_def fnv_key_def fold_map comp_def)
qed

text \<open>No two different grams of the history, of the orders the cache indexes, share a key.\<close>

definition collision_free :: "nat \<Rightarrow> nat \<Rightarrow> u32 list \<Rightarrow> bool" where
  "collision_free lo hi h \<longleftrightarrow>
     (\<forall>o1 \<in> {lo..hi}. \<forall>o2 \<in> {lo..hi}. \<forall>s1 \<in> {..length h}. \<forall>s2 \<in> {..length h}.
        s1 + o1 \<le> length h \<longrightarrow> s2 + o2 \<le> length h \<longrightarrow>
        fnv_key (gram h s1 o1) = fnv_key (gram h s2 o2) \<longrightarrow> o1 = o2 \<and> gram h s1 o1 = gram h s2 o2)"

lemma collision_freeD:
  "collision_free lo hi h \<Longrightarrow> lo \<le> o1 \<Longrightarrow> o1 \<le> hi \<Longrightarrow> lo \<le> o2 \<Longrightarrow> o2 \<le> hi \<Longrightarrow>
     s1 + o1 \<le> length h \<Longrightarrow> s2 + o2 \<le> length h \<Longrightarrow>
     fnv_key (gram h s1 o1) = fnv_key (gram h s2 o2) \<Longrightarrow> o1 = o2 \<and> gram h s1 o1 = gram h s2 o2"
  unfolding collision_free_def by (meson add_leD1 atLeastAtMost_iff atMost_iff)

lemma gram_append: "s + n \<le> length h \<Longrightarrow> gram (h @ xs) s n = gram h s n"
  by (simp add: gram_def)

lemma collision_free_prefix:
  assumes "collision_free lo hi (h @ xs)"
  shows "collision_free lo hi h"
  unfolding collision_free_def
proof (intro ballI impI)
  fix o1 o2 s1 s2
  assume "o1 \<in> {lo..hi}" "o2 \<in> {lo..hi}" and s: "s1 + o1 \<le> length h" "s2 + o2 \<le> length h"
    and "fnv_key (gram h s1 o1) = fnv_key (gram h s2 o2)"
  then have "o1 = o2 \<and> gram (h @ xs) s1 o1 = gram (h @ xs) s2 o2"
    by (intro collision_freeD [OF assms]) (auto simp: gram_append)
  then show "o1 = o2 \<and> gram h s1 o1 = gram h s2 o2" using s by (metis gram_append)
qed

lemma publish_miss:
  "\<forall>n \<in> set orders. n + 1 \<le> length h \<longrightarrow> history_key h (length h - n - 1) n \<noteq> k \<Longrightarrow>
     publish_suffixes h orders latest k = latest k"
  by (induction orders arbitrary: latest) (auto simp: Let_def)

lemma publish_hit:
  assumes "sorted orders" and "n \<in> set orders" and "n + 1 \<le> length h" and "distinct orders"
    and "\<forall>n' \<in> set orders. n' \<noteq> n \<longrightarrow> n' + 1 \<le> length h \<longrightarrow>
      history_key h (length h - n' - 1) n' \<noteq> history_key h (length h - n - 1) n"
  shows "publish_suffixes h orders latest (history_key h (length h - n - 1) n) = Some (length h - n - 1)"
  using assms
proof (induction orders arbitrary: latest)
  case Nil
  then show ?case by simp
next
  case (Cons m orders)
  show ?case
  proof (cases "n = m")
    case True
    have "\<forall>n' \<in> set orders. n' + 1 \<le> length h \<longrightarrow>
        history_key h (length h - n' - 1) n' \<noteq> history_key h (length h - n - 1) n"
      using Cons.prems True by auto
    from publish_miss [OF this] show ?thesis using True Cons.prems(3) by (simp add: Let_def)
  next
    case False
    then show ?thesis using Cons by (auto simp: Let_def)
  qed
qed

definition index_complete :: "nat \<Rightarrow> nat \<Rightarrow> u32 list \<Rightarrow> (u64 \<Rightarrow> nat option) \<Rightarrow> bool" where
  "index_complete lo hi h latest \<longleftrightarrow>
     (\<forall>n s. lo \<le> n \<longrightarrow> n \<le> hi \<longrightarrow> s + n < length h \<longrightarrow>
        (\<exists>s'. latest (fnv_key (gram h s n)) = Some s' \<and> s \<le> s' \<and> s' + n < length h \<and>
           gram h s' n = gram h s n))"

lemma index_complete_append:
  assumes cf: "collision_free lo hi (h @ [t])" and inv: "index_complete lo hi h latest"
  shows "index_complete lo hi (h @ [t]) (publish_suffixes (h @ [t]) [lo..<hi + 1] latest)"
  unfolding index_complete_def
proof (intro allI impI)
  fix n s
  let ?h = "h @ [t]"
  let ?new = "length h - n"
  let ?pub = "publish_suffixes ?h [lo..<hi + 1] latest"
  assume n: "lo \<le> n" "n \<le> hi" and s: "s + n < length ?h"
  have newkey: "history_key ?h (length ?h - m - 1) m = fnv_key (gram ?h (length h - m) m)"
    if "m + 1 \<le> length ?h" for m
    using that history_key_gram [of "length h - m" m ?h] by simp
  have apart: "fnv_key (gram ?h (length h - m) m) \<noteq> fnv_key (gram ?h ?new n)"
    if "lo \<le> m" "m \<le> hi" "m \<noteq> n" "m + 1 \<le> length ?h" for m
    using collision_freeD [OF cf that(1,2) n, of "length h - m" ?new] that(3,4) s by auto
  have hit: "?pub (fnv_key (gram ?h ?new n)) = Some ?new"
    using publish_hit [of "[lo..<hi + 1]" n ?h latest] n s newkey apart
    by (simp add: less_Suc_eq_le del: upt_Suc)
  show "\<exists>s'. ?pub (fnv_key (gram ?h s n)) = Some s' \<and> s \<le> s' \<and> s' + n < length ?h \<and>
      gram ?h s' n = gram ?h s n"
  proof (cases "gram ?h s n = gram ?h ?new n")
    case True
    then show ?thesis using hit s by (intro exI [of _ ?new]) auto
  next
    case False
    have "s \<noteq> ?new" using False by auto
    then have s': "s + n < length h" using s by auto
    have "fnv_key (gram ?h (length h - m) m) \<noteq> fnv_key (gram ?h s n)"
      if "lo \<le> m" "m \<le> hi" "m + 1 \<le> length ?h" for m
      using collision_freeD [OF cf that(1,2) n, of "length h - m" s] that(3) s False by auto
    then have "?pub (fnv_key (gram ?h s n)) = latest (fnv_key (gram h s n))"
      using publish_miss [of "[lo..<hi + 1]" ?h "fnv_key (gram ?h s n)" latest] newkey s'
      by (auto simp: gram_append less_Suc_eq_le)
    moreover obtain s'' where "latest (fnv_key (gram h s n)) = Some s''" "s \<le> s''" "s'' + n < length h"
      "gram h s'' n = gram h s n"
      using inv n s' unfolding index_complete_def by blast
    ultimately show ?thesis using s' by (intro exI [of _ s'']) (auto simp: gram_append)
  qed
qed

lemma history_append_fields [simp]:
  "hc_minimum_order (history_append t c) = hc_minimum_order c"
  "hc_maximum_order (history_append t c) = hc_maximum_order c"
  "hc_history (history_append t c) = hc_history c @ [t]"
  by (simp_all add: history_append_def Let_def)

lemma history_append_all_inv:
  assumes "index_complete lo hi (hc_history c) (hc_latest c)"
    and "hc_minimum_order c = lo" and "hc_maximum_order c = hi"
    and "collision_free lo hi (hc_history c @ tokens)"
  shows "index_complete lo hi (hc_history c @ tokens) (hc_latest (history_append_all tokens c)) \<and>
    hc_history (history_append_all tokens c) = hc_history c @ tokens \<and>
    hc_minimum_order (history_append_all tokens c) = lo \<and>
    hc_maximum_order (history_append_all tokens c) = hi"
  using assms
proof (induction tokens arbitrary: c)
  case Nil
  then show ?case by (simp add: history_append_all_def)
next
  case (Cons t tokens)
  have "collision_free lo hi (hc_history c @ [t])"
    using Cons.prems(4) collision_free_prefix [of lo hi "hc_history c @ [t]" tokens] by simp
  from index_complete_append [OF this Cons.prems(1)]
  have "index_complete lo hi (hc_history (history_append t c)) (hc_latest (history_append t c))"
    using Cons.prems(2,3) by (simp add: history_append_def Let_def del: upt_Suc)
  from Cons.IH [OF this] Cons.prems show ?case by (simp add: history_append_all_def)
qed

text \<open>An earlier occurrence of the last \<open>n\<close> tokens whose continuation is known.\<close>

definition earlier_match :: "u32 list \<Rightarrow> nat \<Rightarrow> nat \<Rightarrow> bool" where
  "earlier_match h s n \<longleftrightarrow> s + n < length h \<and> gram h s n = drop (length h - n) h"

lemma suffix_matches_iff: "suffix_matches h s n \<longleftrightarrow> earlier_match h s n"
  by (auto simp: suffix_matches_def earlier_match_def gram_def)

lemma propose_orders_skip:
  "\<forall>m \<in> set ms. \<forall>s. \<not> earlier_match (hc_history c) s m \<Longrightarrow>
     propose_orders c n (ms @ ms') = propose_orders c n ms'"
  by (induction ms) (auto simp: Let_def suffix_matches_iff split: option.splits)

lemma propose_orders_hit:
  assumes "index_complete lo hi (hc_history c) (hc_latest c)" and "lo \<le> m" and "m \<le> hi"
    and match: "earlier_match (hc_history c) s m"
    and last: "\<forall>s'. s < s' \<longrightarrow> \<not> earlier_match (hc_history c) s' m"
  shows "propose_orders c n (m # ms) = take n (drop (s + m) (hc_history c))"
proof -
  let ?h = "hc_history c"
  have len: "s + m < length ?h" using match by (simp add: earlier_match_def)
  have suffix: "gram ?h (length ?h - m) m = gram ?h s m"
    using match by (simp add: earlier_match_def gram_def)
  obtain s' where s': "hc_latest c (fnv_key (gram ?h s m)) = Some s'" "s \<le> s'" "s' + m < length ?h"
    "gram ?h s' m = gram ?h s m"
    using assms(1-3) len unfolding index_complete_def by blast
  have "earlier_match ?h s' m" using match s' by (simp add: earlier_match_def)
  then have "s' = s" using last s'(2) by (metis le_neq_implies_less)
  then have "hc_latest c (history_key ?h (length ?h - m) m) = Some s"
    using history_key_gram [of "length ?h - m" m ?h] suffix s'(1) len by simp
  then show ?thesis
    using len match take_min_length [of n "drop (s + m) ?h"] by (simp add: Let_def suffix_matches_iff)
qed

lemma rev_upt_split: "lo \<le> m \<Longrightarrow> m \<le> hi \<Longrightarrow> rev [lo..<hi + 1] = rev [m + 1..<hi + 1] @ m # rev [lo..<m]"
  using upt_add_eq_append [of lo m "hi + 1 - m"] upt_conv_Cons [of m "hi + 1"] by simp

text \<open>C18. The history cache proposes exactly what its comment promises: on a history in which no
  two indexed grams collide, the proposal is the continuation of the most recent earlier
  occurrence of the longest suffix, between the minimal and the maximal order, that has
  occurred before, cut at the requested length; and it proposes nothing exactly when no such
  suffix has occurred before.\<close>

theorem history_propose_latest_longest:
  assumes "history_cache lo hi = Inr c0" and "collision_free lo hi tokens" and "0 < n"
  shows "(history_propose (history_append_all tokens c0) n = [] \<longleftrightarrow>
      (\<forall>m s. lo \<le> m \<and> m \<le> hi \<longrightarrow> \<not> earlier_match tokens s m)) \<and>
    (\<forall>m s. lo \<le> m \<and> m \<le> hi \<and> earlier_match tokens s m \<and>
        (\<forall>m' s'. m < m' \<and> m' \<le> hi \<longrightarrow> \<not> earlier_match tokens s' m') \<and>
        (\<forall>s'. s < s' \<longrightarrow> \<not> earlier_match tokens s' m) \<longrightarrow>
      history_propose (history_append_all tokens c0) n = take n (drop (s + m) tokens))"
proof -
  let ?c = "history_append_all tokens c0"
  have c0: "hc_history c0 = []" "hc_minimum_order c0 = lo" "hc_maximum_order c0 = hi"
    "index_complete lo hi [] (hc_latest c0)" "lo \<le> hi"
    using assms(1) by (auto simp: history_cache_def index_complete_def split: if_splits)
  have c: "index_complete lo hi tokens (hc_latest ?c)" "hc_history ?c = tokens"
    "hc_minimum_order ?c = lo" "hc_maximum_order ?c = hi"
    using history_append_all_inv [of lo hi c0 tokens] c0 assms(2) by auto
  have hit: "history_propose ?c n = take n (drop (s + m) tokens)"
    if "lo \<le> m" "m \<le> hi" "earlier_match tokens s m"
      "\<forall>m' s'. m < m' \<and> m' \<le> hi \<longrightarrow> \<not> earlier_match tokens s' m'"
      "\<forall>s'. s < s' \<longrightarrow> \<not> earlier_match tokens s' m" for m s
  proof -
    have "propose_orders ?c n (rev [m + 1..<hi + 1] @ m # rev [lo..<m]) = propose_orders ?c n (m # rev [lo..<m])"
      using that(4) c(2) by (intro propose_orders_skip) auto
    also have "\<dots> = take n (drop (s + m) tokens)"
      using propose_orders_hit [of lo hi ?c m s n] c that by simp
    finally show ?thesis
      using c assms(3) rev_upt_split [OF that(1,2)] by (simp add: history_propose_def del: upt_Suc)
  qed
  have none: "history_propose ?c n = []" if "\<forall>m s. lo \<le> m \<and> m \<le> hi \<longrightarrow> \<not> earlier_match tokens s m"
    using propose_orders_skip [of "rev [lo..<hi + 1]" ?c n "[]"] that c
    by (auto simp: history_propose_def simp del: upt_Suc)
  have some: "history_propose ?c n \<noteq> []" if m: "lo \<le> m" "m \<le> hi" "earlier_match tokens s m" for m s
  proof -
    let ?P = "\<lambda>m. m \<le> hi \<and> (\<exists>s. earlier_match tokens s m)"
    have "?P (Greatest ?P)" "m \<le> Greatest ?P" and gr: "\<forall>m'. ?P m' \<longrightarrow> m' \<le> Greatest ?P"
      using GreatestI_nat [of ?P m hi] Greatest_le_nat [of ?P _ hi] m by blast+
    then obtain s0 where s0: "earlier_match tokens s0 (Greatest ?P)" "lo \<le> Greatest ?P" "Greatest ?P \<le> hi"
      using m by auto
    let ?Q = "\<lambda>s. earlier_match tokens s (Greatest ?P)"
    have bound: "?Q s \<Longrightarrow> s \<le> length tokens" for s by (simp add: earlier_match_def)
    have s1: "?Q (Greatest ?Q)" "\<forall>s. ?Q s \<longrightarrow> s \<le> Greatest ?Q"
      using GreatestI_nat [of ?Q s0 "length tokens"] Greatest_le_nat [of ?Q _ "length tokens"] s0 bound
      by blast+
    have "history_propose ?c n = take n (drop (Greatest ?Q + Greatest ?P) tokens)"
      by (rule hit [OF s0(2,3) s1(1)]) (use gr s1(2) in \<open>meson leD\<close>)+
    then show ?thesis using s1(1) assms(3) by (auto simp: earlier_match_def)
  qed
  show ?thesis using hit none some by blast
qed

lemma sample_gram:
  assumes "s + 2 \<le> length [1, 2, 3, 1, 2 :: u32]"
  shows "s = 0 \<and> gram [1, 2, 3, 1, 2] s 2 = [1, 2] \<or> s = 1 \<and> gram [1, 2, 3, 1, 2] s 2 = [2, 3] \<or>
    s = 2 \<and> gram [1, 2, 3, 1, 2] s 2 = [3, 1] \<or> s = 3 \<and> gram [1, 2, 3, 1, 2] s 2 = [1, 2]"
proof -
  have "s = 0 \<or> s = 1 \<or> s = 2 \<or> s = 3" using assms by auto
  then show ?thesis by (elim disjE) (simp_all add: gram_def)
qed

lemma sample_keys:
  "fnv_key [1, 2] \<noteq> fnv_key [2, 3]" "fnv_key [1, 2] \<noteq> fnv_key [3, 1]" "fnv_key [2, 3] \<noteq> fnv_key [3, 1]"
  by (simp_all add: fnv_key_def fnv_mix_def fnv_offset_def fnv_prime_def)

lemma sample_collision_free: "collision_free 2 2 [1, 2, 3, 1, 2]"
  unfolding collision_free_def
proof (intro ballI impI)
  fix o1 o2 s1 s2 :: nat
  assume o: "o1 \<in> {2..2}" "o2 \<in> {2..2}"
    and s: "s1 + o1 \<le> length [1, 2, 3, 1, 2 :: u32]" "s2 + o2 \<le> length [1, 2, 3, 1, 2 :: u32]"
    and k: "fnv_key (gram [1, 2, 3, 1, 2] s1 o1) = fnv_key (gram [1, 2, 3, 1, 2] s2 o2)"
  have "o1 = 2" "o2 = 2" using o by auto
  then show "o1 = o2 \<and> gram [1, 2, 3, 1, 2] s1 o1 = gram [1, 2, 3, 1, 2] s2 o2"
    using sample_gram [of s1] sample_gram [of s2] s k sample_keys by auto
qed

lemma sample_match: "earlier_match [1, 2, 3, 1, 2 :: u32] s 2 \<longleftrightarrow> s = 0"
  using sample_gram [of s] by (auto simp: earlier_match_def)

theorem history_propose_latest_longest_witness:
  "\<exists>c0. history_cache 2 2 = Inr c0 \<and> history_propose (history_append_all [1, 2, 3, 1, 2] c0) 2 = [3, 1]"
proof -
  obtain c0 where c0: "history_cache 2 2 = Inr c0" by (simp add: history_cache_def)
  have "history_propose (history_append_all [1, 2, 3, 1, 2] c0) 2 = take 2 (drop (0 + 2) [1, 2, 3, 1, 2])"
  proof (rule history_propose_latest_longest [OF c0 sample_collision_free, of 2, THEN conjunct2,
        rule_format, of 2 0])
    show "(2 :: nat) \<le> 2 \<and> (2 :: nat) \<le> 2 \<and> earlier_match [1, 2, 3, 1, 2] 0 2 \<and>
        (\<forall>m' s'. 2 < m' \<and> m' \<le> 2 \<longrightarrow> \<not> earlier_match [1, 2, 3, 1, 2] s' m') \<and>
        (\<forall>s'. 0 < s' \<longrightarrow> \<not> earlier_match [1, 2, 3, 1, 2] s' 2)"
      by (auto simp: sample_match)
  qed simp
  then show ?thesis using c0 by simp
qed

end
