(* ===== verification/Context_Copy.thy ===== *)
theory Context_Copy
  imports History_Draft
begin

text \<open>
  The prompt-only lookup for long speculative blocks, \<open>ContextCopyCache\<close> of
  \<^verbatim>\<open>src/history_draft.cpp\<close>. The constructor indexes every gram of minimal order of the prompt;
  \<open>propose\<close> looks the suffix of a given history up, \<open>propose_completion\<close> does the same for the
  prompt followed by a completion without building that sequence.
\<close>

unbundle bit_operations_syntax

record ContextCopyCache =
  cc_minimum_order :: nat
  cc_maximum_order :: nat
  cc_prompt :: "u32 list"
  cc_continuations :: "u64 \<Rightarrow> nat list option"

record ContextCopyProposal =
  cp_tokens :: "u32 list"
  cp_match_extension :: nat

definition no_proposal :: ContextCopyProposal where
  "no_proposal = \<lparr>cp_tokens = [], cp_match_extension = 0\<rparr>"

definition push_continuation :: "u32 list \<Rightarrow> nat \<Rightarrow> nat \<Rightarrow> (u64 \<Rightarrow> nat list option) \<Rightarrow> u64 \<Rightarrow> nat list option" where
  "push_continuation prompt minimum_order pos table =
     (let k = fnv_key (take minimum_order (drop (pos - minimum_order) prompt));
          old = (case table k of None \<Rightarrow> [] | Some ps \<Rightarrow> ps)
      in table(k \<mapsto> old @ [pos]))"

definition context_copy_cache :: "u32 list \<Rightarrow> nat \<Rightarrow> nat \<Rightarrow> ContextCopyCache result" where
  "context_copy_cache prompt minimum_order maximum_order =
     (if minimum_order = 0 \<or> minimum_order > maximum_order then
        Inl (RuntimeError ''invalid context-copy order range'')
      else Inr \<lparr>cc_minimum_order = minimum_order, cc_maximum_order = maximum_order, cc_prompt = prompt,
                cc_continuations = fold (push_continuation prompt minimum_order)
                  [minimum_order..<length prompt] (\<lambda>_. None)\<rparr>)"

text \<open>The \<open>while\<close> loop that extends a match to the left; \<open>token\<close> reads the current sequence.\<close>

function extend_match ::
    "ContextCopyCache \<Rightarrow> (nat \<Rightarrow> u32) \<Rightarrow> nat \<Rightarrow> nat \<Rightarrow> nat \<Rightarrow> nat" where
  "extend_match cache token history_size position extension =
     (if extension < cc_maximum_order cache - cc_minimum_order cache \<and>
         position > cc_minimum_order cache + extension \<and>
         history_size > cc_minimum_order cache + extension \<and>
         cc_prompt cache ! (position - cc_minimum_order cache - extension - 1) =
           token (history_size - cc_minimum_order cache - extension - 1)
      then extend_match cache token history_size position (extension + 1)
      else extension)"
  by pat_completeness auto
termination
  by (relation "measure (\<lambda>(cache, token, n, position, extension).
        cc_maximum_order cache - cc_minimum_order cache - extension)") auto

declare extend_match.simps [simp del]

text \<open>
  The loop over the candidate positions, newest first, with the best position and extension so
  far. It stops at the first candidate with the maximal extension.
\<close>

fun scan_candidates ::
    "ContextCopyCache \<Rightarrow> (nat \<Rightarrow> bool) \<Rightarrow> (nat \<Rightarrow> nat) \<Rightarrow> nat list \<Rightarrow> nat \<times> nat \<Rightarrow> nat \<times> nat" where
  "scan_candidates cache exact extension_of [] best = best"
| "scan_candidates cache exact extension_of (position # rest) best =
     (if position \<ge> length (cc_prompt cache) then scan_candidates cache exact extension_of rest best
      else if \<not> exact position then scan_candidates cache exact extension_of rest best
      else
        let extension = extension_of position in
        if fst best = length (cc_prompt cache) \<or> extension > snd best then
          (if extension = cc_maximum_order cache - cc_minimum_order cache then (position, extension)
           else scan_candidates cache exact extension_of rest (position, extension))
        else scan_candidates cache exact extension_of rest best)"

definition recent_candidates :: "nat list \<Rightarrow> nat list" where
  "recent_candidates positions = rev (drop (length positions - 32) positions)"

definition best_proposal :: "ContextCopyCache \<Rightarrow> nat \<Rightarrow> nat \<times> nat \<Rightarrow> ContextCopyProposal" where
  "best_proposal cache maximum_tokens best =
     (if fst best = length (cc_prompt cache) then no_proposal
      else
        let count = min maximum_tokens (length (cc_prompt cache) - fst best) in
        \<lparr>cp_tokens = take count (drop (fst best) (cc_prompt cache)), cp_match_extension = snd best\<rparr>)"

definition context_propose :: "ContextCopyCache \<Rightarrow> u32 list \<Rightarrow> nat \<Rightarrow> ContextCopyProposal" where
  "context_propose cache history maximum_tokens =
     (if maximum_tokens = 0 \<or> length history < cc_minimum_order cache then no_proposal
      else
        let order = cc_minimum_order cache; suffix = drop (length history - order) history in
        case cc_continuations cache (fnv_key suffix) of
          None \<Rightarrow> no_proposal
        | Some positions \<Rightarrow>
            best_proposal cache maximum_tokens
              (scan_candidates cache
                 (\<lambda>position. take order (drop (position - order) (cc_prompt cache)) = suffix)
                 (\<lambda>position. extend_match cache (\<lambda>i. history ! i) (length history) position 0)
                 (recent_candidates positions) (length (cc_prompt cache), 0)))"

definition history_token :: "ContextCopyCache \<Rightarrow> u32 list \<Rightarrow> nat \<Rightarrow> u32" where
  "history_token cache completion index =
     (if index < length (cc_prompt cache) then cc_prompt cache ! index
      else completion ! (index - length (cc_prompt cache)))"

definition propose_completion :: "ContextCopyCache \<Rightarrow> u32 list \<Rightarrow> nat \<Rightarrow> ContextCopyProposal" where
  "propose_completion cache completion maximum_tokens =
     (let history_size = length (cc_prompt cache) + length completion; order = cc_minimum_order cache in
      if maximum_tokens = 0 \<or> history_size < order then no_proposal
      else
        let suffix_key = fold (\<lambda>index. fnv_mix (history_token cache completion index))
              [history_size - order..<history_size] (fnv_offset XOR of_nat order) in
        case cc_continuations cache suffix_key of
          None \<Rightarrow> no_proposal
        | Some positions \<Rightarrow>
            best_proposal cache maximum_tokens
              (scan_candidates cache
                 (\<lambda>position. list_all (\<lambda>offset. cc_prompt cache ! (position - order + offset) =
                    history_token cache completion (history_size - order + offset)) [0..<order])
                 (\<lambda>position. extend_match cache (history_token cache completion) history_size position 0)
                 (recent_candidates positions) (length (cc_prompt cache), 0)))"

subsection \<open>The index\<close>

text \<open>Every recorded position is a position of the prompt behind a full gram.\<close>

definition table_positions :: "(nat \<Rightarrow> bool) \<Rightarrow> (u64 \<Rightarrow> nat list option) \<Rightarrow> bool" where
  "table_positions P table \<longleftrightarrow> (\<forall>k ps. table k = Some ps \<longrightarrow> list_all P ps)"

definition context_valid :: "ContextCopyCache \<Rightarrow> bool" where
  "context_valid cache \<longleftrightarrow>
     table_positions (\<lambda>pos. cc_minimum_order cache \<le> pos \<and> pos < length (cc_prompt cache))
       (cc_continuations cache)"

lemma push_continuation_valid:
  assumes "table_positions P table" and "P pos"
  shows "table_positions P (push_continuation prompt n pos table)"
proof -
  let ?k = "fnv_key (take n (drop (pos - n) prompt))"
  have "list_all P (case table ?k of None \<Rightarrow> [] | Some ps \<Rightarrow> ps)"
    using assms(1) by (auto simp: table_positions_def split: option.split)
  then show ?thesis using assms by (auto simp: table_positions_def push_continuation_def Let_def)
qed

lemma push_continuations_valid:
  "table_positions P table \<Longrightarrow> list_all P xs \<Longrightarrow>
     table_positions P (fold (push_continuation prompt n) xs table)"
  by (induction xs arbitrary: table) (auto intro: push_continuation_valid)

lemma context_copy_cache_valid:
  assumes "context_copy_cache prompt lo hi = Inr cache"
  shows "context_valid cache"
proof -
  have "table_positions (\<lambda>pos. lo \<le> pos \<and> pos < length prompt)
      (fold (push_continuation prompt lo) [lo..<length prompt] (\<lambda>_. None))"
    by (rule push_continuations_valid) (auto simp: table_positions_def list_all_iff)
  then show ?thesis
    using assms by (auto simp: context_copy_cache_def context_valid_def split: if_splits)
qed

subsection \<open>The scan\<close>

lemma scan_candidates_sound:
  assumes "scan_candidates cache exact ext cands best = (p, x)" and "p \<noteq> length (cc_prompt cache)"
    and "fst best = length (cc_prompt cache) \<or> exact (fst best)"
  shows "exact p"
  using assms
  by (induction cache exact ext cands best rule: scan_candidates.induct)
     (auto simp: Let_def split: if_splits)

lemma scan_candidates_member:
  assumes "scan_candidates cache exact ext cands best = (p, x)"
  shows "p = fst best \<or> p \<in> set cands \<and> p < length (cc_prompt cache)"
  using assms
  by (induction cache exact ext cands best rule: scan_candidates.induct)
     (auto simp: Let_def not_le split: if_splits)

lemma recent_candidates_subset: "set (recent_candidates ps) \<subseteq> set ps"
  by (auto simp: recent_candidates_def dest: in_set_dropD)

lemma context_propose_sound:
  assumes valid: "context_valid cache" and out: "cp_tokens (context_propose cache history n) \<noteq> []"
  shows "copied_after (cc_minimum_order cache) (cc_prompt cache) history n
    (cp_tokens (context_propose cache history n))"
proof -
  let ?o = "cc_minimum_order cache" and ?p = "cc_prompt cache"
  let ?suffix = "drop (length history - ?o) history"
  let ?exact = "\<lambda>position. take ?o (drop (position - ?o) ?p) = ?suffix"
  let ?ext = "\<lambda>position. extend_match cache (\<lambda>i. history ! i) (length history) position 0"
  from out obtain ps where ps: "cc_continuations cache (fnv_key ?suffix) = Some ps" "?o \<le> length history"
    and eq: "context_propose cache history n =
      best_proposal cache n (scan_candidates cache ?exact ?ext (recent_candidates ps) (length ?p, 0))"
    by (auto simp: context_propose_def no_proposal_def Let_def split: if_splits option.splits)
  obtain p x where scan: "scan_candidates cache ?exact ?ext (recent_candidates ps) (length ?p, 0) = (p, x)"
    by fastforce
  have p: "p \<noteq> length ?p" using out eq scan by (auto simp: best_proposal_def no_proposal_def)
  have "?exact p" using scan_candidates_sound [OF scan p] by simp
  moreover have "p \<in> set ps" "p < length ?p"
    using scan_candidates_member [OF scan] p recent_candidates_subset by auto
  moreover have "?o \<le> p" using valid ps calculation
    by (auto simp: context_valid_def table_positions_def list_all_iff)
  moreover have "cp_tokens (context_propose cache history n) = take n (drop p ?p)"
    using eq scan p take_min_length [of n "drop p ?p"] by (simp add: best_proposal_def Let_def)
  ultimately show ?thesis using ps(2) unfolding copied_after_def by blast
qed

interpretation context_source: proposal_source
  cc_prompt "\<lambda>_ history. history" cc_minimum_order context_valid
  "\<lambda>cache history n. cp_tokens (context_propose cache history n)"
  by unfold_locales (blast intro: context_propose_sound)

subsection \<open>Proposing for a completion\<close>

lemma extend_match_cong:
  "(\<And>i. i < n \<Longrightarrow> token i = token' i) \<Longrightarrow> extend_match cache token n position x = extend_match cache token' n position x"
proof (induction cache token n position x rule: extend_match.induct)
  case (1 cache token n position x)
  have eq: "n > cc_minimum_order cache + x \<Longrightarrow>
      token (n - cc_minimum_order cache - x - 1) = token' (n - cc_minimum_order cache - x - 1)"
    using 1(2) by simp
  show ?case
    using 1 eq by (subst (1 2) extend_match.simps) auto
qed

lemma scan_candidates_cong:
  assumes "\<And>p. p \<in> set cands \<Longrightarrow> p < length (cc_prompt cache) \<Longrightarrow> exact p = exact' p"
    and "\<And>p. ext p = ext' p"
  shows "scan_candidates cache exact ext cands best = scan_candidates cache exact' ext' cands best"
  using assms(1)
  by (induction cands arbitrary: best) (auto simp: Let_def assms(2))

lemma history_token_nth:
  "i < length (cc_prompt cache) + length completion \<Longrightarrow>
     history_token cache completion i = (cc_prompt cache @ completion) ! i"
  by (auto simp: history_token_def nth_append)

lemma completion_key:
  assumes "order \<le> length h" and "\<And>i. i < length h \<Longrightarrow> token i = h ! i"
  shows "fold (\<lambda>index. fnv_mix (token index)) [length h - order..<length h] (fnv_offset XOR of_nat order) =
    fnv_key (drop (length h - order) h)"
proof -
  have "map token [length h - order..<length h] = drop (length h - order) h"
    using assms by (intro nth_equalityI) auto
  then have "fold fnv_mix (drop (length h - order) h) x =
      fold (\<lambda>index. fnv_mix (token index)) [length h - order..<length h] x" for x
    by (metis (no_types, lifting) List.fold_cong comp_apply fold_map)
  then show ?thesis using assms(1) by (simp add: fnv_key_def)
qed

lemma exact_offsets:
  assumes "order \<le> p" "p \<le> length prompt" "order \<le> length h" "\<And>i. i < length h \<Longrightarrow> token i = h ! i"
  shows "list_all (\<lambda>offset. prompt ! (p - order + offset) = token (length h - order + offset)) [0..<order] \<longleftrightarrow>
    take order (drop (p - order) prompt) = drop (length h - order) h"
proof -
  have "length (take order (drop (p - order) prompt)) = order" "length (drop (length h - order) h) = order"
    using assms by auto
  then show ?thesis using assms by (auto simp: list_all_iff list_eq_iff_nth_eq)
qed

lemma propose_completion_eq:
  assumes "context_valid cache"
  shows "propose_completion cache completion n = context_propose cache (cc_prompt cache @ completion) n"
proof (cases "n = 0 \<or> length (cc_prompt cache) + length completion < cc_minimum_order cache")
  case True
  then show ?thesis by (auto simp: propose_completion_def context_propose_def)
next
  case False
  let ?p = "cc_prompt cache" and ?h = "cc_prompt cache @ completion" and ?o = "cc_minimum_order cache"
  have tok: "i < length ?h \<Longrightarrow> history_token cache completion i = ?h ! i" for i
    by (simp add: history_token_nth)
  have len: "?o \<le> length ?h" using False by simp
  note key = completion_key [OF len tok, simplified]
  have "scan_candidates cache
       (\<lambda>position. list_all (\<lambda>offset. ?p ! (position - ?o + offset) =
          history_token cache completion (length ?h - ?o + offset)) [0..<?o])
       (\<lambda>position. extend_match cache (history_token cache completion) (length ?h) position 0)
       (recent_candidates ps) best =
     scan_candidates cache (\<lambda>position. take ?o (drop (position - ?o) ?p) = drop (length ?h - ?o) ?h)
       (\<lambda>position. extend_match cache (\<lambda>i. ?h ! i) (length ?h) position 0) (recent_candidates ps) best"
    if ps: "cc_continuations cache k = Some ps" for k ps best
  proof (rule scan_candidates_cong)
    fix position
    assume "position \<in> set (recent_candidates ps)" and lt: "position < length ?p"
    then have "?o \<le> position"
      using assms ps recent_candidates_subset [of ps]
      by (auto simp: context_valid_def table_positions_def list_all_iff)
    then show "list_all (\<lambda>offset. ?p ! (position - ?o + offset) =
        history_token cache completion (length ?h - ?o + offset)) [0..<?o] =
      (take ?o (drop (position - ?o) ?p) = drop (length ?h - ?o) ?h)"
      using lt len tok by (intro exact_offsets) auto
  qed (rule extend_match_cong, rule tok)
  then show ?thesis
    using False key
    by (auto simp: propose_completion_def context_propose_def Let_def split: option.splits)
qed

interpretation completion_source: proposal_source
  cc_prompt "\<lambda>cache completion. cc_prompt cache @ completion" cc_minimum_order context_valid
  "\<lambda>cache completion n. cp_tokens (propose_completion cache completion n)"
  by unfold_locales (metis context_propose_sound order_refl propose_completion_eq)

subsection \<open>The reported extension\<close>

lemma extend_match_spec:
  "x \<le> cc_maximum_order cache - cc_minimum_order cache \<Longrightarrow>
   x \<le> extend_match cache token n pos x \<and>
   extend_match cache token n pos x \<le> cc_maximum_order cache - cc_minimum_order cache \<and>
   (\<forall>i. x \<le> i \<longrightarrow> i < extend_match cache token n pos x \<longrightarrow>
      cc_minimum_order cache + i < pos \<and> cc_minimum_order cache + i < n \<and>
      cc_prompt cache ! (pos - cc_minimum_order cache - i - 1) = token (n - cc_minimum_order cache - i - 1))"
proof (induction cache token n pos x rule: extend_match.induct)
  case (1 cache token n pos x)
  let ?c = "x < cc_maximum_order cache - cc_minimum_order cache \<and> pos > cc_minimum_order cache + x \<and>
    n > cc_minimum_order cache + x \<and>
    cc_prompt cache ! (pos - cc_minimum_order cache - x - 1) = token (n - cc_minimum_order cache - x - 1)"
  show ?case
  proof (cases ?c)
    case True
    then have step: "extend_match cache token n pos x = extend_match cache token n pos (x + 1)"
      by (subst extend_match.simps) simp
    note IH = 1(1) [OF True]
    have "x = i \<or> x + 1 \<le> i" if "x \<le> i" for i using that by auto
    then show ?thesis unfolding step using IH True by auto
  next
    case False
    then have "extend_match cache token n pos x = x" by (subst extend_match.simps) auto
    then show ?thesis using 1(2) by simp
  qed
qed

lemma scan_candidates_extension:
  assumes "scan_candidates cache exact ext cands best = (p, x)" and "p \<noteq> length (cc_prompt cache)"
    and "fst best = length (cc_prompt cache) \<or> snd best = ext (fst best)"
  shows "x = ext p"
  using assms
  by (induction cache exact ext cands best rule: scan_candidates.induct)
     (auto simp: Let_def split: if_splits)

lemma extended_copy:
  assumes "order \<le> p" "p \<le> length prompt" "order \<le> length h"
    and exact: "take order (drop (p - order) prompt) = drop (length h - order) h"
    and ext: "\<forall>i < e. order + i < p \<and> order + i < length h \<and>
      prompt ! (p - order - i - 1) = h ! (length h - order - i - 1)"
  shows "order + e \<le> p \<and> order + e \<le> length h \<and>
    take (order + e) (drop (p - (order + e)) prompt) = drop (length h - (order + e)) h"
proof -
  have b: "order + e \<le> p" "order + e \<le> length h"
  proof -
    show "order + e \<le> p" using ext [rule_format, of "e - 1"] assms(1) by (cases e) auto
    show "order + e \<le> length h" using ext [rule_format, of "e - 1"] assms(3) by (cases e) auto
  qed
  moreover have "take (order + e) (drop (p - (order + e)) prompt) ! j = drop (length h - (order + e)) h ! j"
    if j: "j < order + e" for j
  proof (cases "j < e")
    case True
    let ?i = "e - 1 - j"
    have "prompt ! (p - order - ?i - 1) = h ! (length h - order - ?i - 1)"
      using ext [rule_format, of ?i] True by simp
    moreover have "p - order - ?i - 1 = p - (order + e) + j"
      "length h - order - ?i - 1 = length h - (order + e) + j"
      using b True by auto
    ultimately show ?thesis using b j assms(2) by simp
  next
    case False
    have "take order (drop (p - order) prompt) ! (j - e) = drop (length h - order) h ! (j - e)"
      using exact by simp
    then have "prompt ! (p - order + (j - e)) = h ! (length h - order + (j - e))"
      using b j False assms(2) by simp
    moreover have "p - order + (j - e) = p - (order + e) + j"
      "length h - order + (j - e) = length h - (order + e) + j"
      using b j False by auto
    ultimately show ?thesis using b j assms(2) by simp
  qed
  ultimately show ?thesis using assms(2) by (auto intro!: nth_equalityI)
qed

text \<open>C19. Whatever the context-copy cache proposes for a completion is an exact copy: the
  proposed tokens stand in the prompt right after an occurrence of the last
  \<open>minimum_order + match_extension\<close> tokens of the conversation, this match never exceeds the
  maximal order, and at most the requested number of tokens is returned.\<close>

theorem context_proposals_are_copies:
  assumes cache: "context_copy_cache prompt lo hi = Inr cache"
    and out: "cp_tokens (propose_completion cache completion n) \<noteq> []"
  shows "copied_after (lo + cp_match_extension (propose_completion cache completion n)) prompt
      (prompt @ completion) n (cp_tokens (propose_completion cache completion n)) \<and>
    lo + cp_match_extension (propose_completion cache completion n) \<le> hi"
proof -
  let ?h = "prompt @ completion"
  have f: "cc_prompt cache = prompt" "cc_minimum_order cache = lo" "cc_maximum_order cache = hi" "lo \<le> hi"
    using cache by (auto simp: context_copy_cache_def split: if_splits)
  have valid: "context_valid cache" by (rule context_copy_cache_valid [OF cache])
  have eq: "propose_completion cache completion n = context_propose cache ?h n"
    using propose_completion_eq [OF valid] f by simp
  let ?suffix = "drop (length ?h - lo) ?h"
  let ?exact = "\<lambda>position. take lo (drop (position - lo) prompt) = ?suffix"
  let ?ext = "\<lambda>position. extend_match cache (\<lambda>i. ?h ! i) (length ?h) position 0"
  from out obtain ps where ps: "cc_continuations cache (fnv_key ?suffix) = Some ps" "lo \<le> length ?h"
    and best: "context_propose cache ?h n =
      best_proposal cache n (scan_candidates cache ?exact ?ext (recent_candidates ps) (length prompt, 0))"
    unfolding eq by (auto simp: context_propose_def no_proposal_def Let_def f split: if_splits option.splits)
  obtain p x where scan: "scan_candidates cache ?exact ?ext (recent_candidates ps) (length prompt, 0) = (p, x)"
    by fastforce
  have p: "p \<noteq> length prompt" using out eq best scan by (auto simp: best_proposal_def no_proposal_def f)
  have ex: "?exact p" and x: "x = ?ext p"
    using scan_candidates_sound [OF scan] scan_candidates_extension [OF scan] p f by auto
  have mem: "p \<in> set ps" "p < length prompt"
    using scan_candidates_member [OF scan] p recent_candidates_subset f by auto
  have lo: "lo \<le> p" using valid ps mem f by (auto simp: context_valid_def table_positions_def list_all_iff)
  note spec = extend_match_spec [of 0 cache "\<lambda>i. ?h ! i" "length ?h" p]
  have "lo + x \<le> p \<and> lo + x \<le> length ?h \<and>
      take (lo + x) (drop (p - (lo + x)) prompt) = drop (length ?h - (lo + x)) ?h"
    using lo mem ps(2) ex spec x f by (intro extended_copy) auto
  moreover have "cp_tokens (context_propose cache ?h n) = take n (drop p prompt)"
      "cp_match_extension (context_propose cache ?h n) = x"
    using best scan p take_min_length [of n "drop p prompt"] by (simp_all add: best_proposal_def Let_def f)
  ultimately show ?thesis using eq spec x mem f unfolding copied_after_def by auto
qed

lemma sample_context:
  assumes "context_copy_cache [7, 7, 8] 1 1 = Inr cache"
  shows "cp_tokens (propose_completion cache [7] 2) = [8]"
proof -
  let ?c = "\<lparr>cc_minimum_order = 1, cc_maximum_order = 1, cc_prompt = [7, 7, 8],
    cc_continuations = [fnv_key [7] \<mapsto> [1, 2]]\<rparr>"
  have "[1..<length [7, 7, 8 :: u32]] = [1, 2]" by (simp add: upt_rec)
  then have cache: "cache = ?c"
    using assms by (auto simp: context_copy_cache_def push_continuation_def Let_def numeral_2_eq_2)
  have "propose_completion ?c [7] 2 = context_propose ?c ([7, 7, 8] @ [7]) 2"
    using propose_completion_eq [OF context_copy_cache_valid [OF assms]] unfolding cache by simp
  then show ?thesis
    unfolding cache
    by (simp add: context_propose_def Let_def recent_candidates_def best_proposal_def extend_match.simps)
qed

theorem context_proposals_are_copies_witness:
  "\<exists>cache. context_copy_cache [7, 7, 8] 1 1 = Inr cache \<and>
    cp_tokens (propose_completion cache [7] 2) = [8] \<and>
    copied_after (1 + cp_match_extension (propose_completion cache [7] 2)) [7, 7, 8]
      ([7, 7, 8] @ [7]) 2 (cp_tokens (propose_completion cache [7] 2))"
proof -
  obtain cache where cache: "context_copy_cache [7, 7, 8] 1 1 = Inr cache"
    by (simp add: context_copy_cache_def)
  show ?thesis
    using cache sample_context [OF cache] context_proposals_are_copies [OF cache, of "[7]" 2] by auto
qed

text \<open>Looking up a completion without building the concatenated conversation is an
  optimisation only: it returns the same proposal as looking up the prompt followed by the
  completion.\<close>

theorem completion_lookup_equals_concatenation:
  assumes "context_copy_cache prompt lo hi = Inr cache"
  shows "propose_completion cache completion n = context_propose cache (prompt @ completion) n"
proof -
  have "cc_prompt cache = prompt"
    using assms by (auto simp: context_copy_cache_def split: if_splits)
  then show ?thesis using propose_completion_eq [OF context_copy_cache_valid [OF assms]] by simp
qed

theorem completion_lookup_equals_concatenation_witness:
  "\<exists>cache. context_copy_cache [7, 8, 9, 7, 8] 2 3 = Inr cache \<and>
    propose_completion cache [9] 4 = context_propose cache ([7, 8, 9, 7, 8] @ [9]) 4"
proof -
  obtain cache where cache: "context_copy_cache [7, 8, 9, 7, 8] 2 3 = Inr cache"
    by (simp add: context_copy_cache_def)
  then show ?thesis using completion_lookup_equals_concatenation [OF cache] by auto
qed

end
