(* ===== verification/Mtp_Policy.thy ===== *)
theory Mtp_Policy
  imports Prelude
begin

text \<open>
  The two policies that steer the learned drafter: \<^verbatim>\<open>src/mtp_depth_policy.cpp\<close> chooses the draft
  depth from the measured acceptance, \<^verbatim>\<open>include/qwen38/mtp_profitability.hpp\<close> decides when a
  request falls back to plain decoding. Counters are \<open>size_t\<close> with the wrap-around written out;
  the profitability guard, whose sums run over a whole request, uses 64-bit words.
\<close>

subsection \<open>Depth policy\<close>

record MtpDepthPolicy =
  dp_maximum_depth :: nat
  dp_depth :: nat
  dp_probing :: bool
  dp_monitoring :: bool
  dp_adaptive_four :: bool
  dp_depth_four_probation_complete :: bool
  dp_promotion_probation_complete :: bool
  dp_probe_rounds :: nat
  dp_probe_accepted :: nat
  dp_monitor_rounds :: nat
  dp_monitor_proposed :: nat
  dp_monitor_accepted :: nat
  dp_monitor_fourth_accepted :: nat
  dp_monitor_losing_windows :: nat
  dp_promotions :: nat
  dp_demotions :: nat

definition adaptive_depth_four_enabled :: "environment \<Rightarrow> bool" where
  "adaptive_depth_four_enabled env \<longleftrightarrow> env ''QWEN38_MTP_ADAPTIVE_DEPTH4'' = Some ''1''"

definition early_demotion_enabled :: "environment \<Rightarrow> bool" where
  "early_demotion_enabled env \<longleftrightarrow> env ''QWEN38_MTP_EARLY_DEMOTION'' = Some ''1''"

definition demotion_enabled :: "environment \<Rightarrow> bool" where
  "demotion_enabled env \<longleftrightarrow> env ''QWEN38_MTP_DEMOTION'' \<noteq> Some ''0''"

definition depth_policy :: "environment \<Rightarrow> nat \<Rightarrow> nat \<Rightarrow> bool \<Rightarrow> MtpDepthPolicy result" where
  "depth_policy env maximum_depth prompt_tokens adaptive_depth_four =
     (let pol = \<lparr>dp_maximum_depth = maximum_depth, dp_depth = maximum_depth, dp_probing = False,
            dp_monitoring = False, dp_adaptive_four = False, dp_depth_four_probation_complete = False,
            dp_promotion_probation_complete = False, dp_probe_rounds = 0, dp_probe_accepted = 0,
            dp_monitor_rounds = 0, dp_monitor_proposed = 0, dp_monitor_accepted = 0,
            dp_monitor_fourth_accepted = 0, dp_monitor_losing_windows = 0, dp_promotions = 0,
            dp_demotions = 0\<rparr>
      in if maximum_depth \<noteq> 0 \<and> (maximum_depth < 2 \<or> maximum_depth > 4) then
           Inl (RuntimeError ''MTP policy depth must be 0 or between 2 and 4'')
         else if maximum_depth = 4 \<and> adaptive_depth_four \<and> prompt_tokens \<le> 2048 then
           Inr (pol\<lparr>dp_adaptive_four := True, dp_monitoring := True\<rparr>)
         else if maximum_depth = 3 then
           let four = (adaptive_depth_four \<or> adaptive_depth_four_enabled env) in
           if four \<and> prompt_tokens \<le> 2048
           then Inr (pol\<lparr>dp_adaptive_four := four, dp_depth := 4, dp_monitoring := True\<rparr>)
           else Inr (pol\<lparr>dp_adaptive_four := four, dp_depth := 2, dp_probing := (prompt_tokens \<le> 2048)\<rparr>)
         else Inr pol)"

definition reset_monitor :: "MtpDepthPolicy \<Rightarrow> MtpDepthPolicy" where
  "reset_monitor pol = pol\<lparr>dp_monitor_rounds := 0, dp_monitor_proposed := 0, dp_monitor_accepted := 0,
     dp_monitor_fourth_accepted := 0\<rparr>"

definition observe_probe :: "nat \<Rightarrow> MtpDepthPolicy \<Rightarrow> MtpDepthPolicy" where
  "observe_probe accepted pol0 =
     (let pol = pol0\<lparr>dp_probe_rounds := sz_add (dp_probe_rounds pol0) 1,
                     dp_probe_accepted := sz_add (dp_probe_accepted pol0) accepted\<rparr>
      in if dp_probe_rounds pol = 8 then
           let pol1 = pol\<lparr>dp_probing := False\<rparr> in
           if dp_probe_accepted pol \<ge> 10 then
             pol1\<lparr>dp_depth := dp_maximum_depth pol, dp_monitoring := True,
                   dp_promotions := sz_add (dp_promotions pol) 1\<rparr>
           else pol1
         else pol)"

definition count_monitor :: "nat \<Rightarrow> nat \<Rightarrow> MtpDepthPolicy \<Rightarrow> MtpDepthPolicy" where
  "count_monitor proposed accepted pol =
     pol\<lparr>dp_monitor_rounds := sz_add (dp_monitor_rounds pol) 1,
         dp_monitor_proposed := sz_add (dp_monitor_proposed pol) proposed,
         dp_monitor_accepted := sz_add (dp_monitor_accepted pol) accepted\<rparr>"

definition observe_depth_four :: "nat \<Rightarrow> nat \<Rightarrow> MtpDepthPolicy \<Rightarrow> MtpDepthPolicy" where
  "observe_depth_four proposed accepted pol0 =
     (let pol1 = count_monitor proposed accepted pol0;
          pol = (if accepted \<ge> 4
                 then pol1\<lparr>dp_monitor_fourth_accepted := sz_add (dp_monitor_fourth_accepted pol1) 1\<rparr>
                 else pol1)
      in if \<not> dp_depth_four_probation_complete pol \<and> dp_monitor_rounds pol = 4 \<and>
            sz_mul (dp_monitor_fourth_accepted pol) 2 < 4 then
           reset_monitor (pol\<lparr>dp_depth := 3, dp_demotions := sz_add (dp_demotions pol) 1\<rparr>)
         else
           let pol2 = (if dp_monitor_rounds pol = 4
                       then pol\<lparr>dp_depth_four_probation_complete := True\<rparr> else pol)
           in if dp_monitor_rounds pol2 = 8 then
                reset_monitor (if sz_mul (dp_monitor_fourth_accepted pol2) 2 < 8
                  then pol2\<lparr>dp_depth := 3, dp_demotions := sz_add (dp_demotions pol2) 1\<rparr> else pol2)
              else pol2)"

definition observe_depth_three :: "environment \<Rightarrow> nat \<Rightarrow> nat \<Rightarrow> MtpDepthPolicy \<Rightarrow> MtpDepthPolicy" where
  "observe_depth_three env proposed accepted pol0 =
     (let pol = count_monitor proposed accepted pol0;
          losing = (sz_mul (dp_monitor_accepted pol) 2 < dp_monitor_proposed pol);
          demote = (\<lambda>pol. pol\<lparr>dp_depth := 2, dp_monitoring := False,
                              dp_demotions := sz_add (dp_demotions pol) 1\<rparr>)
      in if \<not> dp_promotion_probation_complete pol \<and> early_demotion_enabled env \<and>
            dp_monitor_rounds pol = 4 \<and> losing then demote pol
         else
           let pol2 = (if dp_monitor_rounds pol = 4
                       then pol\<lparr>dp_promotion_probation_complete := True\<rparr> else pol)
           in if dp_monitor_rounds pol2 = 12 then
                let pol3 = (if losing then
                              let pol' = pol2\<lparr>dp_monitor_losing_windows :=
                                    sz_add (dp_monitor_losing_windows pol2) 1\<rparr>
                              in if dp_monitor_losing_windows pol' = 2 then demote pol' else pol'
                            else pol2\<lparr>dp_monitor_losing_windows := 0\<rparr>)
                in pol3\<lparr>dp_monitor_rounds := 0, dp_monitor_proposed := 0, dp_monitor_accepted := 0\<rparr>
              else pol2)"

definition depth_observe :: "environment \<Rightarrow> nat \<Rightarrow> nat \<Rightarrow> MtpDepthPolicy \<Rightarrow> MtpDepthPolicy result" where
  "depth_observe env proposed accepted pol =
     (if accepted > proposed then Inl (RuntimeError ''MTP accepted count exceeds proposals'')
      else if dp_depth pol = 0 \<or> proposed = 0 then Inr pol
      else if dp_probing pol then Inr (observe_probe accepted pol)
      else if \<not> dp_monitoring pol \<or> \<not> demotion_enabled env then Inr pol
      else if dp_adaptive_four pol \<and> dp_depth pol = 4 then Inr (observe_depth_four proposed accepted pol)
      else if dp_depth pol \<noteq> 3 then Inr pol
      else Inr (observe_depth_three env proposed accepted pol))"

text \<open>Observations of one request, with an environment that may differ from call to call.\<close>

inductive depth_step :: "MtpDepthPolicy \<Rightarrow> MtpDepthPolicy \<Rightarrow> bool" where
  observe: "depth_observe env proposed accepted pol = Inr pol' \<Longrightarrow> depth_step pol pol'"

inductive_cases depth_stepE: "depth_step pol pol'"

text \<open>
  The depth stays usable, the counters that are compared with \<open>==\<close> stay below the compared
  limits, and the numbers of promotions and demotions follow the few transitions there are.
\<close>

definition depth_inv :: "MtpDepthPolicy \<Rightarrow> bool" where
  "depth_inv pol \<longleftrightarrow>
     dp_maximum_depth pol \<in> {0, 2, 3, 4} \<and> dp_depth pol \<in> {0, 2, 3, 4} \<and>
     (dp_depth pol = 0 \<longleftrightarrow> dp_maximum_depth pol = 0) \<and>
     (dp_probing pol \<longrightarrow> dp_maximum_depth pol = 3 \<and> dp_depth pol = 2 \<and> \<not> dp_monitoring pol \<and>
        dp_probe_rounds pol < 8 \<and> dp_promotions pol = 0 \<and> dp_demotions pol = 0 \<and>
        dp_monitor_rounds pol = 0 \<and> dp_monitor_losing_windows pol = 0) \<and>
     (dp_monitoring pol \<longrightarrow> dp_depth pol \<in> {3, 4} \<and>
        (dp_depth pol = 4 \<longrightarrow> dp_promotions pol = 0 \<and> dp_demotions pol = 0) \<and>
        dp_promotions pol + dp_demotions pol \<le> 1 \<and>
        dp_monitor_losing_windows pol < 2 \<and>
        (if dp_adaptive_four pol \<and> dp_depth pol = 4 then dp_monitor_rounds pol < 8
         else dp_depth pol = 3 \<and> dp_monitor_rounds pol < 12)) \<and>
     dp_promotions pol \<le> 1 \<and> dp_demotions pol \<le> 2 \<and> dp_promotions pol + dp_demotions pol \<le> 2"

lemma depth_inv_init:
  "depth_policy env m n four = Inr pol \<Longrightarrow> depth_inv pol"
  by (auto simp: depth_policy_def depth_inv_def Let_def split: if_splits)

lemma sz_add_one_small: "a < 100 \<Longrightarrow> sz_add a (Suc 0) = Suc a"
  by (simp add: sz_add_def)

lemma observe_probe_inv:
  "depth_inv pol \<Longrightarrow> dp_probing pol \<Longrightarrow> depth_inv (observe_probe a pol)"
  by (auto simp: depth_inv_def observe_probe_def Let_def sz_add_one_small)

lemma observe_depth_four_inv:
  "depth_inv pol \<Longrightarrow> dp_monitoring pol \<Longrightarrow> \<not> dp_probing pol \<Longrightarrow> dp_adaptive_four pol \<Longrightarrow> dp_depth pol = 4 \<Longrightarrow>
     depth_inv (observe_depth_four p a pol)"
  by (auto simp: depth_inv_def observe_depth_four_def count_monitor_def reset_monitor_def Let_def
      sz_add_one_small)

lemma observe_depth_three_inv:
  "depth_inv pol \<Longrightarrow> dp_monitoring pol \<Longrightarrow> \<not> dp_probing pol \<Longrightarrow> dp_depth pol = 3 \<Longrightarrow>
     depth_inv (observe_depth_three env p a pol)"
  by (auto simp: depth_inv_def observe_depth_three_def count_monitor_def Let_def sz_add_one_small)

lemma depth_inv_step [inv_intros]: "depth_inv pol \<Longrightarrow> depth_step pol pol' \<Longrightarrow> depth_inv pol'"
  by (erule depth_stepE)
     (auto simp: depth_observe_def observe_probe_inv observe_depth_four_inv observe_depth_three_inv
       split: if_splits)

interpretation depth_system: invariant_system
  "\<lambda>pol. depth_policy env m n four = Inr pol" depth_step depth_inv for env m n four
  by unfold_locales (auto intro: depth_inv_init inv_intros)

text \<open>Whatever acceptance is observed, the depth policy only ever asks for a depth the
  round runner accepts: 0 exactly when drafting is off, and 2, 3 or 4 otherwise. It promotes at
  most once, demotes at most twice, and changes the depth at most twice in all.\<close>

theorem depth_policy_stays_usable:
  assumes "depth_policy env m n four = Inr pol0" and "depth_step\<^sup>*\<^sup>* pol0 pol"
  shows "dp_depth pol \<in> {0, 2, 3, 4} \<and> (dp_depth pol = 0 \<longleftrightarrow> dp_maximum_depth pol = 0) \<and>
    dp_promotions pol \<le> 1 \<and> dp_demotions pol \<le> 2 \<and> dp_promotions pol + dp_demotions pol \<le> 2"
  using depth_system.inv_reachable [OF assms] by (auto simp: depth_inv_def)

theorem depth_policy_stays_usable_witness:
  "\<exists>pol0 pol. depth_policy (\<lambda>_. None) 3 100 False = Inr pol0 \<and> depth_step\<^sup>*\<^sup>* pol0 pol \<and>
    dp_probe_accepted pol = 2 \<and> dp_depth pol \<in> {0, 2, 3, 4}"
proof -
  obtain pol0 where pol0: "depth_policy (\<lambda>_. None) 3 100 False = Inr pol0"
    by (simp add: depth_policy_def adaptive_depth_four_enabled_def)
  obtain pol where pol: "depth_observe (\<lambda>_. None) 2 2 pol0 = Inr pol" "dp_probe_accepted pol = 2"
    using pol0 by (auto simp: depth_policy_def depth_observe_def observe_probe_def
        adaptive_depth_four_enabled_def sz_add_def)
  then have "depth_step\<^sup>*\<^sup>* pol0 pol" by (intro r_into_rtranclp depth_step.observe)
  with pol0 pol depth_policy_stays_usable [OF pol0 this] show ?thesis by blast
qed

subsection \<open>Profitability guard\<close>

definition should_fallback_mtp :: "u64 \<Rightarrow> u64 \<Rightarrow> u64 \<Rightarrow> u64 \<Rightarrow> bool" where
  "should_fallback_mtp zero_accept_streak fallback_streak rounds accepted \<longleftrightarrow>
     zero_accept_streak \<ge> fallback_streak \<and> accepted < rounds"

definition cache_mtp_as_profitable :: "u64 \<Rightarrow> u64 \<Rightarrow> u64 \<Rightarrow> bool" where
  "cache_mtp_as_profitable rounds accepted fallbacks \<longleftrightarrow>
     fallbacks = 0 \<or> (rounds \<noteq> 0 \<and> accepted \<ge> rounds)"

record MtpProfitabilityGuard =
  pg_accepted_window :: "u64 list"
  pg_rounds :: u64
  pg_total_accepted :: u64
  pg_window_rows :: nat
  pg_window_accepted :: u64
  pg_cursor :: nat
  pg_zero_accept_streak :: u64

definition guard_init :: MtpProfitabilityGuard where
  "guard_init = \<lparr>pg_accepted_window = replicate 16 0, pg_rounds = 0, pg_total_accepted = 0,
     pg_window_rows = 0, pg_window_accepted = 0, pg_cursor = 0, pg_zero_accept_streak = 0\<rparr>"

definition guard_observe :: "u64 \<Rightarrow> MtpProfitabilityGuard \<Rightarrow> MtpProfitabilityGuard" where
  "guard_observe accepted g0 =
     (let g = g0\<lparr>pg_zero_accept_streak := (if accepted = 0 then pg_zero_accept_streak g0 + 1 else 0),
                 pg_rounds := pg_rounds g0 + 1, pg_total_accepted := pg_total_accepted g0 + accepted\<rparr>
      in if pg_window_rows g < 16 then
           g\<lparr>pg_accepted_window := (pg_accepted_window g)[pg_window_rows g := accepted],
             pg_window_rows := pg_window_rows g + 1,
             pg_window_accepted := pg_window_accepted g + accepted\<rparr>
         else
           g\<lparr>pg_accepted_window := (pg_accepted_window g)[pg_cursor g := accepted],
             pg_window_accepted :=
               pg_window_accepted g - pg_accepted_window g ! pg_cursor g + accepted,
             pg_cursor := (pg_cursor g + 1) mod 16\<rparr>)"

definition guard_should_fallback :: "u64 \<Rightarrow> MtpProfitabilityGuard \<Rightarrow> bool" where
  "guard_should_fallback fallback_streak g \<longleftrightarrow>
     (if pg_window_rows g < 16
      then should_fallback_mtp (pg_zero_accept_streak g) fallback_streak (pg_rounds g) (pg_total_accepted g)
      else pg_window_accepted g < 16)"

text \<open>
  The specification keeps the whole list of observations. The ring buffer is the last sixteen of
  them, rotated by the cursor.
\<close>

definition last_n :: "nat \<Rightarrow> 'a list \<Rightarrow> 'a list" where
  "last_n n xs = drop (length xs - n) xs"

definition zero_streak :: "u64 list \<Rightarrow> nat" where
  "zero_streak xs = length (takeWhile (\<lambda>a. a = 0) (rev xs))"

definition guard_spec :: "u64 \<Rightarrow> u64 list \<Rightarrow> bool" where
  "guard_spec fallback_streak xs \<longleftrightarrow>
     (if length xs < 16
      then of_nat (zero_streak xs) \<ge> fallback_streak \<and> sum_list xs < of_nat (length xs)
      else sum_list (last_n 16 xs) < 16)"

definition guard_abs :: "u64 list \<Rightarrow> MtpProfitabilityGuard \<Rightarrow> bool" where
  "guard_abs xs g \<longleftrightarrow>
     length (pg_accepted_window g) = 16 \<and> pg_rounds g = of_nat (length xs) \<and>
     pg_total_accepted g = sum_list xs \<and> pg_window_rows g = min 16 (length xs) \<and>
     pg_window_accepted g = sum_list (last_n 16 xs) \<and>
     pg_zero_accept_streak g = of_nat (zero_streak xs) \<and> pg_cursor g < 16 \<and>
     (if length xs < 16 then pg_cursor g = 0 \<and> take (length xs) (pg_accepted_window g) = xs
      else rotate (pg_cursor g) (pg_accepted_window g) = last_n 16 xs)"

lemma zero_streak_snoc: "zero_streak (xs @ [a]) = (if a = 0 then zero_streak xs + 1 else 0)"
  by (simp add: zero_streak_def)

lemma last_n_snoc_short: "length xs < n \<Longrightarrow> last_n n (xs @ [a]) = xs @ [a]"
  by (simp add: last_n_def)

lemma last_n_snoc_full: "n \<le> length xs \<Longrightarrow> 0 < n \<Longrightarrow> last_n n (xs @ [a]) = tl (last_n n xs) @ [a]"
  by (simp add: last_n_def drop_Suc [symmetric] tl_drop Suc_diff_le)

lemma last_n_short: "length xs \<le> n \<Longrightarrow> last_n n xs = xs"
  by (simp add: last_n_def)

lemma rotate_update:
  assumes "length xs = n" and "c < n" and "rotate c xs = ys"
  shows "rotate ((c + 1) mod n) (xs[c := a]) = tl ys @ [a]"
proof (rule nth_equalityI)
  show "length (rotate ((c + 1) mod n) (xs[c := a])) = length (tl ys @ [a])"
    using assms by auto
  fix i
  assume "i < length (rotate ((c + 1) mod n) (xs[c := a]))"
  then have i: "i < n" using assms by simp
  have ys: "ys ! j = xs ! ((c + j) mod n)" if "j < n" for j
    using assms that nth_rotate [of j xs c] by simp
  have l: "rotate ((c + 1) mod n) (xs[c := a]) ! i = xs[c := a] ! ((c + 1 + i) mod n)"
    using nth_rotate [of i "xs[c := a]" "(c + 1) mod n"] i assms(1)
    by (simp add: mod_add_left_eq)
  show "rotate ((c + 1) mod n) (xs[c := a]) ! i = (tl ys @ [a]) ! i"
  proof (cases "i = n - 1")
    case True
    then have "(c + 1 + i) mod n = c" using assms(2) by simp
    then show ?thesis using l True assms by (auto simp: nth_append)
  next
    case False
    then have lt: "i + 1 < n" using i by auto
    have "(c + 1 + i) mod n \<noteq> c"
    proof (cases "c + 1 + i < n")
      case True
      then show ?thesis by simp
    next
      case False
      then have "(c + 1 + i) mod n = c + 1 + i - n" using lt assms(2) by (simp add: le_mod_geq)
      then show ?thesis using lt False by auto
    qed
    then have "rotate ((c + 1) mod n) (xs[c := a]) ! i = ys ! (i + 1)"
      using l ys [OF lt] by (simp add: add.assoc add.commute)
    then show ?thesis using lt assms by (auto simp: nth_append nth_tl)
  qed
qed

lemma rotate_nth_cursor:
  assumes "length xs = n" and "c < n" and "rotate c xs = ys"
  shows "xs ! c = hd ys"
proof -
  have "ys ! 0 = xs ! c" using nth_rotate [of 0 xs c] assms by auto
  moreover have "ys \<noteq> []" using assms by auto
  ultimately show ?thesis by (simp add: hd_conv_nth)
qed

lemma guard_abs_init: "guard_abs [] guard_init"
  by (simp add: guard_abs_def guard_init_def zero_streak_def last_n_def)

lemma guard_abs_observe:
  assumes "guard_abs xs g"
  shows "guard_abs (xs @ [a]) (guard_observe a g)"
proof (cases "length xs < 16")
  case True
  have t: "take (Suc (length xs)) ((pg_accepted_window g)[length xs := a]) = xs @ [a]"
    using assms True by (simp add: guard_abs_def take_Suc_conv_app_nth)
  have r: "(pg_accepted_window g)[length xs := a] = xs @ [a]" if "Suc (length xs) = 16"
    using t that assms by (simp add: guard_abs_def)
  show ?thesis
    using assms True t r
    by (auto simp: guard_abs_def guard_observe_def Let_def zero_streak_snoc last_n_snoc_short last_n_short
        algebra_simps)
next
  case False
  let ?ys = "last_n 16 xs"
  have rot: "rotate (pg_cursor g) (pg_accepted_window g) = ?ys" and len: "length (pg_accepted_window g) = 16"
    and c: "pg_cursor g < 16"
    using assms False by (auto simp: guard_abs_def)
  have ne: "?ys \<noteq> []" using rot len by auto
  have "sum_list (tl ?ys @ [a]) = sum_list ?ys - pg_accepted_window g ! pg_cursor g + a"
    using rotate_nth_cursor [OF len c rot] ne by (cases ?ys) auto
  moreover have "last_n 16 (xs @ [a]) = tl ?ys @ [a]" using False by (simp add: last_n_snoc_full)
  ultimately show ?thesis
    using assms False rotate_update [OF len c rot, of a]
    by (auto simp: guard_abs_def guard_observe_def Let_def zero_streak_snoc algebra_simps)
qed

lemma guard_abs_run: "guard_abs xs (fold guard_observe xs guard_init)"
proof (induction xs rule: rev_induct)
  case Nil
  then show ?case by (simp add: guard_abs_init)
next
  case (snoc a xs)
  then show ?case using guard_abs_observe by simp
qed

text \<open>C20. The profitability guard with its ring buffer implements its specification over the
  whole list of observations: after any observations it decides to fall back exactly when, with
  fewer than sixteen rounds, the streak of empty rounds has reached the threshold and fewer tokens
  than rounds were accepted, and from then on exactly when the last sixteen rounds accepted
  fewer than sixteen tokens.\<close>

theorem profitability_guard_refines_spec:
  "guard_should_fallback k (fold guard_observe xs guard_init) \<longleftrightarrow> guard_spec k xs"
  using guard_abs_run [of xs]
  by (auto simp: guard_abs_def guard_should_fallback_def guard_spec_def should_fallback_mtp_def)

end
