(* ===== verification/Runtime_Profile.thy ===== *)
theory Runtime_Profile
  imports Target_Model Mtp_Policy
begin

text \<open>
  \<^verbatim>\<open>runtime_profile.cpp\<close>: the environment defaults of the production server and of the developer
  profiles, and the choice of prefill chunk rows.
\<close>

subsection \<open>Environment defaults\<close>

text \<open>
  \<open>setenv\<close> without overwrite keeps a variable that is set; it fails when the process cannot
  allocate the new entry, which \<open>full\<close> decides per variable.
\<close>

definition set_environment_default ::
    "(string \<Rightarrow> bool) \<Rightarrow> string \<Rightarrow> string \<Rightarrow> environment \<Rightarrow> unit result \<times> environment" where
  "set_environment_default full name value env =
     (if env name \<noteq> None then (Inr (), env)
      else if full name then
        (Inl (RuntimeError (''cannot set runtime profile option '' @ name)), env)
      else (Inr (), env(name \<mapsto> value)))"

fun set_defaults ::
    "(string \<Rightarrow> bool) \<Rightarrow> (string \<times> string) list \<Rightarrow> environment \<Rightarrow> unit result \<times> environment" where
  "set_defaults full [] env = (Inr (), env)"
| "set_defaults full ((name, value) # rest) env =
     (case set_environment_default full name value env of
        (Inl e, env') \<Rightarrow> (Inl e, env')
      | (Inr _, env') \<Rightarrow> set_defaults full rest env')"

record AutomaticRuntimeConfig =
  ar_allocator_cache_mib :: nat
  ar_resident_expert_range :: string

definition automatic_runtime_config :: AutomaticRuntimeConfig where
  "automatic_runtime_config = \<lparr>ar_allocator_cache_mib = 256, ar_resident_expert_range = ''12:29''\<rparr>"

definition automatic_settings :: "(string \<times> string) list" where
  "automatic_settings =
    [(''QWEN38_RESIDENT_EXPERT_RANGE'', ar_resident_expert_range automatic_runtime_config),
     (''QWEN38_FUSED_MOE'', ''1''),
     (''QWEN38_DEVICE_ROUTER'', ''1''),
     (''QWEN38_COMPILE_LAYER'', ''1''),
     (''QWEN38_HC_FUSED'', ''1''),
     (''QWEN38_HC_FUSED_INJECTION'', ''1''),
     (''QWEN38_GDN_NORM_GATE'', ''1''),
     (''QWEN38_GDN_PREWORK'', ''1''),
     (''QWEN38_GDN_BRANCH_BATCH'', ''1''),
     (''QWEN38_ATTENTION_BRANCH_BATCH'', ''1''),
     (''QWEN38_HC_EXACT_BRANCH_BATCH'', ''1''),
     (''QWEN38_VQ_BRANCH_BATCH'', ''1''),
     (''QWEN38_PAIR_WIDE_BATCH'', ''1''),
     (''QWEN38_VQ_WIDE_BRANCH_BATCH'', ''1''),
     (''QWEN38_VQ_FUSED_SHARED_MERGE'', ''1''),
     (''QWEN38_GDN_METAL_VERIFY_BF16_SUM'', ''1''),
     (''QWEN38_COMPACT_GDN_ROLLBACK'', ''1''),
     (''QWEN38_BATCH_KV_VERIFY'', ''1''),
     (''QWEN38_SDPA_PREFILL'', ''1''),
     (''QWEN38_GDN_METAL_PREFILL'', ''1''),
     (''QWEN38_GROUPED_PREFILL'', ''1''),
     (''QWEN38_PREFILL_BARRIER_STRIDE'', ''8''),
     (''QWEN38_DECODE_BARRIER_STRIDE'', ''48''),
     (''QWEN38_SELECTED_SOFTMAX_ROUTER'', ''1''),
     (''QWEN38_MTP_EARLY_DEMOTION'', ''1''),
     (''QWEN38_MTP_DEMOTION'', ''1''),
     (''QWEN38_Q8_EXACT_MOE'', ''1''),
     (''QWEN38_Q6_EXACT_MOE'', ''1''),
     (''QWEN38_MTP_CUMULATIVE_PROFITABILITY_CACHE'', ''1''),
     (''QWEN38_EXTEND_PREFIX_CACHE'', ''1''),
     (''QWEN38_QSA_DECODE_BUDGET'', ''512''),
     (''QWEN38_QSA_RAW_WINDOW'', ''64'')]"

definition apply_automatic_runtime_config ::
    "(string \<Rightarrow> bool) \<Rightarrow> environment \<Rightarrow> unit result \<times> environment" where
  "apply_automatic_runtime_config full env = set_defaults full automatic_settings env"

definition profile_range :: "string \<Rightarrow> string option" where
  "profile_range profile =
     (if profile = ''speed'' then Some ''12:28''
      else if profile = ''turbo'' then Some ''12:29''
      else if profile = ''latency'' then Some ''12:34''
      else if profile = ''long-context'' \<or> profile = ''memory'' then Some ''''
      else None)"

definition profile_extras :: "string \<Rightarrow> (string \<times> string) list" where
  "profile_extras profile =
     (if profile = ''memory'' then
        [(''QWEN38_COMPACT_QMETA'', ''lossless13''),
         (''QWEN38_QMETA_PREFILL_CACHE'', ''0''),
         (''QWEN38_QMETA_PREFILL_DEFER_TEMPORARY'', ''1''),
         (''QWEN38_QSA_PACKED_PREFILL'', ''1'')]
      else if profile = ''turbo'' then
        [(''QWEN38_COMPACT_QMETA'', ''lossy9''),
         (''QWEN38_TARGET_TOPK'', ''8''),
         (''QWEN38_QMETA_PREFILL_DEFER_TEMPORARY'', ''1''),
         (''QWEN38_QSA_PACKED_PREFILL'', ''1''),
         (''QWEN38_QSA_PACKED_MIN_TOKENS'', ''16384'')]
      else [])"

definition apply_runtime_profile ::
    "(string \<Rightarrow> bool) \<Rightarrow> string \<Rightarrow> environment \<Rightarrow> unit result \<times> environment" where
  "apply_runtime_profile full profile env =
     (if profile = ''safe'' then (Inr (), env)
      else
        case profile_range profile of
          None \<Rightarrow> (Inl (RuntimeError (''invalid developer profile: '' @ profile)), env)
        | Some resident_range \<Rightarrow>
            (case set_environment_default full ''QWEN38_RESIDENT_EXPERT_RANGE'' resident_range env of
               (Inl e, env1) \<Rightarrow> (Inl e, env1)
             | (Inr _, env1) \<Rightarrow>
                 (case apply_automatic_runtime_config full env1 of
                    (Inl e, env2) \<Rightarrow> (Inl e, env2)
                  | (Inr _, env2) \<Rightarrow> set_defaults full (profile_extras profile) env2)))"

lemma set_defaults_append:
  "set_defaults full (xs @ ys) env =
     (case set_defaults full xs env of
        (Inl e, env') \<Rightarrow> (Inl e, env')
      | (Inr _, env') \<Rightarrow> set_defaults full ys env')"
  by (induction xs arbitrary: env) (auto split: prod.splits sum.splits)

text \<open>A profile is one list of defaults.\<close>

definition profile_settings :: "string \<Rightarrow> string \<Rightarrow> (string \<times> string) list" where
  "profile_settings profile resident_range =
     (''QWEN38_RESIDENT_EXPERT_RANGE'', resident_range) # automatic_settings @ profile_extras profile"

lemma apply_runtime_profile_settings:
  "profile \<noteq> ''safe'' \<Longrightarrow> profile_range profile = Some rng \<Longrightarrow>
    apply_runtime_profile full profile env = set_defaults full (profile_settings profile rng) env"
  by (auto simp: apply_runtime_profile_def profile_settings_def apply_automatic_runtime_config_def
      set_defaults_append split: prod.splits sum.splits)

text \<open>A list of defaults adds a prefix of itself below the environment, the whole list on success.\<close>

lemma set_defaults_map:
  assumes "set_defaults full ss env = (r, env')"
  shows "\<exists>k. env' = map_of (take k ss) ++ env \<and> (r = Inr () \<longrightarrow> env' = map_of ss ++ env)"
  using assms
proof (induction ss arbitrary: env)
  case Nil
  then show ?case by auto
next
  case (Cons s ss)
  obtain name val where s: "s = (name, val)" by fastforce
  consider (kept) "env name \<noteq> None" | (full) "env name = None" "full name"
    | (added) "env name = None" "\<not> full name" by blast
  then show ?case
  proof cases
    case kept
    with Cons.prems s have "set_defaults full ss env = (r, env')" by (simp add: set_environment_default_def)
    then obtain k where k: "env' = map_of (take k ss) ++ env" "r = Inr () \<longrightarrow> env' = map_of ss ++ env"
      using Cons.IH by blast
    have "map_of (s # xs) ++ env = map_of xs ++ env" for xs
      using kept s by (auto simp: map_add_def fun_eq_iff split: option.splits)
    with k show ?thesis by (metis take_Suc_Cons)
  next
    case full
    with Cons.prems s show ?thesis
      by (intro exI [of _ 0]) (auto simp: set_environment_default_def map_add_def)
  next
    case added
    with Cons.prems s have "set_defaults full ss (env(name \<mapsto> val)) = (r, env')"
      by (simp add: set_environment_default_def)
    then obtain k where k: "env' = map_of (take k ss) ++ env(name \<mapsto> val)"
      "r = Inr () \<longrightarrow> env' = map_of ss ++ env(name \<mapsto> val)"
      using Cons.IH by blast
    have "map_of (s # xs) ++ env = map_of xs ++ env(name \<mapsto> val)" for xs
      using added s by (auto simp: map_add_def fun_eq_iff split: option.splits)
    with k show ?thesis by (metis take_Suc_Cons)
  qed
qed

text \<open>C24. A profile only adds defaults: whatever profile is applied and whichever allocation
  fails, a variable the user has set keeps its value, an unknown profile is rejected without
  touching the environment, and after success of a known profile other than \<open>safe\<close> the
  barrier strides are the tuned ones unless the user chose them, and demotion of the draft
  depth is on unless the user turned it off.\<close>

theorem profile_keeps_user_settings:
  assumes "apply_runtime_profile full profile env = (r, env')"
  shows "(env name = Some v \<longrightarrow> env' name = Some v) \<and>
    (profile \<noteq> ''safe'' \<and> profile_range profile = None \<longrightarrow>
       r = Inl (RuntimeError (''invalid developer profile: '' @ profile)) \<and> env' = env) \<and>
    (r = Inr () \<and> profile \<noteq> ''safe'' \<longrightarrow>
       prefill_barrier_stride env' =
         (if env ''QWEN38_PREFILL_BARRIER_STRIDE'' = None then Inr 8 else prefill_barrier_stride env) \<and>
       decode_barrier_stride env' =
         (if env ''QWEN38_DECODE_BARRIER_STRIDE'' = None then Inr 48 else decode_barrier_stride env) \<and>
       demotion_enabled env' = demotion_enabled env)"
proof (cases "profile = ''safe''")
  case True
  then show ?thesis using assms by (simp add: apply_runtime_profile_def)
next
  case False
  show ?thesis
  proof (cases "profile_range profile")
    case None
    then show ?thesis using assms False by (auto simp: apply_runtime_profile_def)
  next
    case (Some rng)
    let ?ss = "profile_settings profile rng"
    have "set_defaults full ?ss env = (r, env')"
      using assms apply_runtime_profile_settings [OF False Some] by simp
    then obtain k where k: "env' = map_of (take k ?ss) ++ env" and ok: "r = Inr () \<longrightarrow> env' = map_of ?ss ++ env"
      using set_defaults_map by blast
    have vals: "map_of ?ss ''QWEN38_PREFILL_BARRIER_STRIDE'' = Some ''8''"
      "map_of ?ss ''QWEN38_DECODE_BARRIER_STRIDE'' = Some ''48''"
      "map_of ?ss ''QWEN38_MTP_DEMOTION'' = Some ''1''"
      by (simp_all add: profile_settings_def automatic_settings_def)
    have "strtoul10 ''8'' = Some (8, [])" "strtoul10 ''48'' = Some (48, [])"
      by (simp_all add: strtoul10_def is_space_char_def is_digit_char_def digits_value_def
          digit_value_def SIZE_MAX_def)
    then show ?thesis
      using k ok Some vals
      by (auto simp: prefill_barrier_stride_def decode_barrier_stride_def barrier_stride_def
          demotion_enabled_def map_add_def split: option.splits)
  qed
qed

theorem profile_keeps_user_settings_witness:
  "\<exists>env'. apply_runtime_profile (\<lambda>_. False) ''turbo'' [''QWEN38_TARGET_TOPK'' \<mapsto> ''4''] = (Inr (), env') \<and>
     env' ''QWEN38_TARGET_TOPK'' = Some ''4'' \<and> prefill_barrier_stride env' = Inr 8"
proof -
  let ?env = "[''QWEN38_TARGET_TOPK'' \<mapsto> ''4''] :: environment"
  have none: "fst (set_defaults (\<lambda>_. False) ss e) = Inr ()" for ss e
    by (induction ss arbitrary: e) (auto simp: set_environment_default_def)
  have "fst (apply_runtime_profile (\<lambda>_. False) ''turbo'' ?env) = Inr ()"
    using apply_runtime_profile_settings [of "''turbo''" "''12:29''" "\<lambda>_. False" ?env]
    by (simp add: none profile_range_def)
  then obtain env' where e: "apply_runtime_profile (\<lambda>_. False) ''turbo'' ?env = (Inr (), env')"
    by (metis prod.collapse)
  show ?thesis using e profile_keeps_user_settings [OF e, of "''QWEN38_TARGET_TOPK''" "''4''"] by simp
qed

subsection \<open>Prefill chunk rows\<close>

definition select_prefill_chunk_rows :: "nat \<Rightarrow> nat \<Rightarrow> nat result" where
  "select_prefill_chunk_rows configured_rows prompt_rows =
     (if configured_rows = 0 \<or> configured_rows > 2048 then
        Inl (RuntimeError ''prefill chunk rows must be between 1 and 2048'')
      else if configured_rows \<le> 256 \<or> prompt_rows \<le> 32768 then Inr configured_rows
      else if configured_rows \<le> 512 \<and> prompt_rows \<le> 66048 then Inr configured_rows
      else if configured_rows > 512 then Inr 512
      else Inr 128)"

text \<open>The chosen chunk size is usable and shrinks with the prompt: a valid configuration
  always yields between one and the configured number of rows, at most 512 once the prompt
  passes 32768 rows, and a longer prompt never gets larger chunks.\<close>

theorem prefill_chunk_rows_bounded:
  assumes "0 < configured" and "configured \<le> 2048" and "prompt \<le> longer"
  shows "\<exists>rows rows'. select_prefill_chunk_rows configured prompt = Inr rows \<and>
    select_prefill_chunk_rows configured longer = Inr rows' \<and>
    0 < rows' \<and> rows' \<le> rows \<and> rows \<le> configured \<and> (32768 < prompt \<longrightarrow> rows \<le> 512)"
  using assms by (auto simp: select_prefill_chunk_rows_def)

theorem prefill_chunk_rows_bounded_witness:
  "\<exists>rows rows'. select_prefill_chunk_rows 512 66048 = Inr rows \<and>
    select_prefill_chunk_rows 512 66049 = Inr rows' \<and> rows' \<le> rows"
  using prefill_chunk_rows_bounded [of 512 66048 66049] by auto

end
