(* ===== verification/Json.thy ===== *)
theory Json
  imports Prelude "HOL-Library.Char_ord" "HOL-Library.List_Lexorder"
begin

text \<open>
  \<^verbatim>\<open>json.cpp\<close>: the JSON values, the recursive-descent parser and the serializer that the API, the
  tokenizer and the checkpoint readers share.

  The parser's state is its cursor; the model threads the input that is left, and the cursor of
  an error message is the length of the source less the length of what is left. Strings are byte
  strings. Objects are hash maps whose iteration order is unspecified: association lists here,
  with new keys at the end. Floating-point conversion is the C library's: \<open>strtod\<close> (\<open>None\<close> when the
  value is not finite) and \<open>to_chars\<close> with 17 significant digits are the two fields of
  \<open>double_conversion\<close>, over a type \<open>'d\<close> of doubles.
\<close>

unbundle bit_operations_syntax

subsection \<open>Values\<close>

datatype 'd Json =
    JNull
  | JBool bool
  | JInt int
  | JDouble 'd
  | JString string
  | JArray "'d Json list"
  | JObject "(string \<times> 'd Json) list"

record 'd double_conversion =
  dc_strtod :: "string \<Rightarrow> 'd option"
  dc_to_chars :: "'d \<Rightarrow> string option"

fun is_null :: "'d Json \<Rightarrow> bool" where
  "is_null JNull = True"
| "is_null _ = False"

fun is_object :: "'d Json \<Rightarrow> bool" where
  "is_object (JObject _) = True"
| "is_object _ = False"

fun is_array :: "'d Json \<Rightarrow> bool" where
  "is_array (JArray _) = True"
| "is_array _ = False"

fun is_string :: "'d Json \<Rightarrow> bool" where
  "is_string (JString _) = True"
| "is_string _ = False"

definition not_kind :: "string \<Rightarrow> error" where
  "not_kind expected = RuntimeError (''JSON value is not '' @ expected)"

fun as_object :: "'d Json \<Rightarrow> (string \<times> 'd Json) list result" where
  "as_object (JObject members) = Inr members"
| "as_object _ = Inl (not_kind ''an object'')"

fun as_array :: "'d Json \<Rightarrow> 'd Json list result" where
  "as_array (JArray elements) = Inr elements"
| "as_array _ = Inl (not_kind ''an array'')"

fun as_string :: "'d Json \<Rightarrow> string result" where
  "as_string (JString s) = Inr s"
| "as_string _ = Inl (not_kind ''a string'')"

fun as_integer :: "'d Json \<Rightarrow> int result" where
  "as_integer (JInt i) = Inr i"
| "as_integer _ = Inl (not_kind ''an integer'')"

fun as_boolean :: "'d Json \<Rightarrow> bool result" where
  "as_boolean (JBool b) = Inr b"
| "as_boolean _ = Inl (not_kind ''a boolean'')"

fun json_find :: "string \<Rightarrow> 'd Json \<Rightarrow> 'd Json option" where
  "json_find key (JObject members) = map_of members key"
| "json_find key _ = None"

definition json_at :: "string \<Rightarrow> 'd Json \<Rightarrow> 'd Json result" where
  "json_at key j =
     (case json_find key j of None \<Rightarrow> Inl (OutOfRange (''missing JSON key: '' @ key)) | Some v \<Rightarrow> Inr v)"

subsection \<open>Lexical parts of the parser\<close>

type_synonym 'a parse = "('a \<times> string) result"

definition parse_fail :: "nat \<Rightarrow> string \<Rightarrow> string \<Rightarrow> 'a result" where
  "parse_fail total_size left message =
     Inl (RuntimeError (''JSON parse error at byte '' @ show_nat (total_size - length left) @ '': '' @ message))"

definition is_json_space :: "char \<Rightarrow> bool" where
  "is_json_space c \<longleftrightarrow> c = CHR '' '' \<or> c = CHR 0x09 \<or> c = CHR 0x0A \<or> c = CHR 0x0D"

definition skip_space :: "string \<Rightarrow> string" where
  "skip_space s = dropWhile is_json_space s"

definition consume :: "char \<Rightarrow> string \<Rightarrow> string option" where
  "consume expected s = (case s of c # r \<Rightarrow> if c = expected then Some r else None | [] \<Rightarrow> None)"

definition expect :: "nat \<Rightarrow> char \<Rightarrow> string \<Rightarrow> string result" where
  "expect L expected s =
     (case consume expected s of
        Some r \<Rightarrow> Inr r
      | None \<Rightarrow> parse_fail L s (''expected '' @ [CHR 0x27, expected, CHR 0x27]))"

definition expect_literal :: "nat \<Rightarrow> string \<Rightarrow> string \<Rightarrow> string result" where
  "expect_literal L literal s =
     (if take (length literal) s \<noteq> literal then parse_fail L s ''invalid literal''
      else Inr (drop (length literal) s))"

definition byte_char :: "u32 \<Rightarrow> char" where
  "byte_char w = char_of (unat w)"

definition append_utf8 :: "u32 \<Rightarrow> string result" where
  "append_utf8 codepoint =
     (if codepoint \<le> 0x7F then Inr [byte_char codepoint]
      else if codepoint \<le> 0x7FF then
        Inr [byte_char (0xC0 OR drop_bit 6 codepoint), byte_char (0x80 OR (codepoint AND 0x3F))]
      else if codepoint \<le> 0xFFFF then
        Inr [byte_char (0xE0 OR drop_bit 12 codepoint),
             byte_char (0x80 OR (drop_bit 6 codepoint AND 0x3F)), byte_char (0x80 OR (codepoint AND 0x3F))]
      else if codepoint \<le> 0x10FFFF then
        Inr [byte_char (0xF0 OR drop_bit 18 codepoint), byte_char (0x80 OR (drop_bit 12 codepoint AND 0x3F)),
             byte_char (0x80 OR (drop_bit 6 codepoint AND 0x3F)), byte_char (0x80 OR (codepoint AND 0x3F))]
      else Inl (RuntimeError ''JSON contains an invalid Unicode code point''))"

definition hex_value :: "char \<Rightarrow> u32 option" where
  "hex_value c = (let n = (of_char c :: nat) in
     if 48 \<le> n \<and> n \<le> 57 then Some (of_nat (n - 48))
     else if 97 \<le> n \<and> n \<le> 102 then Some (of_nat (n - 97 + 10))
     else if 65 \<le> n \<and> n \<le> 70 then Some (of_nat (n - 65 + 10))
     else None)"

fun hex_digits :: "nat \<Rightarrow> nat \<Rightarrow> u32 \<Rightarrow> string \<Rightarrow> u32 parse" where
  "hex_digits L 0 v s = Inr (v, s)"
| "hex_digits L (Suc k) v [] = parse_fail L [] ''incomplete Unicode escape''"
| "hex_digits L (Suc k) v (c # s) =
     (case hex_value c of
        None \<Rightarrow> parse_fail L s ''invalid Unicode escape''
      | Some d \<Rightarrow> hex_digits L k (push_bit 4 v OR d) s)"

definition parse_hex4 :: "nat \<Rightarrow> string \<Rightarrow> u32 parse" where
  "parse_hex4 L s =
     (if length s < 4 then parse_fail L s ''incomplete Unicode escape'' else hex_digits L 4 0 s)"

definition high_surrogate :: "u32 \<Rightarrow> bool" where
  "high_surrogate codepoint \<longleftrightarrow> 0xD800 \<le> codepoint \<and> codepoint \<le> 0xDBFF"

definition low_surrogate :: "u32 \<Rightarrow> bool" where
  "low_surrogate codepoint \<longleftrightarrow> 0xDC00 \<le> codepoint \<and> codepoint \<le> 0xDFFF"

text \<open>The part of an escape after \<open>\u\<close>: the bytes it stands for.\<close>

definition parse_unicode :: "nat \<Rightarrow> string \<Rightarrow> string parse" where
  "parse_unicode L s =
     res_bind (parse_hex4 L s) (\<lambda>(codepoint, s1).
       if high_surrogate codepoint then
         (case consume (CHR 0x5C) s1 of
            None \<Rightarrow> parse_fail L s1 ''high surrogate without low surrogate''
          | Some s2 \<Rightarrow>
              (case consume (CHR ''u'') s2 of
                 None \<Rightarrow> parse_fail L s2 ''high surrogate without low surrogate''
               | Some s3 \<Rightarrow>
                   res_bind (parse_hex4 L s3) (\<lambda>(low, s4).
                     if \<not> low_surrogate low then parse_fail L s4 ''invalid low surrogate''
                     else res_bind (append_utf8 (0x10000 + push_bit 10 (codepoint - 0xD800) + (low - 0xDC00)))
                       (\<lambda>bytes. Inr (bytes, s4)))))
       else if low_surrogate codepoint then parse_fail L s1 ''unexpected low surrogate''
       else res_bind (append_utf8 codepoint) (\<lambda>bytes. Inr (bytes, s1)))"

definition simple_escape :: "char \<Rightarrow> char option" where
  "simple_escape e =
     (if e = CHR 0x22 then Some (CHR 0x22)
      else if e = CHR 0x5C then Some (CHR 0x5C)
      else if e = CHR ''/'' then Some (CHR ''/'')
      else if e = CHR ''b'' then Some (CHR 0x08)
      else if e = CHR ''f'' then Some (CHR 0x0C)
      else if e = CHR ''n'' then Some (CHR 0x0A)
      else if e = CHR ''r'' then Some (CHR 0x0D)
      else if e = CHR ''t'' then Some (CHR 0x09)
      else None)"

lemma consume_length: "consume c s = Some r \<Longrightarrow> length s = Suc (length r)"
  by (auto simp: consume_def split: list.splits if_splits)

lemma consume_Some_iff [simp]: "consume c s = Some r \<longleftrightarrow> s = c # r"
  by (auto simp: consume_def split: list.splits if_splits)

lemma consume_simps [simp]:
  "consume c [] = None" "consume c (d # r) = (if d = c then Some r else None)"
  by (simp_all add: consume_def)

lemma hex_digits_length: "hex_digits L k v s = Inr (w, r) \<Longrightarrow> length s = k + length r"
  by (induction L k v s rule: hex_digits.induct) (auto simp: parse_fail_def split: option.splits)

lemma parse_hex4_length: "parse_hex4 L s = Inr (w, r) \<Longrightarrow> length s = 4 + length r"
  by (auto simp: parse_hex4_def parse_fail_def hex_digits_length split: if_splits)

lemma parse_unicode_length:
  assumes "parse_unicode L s = Inr (bytes, r)"
  shows "length r < length s"
proof -
  from assms obtain cp s1 where h: "parse_hex4 L s = Inr (cp, s1)"
    and body: "(if high_surrogate cp then
         (case consume (CHR 0x5C) s1 of
            None \<Rightarrow> parse_fail L s1 ''high surrogate without low surrogate''
          | Some s2 \<Rightarrow>
              (case consume (CHR ''u'') s2 of
                 None \<Rightarrow> parse_fail L s2 ''high surrogate without low surrogate''
               | Some s3 \<Rightarrow>
                   res_bind (parse_hex4 L s3) (\<lambda>(low, s4).
                     if \<not> low_surrogate low then parse_fail L s4 ''invalid low surrogate''
                     else res_bind (append_utf8 (0x10000 + push_bit 10 (cp - 0xD800) + (low - 0xDC00)))
                       (\<lambda>bytes. Inr (bytes, s4)))))
       else if low_surrogate cp then parse_fail L s1 ''unexpected low surrogate''
       else res_bind (append_utf8 cp) (\<lambda>bytes. Inr (bytes, s1))) = Inr (bytes, r)"
    unfolding parse_unicode_def by (auto simp only: res_bind_Inr_iff prod.case split_paired_Ex)
  have "length r \<le> length s1"
  proof (cases "high_surrogate cp")
    case True
    then obtain s3 low s4 where "s1 = CHR 0x5C # CHR ''u'' # s3" "parse_hex4 L s3 = Inr (low, s4)" "r = s4"
      using body by (auto simp: parse_fail_def simp del: push_bit_numeral split: option.splits if_splits)
    then show ?thesis by (auto dest: parse_hex4_length)
  next
    case False
    then show ?thesis using body by (auto simp: parse_fail_def split: if_splits)
  qed
  then show ?thesis using parse_hex4_length [OF h] by simp
qed

text \<open>The loop of \<open>parse_string\<close> after the opening quote.\<close>

function parse_string_body :: "nat \<Rightarrow> string \<Rightarrow> string \<Rightarrow> string parse" where
  "parse_string_body L out s =
     (case s of
        [] \<Rightarrow> parse_fail L [] ''unterminated string''
      | c # r \<Rightarrow>
          if c = CHR 0x22 then Inr (out, r)
          else if (of_char c :: nat) < 32 then parse_fail L r ''unescaped control character''
          else if c \<noteq> CHR 0x5C then parse_string_body L (out @ [c]) r
          else
            (case r of
               [] \<Rightarrow> parse_fail L [] ''incomplete escape''
             | e # r' \<Rightarrow>
                 (case simple_escape e of
                    Some x \<Rightarrow> parse_string_body L (out @ [x]) r'
                  | None \<Rightarrow>
                      if e = CHR ''u'' then
                        (case parse_unicode L r' of
                           Inl err \<Rightarrow> Inl err
                         | Inr (bytes, r2) \<Rightarrow> parse_string_body L (out @ bytes) r2)
                      else parse_fail L r' ''invalid escape'')))"
  by pat_completeness auto
termination
  by (relation "measure (\<lambda>(L, out, s). length s)") (auto dest!: parse_unicode_length)

declare parse_string_body.simps [simp del]

definition parse_string :: "nat \<Rightarrow> string \<Rightarrow> string parse" where
  "parse_string L s = res_bind (expect L (CHR 0x22) s) (parse_string_body L [])"

text \<open>The branches of the loop.\<close>

lemma parse_string_body_Nil: "parse_string_body L out [] = parse_fail L [] ''unterminated string''"
  by (simp add: parse_string_body.simps [of L out "[]"])

lemma parse_string_body_quote: "parse_string_body L out (CHR 0x22 # r) = Inr (out, r)"
  by (simp add: parse_string_body.simps [of L out "CHR 0x22 # r"])

lemma parse_string_body_control:
  "(of_char c :: nat) < 32 \<Longrightarrow> parse_string_body L out (c # r) = parse_fail L r ''unescaped control character''"
  by (auto simp: parse_string_body.simps [of L out "c # r"])

lemma parse_string_body_plain:
  "c \<noteq> CHR 0x22 \<Longrightarrow> \<not> (of_char c :: nat) < 32 \<Longrightarrow> c \<noteq> CHR 0x5C \<Longrightarrow>
    parse_string_body L out (c # r) = parse_string_body L (out @ [c]) r"
  by (simp add: parse_string_body.simps [of L out "c # r"])

lemma parse_string_body_escape:
  "parse_string_body L out (CHR 0x5C # r) =
     (case r of
        [] \<Rightarrow> parse_fail L [] ''incomplete escape''
      | e # r' \<Rightarrow>
          (case simple_escape e of
             Some x \<Rightarrow> parse_string_body L (out @ [x]) r'
           | None \<Rightarrow>
               if e = CHR ''u'' then
                 (case parse_unicode L r' of
                    Inl err \<Rightarrow> Inl err
                  | Inr (bytes, r2) \<Rightarrow> parse_string_body L (out @ bytes) r2)
               else parse_fail L r' ''invalid escape''))"
  by (subst parse_string_body.simps) (simp only: list.case, simp)

lemmas parse_string_body_eqs = parse_string_body_Nil parse_string_body_quote parse_string_body_control
  parse_string_body_plain parse_string_body_escape

lemma parse_string_body_length: "parse_string_body L out s = Inr (x, r) \<Longrightarrow> length r < length s"
proof (induction "length s" arbitrary: out s rule: less_induct)
  case less
  show ?case
  proof (cases s)
    case Nil
    then show ?thesis using less.prems by (simp add: parse_string_body_Nil parse_fail_def)
  next
    case (Cons c t)
    consider (quote) "c = CHR 0x22" | (control) "(of_char c :: nat) < 32" | (esc) "c = CHR 0x5C"
      | (plain) "c \<noteq> CHR 0x22" "\<not> (of_char c :: nat) < 32" "c \<noteq> CHR 0x5C" by blast
    then show ?thesis
    proof cases
      case quote
      then show ?thesis using less.prems Cons by (simp add: parse_string_body_quote)
    next
      case control
      then show ?thesis using less.prems Cons by (simp add: parse_string_body_control parse_fail_def)
    next
      case plain
      then have "parse_string_body L (out @ [c]) t = Inr (x, r)"
        using less.prems Cons by (simp add: parse_string_body_plain)
      then show ?thesis using less.hyps [of t "out @ [c]"] Cons by simp
    next
      case esc
      then obtain e t' where t: "t = e # t'"
        using less.prems Cons by (auto simp: parse_string_body_escape parse_fail_def split: list.splits)
      then obtain out' t2 where "parse_string_body L out' t2 = Inr (x, r)" "length t2 \<le> length t'"
        using less.prems Cons esc
        by (auto simp: parse_string_body_escape parse_fail_def split: option.splits if_splits sum.splits prod.splits
            dest!: parse_unicode_length intro: less_imp_le)
      then show ?thesis using less.hyps [of t2 out'] Cons t by simp
    qed
  qed
qed

lemma parse_string_length: "parse_string L s = Inr (x, r) \<Longrightarrow> length r < length s"
  by (auto simp: parse_string_def expect_def parse_fail_def dest!: parse_string_body_length split: option.splits)

subsection \<open>Numbers\<close>

definition starts_digit :: "string \<Rightarrow> bool" where
  "starts_digit s \<longleftrightarrow> (case s of c # _ \<Rightarrow> is_digit_char c | [] \<Rightarrow> False)"

definition skip_digits :: "string \<Rightarrow> string" where
  "skip_digits s = dropWhile is_digit_char s"

text \<open>
  \<open>from_chars\<close> for \<open>int64_t\<close> on a token that is an optional minus sign and digits: \<open>None\<close> when the
  value does not fit.
\<close>

definition from_chars_int64 :: "string \<Rightarrow> int option" where
  "from_chars_int64 token =
     (let v = (case token of c # ds \<Rightarrow> if c = CHR ''-'' then - int (digits_value ds) else int (digits_value token)
               | [] \<Rightarrow> 0)
      in if - (2 ^ 63) \<le> v \<and> v < 2 ^ 63 then Some v else None)"

definition scan_integer :: "nat \<Rightarrow> string \<Rightarrow> string result" where
  "scan_integer L s =
     (case consume (CHR ''0'') s of
        Some r \<Rightarrow> if starts_digit r then parse_fail L r ''leading zero in number'' else Inr r
      | None \<Rightarrow> if starts_digit s then Inr (skip_digits s) else parse_fail L s ''invalid number'')"

definition scan_fraction :: "nat \<Rightarrow> string \<Rightarrow> (bool \<times> string) result" where
  "scan_fraction L s =
     (case consume (CHR ''.'') s of
        None \<Rightarrow> Inr (False, s)
      | Some r \<Rightarrow> if starts_digit r then Inr (True, skip_digits r) else parse_fail L r ''fraction requires digits'')"

definition scan_exponent :: "nat \<Rightarrow> string \<Rightarrow> (bool \<times> string) result" where
  "scan_exponent L s =
     (case s of
        [] \<Rightarrow> Inr (False, s)
      | c # r \<Rightarrow>
          if c = CHR ''e'' \<or> c = CHR ''E'' then
            let r1 = (case r of d # r' \<Rightarrow> if d = CHR ''+'' \<or> d = CHR ''-'' then r' else r | [] \<Rightarrow> r)
            in if starts_digit r1 then Inr (True, skip_digits r1) else parse_fail L r1 ''exponent requires digits''
          else Inr (False, s))"

text \<open>The extent of a number: whether it has a fraction or an exponent, and what follows it.\<close>

definition scan_number :: "nat \<Rightarrow> string \<Rightarrow> (bool \<times> string) result" where
  "scan_number L s =
     (let s1 = (case consume (CHR ''-'') s of Some r \<Rightarrow> r | None \<Rightarrow> s)
      in if s1 \<noteq> s \<and> s1 = [] then parse_fail L s1 ''incomplete number''
         else
           res_bind (scan_integer L s1) (\<lambda>s2.
           res_bind (scan_fraction L s2) (\<lambda>(fraction, s3).
           res_bind (scan_exponent L s3) (\<lambda>(exponent, s4). Inr (fraction \<or> exponent, s4)))))"

definition parse_number :: "'d double_conversion \<Rightarrow> nat \<Rightarrow> string \<Rightarrow> 'd Json parse" where
  "parse_number D L s =
     res_bind (scan_number L s) (\<lambda>(floating, r).
       let token = take (length s - length r) s;
           as_double = (case dc_strtod D token of
               None \<Rightarrow> parse_fail L r ''number is out of range''
             | Some d \<Rightarrow> Inr (JDouble d, r))
       in if floating then as_double
          else (case from_chars_int64 token of Some i \<Rightarrow> Inr (JInt i, r) | None \<Rightarrow> as_double))"

lemma skip_digits_length: "length (skip_digits s) \<le> length s"
  by (simp add: skip_digits_def length_dropWhile_le)

lemma skip_digits_less: "starts_digit s \<Longrightarrow> length (skip_digits s) < length s"
  by (cases s) (auto simp: starts_digit_def skip_digits_def length_dropWhile_le less_Suc_eq_le)

lemma scan_integer_length: "scan_integer L s = Inr r \<Longrightarrow> length r < length s"
  by (auto simp: scan_integer_def parse_fail_def skip_digits_less split: option.splits if_splits)

lemma scan_fraction_length: "scan_fraction L s = Inr (f, r) \<Longrightarrow> length r \<le> length s"
  by (auto simp: scan_fraction_def parse_fail_def split: option.splits if_splits
      intro: le_SucI skip_digits_length)

lemma scan_exponent_length: "scan_exponent L s = Inr (f, r) \<Longrightarrow> length r \<le> length s"
  using skip_digits_length [of "tl s"] skip_digits_length [of "tl (tl s)"]
  by (auto simp: scan_exponent_def parse_fail_def Let_def starts_digit_def split: list.splits if_splits)

lemma scan_number_length:
  assumes "scan_number L s = Inr (f, r)"
  shows "length r < length s"
proof -
  define s1 where "s1 = (case consume (CHR ''-'') s of Some r \<Rightarrow> r | None \<Rightarrow> s)"
  from assms obtain s2 f3 s3 f4 where
    "scan_integer L s1 = Inr s2" "scan_fraction L s2 = Inr (f3, s3)" "scan_exponent L s3 = Inr (f4, r)"
    unfolding scan_number_def s1_def [symmetric] Let_def by (auto simp: parse_fail_def split: if_splits)
  moreover have "length s1 \<le> length s" by (auto simp: s1_def split: option.splits)
  ultimately show ?thesis using scan_integer_length scan_fraction_length scan_exponent_length by fastforce
qed

lemma parse_number_length: "parse_number D L s = Inr (j, r) \<Longrightarrow> length r < length s"
  by (auto simp: parse_number_def parse_fail_def Let_def dest!: scan_number_length split: if_splits option.splits)

subsection \<open>The recursive descent\<close>

text \<open>The cases of \<open>parse_value\<close> that do not recurse.\<close>

definition parse_atom :: "'d double_conversion \<Rightarrow> nat \<Rightarrow> string \<Rightarrow> 'd Json parse" where
  "parse_atom D L s =
     (case s of
        [] \<Rightarrow> parse_fail L s ''expected a value''
      | c # _ \<Rightarrow>
          if c = CHR ''n'' then res_bind (expect_literal L ''null'' s) (\<lambda>r. Inr (JNull, r))
          else if c = CHR ''t'' then res_bind (expect_literal L ''true'' s) (\<lambda>r. Inr (JBool True, r))
          else if c = CHR ''f'' then res_bind (expect_literal L ''false'' s) (\<lambda>r. Inr (JBool False, r))
          else if c = CHR 0x22 then res_bind (parse_string L s) (\<lambda>(x, r). Inr (JString x, r))
          else if c = CHR ''-'' \<or> is_digit_char c then parse_number D L s
          else parse_fail L s ''unexpected token'')"

lemma expect_literal_length: "expect_literal L lit s = Inr r \<Longrightarrow> length r = length s - length lit"
  by (auto simp: expect_literal_def parse_fail_def split: if_splits)

lemma parse_atom_length:
  assumes "parse_atom D L s = Inr (j, r)"
  shows "length r < length s"
proof (cases s)
  case Nil
  then show ?thesis using assms by (simp add: parse_atom_def parse_fail_def)
next
  case (Cons c t)
  note eq = assms [unfolded parse_atom_def Cons list.case, folded Cons]
  have lit: "length r < length s" if "expect_literal L (x # lit) s = Inr r" for x lit
    using expect_literal_length [OF that] Cons by simp
  consider "c = CHR ''n''" | "c = CHR ''t''" | "c = CHR ''f''" | "c = CHR 0x22"
    | (rest) "c \<noteq> CHR ''n''" "c \<noteq> CHR ''t''" "c \<noteq> CHR ''f''" "c \<noteq> CHR 0x22" by blast
  then show ?thesis
  proof cases
    case rest
    then show ?thesis using eq parse_number_length [of D L s]
      by (simp add: parse_fail_def split: if_split_asm)
  qed (use eq lit parse_string_length [of L s] in auto)
qed

text \<open>
  \<open>parse_elements\<close> and \<open>parse_members\<close> are the \<open>while\<close> loops of \<open>parse_array\<close> and
  \<open>parse_object\<close>.
\<close>

function (sequential)
      parse_value :: "'d double_conversion \<Rightarrow> nat \<Rightarrow> string \<Rightarrow> 'd Json parse"
  and parse_elements :: "'d double_conversion \<Rightarrow> nat \<Rightarrow> 'd Json list \<Rightarrow> string \<Rightarrow> 'd Json parse"
  and parse_members :: "'d double_conversion \<Rightarrow> nat \<Rightarrow> (string \<times> 'd Json) list \<Rightarrow> string \<Rightarrow> 'd Json parse"
  where
  "parse_value D L s =
     (case consume (CHR ''['') s of
        Some r \<Rightarrow>
          (case consume (CHR '']'') (skip_space r) of
             Some r' \<Rightarrow> Inr (JArray [], r')
           | None \<Rightarrow> parse_elements D L [] (skip_space r))
      | None \<Rightarrow>
          (case consume (CHR ''{'') s of
             Some r \<Rightarrow>
               (case consume (CHR ''}'') (skip_space r) of
                  Some r' \<Rightarrow> Inr (JObject [], r')
                | None \<Rightarrow> parse_members D L [] (skip_space r))
           | None \<Rightarrow> parse_atom D L s))"
| "parse_elements D L acc s =
     res_bind (parse_value D L (skip_space s)) (\<lambda>(v, s1).
       let acc' = acc @ [v]; s2 = skip_space s1
       in (case consume (CHR '']'') s2 of
             Some r \<Rightarrow> Inr (JArray acc', r)
           | None \<Rightarrow> res_bind (expect L (CHR '','') s2) (parse_elements D L acc')))"
| "parse_members D L acc s =
     (let s0 = skip_space s
      in if take 1 s0 \<noteq> [CHR 0x22] then parse_fail L s0 ''expected an object key''
         else
           res_bind (parse_string L s0) (\<lambda>(key, s1).
           res_bind (expect L (CHR '':'') (skip_space s1)) (\<lambda>s2.
           res_bind (parse_value D L (skip_space s2)) (\<lambda>(v, s3).
             if map_of acc key \<noteq> None then parse_fail L s3 ''duplicate object key''
             else
               let acc' = acc @ [(key, v)]; s4 = skip_space s3
               in (case consume (CHR ''}'') s4 of
                     Some r \<Rightarrow> Inr (JObject acc', r)
                   | None \<Rightarrow> res_bind (expect L (CHR '','') s4) (parse_members D L acc'))))))"
  by pat_completeness auto

lemma skip_space_length: "length (skip_space s) \<le> length s"
  by (simp add: skip_space_def length_dropWhile_le)

lemma expect_Inr_iff [simp]: "expect L c s = Inr r \<longleftrightarrow> s = c # r"
  by (auto simp: expect_def parse_fail_def split: option.splits)

lemma skip_then_consume_length: "skip_space s1 = c # r \<Longrightarrow> length r < length s1"
  using skip_space_length [of s1] by simp

text \<open>Every parse that returns has consumed input, so the recursion ends.\<close>

lemma parse_length_partial:
  "parse_value_parse_elements_parse_members_dom (Inl (D, L, s)) \<Longrightarrow>
     (\<And>j r. parse_value D L s = Inr (j, r) \<Longrightarrow> length r < length s)"
  "parse_value_parse_elements_parse_members_dom (Inr (Inl (D, L, vs, s))) \<Longrightarrow>
     (\<And>j r. parse_elements D L vs s = Inr (j, r) \<Longrightarrow> length r < length s)"
  "parse_value_parse_elements_parse_members_dom (Inr (Inr (D, L, ms, s))) \<Longrightarrow>
     (\<And>j r. parse_members D L ms s = Inr (j, r) \<Longrightarrow> length r < length s)"
proof (induction D L s and D L vs s and D L ms s rule: parse_value_parse_elements_parse_members.pinduct)
  case (1 D L s)
  note eq = 1(4) [unfolded parse_value.psimps [OF 1(1)]]
  show ?case
  proof (cases "consume (CHR ''['') s")
    case arr: (Some t)
    show ?thesis
    proof (cases "consume (CHR '']'') (skip_space t)")
      case None
      then show ?thesis using 1(3) [OF arr None] eq arr skip_space_length [of t] by fastforce
    next
      case (Some r')
      then show ?thesis using eq arr skip_then_consume_length [of t] by fastforce
    qed
  next
    case no: None
    show ?thesis
    proof (cases "consume (CHR ''{'') s")
      case obj: (Some t)
      show ?thesis
      proof (cases "consume (CHR ''}'') (skip_space t)")
        case None
        then show ?thesis using 1(2) [OF no obj None] eq no obj skip_space_length [of t] by fastforce
      next
        case (Some r')
        then show ?thesis using eq no obj skip_then_consume_length [of t] by fastforce
      qed
    next
      case None
      then show ?thesis using eq no parse_atom_length by simp
    qed
  qed
next
  case (2 D L acc t)
  from 2(4) obtain v s1 where v: "parse_value D L (skip_space t) = Inr (v, s1)"
    and rest: "(case consume (CHR '']'') (skip_space s1) of
             Some r \<Rightarrow> Inr (JArray (acc @ [v]), r)
           | None \<Rightarrow> res_bind (expect L (CHR '','') (skip_space s1)) (parse_elements D L (acc @ [v]))) = Inr (j, r)"
    unfolding parse_elements.psimps [OF 2(1)] by (auto simp: Let_def)
  have s1: "length s1 < length t" using 2(2) [OF v] skip_space_length [of t] by simp
  show ?case
  proof (cases "consume (CHR '']'') (skip_space s1)")
    case (Some r')
    then show ?thesis using rest s1 skip_then_consume_length [of s1] by fastforce
  next
    case None
    then obtain s3 where "skip_space s1 = CHR '','' # s3" "parse_elements D L (acc @ [v]) s3 = Inr (j, r)"
      using rest by auto
    then show ?thesis using 2(3) [OF v refl refl refl None] s1 skip_then_consume_length [of s1] by fastforce
  qed
next
  case (3 D L acc t)
  from 3(4) obtain key s1 s2 v s3 where k: "take 1 (skip_space t) = [CHR 0x22]" "parse_string L (skip_space t) = Inr (key, s1)"
    and c: "skip_space s1 = CHR '':'' # s2" and v: "parse_value D L (skip_space s2) = Inr (v, s3)"
    and fresh: "map_of acc key = None"
    and rest: "(case consume (CHR ''}'') (skip_space s3) of
             Some r \<Rightarrow> Inr (JObject (acc @ [(key, v)]), r)
           | None \<Rightarrow> res_bind (expect L (CHR '','') (skip_space s3)) (parse_members D L (acc @ [(key, v)]))) = Inr (j, r)"
    unfolding parse_members.psimps [OF 3(1)] Let_def by (auto simp: parse_fail_def split: if_splits)
  have "length s3 < length s2"
    using 3(2) [OF refl _ k(2) refl _ v] c k(1) skip_space_length [of s2] by simp
  moreover have "length s2 < length s1" "length s1 < length t"
    using skip_then_consume_length [OF c] parse_string_length [OF k(2)] skip_space_length [of t] by auto
  ultimately have s3: "length s3 < length t" by simp
  show ?case
  proof (cases "consume (CHR ''}'') (skip_space s3)")
    case (Some r')
    then show ?thesis using rest s3 skip_then_consume_length [of s3] by fastforce
  next
    case None
    then obtain s5 where s5: "skip_space s3 = CHR '','' # s5" "parse_members D L (acc @ [(key, v)]) s5 = Inr (j, r)"
      using rest by auto
    then have "length r < length s5"
      using 3(3) [OF refl _ k(2) refl _ v refl _ refl refl None] c k(1) fresh by simp
    then show ?thesis using s3 skip_then_consume_length [OF s5(1)] by simp
  qed
qed

termination parse_value
proof (relation "measure (\<lambda>x. case x of Inl (D, L, s) \<Rightarrow> 2 * length s
       | Inr (Inl (D, L, vs, s)) \<Rightarrow> 2 * length s + 1 | Inr (Inr (D, L, ms, s)) \<Rightarrow> 2 * length s + 1)",
    goal_cases)
  case 1
  then show ?case by simp
next
  case (2 D L s x)
  then show ?case using skip_space_length [of x] by auto
next
  case (3 D L s x)
  then show ?case using skip_space_length [of x] by auto
next
  case (4 D L acc s)
  then show ?case using skip_space_length [of s] by simp
next
  case (5 D L acc s x v y acc' z u)
  then have v: "parse_value D L (skip_space s) = Inr (v, y)" and z: "skip_space y = CHR '','' # u" by auto
  have "length y < length (skip_space s)" using parse_length_partial(1) v 5 by blast
  then show ?case using skip_space_length [of s] skip_then_consume_length [OF z] by simp
next
  case (6 D L acc s s0 x key y u)
  then have k: "parse_string L (skip_space s) = Inr (key, y)" and z: "skip_space y = CHR '':'' # u" by auto
  then show ?case
    using parse_string_length [OF k] skip_then_consume_length [OF z] skip_space_length [of s]
      skip_space_length [of u] by simp
next
  case (7 D L acc s s0 x key y u x' v w acc' s4 t)
  then have k: "parse_string L (skip_space s) = Inr (key, y)" and z: "skip_space y = CHR '':'' # u"
    and v: "parse_value D L (skip_space u) = Inr (v, w)" and c: "skip_space w = CHR '','' # t" by auto
  have "length w < length (skip_space u)" using parse_length_partial(1) v 7 by blast
  then show ?case
    using parse_string_length [OF k] skip_then_consume_length [OF z] skip_space_length [of s]
      skip_space_length [of u] skip_then_consume_length [OF c] by simp
qed

declare parse_value.simps [simp del] parse_elements.simps [simp del] parse_members.simps [simp del]

definition parse_document :: "'d double_conversion \<Rightarrow> string \<Rightarrow> 'd Json result" where
  "parse_document D source =
     res_bind (parse_value D (length source) (skip_space source)) (\<lambda>(j, r).
       if skip_space r \<noteq> [] then parse_fail (length source) (skip_space r) ''unexpected trailing input''
       else Inr j)"

subsection \<open>Serialization\<close>

definition hexadecimal :: "nat \<Rightarrow> char" where
  "hexadecimal n = ''0123456789abcdef'' ! n"

definition quote_char :: "char \<Rightarrow> string" where
  "quote_char c =
     (if c = CHR 0x22 then [CHR 0x5C, CHR 0x22]
      else if c = CHR 0x5C then [CHR 0x5C, CHR 0x5C]
      else if c = CHR 0x08 then [CHR 0x5C, CHR ''b'']
      else if c = CHR 0x0C then [CHR 0x5C, CHR ''f'']
      else if c = CHR 0x0A then [CHR 0x5C, CHR ''n'']
      else if c = CHR 0x0D then [CHR 0x5C, CHR ''r'']
      else if c = CHR 0x09 then [CHR 0x5C, CHR ''t'']
      else if (of_char c :: nat) < 32 then
        [CHR 0x5C, CHR ''u'', CHR ''0'', CHR ''0'', hexadecimal (of_char c div 16), hexadecimal (of_char c mod 16)]
      else [c])"

definition quote_json_string :: "string \<Rightarrow> string" where
  "quote_json_string s = [CHR 0x22] @ concat (map quote_char s) @ [CHR 0x22]"

text \<open>Joining with commas, as the loops that print a comma before every element but the first do.\<close>

fun join_commas :: "string list \<Rightarrow> string" where
  "join_commas [] = []"
| "join_commas [x] = x"
| "join_commas (x # y # zs) = x @ CHR '','' # join_commas (y # zs)"

function dump :: "'d double_conversion \<Rightarrow> 'd Json \<Rightarrow> string result" where
  "dump D JNull = Inr ''null''"
| "dump D (JBool b) = Inr (if b then ''true'' else ''false'')"
| "dump D (JInt i) = Inr (show_int i)"
| "dump D (JDouble d) =
     (case dc_to_chars D d of None \<Rightarrow> Inl (RuntimeError ''cannot serialize JSON number'') | Some t \<Rightarrow> Inr t)"
| "dump D (JString s) = Inr (quote_json_string s)"
| "dump D (JArray vs) =
     res_bind (res_map (dump D) vs) (\<lambda>ts. Inr ([CHR ''[''] @ join_commas ts @ [CHR '']'']))"
| "dump D (JObject ms) =
     res_bind (res_map (\<lambda>m. res_bind (dump D (snd m)) (\<lambda>t. Inr (quote_json_string (fst m) @ CHR '':'' # t)))
       (sort_key fst ms)) (\<lambda>ts. Inr ([CHR ''{''] @ join_commas ts @ [CHR ''}'']))"
  by pat_completeness auto
termination
proof (relation "measure (size o snd)", goal_cases)
  case (3 D ms m)
  then have "m \<in> set ms" by simp
  moreover have "size (snd m) \<le> size_prod (\<lambda>x. 0) size m" by (cases m) simp
  ultimately have "size (snd m) \<le> size_list (size_prod (\<lambda>x. 0) size) ms" by (rule size_list_estimation')
  then show ?case by simp
qed (auto simp: less_Suc_eq_le intro: size_list_estimation')

subsection \<open>Well-formed values\<close>

text \<open>Integers fit \<open>int64_t\<close> and the keys of every object are distinct.\<close>

fun json_valid :: "'d Json \<Rightarrow> bool" where
  "json_valid (JInt i) \<longleftrightarrow> - (2 ^ 63) \<le> i \<and> i < 2 ^ 63"
| "json_valid (JArray vs) \<longleftrightarrow> (\<forall>v \<in> set vs. json_valid v)"
| "json_valid (JObject ms) \<longleftrightarrow> distinct (map fst ms) \<and> (\<forall>m \<in> set ms. json_valid (snd m))"
| "json_valid _ \<longleftrightarrow> True"

text \<open>Objects compare as maps; the representative with sorted keys is the one \<open>dump\<close> prints.\<close>

fun json_sort :: "'d Json \<Rightarrow> 'd Json" where
  "json_sort (JArray vs) = JArray (map json_sort vs)"
| "json_sort (JObject ms) = JObject (sort_key fst (map (\<lambda>m. (fst m, json_sort (snd m))) ms))"
| "json_sort j = j"

text \<open>
  What serialization relies on: a finite double is printed as a number of the JSON grammar, and
  \<open>strtod\<close> gives the double back (\<open>max_digits10\<close> digits). The printed number need not look like a
  floating-point one: \<open>5.0\<close> is printed as \<open>5\<close>.
\<close>

definition double_prints :: "'d double_conversion \<Rightarrow> 'd \<Rightarrow> bool" where
  "double_prints D d \<longleftrightarrow>
     (\<exists>t floating. dc_to_chars D d = Some t \<and> scan_number 0 t = Inr (floating, []) \<and> dc_strtod D t = Some d)"

text \<open>
  What a value is after it was printed and parsed: a double whose text has neither a fraction nor an
  exponent and fits \<open>int64_t\<close> has become an integer, everything else is unchanged.
\<close>

definition reread_double :: "'d double_conversion \<Rightarrow> 'd \<Rightarrow> 'd Json" where
  "reread_double D d =
     (case dc_to_chars D d of
        None \<Rightarrow> JDouble d
      | Some t \<Rightarrow>
          if set t \<inter> {CHR ''.'', CHR ''e'', CHR ''E''} \<noteq> {} then JDouble d
          else (case from_chars_int64 t of Some i \<Rightarrow> JInt i | None \<Rightarrow> JDouble d))"

fun reread :: "'d double_conversion \<Rightarrow> 'd Json \<Rightarrow> 'd Json" where
  "reread D (JDouble d) = reread_double D d"
| "reread D (JArray vs) = JArray (map (reread D) vs)"
| "reread D (JObject ms) = JObject (map (\<lambda>m. (fst m, reread D (snd m))) ms)"
| "reread D j = j"

subsection \<open>Strings read back\<close>

lemma simple_escape_u [simp]: "simple_escape (CHR ''u'') = None"
  by (simp add: simple_escape_def)

lemma hex_value_hexadecimal: "k < 16 \<Longrightarrow> hex_value (hexadecimal k) = Some (of_nat k)"
proof -
  have "\<forall>k \<in> set [0..<16]. hex_value (hexadecimal k) = Some (of_nat k)" by code_simp
  then show "k < 16 \<Longrightarrow> hex_value (hexadecimal k) = Some (of_nat k)" by simp
qed

lemma control_codepoint: "n < 32 \<Longrightarrow> push_bit 4 (of_nat (n div 16)) OR of_nat (n mod 16) = (of_nat n :: u32)"
proof -
  have "\<forall>n \<in> set [0..<32]. push_bit 4 (of_nat (n div 16)) OR of_nat (n mod 16) = (of_nat n :: u32)" by code_simp
  then show "n < 32 \<Longrightarrow> push_bit 4 (of_nat (n div 16)) OR of_nat (n mod 16) = (of_nat n :: u32)" by simp
qed

lemma control_utf8: "n < 32 \<Longrightarrow> append_utf8 (of_nat n) = Inr [char_of n]"
proof -
  have "\<forall>n \<in> set [0..<32]. append_utf8 (of_nat n) = Inr [char_of n] \<and> \<not> high_surrogate (of_nat n) \<and>
    \<not> low_surrogate (of_nat n)" by code_simp
  then show "n < 32 \<Longrightarrow> append_utf8 (of_nat n) = Inr [char_of n]" by simp
qed

lemma control_not_surrogate: "n < 32 \<Longrightarrow> \<not> high_surrogate (of_nat n) \<and> \<not> low_surrogate (of_nat n)"
  by (auto simp: high_surrogate_def low_surrogate_def word_le_nat_alt unat_of_nat)

lemma hex4: "hex_digits L 4 v s = hex_digits L (Suc (Suc (Suc (Suc 0)))) v s"
  by (simp add: numeral_eq_Suc)

lemma parse_unicode_control:
  assumes "n < 32"
  shows "parse_unicode L (CHR ''0'' # CHR ''0'' # hexadecimal (n div 16) # hexadecimal (n mod 16) # r) =
    Inr ([char_of n], r)"
proof -
  have z: "hex_value (CHR ''0'') = Some 0" by (simp add: hex_value_def)
  have d: "n div 16 < 16" "n mod 16 < 16" using assms by auto
  have "parse_hex4 L (CHR ''0'' # CHR ''0'' # hexadecimal (n div 16) # hexadecimal (n mod 16) # r) = Inr (of_nat n, r)"
    using control_codepoint [OF assms] hex_value_hexadecimal [OF d(1)] hex_value_hexadecimal [OF d(2)]
    by (simp add: parse_hex4_def hex4 z)
  then show ?thesis using control_not_surrogate [OF assms] control_utf8 [OF assms]
    by (simp add: parse_unicode_def)
qed

lemma parse_quoted_char:
  "parse_string_body L out (quote_char c @ r) = parse_string_body L (out @ [c]) r"
proof -
  have esc: "parse_string_body L out (CHR 0x5C # e # r) = parse_string_body L (out @ [x]) r"
    if "simple_escape e = Some x" for e x
    using that by (simp add: parse_string_body_escape)
  consider (spec) "c \<in> {CHR 0x22, CHR 0x5C, CHR 0x08, CHR 0x0C, CHR 0x0A, CHR 0x0D, CHR 0x09}"
    | (control) "c \<notin> {CHR 0x22, CHR 0x5C, CHR 0x08, CHR 0x0C, CHR 0x0A, CHR 0x0D, CHR 0x09}" "(of_char c :: nat) < 32"
    | (plain) "c \<noteq> CHR 0x22" "c \<noteq> CHR 0x5C" "\<not> (of_char c :: nat) < 32" by blast
  then show ?thesis
  proof cases
    case spec
    then show ?thesis by (elim insertE emptyE) (simp_all add: quote_char_def esc simple_escape_def)
  next
    case control
    then have "quote_char c = [CHR 0x5C, CHR ''u'', CHR ''0'', CHR ''0'', hexadecimal (of_char c div 16), hexadecimal (of_char c mod 16)]"
      by (simp add: quote_char_def)
    then show ?thesis using parse_unicode_control [OF control(2)] by (simp add: parse_string_body_escape)
  next
    case plain
    then have "quote_char c = [c]" by (auto simp: quote_char_def)
    then show ?thesis using plain by (simp add: parse_string_body_plain)
  qed
qed

lemma parse_quoted_body:
  "parse_string_body L out (concat (map quote_char s) @ CHR 0x22 # r) = Inr (out @ s, r)"
  by (induction s arbitrary: out) (simp_all add: parse_string_body_quote parse_quoted_char)

lemma parse_quoted [simp]: "parse_string L (quote_json_string s @ r) = Inr (s, r)"
  by (simp add: parse_string_def quote_json_string_def expect_def parse_quoted_body)

subsection \<open>Numbers read back\<close>

text \<open>What may follow a printed value: nothing, or a separator.\<close>

definition delimited :: "string \<Rightarrow> bool" where
  "delimited r \<longleftrightarrow> (case r of [] \<Rightarrow> True | c # _ \<Rightarrow> c \<in> {CHR '','', CHR '']'', CHR ''}''})"

lemma delimited_simps [simp]:
  "delimited []" "delimited (CHR '','' # r)" "delimited (CHR '']'' # r)" "delimited (CHR ''}'' # r)"
  by (simp_all add: delimited_def)

lemma delimited_head:
  assumes "delimited r"
  shows "\<not> starts_digit r" "consume (CHR ''.'') r = None" "scan_exponent L r = Inr (False, r)"
    "consume (CHR ''0'') r = None" "consume (CHR ''-'') r = None"
  using assms by (auto simp: delimited_def starts_digit_def scan_exponent_def is_digit_char_def split: list.splits)

lemma skip_digits_append: "\<not> starts_digit r \<Longrightarrow> skip_digits (s @ r) = skip_digits s @ r"
  unfolding skip_digits_def starts_digit_def
  by (induction s) (auto split: list.splits)

lemma starts_digit_append: "\<not> starts_digit r \<Longrightarrow> starts_digit (s @ r) = starts_digit s"
  by (cases s) (auto simp: starts_digit_def)

lemma digits_append_Cons:
  "\<not> starts_digit r \<Longrightarrow> skip_digits (a # s @ r) = skip_digits (a # s) @ r"
  "starts_digit (a # s @ r) = starts_digit (a # s)"
  using skip_digits_append [of r "a # s"] by (simp_all add: starts_digit_def)

lemma scan_integer_append:
  assumes "scan_integer L s = Inr s'" and "\<not> starts_digit r" and "s \<noteq> []"
  shows "scan_integer L' (s @ r) = Inr (s' @ r)"
  using assms
  by (cases s) (auto simp: scan_integer_def parse_fail_def starts_digit_append digits_append_Cons split: if_splits)

lemma scan_fraction_append:
  assumes "scan_fraction L s = Inr (f, s')" and "delimited r"
  shows "scan_fraction L' (s @ r) = Inr (f, s' @ r)"
  using assms delimited_head [OF assms(2)]
  by (cases s) (auto simp: scan_fraction_def parse_fail_def starts_digit_append skip_digits_append split: if_splits)

lemma scan_exponent_append:
  assumes "scan_exponent L s = Inr (f, s')" and "delimited r"
  shows "scan_exponent L' (s @ r) = Inr (f, s' @ r)"
proof (cases s)
  case Nil
  then show ?thesis using assms delimited_head [OF assms(2)] by (simp add: scan_exponent_def split: list.splits)
next
  case (Cons c t)
  then show ?thesis using assms delimited_head(1) [OF assms(2)]
    by (cases t) (auto simp: scan_exponent_def parse_fail_def Let_def starts_digit_append skip_digits_append
        digits_append_Cons starts_digit_def [of "[]"] split: if_splits)
qed

lemma scan_number_append:
  assumes "scan_number L s = Inr (f, s')" and "delimited r"
  shows "scan_number L' (s @ r) = Inr (f, s' @ r)"
proof -
  note nd = delimited_head [OF assms(2)]
  define s1 where "s1 = (case consume (CHR ''-'') s of Some r \<Rightarrow> r | None \<Rightarrow> s)"
  from assms(1) obtain s2 f3 s3 f4 where s2: "scan_integer L s1 = Inr s2"
    and rest: "scan_fraction L s2 = Inr (f3, s3)" "scan_exponent L s3 = Inr (f4, s')" "f = (f3 \<or> f4)"
    unfolding scan_number_def s1_def [symmetric] Let_def by (auto simp: parse_fail_def split: if_splits)
  have s1: "s1 \<noteq> []" using scan_integer_length [OF s2] by auto
  then have "s \<noteq> []" by (auto simp: s1_def split: option.splits)
  then have e: "(case consume (CHR ''-'') (s @ r) of Some r \<Rightarrow> r | None \<Rightarrow> s @ r) = s1 @ r"
    by (cases s) (auto simp: s1_def)
  show ?thesis
    unfolding scan_number_def Let_def e
    using s1 scan_integer_append [OF s2 nd(1) s1] scan_fraction_append [OF rest(1) assms(2)]
      scan_exponent_append [OF rest(2) assms(2)] rest(3)
    by simp
qed

lemma scan_show_int: "scan_number L (show_int i) = Inr (False, [])"
proof -
  have nat: "scan_integer L (show_nat n) = Inr []" for n
  proof -
    obtain c ds where sn: "show_nat n = c # ds" using show_nat_nonempty by (metis neq_Nil_conv)
    have dig: "is_digit_char c" "\<forall>d \<in> set ds. is_digit_char d" using show_nat_digits [of _ n] sn by auto
    show ?thesis
    proof (cases "n = 0")
      case True
      moreover have "digit_char 0 = CHR ''0''" by code_simp
      ultimately have "show_nat n = ''0''" by (simp add: show_nat.simps)
      then show ?thesis by (simp add: scan_integer_def starts_digit_def)
    next
      case False
      then have "c \<noteq> CHR ''0''" using show_nat_no_leading_zero [of n] sn by simp
      then show ?thesis using dig sn by (simp add: scan_integer_def starts_digit_def skip_digits_def)
    qed
  qed
  have tail: "scan_fraction L [] = Inr (False, [])" "scan_exponent L [] = Inr (False, [])"
    by (simp_all add: scan_fraction_def scan_exponent_def)
  have "CHR ''-'' \<noteq> hd (show_nat n)" for n
    using show_nat_digits [of "CHR ''-''" n] hd_in_set [OF show_nat_nonempty [of n]] by (auto simp: is_digit_char_def)
  then have "consume (CHR ''-'') (show_nat n) = None" for n
    by (cases "show_nat n") (auto, metis list.sel(1))
  then show ?thesis
    by (cases "i < 0") (simp_all add: show_int_def scan_number_def Let_def nat tail)
qed

lemma from_chars_show_int:
  assumes "- (2 ^ 63) \<le> i" and "i < 2 ^ 63"
  shows "from_chars_int64 (show_int i) = Some i"
proof (cases "i < 0")
  case True
  then show ?thesis using assms by (simp add: from_chars_int64_def show_int_def)
next
  case False
  obtain c ds where sn: "show_nat (nat i) = c # ds" using show_nat_nonempty by (metis neq_Nil_conv)
  then have "c \<noteq> CHR ''-''" using show_nat_digits [of c "nat i"] by (auto simp: is_digit_char_def)
  then show ?thesis
    using False assms sn show_nat_value [of "nat i"] by (simp add: from_chars_int64_def show_int_def)
qed

lemma parse_printed_int:
  assumes "- (2 ^ 63) \<le> i" and "i < 2 ^ 63" and "delimited r"
  shows "parse_number D L (show_int i @ r) = Inr (JInt i, r)"
  using scan_number_append [OF scan_show_int assms(3)] from_chars_show_int [OF assms(1,2)]
  by (simp add: parse_number_def)

text \<open>The scanner calls a number floating exactly when it has a fraction or an exponent.\<close>

lemma skip_digits_split: "\<exists>ds. s = ds @ skip_digits s \<and> (\<forall>c \<in> set ds. is_digit_char c)"
  by (intro exI [of _ "takeWhile is_digit_char s"]) (auto simp: skip_digits_def dest: set_takeWhileD)

lemma digit_not_mark: "is_digit_char c \<Longrightarrow> c \<noteq> CHR ''.'' \<and> c \<noteq> CHR ''e'' \<and> c \<noteq> CHR ''E'' \<and> c \<noteq> CHR ''-''"
  by (auto simp: is_digit_char_def)

lemma consume_split: "consume c s = Some r \<Longrightarrow> s = c # r"
  by (cases s) (auto simp: consume_def split: if_splits)

lemma scan_integer_split:
  assumes "scan_integer L s = Inr r"
  shows "\<exists>ds. s = ds @ r \<and> set ds \<inter> {CHR ''.'', CHR ''e'', CHR ''E''} = {}"
proof -
  obtain ds where ds: "s = ds @ skip_digits s" "\<forall>c \<in> set ds. is_digit_char c" using skip_digits_split by blast
  then have "set ds \<inter> {CHR ''.'', CHR ''e'', CHR ''E''} = {}" using digit_not_mark by blast
  then show ?thesis
    using assms ds(1) by (auto simp: scan_integer_def parse_fail_def Let_def dest!: consume_split split: option.splits if_splits)
qed

lemma scan_fraction_split:
  "scan_fraction L s = Inr (fraction, r) \<Longrightarrow> if fraction then CHR ''.'' \<in> set s else r = s"
  by (auto simp: scan_fraction_def parse_fail_def dest!: consume_split split: option.splits if_splits)

lemma scan_exponent_split:
  "scan_exponent L s = Inr (exponent, r) \<Longrightarrow> if exponent then CHR ''e'' \<in> set s \<or> CHR ''E'' \<in> set s else r = s"
  by (auto simp: scan_exponent_def parse_fail_def Let_def split: list.splits if_splits)

lemma scan_number_floating:
  assumes "scan_number L s = Inr (floating, [])"
  shows "floating \<longleftrightarrow> set s \<inter> {CHR ''.'', CHR ''e'', CHR ''E''} \<noteq> {}"
proof -
  define s1 where "s1 = (case consume (CHR ''-'') s of Some r \<Rightarrow> r | None \<Rightarrow> s)"
  obtain s2 fraction s3 exponent where parts: "scan_integer L s1 = Inr s2" "scan_fraction L s2 = Inr (fraction, s3)"
    "scan_exponent L s3 = Inr (exponent, [])" "floating = (fraction \<or> exponent)"
    using assms unfolding scan_number_def Let_def s1_def [symmetric]
    by (auto simp: parse_fail_def split: if_splits)
  let ?marks = "{CHR ''.'', CHR ''e'', CHR ''E''}"
  have "set s \<inter> ?marks = set s1 \<inter> ?marks"
    unfolding s1_def by (auto dest!: consume_split split: option.splits)
  moreover obtain ds where "s1 = ds @ s2" "set ds \<inter> ?marks = {}" using scan_integer_split [OF parts(1)] by blast
  ultimately have marks: "set s \<inter> ?marks = set s2 \<inter> ?marks" by auto
  show ?thesis
  proof (cases floating)
    case True
    have "set s2 \<inter> ?marks \<noteq> {}"
    proof (cases fraction)
      case True
      then show ?thesis using scan_fraction_split [OF parts(2)] by auto
    next
      case False
      then have "exponent" "s3 = s2" using \<open>floating\<close> parts(4) scan_fraction_split [OF parts(2)] by simp_all
      then show ?thesis using scan_exponent_split [OF parts(3)] by auto
    qed
    then show ?thesis using True marks by simp
  next
    case False
    then have "s3 = s2" "s3 = []" using parts(4) scan_fraction_split [OF parts(2)] scan_exponent_split [OF parts(3)]
      by simp_all
    then show ?thesis using False marks by simp
  qed
qed

lemma parse_printed_double:
  assumes "dc_to_chars D d = Some t" and "scan_number 0 t = Inr (floating, [])" and "dc_strtod D t = Some d"
    and "delimited r"
  shows "parse_number D L (t @ r) = Inr (reread_double D d, r)"
  using scan_number_append [OF assms(2,4)] assms(1,3) scan_number_floating [OF assms(2)]
  by (auto simp: parse_number_def reread_double_def split: option.splits)

text \<open>A number token starts with a digit or a minus sign.\<close>

lemma scan_number_head:
  assumes "scan_number L s = Inr (f, r)"
  shows "\<exists>c t. s = c # t \<and> (c = CHR ''-'' \<or> is_digit_char c)"
proof (cases s)
  case Nil
  then show ?thesis using scan_number_length [OF assms] by simp
next
  case (Cons c t)
  have "is_digit_char (CHR ''0'')" by (simp add: is_digit_char_def)
  then show ?thesis using assms Cons
    by (auto simp: scan_number_def scan_integer_def starts_digit_def parse_fail_def Let_def split: if_splits)
qed

subsection \<open>Values read back\<close>

text \<open>The first character of a printed value decides the parser's branch.\<close>

definition value_head :: "string \<Rightarrow> bool" where
  "value_head t \<longleftrightarrow> (case t of [] \<Rightarrow> False
     | c # _ \<Rightarrow> \<not> is_json_space c \<and> c \<noteq> CHR '']'' \<and> c \<noteq> CHR ''}'' \<and> c \<noteq> CHR '','')"

lemma number_head:
  assumes "scan_number L t = Inr (f, r)"
  shows "value_head t" "parse_value D L' (t @ x) = parse_number D L' (t @ x)"
proof -
  obtain c t' where t: "t = c # t'" and c: "c = CHR ''-'' \<or> is_digit_char c"
    using scan_number_head [OF assms] by blast
  let ?other = "{CHR '' '', CHR 0x09, CHR 0x0A, CHR 0x0D, CHR '']'', CHR ''}'', CHR '','',
      CHR ''['', CHR ''{'', CHR ''n'', CHR ''t'', CHR ''f'', CHR 0x22}"
  have "\<not> is_digit_char x" if "x \<in> ?other" for x
    using that by (elim insertE emptyE) (simp_all add: is_digit_char_def)
  then have "c \<notin> ?other" if "is_digit_char c" using that by blast
  moreover have "CHR ''-'' \<notin> ?other" by simp
  ultimately have ne: "c \<notin> ?other" using c by metis
  show "value_head t" using ne t by (simp add: value_head_def is_json_space_def)
  show "parse_value D L' (t @ x) = parse_number D L' (t @ x)"
    using c ne t by (simp add: parse_value.simps [of D L' "c # t' @ x"] parse_atom_def)
qed

lemma skip_value_head [simp]: "value_head t \<Longrightarrow> skip_space (t @ r) = t @ r"
  by (cases t) (auto simp: value_head_def skip_space_def)

lemma value_head_consume: "value_head t \<Longrightarrow> consume (CHR '']'') (t @ r) = None"
  by (cases t) (auto simp: value_head_def)

lemma skip_space_separators [simp]:
  "skip_space (CHR '','' # r) = CHR '','' # r" "skip_space (CHR '']'' # r) = CHR '']'' # r"
  "skip_space (CHR ''}'' # r) = CHR ''}'' # r" "skip_space (CHR '':'' # r) = CHR '':'' # r"
  by (simp_all add: skip_space_def is_json_space_def)

lemma skip_space_quoted [simp]: "skip_space (quote_json_string k @ r) = quote_json_string k @ r"
  by (simp add: quote_json_string_def skip_space_def is_json_space_def)

text \<open>A text reads as a value: what the inductions carry for one value.\<close>

definition reads_as :: "'d double_conversion \<Rightarrow> string \<Rightarrow> 'd Json \<Rightarrow> bool" where
  "reads_as D t j \<longleftrightarrow> value_head t \<and> (\<forall>L r. delimited r \<longrightarrow> parse_value D L (t @ r) = Inr (j, r))"

definition member_reads :: "'d double_conversion \<Rightarrow> string \<times> 'd Json \<Rightarrow> string \<Rightarrow> bool" where
  "member_reads D m t \<longleftrightarrow> (\<exists>u. t = quote_json_string (fst m) @ CHR '':'' # u \<and> reads_as D u (snd m))"

lemma elements_read:
  assumes "list_all2 (\<lambda>v t. reads_as D t v) vs ts" and "vs \<noteq> []"
  shows "parse_elements D L acc (join_commas ts @ CHR '']'' # r) = Inr (JArray (acc @ vs), r)"
  using assms
proof (induction vs ts arbitrary: acc rule: list_all2_induct)
  case (Cons v vs t ts)
  show ?case
  proof (cases vs)
    case Nil
    then show ?thesis using Cons.hyps
      by (simp add: parse_elements.simps [of D L acc] reads_as_def)
  next
    case (Cons v' vs')
    then obtain t' ts' where ts: "ts = t' # ts'" using Cons.hyps(2) by (cases ts) auto
    have "skip_space (t @ CHR '','' # join_commas ts @ CHR '']'' # r) = t @ CHR '','' # join_commas ts @ CHR '']'' # r"
      using Cons.hyps(1) by (simp add: reads_as_def)
    then show ?thesis using Cons.hyps Cons.IH [of "acc @ [v]"] \<open>vs = v' # vs'\<close> ts
      by (simp add: parse_elements.simps [of D L acc] reads_as_def expect_def)
  qed
qed simp

lemma members_read:
  assumes "list_all2 (member_reads D) ms ts" and "ms \<noteq> []" and "distinct (map fst (acc @ ms))"
  shows "parse_members D L acc (join_commas ts @ CHR ''}'' # r) = Inr (JObject (acc @ ms), r)"
  using assms
proof (induction ms ts arbitrary: acc rule: list_all2_induct)
  case (Cons m ms t ts)
  obtain k v where m: "m = (k, v)" by fastforce
  obtain u where t: "t = quote_json_string k @ CHR '':'' # u" and u: "reads_as D u v"
    using Cons.hyps(1) by (auto simp: member_reads_def m)
  have head: "take 1 (quote_json_string k @ x) = [CHR 0x22]" for x by (simp add: quote_json_string_def)
  have fresh: "map_of acc k = None" using Cons.prems(2) by (auto simp: map_of_eq_None_iff m)
  show ?case
  proof (cases ms)
    case Nil
    then show ?thesis using Cons.hyps(2) t u fresh head
      by (simp add: parse_members.simps [of D L acc] reads_as_def expect_def m)
  next
    case (Cons m' ms')
    then obtain t' ts' where ts: "ts = t' # ts'" using Cons.hyps(2) by (cases ts) auto
    let ?acc = "acc @ [(k, v)]"
    have "parse_members D L ?acc (join_commas ts @ CHR ''}'' # r) = Inr (JObject (?acc @ ms), r)"
      using Cons.IH [of ?acc] Cons.prems(2) \<open>ms = m' # ms'\<close> by (simp add: m)
    moreover have "parse_value D L (u @ CHR '','' # x) = Inr (v, CHR '','' # x)"
      "skip_space (u @ CHR '','' # x) = u @ CHR '','' # x" for x
      using u by (simp_all add: reads_as_def)
    ultimately show ?thesis using t ts fresh head \<open>ms = m' # ms'\<close>
      by (simp add: parse_members.simps [of D L acc] expect_def m)
  qed
qed simp

lemma insort_key_map_fst:
  "insort_key fst (fst m, g (snd m)) (map (\<lambda>m. (fst m, g (snd m))) ms) =
     map (\<lambda>m. (fst m, g (snd m))) (insort_key fst m ms)"
  by (induction ms) auto

lemma sort_key_map_fst:
  "sort_key fst (map (\<lambda>m. (fst m, g (snd m))) ms) = map (\<lambda>m. (fst m, g (snd m))) (sort_key fst ms)"
  by (induction ms) (simp_all add: insort_key_map_fst)

lemma join_commas_Cons: "\<exists>u. join_commas (t # ts) = t @ u"
  by (cases ts) auto

lemma value_head_append: "value_head t \<Longrightarrow> value_head (t @ u)"
  by (cases t) (auto simp: value_head_def)

lemma array_reads:
  assumes "list_all2 (\<lambda>v t. reads_as D t v) vs ts"
  shows "reads_as D (CHR ''['' # join_commas ts @ [CHR '']'']) (JArray vs)"
proof (cases "vs = []")
  case True
  then show ?thesis using assms
    by (simp add: reads_as_def value_head_def is_json_space_def parse_value.simps)
next
  case False
  obtain t ts' where "ts = t # ts'" "value_head t"
    using assms False by (cases vs; cases ts) (auto simp: reads_as_def)
  then have h: "value_head (join_commas ts)" using join_commas_Cons [of t ts'] value_head_append by auto
  show ?thesis using elements_read [OF assms False, where acc = "[]"] h value_head_consume [OF h]
    by (simp add: reads_as_def value_head_def [of "CHR ''['' # _"] is_json_space_def
        parse_value.simps [of D _ "CHR ''['' # _"])
qed

lemma object_reads:
  assumes "list_all2 (member_reads D) ms ts" and "distinct (map fst ms)"
  shows "reads_as D (CHR ''{'' # join_commas ts @ [CHR ''}'']) (JObject ms)"
proof (cases "ms = []")
  case True
  then show ?thesis using assms(1)
    by (simp add: reads_as_def value_head_def is_json_space_def parse_value.simps)
next
  case False
  then obtain m t ts' u where "ts = t # ts'" "t = quote_json_string (fst m) @ u"
    using assms(1) by (cases ms; cases ts) (auto simp: member_reads_def)
  then obtain u' where j: "join_commas ts = quote_json_string (fst m) @ u'"
    using join_commas_Cons [of t ts'] by auto
  have start: "skip_space (join_commas ts @ x) = join_commas ts @ x" "consume (CHR ''}'') (join_commas ts @ x) = None" for x
    unfolding j by simp (simp add: quote_json_string_def)
  then show ?thesis using members_read [OF assms(1) False, of "[]"] assms(2)
    by (simp add: reads_as_def value_head_def is_json_space_def parse_value.simps [of D _ "CHR ''{'' # _"])
qed

lemma string_reads: "reads_as D (quote_json_string s) (JString s)"
proof -
  have "parse_value D L (quote_json_string s @ r) = parse_atom D L (quote_json_string s @ r)" for L r
    by (simp add: parse_value.simps quote_json_string_def)
  moreover have "parse_atom D L (quote_json_string s @ r) = Inr (JString s, r)" for L r
    using parse_quoted [of L s r] by (simp add: parse_atom_def quote_json_string_def)
  ultimately show ?thesis
    by (simp add: reads_as_def) (simp add: value_head_def quote_json_string_def is_json_space_def)
qed

lemma integer_reads:
  assumes "- (2 ^ 63) \<le> i" and "i < 2 ^ 63"
  shows "reads_as D (show_int i) (JInt i)"
  using assms number_head(1) [OF scan_show_int [of 0 i]]
  by (simp add: reads_as_def number_head(2) [OF scan_show_int [of 0 i]] parse_printed_int)

lemma literal_reads:
  "reads_as D ''null'' JNull" "reads_as D (if b then ''true'' else ''false'') (JBool b)"
  by (simp_all add: reads_as_def value_head_def is_json_space_def parse_value.simps parse_atom_def expect_literal_def)

lemma reads_as_document:
  assumes "reads_as D t j"
  shows "parse_document D t = Inr j"
proof -
  have "parse_value D (length t) t = Inr (j, [])" "skip_space t = t"
    using assms skip_value_head [of t "[]"] unfolding reads_as_def by (metis append_Nil2 delimited_simps(1), simp)
  moreover have "skip_space [] = []" by (simp add: skip_space_def)
  ultimately show ?thesis by (simp add: parse_document_def)
qed

lemma distinct_keys_sort: "distinct (map fst ms) \<Longrightarrow> distinct (map fst (sort_key fst ms))"
  by (metis distinct_map distinct_sort set_sort)

lemma dump_reads_back:
  assumes "json_valid j" and "\<forall>d \<in> set_Json j. double_prints D d"
  shows "\<exists>t. dump D j = Inr t \<and> reads_as D t (json_sort (reread D j))"
  using assms
proof (induction D j rule: dump.induct)
  case (1 D)
  show ?case using literal_reads(1) by simp
next
  case (2 D b)
  show ?case unfolding dump.simps reread.simps json_sort.simps using literal_reads(2) [of D b] by blast
next
  case (3 D i)
  then show ?case using integer_reads [of i D] by simp
next
  case (4 D d)
  then obtain t floating where t: "dc_to_chars D d = Some t" "scan_number 0 t = Inr (floating, [])"
    "dc_strtod D t = Some d"
    by (auto simp: double_prints_def)
  have "json_sort (reread_double D d) = reread_double D d"
    by (simp add: reread_double_def split: option.splits)
  then show ?case using t(1) number_head(1) [OF t(2)] parse_printed_double [OF t]
    by (simp add: reads_as_def number_head(2) [OF t(2)])
next
  case (5 D s)
  then show ?case using string_reads by simp
next
  case (6 D vs)
  have "\<exists>t. dump D v = Inr t \<and> reads_as D t (json_sort (reread D v))" if "v \<in> set vs" for v
    by (rule 6(1) [OF that]) (use 6(2,3) that in auto)
  then have "\<forall>v \<in> set vs. \<exists>t. dump D v = Inr t \<and> reads_as D t (json_sort (reread D v))" by blast
  from res_map_list_all2 [OF this] obtain ts where
    ts: "res_map (dump D) vs = Inr ts" "list_all2 (\<lambda>v t. reads_as D t (json_sort (reread D v))) vs ts" by (elim exE conjE)
  have "reads_as D (CHR ''['' # join_commas ts @ [CHR '']'']) (JArray (map (json_sort \<circ> reread D) vs))"
    by (rule array_reads) (simp add: list_all2_map1 ts(2))
  then show ?case using ts(1) by simp
next
  case (7 D ms)
  let ?f = "\<lambda>m. res_bind (dump D (snd m)) (\<lambda>t. Inr (quote_json_string (fst m) @ CHR '':'' # t))"
  let ?g = "\<lambda>m. (fst m, json_sort (reread D (snd m)))"
  have "\<exists>t. ?f m = Inr t \<and> member_reads D (?g m) t" if "m \<in> set (sort_key fst ms)" for m
  proof -
    obtain k v where m: "m = (k, v)" by fastforce
    have "(k, v) \<in> set ms" using that unfolding m by simp
    have "\<forall>m \<in> set ms. json_valid (snd m)" using 7(2) by simp
    from bspec [OF this \<open>(k, v) \<in> set ms\<close>] have v: "json_valid v" by simp
    have "d \<in> set_Json (JObject ms)" if "d \<in> set_Json v" for d
      using that by (simp, intro bexI [OF _ \<open>(k, v) \<in> set ms\<close>]) simp
    then have "set_Json v \<subseteq> set_Json (JObject ms)" by (rule subsetI)
    then have "\<forall>d \<in> set_Json v. double_prints D d" using 7(3) by blast
    with v have "\<exists>t. dump D (snd m) = Inr t \<and> reads_as D t (json_sort (reread D (snd m)))"
      unfolding m snd_conv by (rule 7(1) [OF that, unfolded m snd_conv])
    then obtain t where "dump D (snd m) = Inr t" "reads_as D t (json_sort (reread D (snd m)))" by blast
    then show ?thesis by (simp add: member_reads_def)
  qed
  then have "\<forall>m \<in> set (sort_key fst ms). \<exists>t. ?f m = Inr t \<and> member_reads D (?g m) t" by blast
  from res_map_list_all2 [OF this] obtain ts where
    ts: "res_map ?f (sort_key fst ms) = Inr ts" "list_all2 (\<lambda>m. member_reads D (?g m)) (sort_key fst ms) ts"
    by (elim exE conjE)
  have "distinct (map fst (map ?g ms))" using 7(2) by (simp add: comp_def)
  then have "distinct (map fst (sort_key fst (map ?g ms)))" by (rule distinct_keys_sort)
  moreover have "list_all2 (member_reads D) (sort_key fst (map ?g ms)) ts"
    using ts(2) by (simp add: sort_key_map_fst [where g = "\<lambda>v. json_sort (reread D v)"] list_all2_map1)
  ultimately have "reads_as D (CHR ''{'' # join_commas ts @ [CHR ''}'']) (JObject (sort_key fst (map ?g ms)))"
    by (intro object_reads)
  then show ?case unfolding dump.simps reread.simps json_sort.simps ts(1) map_map comp_def fst_conv snd_conv by simp
qed

text \<open>C27. Serialization round trip: every well-formed value whose doubles are finite serializes, and
  parsing the text gives the value back, with the members of every object in the order of their keys,
  except that a double whose text has neither a fraction nor an exponent comes back as an
  integer: \<open>5.0\<close> is printed as \<open>5\<close>.\<close>

theorem json_round_trip:
  assumes "json_valid j" and "\<forall>d \<in> set_Json j. double_prints D d"
  shows "\<exists>text. dump D j = Inr text \<and> parse_document D text = Inr (json_sort (reread D j))"
  using dump_reads_back [OF assms] reads_as_document by blast

definition sample_conversion :: "nat double_conversion" where
  "sample_conversion = \<lparr>dc_strtod = (\<lambda>t. if t = ''0.5'' then Some 1 else if t = ''5'' then Some 10 else None),
     dc_to_chars = (\<lambda>d. if d = 1 then Some ''0.5'' else if d = 10 then Some ''5'' else None)\<rparr>"

theorem json_round_trip_witness:
  "\<exists>text. dump sample_conversion
      (JObject [(''b'', JArray [JInt (-7), JDouble 1, JDouble 10]), (''a'', JString [CHR 0x0A, CHR 0x01])]) = Inr text \<and>
    parse_document sample_conversion text =
      Inr (JObject [(''a'', JString [CHR 0x0A, CHR 0x01]), (''b'', JArray [JInt (-7), JDouble 1, JInt 5])])"
proof -
  let ?j = "JObject [(''b'', JArray [JInt (-7), JDouble (1 :: nat), JDouble 10]), (''a'', JString [CHR 0x0A, CHR 0x01])]"
  have "double_prints sample_conversion 1" "double_prints sample_conversion 10"
    by (auto simp: double_prints_def sample_conversion_def scan_number_def scan_integer_def scan_fraction_def
        scan_exponent_def starts_digit_def skip_digits_def is_digit_char_def)
  moreover have "json_sort (reread sample_conversion ?j) =
      JObject [(''a'', JString [CHR 0x0A, CHR 0x01]), (''b'', JArray [JInt (-7), JDouble 1, JInt 5])]"
    by code_simp
  ultimately show ?thesis using json_round_trip [of ?j sample_conversion] by simp
qed

subsection \<open>What parsing guarantees\<close>

lemma parse_number_valid: "parse_number D L s = Inr (j, r) \<Longrightarrow> json_valid j"
  by (auto simp: parse_number_def parse_fail_def from_chars_int64_def Let_def split: if_splits option.splits)

lemma parse_atom_valid: "parse_atom D L s = Inr (j, r) \<Longrightarrow> json_valid j"
  by (cases s) (auto simp: parse_atom_def parse_fail_def dest: parse_number_valid split: if_split_asm)

lemma parse_results_valid:
  "parse_value D L s = Inr (j, r) \<Longrightarrow> json_valid j"
  "parse_elements D L vs s = Inr (j, r) \<Longrightarrow> \<forall>v \<in> set vs. json_valid v \<Longrightarrow> json_valid j"
  "parse_members D L ms s = Inr (j, r) \<Longrightarrow> json_valid (JObject ms) \<Longrightarrow> json_valid j"
proof (induction D L s and D L vs s and D L ms s arbitrary: j r and j r and j r
    rule: parse_value_parse_elements_parse_members.induct)
  case (1 D L s)
  from 1(3) have "(case consume (CHR ''['') s of
        Some r \<Rightarrow>
          (case consume (CHR '']'') (skip_space r) of
             Some r' \<Rightarrow> Inr (JArray [], r')
           | None \<Rightarrow> parse_elements D L [] (skip_space r))
      | None \<Rightarrow>
          (case consume (CHR ''{'') s of
             Some r \<Rightarrow>
               (case consume (CHR ''}'') (skip_space r) of
                  Some r' \<Rightarrow> Inr (JObject [], r')
                | None \<Rightarrow> parse_members D L [] (skip_space r))
           | None \<Rightarrow> parse_atom D L s)) = Inr (j, r)"
    by (subst (asm) parse_value.simps)
  with 1(1,2) show ?case by (auto split: option.splits dest: parse_atom_valid)
next
  case (2 D L acc s)
  from 2(3) obtain v s1 where v: "parse_value D L (skip_space s) = Inr (v, s1)"
    and rest: "(case consume (CHR '']'') (skip_space s1) of
             Some r \<Rightarrow> Inr (JArray (acc @ [v]), r)
           | None \<Rightarrow> res_bind (expect L (CHR '','') (skip_space s1)) (parse_elements D L (acc @ [v]))) = Inr (j, r)"
    by (subst (asm) parse_elements.simps) (auto simp: Let_def)
  have val: "\<forall>x \<in> set (acc @ [v]). json_valid x" using 2(1) [OF v] 2(4) by auto
  show ?case
    using rest val 2(2) [OF v refl refl refl] by (auto split: option.splits)
next
  case (3 D L acc s)
  from 3(3) obtain key s1 s2 v s3 where k: "take 1 (skip_space s) = [CHR 0x22]" "parse_string L (skip_space s) = Inr (key, s1)"
    and c: "skip_space s1 = CHR '':'' # s2" and v: "parse_value D L (skip_space s2) = Inr (v, s3)"
    and fresh: "map_of acc key = None"
    and rest: "(case consume (CHR ''}'') (skip_space s3) of
             Some r \<Rightarrow> Inr (JObject (acc @ [(key, v)]), r)
           | None \<Rightarrow> res_bind (expect L (CHR '','') (skip_space s3)) (parse_members D L (acc @ [(key, v)]))) = Inr (j, r)"
    by (subst (asm) parse_members.simps) (auto simp: parse_fail_def Let_def split: if_splits)
  have "json_valid v" using 3(1) [OF refl _ k(2) refl _ v] c k(1) by simp
  then have val: "json_valid (JObject (acc @ [(key, v)]))"
    using 3(4) fresh by (auto simp: map_of_eq_None_iff)
  show ?case
    using rest val 3(2) [OF refl _ k(2) refl _ v refl _ refl refl] k(1) c fresh by (auto split: option.splits)
qed

text \<open>Errors carry a position in the source.\<close>

definition located :: "nat \<Rightarrow> error \<Rightarrow> bool" where
  "located L e \<longleftrightarrow> (\<exists>n message. n \<le> L \<and> e = RuntimeError (''JSON parse error at byte '' @ show_nat n @ '': '' @ message))"

definition errors_located :: "nat \<Rightarrow> 'a result \<Rightarrow> bool" where
  "errors_located L res \<longleftrightarrow> (\<forall>e. res = Inl e \<longrightarrow> located L e)"

named_theorems locates \<open>operations whose errors carry a position\<close>

lemma locates_fail [locates]: "errors_located L (parse_fail L s message)"
  unfolding errors_located_def parse_fail_def located_def using diff_le_self by blast

lemma locates_Inr [locates]: "errors_located L (Inr x)"
  by (simp add: errors_located_def)

lemma locates_bind [locates]:
  "errors_located L m \<Longrightarrow> (\<And>x. m = Inr x \<Longrightarrow> errors_located L (f x)) \<Longrightarrow> errors_located L (res_bind m f)"
  by (cases m) (auto simp: errors_located_def)

lemma locates_if [locates]:
  "(b \<Longrightarrow> errors_located L x) \<Longrightarrow> (\<not> b \<Longrightarrow> errors_located L y) \<Longrightarrow> errors_located L (if b then x else y)"
  by simp

lemma locates_option [locates]:
  "(m = None \<Longrightarrow> errors_located L x) \<Longrightarrow> (\<And>a. m = Some a \<Longrightarrow> errors_located L (f a)) \<Longrightarrow>
    errors_located L (case m of None \<Rightarrow> x | Some a \<Rightarrow> f a)"
  by (cases m) auto

lemma locates_expect [locates]: "errors_located L (expect L c s)"
  unfolding expect_def by (intro locates)

lemma locates_literal [locates]: "errors_located L (expect_literal L lit s)"
  unfolding expect_literal_def by (intro locates)

lemma locates_hex_digits [locates]: "errors_located L (hex_digits L k v s)"
  by (induction L k v s rule: hex_digits.induct) (auto intro!: locates split: option.splits)

lemma locates_hex4 [locates]: "errors_located L (parse_hex4 L s)"
  unfolding parse_hex4_def by (intro locates)

text \<open>A code point assembled from escapes is at most \<open>0x10FFFF\<close>, so \<open>append_utf8\<close> never throws.\<close>

lemma hex_value_bound: "hex_value c = Some d \<Longrightarrow> take_bit 4 d = d"
proof -
  assume "hex_value c = Some d"
  then obtain n where "d = of_nat n" "n < 16"
    by (auto simp: hex_value_def Let_def simp del: of_nat_diff split: if_splits)
  moreover have "\<forall>n \<in> set [0..<16]. take_bit 4 (of_nat n :: u32) = of_nat n" by code_simp
  ultimately show "take_bit 4 d = d" by simp
qed

lemma hex_digits_bound:
  "hex_digits L k v s = Inr (w, r) \<Longrightarrow> take_bit m v = v \<Longrightarrow> take_bit (m + 4 * k) w = w"
proof (induction L k v s arbitrary: m rule: hex_digits.induct)
  case (3 L k v c s)
  then obtain d where d: "hex_value c = Some d" "hex_digits L k (push_bit 4 v OR d) s = Inr (w, r)"
    by (auto simp: parse_fail_def split: option.splits)
  have "take_bit (m + 4) (take_bit 4 d) = take_bit 4 d" by (simp only: take_bit_take_bit min.absorb2 le_add2)
  then have "take_bit (m + 4) d = d" by (simp only: hex_value_bound [OF d(1)])
  moreover have "take_bit (m + 4) (push_bit 4 v) = push_bit 4 v"
    by (simp only: take_bit_push_bit add_diff_cancel_right' "3.prems"(2))
  ultimately have "take_bit (m + 4) (push_bit 4 v OR d) = push_bit 4 v OR d" by (simp only: take_bit_or)
  from "3.IH" [OF d(1,2) this] show ?case by (simp add: algebra_simps)
qed (simp_all add: parse_fail_def)

lemma parse_hex4_bound: "parse_hex4 L s = Inr (w, r) \<Longrightarrow> unat w < 65536"
proof -
  assume "parse_hex4 L s = Inr (w, r)"
  then have "hex_digits L 4 0 s = Inr (w, r)" by (auto simp: parse_hex4_def parse_fail_def split: if_splits)
  from hex_digits_bound [OF this, of 0] have "take_bit 16 w = w" by simp
  then have "take_bit 16 (unat w) = unat w" by (metis unsigned_take_bit_eq)
  then show "unat w < 65536" using take_bit_nat_less_exp [of 16 "unat w"] by simp
qed

lemma append_utf8_total: "unat codepoint \<le> 1114111 \<Longrightarrow> \<exists>bytes. append_utf8 codepoint = Inr bytes"
  by (simp add: append_utf8_def word_le_nat_alt)

lemma surrogate_pair_bound:
  assumes "high_surrogate cp" and "low_surrogate low"
  shows "unat (0x10000 + push_bit 10 (cp - 0xD800) + (low - 0xDC00)) \<le> 1114111"
proof -
  have c: "0xD800 \<le> cp" "unat cp \<le> 56319" and l: "0xDC00 \<le> low" "unat low \<le> 57343"
    using assms by (auto simp: high_surrogate_def low_surrogate_def word_le_nat_alt)
  have hi: "unat (cp - 0xD800) \<le> 1023" using unat_sub [OF c(1)] c(2) by simp
  have lo: "unat (low - 0xDC00) \<le> 1023" using unat_sub [OF l(1)] l(2) by simp
  have "push_bit 10 (cp - 0xD800) = (cp - 0xD800) * 1024" by (simp add: push_bit_eq_mult)
  moreover have "unat ((cp - 0xD800) * 1024) \<le> unat (cp - 0xD800) * unat (1024 :: u32)"
    unfolding unat_word_ariths(2) by (rule mod_less_eq_dividend)
  ultimately have sh: "unat (push_bit 10 (cp - 0xD800)) \<le> 1047552" using hi by simp
  have plus: "unat (x + y) \<le> unat x + unat y" for x y :: u32
    unfolding unat_word_ariths(1) by (rule mod_less_eq_dividend)
  have "unat (0x10000 + a + b :: u32) \<le> 65536 + unat a + unat b" for a b
    using plus [of "0x10000 + a" b] plus [of "0x10000" a] by simp
  from this [of "push_bit 10 (cp - 0xD800)" "low - 0xDC00"] show ?thesis using sh lo by linarith
qed

lemma locates_utf8: "unat codepoint \<le> 1114111 \<Longrightarrow> errors_located L (append_utf8 codepoint)"
  using append_utf8_total by (metis locates_Inr)

lemma locates_unicode [locates]: "errors_located L (parse_unicode L s)"
proof -
  have low: "unat codepoint \<le> 1114111" if "parse_hex4 L s = Inr (codepoint, s1)" for codepoint s1
    using parse_hex4_bound [OF that] by simp
  show ?thesis
    unfolding parse_unicode_def
    by (auto simp only: prod.case intro!: locates locates_utf8 surrogate_pair_bound intro: low split: prod.splits)
qed

lemma locates_string_body [locates]: "errors_located L (parse_string_body L out s)"
proof (induction L out s rule: parse_string_body.induct)
  case (1 L out s)
  show ?case
  proof (cases s)
    case Nil
    then show ?thesis by (simp add: parse_string_body_Nil locates)
  next
    case (Cons c t)
    consider (quote) "c = CHR 0x22" | (control) "(of_char c :: nat) < 32" | (esc) "c = CHR 0x5C"
      | (plain) "c \<noteq> CHR 0x22" "\<not> (of_char c :: nat) < 32" "c \<noteq> CHR 0x5C" by blast
    then show ?thesis
    proof cases
      case quote
      then show ?thesis using Cons by (simp add: parse_string_body_quote locates)
    next
      case control
      then show ?thesis using Cons by (simp add: parse_string_body_control locates)
    next
      case plain
      then show ?thesis using Cons 1(1) by (simp add: parse_string_body_plain)
    next
      case esc
      then have ne: "c \<noteq> CHR 0x22" "\<not> (of_char c :: nat) < 32" "\<not> c \<noteq> CHR 0x5C" by simp_all
      have u: "errors_located L (parse_unicode L x)" for x by (rule locates)
      show ?thesis
      proof (cases t)
        case Nil
        then show ?thesis using Cons esc by (simp add: parse_string_body_escape locates)
      next
        case t: (Cons e t')
        have simple: "errors_located L (parse_string_body L (out @ [x]) t')" if "simple_escape e = Some x" for x
          using 1(3) [OF Cons ne t that] .
        have uni: "errors_located L (parse_string_body L (out @ bytes) r2)"
          if "simple_escape e = None" "e = CHR ''u''" "parse_unicode L t' = Inr (bytes, r2)" for bytes r2
          using 1(2) [OF Cons ne t that(1,2,3) refl] .
        show ?thesis using Cons esc t simple uni u [of t']
          by (auto simp: parse_string_body_escape errors_located_def split: option.splits sum.splits prod.splits
              intro: locates_fail [unfolded errors_located_def, rule_format])
      qed
    qed
  qed
qed

lemma locates_string [locates]: "errors_located L (parse_string L s)"
  unfolding parse_string_def by (intro locates)

lemma locates_number [locates]: "errors_located L (parse_number D L s)"
proof -
  have "errors_located L (scan_exponent L x)" "errors_located L (scan_integer L x)" "errors_located L (scan_fraction L x)" for x
    unfolding scan_exponent_def scan_integer_def scan_fraction_def Let_def
    by (auto intro!: locates split: list.splits)
  then have "errors_located L (scan_number L s)"
    unfolding scan_number_def Let_def by (auto intro!: locates)
  then show ?thesis unfolding parse_number_def Let_def by (auto intro!: locates)
qed

lemma locates_atom [locates]: "errors_located L (parse_atom D L s)"
  unfolding parse_atom_def by (cases s) (auto intro!: locates)

lemma locates_parse:
  "errors_located L (parse_value D L s)"
  "errors_located L (parse_elements D L vs s)"
  "errors_located L (parse_members D L ms s)"
proof (induction D L s and D L vs s and D L ms s rule: parse_value_parse_elements_parse_members.induct)
  case (1 D L s)
  show ?case by (subst parse_value.simps) (intro locates 1)
next
  case (2 D L acc s)
  show ?case unfolding parse_elements.simps [of D L acc s] Let_def
    using 2 by (auto intro!: locates)
next
  case (3 D L acc s)
  show ?case unfolding parse_members.simps [of D L acc s] Let_def
    using 3 by (auto intro!: locates)
qed

text \<open>C28. Parsing is total and safe on every byte string: it returns, either a value whose
  integers fit \<open>int64_t\<close> and whose objects have no key twice, or an error that names a position
  inside the source; no other exception leaves the parser.\<close>

theorem parse_document_safe:
  "case parse_document D source of
     Inr j \<Rightarrow> json_valid j
   | Inl e \<Rightarrow> \<exists>n message. n \<le> length source \<and>
       e = RuntimeError (''JSON parse error at byte '' @ show_nat n @ '': '' @ message)"
proof -
  have "errors_located (length source) (parse_document D source)"
    unfolding parse_document_def by (auto intro!: locates locates_parse(1))
  moreover have "json_valid j" if "parse_document D source = Inr j" for j
    using that by (auto simp: parse_document_def parse_fail_def dest: parse_results_valid(1) split: if_splits)
  ultimately show ?thesis by (auto simp: errors_located_def located_def split: sum.splits)
qed

end
