(* ===== verification/Tokenizer.thy ===== *)
theory Tokenizer
  imports Json
begin

text \<open>
  \<^verbatim>\<open>tokenizer.cpp\<close>: the byte-level BPE tokenizer. Unicode is the utf8proc library's: composing
  normalization, reading one code point, the general category and the encoding of a code point
  are the fields of \<open>unicode\<close>. Hash maps whose iteration order matters are association lists.
  The cache of merged pieces is threaded as a state.
\<close>

subsection \<open>Code points\<close>

record unicode =
  un_map :: "string \<Rightarrow> string + string"
  un_iterate :: "string \<Rightarrow> u32 \<times> int"
  un_category :: "u32 \<Rightarrow> nat"
  un_encode_char :: "u32 \<Rightarrow> string"

record Codepoint =
  cp_value :: u32
  cp_begin :: nat
  cp_end :: nat
  cp_category :: nat

definition utf8 :: "unicode \<Rightarrow> u32 \<Rightarrow> string result" where
  "utf8 U v =
     (let bytes = un_encode_char U v in
      if bytes = [] then Inl (RuntimeError ''cannot encode Unicode code point'') else Inr bytes)"

definition normalize_nfc :: "unicode \<Rightarrow> string \<Rightarrow> string result" where
  "normalize_nfc U s =
     (case un_map U s of
        Inl message \<Rightarrow> Inl (RuntimeError (''Unicode normalization failed: '' @ message))
      | Inr r \<Rightarrow> Inr r)"

function codepoints_from :: "unicode \<Rightarrow> nat \<Rightarrow> string \<Rightarrow> Codepoint list result" where
  "codepoints_from U cursor rest =
     (if rest = [] then Inr []
      else let (v, size) = un_iterate U rest in
        if size \<le> 0 then Inl (RuntimeError ''input contains invalid UTF-8'')
        else res_bind (codepoints_from U (cursor + nat size) (drop (nat size) rest)) (\<lambda>cps.
          Inr (\<lparr>cp_value = v, cp_begin = cursor, cp_end = cursor + nat size, cp_category = un_category U v\<rparr> # cps)))"
  by auto
termination by (relation "measure (\<lambda>(U, cursor, rest). length rest)") auto

declare codepoints_from.simps [simp del]

definition codepoints :: "unicode \<Rightarrow> string \<Rightarrow> Codepoint list result" where
  "codepoints U s = codepoints_from U 0 s"

text \<open>Categories are numbered as in the library's header: letters 1 to 5, marks 6 to 8, numbers 9
  to 11, separators 23 to 25.\<close>

definition is_letter :: "Codepoint \<Rightarrow> bool" where
  "is_letter cp \<longleftrightarrow> 1 \<le> cp_category cp \<and> cp_category cp \<le> 5"

definition is_mark :: "Codepoint \<Rightarrow> bool" where
  "is_mark cp \<longleftrightarrow> 6 \<le> cp_category cp \<and> cp_category cp \<le> 8"

definition is_number :: "Codepoint \<Rightarrow> bool" where
  "is_number cp \<longleftrightarrow> 9 \<le> cp_category cp \<and> cp_category cp \<le> 11"

definition is_newline :: "Codepoint \<Rightarrow> bool" where
  "is_newline cp \<longleftrightarrow> cp_value cp = 13 \<or> cp_value cp = 10"

definition is_space :: "Codepoint \<Rightarrow> bool" where
  "is_space cp \<longleftrightarrow> (23 \<le> cp_category cp \<and> cp_category cp \<le> 25) \<or> cp_value cp \<in> {9, 10, 11, 12, 13, 0x85}"

subsection \<open>Splitting a text into pieces\<close>

definition lower_ascii :: "u32 \<Rightarrow> u32" where
  "lower_ascii v = (if 65 \<le> v \<and> v \<le> 90 then v + 32 else v)"

definition contraction_matches :: "Codepoint list \<Rightarrow> nat \<Rightarrow> string \<Rightarrow> bool" where
  "contraction_matches cps at sfx \<longleftrightarrow>
     at + 1 + length sfx \<le> length cps \<and>
     list_all (\<lambda>i. lower_ascii (cp_value (cps ! (at + 1 + i))) = of_char (sfx ! i)) [0..<length sfx]"

definition match_contraction :: "Codepoint list \<Rightarrow> nat \<Rightarrow> nat" where
  "match_contraction cps at =
     (if cp_value (cps ! at) \<noteq> 39 \<or> at + 1 \<ge> length cps then at
      else case find (contraction_matches cps at) [''s'', ''t'', ''re'', ''ve'', ''m'', ''ll'', ''d''] of
             None \<Rightarrow> at
           | Some sfx \<Rightarrow> at + 1 + length sfx)"

text \<open>A scanning loop: the first index from \<open>cursor\<close> on at which the condition fails.\<close>

definition span_end :: "(Codepoint \<Rightarrow> bool) \<Rightarrow> Codepoint list \<Rightarrow> nat \<Rightarrow> nat" where
  "span_end p cps cursor = cursor + length (takeWhile p (drop cursor cps))"

definition space_end :: "Codepoint list \<Rightarrow> nat \<Rightarrow> nat" where
  "space_end cps at =
     (let stop = span_end is_space cps at; run = take (stop - at) (drop at cps) in
      if list_ex is_newline run then stop - length (takeWhile (\<lambda>c. \<not> is_newline c) (rev run))
      else if stop = length cps then stop
      else if stop - at > 1 then stop - 1
      else stop)"

text \<open>One iteration of the splitting loop: the end of the piece that starts at \<open>at\<close>.\<close>

definition piece_end :: "Codepoint list \<Rightarrow> nat \<Rightarrow> nat option" where
  "piece_end cps at =
     (let contraction = match_contraction cps at in
      if contraction \<noteq> at then Some contraction
      else
        let word = (if \<not> is_newline (cps ! at) \<and> \<not> is_letter (cps ! at) \<and> \<not> is_number (cps ! at) \<and> at + 1 < length cps \<and>
                       (is_letter (cps ! (at + 1)) \<or> is_mark (cps ! (at + 1))) then at + 1 else at) in
        if is_letter (cps ! word) \<or> is_mark (cps ! word) then Some (span_end (\<lambda>c. is_letter c \<or> is_mark c) cps word)
        else if is_number (cps ! at) then Some (at + 1)
        else
          let start = (if cp_value (cps ! at) = 32 \<and> at + 1 < length cps \<and> \<not> is_space (cps ! (at + 1)) \<and>
                          \<not> is_letter (cps ! (at + 1)) \<and> \<not> is_mark (cps ! (at + 1)) \<and> \<not> is_number (cps ! (at + 1))
                       then at + 1 else at);
              stop = span_end (\<lambda>c. \<not> is_space c \<and> \<not> is_letter c \<and> \<not> is_mark c \<and> \<not> is_number c) cps start in
          if stop > start then Some (span_end is_newline cps stop)
          else if is_space (cps ! at) then Some (space_end cps at)
          else None)"

lemma span_end_bounds: "cursor \<le> length cps \<Longrightarrow> cursor \<le> span_end p cps cursor \<and> span_end p cps cursor \<le> length cps"
  using length_takeWhile_le [of p "drop cursor cps"] by (simp add: span_end_def)

lemma span_end_progress: "cursor < length cps \<Longrightarrow> p (cps ! cursor) \<Longrightarrow> cursor < span_end p cps cursor"
  by (simp add: span_end_def Cons_nth_drop_Suc [symmetric])

lemma span_end_stuck: "cursor < length cps \<Longrightarrow> \<not> p (cps ! cursor) \<Longrightarrow> span_end p cps cursor = cursor"
  by (simp add: span_end_def Cons_nth_drop_Suc [symmetric])

lemma match_contraction_bounds:
  assumes "at < length cps"
  shows "at \<le> match_contraction cps at \<and> match_contraction cps at \<le> length cps"
  using assms
  by (auto simp: match_contraction_def find_Some_iff contraction_matches_def split: option.split)

lemma space_end_bounds:
  assumes "at < length cps" and "is_space (cps ! at)"
  shows "at < space_end cps at \<and> space_end cps at \<le> length cps"
proof -
  let ?stop = "span_end is_space cps at" and ?run = "take (span_end is_space cps at - at) (drop at cps)"
  have b: "at < ?stop" "?stop \<le> length cps"
    using span_end_bounds [of at cps is_space] span_end_progress [of at cps is_space] assms by auto
  have "length (takeWhile (\<lambda>c. \<not> is_newline c) (rev ?run)) < ?stop - at" if "list_ex is_newline ?run"
  proof -
    have "takeWhile (\<lambda>c. \<not> is_newline c) (rev ?run) \<noteq> rev ?run"
      using that by (auto simp: list_ex_iff takeWhile_eq_all_conv)
    then have "length (takeWhile (\<lambda>c. \<not> is_newline c) (rev ?run)) \<noteq> length (rev ?run)"
      by (metis takeWhile_eq_take take_all order_refl)
    then show ?thesis
      using length_takeWhile_le [of "\<lambda>c. \<not> is_newline c" "rev ?run"] b by simp
  qed
  then show ?thesis using b by (auto simp: space_end_def Let_def)
qed

text \<open>The loop always makes progress: its last \<open>throw\<close> cannot be reached.\<close>

lemma piece_end_progress:
  assumes "at < length cps"
  shows "\<exists>e. piece_end cps at = Some e \<and> at < e \<and> e \<le> length cps"
proof -
  note contraction = match_contraction_bounds [OF assms]
  define word where "word = (if \<not> is_newline (cps ! at) \<and> \<not> is_letter (cps ! at) \<and> \<not> is_number (cps ! at) \<and> at + 1 < length cps \<and>
                       (is_letter (cps ! (at + 1)) \<or> is_mark (cps ! (at + 1))) then at + 1 else at)"
  define start where "start = (if cp_value (cps ! at) = 32 \<and> at + 1 < length cps \<and> \<not> is_space (cps ! (at + 1)) \<and>
                          \<not> is_letter (cps ! (at + 1)) \<and> \<not> is_mark (cps ! (at + 1)) \<and> \<not> is_number (cps ! (at + 1))
                       then at + 1 else at)"
  define stop where "stop = span_end (\<lambda>c. \<not> is_space c \<and> \<not> is_letter c \<and> \<not> is_mark c \<and> \<not> is_number c) cps start"
  have pe: "piece_end cps at =
      (if match_contraction cps at \<noteq> at then Some (match_contraction cps at)
       else if is_letter (cps ! word) \<or> is_mark (cps ! word) then Some (span_end (\<lambda>c. is_letter c \<or> is_mark c) cps word)
       else if is_number (cps ! at) then Some (at + 1)
       else if stop > start then Some (span_end is_newline cps stop)
       else if is_space (cps ! at) then Some (space_end cps at) else None)"
    by (simp only: piece_end_def Let_def word_def start_def stop_def)
  have w: "at \<le> word" "word < length cps" and s: "at \<le> start" "start < length cps" using assms by (auto simp: word_def start_def)
  have st: "start \<le> stop" "stop \<le> length cps" using span_end_bounds [of start cps] s by (auto simp: stop_def)
  have nl: "stop \<le> span_end is_newline cps stop" "span_end is_newline cps stop \<le> length cps"
    using span_end_bounds [OF st(2), of is_newline] by auto
  have wd: "word < span_end (\<lambda>c. is_letter c \<or> is_mark c) cps word" "span_end (\<lambda>c. is_letter c \<or> is_mark c) cps word \<le> length cps"
    if "is_letter (cps ! word) \<or> is_mark (cps ! word)"
    using span_end_bounds [of word cps] span_end_progress [of word cps "\<lambda>c. is_letter c \<or> is_mark c"] w that by auto
  have "is_space (cps ! at)" if "\<not> (is_letter (cps ! word) \<or> is_mark (cps ! word))" "\<not> is_number (cps ! at)" "\<not> stop > start"
  proof (rule ccontr)
    assume ns: "\<not> is_space (cps ! at)"
    have "is_letter (cps ! at) \<Longrightarrow> word = at" by (simp add: word_def)
    then have "\<not> is_letter (cps ! at)" using that(1) by auto
    moreover have "\<not> is_mark (cps ! at)" using that(1) by (auto simp: word_def split: if_splits)
    ultimately have "start < stop"
      using span_end_progress [OF s(2), of "\<lambda>c. \<not> is_space c \<and> \<not> is_letter c \<and> \<not> is_mark c \<and> \<not> is_number c"] ns that(2)
      by (auto simp: stop_def start_def split: if_splits)
    then show False using that(3) by simp
  qed
  then show ?thesis
    unfolding pe using contraction w wd s st nl assms space_end_bounds [OF assms]
    by (cases "match_contraction cps at = at"; cases "is_letter (cps ! word) \<or> is_mark (cps ! word)"; cases "is_number (cps ! at)";
        cases "stop > start") auto
qed

definition piece_text :: "string \<Rightarrow> Codepoint list \<Rightarrow> nat \<Rightarrow> nat \<Rightarrow> string" where
  "piece_text s cps at stop =
     take (cp_end (cps ! (stop - 1)) - cp_begin (cps ! at)) (drop (cp_begin (cps ! at)) s)"

function pretokenize_from :: "string \<Rightarrow> Codepoint list \<Rightarrow> nat \<Rightarrow> string list result" where
  "pretokenize_from s cps at =
     (if at \<ge> length cps then Inr []
      else case piece_end cps at of
          None \<Rightarrow> Inl (RuntimeError ''tokenizer pre-split made no progress'')
        | Some stop \<Rightarrow>
            res_bind (pretokenize_from s cps stop) (\<lambda>pieces. Inr (piece_text s cps at stop # pieces)))"
  by auto
termination
proof (relation "measure (\<lambda>(s, cps, at). length cps - at)")
  fix s cps at stop
  assume "\<not> length cps \<le> at" "piece_end cps at = Some stop"
  then show "((s, cps, stop), s, cps, at) \<in> measure (\<lambda>(s, cps, at). length cps - at)"
    using piece_end_progress [of at cps] by auto
qed simp

declare pretokenize_from.simps [simp del]

definition pretokenize :: "unicode \<Rightarrow> string \<Rightarrow> string list result" where
  "pretokenize U s = res_bind (codepoints U s) (\<lambda>cps. pretokenize_from s cps 0)"

subsection \<open>The tokenizer\<close>

record Tokenizer =
  tk_token_to_id :: "string \<Rightarrow> u32 option"
  tk_id_to_token :: "string list"
  tk_merge_rank :: "string \<Rightarrow> u32 option"
  tk_special_to_id :: "(string \<times> u32) list"
  tk_special_ids :: "u32 list"
  tk_byte_to_symbol :: "string list"
  tk_symbol_to_byte :: "u32 \<Rightarrow> char option"

type_synonym bpe_cache = "(string \<times> string list) list"

definition split_symbols :: "unicode \<Rightarrow> string \<Rightarrow> string list result" where
  "split_symbols U s =
     res_bind (codepoints U s) (\<lambda>cps. Inr (map (\<lambda>cp. take (cp_end cp - cp_begin cp) (drop (cp_begin cp) s)) cps))"

definition pair_key :: "string \<Rightarrow> string \<Rightarrow> string" where
  "pair_key left right = left @ CHR 0x00 # right"

text \<open>The pair of neighbours with the lowest rank, the first of equals.\<close>

fun best_pair :: "Tokenizer \<Rightarrow> string list \<Rightarrow> u32 \<times> string \<times> string \<Rightarrow> u32 \<times> string \<times> string" where
  "best_pair T (a # b # symbols) best =
     best_pair T (b # symbols)
       (case tk_merge_rank T (pair_key a b) of
          Some rank \<Rightarrow> if rank < fst best then (rank, a, b) else best
        | None \<Rightarrow> best)"
| "best_pair T _ best = best"

fun merge_pass :: "string \<Rightarrow> string \<Rightarrow> string list \<Rightarrow> string list" where
  "merge_pass left right (a # b # symbols) =
     (if a = left \<and> b = right then (a @ b) # merge_pass left right symbols else a # merge_pass left right (b # symbols))"
| "merge_pass left right symbols = symbols"

text \<open>Two neighbours somewhere in the list.\<close>

fun adjacent :: "string \<Rightarrow> string \<Rightarrow> string list \<Rightarrow> bool" where
  "adjacent left right (a # b # symbols) \<longleftrightarrow> a = left \<and> b = right \<or> adjacent left right (b # symbols)"
| "adjacent left right _ \<longleftrightarrow> False"

lemma best_pair_cases:
  "best_pair T symbols best = best \<and> (\<forall>a b rank. adjacent a b symbols \<and> tk_merge_rank T (pair_key a b) = Some rank \<longrightarrow> fst best \<le> rank) \<or>
   (\<exists>r a b. best_pair T symbols best = (r, a, b) \<and> adjacent a b symbols \<and> tk_merge_rank T (pair_key a b) = Some r \<and> r < fst best \<and>
      (\<forall>c d rank. adjacent c d symbols \<and> tk_merge_rank T (pair_key c d) = Some rank \<longrightarrow> r \<le> rank))"
proof (induction T symbols best rule: best_pair.induct)
  case (1 T a b symbols best)
  define best' where "best' = (case tk_merge_rank T (pair_key a b) of
      Some rank \<Rightarrow> if rank < fst best then (rank, a, b) else best | None \<Rightarrow> best)"
  have step: "best_pair T (a # b # symbols) best = best_pair T (b # symbols) best'" by (simp add: best'_def)
  have b': "best' = best \<and> (\<forall>rank. tk_merge_rank T (pair_key a b) = Some rank \<longrightarrow> fst best \<le> rank) \<or>
      (\<exists>rank. best' = (rank, a, b) \<and> tk_merge_rank T (pair_key a b) = Some rank \<and> rank < fst best)"
    by (auto simp: best'_def not_less split: option.splits)
  from 1 [folded best'_def] show ?case
  proof (elim disjE exE)
    assume i: "best_pair T (b # symbols) best' = best' \<and> (\<forall>c d rank. adjacent c d (b # symbols) \<and> tk_merge_rank T (pair_key c d) = Some rank \<longrightarrow> fst best' \<le> rank)"
    from b' show ?thesis
    proof (elim disjE exE)
      assume "best' = best \<and> (\<forall>rank. tk_merge_rank T (pair_key a b) = Some rank \<longrightarrow> fst best \<le> rank)"
      then show ?thesis unfolding step using i by auto
    next
      fix rank assume r: "best' = (rank, a, b) \<and> tk_merge_rank T (pair_key a b) = Some rank \<and> rank < fst best"
      then show ?thesis unfolding step using i by (intro disjI2 exI [of _ rank] exI [of _ a] exI [of _ b]) auto
    qed
  next
    fix r c d
    assume i: "best_pair T (b # symbols) best' = (r, c, d) \<and> adjacent c d (b # symbols) \<and>
      tk_merge_rank T (pair_key c d) = Some r \<and> r < fst best' \<and>
      (\<forall>c d rank. adjacent c d (b # symbols) \<and> tk_merge_rank T (pair_key c d) = Some rank \<longrightarrow> r \<le> rank)"
    then have "r < fst best" "\<forall>rank. tk_merge_rank T (pair_key a b) = Some rank \<longrightarrow> r \<le> rank" using b' by auto
    then show ?thesis unfolding step using i by (intro disjI2 exI [of _ r] exI [of _ c] exI [of _ d]) auto
  qed
qed auto

text \<open>The pair a merge step picks: neighbours whose rule has the lowest rank of all neighbours.\<close>

lemma best_pair_found:
  assumes "fst (best_pair T symbols (- 1, '''', '''')) \<noteq> - 1"
  shows "\<exists>r a b. best_pair T symbols (- 1, '''', '''') = (r, a, b) \<and> adjacent a b symbols \<and> tk_merge_rank T (pair_key a b) = Some r"
  using best_pair_cases [of T symbols "(- 1, '''', '''')"] assms by auto

lemma best_pair_none:
  assumes "fst (best_pair T symbols (- 1, '''', '''')) = - 1" and "adjacent a b symbols" and "tk_merge_rank T (pair_key a b) = Some rank"
  shows "rank = - 1"
  using best_pair_cases [of T symbols "(- 1, '''', '''')"]
proof (elim disjE exE conjE)
  assume "\<forall>a b rank. adjacent a b symbols \<and> tk_merge_rank T (pair_key a b) = Some rank \<longrightarrow> fst (- 1 :: u32, '''', '''') \<le> rank"
  then show ?thesis using assms(2,3) by (auto intro: antisym)
next
  fix r c d
  assume "best_pair T symbols (- 1, '''', '''') = (r, c, d)" "r < fst (- 1 :: u32, '''', '''')"
  then show ?thesis using assms(1) by simp
qed

lemma merge_pass_shorter: "length (merge_pass left right symbols) \<le> length symbols"
  by (induction left right symbols rule: merge_pass.induct) auto

lemma merge_pass_adjacent: "adjacent left right symbols \<Longrightarrow> length (merge_pass left right symbols) < length symbols"
  by (induction left right symbols rule: merge_pass.induct) (auto simp: less_Suc_eq_le merge_pass_shorter le_SucI)

function merge_symbols :: "Tokenizer \<Rightarrow> string list \<Rightarrow> string list" where
  "merge_symbols T symbols =
     (let best = best_pair T symbols (- 1, '''', '''') in
      if length symbols \<le> 1 \<or> fst best = - 1 then symbols
      else merge_symbols T (merge_pass (fst (snd best)) (snd (snd best)) symbols))"
  by auto
termination
proof (relation "measure (\<lambda>(T, symbols). length symbols)")
  fix T symbols best
  assume "best = best_pair T symbols (- 1, '''', '''')" "\<not> (length symbols \<le> 1 \<or> fst best = - 1)"
  then have "adjacent (fst (snd best)) (snd (snd best)) symbols"
    using best_pair_found [of T symbols] by auto
  then show "((T, merge_pass (fst (snd best)) (snd (snd best)) symbols), T, symbols) \<in> measure (\<lambda>(T, symbols). length symbols)"
    using merge_pass_adjacent by simp
qed simp

declare merge_symbols.simps [simp del]

definition bpe :: "unicode \<Rightarrow> Tokenizer \<Rightarrow> bpe_cache \<Rightarrow> string \<Rightarrow> string list result \<times> bpe_cache" where
  "bpe U T cache piece =
     (case map_of cache piece of
        Some symbols \<Rightarrow> (Inr symbols, cache)
      | None \<Rightarrow>
          (case split_symbols U piece of
             Inl e \<Rightarrow> (Inl e, cache)
           | Inr split \<Rightarrow>
               (let symbols = merge_symbols T split in
                (Inr symbols, if length cache < 65536 then (piece, symbols) # cache else cache))))"

definition byte_piece :: "Tokenizer \<Rightarrow> string \<Rightarrow> string" where
  "byte_piece T piece = concat (map (\<lambda>raw. tk_byte_to_symbol T ! of_char raw) piece)"

definition token_id :: "Tokenizer \<Rightarrow> string \<Rightarrow> u32 result" where
  "token_id T token =
     (case tk_token_to_id T token of None \<Rightarrow> Inl (RuntimeError ''BPE emitted an unknown token'') | Some i \<Rightarrow> Inr i)"

fun encode_pieces :: "unicode \<Rightarrow> Tokenizer \<Rightarrow> bpe_cache \<Rightarrow> string list \<Rightarrow> u32 list result \<times> bpe_cache" where
  "encode_pieces U T cache [] = (Inr [], cache)"
| "encode_pieces U T cache (piece # pieces) =
     (case bpe U T cache (byte_piece T piece) of
        (Inl e, cache') \<Rightarrow> (Inl e, cache')
      | (Inr tokens, cache') \<Rightarrow>
          (case res_map (token_id T) tokens of
             Inl e \<Rightarrow> (Inl e, cache')
           | Inr ids \<Rightarrow>
               (case encode_pieces U T cache' pieces of
                  (Inl e, cache'') \<Rightarrow> (Inl e, cache'')
                | (Inr rest, cache'') \<Rightarrow> (Inr (ids @ rest), cache''))))"

definition encode_ordinary :: "unicode \<Rightarrow> Tokenizer \<Rightarrow> bpe_cache \<Rightarrow> string \<Rightarrow> u32 list result \<times> bpe_cache" where
  "encode_ordinary U T cache text =
     (case res_bind (normalize_nfc U text) (pretokenize U) of
        Inl e \<Rightarrow> (Inl e, cache)
      | Inr pieces \<Rightarrow> encode_pieces U T cache pieces)"

text \<open>The first added token in the rest of the text, the longest of those that start there.\<close>

definition consider_special :: "string \<Rightarrow> (nat \<times> string) option \<Rightarrow> string \<times> u32 \<Rightarrow> (nat \<times> string) option" where
  "consider_special rest best candidate =
     (case find_split (fst candidate) rest of
        None \<Rightarrow> best
      | Some (before, _) \<Rightarrow>
          (case best of
             None \<Rightarrow> Some (length before, fst candidate)
           | Some (special_at, special) \<Rightarrow>
               if length before < special_at \<or> length before = special_at \<and> length (fst candidate) > length special
               then Some (length before, fst candidate) else best))"

definition find_special :: "Tokenizer \<Rightarrow> string \<Rightarrow> (nat \<times> string) option" where
  "find_special T rest = foldl (consider_special rest) None (tk_special_to_id T)"

partial_function (option) encode_loop ::
    "unicode \<Rightarrow> Tokenizer \<Rightarrow> bpe_cache \<Rightarrow> string \<Rightarrow> (u32 list result \<times> bpe_cache) option" where
  "encode_loop U T cache rest =
     (if rest = [] then Some (Inr [], cache)
      else case find_special T rest of
          None \<Rightarrow> Some (encode_ordinary U T cache rest)
        | Some (special_at, special) \<Rightarrow>
            (case (if special_at > 0 then encode_ordinary U T cache (take special_at rest) else (Inr [], cache)) of
               (Inl e, cache') \<Rightarrow> Some (Inl e, cache')
             | (Inr ordinary, cache') \<Rightarrow>
                 Option.bind (encode_loop U T cache' (drop (special_at + length special) rest)) (\<lambda>(r, cache'').
                   Some (res_bind r (\<lambda>ids. Inr (ordinary @ the (map_of (tk_special_to_id T) special) # ids)), cache''))))"

definition encode ::
    "unicode \<Rightarrow> Tokenizer \<Rightarrow> bpe_cache \<Rightarrow> string \<Rightarrow> bool \<Rightarrow> (u32 list result \<times> bpe_cache) option" where
  "encode U T cache text recognize_special_tokens =
     (if \<not> recognize_special_tokens \<or> tk_special_to_id T = [] then Some (encode_ordinary U T cache text)
      else encode_loop U T cache text)"

definition decode_token :: "unicode \<Rightarrow> Tokenizer \<Rightarrow> u32 \<Rightarrow> string result" where
  "decode_token U T i =
     (if unat i \<ge> length (tk_id_to_token T) \<or> tk_id_to_token T ! unat i = [] then
        Inl (OutOfRange (''token ID is not in the vocabulary: '' @ show_nat (unat i)))
      else if i \<in> set (tk_special_ids T) then Inr (tk_id_to_token T ! unat i)
      else res_bind (codepoints U (tk_id_to_token T ! unat i)) (res_map (\<lambda>cp.
             case tk_symbol_to_byte T (cp_value cp) of
               None \<Rightarrow> Inl (RuntimeError ''token contains an invalid byte symbol'')
             | Some b \<Rightarrow> Inr b)))"

definition decode :: "unicode \<Rightarrow> Tokenizer \<Rightarrow> u32 list \<Rightarrow> string result" where
  "decode U T token_ids = res_bind (res_map (decode_token U T) token_ids) (\<lambda>texts. Inr (concat texts))"

subsection \<open>The byte symbols\<close>

definition direct_byte :: "nat \<Rightarrow> bool" where
  "direct_byte b \<longleftrightarrow> 33 \<le> b \<and> b \<le> 126 \<or> 161 \<le> b \<and> b \<le> 172 \<or> 174 \<le> b \<and> b \<le> 255"

fun assign_symbols :: "nat list \<Rightarrow> nat \<Rightarrow> nat list" where
  "assign_symbols [] extra = []"
| "assign_symbols (b # bs) extra =
     (if direct_byte b then b # assign_symbols bs extra else (256 + extra) # assign_symbols bs (extra + 1))"

definition byte_symbols :: "u32 list" where
  "byte_symbols = map of_nat (assign_symbols [0..<256] 0)"

subsection \<open>Loading\<close>

text \<open>
  A directory is the map from the paths of its regular files to their contents. Hash maps are
  walked in the order of the JSON objects they were filled from.
\<close>

type_synonym model_files = "string \<Rightarrow> string option"

definition read_text :: "model_files \<Rightarrow> string \<Rightarrow> string result" where
  "read_text files path =
     (case files path of None \<Rightarrow> Inl (RuntimeError (''cannot open '' @ path)) | Some content \<Rightarrow> Inr content)"

definition tokenizer_directory :: "environment \<Rightarrow> string \<Rightarrow> string" where
  "tokenizer_directory env model_directory =
     (case env ''QWEN38_TOKENIZER_DIR'' of
        Some d \<Rightarrow> if d \<noteq> [] then d else model_directory
      | None \<Rightarrow> model_directory)"

definition vocabulary_entry :: "string \<times> 'd Json \<Rightarrow> (string \<times> u32) result" where
  "vocabulary_entry e =
     res_bind (as_integer (snd e)) (\<lambda>i.
       if i < 0 \<or> i > 4294967295 then Inl (RuntimeError ''invalid tokenizer vocabulary ID'')
       else Inr (fst e, of_nat (nat i)))"

definition id_table :: "(string \<times> u32) list \<Rightarrow> string list" where
  "id_table entries =
     foldl (\<lambda>tokens (token, i). tokens[unat i := token])
       (replicate (foldl (\<lambda>m (token, i). max m (unat i)) 0 entries + 1) []) entries"

function text_lines :: "string \<Rightarrow> string list" where
  "text_lines s =
     (if s = [] then []
      else takeWhile (\<lambda>c. c \<noteq> CHR 0x0A) s # text_lines (drop 1 (dropWhile (\<lambda>c. c \<noteq> CHR 0x0A) s)))"
  by auto
termination
proof (relation "measure length")
  fix s :: string
  let ?r = "dropWhile (\<lambda>c. c \<noteq> CHR 0x0A) s"
  assume "s \<noteq> []"
  then have "0 < length s" by simp
  moreover have "length ?r \<le> length s" by (rule length_dropWhile_le)
  ultimately have "length ?r - 1 < length s" by linarith
  then show "(drop 1 ?r, s) \<in> measure length" by simp
qed simp

declare text_lines.simps [simp del]

definition merge_line :: "string \<Rightarrow> string result" where
  "merge_line l =
     (case find_split '' '' l of
        None \<Rightarrow> Inl (RuntimeError ''invalid tokenizer merge rule'')
      | Some (left, right) \<Rightarrow>
          if left = [] \<or> right = [] then Inl (RuntimeError ''invalid tokenizer merge rule'')
          else Inr (pair_key left right))"

definition merge_lines :: "string \<Rightarrow> string list result" where
  "merge_lines content = res_map merge_line (filter (\<lambda>l. l \<noteq> [] \<and> \<not> prefix ''#version'' l) (text_lines content))"

definition json_merge :: "'d Json \<Rightarrow> string result" where
  "json_merge m =
     res_bind (as_array m) (\<lambda>pair.
       if length pair \<noteq> 2 then Inl (RuntimeError ''invalid tokenizer.json merge rule'')
       else
         res_bind (as_string (pair ! 0)) (\<lambda>left.
         if left = [] then Inl (RuntimeError ''invalid tokenizer.json merge rule'')
         else
           res_bind (as_string (pair ! 1)) (\<lambda>right.
             if right = [] then Inl (RuntimeError ''invalid tokenizer.json merge rule'')
             else Inr (pair_key left right))))"

text \<open>The first rule of a pair keeps its rank; every rule takes one.\<close>

definition rank_table :: "string list \<Rightarrow> string \<Rightarrow> u32 option" where
  "rank_table keys = map_of (zip keys (map of_nat [0..<length keys]))"

definition from_chars_u32 :: "string \<Rightarrow> u32 option" where
  "from_chars_u32 digits =
     (if digits = [] \<or> \<not> list_all is_digit_char digits \<or> digits_value digits > 4294967295 then None
      else Some (of_nat (digits_value digits)))"

definition add_token :: "Tokenizer \<Rightarrow> u32 \<Rightarrow> 'd Json \<Rightarrow> Tokenizer result" where
  "add_token T i description =
     res_bind (res_bind (json_at ''content'' description) as_string) (\<lambda>token.
     res_bind (res_bind (json_at ''special'' description) as_boolean) (\<lambda>special.
       let tokens = tk_id_to_token T; n = unat i;
           resized = (if length tokens \<le> n then tokens @ replicate (n + 1 - length tokens) [] else tokens) in
       Inr (T\<lparr>tk_id_to_token := resized[n := token],
              tk_token_to_id := (tk_token_to_id T)(token \<mapsto> i),
              tk_special_to_id := (if token \<in> fst ` set (tk_special_to_id T) then tk_special_to_id T
                                   else tk_special_to_id T @ [(token, i)]),
              tk_special_ids := (if special then List.insert i (tk_special_ids T) else tk_special_ids T)\<rparr>)))"

fun add_decoder_tokens :: "Tokenizer \<Rightarrow> (string \<times> 'd Json) list \<Rightarrow> Tokenizer result" where
  "add_decoder_tokens T [] = Inr T"
| "add_decoder_tokens T ((id_text, description) # rest) =
     (case from_chars_u32 id_text of
        None \<Rightarrow> Inl (RuntimeError ''invalid added token ID'')
      | Some i \<Rightarrow> res_bind (add_token T i description) (\<lambda>T'. add_decoder_tokens T' rest))"

fun add_json_tokens :: "Tokenizer \<Rightarrow> 'd Json list \<Rightarrow> Tokenizer result" where
  "add_json_tokens T [] = Inr T"
| "add_json_tokens T (description # rest) =
     res_bind (res_bind (json_at ''id'' description) as_integer) (\<lambda>raw_id.
       if raw_id < 0 \<or> raw_id > 4294967295 then Inl (RuntimeError ''invalid tokenizer.json added token ID'')
       else res_bind (add_token T (of_nat (nat raw_id)) description) (\<lambda>T'. add_json_tokens T' rest))"

text \<open>The vocabulary from its own file, or from \<^verbatim>\<open>tokenizer.json\<close>, which is kept for the rest.\<close>

definition load_vocabulary :: "'d double_conversion \<Rightarrow> model_files \<Rightarrow> string \<Rightarrow> ('d Json \<times> 'd Json option) result" where
  "load_vocabulary D files dir =
     (if files (dir @ ''/vocab.json'') \<noteq> None \<and> files (dir @ ''/merges.txt'') \<noteq> None then
        res_bind (read_text files (dir @ ''/vocab.json'')) (\<lambda>source.
        res_bind (parse_document D source) (\<lambda>vocabulary. Inr (vocabulary, None)))
      else
        res_bind (read_text files (dir @ ''/tokenizer.json'')) (\<lambda>source.
        res_bind (parse_document D source) (\<lambda>tokenizer_json.
        res_bind (json_at ''model'' tokenizer_json) (\<lambda>model.
        res_bind (res_bind (json_at ''type'' model) as_string) (\<lambda>kind.
        if kind \<noteq> ''BPE'' then Inl (RuntimeError ''tokenizer.json does not contain a BPE model'')
        else res_bind (json_at ''vocab'' model) (\<lambda>vocabulary. Inr (vocabulary, Some tokenizer_json)))))))"

definition load_merges :: "model_files \<Rightarrow> string \<Rightarrow> 'd Json option \<Rightarrow> string list result" where
  "load_merges files dir tokenizer_json =
     (case tokenizer_json of
        None \<Rightarrow> res_bind (read_text files (dir @ ''/merges.txt'')) merge_lines
      | Some j \<Rightarrow>
          res_bind (json_at ''model'' j) (\<lambda>model.
          res_bind (res_bind (json_at ''merges'' model) as_array) (res_map json_merge)))"

definition load_added :: "Tokenizer \<Rightarrow> 'd Json \<Rightarrow> 'd Json option \<Rightarrow> Tokenizer result" where
  "load_added T tokenizer_config tokenizer_json =
     (case (json_find ''added_tokens_decoder'' tokenizer_config, tokenizer_json) of
        (Some (JObject members), _) \<Rightarrow> add_decoder_tokens T members
      | (_, Some j) \<Rightarrow> res_bind (res_bind (json_at ''added_tokens'' j) as_array) (add_json_tokens T)
      | _ \<Rightarrow> Inl (RuntimeError ''tokenizer config is missing added token metadata''))"

definition load_tokenizer :: "unicode \<Rightarrow> 'd double_conversion \<Rightarrow> environment \<Rightarrow> model_files \<Rightarrow> string \<Rightarrow> Tokenizer result" where
  "load_tokenizer U D env files model_directory =
     (let dir = tokenizer_directory env model_directory in
      res_bind (res_map (utf8 U) byte_symbols) (\<lambda>symbols.
      res_bind (load_vocabulary D files dir) (\<lambda>(vocabulary, tokenizer_json).
      res_bind (res_bind (as_object vocabulary) (res_map vocabulary_entry)) (\<lambda>entries.
      res_bind (load_merges files dir tokenizer_json) (\<lambda>keys.
      res_bind (read_text files (dir @ ''/tokenizer_config.json'')) (\<lambda>source.
      res_bind (parse_document D source) (\<lambda>tokenizer_config.
        let T = \<lparr>tk_token_to_id = map_of entries, tk_id_to_token = id_table entries, tk_merge_rank = rank_table keys,
                 tk_special_to_id = [], tk_special_ids = [], tk_byte_to_symbol = symbols,
                 tk_symbol_to_byte = map_of (zip byte_symbols (map char_of [0..<256 :: nat]))\<rparr> in
        load_added T tokenizer_config tokenizer_json)))))))"

lemma assign_symbols_length [simp]: "length (assign_symbols bs extra) = length bs"
  by (induction bs extra rule: assign_symbols.induct) simp_all

lemma assign_symbols_bound:
  "\<forall>b \<in> set bs. b < 256 \<Longrightarrow> v \<in> set (assign_symbols bs extra) \<Longrightarrow>
     v \<in> set bs \<and> direct_byte v \<or> 256 + extra \<le> v \<and> v < 256 + extra + length bs"
  by (induction bs extra rule: assign_symbols.induct) (fastforce split: if_splits)+

lemma assign_symbols_distinct: "distinct bs \<Longrightarrow> \<forall>b \<in> set bs. b < 256 \<Longrightarrow> distinct (assign_symbols bs extra)"
proof (induction bs extra rule: assign_symbols.induct)
  case (2 b bs extra)
  then show ?case
    using assign_symbols_bound [of bs b extra] assign_symbols_bound [of bs "256 + extra" "extra + 1"] by fastforce
qed simp

lemma byte_symbols_length [simp]: "length byte_symbols = 256"
  by (simp add: byte_symbols_def)

lemma assigned_small: "v \<in> set (assign_symbols [0..<256] 0) \<Longrightarrow> v < 512"
  using assign_symbols_bound [of "[0..<256]" v 0] by auto

lemma byte_symbols_distinct: "distinct byte_symbols"
proof -
  have "inj_on (of_nat :: nat \<Rightarrow> u32) (set (assign_symbols [0..<256] 0))"
    by (rule inj_onI) (auto dest!: assigned_small simp: word_unat_eq_iff unsigned_of_nat take_bit_nat_eq_self)
  then show ?thesis unfolding byte_symbols_def using assign_symbols_distinct [of "[0..<256]" 0] by (simp add: distinct_map)
qed

lemma byte_symbols_small: "v \<in> set byte_symbols \<Longrightarrow> v < 512"
  by (auto simp: byte_symbols_def word_less_nat_alt unsigned_of_nat take_bit_nat_eq_self dest!: assigned_small)

end
