(* ===== verification/Utf8_Stream.thy ===== *)
theory Utf8_Stream
  imports Tokenizer
begin

text \<open>
  Streaming of generated bytes, \<^verbatim>\<open>src/native_engine.cpp\<close>: \<open>complete_utf8_prefix\<close>, which finds the
  part of the pending bytes that ends at a character, and the lambda \<open>emit_new_tokens\<close>, which
  decodes the tokens generated since the last call and passes that part to the callback. The
  callback of the caller answers from the fragments it has already received and the new one.
\<close>

subsection \<open>The complete part of a byte string\<close>

abbreviation byte_of :: "char \<Rightarrow> u8" where
  "byte_of c \<equiv> of_char c"

definition lead_width :: "u8 \<Rightarrow> nat" where
  "lead_width lead =
     (if and lead 0x80 = 0 then 1
      else if lead \<ge> 0xC2 \<and> lead \<le> 0xDF then 2
      else if lead \<ge> 0xE0 \<and> lead \<le> 0xEF then 3
      else if lead \<ge> 0xF0 \<and> lead \<le> 0xF4 then 4
      else 1)"

definition continues :: "string \<Rightarrow> nat \<Rightarrow> nat \<Rightarrow> bool" where
  "continues bytes offset width \<longleftrightarrow>
     list_all (\<lambda>index. and (byte_of (bytes ! (offset + index))) 0xC0 = 0x80) [1..<width]"

lemma lead_width_pos [simp]: "0 < lead_width b"
  by (simp add: lead_width_def)

function utf8_scan :: "string \<Rightarrow> nat \<Rightarrow> nat" where
  "utf8_scan bytes offset =
     (if offset < length bytes then
        let width = lead_width (byte_of (bytes ! offset)) in
        if offset + width > length bytes then offset
        else utf8_scan bytes (offset + (if continues bytes offset width then width else 1))
      else offset)"
  by pat_completeness auto
termination
  by (relation "measure (\<lambda>(bytes, offset). length bytes - offset)") (auto intro!: diff_less_mono2)

declare utf8_scan.simps [simp del]

definition complete_utf8_prefix :: "string \<Rightarrow> nat" where
  "complete_utf8_prefix bytes = utf8_scan bytes 0"

lemma utf8_scan_bounds: "offset \<le> length bytes \<Longrightarrow> offset \<le> utf8_scan bytes offset \<and> utf8_scan bytes offset \<le> length bytes"
proof (induction bytes offset rule: utf8_scan.induct)
  case (1 bytes offset)
  let ?w = "lead_width (byte_of (bytes ! offset))"
  show ?case
  proof (cases "offset < length bytes \<and> offset + ?w \<le> length bytes")
    case True
    then have eq: "utf8_scan bytes offset = utf8_scan bytes (offset + (if continues bytes offset ?w then ?w else 1))"
      by (subst utf8_scan.simps) (simp add: Let_def)
    have "\<not> length bytes < offset + ?w" "offset + (if continues bytes offset ?w then ?w else 1) \<le> length bytes"
      using True by auto
    then show ?thesis using 1(1) [OF _ refl] True eq by auto
  next
    case False
    then have "utf8_scan bytes offset = offset"
      by (subst utf8_scan.simps) (auto simp: Let_def)
    then show ?thesis using 1(2) by simp
  qed
qed

lemma complete_utf8_prefix_le: "complete_utf8_prefix bytes \<le> length bytes"
  using utf8_scan_bounds [of 0 bytes] by (simp add: complete_utf8_prefix_def)

subsection \<open>Streaming\<close>

record stream_state =
  ss_streamed_tokens :: nat
  ss_pending_bytes :: string
  ss_connected :: bool
  ss_deltas :: "string list"

definition stream_start :: stream_state where
  "stream_start = \<lparr>ss_streamed_tokens = 0, ss_pending_bytes = [], ss_connected = True, ss_deltas = []\<rparr>"

type_synonym text_delta_callback = "string list \<Rightarrow> string \<Rightarrow> bool"

definition send_complete :: "text_delta_callback \<Rightarrow> stream_state \<Rightarrow> stream_state" where
  "send_complete on_delta ss =
     (let complete = complete_utf8_prefix (ss_pending_bytes ss) in
      if complete \<noteq> 0 then
        let fragment = take complete (ss_pending_bytes ss) in
        ss\<lparr>ss_connected := on_delta (ss_deltas ss) fragment,
           ss_pending_bytes := drop complete (ss_pending_bytes ss),
           ss_deltas := ss_deltas ss @ [fragment]\<rparr>
      else ss)"

lemma send_complete_keeps:
  "concat (ss_deltas (send_complete on_delta ss)) @ ss_pending_bytes (send_complete on_delta ss) =
     concat (ss_deltas ss) @ ss_pending_bytes ss"
  "ss_streamed_tokens (send_complete on_delta ss) = ss_streamed_tokens ss"
  by (simp_all add: send_complete_def Let_def)

definition emit_new_tokens ::
    "(u32 list \<Rightarrow> string result) \<Rightarrow> text_delta_callback option \<Rightarrow> u32 list \<Rightarrow> stream_state \<Rightarrow>
     bool result \<times> stream_state" where
  "emit_new_tokens decoding on_delta tokens ss =
     (case on_delta of
        None \<Rightarrow> (Inr True, ss)
      | Some callback \<Rightarrow>
          if ss_streamed_tokens ss = length tokens then (Inr True, ss)
          else if \<not> ss_connected ss then
            (Inr False, ss\<lparr>ss_streamed_tokens := length tokens, ss_pending_bytes := []\<rparr>)
          else case decoding (drop (ss_streamed_tokens ss) tokens) of
            Inl e \<Rightarrow> (Inl e, ss)
          | Inr bytes \<Rightarrow>
              let ss' = send_complete callback
                    (ss\<lparr>ss_pending_bytes := ss_pending_bytes ss @ bytes, ss_streamed_tokens := length tokens\<rparr>)
              in (Inr (ss_connected ss'), ss'))"

text \<open>What is left when the generation ends is sent as it is.\<close>

definition flush_pending :: "text_delta_callback option \<Rightarrow> stream_state \<Rightarrow> bool \<times> stream_state" where
  "flush_pending on_delta ss =
     (case on_delta of
        None \<Rightarrow> (True, ss)
      | Some callback \<Rightarrow>
          if ss_connected ss \<and> ss_pending_bytes ss \<noteq> [] then
            (callback (ss_deltas ss) (ss_pending_bytes ss), ss\<lparr>ss_deltas := ss_deltas ss @ [ss_pending_bytes ss]\<rparr>)
          else (True, ss))"

subsection \<open>Well-formed UTF-8\<close>

text \<open>The byte sequences of one character, table 3-7 of the Unicode standard.\<close>

definition continuation_byte :: "u8 \<Rightarrow> bool" where
  "continuation_byte b \<longleftrightarrow> 0x80 \<le> b \<and> b \<le> 0xBF"

fun utf8_bytes :: "u8 list \<Rightarrow> bool" where
  "utf8_bytes [a] \<longleftrightarrow> a \<le> 0x7F"
| "utf8_bytes [a, b] \<longleftrightarrow> 0xC2 \<le> a \<and> a \<le> 0xDF \<and> continuation_byte b"
| "utf8_bytes [a, b, c] \<longleftrightarrow>
     (a = 0xE0 \<and> 0xA0 \<le> b \<and> b \<le> 0xBF \<or> 0xE1 \<le> a \<and> a \<le> 0xEC \<and> continuation_byte b \<or>
      a = 0xED \<and> 0x80 \<le> b \<and> b \<le> 0x9F \<or> 0xEE \<le> a \<and> a \<le> 0xEF \<and> continuation_byte b) \<and>
     continuation_byte c"
| "utf8_bytes [a, b, c, d] \<longleftrightarrow>
     (a = 0xF0 \<and> 0x90 \<le> b \<and> b \<le> 0xBF \<or> 0xF1 \<le> a \<and> a \<le> 0xF3 \<and> continuation_byte b \<or>
      a = 0xF4 \<and> 0x80 \<le> b \<and> b \<le> 0x8F) \<and> continuation_byte c \<and> continuation_byte d"
| "utf8_bytes _ \<longleftrightarrow> False"

definition utf8_char :: "string \<Rightarrow> bool" where
  "utf8_char c \<longleftrightarrow> utf8_bytes (map of_char c)"

definition utf8_text :: "string \<Rightarrow> bool" where
  "utf8_text s \<longleftrightarrow> (\<exists>cs. (\<forall>c \<in> set cs. utf8_char c) \<and> s = concat cs)"

lemma byte_cases:
  "list_all (\<lambda>n. let b = word_of_nat n :: u8 in
     (and b 0x80 = 0 \<longleftrightarrow> b \<le> 0x7F) \<and> (and b 0xC0 = 0x80 \<longleftrightarrow> 0x80 \<le> b \<and> b \<le> 0xBF)) [0..<256]"
  by code_simp

lemma byte_tests:
  fixes b :: u8
  shows "and b 0x80 = 0 \<longleftrightarrow> b \<le> 0x7F" and "and b 0xC0 = 0x80 \<longleftrightarrow> continuation_byte b"
proof -
  have "unat b < 256" using unsigned_less [of b, where 'a = nat] by simp
  then have "unat b \<in> set [0..<256]" by simp
  with byte_cases have "let b = word_of_nat (unat b) :: u8 in
     (and b 0x80 = 0 \<longleftrightarrow> b \<le> 0x7F) \<and> (and b 0xC0 = 0x80 \<longleftrightarrow> 0x80 \<le> b \<and> b \<le> 0xBF)"
    unfolding list_all_iff by blast
  then show "and b 0x80 = 0 \<longleftrightarrow> b \<le> 0x7F" "and b 0xC0 = 0x80 \<longleftrightarrow> continuation_byte b"
    by (simp_all add: Let_def continuation_byte_def)
qed

lemma utf8_char_shape:
  assumes "utf8_char c"
  shows "c \<noteq> []" and "lead_width (byte_of (hd c)) = length c"
    and "\<forall>i. 1 \<le> i \<and> i < length c \<longrightarrow> continuation_byte (byte_of (c ! i))"
proof -
  obtain bs where bs: "bs = map (of_char :: char \<Rightarrow> u8) c" by simp
  have len: "length c = length bs" using bs by simp
  have hd: "c \<noteq> [] \<Longrightarrow> byte_of (hd c) = hd bs" using bs by (simp add: hd_map)
  have nth: "i < length c \<Longrightarrow> byte_of (c ! i) = bs ! i" for i using bs by simp
  have shape: "bs \<noteq> [] \<and> lead_width (hd bs) = length bs \<and>
      (\<forall>i. 1 \<le> i \<and> i < length bs \<longrightarrow> continuation_byte (bs ! i))"
    if "utf8_bytes bs" for bs :: "u8 list"
    using that
  proof (cases bs rule: utf8_bytes.cases)
    case (1 a)
    then show ?thesis using that by (simp add: lead_width_def byte_tests(1))
  next
    case (2 a b)
    then have "0xC2 \<le> a" "a \<le> 0xDF" "\<not> a \<le> 0x7F" using that by (auto simp: word_le_nat_alt)
    then show ?thesis using that 2 by (auto simp: lead_width_def byte_tests(1) less_Suc_eq)
  next
    case (3 a b c)
    then have "0xE0 \<le> a" "a \<le> 0xEF" using that by (auto simp: word_le_nat_alt)
    then have "\<not> a \<le> 0x7F" "\<not> a \<le> 0xDF" by (auto simp: word_le_nat_alt)
    moreover have "continuation_byte b" using that 3 by (auto simp: continuation_byte_def word_le_nat_alt)
    ultimately show ?thesis using that 3 \<open>0xE0 \<le> a\<close> \<open>a \<le> 0xEF\<close>
      by (auto simp: lead_width_def byte_tests(1) less_Suc_eq nth_Cons')
  next
    case (4 a b c d)
    then have "0xF0 \<le> a" "a \<le> 0xF4" using that by (auto simp: word_le_nat_alt)
    then have "\<not> a \<le> 0x7F" "\<not> a \<le> 0xDF" "\<not> a \<le> 0xEF" by (auto simp: word_le_nat_alt)
    moreover have "continuation_byte b" using that 4 by (auto simp: continuation_byte_def word_le_nat_alt)
    ultimately show ?thesis using that 4 \<open>0xF0 \<le> a\<close> \<open>a \<le> 0xF4\<close>
      by (auto simp: lead_width_def byte_tests(1) less_Suc_eq nth_Cons')
  qed auto
  have ok: "utf8_bytes bs" using assms bs by (simp add: utf8_char_def)
  note S = shape [OF this]
  then have ne: "c \<noteq> []" using len by auto
  with S hd show "c \<noteq> []" "lead_width (byte_of (hd c)) = length c"
    "\<forall>i. 1 \<le> i \<and> i < length c \<longrightarrow> continuation_byte (byte_of (c ! i))"
    using len nth by auto
qed

lemma utf8_scan_char:
  assumes "utf8_char c"
  shows "utf8_scan (pre @ c @ rest) (length pre) = utf8_scan (pre @ c @ rest) (length (pre @ c))"
proof -
  note S = utf8_char_shape [OF assms]
  have lead: "lead_width (byte_of ((pre @ c @ rest) ! length pre)) = length c"
    using S(1,2) by (simp add: nth_append hd_conv_nth)
  have "continues (pre @ c @ rest) (length pre) (length c)"
    using S(3) by (auto simp: continues_def list_all_iff byte_tests(2) nth_append)
  then show ?thesis
    using lead S(1) by (subst utf8_scan.simps) (simp add: Let_def)
qed

lemma utf8_scan_chars:
  assumes "\<forall>c \<in> set cs. utf8_char c"
  shows "utf8_scan (pre @ concat cs @ rest) (length pre) =
    utf8_scan (pre @ concat cs @ rest) (length (pre @ concat cs))"
  using assms
proof (induction cs arbitrary: pre)
  case (Cons c cs)
  have "utf8_scan (pre @ concat (c # cs) @ rest) (length pre) =
      utf8_scan ((pre @ c) @ concat cs @ rest) (length (pre @ c))"
    using utf8_scan_char [of c pre "concat cs @ rest"] Cons.prems by simp
  also have "\<dots> = utf8_scan ((pre @ c) @ concat cs @ rest) (length ((pre @ c) @ concat cs))"
    using Cons by (intro Cons.IH) auto
  finally show ?case by simp
qed simp

lemma utf8_scan_partial:
  assumes "utf8_char c" and "strict_prefix p c"
  shows "utf8_scan (pre @ p) (length pre) = length pre"
proof (cases p)
  case Nil
  then show ?thesis by (subst utf8_scan.simps) simp
next
  case (Cons x xs)
  then have "hd c = x" using assms(2) by (auto elim!: strict_prefixE')
  then have "lead_width (byte_of x) = length c" using utf8_char_shape(2) [OF assms(1)] by simp
  moreover have "length p < length c" using assms(2) by (rule prefix_length_less)
  ultimately show ?thesis using Cons by (subst utf8_scan.simps) (simp add: Let_def)
qed

text \<open>A prefix of a bytes splits into whole characters and an incomplete one.\<close>

lemma split_at_character:
  assumes "prefix x (concat cs)" and "[] \<notin> set cs"
  shows "\<exists>ds es p. cs = ds @ es \<and> x = concat ds @ p \<and>
    (p = [] \<or> (\<exists>c es'. es = c # es' \<and> strict_prefix p c))"
  using assms
proof (induction cs arbitrary: x)
  case Nil
  then show ?case by simp
next
  case (Cons c cs)
  consider "strict_prefix x c" | y where "x = c @ y" "prefix y (concat cs)"
    using Cons.prems(1) prefix_append [of x c "concat cs"] by (cases "x = c") (auto simp: strict_prefix_def)
  then show ?case
  proof cases
    case 1
    then show ?thesis by (intro exI [of _ "[]"] exI [of _ "c # cs"] exI [of _ x]) auto
  next
    case (2 y)
    from Cons.IH [OF 2(2)] Cons.prems obtain ds es p where
      "cs = ds @ es" "y = concat ds @ p" "p = [] \<or> (\<exists>c es'. es = c # es' \<and> strict_prefix p c)"
      by auto
    then show ?thesis using 2(1)
      by (intro exI [of _ "c # ds"] exI [of _ es] exI [of _ p]) auto
  qed
qed

lemma complete_utf8_prefix_split:
  assumes "\<forall>c \<in> set (ds @ es). utf8_char c" and "p = [] \<or> (\<exists>c es'. es = c # es' \<and> strict_prefix p c)"
  shows "complete_utf8_prefix (concat ds @ p) = length (concat ds)"
proof -
  have "utf8_scan (concat ds @ p) 0 = utf8_scan (concat ds @ p) (length (concat ds))"
    using utf8_scan_chars [of ds "[]" p] assms(1) by simp
  also have "\<dots> = length (concat ds)"
  proof (cases "p = []")
    case True
    then show ?thesis by (subst utf8_scan.simps) simp
  next
    case False
    then obtain c es' where "es = c # es'" "strict_prefix p c" using assms(2) by auto
    then show ?thesis using utf8_scan_partial [of c p "concat ds"] assms(1) by simp
  qed
  finally show ?thesis by (simp add: complete_utf8_prefix_def)
qed

lemma no_empty_char: "\<forall>c \<in> set cs. utf8_char c \<Longrightarrow> [] \<notin> set cs"
  using utf8_char_shape(1) by blast

lemma complete_utf8_prefix_whole:
  assumes "utf8_text (x @ y)"
  shows "utf8_text (take (complete_utf8_prefix x) x)"
proof -
  obtain cs where cs: "\<forall>c \<in> set cs. utf8_char c" "x @ y = concat cs"
    using assms by (auto simp: utf8_text_def)
  have "prefix x (concat cs)" using cs(2) by (metis prefixI)
  from split_at_character [OF this no_empty_char [OF cs(1)]] obtain ds es p where
    S: "cs = ds @ es" "x = concat ds @ p" "p = [] \<or> (\<exists>c es'. es = c # es' \<and> strict_prefix p c)"
    by blast
  have "complete_utf8_prefix (concat ds @ p) = length (concat ds)"
    using complete_utf8_prefix_split [of ds es p] S cs(1) by simp
  then have "take (complete_utf8_prefix x) x = concat ds" by (simp add: S(2))
  then show ?thesis using cs(1) S(1) by (auto simp: utf8_text_def)
qed

lemma complete_utf8_prefix_covers:
  assumes "n \<le> length x" and "utf8_text (take n x)"
  shows "n \<le> complete_utf8_prefix x"
proof -
  obtain ds where ds: "\<forall>c \<in> set ds. utf8_char c" "take n x = concat ds"
    using assms(2) by (auto simp: utf8_text_def)
  have x: "concat ds @ drop n x = x" using ds(2) by (metis append_take_drop_id)
  have "utf8_scan x 0 = utf8_scan x (length (concat ds))"
    using utf8_scan_chars [OF ds(1), of "[]" "drop n x"] by (simp add: x)
  moreover have "length (concat ds) = n" using ds(2) assms(1) by (metis length_take min_absorb2)
  ultimately show ?thesis using utf8_scan_bounds [of n x] assms(1) by (simp add: complete_utf8_prefix_def)
qed

lemma utf8_text_append: "utf8_text a \<Longrightarrow> utf8_text b \<Longrightarrow> utf8_text (a @ b)"
proof -
  assume "utf8_text a" "utf8_text b"
  then obtain cs ds where "\<forall>c \<in> set (cs @ ds). utf8_char c" "a = concat cs" "b = concat ds"
    by (auto simp: utf8_text_def)
  then show ?thesis unfolding utf8_text_def by (intro exI [of _ "cs @ ds"]) auto
qed

text \<open>The first byte tells the length of a character, so a text splits in one way only.\<close>

lemma utf8_char_unique:
  assumes "utf8_char c" and "utf8_char d" and "c @ x = d @ y"
  shows "c = d \<and> x = y"
proof -
  have "hd c = hd d"
    using assms utf8_char_shape(1) by (metis hd_append2)
  then have "length c = length d" using utf8_char_shape(2) assms(1,2) by metis
  then show ?thesis using assms(3) by simp
qed

lemma utf8_text_rest:
  assumes "utf8_text a" and "utf8_text (a @ b)"
  shows "utf8_text b"
proof -
  obtain ds where "\<forall>c \<in> set ds. utf8_char c" "a = concat ds" using assms(1) by (auto simp: utf8_text_def)
  moreover obtain cs where "\<forall>c \<in> set cs. utf8_char c" "a @ b = concat cs"
    using assms(2) by (auto simp: utf8_text_def)
  ultimately have "concat ds @ b = concat cs" "\<forall>c \<in> set ds. utf8_char c" "\<forall>c \<in> set cs. utf8_char c"
    by auto
  then show ?thesis
  proof (induction ds arbitrary: cs)
    case Nil
    then show ?case by (auto simp: utf8_text_def)
  next
    case (Cons d ds)
    obtain c cs' where cs: "cs = c # cs'"
      using Cons.prems utf8_char_shape(1) [of d] by (cases cs) auto
    have "d = c \<and> concat ds @ b = concat cs'"
      using Cons.prems cs by (intro utf8_char_unique) auto
    then show ?case using Cons.IH [of cs'] Cons.prems cs by auto
  qed
qed

text \<open>C36. For every beginning \<open>x\<close> of a well-formed UTF-8 text the function returns the longest
  part of \<open>x\<close> that is itself well-formed: a character is never cut in two, and nothing that is
  complete is held back.\<close>

theorem complete_utf8_prefix_longest:
  assumes "utf8_text (x @ y)"
  shows "utf8_text (take (complete_utf8_prefix x) x) \<and>
    (\<forall>n \<le> length x. utf8_text (take n x) \<longrightarrow> n \<le> complete_utf8_prefix x)"
  using complete_utf8_prefix_whole [OF assms] complete_utf8_prefix_covers by blast

theorem complete_utf8_prefix_longest_witness:
  "utf8_text (take (complete_utf8_prefix [CHR ''a'', CHR 0xC3]) [CHR ''a'', CHR 0xC3]) \<and>
    complete_utf8_prefix [CHR ''a'', CHR 0xC3] = 1"
proof -
  have "utf8_text ([CHR ''a'', CHR 0xC3] @ [CHR 0xA9])"
    unfolding utf8_text_def
    by (rule exI [of _ "[[CHR ''a''], [CHR 0xC3, CHR 0xA9]]"]) (simp add: utf8_char_def continuation_byte_def)
  moreover have "complete_utf8_prefix [CHR ''a'', CHR 0xC3] = 1"
    by code_simp
  ultimately show ?thesis using complete_utf8_prefix_longest by blast
qed

subsection \<open>What the caller receives\<close>

text \<open>
  What has been sent is a beginning of the decoded text; while the caller is connected the pending
  bytes are all that is missing; and if the text can be continued to a well-formed one, every
  fragment is well-formed.
\<close>

definition stream_inv :: "(u32 list \<Rightarrow> string result) \<Rightarrow> u32 list \<Rightarrow> stream_state \<Rightarrow> bool" where
  "stream_inv decoding tokens ss \<longleftrightarrow>
     (\<exists>m rest. m \<le> length tokens \<and> ss_streamed_tokens ss \<le> length tokens \<and>
        decoding (take m tokens) = Inr (concat (ss_deltas ss) @ rest) \<and>
        (ss_connected ss \<longrightarrow> m = ss_streamed_tokens ss \<and> rest = ss_pending_bytes ss) \<and>
        (\<forall>y. utf8_text (concat (ss_deltas ss) @ rest @ y) \<longrightarrow>
           list_all utf8_text (ss_deltas ss) \<and> utf8_text (concat (ss_deltas ss))))"

text \<open>The decoder of token identifiers as an interface: decoding a list is decoding its parts.\<close>

locale token_decoder =
  fixes decoding :: "u32 list \<Rightarrow> string result"
  assumes decoding_Nil: "decoding [] = Inr []"
    and decoding_append:
      "decoding (xs @ ys) = res_bind (decoding xs) (\<lambda>a. res_bind (decoding ys) (\<lambda>b. Inr (a @ b)))"
begin

lemma stream_start_inv: "stream_inv decoding [] stream_start"
  unfolding stream_inv_def stream_start_def
  by (auto simp: decoding_Nil utf8_text_def intro: exI [of _ 0] exI [of _ "[] :: string list"])

lemma stream_inv_push: "stream_inv decoding tokens ss \<Longrightarrow> stream_inv decoding (tokens @ us) ss"
  unfolding stream_inv_def
  by (elim exE conjE) (rule_tac x = m in exI, rule_tac x = rest in exI, simp)

lemma emit_new_tokens_cases:
  assumes "emit_new_tokens decoding on_delta tokens ss = (Inr sent, ss')"
  obtains "ss' = ss" "sent"
  | "\<not> ss_connected ss" "ss' = ss\<lparr>ss_streamed_tokens := length tokens, ss_pending_bytes := []\<rparr>" "\<not> sent"
  | callback new where "on_delta = Some callback" "ss_connected ss"
      "decoding (drop (ss_streamed_tokens ss) tokens) = Inr new"
      "ss' = send_complete callback
        (ss\<lparr>ss_pending_bytes := ss_pending_bytes ss @ new, ss_streamed_tokens := length tokens\<rparr>)"
      "sent = ss_connected ss'"
proof (cases on_delta)
  case None
  then show thesis using assms that(1) by (simp add: emit_new_tokens_def)
next
  case (Some callback)
  note eq = assms [unfolded emit_new_tokens_def Some option.case]
  show thesis
  proof (cases "ss_streamed_tokens ss = length tokens")
    case True
    then show thesis using eq by (intro that(1)) auto
  next
    case False
    note streamed = this
    show thesis
    proof (cases "ss_connected ss")
      case True
      obtain new where new: "decoding (drop (ss_streamed_tokens ss) tokens) = Inr new"
        using eq streamed True by (cases "decoding (drop (ss_streamed_tokens ss) tokens)") auto
      show thesis
        using eq streamed True new by (intro that(3) [OF Some True new]) (auto simp: Let_def)
    next
      case False
      then show thesis using eq streamed by (intro that(2)) auto
    qed
  qed
qed

lemma emit_new_tokens_inv:
  assumes inv: "stream_inv decoding tokens ss"
    and emit: "emit_new_tokens decoding on_delta tokens ss = (Inr sent, ss')"
  shows "stream_inv decoding tokens ss'"
proof -
  from inv obtain m rest where I: "m \<le> length tokens" "ss_streamed_tokens ss \<le> length tokens"
      "decoding (take m tokens) = Inr (concat (ss_deltas ss) @ rest)"
      "ss_connected ss \<longrightarrow> m = ss_streamed_tokens ss \<and> rest = ss_pending_bytes ss"
      "\<forall>y. utf8_text (concat (ss_deltas ss) @ rest @ y) \<longrightarrow>
         list_all utf8_text (ss_deltas ss) \<and> utf8_text (concat (ss_deltas ss))"
    unfolding stream_inv_def by blast
  from emit show ?thesis
  proof (cases rule: emit_new_tokens_cases)
    case 1
    then show ?thesis using inv by simp
  next
    case 2
    then show ?thesis using I unfolding stream_inv_def by fastforce
  next
    case (3 callback new)
    let ?p = "rest @ new" and ?d = "concat (ss_deltas ss)"
    let ?k = "complete_utf8_prefix ?p"
    have m: "m = ss_streamed_tokens ss" "rest = ss_pending_bytes ss" using I(4) 3(2) by auto
    have all: "decoding tokens = Inr (?d @ ?p)"
      using decoding_append [of "take m tokens" "drop m tokens"] I(3) 3(3) m by simp
    have whole: "utf8_text (take ?k ?p)" "list_all utf8_text (ss_deltas ss)" "utf8_text (?d @ take ?k ?p)"
      if y: "utf8_text (?d @ ?p @ y)" for y
    proof -
      have I5: "list_all utf8_text (ss_deltas ss) \<and> utf8_text ?d" using I(5) y by (metis append.assoc)
      have "utf8_text (?p @ y)" using utf8_text_rest [of ?d "?p @ y"] I5 y by simp
      then show "utf8_text (take ?k ?p)" by (rule complete_utf8_prefix_whole)
      then show "utf8_text (?d @ take ?k ?p)" using I5 utf8_text_append by blast
      show "list_all utf8_text (ss_deltas ss)" using I5 by simp
    qed
    have d: "concat (ss_deltas ss') @ ss_pending_bytes ss' = ?d @ ?p" "ss_streamed_tokens ss' = length tokens"
      using send_complete_keeps [of callback] by (simp_all add: 3(4) m)
    have "list_all utf8_text (ss_deltas ss') \<and> utf8_text (concat (ss_deltas ss'))"
      if y: "utf8_text (concat (ss_deltas ss') @ ss_pending_bytes ss' @ y)" for y
    proof -
      have "utf8_text (?d @ ?p @ y)" using y d(1) by (metis append.assoc)
      from whole [OF this] show ?thesis
        using 3(4) m by (auto simp: send_complete_def Let_def simp del: take_append drop_append)
    qed
    then show ?thesis
      unfolding stream_inv_def using all d
      by (intro exI [of _ "length tokens"] exI [of _ "ss_pending_bytes ss'"]) auto
  qed
qed

end

lemma decode_is_token_decoder:
  "decode U T (xs @ ys) = res_bind (decode U T xs) (\<lambda>a. res_bind (decode U T ys) (\<lambda>b. Inr (a @ b)))"
proof (cases "res_map (decode_token U T) xs")
  case (Inr a)
  then show ?thesis by (cases "res_map (decode_token U T) ys") (auto simp: decode_def res_map_append)
qed (simp add: decode_def res_map_append)

interpretation tokenizer_decoder: token_decoder "decode U T" for U T
  by unfold_locales (simp_all add: decode_is_token_decoder, simp add: decode_def)

end
