(* ===== verification/Native_Engine.thy ===== *)
theory Native_Engine
  imports Complex_Main Mtp_Runner Prefill Context_Copy Mtp_Policy Runtime_Profile Utf8_Stream
begin

text \<open>
  One request of the inference engine, \<open>NativeEngine::complete_impl\<close> of
  \<^verbatim>\<open>src/native_engine.cpp\<close>: taking over a cached prefix, ingesting the rest of the prompt, caching
  the prompt state, the generation loop with its serial and its speculative steps, streaming, and
  caching the state reached at the end.

  The engine is the one without the persistent Metal backend and without the on-disk prefix store
  (\<open>persistent_backend_\<close> and \<open>ssd_prefix_cache_\<close> are null): their branches are left out. Clocks,
  logging, allocator calls, the query-metadata switch of the model and the diagnostic profiles
  have no effect on what is computed and are left out too. The random draw of \<open>sample_token\<close> and
  the seeding of its generator are parameters of the engine; a finite \<open>float\<close> or \<open>double\<close> is the
  rational number it denotes.
\<close>

subsection \<open>Double arithmetic\<close>

text \<open>Rounding to the nearest double, ties to even, for the range from 0 to 1 used here.\<close>

definition round_half_even :: "rat \<Rightarrow> int" where
  "round_half_even x =
     (let f = floor x; d = x - of_int f
      in if d < 1 / 2 then f else if d > 1 / 2 then f + 1 else if even f then f else f + 1)"

fun double_scale :: "nat \<Rightarrow> rat \<Rightarrow> nat" where
  "double_scale 0 x = 0"
| "double_scale (Suc n) x = (if x \<ge> 4503599627370496 then 0 else Suc (double_scale n (2 * x)))"

definition to_double :: "rat \<Rightarrow> rat" where
  "to_double x =
     (if x \<le> 0 then 0
      else let k = double_scale 1074 x in of_int (round_half_even (x * 2 ^ k)) / 2 ^ k)"

subsection \<open>Requests, results and the engine\<close>

record SamplingOptions =
  so_temperature :: rat
  so_top_p :: rat
  so_top_k :: nat
  so_seed :: u64
  so_frequency_penalty :: rat
  so_thinking_budget_tokens :: nat

record GenerationResult =
  gr_text :: string
  gr_tokens :: "u32 list"
  gr_prompt_tokens :: nat
  gr_cached_prompt_tokens :: nat
  gr_finish_reason :: string
  gr_mtp_rounds :: nat
  gr_mtp_proposed :: nat
  gr_mtp_accepted :: nat
  gr_mtp_proposed_by_position :: "nat list"
  gr_mtp_accepted_by_position :: "nat list"
  gr_mtp_top2_rejected_by_position :: "nat list"
  gr_mtp_top2_recovered_by_position :: "nat list"
  gr_mtp_top2_descendant_recovered_by_position :: "nat list"
  gr_mtp_top2_descendant_accepted_by_position :: "nat list"
  gr_mtp_fallbacks :: nat
  gr_mtp_final_depth :: nat
  gr_mtp_promotions :: nat
  gr_mtp_demotions :: nat
  gr_mtp_profitability_cache_skip :: bool
  gr_mtp_profitability_cache_keep :: bool
  gr_history_draft_rounds :: nat
  gr_history_draft_proposed :: nat
  gr_history_draft_accepted :: nat
  gr_history_draft_activations :: nat
  gr_history_draft_deactivations :: nat
  gr_context_copy_rounds :: nat
  gr_context_copy_proposed :: nat
  gr_context_copy_accepted :: nat
  gr_context_copy_suspensions :: nat
  gr_thinking_budget_tokens :: nat
  gr_thinking_budget_forced :: bool

definition empty_result :: GenerationResult where
  "empty_result = \<lparr>gr_text = [], gr_tokens = [], gr_prompt_tokens = 0, gr_cached_prompt_tokens = 0,
     gr_finish_reason = ''length'', gr_mtp_rounds = 0, gr_mtp_proposed = 0, gr_mtp_accepted = 0,
     gr_mtp_proposed_by_position = replicate 4 0, gr_mtp_accepted_by_position = replicate 4 0,
     gr_mtp_top2_rejected_by_position = replicate 4 0, gr_mtp_top2_recovered_by_position = replicate 4 0,
     gr_mtp_top2_descendant_recovered_by_position = replicate 4 0,
     gr_mtp_top2_descendant_accepted_by_position = replicate 4 0,
     gr_mtp_fallbacks = 0, gr_mtp_final_depth = 0, gr_mtp_promotions = 0, gr_mtp_demotions = 0,
     gr_mtp_profitability_cache_skip = False, gr_mtp_profitability_cache_keep = False,
     gr_history_draft_rounds = 0, gr_history_draft_proposed = 0, gr_history_draft_accepted = 0,
     gr_history_draft_activations = 0, gr_history_draft_deactivations = 0,
     gr_context_copy_rounds = 0, gr_context_copy_proposed = 0, gr_context_copy_accepted = 0,
     gr_context_copy_suspensions = 0, gr_thinking_budget_tokens = 0, gr_thinking_budget_forced = False\<rparr>"

record NativeEngineOptions =
  op_max_generation_tokens :: nat
  op_prefill_chunk_rows :: nat
  op_adaptive_prefill_chunks :: bool
  op_prefix_cache_max_tokens :: nat
  op_zero_accept_fallback_rounds :: nat

record ('s, 'ls, 'hl) PrefixCacheEntry =
  pe_tokens :: "u32 list"
  pe_target_state :: "'ls decode_state"
  pe_mtp_state :: "'hl mtp_decode_state"
  pe_previous_target_stream :: "'s option"
  pe_pending_mtp_streams :: "'s list"
  pe_pending_mtp_tokens :: "u32 list"
  pe_mtp_profitable :: "bool option"
  pe_mtp_profitability_current_token :: "u32 option"
  pe_mtp_cumulative_profitability_keep :: bool

text \<open>
  What a request reads: the options, the loaded model, the tokenizer and the configuration;
  \<open>ne_make_state\<close> and \<open>ne_make_mtp_state\<close> are the fresh states, \<open>ne_vq_layer_major\<close> says that the
  manifest has the vector quantization of the third layer.
\<close>

record ('s, 'ls, 'hl, 'm, 'g, 'r) NativeEngine =
  ne_options :: NativeEngineOptions
  ne_model :: "('s, 'ls, 'm, 'g) model"
  ne_mtp_head :: "('s, 'hl, 'm, 'g) mtp_head option"
  ne_unicode :: unicode
  ne_tokenizer :: Tokenizer
  ne_make_state :: "'ls decode_state"
  ne_make_mtp_state :: "'hl mtp_decode_state"
  ne_mtp_depth :: nat
  ne_adaptive_mtp_depth :: bool
  ne_max_context_tokens :: nat
  ne_end_of_sequence_token :: u32
  ne_chat_end_token :: u32
  ne_vq_layer_major :: bool
  ne_seed_random :: "u64 \<Rightarrow> 'r"
  ne_draw :: "'g \<Rightarrow> SamplingOptions \<Rightarrow> u32 list \<Rightarrow> 'r \<Rightarrow> u32 result \<times> 'r"

text \<open>What outlives a request.\<close>

record ('s, 'ls, 'hl, 'm) engine_world =
  ew_prefix_cache :: "('s, 'ls, 'hl) PrefixCacheEntry option"
  ew_bpe_cache :: bpe_cache
  ew_calibration :: "'m calibration"

subsection \<open>Small functions\<close>

definition sample_token ::
    "('s, 'ls, 'hl, 'm, 'g, 'r) NativeEngine \<Rightarrow> 'g \<Rightarrow> SamplingOptions \<Rightarrow> 'r \<Rightarrow> u32 list \<Rightarrow> u32 result \<times> 'r" where
  "sample_token E logits options random generated_tokens =
     (if so_temperature options \<le> 0 then (Inr (md_argmax (ne_model E) logits), random)
      else ne_draw E logits options generated_tokens random)"

definition is_prefix :: "u32 list \<Rightarrow> u32 list \<Rightarrow> bool" where
  "is_prefix pre tokens \<longleftrightarrow> length pre \<le> length tokens \<and> take (length pre) tokens = pre"

definition slice_sequence_rows :: "'s list \<Rightarrow> nat \<Rightarrow> nat \<Rightarrow> 's list result" where
  "slice_sequence_rows batch begin_row end_row =
     (if begin_row \<ge> end_row \<or> end_row > length batch then Inl (RuntimeError ''invalid prefill stream slice'')
      else Inr (take (end_row - begin_row) (drop begin_row batch)))"

definition batched_mtp_prefill_enabled :: "environment \<Rightarrow> bool" where
  "batched_mtp_prefill_enabled env \<longleftrightarrow> env ''QWEN38_BATCH_MTP_PREFILL'' \<noteq> Some ''0''"

definition use_long_history_depth_four :: "environment \<Rightarrow> nat \<Rightarrow> bool" where
  "use_long_history_depth_four env token_count \<longleftrightarrow>
     \<not> token_count < 512 \<and> env ''QWEN38_LONG_HISTORY_DEPTH4'' \<noteq> Some ''0'' \<and>
     (env ''QWEN38_SDPA_DECODE'' = None \<or> env ''QWEN38_SDPA_DECODE'' = Some ''1'') \<and>
     env ''QWEN38_BATCH_SDPA_VERIFY'' \<noteq> Some ''0''"

definition cache_completed_mtp_as_profitable :: "environment \<Rightarrow> nat \<Rightarrow> nat \<Rightarrow> nat \<Rightarrow> bool" where
  "cache_completed_mtp_as_profitable env rounds accepted fallbacks =
     (if env ''QWEN38_MTP_CUMULATIVE_PROFITABILITY_CACHE'' \<noteq> Some ''1'' then fallbacks = 0
      else cache_mtp_as_profitable (of_nat rounds) (of_nat accepted) (of_nat fallbacks))"

definition is_stop_token :: "('s, 'ls, 'hl, 'm, 'g, 'r) NativeEngine \<Rightarrow> u32 \<Rightarrow> bool" where
  "is_stop_token E token \<longleftrightarrow> token = ne_end_of_sequence_token E \<or> token = ne_chat_end_token E"

definition stop_tokens :: "('s, 'ls, 'hl, 'm, 'g, 'r) NativeEngine \<Rightarrow> u32 list" where
  "stop_tokens E = [ne_end_of_sequence_token E, ne_chat_end_token E]"

subsection \<open>Ingesting the prompt\<close>

text \<open>The companion head consumes the streams of a batch of prompt rows, one row behind the target.\<close>

primrec consume_row_by_row ::
    "nat \<Rightarrow> ('s, 'hl, 'm, 'g) mtp_head option \<Rightarrow> u32 list \<Rightarrow> 's list \<Rightarrow> nat \<Rightarrow> nat \<Rightarrow>
     's option \<times> 'hl mtp_decode_state \<Rightarrow> ('s option \<times> 'hl mtp_decode_state) result" where
  "consume_row_by_row 0 H prompt batch offset row x = Inr x"
| "consume_row_by_row (Suc n) H prompt batch offset row x =
     (case x of (previous, mtp) \<Rightarrow>
        res_bind (case (H, previous) of
            (Some h, Some stream) \<Rightarrow>
              (case consume_decode h stream (prompt ! (offset + row)) (offset + row) mtp of
                 (Inl e, _) \<Rightarrow> Inl e | (Inr _, mtp') \<Rightarrow> Inr mtp')
          | _ \<Rightarrow> Inr mtp) (\<lambda>mtp'.
          res_bind (slice_sequence_rows batch row (row + 1)) (\<lambda>rows.
            consume_row_by_row n H prompt batch offset (row + 1) (Some (hd rows), mtp'))))"

definition consume_target_batch ::
    "environment \<Rightarrow> ('s, 'hl, 'm, 'g) mtp_head option \<Rightarrow> u32 list \<Rightarrow> 's list \<Rightarrow> nat \<Rightarrow> nat \<Rightarrow>
     's option \<times> 'hl mtp_decode_state \<Rightarrow> ('s option \<times> 'hl mtp_decode_state) result" where
  "consume_target_batch env H prompt batch offset count x =
     (case x of (previous, mtp) \<Rightarrow>
        if H \<noteq> None \<and> batched_mtp_prefill_enabled env then
          let first_token = (if previous \<noteq> None then offset else offset + 1);
              rows = offset + count - first_token in
          res_bind (if first_token < offset + count then
              res_bind (case previous of
                  Some stream \<Rightarrow>
                    if rows = 1 then Inr [stream]
                    else res_bind (slice_sequence_rows batch 0 (rows - 1)) (\<lambda>ss. Inr (stream # ss))
                | None \<Rightarrow> slice_sequence_rows batch 0 rows) (\<lambda>target_rows.
                case consume_prefill_batch (the H) target_rows (take rows (drop first_token prompt))
                    first_token mtp of
                  (Inl e, _) \<Rightarrow> Inl e | (Inr _, mtp') \<Rightarrow> Inr mtp')
            else Inr mtp) (\<lambda>mtp'.
            res_bind (slice_sequence_rows batch (count - 1) count) (\<lambda>ss. Inr (Some (hd ss), mtp')))
        else consume_row_by_row count H prompt batch offset 0 x)"

function consume_stream_batch ::
    "environment \<Rightarrow> ('s, 'hl, 'm, 'g) mtp_head option \<Rightarrow> u32 list \<Rightarrow> 's list \<Rightarrow> nat \<Rightarrow> nat \<Rightarrow> nat \<Rightarrow>
     's option \<times> 'hl mtp_decode_state \<Rightarrow> ('s option \<times> 'hl mtp_decode_state) result" where
  "consume_stream_batch env H prompt stream_batch offset count batch_offset x =
     (if batch_offset < count then
        let batch_count = min 512 (count - batch_offset) in
        res_bind (if batch_offset = 0 \<and> batch_count = count then Inr stream_batch
                  else slice_sequence_rows stream_batch batch_offset (batch_offset + batch_count)) (\<lambda>batch.
          res_bind (consume_target_batch env H prompt batch (offset + batch_offset) batch_count x) (\<lambda>x'.
            consume_stream_batch env H prompt stream_batch offset count (batch_offset + 512) x'))
      else Inr x)"
  by pat_completeness auto
termination
  by (relation "measure (\<lambda>(env, H, prompt, b, offset, count, batch_offset, x). count - batch_offset)") auto

declare consume_stream_batch.simps [simp del]

text \<open>The three variables the two prefill loops update.\<close>

type_synonym ('s, 'ls, 'hl) ingest = "'ls decode_state \<times> 's option \<times> 'hl mtp_decode_state"

fun prefill_sequential ::
    "environment \<Rightarrow> ('s, 'ls, 'hl, 'm, 'g, 'r) NativeEngine \<Rightarrow> u32 list \<Rightarrow> u32 list list \<Rightarrow> nat \<Rightarrow>
     ('s, 'ls, 'hl) ingest \<Rightarrow> ('s, 'ls, 'hl) ingest result" where
  "prefill_sequential env E prompt [] offset x = Inr x"
| "prefill_sequential env E prompt (part # parts) offset (target, x) =
     (case prefill_chunk_batch env (ne_model E) part target of
        (Inl e, _) \<Rightarrow> Inl e
      | (Inr batch, target') \<Rightarrow>
          res_bind (consume_stream_batch env (ne_mtp_head E) prompt batch offset (length part) 0 x) (\<lambda>x'.
            prefill_sequential env E prompt parts (offset + length part) (target', x')))"

fun consume_outputs ::
    "environment \<Rightarrow> ('s, 'ls, 'hl, 'm, 'g, 'r) NativeEngine \<Rightarrow> u32 list \<Rightarrow> nat \<Rightarrow> nat \<Rightarrow> 's list list \<Rightarrow>
     's option \<times> 'hl mtp_decode_state \<Rightarrow> ('s option \<times> 'hl mtp_decode_state) result" where
  "consume_outputs env E prompt chunk output_offset [] x = Inr x"
| "consume_outputs env E prompt chunk output_offset (out # outs) x =
     (let output_count = min chunk (length prompt - 1 - output_offset) in
      res_bind (consume_stream_batch env (ne_mtp_head E) prompt out output_offset output_count 0 x) (\<lambda>x'.
        consume_outputs env E prompt chunk (output_offset + output_count) outs x'))"

fun prefill_windows ::
    "environment \<Rightarrow> ('s, 'ls, 'hl, 'm, 'g, 'r) NativeEngine \<Rightarrow> u32 list \<Rightarrow> nat \<Rightarrow> u32 list list \<Rightarrow> nat \<Rightarrow>
     ('s, 'ls, 'hl) ingest \<Rightarrow> ('s, 'ls, 'hl) ingest result" where
  "prefill_windows env E prompt chunk [] window_offset x = Inr x"
| "prefill_windows env E prompt chunk (window # windows) window_offset (target, x) =
     (case prefill_chunks_layer_major env (ne_model E) window chunk target of
        (Inl e, _) \<Rightarrow> Inl e
      | (Inr outs, target') \<Rightarrow>
          res_bind (consume_outputs env E prompt chunk window_offset outs x) (\<lambda>x'.
            prefill_windows env E prompt chunk windows (window_offset + length window) (target', x')))"

definition ingest_prompt ::
    "environment \<Rightarrow> ('s, 'ls, 'hl, 'm, 'g, 'r) NativeEngine \<Rightarrow> u32 list \<Rightarrow> nat \<Rightarrow> nat \<Rightarrow>
     ('s, 'ls, 'hl) ingest \<Rightarrow> ('s, 'ls, 'hl) ingest result" where
  "ingest_prompt env E prompt chunk prefill_offset x =
     (let prefill_rows = length prompt - 1; rest = drop prefill_offset (butlast prompt) in
      if ne_mtp_head E = None \<and> prefill_rows - prefill_offset > chunk \<and> ne_vq_layer_major E
      then prefill_windows env E prompt chunk (chunk_spans 8192 rest) prefill_offset x
      else prefill_sequential env E prompt (chunk_spans chunk rest) prefill_offset x)"

text \<open>Taking over the cached prefix; the cached verdict on the drafter counts for the same prompt only.\<close>

record ('s, 'ls, 'hl) prepared_prompt =
  pp_target :: "'ls decode_state"
  pp_previous :: "'s option"
  pp_mtp :: "'hl mtp_decode_state"
  pp_prefill_offset :: nat
  pp_cached_profitability :: "bool option"
  pp_cached_cumulative_keep :: bool

definition restore_mtp ::
    "('s, 'ls, 'hl, 'm, 'g, 'r) NativeEngine \<Rightarrow> ('s, 'ls, 'hl) PrefixCacheEntry \<Rightarrow> 'hl mtp_decode_state result" where
  "restore_mtp E entry =
     (case ne_mtp_head E of
        None \<Rightarrow> Inr (ne_make_mtp_state E)
      | Some H \<Rightarrow>
          (case consume_pending_mtp_rows H (pe_pending_mtp_streams entry) (pe_pending_mtp_tokens entry)
              (pe_mtp_state entry) of
             (Inl e, _) \<Rightarrow> Inl e | (Inr _, mtp) \<Rightarrow> Inr mtp))"

definition restore_prefix ::
    "('s, 'ls, 'hl, 'm, 'g, 'r) NativeEngine \<Rightarrow> u32 list \<Rightarrow> ('s, 'ls, 'hl) PrefixCacheEntry option \<Rightarrow>
     ('s, 'ls, 'hl) prepared_prompt result" where
  "restore_prefix E prompt cache =
     (let fresh = \<lparr>pp_target = ne_make_state E, pp_previous = None, pp_mtp = ne_make_mtp_state E,
            pp_prefill_offset = 0, pp_cached_profitability = None, pp_cached_cumulative_keep = False\<rparr> in
      case cache of
        None \<Rightarrow> Inr fresh
      | Some entry \<Rightarrow>
          if is_prefix (pe_tokens entry) (butlast prompt) then
            res_bind (snapshot_state (ne_model E) (pe_target_state entry)) (\<lambda>target.
              res_bind (restore_mtp E entry) (\<lambda>mtp.
                let exact = (length (pe_tokens entry) = length prompt - 1 \<and>
                      pe_mtp_profitability_current_token entry = Some (last prompt)) in
                Inr \<lparr>pp_target = target, pp_previous = pe_previous_target_stream entry, pp_mtp = mtp,
                     pp_prefill_offset = length (pe_tokens entry),
                     pp_cached_profitability = (if exact then pe_mtp_profitable entry else None),
                     pp_cached_cumulative_keep = (exact \<and> pe_mtp_cumulative_profitability_keep entry)\<rparr>))
          else Inr fresh)"

definition request_prefill_chunk ::
    "('s, 'ls, 'hl, 'm, 'g, 'r) NativeEngine \<Rightarrow> u32 list \<Rightarrow> nat result" where
  "request_prefill_chunk E prompt =
     (if op_adaptive_prefill_chunks (ne_options E)
      then select_prefill_chunk_rows (op_prefill_chunk_rows (ne_options E)) (length prompt - 1)
      else Inr (op_prefill_chunk_rows (ne_options E)))"

definition prepare_prompt ::
    "environment \<Rightarrow> ('s, 'ls, 'hl, 'm, 'g, 'r) NativeEngine \<Rightarrow> u32 list \<Rightarrow> ('s, 'ls, 'hl) PrefixCacheEntry option \<Rightarrow>
     ('s, 'ls, 'hl) prepared_prompt result" where
  "prepare_prompt env E prompt cache =
     res_bind (request_prefill_chunk E prompt) (\<lambda>chunk.
       res_bind (restore_prefix E prompt cache) (\<lambda>pp.
         res_bind (ingest_prompt env E prompt chunk (pp_prefill_offset pp)
             (pp_target pp, pp_previous pp, pp_mtp pp)) (\<lambda>(target, previous, mtp).
           Inr (pp\<lparr>pp_target := target, pp_previous := previous, pp_mtp := mtp\<rparr>))))"

text \<open>The checkpoint of the prompt, taken before the first token is generated.\<close>

definition cache_prompt ::
    "('s, 'ls, 'hl, 'm, 'g, 'r) NativeEngine \<Rightarrow> u32 list \<Rightarrow> ('s, 'ls, 'hl) prepared_prompt \<Rightarrow>
     ('s, 'ls, 'hl) PrefixCacheEntry option \<Rightarrow> ('s, 'ls, 'hl) PrefixCacheEntry option result" where
  "cache_prompt E prompt pp cache =
     (let prefill_rows = length prompt - 1; limit = op_prefix_cache_max_tokens (ne_options E) in
      if limit \<noteq> 0 \<and> prefill_rows \<noteq> 0 \<and> prefill_rows \<le> limit \<and>
         (cache = None \<or> pp_prefill_offset pp \<noteq> prefill_rows)
      then res_bind (snapshot_state (ne_model E) (pp_target pp)) (\<lambda>target.
        Inr (Some \<lparr>pe_tokens = butlast prompt, pe_target_state = target,
          pe_mtp_state = (if ne_mtp_head E = None then ne_make_mtp_state E else pp_mtp pp),
          pe_previous_target_stream = pp_previous pp, pe_pending_mtp_streams = [],
          pe_pending_mtp_tokens = [], pe_mtp_profitable = None,
          pe_mtp_profitability_current_token = None, pe_mtp_cumulative_profitability_keep = False\<rparr>))
      else Inr cache)"

subsection \<open>The state of the generation loop\<close>

record context_copy_state =
  cs_seen :: nat
  cs_perfect_rounds :: nat
  cs_suspend_until :: nat
  cs_backoff :: nat
  cs_acceptance_ema :: rat

text \<open>What the loop of one request only reads.\<close>

record request =
  rq_max_tokens :: nat
  rq_sampling :: SamplingOptions
  rq_on_delta :: "text_delta_callback option"
  rq_extend_cache :: bool
  rq_history_enabled :: bool
  rq_context_copy :: "ContextCopyCache option"
  rq_context_copy_max_tokens :: nat
  rq_thinking_close_tokens :: "u32 list"
  rq_forced_thinking_suffix :: "u32 list"

record ('s, 'ls, 'hl, 'm, 'r) generation =
  gn_world :: "('ls, 'hl, 'm) round_world"
  gn_previous :: "'s option"
  gn_current :: u32
  gn_result :: GenerationResult
  gn_stream :: stream_state
  gn_random :: 'r
  gn_forced_tokens :: "u32 list"
  gn_thinking_closed :: bool
  gn_intervention_attempted :: bool
  gn_mtp_profitable :: bool
  gn_mtp_cache_extendable :: bool
  gn_pending_streams :: "'s list"
  gn_pending_tokens :: "u32 list"
  gn_history :: HistoryDraftCache
  gn_history_policy :: HistoryDraftPolicy
  gn_context :: context_copy_state
  gn_guard :: MtpProfitabilityGuard
  gn_depth_policy :: MtpDepthPolicy
  gn_top2_position :: "nat option"
  gn_stopped :: bool

abbreviation gn_target :: "('s, 'ls, 'hl, 'm, 'r) generation \<Rightarrow> 'ls decode_state" where
  "gn_target g \<equiv> rw_target (gn_world g)"

abbreviation gn_mtp :: "('s, 'ls, 'hl, 'm, 'r) generation \<Rightarrow> 'hl mtp_decode_state" where
  "gn_mtp g \<equiv> rw_head (gn_world g)"

abbreviation gn_tokens :: "('s, 'ls, 'hl, 'm, 'r) generation \<Rightarrow> u32 list" where
  "gn_tokens g \<equiv> gr_tokens (gn_result g)"

datatype next_action = Continue | Finish

definition finish_with :: "string \<Rightarrow> ('s, 'ls, 'hl, 'm, 'r) generation \<Rightarrow> ('s, 'ls, 'hl, 'm, 'r) generation" where
  "finish_with reason g = g\<lparr>gn_result := (gn_result g)\<lparr>gr_finish_reason := reason\<rparr>\<rparr>"

definition push_token :: "u32 \<Rightarrow> ('s, 'ls, 'hl, 'm, 'r) generation \<Rightarrow> ('s, 'ls, 'hl, 'm, 'r) generation" where
  "push_token token g = g\<lparr>gn_result := (gn_result g)\<lparr>gr_tokens := gn_tokens g @ [token]\<rparr>\<rparr>"

definition append_history :: "request \<Rightarrow> u32 \<Rightarrow> ('s, 'ls, 'hl, 'm, 'r) generation \<Rightarrow> ('s, 'ls, 'hl, 'm, 'r) generation" where
  "append_history rq token g =
     (if rq_history_enabled rq then g\<lparr>gn_history := history_append token (gn_history g)\<rparr> else g)"

definition emit_tokens ::
    "('s, 'ls, 'hl, 'm, 'g, 'r) NativeEngine \<Rightarrow> request \<Rightarrow> ('s, 'ls, 'hl, 'm, 'r) generation \<Rightarrow>
     bool result \<times> ('s, 'ls, 'hl, 'm, 'r) generation" where
  "emit_tokens E rq g =
     (case emit_new_tokens (decode (ne_unicode E) (ne_tokenizer E)) (rq_on_delta rq) (gn_tokens g) (gn_stream g) of
        (r, ss) \<Rightarrow> (r, g\<lparr>gn_stream := ss\<rparr>))"

subsection \<open>A serial step\<close>

definition begin_thinking_intervention ::
    "request \<Rightarrow> ('s, 'ls, 'hl, 'm, 'r) generation \<Rightarrow> ('s, 'ls, 'hl, 'm, 'r) generation" where
  "begin_thinking_intervention rq g =
     (if gn_intervention_attempted g \<or> gn_thinking_closed g \<or> rq_forced_thinking_suffix rq = [] then g
      else
        let g1 = g\<lparr>gn_intervention_attempted := True\<rparr> in
        if length (gn_tokens g1) + length (rq_forced_thinking_suffix rq) \<ge> rq_max_tokens rq then g1
        else g1\<lparr>gn_forced_tokens := gn_forced_tokens g1 @ rq_forced_thinking_suffix rq,
                gn_result := (gn_result g1)\<lparr>gr_thinking_budget_forced := True\<rparr>\<rparr>)"

text \<open>
  Before the target takes a serial step the companion head consumes the current row, or the row is
  kept for later, or the head has lost the connection and the end state cannot be cached.
\<close>

definition pending_connected :: "'hl mtp_decode_state \<Rightarrow> 's list \<Rightarrow> nat \<Rightarrow> bool" where
  "pending_connected mtp pending token_count \<longleftrightarrow>
     (case ms_position_base mtp of
        None \<Rightarrow> False
      | Some b \<Rightarrow> sz_add (sz_add b (ms_row_count mtp)) (length pending) = token_count)"

definition serial_mtp_update ::
    "('s, 'ls, 'hl, 'm, 'g, 'r) NativeEngine \<Rightarrow> request \<Rightarrow> ('s, 'ls, 'hl, 'm, 'r) generation \<Rightarrow>
     unit result \<times> ('s, 'ls, 'hl, 'm, 'r) generation" where
  "serial_mtp_update E rq g =
     (let token_count = ds_token_count (gn_target g); unconnected = g\<lparr>gn_mtp_cache_extendable := False\<rparr> in
      case ne_mtp_head E of
        None \<Rightarrow> (Inr (), g)
      | Some H \<Rightarrow>
          (case gn_previous g of
             None \<Rightarrow> (Inr (), unconnected)
           | Some stream \<Rightarrow>
               if rq_extend_cache rq \<and> gn_mtp_profitable g \<and> mtp_state_matches_target (gn_mtp g) token_count then
                 (case consume_decode H stream (gn_current g) token_count (gn_mtp g) of
                    (r, mtp) \<Rightarrow> (r, g\<lparr>gn_world := (gn_world g)\<lparr>rw_head := mtp\<rparr>\<rparr>))
               else if rq_extend_cache rq \<and>
                  ((gn_pending_streams g = [] \<and> mtp_state_matches_target (gn_mtp g) token_count) \<or>
                   (gn_pending_streams g \<noteq> [] \<and>
                    pending_connected (gn_mtp g) (gn_pending_streams g) token_count)) then
                 (Inr (), g\<lparr>gn_pending_streams := gn_pending_streams g @ [stream],
                            gn_pending_tokens := gn_pending_tokens g @ [gn_current g]\<rparr>)
               else (Inr (), unconnected)))"

definition choose_serial_token ::
    "('s, 'ls, 'hl, 'm, 'g, 'r) NativeEngine \<Rightarrow> request \<Rightarrow> u32 \<Rightarrow> ('s, 'ls, 'hl, 'm, 'r) generation \<Rightarrow>
     ('s, 'ls, 'hl, 'm, 'r) generation" where
  "choose_serial_token E rq token g =
     (let g1 = (if gn_forced_tokens g = [] \<and> \<not> gn_thinking_closed g \<and> is_stop_token E token
                then begin_thinking_intervention rq g else g)
      in if gn_forced_tokens g1 \<noteq> []
         then g1\<lparr>gn_current := hd (gn_forced_tokens g1), gn_forced_tokens := tl (gn_forced_tokens g1)\<rparr>
         else g1\<lparr>gn_current := token\<rparr>)"

definition deliver_serial_token ::
    "('s, 'ls, 'hl, 'm, 'g, 'r) NativeEngine \<Rightarrow> request \<Rightarrow> ('s, 'ls, 'hl, 'm, 'r) generation \<Rightarrow>
     next_action result \<times> ('s, 'ls, 'hl, 'm, 'r) generation" where
  "deliver_serial_token E rq g =
     (if is_stop_token E (gn_current g) then (Inr Finish, (finish_with ''stop'' g)\<lparr>gn_stopped := True\<rparr>)
      else
        let g1 = push_token (gn_current g) g;
            g2 = (if \<not> gn_thinking_closed g1 \<and> rq_thinking_close_tokens rq \<noteq> [] \<and>
                     gn_current g1 = hd (rq_thinking_close_tokens rq)
                  then g1\<lparr>gn_thinking_closed := True\<rparr> else g1)
        in case emit_tokens E rq g2 of
             (Inl e, g3) \<Rightarrow> (Inl e, g3)
           | (Inr sent, g3) \<Rightarrow>
               if \<not> sent then (Inr Finish, finish_with ''cancelled'' g3)
               else (Inr Continue, append_history rq (gn_current g3) g3))"

definition serial_step ::
    "environment \<Rightarrow> ('s, 'ls, 'hl, 'm, 'g, 'r) NativeEngine \<Rightarrow> request \<Rightarrow> ('s, 'ls, 'hl, 'm, 'r) generation \<Rightarrow>
     next_action result \<times> ('s, 'ls, 'hl, 'm, 'r) generation" where
  "serial_step env E rq g0 =
     (case serial_mtp_update E rq (g0\<lparr>gn_top2_position := None\<rparr>) of
        (Inl e, g) \<Rightarrow> (Inl e, g)
      | (Inr _, g) \<Rightarrow>
          (case forward_decode_capture env (ne_model E) (gn_current g) (gn_target g) of
             (Inl e, target) \<Rightarrow> (Inl e, g\<lparr>gn_world := (gn_world g)\<lparr>rw_target := target\<rparr>\<rparr>)
           | (Inr step, target) \<Rightarrow>
               let g1 = g\<lparr>gn_world := (gn_world g)\<lparr>rw_target := target\<rparr>\<rparr>;
                   (r, random) =
                     (if gn_forced_tokens g = []
                      then sample_token E (td_logits step) (rq_sampling rq) (gn_random g) (gn_tokens g)
                      else (Inr (hd (gn_forced_tokens g)), gn_random g));
                   g2 = g1\<lparr>gn_random := random\<rparr>
               in case r of
                    Inl e \<Rightarrow> (Inl e, g2)
                  | Inr token \<Rightarrow>
                      deliver_serial_token E rq
                        (choose_serial_token E rq token (g2\<lparr>gn_previous := Some (td_pre_mixer_stream step)\<rparr>))))"

subsection \<open>A speculative step\<close>

definition block_ladder :: "nat list" where
  "block_ladder = [8, 12, 16, 24, 24]"

text \<open>The proposal copied from the prompt, and the length of the match behind it.\<close>

definition context_copy_proposal ::
    "request \<Rightarrow> ('s, 'ls, 'hl, 'm, 'r) generation \<Rightarrow> nat \<Rightarrow> u32 list" where
  "context_copy_proposal rq g remaining =
     (case rq_context_copy rq of
        None \<Rightarrow> []
      | Some cache \<Rightarrow>
          if length (gn_tokens g) \<ge> cs_suspend_until (gn_context g) then
            let cap = (if cs_perfect_rounds (gn_context g) \<ge> 2 \<and>
                          cs_acceptance_ema (gn_context g) \<ge> to_double (75 / 100)
                       then rq_context_copy_max_tokens rq else 4);
                proposal = propose_completion cache (gn_tokens g) (min cap remaining);
                block = min cap (block_ladder ! min (cp_match_extension proposal) (length block_ladder - 1));
                tokens = (if length (cp_tokens proposal) > block then take block (cp_tokens proposal)
                          else cp_tokens proposal)
            in if cp_match_extension proposal \<ge> 2 then tokens else []
          else [])"

definition history_draft_proposal ::
    "environment \<Rightarrow> ('s, 'ls, 'hl, 'm, 'r) generation \<Rightarrow> nat \<Rightarrow> u32 list" where
  "history_draft_proposal env g remaining =
     (if hp_active (gn_history_policy g) then
        let try_depth_four = use_long_history_depth_four env (ds_token_count (gn_target g));
            history_depth = (if try_depth_four then 4 else dp_depth (gn_depth_policy g));
            proposal = history_propose (gn_history g) (min history_depth remaining)
        in if length proposal < 2 \<and> try_depth_four
           then history_propose (gn_history g) (min (dp_depth (gn_depth_policy g)) remaining)
           else proposal
      else [])"

datatype draft_source = Context_Copy_Drafts | History_Drafts | Learned_Drafts

definition choose_drafts ::
    "environment \<Rightarrow> request \<Rightarrow> ('s, 'ls, 'hl, 'm, 'r) generation \<Rightarrow> nat \<Rightarrow> draft_source \<times> u32 list" where
  "choose_drafts env rq g remaining =
     (let context = context_copy_proposal rq g remaining in
      if length context \<ge> 2 then (Context_Copy_Drafts, context)
      else
        let history = history_draft_proposal env g remaining in
        if length history \<ge> 2 then (History_Drafts, history) else (Learned_Drafts, []))"

definition add_positions :: "nat \<Rightarrow> nat list \<Rightarrow> nat list \<Rightarrow> nat list" where
  "add_positions n counts amounts =
     map (\<lambda>p. if p < n then sz_add (counts ! p) (amounts ! p) else counts ! p) [0..<4]"

text \<open>The counters of the result.\<close>

definition count_round ::
    "draft_source \<Rightarrow> 's round_step \<Rightarrow> ('s, 'ls, 'hl, 'm, 'r) generation \<Rightarrow> ('s, 'ls, 'hl, 'm, 'r) generation" where
  "count_round source step g =
     (let learned = (source = Learned_Drafts); accepted = rs_accepted step;
          proposed = length (rs_draft_tokens step); res = gn_result g;
          res1 = (case gn_top2_position g of
              Some position \<Rightarrow>
                if learned \<and> accepted \<noteq> 0 then
                  res\<lparr>gr_mtp_top2_descendant_recovered_by_position :=
                        (gr_mtp_top2_descendant_recovered_by_position res)[position :=
                          sz_add (gr_mtp_top2_descendant_recovered_by_position res ! position) 1],
                      gr_mtp_top2_descendant_accepted_by_position :=
                        (gr_mtp_top2_descendant_accepted_by_position res)[position :=
                          sz_add (gr_mtp_top2_descendant_accepted_by_position res ! position) accepted]\<rparr>
                else res
            | None \<Rightarrow> res);
          positions = min proposed 4;
          recovered = filter (\<lambda>p. rs_top2_recovered step ! p \<noteq> 0) [0..<positions]
      in g\<lparr>gn_top2_position := (if learned \<and> recovered \<noteq> [] then Some (last recovered) else None),
           gn_result := res1\<lparr>
             gr_mtp_rounds := sz_add (gr_mtp_rounds res1) 1,
             gr_mtp_proposed := sz_add (gr_mtp_proposed res1) proposed,
             gr_mtp_accepted := sz_add (gr_mtp_accepted res1) accepted,
             gr_mtp_proposed_by_position :=
               add_positions positions (gr_mtp_proposed_by_position res1) (replicate 4 1),
             gr_mtp_accepted_by_position :=
               add_positions (min positions accepted) (gr_mtp_accepted_by_position res1) (replicate 4 1),
             gr_mtp_top2_rejected_by_position :=
               add_positions positions (gr_mtp_top2_rejected_by_position res1) (rs_top2_rejected step),
             gr_mtp_top2_recovered_by_position :=
               add_positions positions (gr_mtp_top2_recovered_by_position res1) (rs_top2_recovered step)\<rparr>\<rparr>)"

definition observe_context_copy ::
    "'s round_step \<Rightarrow> ('s, 'ls, 'hl, 'm, 'r) generation \<Rightarrow> ('s, 'ls, 'hl, 'm, 'r) generation" where
  "observe_context_copy step g =
     (let proposed = length (rs_draft_tokens step); accepted = rs_accepted step;
          ratio = to_double (of_nat accepted / of_nat proposed); cs = gn_context g; res = gn_result g;
          ema = to_double (to_double (to_double (7 / 10) * cs_acceptance_ema cs) +
                           to_double (to_double (3 / 10) * ratio));
          cs1 = cs\<lparr>cs_acceptance_ema := ema, cs_seen := sz_add (cs_seen cs) 1,
                   cs_perfect_rounds := (if accepted = proposed then sz_add (cs_perfect_rounds cs) 1 else 0),
                   cs_backoff := (if ratio \<ge> 1 / 2 then 64 else cs_backoff cs)\<rparr>;
          suspend = (cs_seen cs1 \<ge> 3 \<and> ema < to_double (35 / 100));
          cs2 = (if suspend
                 then cs1\<lparr>cs_suspend_until := sz_add (length (gn_tokens g)) (cs_backoff cs1),
                          cs_backoff := min (sz_mul (cs_backoff cs1) 2) 4096,
                          cs_acceptance_ema := 1 / 2, cs_seen := 0, cs_perfect_rounds := 0\<rparr>
                 else cs1)
      in g\<lparr>gn_context := cs2,
           gn_result := res\<lparr>
             gr_context_copy_rounds := sz_add (gr_context_copy_rounds res) 1,
             gr_context_copy_proposed := sz_add (gr_context_copy_proposed res) proposed,
             gr_context_copy_accepted := sz_add (gr_context_copy_accepted res) accepted,
             gr_context_copy_suspensions :=
               (if suspend then sz_add (gr_context_copy_suspensions res) 1
                else gr_context_copy_suspensions res)\<rparr>\<rparr>)"

definition observe_round ::
    "environment \<Rightarrow> draft_source \<Rightarrow> 's round_step \<Rightarrow> ('s, 'ls, 'hl, 'm, 'r) generation \<Rightarrow>
     ('s, 'ls, 'hl, 'm, 'r) generation result" where
  "observe_round env source step g =
     (let proposed = length (rs_draft_tokens step); accepted = rs_accepted step; res = gn_result g in
      res_bind (case source of
          Context_Copy_Drafts \<Rightarrow> Inr (observe_context_copy step g)
        | History_Drafts \<Rightarrow>
            res_bind (observe_history proposed accepted (gn_history_policy g)) (\<lambda>pol.
              Inr (g\<lparr>gn_history_policy := pol,
                     gn_result := res\<lparr>
                       gr_history_draft_rounds := sz_add (gr_history_draft_rounds res) 1,
                       gr_history_draft_proposed := sz_add (gr_history_draft_proposed res) proposed,
                       gr_history_draft_accepted := sz_add (gr_history_draft_accepted res) accepted\<rparr>\<rparr>))
        | Learned_Drafts \<Rightarrow>
            res_bind (depth_observe env proposed accepted (gn_depth_policy g)) (\<lambda>depth.
              res_bind (observe_learned proposed accepted (gn_history_policy g)) (\<lambda>pol.
                Inr (g\<lparr>gn_depth_policy := depth, gn_history_policy := pol,
                       gn_guard := guard_observe (of_nat accepted) (gn_guard g)\<rparr>)))) (\<lambda>g1.
        let res1 = gn_result g1 in
        Inr (g1\<lparr>gn_result := res1\<lparr>
               gr_history_draft_activations := hp_activations (gn_history_policy g1),
               gr_history_draft_deactivations := hp_deactivations (gn_history_policy g1),
               gr_mtp_final_depth := dp_depth (gn_depth_policy g1),
               gr_mtp_promotions := dp_promotions (gn_depth_policy g1),
               gr_mtp_demotions := dp_demotions (gn_depth_policy g1)\<rparr>\<rparr>)))"

text \<open>Delivering the tokens of a round; the boolean asks for cancellation after the round.\<close>

fun deliver_round ::
    "('s, 'ls, 'hl, 'm, 'g, 'r) NativeEngine \<Rightarrow> request \<Rightarrow> u32 list \<Rightarrow> bool \<Rightarrow> ('s, 'ls, 'hl, 'm, 'r) generation \<Rightarrow>
     bool result \<times> ('s, 'ls, 'hl, 'm, 'r) generation" where
  "deliver_round E rq [] cancel g = (Inr cancel, g)"
| "deliver_round E rq (token # tokens) cancel g =
     (if length (gn_tokens g) = rq_max_tokens rq then (Inr cancel, g)
      else if is_stop_token E token then (Inr cancel, (finish_with ''stop'' g)\<lparr>gn_stopped := True\<rparr>)
      else case emit_tokens E rq (push_token token g) of
        (Inl e, g1) \<Rightarrow> (Inl e, g1)
      | (Inr sent, g1) \<Rightarrow> deliver_round E rq tokens (cancel \<or> \<not> sent) (append_history rq token g1))"

definition should_fallback ::
    "environment \<Rightarrow> ('s, 'ls, 'hl, 'm, 'g, 'r) NativeEngine \<Rightarrow> draft_source \<Rightarrow> MtpProfitabilityGuard \<Rightarrow> bool" where
  "should_fallback env E source guard \<longleftrightarrow>
     source = Learned_Drafts \<and>
     (let rounds = of_nat (op_zero_accept_fallback_rounds (ne_options E)) in
      if env ''QWEN38_ECONOMIC_MTP_FALLBACK'' \<noteq> Some ''0'' then guard_should_fallback rounds guard
      else pg_zero_accept_streak guard \<ge> rounds)"

definition run_round ::
    "environment \<Rightarrow> ('s, 'ls, 'hl, 'm, 'g, 'r) NativeEngine \<Rightarrow> draft_source \<Rightarrow> u32 list \<Rightarrow> 's \<Rightarrow>
     ('s, 'ls, 'hl, 'm, 'r) generation \<Rightarrow> 's round_step result \<times> ('ls, 'hl, 'm) round_world" where
  "run_round env E source drafts stream g =
     (let H = the (ne_mtp_head E); q = ds_token_count (gn_target g) in
      case source of
        Learned_Drafts \<Rightarrow>
          run_greedy_mtp_round_reference env (ne_model E) H (gn_current g) stream q
            (dp_depth (gn_depth_policy g)) (stop_tokens E) (gn_world g)
      | _ \<Rightarrow>
          run_greedy_external_draft_round_reference env (ne_model E) H (gn_current g) stream q
            drafts (stop_tokens E) (gn_world g))"

definition speculative_step ::
    "environment \<Rightarrow> ('s, 'ls, 'hl, 'm, 'g, 'r) NativeEngine \<Rightarrow> request \<Rightarrow> 's \<Rightarrow> ('s, 'ls, 'hl, 'm, 'r) generation \<Rightarrow>
     next_action result \<times> ('s, 'ls, 'hl, 'm, 'r) generation" where
  "speculative_step env E rq stream g =
     (let (source, drafts) = choose_drafts env rq g (rq_max_tokens rq - length (gn_tokens g)) in
      case run_round env E source drafts stream g of
        (Inl e, w) \<Rightarrow> (Inl e, g\<lparr>gn_world := w\<rparr>)
      | (Inr step, w) \<Rightarrow>
          let g1 = count_round source step (g\<lparr>gn_world := w\<rparr>) in
          case observe_round env source step g1 of
            Inl e \<Rightarrow> (Inl e, g1)
          | Inr g2 \<Rightarrow>
              (case deliver_round E rq (rs_emitted_tokens step) False
                 (g2\<lparr>gn_current := rs_next_current_token step,
                     gn_previous := Some (rs_next_target_stream step)\<rparr>) of
                 (Inl e, g3) \<Rightarrow> (Inl e, g3)
               | (Inr cancel, g3) \<Rightarrow>
                   if gr_finish_reason (gn_result g3) = ''stop'' then (Inr Finish, g3)
                   else if cancel then (Inr Finish, finish_with ''cancelled'' g3)
                   else if should_fallback env E source (gn_guard g3) then
                     (Inr Continue, g3\<lparr>gn_mtp_profitable := False,
                        gn_result := (gn_result g3)\<lparr>gr_mtp_fallbacks :=
                          sz_add (gr_mtp_fallbacks (gn_result g3)) 1\<rparr>\<rparr>)
                   else (Inr Continue, g3)))"

subsection \<open>The generation loop\<close>

definition generation_step ::
    "environment \<Rightarrow> ('s, 'ls, 'hl, 'm, 'g, 'r) NativeEngine \<Rightarrow> request \<Rightarrow> ('s, 'ls, 'hl, 'm, 'r) generation \<Rightarrow>
     next_action result \<times> ('s, 'ls, 'hl, 'm, 'r) generation" where
  "generation_step env E rq g0 =
     (let budget = so_thinking_budget_tokens (rq_sampling rq);
          g = (if \<not> gn_thinking_closed g0 \<and> gn_forced_tokens g0 = [] \<and> budget \<noteq> 0 \<and>
                  length (gn_tokens g0) \<ge> budget
               then begin_thinking_intervention rq g0 else g0);
          remaining = rq_max_tokens rq - length (gn_tokens g)
      in case gn_previous g of
           None \<Rightarrow> serial_step env E rq g
         | Some stream \<Rightarrow>
             if \<not> gn_mtp_profitable g \<or> remaining = 1 \<or> (rq_extend_cache rq \<and> remaining = 2)
             then serial_step env E rq g
             else speculative_step env E rq stream g)"

text \<open>Every step that continues has delivered at least one token.\<close>

lemma emit_tokens_stream: "emit_tokens E rq g = (r, g') \<Longrightarrow> \<exists>ss. g' = g\<lparr>gn_stream := ss\<rparr>"
  by (auto simp: emit_tokens_def split: prod.splits)

lemma append_history_result [simp]: "gn_result (append_history rq t g) = gn_result g"
  by (simp add: append_history_def)

lemma finish_with_tokens [simp]: "gn_tokens (finish_with reason g) = gn_tokens g"
  by (simp add: finish_with_def)

lemma intervention_tokens [simp]: "gn_tokens (begin_thinking_intervention rq g) = gn_tokens g"
  by (simp add: begin_thinking_intervention_def Let_def)

lemma serial_mtp_update_result: "serial_mtp_update E rq g = (r, g') \<Longrightarrow> gn_result g' = gn_result g"
  by (auto simp: serial_mtp_update_def Let_def split: option.splits prod.splits if_splits)

lemma choose_serial_token_tokens [simp]: "gn_tokens (choose_serial_token E rq t g) = gn_tokens g"
  by (simp add: choose_serial_token_def Let_def)

lemma deliver_serial_token_progress:
  "deliver_serial_token E rq g = (Inr Continue, g') \<Longrightarrow> length (gn_tokens g') = Suc (length (gn_tokens g))"
  by (auto simp: deliver_serial_token_def Let_def push_token_def split: prod.splits sum.splits if_splits
      dest!: emit_tokens_stream)

lemma serial_step_progress:
  assumes "serial_step env E rq g = (Inr Continue, g')"
  shows "length (gn_tokens g') = Suc (length (gn_tokens g))"
proof -
  obtain r g1 where u: "serial_mtp_update E rq (g\<lparr>gn_top2_position := None\<rparr>) = (r, g1)" by fastforce
  have "gn_result g1 = gn_result g" using serial_mtp_update_result [OF u] by simp
  then show ?thesis
    using assms u
    by (auto simp: serial_step_def Let_def split: prod.splits sum.splits dest!: deliver_serial_token_progress)
qed

lemma count_round_tokens [simp]: "gn_tokens (count_round source step g) = gn_tokens g"
  by (simp add: count_round_def Let_def split: option.splits)

lemma observe_round_tokens: "observe_round env source step g = Inr g' \<Longrightarrow> gn_tokens g' = gn_tokens g"
  by (cases source) (auto simp: observe_round_def Let_def observe_context_copy_def)

lemma deliver_round_grows:
  "deliver_round E rq ts c g = (r, g') \<Longrightarrow> length (gn_tokens g) \<le> length (gn_tokens g')"
proof (induction E rq ts c g rule: deliver_round.induct)
  case (2 E rq token tokens cancel g)
  show ?case
  proof (cases "length (gn_tokens g) = rq_max_tokens rq \<or> is_stop_token E token")
    case False
    obtain r1 g1 where e: "emit_tokens E rq (push_token token g) = (r1, g1)" by fastforce
    then have len: "length (gn_tokens g1) = Suc (length (gn_tokens g))"
      by (auto simp: push_token_def dest: emit_tokens_stream)
    show ?thesis
    proof (cases r1)
      case (Inl a)
      then show ?thesis using 2(2) False e len by auto
    next
      case (Inr b)
      then have "length (gn_tokens (append_history rq token g1)) \<le> length (gn_tokens g')"
        using 2(1) [OF _ _ e [unfolded Inr, symmetric] refl] 2(2) False e by auto
      then show ?thesis using len by simp
    qed
  next
    case True
    then show ?thesis using 2(2) by (auto simp: finish_with_def split: if_splits)
  qed
qed simp

lemma deliver_round_progress:
  assumes "deliver_round E rq (t # ts) c g = (Inr c', g')" and "length (gn_tokens g) < rq_max_tokens rq"
    and "gr_finish_reason (gn_result g') \<noteq> ''stop''"
  shows "length (gn_tokens g) < length (gn_tokens g')"
proof -
  have "\<not> is_stop_token E t" using assms by (auto simp: finish_with_def)
  obtain r1 g1 where e: "emit_tokens E rq (push_token t g) = (r1, g1)" by fastforce
  then have "length (gn_tokens g1) = Suc (length (gn_tokens g))"
    by (auto simp: push_token_def dest: emit_tokens_stream)
  then show ?thesis
    using assms(1,2) \<open>\<not> is_stop_token E t\<close> e
    by (cases r1) (auto dest!: deliver_round_grows)
qed

lemma finish_round_emits:
  "finish_greedy_mtp_round env M H t previous q ds sec hid origin stops w = (Inr step, w') \<Longrightarrow>
     rs_emitted_tokens step \<noteq> []"
  using finish_InrD by fastforce

lemma run_round_emits: "run_round env E source drafts stream g = (Inr step, w) \<Longrightarrow> rs_emitted_tokens step \<noteq> []"
  by (cases source)
     (auto simp: run_round_def Let_def run_greedy_external_draft_round_reference_def
       run_greedy_mtp_round_reference_def dest: finish_round_emits split: if_splits prod.splits sum.splits)

lemma speculative_step_progress:
  assumes "speculative_step env E rq stream g = (Inr Continue, g')" and "length (gn_tokens g) < rq_max_tokens rq"
  shows "length (gn_tokens g) < length (gn_tokens g')"
proof -
  obtain source drafts where c: "choose_drafts env rq g (rq_max_tokens rq - length (gn_tokens g)) = (source, drafts)"
    by fastforce
  obtain step w where r: "run_round env E source drafts stream g = (Inr step, w)"
    using assms(1) c by (auto simp: speculative_step_def split: prod.splits sum.splits)
  let ?g1 = "count_round source step (g\<lparr>gn_world := w\<rparr>)"
  obtain g2 where o: "observe_round env source step ?g1 = Inr g2"
    using assms(1) c r by (auto simp: speculative_step_def Let_def split: sum.splits)
  let ?g2 = "g2\<lparr>gn_current := rs_next_current_token step, gn_previous := Some (rs_next_target_stream step)\<rparr>"
  obtain cancel g3 where d: "deliver_round E rq (rs_emitted_tokens step) False ?g2 = (Inr cancel, g3)"
    using assms(1) c r o by (auto simp: speculative_step_def Let_def split: prod.splits sum.splits)
  have len: "length (gn_tokens ?g2) = length (gn_tokens g)" using observe_round_tokens [OF o] by simp
  have g3: "gr_finish_reason (gn_result g3) \<noteq> ''stop''" "gn_tokens g' = gn_tokens g3"
    using assms(1) c r o d by (auto simp: speculative_step_def Let_def split: if_splits)
  obtain t ts where "rs_emitted_tokens step = t # ts"
    using run_round_emits [OF r] by (cases "rs_emitted_tokens step") auto
  then show ?thesis using deliver_round_progress [of E rq t ts False ?g2 cancel g3] d g3 len assms(2) by simp
qed

lemma generation_step_progress:
  assumes "generation_step env E rq g = (Inr Continue, g')" and "length (gn_tokens g) < rq_max_tokens rq"
  shows "length (gn_tokens g) < length (gn_tokens g')"
  using assms
  by (auto simp: generation_step_def Let_def split: option.splits if_splits
      dest!: serial_step_progress speculative_step_progress)

function generation_loop ::
    "environment \<Rightarrow> ('s, 'ls, 'hl, 'm, 'g, 'r) NativeEngine \<Rightarrow> request \<Rightarrow> ('s, 'ls, 'hl, 'm, 'r) generation \<Rightarrow>
     unit result \<times> ('s, 'ls, 'hl, 'm, 'r) generation" where
  "generation_loop env E rq g =
     (if length (gn_tokens g) < rq_max_tokens rq then
        (case generation_step env E rq g of
           (Inl e, g') \<Rightarrow> (Inl e, g')
         | (Inr Finish, g') \<Rightarrow> (Inr (), g')
         | (Inr Continue, g') \<Rightarrow> generation_loop env E rq g')
      else (Inr (), g))"
  by pat_completeness auto
termination
  by (relation "measure (\<lambda>(env, E, rq, g). rq_max_tokens rq - length (gn_tokens g))")
     (auto dest!: generation_step_progress [OF sym] intro: diff_less_mono2)

declare generation_loop.simps [simp del]

subsection \<open>Setting up the loop\<close>

definition serial_only :: "SamplingOptions \<Rightarrow> bool" where
  "serial_only sampling \<longleftrightarrow> so_temperature sampling > 0 \<or> so_thinking_budget_tokens sampling \<noteq> 0"

definition history_draft_mode :: "environment \<Rightarrow> HistoryDraftMode" where
  "history_draft_mode env =
     (case env ''QWEN38_HISTORY_DRAFT'' of
        None \<Rightarrow> Mode_adaptive
      | Some value \<Rightarrow> if value = ''0'' then Mode_disabled else Mode_forced)"

definition context_copy_max_tokens :: "environment \<Rightarrow> nat result" where
  "context_copy_max_tokens env =
     (let failure = Inl (RuntimeError ''QWEN38_CONTEXT_COPY_MAX_TOKENS must be an integer from 4 to 24'') in
      case env ''QWEN38_CONTEXT_COPY_MAX_TOKENS'' of
        None \<Rightarrow> Inr 16
      | Some value \<Rightarrow>
          (case strtoul10 value of
             None \<Rightarrow> failure
           | Some (requested, rest) \<Rightarrow>
               if rest \<noteq> [] \<or> requested < 4 \<or> requested > 24 then failure else Inr requested))"

definition extend_cache_enabled :: "environment \<Rightarrow> bool" where
  "extend_cache_enabled env \<longleftrightarrow> env ''QWEN38_EXTEND_PREFIX_CACHE'' = Some ''1''"

definition thinking_close_text :: string where
  "thinking_close_text = ''</think>''"

definition forced_thinking_text :: string where
  "forced_thinking_text = [CHR 0x0A, CHR 0x0A] @
     ''Considering the limited time by the user, I have to give the solution '' @
     ''based on the thinking directly now.'' @ [CHR 0x0A] @ ''</think>'' @ [CHR 0x0A, CHR 0x0A]"

text \<open>The tokens of the thinking intervention; without a budget nothing is encoded.\<close>

definition thinking_tokens ::
    "('s, 'ls, 'hl, 'm, 'g, 'r) NativeEngine \<Rightarrow> SamplingOptions \<Rightarrow> bpe_cache \<Rightarrow>
     ((u32 list \<times> u32 list) result \<times> bpe_cache) option" where
  "thinking_tokens E sampling cache =
     (if so_thinking_budget_tokens sampling = 0 then Some (Inr ([], []), cache)
      else
        Option.bind (encode (ne_unicode E) (ne_tokenizer E) cache thinking_close_text True) (\<lambda>(r, cache1).
          case r of
            Inl e \<Rightarrow> Some (Inl e, cache1)
          | Inr close \<Rightarrow>
              if length close \<noteq> 1 then
                Some (Inl (RuntimeError ''Qwen thinking close marker must encode to one token''), cache1)
              else
                Option.bind (encode (ne_unicode E) (ne_tokenizer E) cache1 forced_thinking_text True)
                  (\<lambda>(r', cache2). Some (res_bind r' (\<lambda>forced. Inr (close, forced)), cache2))))"

definition setup_request ::
    "environment \<Rightarrow> ('s, 'ls, 'hl, 'm, 'g, 'r) NativeEngine \<Rightarrow> text_delta_callback option \<Rightarrow> u32 list \<Rightarrow> nat \<Rightarrow>
     SamplingOptions \<Rightarrow> request result" where
  "setup_request env E on_delta prompt max_tokens sampling =
     res_bind (context_copy_max_tokens env) (\<lambda>maximum.
       res_bind (if \<not> serial_only sampling \<and> env ''QWEN38_CONTEXT_COPY'' = Some ''1'' \<and> ne_mtp_head E \<noteq> None
           then res_bind (context_copy_cache prompt 6 10) (\<lambda>c. Inr (Some c)) else Inr None) (\<lambda>context.
         Inr \<lparr>rq_max_tokens = max_tokens, rq_sampling = sampling, rq_on_delta = on_delta,
              rq_extend_cache = extend_cache_enabled env,
              rq_history_enabled = (\<not> serial_only sampling \<and> history_draft_mode env \<noteq> Mode_disabled),
              rq_context_copy = context, rq_context_copy_max_tokens = maximum,
              rq_thinking_close_tokens = [], rq_forced_thinking_suffix = []\<rparr>))"

definition start_generation ::
    "environment \<Rightarrow> ('s, 'ls, 'hl, 'm, 'g, 'r) NativeEngine \<Rightarrow> request \<Rightarrow> u32 list \<Rightarrow>
     ('s, 'ls, 'hl) prepared_prompt \<Rightarrow> 'm calibration \<Rightarrow> ('s, 'ls, 'hl, 'm, 'r) generation result" where
  "start_generation env E rq prompt pp cal =
     (let sampling = rq_sampling rq; cached = pp_cached_profitability pp in
      res_bind (history_cache 2 5) (\<lambda>history.
        res_bind (depth_policy env (ne_mtp_depth E) (length prompt) (ne_adaptive_mtp_depth E)) (\<lambda>depth.
          Inr \<lparr>gn_world = \<lparr>rw_target = pp_target pp, rw_head = pp_mtp pp, rw_cal = cal\<rparr>,
               gn_previous = pp_previous pp, gn_current = last prompt,
               gn_result = empty_result\<lparr>gr_prompt_tokens := length prompt,
                 gr_cached_prompt_tokens := pp_prefill_offset pp,
                 gr_mtp_profitability_cache_skip := (cached = Some False),
                 gr_mtp_profitability_cache_keep := (cached = Some True \<and> pp_cached_cumulative_keep pp),
                 gr_mtp_final_depth := (if serial_only sampling then 0 else dp_depth depth),
                 gr_thinking_budget_tokens := so_thinking_budget_tokens sampling\<rparr>,
               gn_stream = stream_start, gn_random = ne_seed_random E (so_seed sampling),
               gn_forced_tokens = [], gn_thinking_closed = False, gn_intervention_attempted = False,
               gn_mtp_profitable = (\<not> serial_only sampling \<and> ne_mtp_head E \<noteq> None \<and> cached \<noteq> Some False),
               gn_mtp_cache_extendable = True, gn_pending_streams = [], gn_pending_tokens = [],
               gn_history = (if rq_history_enabled rq then history_append_all prompt history else history),
               gn_history_policy = history_policy (history_draft_mode env),
               gn_context = \<lparr>cs_seen = 0, cs_perfect_rounds = 0, cs_suspend_until = 0, cs_backoff = 64,
                 cs_acceptance_ema = 1 / 2\<rparr>,
               gn_guard = guard_init, gn_depth_policy = depth, gn_top2_position = None,
               gn_stopped = False\<rparr>)))"

subsection \<open>After the loop\<close>

definition record_profitability ::
    "environment \<Rightarrow> u32 list \<Rightarrow> GenerationResult \<Rightarrow> ('s, 'ls, 'hl) PrefixCacheEntry option \<Rightarrow>
     ('s, 'ls, 'hl) PrefixCacheEntry option" where
  "record_profitability env prompt res cache =
     (case cache of
        None \<Rightarrow> None
      | Some entry \<Rightarrow>
          if pe_tokens entry = butlast prompt \<and> gr_mtp_rounds res \<ge> 2 then
            let profitable = cache_completed_mtp_as_profitable env (gr_mtp_rounds res) (gr_mtp_accepted res)
                  (gr_mtp_fallbacks res)
            in Some (entry\<lparr>pe_mtp_profitable := Some profitable,
                 pe_mtp_profitability_current_token := Some (last prompt),
                 pe_mtp_cumulative_profitability_keep := (gr_mtp_fallbacks res \<noteq> 0 \<and> profitable)\<rparr>)
          else Some entry)"

definition target_matches_output :: "u32 list \<Rightarrow> ('s, 'ls, 'hl, 'm, 'r) generation \<Rightarrow> bool" where
  "target_matches_output prompt g \<longleftrightarrow>
     (let complete = length prompt + length (gn_tokens g); token_count = ds_token_count (gn_target g) in
      if gn_stopped g then token_count = complete
      else token_count < complete \<and> token_count + 1 = complete)"

definition mtp_matches_output ::
    "('s, 'ls, 'hl, 'm, 'g, 'r) NativeEngine \<Rightarrow> ('s, 'ls, 'hl, 'm, 'r) generation \<Rightarrow> bool" where
  "mtp_matches_output E g \<longleftrightarrow>
     ne_mtp_head E = None \<or>
     (gn_mtp_cache_extendable g \<and>
        (mtp_state_matches_target (gn_mtp g) (ds_token_count (gn_target g)) \<or>
         pending_connected (gn_mtp g) (gn_pending_streams g) (ds_token_count (gn_target g))))"

definition extend_prefix_cache ::
    "environment \<Rightarrow> ('s, 'ls, 'hl, 'm, 'g, 'r) NativeEngine \<Rightarrow> request \<Rightarrow> u32 list \<Rightarrow>
     ('s, 'ls, 'hl, 'm, 'r) generation \<Rightarrow> ('s, 'ls, 'hl) PrefixCacheEntry option \<Rightarrow>
     ('s, 'ls, 'hl) PrefixCacheEntry option result" where
  "extend_prefix_cache env E rq prompt g cache =
     (let token_count = ds_token_count (gn_target g); limit = op_prefix_cache_max_tokens (ne_options E);
          res = gn_result g
      in if rq_extend_cache rq \<and> limit \<noteq> 0 \<and> target_matches_output prompt g \<and> mtp_matches_output E g \<and>
            gn_previous g \<noteq> None \<and> token_count \<le> limit
         then
           let extended = (if gr_mtp_rounds res \<ge> 2
                 then Some (cache_completed_mtp_as_profitable env (gr_mtp_rounds res) (gr_mtp_accepted res)
                   (gr_mtp_fallbacks res)) else None)
           in res_bind (snapshot_state (ne_model E) (gn_target g)) (\<lambda>target.
             Inr (Some \<lparr>pe_tokens = take token_count (prompt @ gn_tokens g), pe_target_state = target,
               pe_mtp_state = (if ne_mtp_head E = None then ne_make_mtp_state E else gn_mtp g),
               pe_previous_target_stream = gn_previous g,
               pe_pending_mtp_streams = gn_pending_streams g, pe_pending_mtp_tokens = gn_pending_tokens g,
               pe_mtp_profitable = extended,
               pe_mtp_profitability_current_token = (if extended \<noteq> None then Some (gn_current g) else None),
               pe_mtp_cumulative_profitability_keep = (gr_mtp_fallbacks res \<noteq> 0 \<and> extended = Some True)\<rparr>))
         else Inr cache)"

type_synonym ('s, 'ls, 'hl) reply =
  "GenerationResult result \<times> string list \<times> ('s, 'ls, 'hl) PrefixCacheEntry option"

definition finish_generation ::
    "environment \<Rightarrow> ('s, 'ls, 'hl, 'm, 'g, 'r) NativeEngine \<Rightarrow> request \<Rightarrow> u32 list \<Rightarrow>
     ('s, 'ls, 'hl, 'm, 'r) generation \<Rightarrow> ('s, 'ls, 'hl) PrefixCacheEntry option \<Rightarrow> ('s, 'ls, 'hl) reply" where
  "finish_generation env E rq prompt g cache =
     (let cache1 = record_profitability env prompt (gn_result g) cache in
      case extend_prefix_cache env E rq prompt g cache1 of
        Inl e \<Rightarrow> (Inl e, ss_deltas (gn_stream g), cache1)
      | Inr cache2 \<Rightarrow>
          let (sent, ss) = flush_pending (rq_on_delta rq) (gn_stream g);
              res = (if sent then gn_result g else (gn_result g)\<lparr>gr_finish_reason := ''cancelled''\<rparr>)
          in (res_bind (decode (ne_unicode E) (ne_tokenizer E) (gr_tokens res)) (\<lambda>bytes.
                Inr (res\<lparr>gr_text := bytes\<rparr>)), ss_deltas ss, cache2))"

subsection \<open>The request\<close>

definition validate_request ::
    "('s, 'ls, 'hl, 'm, 'g, 'r) NativeEngine \<Rightarrow> nat \<Rightarrow> SamplingOptions \<Rightarrow> unit result" where
  "validate_request E max_tokens s =
     (if max_tokens = 0 \<or> max_tokens > op_max_generation_tokens (ne_options E) then
        Inl (RuntimeError (''max_tokens must be between 1 and the configured generation limit ('' @
          show_nat (op_max_generation_tokens (ne_options E)) @ '')''))
      else if so_temperature s < 0 \<or> so_top_p s \<le> 0 \<or> so_top_p s > 1 \<or> so_frequency_penalty s < 0 \<or>
         so_frequency_penalty s > 2 \<or> (so_temperature s > 0 \<and> (so_top_k s = 0 \<or> so_top_k s > 256)) then
        Inl (RuntimeError (''sampling requires temperature >= 0, top_p in (0, 1], top_k in 1..256, '' @
          ''and frequency_penalty in [0, 2]''))
      else Inr ())"

definition validate_prompt :: "('s, 'ls, 'hl, 'm, 'g, 'r) NativeEngine \<Rightarrow> u32 list \<Rightarrow> nat \<Rightarrow> unit result" where
  "validate_prompt E prompt max_tokens =
     (let context_limit = ne_max_context_tokens E in
      if prompt = [] then Inl (RuntimeError ''prompt produced no tokens'')
      else if length prompt > context_limit \<or> max_tokens > context_limit - length prompt then
        Inl (RuntimeError (''prompt and max_tokens exceed the model context limit ('' @
          show_nat context_limit @ '' tokens)''))
      else Inr ())"

text \<open>The request once its prompt is ingested; the second component is the calibration capture.\<close>

definition complete_tokens ::
    "environment \<Rightarrow> ('s, 'ls, 'hl, 'm, 'g, 'r) NativeEngine \<Rightarrow> text_delta_callback option \<Rightarrow> u32 list \<Rightarrow> nat \<Rightarrow>
     SamplingOptions \<Rightarrow> ('s, 'ls, 'hl) prepared_prompt \<Rightarrow> ('s, 'ls, 'hl, 'm) engine_world \<Rightarrow>
     (GenerationResult result \<times> string list \<times> ('s, 'ls, 'hl, 'm) engine_world) option" where
  "complete_tokens env E on_delta prompt max_tokens sampling pp w =
     (case res_bind (setup_request env E on_delta prompt max_tokens sampling) (\<lambda>rq.
        res_bind (start_generation env E rq prompt pp (ew_calibration w)) (\<lambda>g. Inr (rq, g))) of
        Inl e \<Rightarrow> Some (Inl e, [], w)
      | Inr (rq, g) \<Rightarrow>
          Option.bind (thinking_tokens E sampling (ew_bpe_cache w)) (\<lambda>(thinking, bpe).
            let w1 = w\<lparr>ew_bpe_cache := bpe\<rparr> in
            case thinking of
              Inl e \<Rightarrow> Some (Inl e, [], w1)
            | Inr (close, suffix_tokens) \<Rightarrow>
                let rq1 = rq\<lparr>rq_thinking_close_tokens := close, rq_forced_thinking_suffix := suffix_tokens\<rparr> in
                case generation_loop env E rq1 g of
                  (Inl e, g') \<Rightarrow>
                    Some (Inl e, ss_deltas (gn_stream g'), w1\<lparr>ew_calibration := rw_cal (gn_world g')\<rparr>)
                | (Inr _, g') \<Rightarrow>
                    (case finish_generation env E rq1 prompt g' (ew_prefix_cache w1) of
                       (res, deltas, cache) \<Rightarrow>
                         Some (res, deltas, w1\<lparr>ew_prefix_cache := cache,
                           ew_calibration := rw_cal (gn_world g')\<rparr>))))"

definition complete_impl ::
    "environment \<Rightarrow> ('s, 'ls, 'hl, 'm, 'g, 'r) NativeEngine \<Rightarrow> text_delta_callback option \<Rightarrow> string \<Rightarrow> nat \<Rightarrow>
     SamplingOptions \<Rightarrow> ('s, 'ls, 'hl, 'm) engine_world \<Rightarrow>
     (GenerationResult result \<times> string list \<times> ('s, 'ls, 'hl, 'm) engine_world) option" where
  "complete_impl env E on_delta prompt max_tokens sampling w =
     (case validate_request E max_tokens sampling of
        Inl e \<Rightarrow> Some (Inl e, [], w)
      | Inr _ \<Rightarrow>
          let cal = begin_mtp_calibration_request env (ew_calibration w) in
          Option.bind (encode (ne_unicode E) (ne_tokenizer E) (ew_bpe_cache w) prompt True) (\<lambda>(r, bpe).
            let w1 = w\<lparr>ew_calibration := cal, ew_bpe_cache := bpe\<rparr> in
            case res_bind r (\<lambda>tokens. res_bind (validate_prompt E tokens max_tokens) (\<lambda>_.
                res_bind (prepare_prompt env E tokens (ew_prefix_cache w1)) (\<lambda>pp.
                  res_bind (cache_prompt E tokens pp (ew_prefix_cache w1)) (\<lambda>cache.
                    Inr (tokens, pp, cache))))) of
              Inl e \<Rightarrow> Some (Inl e, [], w1)
            | Inr (tokens, pp, cache) \<Rightarrow>
                complete_tokens env E on_delta tokens max_tokens sampling pp (w1\<lparr>ew_prefix_cache := cache\<rparr>)))"

definition clear_cache :: "('s, 'ls, 'hl, 'm) engine_world \<Rightarrow> ('s, 'ls, 'hl, 'm) engine_world" where
  "clear_cache w = w\<lparr>ew_prefix_cache := None\<rparr>"

end
