(* ===== verification/Tokenizer_Round_Trip.thy ===== *)
theory Tokenizer_Round_Trip
  imports Tokenizer
begin

text \<open>
  What the tokenizer of theory \<open>Tokenizer\<close> guarantees: splitting a text loses nothing, merging and the
  cache of merged pieces change no byte, encoding ends and decoding undoes it, and loading builds
  consistent tables. The Unicode library enters through its documented behaviour, \<open>unicode_faithful\<close>.
\<close>

subsection \<open>A consistent tokenizer\<close>

text \<open>
  What the library documents: a code point it encodes is read back, sizes do not pass the end, and
  ASCII text is its own normal form, one byte per code point.
\<close>

definition unicode_faithful :: "unicode \<Rightarrow> bool" where
  "unicode_faithful U \<longleftrightarrow>
     (\<forall>s. s \<noteq> [] \<longrightarrow> snd (un_iterate U s) \<le> int (length s)) \<and>
     (\<forall>v rest. 0 < v \<and> v < 512 \<longrightarrow>
        un_encode_char U v \<noteq> [] \<and> un_iterate U (un_encode_char U v @ rest) = (v, int (length (un_encode_char U v)))) \<and>
     (\<forall>s. list_all (\<lambda>c. (of_char c :: nat) < 128) s \<longrightarrow> un_map U s = Inr s) \<and>
     (\<forall>c rest. (of_char c :: nat) < 128 \<longrightarrow> un_iterate U (c # rest) = (of_char c, 1))"

definition symbol_of :: "unicode \<Rightarrow> char \<Rightarrow> string" where
  "symbol_of U c = un_encode_char U (byte_symbols ! of_char c)"

definition spelling :: "unicode \<Rightarrow> string \<Rightarrow> string" where
  "spelling U bs = concat (map (symbol_of U) bs)"

text \<open>
  The tables that \<open>load\<close> builds for bytes; identifiers and tokens agree; every special or added
  token is spelled by itself, as visible ASCII text is.
\<close>

definition tables_ok :: "unicode \<Rightarrow> Tokenizer \<Rightarrow> bool" where
  "tables_ok U T \<longleftrightarrow>
     tk_byte_to_symbol T = map (un_encode_char U) byte_symbols \<and>
     tk_symbol_to_byte T = map_of (zip byte_symbols (map char_of [0..<256 :: nat]))"

definition tokenizer_ok :: "unicode \<Rightarrow> Tokenizer \<Rightarrow> bool" where
  "tokenizer_ok U T \<longleftrightarrow>
     tables_ok U T \<and>
     (\<forall>t i. tk_token_to_id T t = Some i \<longrightarrow> unat i < length (tk_id_to_token T) \<and> tk_id_to_token T ! unat i = t) \<and>
     (\<forall>i \<in> set (tk_special_ids T). unat i < length (tk_id_to_token T) \<longrightarrow>
        spelling U (tk_id_to_token T ! unat i) = tk_id_to_token T ! unat i) \<and>
     (\<forall>(t, i) \<in> set (tk_special_to_id T). t \<noteq> [] \<and> spelling U t = t \<and> tk_token_to_id T t = Some i)"

text \<open>Every byte is a token and every merge gives a token.\<close>

definition vocabulary_closed :: "unicode \<Rightarrow> Tokenizer \<Rightarrow> bool" where
  "vocabulary_closed U T \<longleftrightarrow>
     (\<forall>c. tk_token_to_id T (symbol_of U c) \<noteq> None) \<and>
     (\<forall>a b. tk_merge_rank T (pair_key a b) \<noteq> None \<longrightarrow> tk_token_to_id T (a @ b) \<noteq> None)"

lemma symbol_of_nonempty: "unicode_faithful U \<Longrightarrow> symbol_of U c \<noteq> []"
  and iterate_symbol: "unicode_faithful U \<Longrightarrow>
    un_iterate U (symbol_of U c @ rest) = (byte_symbols ! of_char c, int (length (symbol_of U c)))"
proof -
  have c: "of_char c < length byte_symbols" by simp
  then have m: "byte_symbols ! of_char c \<in> set byte_symbols" by (rule nth_mem)
  have "(0 :: u32) \<notin> set byte_symbols"
  proof
    assume "(0 :: u32) \<in> set byte_symbols"
    then obtain v where v: "v \<in> set (assign_symbols [0..<256] 0)" "of_nat v = (0 :: u32)" by (auto simp: byte_symbols_def)
    then have "v = 0" using assigned_small [OF v(1)] by (simp add: word_unat_eq_iff unsigned_of_nat take_bit_nat_eq_self)
    then show False using assign_symbols_bound [of "[0..<256]" v 0] v(1) by (auto simp: direct_byte_def)
  qed
  then have "byte_symbols ! of_char c \<noteq> 0" using m by metis
  then have r: "0 < byte_symbols ! of_char c" "byte_symbols ! of_char c < 512"
    using byte_symbols_small [OF m] by (simp_all add: word_gt_0)
  assume "unicode_faithful U"
  then show "symbol_of U c \<noteq> []" "un_iterate U (symbol_of U c @ rest) = (byte_symbols ! of_char c, int (length (symbol_of U c)))"
    using r by (simp_all add: unicode_faithful_def symbol_of_def)
qed

subsection \<open>Reading code points\<close>

text \<open>The code points of a text lie end to end.\<close>

fun contiguous :: "nat \<Rightarrow> nat \<Rightarrow> Codepoint list \<Rightarrow> bool" where
  "contiguous start stop [] \<longleftrightarrow> start = stop"
| "contiguous start stop (cp # cps) \<longleftrightarrow> cp_begin cp = start \<and> start < cp_end cp \<and> contiguous (cp_end cp) stop cps"

lemma contiguous_le: "contiguous start stop cps \<Longrightarrow> start \<le> stop"
  by (induction cps arbitrary: start) fastforce+

lemma contiguous_drop:
  "contiguous start stop cps \<Longrightarrow> i < length cps \<Longrightarrow> contiguous (cp_begin (cps ! i)) stop (drop i cps)"
proof (induction cps arbitrary: start i)
  case (Cons cp cps)
  then show ?case by (cases i) auto
qed simp

lemma contiguous_end:
  "contiguous start stop cps \<Longrightarrow> i < length cps \<Longrightarrow>
     cp_begin (cps ! i) < cp_end (cps ! i) \<and> cp_end (cps ! i) = (if i + 1 < length cps then cp_begin (cps ! (i + 1)) else stop)"
proof (induction cps arbitrary: start i)
  case (Cons cp cps)
  then show ?case
    by (cases i; cases cps) auto
qed simp

lemma contiguous_mono:
  "contiguous start stop cps \<Longrightarrow> i \<le> j \<Longrightarrow> j < length cps \<Longrightarrow> cp_begin (cps ! i) \<le> cp_begin (cps ! j)"
proof (induction j)
  case (Suc j)
  show ?case
  proof (cases "i = Suc j")
    case False
    then have "cp_begin (cps ! i) \<le> cp_begin (cps ! j)" using Suc by simp
    then show ?thesis using contiguous_end [OF Suc.prems(1), of j] Suc.prems by simp
  qed simp
qed simp

lemma codepoints_from_contiguous:
  "unicode_faithful U \<Longrightarrow> codepoints_from U cursor s = Inr cps \<Longrightarrow> contiguous cursor (cursor + length s) cps"
proof (induction U cursor s arbitrary: cps rule: codepoints_from.induct)
  case (1 U cursor rest)
  show ?case
  proof (cases "rest = []")
    case True
    then show ?thesis using "1.prems" by (simp add: codepoints_from.simps)
  next
    case False
    obtain v size where it: "un_iterate U rest = (v, size)" by (cases "un_iterate U rest")
    then have pos: "\<not> size \<le> 0" and tail: "\<exists>cps'. codepoints_from U (cursor + nat size) (drop (nat size) rest) = Inr cps' \<and>
        cps = \<lparr>cp_value = v, cp_begin = cursor, cp_end = cursor + nat size, cp_category = un_category U v\<rparr> # cps'"
      using "1.prems"(2) False by (auto simp: codepoints_from.simps [of U cursor rest] split: if_splits)
    then obtain cps' where cps': "codepoints_from U (cursor + nat size) (drop (nat size) rest) = Inr cps'"
      "cps = \<lparr>cp_value = v, cp_begin = cursor, cp_end = cursor + nat size, cp_category = un_category U v\<rparr> # cps'" by blast
    have "nat size \<le> length rest" using "1.prems"(1) it False by (force simp: unicode_faithful_def)
    then show ?thesis
      using "1.IH" [OF False it [symmetric] refl pos "1.prems"(1) cps'(1)] cps'(2) pos by simp
  qed
qed

lemma pretokenize_from_partition:
  assumes cont: "contiguous 0 (length s) cps" and at: "at < length cps"
  shows "\<exists>pieces. pretokenize_from s cps at = Inr pieces \<and> concat pieces = drop (cp_begin (cps ! at)) s \<and> [] \<notin> set pieces"
  using at
proof (induction "length cps - at" arbitrary: at rule: less_induct)
  case less
  obtain e where e: "piece_end cps at = Some e" "at < e" "e \<le> length cps" using piece_end_progress [OF less.prems] by blast
  have unfold: "pretokenize_from s cps at = res_bind (pretokenize_from s cps e) (\<lambda>pieces. Inr (piece_text s cps at e # pieces))"
    using less.prems e(1) by (subst pretokenize_from.simps) simp
  let ?b = "cp_begin (cps ! at)" and ?l = "cp_end (cps ! (e - 1))"
  have e1: "e - 1 < length cps" "e - 1 + 1 = e" using e by auto
  have last: "cp_begin (cps ! (e - 1)) < ?l" "?l = (if e < length cps then cp_begin (cps ! e) else length s)"
    using contiguous_end [OF cont e1(1)] unfolding e1(2) by blast+
  have "?b \<le> cp_begin (cps ! (e - 1))" using contiguous_mono [OF cont, of at "e - 1"] e by simp
  then have bl: "?b < ?l" using last(1) by simp
  have ls: "?l \<le> length s"
  proof (cases "e < length cps")
    case True
    then show ?thesis using last(2) contiguous_le [OF contiguous_drop [OF cont True]] by simp
  qed (use last(2) in simp)
  have glue: "piece_text s cps at e @ drop ?l s = drop ?b s" and ne: "piece_text s cps at e \<noteq> []"
    using bl ls by (simp_all add: piece_text_def) (metis append_take_drop_id drop_drop le_add_diff_inverse2 less_imp_le)
  show ?case
  proof (cases "e < length cps")
    case True
    have "length cps - e < length cps - at" using e less.prems by simp
    from less.hyps [OF this True] obtain pieces where "pretokenize_from s cps e = Inr pieces"
      "concat pieces = drop (cp_begin (cps ! e)) s" "[] \<notin> set pieces" by blast
    then show ?thesis using unfold glue ne last(2) True by simp
  next
    case False
    then have "pretokenize_from s cps e = Inr []" by (subst pretokenize_from.simps) simp
    then show ?thesis using unfold glue ne last(2) False by simp
  qed
qed

lemma pretokenize_partition_aux:
  assumes "unicode_faithful U" and "codepoints U s = Inr cps"
  shows "\<exists>pieces. pretokenize U s = Inr pieces \<and> concat pieces = s \<and> [] \<notin> set pieces"
proof -
  have cont: "contiguous 0 (length s) cps"
    using codepoints_from_contiguous [OF assms(1), of 0 s cps] assms(2) by (simp add: codepoints_def)
  show ?thesis
  proof (cases cps)
    case Nil
    then show ?thesis using cont assms(2) by (simp add: pretokenize_def pretokenize_from.simps)
  next
    case (Cons cp cps')
    then show ?thesis using pretokenize_from_partition [OF cont, of 0] cont assms(2) by (simp add: pretokenize_def)
  qed
qed

subsection \<open>Merging and decoding\<close>

lemma drop_past: "k + length a \<le> j \<Longrightarrow> drop (j - k) (a @ b) = drop (j - (k + length a)) b"
  by simp

lemma codepoints_spelling:
  assumes U: "unicode_faithful U"
  shows "\<exists>cps. codepoints_from U cursor (spelling U bs) = Inr cps \<and> map cp_value cps = map (\<lambda>c. byte_symbols ! of_char c) bs \<and>
      map (\<lambda>cp. take (cp_end cp - cp_begin cp) (drop (cp_begin cp - cursor) (spelling U bs))) cps = map (symbol_of U) bs \<and>
      (\<forall>cp \<in> set cps. cursor \<le> cp_begin cp)"
proof (induction bs arbitrary: cursor)
  case Nil
  then show ?case by (simp add: spelling_def codepoints_from.simps)
next
  case (Cons b bs)
  let ?n = "length (symbol_of U b)"
  have sp: "spelling U (b # bs) = symbol_of U b @ spelling U bs" by (simp add: spelling_def)
  from Cons.IH [of "cursor + ?n"] obtain cps where cps: "codepoints_from U (cursor + ?n) (spelling U bs) = Inr cps"
    "map cp_value cps = map (\<lambda>c. byte_symbols ! of_char c) bs"
    "map (\<lambda>cp. take (cp_end cp - cp_begin cp) (drop (cp_begin cp - (cursor + ?n)) (spelling U bs))) cps = map (symbol_of U) bs"
    "\<forall>cp \<in> set cps. cursor + ?n \<le> cp_begin cp" by blast
  let ?cp = "\<lparr>cp_value = byte_symbols ! of_char b, cp_begin = cursor, cp_end = cursor + ?n,
      cp_category = un_category U (byte_symbols ! of_char b)\<rparr>"
  have "codepoints_from U cursor (spelling U (b # bs)) = Inr (?cp # cps)"
    using symbol_of_nonempty [OF U, of b] iterate_symbol [OF U, of b] cps(1)
    by (subst codepoints_from.simps) (simp add: sp)
  moreover have "map (\<lambda>cp. take (cp_end cp - cp_begin cp) (drop (cp_begin cp - cursor) (spelling U (b # bs)))) cps = map (symbol_of U) bs"
    unfolding cps(3) [symmetric] sp using cps(4) by (intro map_cong refl arg_cong2 [where f = take] drop_past) auto
  moreover have "take (cp_end ?cp - cp_begin ?cp) (drop (cp_begin ?cp - cursor) (spelling U (b # bs))) = symbol_of U b"
    by (simp add: sp)
  ultimately show ?case using cps(2,4) by (intro exI [of _ "?cp # cps"]) auto
qed

lemma split_spelling: "unicode_faithful U \<Longrightarrow> split_symbols U (spelling U bs) = Inr (map (symbol_of U) bs)"
  using codepoints_spelling [of U 0 bs] by (auto simp: split_symbols_def codepoints_def)

text \<open>A list of tokens that spells bytes: each spells a run of them.\<close>

definition spells :: "unicode \<Rightarrow> string list \<Rightarrow> string list \<Rightarrow> bool" where
  "spells U symbols runs \<longleftrightarrow> symbols = map (spelling U) runs \<and> [] \<notin> set runs"

lemma spelling_append: "spelling U (a @ b) = spelling U a @ spelling U b"
  by (simp add: spelling_def)

lemma merge_pass_spells:
  "spells U symbols runs \<Longrightarrow> \<exists>runs'. spells U (merge_pass left right symbols) runs' \<and> concat runs' = concat runs"
proof (induction left right symbols arbitrary: runs rule: merge_pass.induct)
  case (1 left right a b symbols)
  from "1.prems" obtain ra rb rs where runs: "runs = ra # rb # rs" "a = spelling U ra" "b = spelling U rb" "spells U symbols rs"
    "ra \<noteq> []" "rb \<noteq> []" by (auto simp: spells_def Cons_eq_map_conv)
  show ?case
  proof (cases "a = left \<and> b = right")
    case True
    from "1.IH"(1) [OF True runs(4)] obtain rs' where "spells U (merge_pass left right symbols) rs'" "concat rs' = concat rs" by blast
    then show ?thesis using True runs
      by (intro exI [of _ "(ra @ rb) # rs'"]) (auto simp: spells_def spelling_append)
  next
    case False
    have "spells U (b # symbols) (rb # rs)" using runs by (simp add: spells_def)
    from "1.IH"(2) [OF False this] obtain rs' where "spells U (merge_pass left right (b # symbols)) rs'" "concat rs' = concat (rb # rs)" by blast
    then show ?thesis using False runs by (intro exI [of _ "ra # rs'"]) (auto simp: spells_def)
  qed
qed auto

lemma merge_symbols_spells:
  "spells U symbols runs \<Longrightarrow> \<exists>runs'. spells U (merge_symbols T symbols) runs' \<and> concat runs' = concat runs"
proof (induction T symbols arbitrary: runs rule: merge_symbols.induct)
  case (1 T symbols)
  define best where "best = best_pair T symbols (- 1, '''', '''')"
  show ?case
  proof (cases "length symbols \<le> 1 \<or> fst best = - 1")
    case True
    then show ?thesis using "1.prems" by (subst merge_symbols.simps) (auto simp: best_def)
  next
    case False
    from merge_pass_spells [OF "1.prems"] obtain runs' where r: "spells U (merge_pass (fst (snd best)) (snd (snd best)) symbols) runs'"
      "concat runs' = concat runs" by blast
    have "merge_symbols T symbols = merge_symbols T (merge_pass (fst (snd best)) (snd (snd best)) symbols)"
      using False by (subst merge_symbols.simps) (simp add: best_def Let_def)
    then show ?thesis using "1.IH" [OF best_def False r(1)] r(2) by auto
  qed
qed

text \<open>Merging only makes tokens: every element was an element before or is the result of a merge rule.\<close>

lemma merge_pass_known:
  "\<forall>t \<in> set symbols. P t \<Longrightarrow> P (left @ right) \<Longrightarrow> \<forall>t \<in> set (merge_pass left right symbols). P t"
  by (induction left right symbols rule: merge_pass.induct) auto

lemma merge_symbols_known:
  assumes "\<And>a b. tk_merge_rank T (pair_key a b) \<noteq> None \<Longrightarrow> P (a @ b)"
  shows "\<forall>t \<in> set symbols. P t \<Longrightarrow> \<forall>t \<in> set (merge_symbols T symbols). P t"
  using assms
proof (induction T symbols rule: merge_symbols.induct)
  case (1 T symbols)
  define best where "best = best_pair T symbols (- 1, '''', '''')"
  show ?case
  proof (cases "length symbols \<le> 1 \<or> fst best = - 1")
    case True
    then show ?thesis using "1.prems" by (subst merge_symbols.simps) (auto simp: best_def)
  next
    case False
    have "tk_merge_rank T (pair_key (fst (snd best)) (snd (snd best))) \<noteq> None"
      using best_pair_found [of T symbols] False by (auto simp: best_def)
    then have "P (fst (snd best) @ snd (snd best))" by (rule "1.prems"(2))
    then have "\<forall>t \<in> set (merge_pass (fst (snd best)) (snd (snd best)) symbols). P t"
      using merge_pass_known [of symbols P] "1.prems"(1) by blast
    then have "\<forall>t \<in> set (merge_symbols T (merge_pass (fst (snd best)) (snd (snd best)) symbols)). P t"
      using "1.IH" [OF best_def False] "1.prems"(2) by blast
    moreover have "merge_symbols T symbols = merge_symbols T (merge_pass (fst (snd best)) (snd (snd best)) symbols)"
      using False by (subst merge_symbols.simps) (simp add: best_def Let_def)
    ultimately show ?thesis by simp
  qed
qed

text \<open>No rule applies to what merging returns, apart from one with the largest rank.\<close>

lemma merge_symbols_final:
  "adjacent a b (merge_symbols T symbols) \<Longrightarrow> tk_merge_rank T (pair_key a b) = Some rank \<Longrightarrow> rank = - 1"
proof (induction T symbols rule: merge_symbols.induct)
  case (1 T symbols)
  define best where "best = best_pair T symbols (- 1, '''', '''')"
  show ?case
  proof (cases "length symbols \<le> 1 \<or> fst best = - 1")
    case True
    then have "merge_symbols T symbols = symbols" by (subst merge_symbols.simps) (auto simp: best_def)
    then have adj: "adjacent a b symbols" using "1.prems"(1) by simp
    then have "\<not> length symbols \<le> 1" by (cases symbols rule: remdups_adj.cases) auto
    then have "fst best = - 1" using True by simp
    then show ?thesis using best_pair_none [of T symbols] adj "1.prems"(2) unfolding best_def by blast
  next
    case False
    have "merge_symbols T symbols = merge_symbols T (merge_pass (fst (snd best)) (snd (snd best)) symbols)"
      using False by (subst merge_symbols.simps) (simp add: best_def Let_def)
    then show ?thesis using "1.IH" [OF best_def False] "1.prems" by simp
  qed
qed

lemma byte_of_symbol:
  "tables_ok U T \<Longrightarrow> tk_symbol_to_byte T (byte_symbols ! of_char c) = Some c"
proof -
  assume "tables_ok U T"
  moreover have "map_of (zip byte_symbols (map char_of [0..<256 :: nat])) (byte_symbols ! of_char c) = Some (map char_of [0..<256 :: nat] ! of_char c)"
    by (rule map_of_zip_nth) (simp_all add: byte_symbols_distinct)
  ultimately show ?thesis by (simp add: tables_ok_def)
qed

lemma decode_spelling:
  assumes U: "unicode_faithful U" and T: "tables_ok U T"
  shows "res_bind (codepoints U (spelling U bs)) (res_map (\<lambda>cp.
             case tk_symbol_to_byte T (cp_value cp) of
               None \<Rightarrow> Inl (RuntimeError ''token contains an invalid byte symbol'')
             | Some b \<Rightarrow> Inr b)) = Inr bs"
proof -
  obtain cps where cps: "codepoints_from U 0 (spelling U bs) = Inr cps" "map cp_value cps = map (\<lambda>c. byte_symbols ! of_char c) bs"
    using codepoints_spelling [OF U] by blast
  have "res_map (\<lambda>cp. case tk_symbol_to_byte T (cp_value cp) of
      None \<Rightarrow> Inl (RuntimeError ''token contains an invalid byte symbol'') | Some b \<Rightarrow> Inr b) cps = Inr bs"
    using cps(2)
  proof (induction cps arbitrary: bs)
    case (Cons cp cps)
    then obtain b bs' where "bs = b # bs'" "cp_value cp = byte_symbols ! of_char b" by (auto simp: Cons_eq_map_conv map_eq_Cons_conv)
    then show ?case using Cons byte_of_symbol [OF T] by simp
  qed simp
  then show ?thesis using cps(1) by (simp add: codepoints_def)
qed

lemma spelling_nonempty: "unicode_faithful U \<Longrightarrow> bs \<noteq> [] \<Longrightarrow> spelling U bs \<noteq> []"
  using symbol_of_nonempty by (cases bs) (auto simp: spelling_def)

lemma spelling_inject:
  assumes "unicode_faithful U" "spelling U a = spelling U b"
  shows "a = b"
proof -
  define T :: Tokenizer where "T = \<lparr>tk_token_to_id = Map.empty, tk_id_to_token = [], tk_merge_rank = Map.empty, tk_special_to_id = [],
      tk_special_ids = [], tk_byte_to_symbol = map (un_encode_char U) byte_symbols,
      tk_symbol_to_byte = map_of (zip byte_symbols (map char_of [0..<256 :: nat]))\<rparr>"
  have T: "tables_ok U T" by (simp add: T_def tables_ok_def)
  have "(Inr a :: string result) = Inr b"
    using decode_spelling [OF assms(1) T, of a] unfolding assms(2) decode_spelling [OF assms(1) T, of b] by (rule sym)
  then show ?thesis by (rule Inr_inject)
qed

text \<open>A token that spells bytes decodes to them.\<close>

lemma decode_token_spelled:
  assumes U: "unicode_faithful U" and T: "tokenizer_ok U T" and i: "tk_token_to_id T (spelling U bs) = Some i" and ne: "bs \<noteq> []"
  shows "decode_token U T i = Inr bs"
proof -
  have tok: "unat i < length (tk_id_to_token T)" "tk_id_to_token T ! unat i = spelling U bs"
    using T i by (auto simp: tokenizer_ok_def)
  have "spelling U bs = bs" if "i \<in> set (tk_special_ids T)"
  proof -
    have "spelling U (tk_id_to_token T ! unat i) = tk_id_to_token T ! unat i"
      using T that tok(1) unfolding tokenizer_ok_def by blast
    then have "spelling U (spelling U bs) = spelling U bs" unfolding tok(2) .
    then show ?thesis by (rule spelling_inject [OF U])
  qed
  then show ?thesis
    using tok spelling_nonempty [OF U ne] decode_spelling [OF U, of T bs] T
    by (auto simp: decode_token_def tokenizer_ok_def)
qed

text \<open>A cache that holds only what merging returns.\<close>

definition cache_ok :: "unicode \<Rightarrow> Tokenizer \<Rightarrow> bpe_cache \<Rightarrow> bool" where
  "cache_ok U T cache \<longleftrightarrow>
     (\<forall>(piece, symbols) \<in> set cache. \<exists>split. split_symbols U piece = Inr split \<and> symbols = merge_symbols T split)"

lemma bpe_cached:
  assumes "cache_ok U T cache" and "split_symbols U piece = Inr split"
  shows "\<exists>cache'. bpe U T cache piece = (Inr (merge_symbols T split), cache') \<and> cache_ok U T cache'"
proof (cases "map_of cache piece")
  case None
  then show ?thesis using assms by (auto simp: bpe_def cache_ok_def Let_def)
next
  case (Some symbols)
  then have "symbols = merge_symbols T split" using assms map_of_SomeD [OF Some] by (fastforce simp: cache_ok_def)
  then show ?thesis using Some assms(1) by (simp add: bpe_def)
qed

lemma byte_piece_spelling: "tables_ok U T \<Longrightarrow> byte_piece T piece = spelling U piece"
  by (simp add: byte_piece_def spelling_def tables_ok_def symbol_of_def cong: map_cong)

lemma encode_pieces_round_trip:
  assumes U: "unicode_faithful U" and T: "tokenizer_ok U T" and V: "vocabulary_closed U T"
  shows "cache_ok U T cache \<Longrightarrow> \<exists>ids cache'. encode_pieces U T cache pieces = (Inr ids, cache') \<and> cache_ok U T cache' \<and>
      decode U T ids = Inr (concat pieces)"
proof (induction pieces arbitrary: cache)
  case Nil
  then show ?case by (simp add: decode_def)
next
  case (Cons piece pieces)
  have TT: "tables_ok U T" using T by (simp add: tokenizer_ok_def)
  obtain cache' where bpe: "bpe U T cache (byte_piece T piece) = (Inr (merge_symbols T (map (symbol_of U) piece)), cache')"
    and ok: "cache_ok U T cache'"
    using bpe_cached [OF Cons.prems split_spelling [OF U, of piece]] byte_piece_spelling [OF TT, of piece] by auto
  have "spells U (map (symbol_of U) piece) (map (\<lambda>c. [c]) piece)" by (auto simp: spells_def spelling_def)
  from merge_symbols_spells [OF this, of T] obtain runs where
    runs: "spells U (merge_symbols T (map (symbol_of U) piece)) runs" "concat runs = piece" by auto
  have "\<forall>t \<in> set (merge_symbols T (map (symbol_of U) piece)). tk_token_to_id T t \<noteq> None"
    by (rule merge_symbols_known) (use V in \<open>auto simp: vocabulary_closed_def\<close>)
  then have known: "\<forall>r \<in> set runs. tk_token_to_id T (spelling U r) \<noteq> None" using runs(1) by (auto simp: spells_def)
  define f where "f r = the (tk_token_to_id T (spelling U r))" for r
  have ids: "res_map (token_id T) (map (spelling U) runs) = Inr (map f runs)"
    using known by (induction runs) (auto simp: token_id_def f_def)
  have dec: "res_map (decode_token U T) (map f runs) = Inr runs"
  proof -
    have "decode_token U T (f r) = Inr r" if "r \<in> set runs" for r
      using decode_token_spelled [OF U T, of r "f r"] known runs(1) that by (auto simp: f_def spells_def)
    then show ?thesis by (induction runs) auto
  qed
  from Cons.IH [OF ok] obtain rest cache'' where rest: "encode_pieces U T cache' pieces = (Inr rest, cache'')" "cache_ok U T cache''"
    "decode U T rest = Inr (concat pieces)" by blast
  have "decode U T (map f runs @ rest) = Inr (piece @ concat pieces)"
    using dec rest(3) runs(2) by (auto simp: decode_def res_map_append)
  then show ?case using bpe ids rest runs(1) by (simp add: spells_def)
qed

lemma encode_ordinary_round_trip:
  assumes "unicode_faithful U" and "tokenizer_ok U T" and "vocabulary_closed U T" and "cache_ok U T cache"
    and "un_map U text0 = Inr normal" and "codepoints U normal = Inr cps"
  shows "\<exists>ids cache'. encode_ordinary U T cache text0 = (Inr ids, cache') \<and> cache_ok U T cache' \<and> decode U T ids = Inr normal"
proof -
  obtain pieces where "pretokenize U normal = Inr pieces" "concat pieces = normal"
    using pretokenize_partition_aux [OF assms(1,6)] by blast
  then show ?thesis
    using encode_pieces_round_trip [OF assms(1,2,3,4), of pieces] assms(5)
    by (simp add: encode_ordinary_def normalize_nfc_def)
qed

subsection \<open>Added tokens\<close>

abbreviation ascii :: "string \<Rightarrow> bool" where
  "ascii s \<equiv> list_all (\<lambda>c. (of_char c :: nat) < 128) s"

lemma codepoints_ascii: "unicode_faithful U \<Longrightarrow> ascii s \<Longrightarrow> \<exists>cps. codepoints_from U cursor s = Inr cps"
proof (induction s arbitrary: cursor)
  case (Cons c s)
  then obtain cps where "codepoints_from U (cursor + 1) s = Inr cps" by auto
  moreover have "un_iterate U (c # s) = (of_char c, 1)" using Cons.prems by (simp add: unicode_faithful_def)
  ultimately show ?case by (subst codepoints_from.simps) simp
qed (simp add: codepoints_from.simps)

lemma encode_ordinary_ascii:
  assumes "unicode_faithful U" and "tokenizer_ok U T" and "vocabulary_closed U T" and "cache_ok U T cache" and "ascii s"
  shows "\<exists>ids cache'. encode_ordinary U T cache s = (Inr ids, cache') \<and> cache_ok U T cache' \<and> decode U T ids = Inr s"
proof -
  have "un_map U s = Inr s" using assms(1,5) by (simp add: unicode_faithful_def)
  moreover obtain cps where "codepoints U s = Inr cps" using codepoints_ascii [OF assms(1,5)] by (auto simp: codepoints_def)
  ultimately show ?thesis by (rule encode_ordinary_round_trip [OF assms(1-4)])
qed

lemma find_special_sound:
  assumes "foldl (consider_special rest) best specials = Some (at, special)"
  shows "best = Some (at, special) \<or> special \<in> fst ` set specials \<and> (\<exists>before after. rest = before @ special @ after \<and> length before = at)"
  using assms
proof (induction specials arbitrary: best)
  case (Cons candidate specials)
  then have "consider_special rest best candidate = Some (at, special) \<or>
      special \<in> fst ` set specials \<and> (\<exists>before after. rest = before @ special @ after \<and> length before = at)" by simp
  moreover have "best = Some (at, special) \<or> special = fst candidate \<and> (\<exists>before after. rest = before @ special @ after \<and> length before = at)"
    if "consider_special rest best candidate = Some (at, special)"
  proof (cases "find_split (fst candidate) rest")
    case None
    then show ?thesis using that by (simp add: consider_special_def)
  next
    case (Some split)
    obtain before after where split: "split = (before, after)" by (cases split)
    have "rest = before @ fst candidate @ after" using find_split_append Some split by blast
    then have "\<exists>x y. rest = x @ fst candidate @ y \<and> length x = length before" by blast
    moreover have "consider_special rest best candidate = best \<or> consider_special rest best candidate = Some (length before, fst candidate)"
      by (auto simp: consider_special_def Some split split: option.splits)
    ultimately show ?thesis using that by auto
  qed
  ultimately show ?case by auto
qed simp

text \<open>The text before the match, and the two sides of the loop's remaining text.\<close>

lemma find_special_split:
  assumes "find_special T rest = Some (at, special)"
  shows "special \<in> fst ` set (tk_special_to_id T)" "rest = take at rest @ special @ drop (at + length special) rest"
  using find_special_sound [OF assms [unfolded find_special_def]] by auto

lemma encode_loop_round_trip:
  assumes U: "unicode_faithful U" and T: "tokenizer_ok U T" and V: "vocabulary_closed U T"
  shows "cache_ok U T cache \<Longrightarrow> ascii rest \<Longrightarrow>
    \<exists>ids cache'. encode_loop U T cache rest = Some (Inr ids, cache') \<and> cache_ok U T cache' \<and> decode U T ids = Inr rest"
proof (induction "length rest" arbitrary: rest cache rule: less_induct)
  case less
  note ordinary = encode_ordinary_ascii [OF U T V]
  consider "rest = []" | "rest \<noteq> []" "find_special T rest = None" | at special where "rest \<noteq> []" "find_special T rest = Some (at, special)"
    by (cases "find_special T rest") auto
  then show ?case
  proof cases
    case 1
    then show ?thesis using less.prems by (subst encode_loop.simps) (simp add: decode_def)
  next
    case 2
    then show ?thesis using ordinary [OF less.prems] by (subst encode_loop.simps) auto
  next
    case (3 at special)
    let ?before = "take at rest" and ?after = "drop (at + length special) rest"
    note split = find_special_split [OF 3(2)]
    have special: "special \<noteq> []" "spelling U special = special"
      "\<exists>i. map_of (tk_special_to_id T) special = Some i \<and> tk_token_to_id T special = Some i"
    proof -
      obtain i where i: "map_of (tk_special_to_id T) special = Some i" using split(1)
        by (cases "map_of (tk_special_to_id T) special") (simp_all add: map_of_eq_None_iff)
      then have "(special, i) \<in> set (tk_special_to_id T)" by (rule map_of_SomeD)
      then show "special \<noteq> []" "spelling U special = special" "\<exists>i. map_of (tk_special_to_id T) special = Some i \<and> tk_token_to_id T special = Some i"
        using T i by (auto simp: tokenizer_ok_def)
    qed
    then obtain i where i: "map_of (tk_special_to_id T) special = Some i" "tk_token_to_id T special = Some i" by blast
    have di: "decode_token U T i = Inr special" using decode_token_spelled [OF U T, of special i] i(2) special by simp
    have asc: "ascii ?before" "ascii ?after"
      using less.prems(2) by (auto simp: list_all_iff dest: in_set_takeD in_set_dropD)
    obtain ids cache' where ids: "(if at > 0 then encode_ordinary U T cache ?before else (Inr [], cache)) = (Inr ids, cache')"
      "cache_ok U T cache'" "decode U T ids = Inr ?before"
      using ordinary [OF less.prems(1) asc(1)] less.prems(1) by (cases "at > 0") (auto simp: decode_def)
    have "length ?after < length rest" using special(1) 3(1) by (simp add: Suc_le_eq)
    from less.hyps [OF this ids(2) asc(2)] obtain rest_ids cache'' where r: "encode_loop U T cache' ?after = Some (Inr rest_ids, cache'')"
      "cache_ok U T cache''" "decode U T rest_ids = Inr ?after" by blast
    have "encode_loop U T cache rest = Some (Inr (ids @ i # rest_ids), cache'')"
      using 3 ids(1) r(1) i(1) by (subst encode_loop.simps) simp
    moreover have "decode U T (ids @ i # rest_ids) = Inr rest"
    proof -
      have "decode U T (ids @ i # rest_ids) = Inr (?before @ special @ ?after)"
        using ids(3) di r(3) by (auto simp: decode_def res_map_append)
      then show ?thesis using split(2) by simp
    qed
    ultimately show ?thesis using r(2) by blast
  qed
qed

text \<open>C34. Every ASCII text, with or without added tokens in it, is encoded: the loop ends, with identifiers,
  and decoding them gives the text back.\<close>

theorem encode_decode_ascii:
  assumes "unicode_faithful U" and "tokenizer_ok U T" and "vocabulary_closed U T" and "cache_ok U T cache" and "ascii s"
  shows "\<exists>ids cache'. encode U T cache s recognize = Some (Inr ids, cache') \<and> cache_ok U T cache' \<and> decode U T ids = Inr s"
  using encode_ordinary_ascii [OF assms] encode_loop_round_trip [OF assms] by (auto simp: encode_def)

text \<open>Every Unicode text is encoded without loss up to normalization: its pieces are all encoded, merging
  and the cache lose nothing, and decoding gives the normal form of the text.\<close>

theorem encode_decode_normal_form:
  assumes "unicode_faithful U" and "tokenizer_ok U T" and "vocabulary_closed U T" and "cache_ok U T cache"
    and "un_map U s = Inr normal" and "codepoints U normal = Inr cps"
  shows "\<exists>ids cache'. encode U T cache s False = Some (Inr ids, cache') \<and> cache_ok U T cache' \<and> decode U T ids = Inr normal"
  using encode_ordinary_round_trip [OF assms] by (auto simp: encode_def)

text \<open>Splitting a text never fails and loses nothing: for every text that is valid UTF-8 the pieces
  are non-empty and concatenate to it, and the exception of the splitting loop is never thrown.\<close>

theorem pretokenize_partition:
  assumes "unicode_faithful U" and "codepoints U s = Inr cps"
  shows "\<exists>pieces. pretokenize U s = Inr pieces \<and> concat pieces = s \<and> [] \<notin> set pieces"
  using pretokenize_partition_aux [OF assms] .

text \<open>
  With an added token of empty content every position holds a special token, so the loop never
  encodes ordinary text; it advances only over non-empty special tokens.
\<close>

abbreviation special_texts :: "Tokenizer \<Rightarrow> string set" where
  "special_texts T \<equiv> fst ` set (tk_special_to_id T)"

lemma consider_special_empty: "\<exists>special. consider_special rest best ([], i) = Some (0, special)"
proof -
  have "find_split [] rest = Some ([], rest)" by (cases rest) simp_all
  then show ?thesis by (cases best) (auto simp: consider_special_def)
qed

lemma consider_special_at_start: "\<exists>special'. consider_special rest (Some (0, special)) candidate = Some (0, special')"
  by (auto simp: consider_special_def split: option.splits)

lemma find_special_at_start:
  assumes "[] \<in> special_texts T"
  shows "\<exists>special. find_special T rest = Some (0, special)"
proof -
  have keep: "\<exists>special'. foldl (consider_special rest) (Some (0, special)) xs = Some (0, special')" for special xs
  proof (induction xs arbitrary: special)
    case (Cons x xs)
    obtain special' where "consider_special rest (Some (0, special)) x = Some (0, special')"
      using consider_special_at_start by blast
    then show ?case using Cons.IH by simp
  qed simp
  obtain i where "([], i) \<in> set (tk_special_to_id T)" using assms by auto
  then obtain xs ys where split: "tk_special_to_id T = xs @ ([], i) # ys" by (meson split_list)
  obtain special where "consider_special rest (foldl (consider_special rest) None xs) ([], i) = Some (0, special)"
    using consider_special_empty by blast
  then show ?thesis using keep by (simp add: find_special_def split)
qed

lemma encode_loop_returns_on_specials:
  assumes "encode_loop U T cache rest = Some y" and "[] \<in> special_texts T"
  shows "\<exists>parts. concat parts = rest \<and> set parts \<subseteq> special_texts T"
proof -
  have "[] \<in> special_texts T \<longrightarrow> (\<exists>parts. concat parts = rest \<and> set parts \<subseteq> special_texts T)"
  proof (rule encode_loop.raw_induct [where P = "\<lambda>U T cache rest y. [] \<in> special_texts T \<longrightarrow>
        (\<exists>parts. concat parts = rest \<and> set parts \<subseteq> special_texts T)", OF _ assms(1)])
    fix loop :: "unicode \<Rightarrow> Tokenizer \<Rightarrow> bpe_cache \<Rightarrow> string \<Rightarrow> (u32 list result \<times> bpe_cache) option" and U T cache rest y
    assume IH: "\<And>U T cache rest y. loop U T cache rest = Some y \<Longrightarrow> [] \<in> special_texts T \<longrightarrow>
        (\<exists>parts. concat parts = rest \<and> set parts \<subseteq> special_texts T)"
      and body: "(if rest = [] then Some (Inr [], cache)
        else case find_special T rest of
            None \<Rightarrow> Some (encode_ordinary U T cache rest)
          | Some (special_at, special) \<Rightarrow>
              (case (if special_at > 0 then encode_ordinary U T cache (take special_at rest) else (Inr [], cache)) of
                 (Inl e, cache') \<Rightarrow> Some (Inl e, cache')
               | (Inr ordinary, cache') \<Rightarrow>
                   Option.bind (loop U T cache' (drop (special_at + length special) rest)) (\<lambda>(r, cache'').
                     Some (res_bind r (\<lambda>ids. Inr (ordinary @ the (map_of (tk_special_to_id T) special) # ids)), cache'')))) = Some y"
    show "[] \<in> special_texts T \<longrightarrow> (\<exists>parts. concat parts = rest \<and> set parts \<subseteq> special_texts T)"
    proof (intro impI)
      assume empty: "[] \<in> special_texts T"
      show "\<exists>parts. concat parts = rest \<and> set parts \<subseteq> special_texts T"
      proof (cases "rest = []")
        case True
        then show ?thesis by (intro exI [of _ "[]"]) simp
      next
        case False
        obtain special where sp: "find_special T rest = Some (0, special)"
          using find_special_at_start [OF empty] by blast
        obtain z where "loop U T cache (drop (length special) rest) = Some z"
          using body False sp by (auto simp: bind_eq_Some_conv)
        with IH empty obtain parts where "concat parts = drop (length special) rest" "set parts \<subseteq> special_texts T"
          by blast
        then show ?thesis using find_special_split [OF sp] by (intro exI [of _ "special # parts"]) simp
      qed
    qed
  qed
  then show ?thesis using assms(2) by blast
qed

text \<open>C35. When an added token has empty content, encoding a text that is not a sequence of added
  tokens never returns, whatever the other tokens are: at the first place where no other added token
  starts, the empty one is found, and the cursor does not advance.\<close>

theorem empty_added_token_never_returns:
  assumes "[] \<in> special_texts T" and "\<nexists>parts. concat parts = bytes \<and> set parts \<subseteq> special_texts T"
  shows "encode U T cache bytes True = None"
proof (rule ccontr)
  assume "encode U T cache bytes True \<noteq> None"
  moreover have "tk_special_to_id T \<noteq> []" using assms(1) by auto
  ultimately obtain y where "encode_loop U T cache bytes = Some y" by (auto simp: encode_def)
  from encode_loop_returns_on_specials [OF this assms(1)] assms(2) show False by blast
qed

subsection \<open>What loading guarantees\<close>

text \<open>Byte tables are right, every identifier has a row, and every added token has an identifier.\<close>

definition loaded_ok :: "unicode \<Rightarrow> Tokenizer \<Rightarrow> bool" where
  "loaded_ok U T \<longleftrightarrow>
     tables_ok U T \<and> (\<forall>t i. tk_token_to_id T t = Some i \<longrightarrow> unat i < length (tk_id_to_token T)) \<and>
     (\<forall>i \<in> set (tk_special_ids T). unat i < length (tk_id_to_token T)) \<and>
     distinct (map fst (tk_special_to_id T)) \<and> (\<forall>(t, i) \<in> set (tk_special_to_id T). tk_token_to_id T t \<noteq> None)"

lemma id_table_length: "(t, i) \<in> set entries \<Longrightarrow> unat i < length (id_table entries)"
proof -
  have keep: "length (foldl (\<lambda>tokens (token, i). tokens[unat i := token]) acc es) = length acc" for acc and es :: "(string \<times> u32) list"
    by (induction es arbitrary: acc) auto
  have up: "m \<le> foldl (\<lambda>m (token, i). max m (unat i)) m es" for m and es :: "(string \<times> u32) list"
    by (induction es arbitrary: m) (auto, meson max.bounded_iff)
  have "(t, i) \<in> set es \<Longrightarrow> unat i \<le> foldl (\<lambda>m (token, i). max m (unat i)) m es" for m and es :: "(string \<times> u32) list"
  proof (induction es arbitrary: m)
    case (Cons e es)
    then show ?case using up [of "max m (unat i)" es] by auto
  qed simp
  then show "(t, i) \<in> set entries \<Longrightarrow> unat i < length (id_table entries)"
    unfolding id_table_def keep by (simp add: less_Suc_eq_le)
qed

lemma add_token_ok:
  assumes ok: "loaded_ok U T" and add: "add_token T i d = Inr T'"
  shows "loaded_ok U T'"
proof -
  obtain token special where T': "T' = T\<lparr>
      tk_id_to_token := (if length (tk_id_to_token T) \<le> unat i
        then tk_id_to_token T @ replicate (unat i + 1 - length (tk_id_to_token T)) [] else tk_id_to_token T)[unat i := token],
      tk_token_to_id := (tk_token_to_id T)(token \<mapsto> i),
      tk_special_to_id := (if token \<in> fst ` set (tk_special_to_id T) then tk_special_to_id T else tk_special_to_id T @ [(token, i)]),
      tk_special_ids := (if special then List.insert i (tk_special_ids T) else tk_special_ids T)\<rparr>"
    using add unfolding add_token_def Let_def by auto
  have len: "unat i < length (tk_id_to_token T')" "length (tk_id_to_token T) \<le> length (tk_id_to_token T')"
    by (simp_all add: T')
  have "tables_ok U T'" using ok by (simp add: loaded_ok_def tables_ok_def T')
  moreover have "unat j < length (tk_id_to_token T')" if "tk_token_to_id T' t = Some j" for t j
  proof (cases "t = token")
    case True
    then show ?thesis using that len(1) by (simp add: T')
  next
    case False
    then have "tk_token_to_id T t = Some j" using that by (simp add: T')
    then show ?thesis using ok len(2) unfolding loaded_ok_def by (meson order.strict_trans2)
  qed
  moreover have "unat j < length (tk_id_to_token T')" if "j \<in> set (tk_special_ids T')" for j
  proof (cases "j = i")
    case False
    then have "j \<in> set (tk_special_ids T)" using that by (simp add: T' split: if_splits)
    then show ?thesis using ok len(2) unfolding loaded_ok_def by (meson order.strict_trans2)
  qed (use len(1) in simp)
  moreover have "distinct (map fst (tk_special_to_id T'))" using ok by (simp add: loaded_ok_def T')
  moreover have "tk_token_to_id T' t \<noteq> None" if "(t, j) \<in> set (tk_special_to_id T')" for t j
    using ok that unfolding loaded_ok_def by (auto simp: T' split: if_splits)
  ultimately show ?thesis unfolding loaded_ok_def by blast
qed

lemma add_decoder_tokens_ok: "add_decoder_tokens T ms = Inr T' \<Longrightarrow> loaded_ok U T \<Longrightarrow> loaded_ok U T'"
proof (induction T ms rule: add_decoder_tokens.induct)
  case (2 T id_text d rest)
  then obtain i T1 where "from_chars_u32 id_text = Some i" "add_token T i d = Inr T1" "add_decoder_tokens T1 rest = Inr T'"
    by (auto split: option.splits)
  then show ?case using 2 add_token_ok by blast
qed simp

lemma add_json_tokens_ok: "add_json_tokens T ds = Inr T' \<Longrightarrow> loaded_ok U T \<Longrightarrow> loaded_ok U T'"
proof (induction ds arbitrary: T)
  case (Cons d ds)
  then obtain i T1 where "add_token T i d = Inr T1" "add_json_tokens T1 ds = Inr T'" by (auto split: if_splits)
  then show ?case using Cons add_token_ok by blast
qed simp

lemma load_added_ok: "load_added T c j = Inr T' \<Longrightarrow> loaded_ok U T \<Longrightarrow> loaded_ok U T'"
  by (auto simp: load_added_def add_decoder_tokens_ok add_json_tokens_ok split: option.splits Json.Json.splits)

lemma utf8_symbols: "res_map (utf8 U) vs = Inr ss \<Longrightarrow> ss = map (un_encode_char U) vs"
  by (induction vs arbitrary: ss) (auto simp: utf8_def Let_def split: if_splits)

text \<open>A tokenizer that loads is fit for use: its byte tables are inverse to each other, no identifier it
  produces is out of range for decoding, and every added token it matches has an identifier.\<close>

theorem load_tokenizer_ok:
  fixes D :: "'d double_conversion"
  assumes "load_tokenizer U D env files dir = Inr T"
  shows "loaded_ok U T"
proof -
  from assms obtain symbols entries keys and tokenizer_json :: "'d Json option" and tokenizer_config :: "'d Json" where
    symbols: "res_map (utf8 U) byte_symbols = Inr symbols" and
    added: "load_added
             \<lparr>tk_token_to_id = map_of entries, tk_id_to_token = id_table entries, tk_merge_rank = rank_table keys,
                 tk_special_to_id = [], tk_special_ids = [], tk_byte_to_symbol = symbols,
                 tk_symbol_to_byte = map_of (zip byte_symbols (map char_of [0..<256 :: nat]))\<rparr>
             tokenizer_config tokenizer_json = Inr T"
    unfolding load_tokenizer_def Let_def by auto
  let ?T = "\<lparr>tk_token_to_id = map_of entries, tk_id_to_token = id_table entries, tk_merge_rank = rank_table keys,
                 tk_special_to_id = [], tk_special_ids = [], tk_byte_to_symbol = symbols,
                 tk_symbol_to_byte = map_of (zip byte_symbols (map char_of [0..<256 :: nat]))\<rparr>"
  have start: "loaded_ok U ?T"
    using utf8_symbols [OF symbols] id_table_length map_of_SomeD by (fastforce simp: loaded_ok_def tables_ok_def)
  show ?thesis using load_added_ok [OF added start] .
qed

subsection \<open>A concrete library and tokenizer\<close>

definition sample_iterate :: "string \<Rightarrow> u32 \<times> int" where
  "sample_iterate s =
     (case s of
        [] \<Rightarrow> (0, 0)
      | c # r \<Rightarrow>
          if (of_char c :: nat) < 128 then (of_char c, 1)
          else
            (case r of
               [] \<Rightarrow> (0, -3)
             | d # _ \<Rightarrow>
                 if 194 \<le> (of_char c :: nat) \<and> (of_char c :: nat) < 224 \<and> 128 \<le> (of_char d :: nat) \<and> (of_char d :: nat) < 192
                 then (of_nat ((of_char c - 192) * 64 + (of_char d - 128)), 2) else (0, -3)))"

definition sample_encode :: "u32 \<Rightarrow> string" where
  "sample_encode v =
     (if unat v < 128 then [char_of (unat v)]
      else if unat v < 2048 then [char_of (192 + unat v div 64), char_of (128 + unat v mod 64)] else [])"

definition sample_unicode :: unicode where
  "sample_unicode =
     \<lparr>un_map = Inr, un_iterate = sample_iterate, un_category = (\<lambda>v. if 97 \<le> v \<and> v \<le> 122 then 2 else if v = 32 then 23 else 18),
      un_encode_char = sample_encode\<rparr>"

lemma sample_iterate_encode:
  assumes "v < 512"
  shows "sample_encode v \<noteq> [] \<and> sample_iterate (sample_encode v @ rest) = (v, int (length (sample_encode v)))"
proof -
  have v: "unat v < 512" using assms by (simp add: word_less_nat_alt)
  show ?thesis
  proof (cases "unat v < 128")
    case True
    then have "(of_char (char_of (unat v) :: char) :: nat) = unat v" by simp
    moreover have "(of_char (char_of (unat v) :: char) :: u32) = v"
      using arg_cong [OF calculation, of "of_nat :: nat \<Rightarrow> u32"] unfolding of_nat_of_char by simp
    ultimately show ?thesis using True by (simp add: sample_encode_def sample_iterate_def)
  next
    case False
    have d: "2 \<le> unat v div 64" "unat v div 64 < 8" using False v by auto
    have c: "(of_char (char_of (192 + unat v div 64) :: char) :: nat) = 192 + unat v div 64"
      "(of_char (char_of (128 + unat v mod 64) :: char) :: nat) = 128 + unat v mod 64"
      using d by simp_all
    have "of_nat (unat v div 64 * 64 + unat v mod 64) = v" by simp
    then show ?thesis using False v d c by (simp add: sample_encode_def sample_iterate_def del: of_nat_add of_nat_mult)
  qed
qed

lemma sample_unicode_faithful: "unicode_faithful sample_unicode"
proof -
  have "snd (sample_iterate s) \<le> int (length s)" for s
    by (auto simp: sample_iterate_def split: list.split)
  then show ?thesis
    using sample_iterate_encode by (auto simp: unicode_faithful_def sample_unicode_def) (simp_all add: sample_iterate_def)
qed

definition sample_strings :: "string list" where
  "sample_strings = map (\<lambda>b. [char_of b]) [0..<256 :: nat] @ [''ab'', ''<s>'']"

definition sample_tokens :: "string list" where
  "sample_tokens = map (spelling sample_unicode) sample_strings"

definition sample_tokenizer :: Tokenizer where
  "sample_tokenizer =
     \<lparr>tk_token_to_id = map_of (zip sample_tokens (map of_nat [0..<258])), tk_id_to_token = sample_tokens,
      tk_merge_rank = [pair_key (spelling sample_unicode ''a'') (spelling sample_unicode ''b'') \<mapsto> 0],
      tk_special_to_id = [(''<s>'', 257)], tk_special_ids = [257],
      tk_byte_to_symbol = map (un_encode_char sample_unicode) byte_symbols,
      tk_symbol_to_byte = map_of (zip byte_symbols (map char_of [0..<256 :: nat]))\<rparr>"

lemma assign_symbols_direct: "i < length bs \<Longrightarrow> direct_byte (bs ! i) \<Longrightarrow> assign_symbols bs extra ! i = bs ! i"
proof (induction bs extra arbitrary: i rule: assign_symbols.induct)
  case (2 b bs extra)
  then show ?case by (cases i) auto
qed simp

lemma sample_spelling_visible: "list_all (\<lambda>c. direct_byte (of_char c) \<and> (of_char c :: nat) < 128) s \<Longrightarrow> spelling sample_unicode s = s"
proof (induction s)
  case (Cons c s)
  have "byte_symbols ! of_char c = of_nat (of_char c)"
    using Cons.prems assign_symbols_direct [of "of_char c" "[0..<256]" 0] by (simp add: byte_symbols_def)
  moreover have "unat (of_nat (of_char c) :: u32) = of_char c" using Cons.prems by (simp add: unsigned_of_nat take_bit_nat_eq_self)
  ultimately have "symbol_of sample_unicode c = [c]"
    using Cons.prems by (simp add: symbol_of_def sample_unicode_def sample_encode_def)
  then show ?case using Cons by (simp add: spelling_def)
qed (simp add: spelling_def)

lemma sample_strings_distinct: "distinct sample_strings"
proof -
  have "inj_on (\<lambda>b. [char_of b]) {0..<256 :: nat}"
    by (rule inj_onI) (metis atLeastLessThan_iff list.inject of_char_of mod_less numeral_eq_Suc of_char_mod_256)
  then show ?thesis by (auto simp: sample_strings_def distinct_map)
qed

lemma sample_token_id:
  assumes "b < 258"
  shows "tk_token_to_id sample_tokenizer (sample_tokens ! b) = Some (of_nat b)"
proof -
  have len: "length sample_tokens = 258" by (simp add: sample_tokens_def sample_strings_def)
  have "inj_on (spelling sample_unicode) (set sample_strings)"
    by (rule inj_onI) (rule spelling_inject [OF sample_unicode_faithful])
  then have "distinct sample_tokens" using sample_strings_distinct by (simp add: sample_tokens_def distinct_map)
  then have "map_of (zip sample_tokens (map of_nat [0..<258])) (sample_tokens ! b) = Some (map of_nat [0..<258] ! b :: u32)"
    using len assms by (intro map_of_zip_nth) simp_all
  then show ?thesis using assms by (simp add: sample_tokenizer_def)
qed

lemma sample_token_back:
  assumes "tk_token_to_id sample_tokenizer t = Some i"
  shows "unat i < length (tk_id_to_token sample_tokenizer) \<and> tk_id_to_token sample_tokenizer ! unat i = t"
proof -
  have len: "length sample_tokens = 258" by (simp add: sample_tokens_def sample_strings_def)
  have "(t, i) \<in> set (zip sample_tokens (map of_nat [0..<258]))"
    using assms by (intro map_of_SomeD) (simp add: sample_tokenizer_def)
  then obtain b where b: "b < 258" "t = sample_tokens ! b" "i = of_nat b" using len by (auto simp: set_zip)
  then have "unat i = b" by (simp add: unsigned_of_nat take_bit_nat_eq_self)
  then show ?thesis using b len by (simp add: sample_tokenizer_def)
qed

lemma sample_special: "sample_tokens ! 257 = ''<s>''" "tk_token_to_id sample_tokenizer ''<s>'' = Some 257"
proof -
  have "sample_strings ! 257 = ''<s>''" "257 < length sample_strings" by (simp_all add: sample_strings_def nth_append)
  moreover have "spelling sample_unicode ''<s>'' = ''<s>''" by (rule sample_spelling_visible) (simp add: direct_byte_def)
  ultimately show "sample_tokens ! 257 = ''<s>''" by (simp add: sample_tokens_def)
  then show "tk_token_to_id sample_tokenizer ''<s>'' = Some 257" using sample_token_id [of 257] by simp
qed

lemma sample_tokenizer_ok: "tokenizer_ok sample_unicode sample_tokenizer"
proof -
  have "spelling sample_unicode ''<s>'' = ''<s>''" by (rule sample_spelling_visible) (simp add: direct_byte_def)
  then show ?thesis
    unfolding tokenizer_ok_def using sample_token_back sample_special
    by (auto simp: tables_ok_def sample_tokenizer_def)
qed

lemma sample_vocabulary_closed: "vocabulary_closed sample_unicode sample_tokenizer"
proof -
  have "tk_token_to_id sample_tokenizer (symbol_of sample_unicode c) \<noteq> None" for c
  proof -
    have s: "sample_strings ! of_char c = [c]" "of_char c < (256 :: nat)" "of_char c < length sample_strings"
      by (simp_all add: sample_strings_def nth_append) (rule less_trans [OF nat_of_char_less_256], simp)
    then have "sample_tokens ! of_char c = spelling sample_unicode [c]" by (simp add: sample_tokens_def)
    then have "sample_tokens ! of_char c = symbol_of sample_unicode c" by (simp add: spelling_def)
    then show ?thesis using sample_token_id [of "of_char c"] s(2) by simp
  qed
  moreover have "tk_token_to_id sample_tokenizer (a @ b) \<noteq> None" if "tk_merge_rank sample_tokenizer (pair_key a b) \<noteq> None" for a b
  proof -
    have vis: "spelling sample_unicode s = s" if "s \<in> {''a'', ''b'', ''ab''}" for s
      using that by (intro sample_spelling_visible) (auto simp: direct_byte_def)
    have "pair_key a b = [CHR ''a'', CHR 0x00, CHR ''b'']"
      using that vis by (simp add: sample_tokenizer_def pair_key_def split: if_splits)
    then have "a @ b = ''ab''" by (auto simp: pair_key_def append_eq_Cons_conv Cons_eq_append_conv)
    moreover have "sample_tokens ! 256 = ''ab''" using vis by (simp add: sample_tokens_def sample_strings_def nth_append)
    ultimately show ?thesis using sample_token_id [of 256] by simp
  qed
  ultimately show ?thesis unfolding vocabulary_closed_def by blast
qed

lemma empty_cache_ok: "cache_ok U T []"
  by (simp add: cache_ok_def)

theorem encode_decode_ascii_witness:
  "\<exists>ids cache'. encode sample_unicode sample_tokenizer [] ''cab <s> ab'' True = Some (Inr ids, cache') \<and>
     cache_ok sample_unicode sample_tokenizer cache' \<and> decode sample_unicode sample_tokenizer ids = Inr ''cab <s> ab''"
  by (rule encode_decode_ascii [OF sample_unicode_faithful sample_tokenizer_ok sample_vocabulary_closed empty_cache_ok]) simp

theorem encode_decode_normal_form_witness:
  "\<exists>ids cache'. encode sample_unicode sample_tokenizer [] [CHR 0xC3, CHR 0xA9] False = Some (Inr ids, cache') \<and>
     cache_ok sample_unicode sample_tokenizer cache' \<and> decode sample_unicode sample_tokenizer ids = Inr [CHR 0xC3, CHR 0xA9]"
proof -
  have "codepoints sample_unicode [CHR 0xC3, CHR 0xA9] = Inr [\<lparr>cp_value = 0xE9, cp_begin = 0, cp_end = 2, cp_category = 18\<rparr>]"
    by (simp add: codepoints_def codepoints_from.simps sample_unicode_def sample_iterate_def)
  moreover have "un_map sample_unicode [CHR 0xC3, CHR 0xA9] = Inr [CHR 0xC3, CHR 0xA9]" by (simp add: sample_unicode_def)
  ultimately show ?thesis
    using encode_decode_normal_form [OF sample_unicode_faithful sample_tokenizer_ok sample_vocabulary_closed empty_cache_ok] by blast
qed

theorem pretokenize_partition_witness:
  "\<exists>pieces. pretokenize sample_unicode [CHR 0xC3, CHR 0xA9] = Inr pieces \<and> concat pieces = [CHR 0xC3, CHR 0xA9] \<and> [] \<notin> set pieces"
proof -
  have "codepoints sample_unicode [CHR 0xC3, CHR 0xA9] = Inr [\<lparr>cp_value = 0xE9, cp_begin = 0, cp_end = 2, cp_category = 18\<rparr>]"
    by (simp add: codepoints_def codepoints_from.simps sample_unicode_def sample_iterate_def)
  then show ?thesis by (rule pretokenize_partition [OF sample_unicode_faithful])
qed

definition sample_files :: model_files where
  "sample_files =
     [''m/vocab.json'' \<mapsto> ''{}'', ''m/merges.txt'' \<mapsto> ''#version: 0.2'',
      ''m/tokenizer_config.json'' \<mapsto> [CHR 0x7B, CHR 0x22] @ ''added_tokens_decoder'' @ [CHR 0x22] @ '':{}}'']"

lemma sample_parses:
  "parse_document sample_conversion ''{}'' = Inr (JObject [])"
  "parse_document sample_conversion ([CHR 0x7B, CHR 0x22] @ ''added_tokens_decoder'' @ [CHR 0x22] @ '':{}}'') =
     Inr (JObject [(''added_tokens_decoder'', JObject [])])"
  by code_simp+

theorem load_tokenizer_ok_witness:
  "\<exists>T. load_tokenizer sample_unicode sample_conversion Map.empty sample_files ''m'' = Inr T \<and> loaded_ok sample_unicode T"
proof -
  have "res_map (utf8 sample_unicode) byte_symbols = Inr (map (un_encode_char sample_unicode) byte_symbols)"
  proof (rule res_map_all_Inr)
    fix v assume "v \<in> set byte_symbols"
    then show "utf8 sample_unicode v = Inr (un_encode_char sample_unicode v)"
      using sample_iterate_encode [OF byte_symbols_small] by (simp add: utf8_def sample_unicode_def)
  qed
  moreover have "merge_lines ''#version: 0.2'' = Inr []"
    by (simp add: merge_lines_def text_lines.simps)
  ultimately obtain T where "load_tokenizer sample_unicode sample_conversion Map.empty sample_files ''m'' = Inr T"
    using sample_parses
    by (simp add: load_tokenizer_def load_vocabulary_def load_merges_def load_added_def sample_files_def read_text_def
        tokenizer_directory_def Let_def)
  then show ?thesis using load_tokenizer_ok by blast
qed

theorem empty_added_token_never_returns_witness:
  "encode sample_unicode (sample_tokenizer\<lparr>tk_special_to_id := [(''<s>'', 257), ([], 256)]\<rparr>) [] ''<s>ab'' True = None"
proof (rule empty_added_token_never_returns)
  let ?T = "sample_tokenizer\<lparr>tk_special_to_id := [(''<s>'', 257), ([], 256)]\<rparr>"
  show "[] \<in> special_texts ?T" by simp
  have "CHR ''a'' \<notin> set (concat parts)" if "set parts \<subseteq> special_texts ?T" for parts
    using that by auto
  moreover have "CHR ''a'' \<in> set ''<s>ab''" by simp
  ultimately show "\<nexists>parts. concat parts = ''<s>ab'' \<and> set parts \<subseteq> special_texts ?T" by metis
qed

end
