(* ===== verification/Engine_Prompt.thy ===== *)
theory Engine_Prompt
  imports Native_Engine Tokenizer_Round_Trip
begin

text \<open>
  Ingesting a prompt. The prompt loops of the engine, with any chunk size, cached prefix and
  companion head, leave a target state that has consumed every token of the prompt but the last
  exactly once and in order, and the head in step with it. The window loop of packed
  vector-quantized models does so only when the chunk size divides the window.
\<close>

subsection \<open>Vocabulary\<close>

definition in_vocabulary :: "('s, 'ls, 'm, 'g) model \<Rightarrow> u32 list \<Rightarrow> bool" where
  "in_vocabulary M ts \<longleftrightarrow> (\<forall>t \<in> set ts. unat t < md_vocabulary_size M)"

subsection \<open>The companion head during ingestion\<close>

definition fresh_mtp :: "'hl mtp_decode_state \<Rightarrow> bool" where
  "fresh_mtp mtp \<longleftrightarrow> ms_position_base mtp = None \<and> ms_row_count mtp = 0"

lemma fresh_in_sync: "fresh_mtp mtp \<Longrightarrow> head_in_sync q mtp"
  by (simp add: fresh_mtp_def head_in_sync_def)

text \<open>The head lags one row behind a target that has consumed \<open>q\<close> tokens.\<close>

definition mtp_follows :: "nat \<Rightarrow> 's option \<times> 'hl mtp_decode_state \<Rightarrow> bool" where
  "mtp_follows q x \<longleftrightarrow>
     (case fst x of None \<Rightarrow> q = 0 \<and> fresh_mtp (snd x) | Some _ \<Rightarrow> head_in_sync q (snd x))"

definition head_ok :: "('s, 'ls, 'm, 'g) model \<Rightarrow> ('s, 'hl, 'm, 'g) mtp_head \<Rightarrow> bool" where
  "head_ok M H \<longleftrightarrow> head_commits H \<and> (\<forall>s. hd_shape_ok H s) \<and>
     md_vocabulary_size M \<le> hd_vocabulary_size H \<and> (\<forall>g. unat (hd_argmax H g) < md_vocabulary_size M)"

lemma head_in_vocabulary:
  "head_ok M H \<Longrightarrow> in_vocabulary M ts \<Longrightarrow> t \<in> set ts \<Longrightarrow> unat t < hd_vocabulary_size H"
  by (fastforce simp: head_ok_def in_vocabulary_def)

lemma consume_decode_sync:
  assumes "head_ok M H" and "head_in_sync q mtp" and "q \<le> SIZE_MAX" and "unat t < hd_vocabulary_size H"
  shows "\<exists>mtp'. consume_decode H s t q mtp = (Inr (), mtp') \<and> head_in_sync (q + 1) mtp'"
proof -
  have shape: "hd_shape_ok H s" using assms(1) by (simp add: head_ok_def)
  show ?thesis using head_run_single [OF assms(2,3) shape assms(4)] by blast
qed

lemma consume_prefill_batch_sync:
  assumes "head_ok M H" and "head_in_sync q mtp" and "q \<le> SIZE_MAX"
    and "\<forall>t \<in> set ts. unat t < hd_vocabulary_size H" and "ts \<noteq> []" and "length ts \<le> 512" and "length ss = length ts"
  shows "\<exists>mtp'. consume_prefill_batch H ss ts q mtp = (Inr (), mtp') \<and> head_in_sync (q + length ts) mtp'"
proof -
  have shape: "\<not> (\<exists>s \<in> set ss. \<not> hd_shape_ok H s)" using assms(1) by (simp add: head_ok_def)
  have comb: "combine_inputs H ss ts = Inr (hd_combine H ss ts)"
    using assms by (auto simp: combine_inputs_def head_ok_def)
  have vocab: "(\<exists>t \<in> set ts. unat t \<ge> hd_vocabulary_size H) = False" using assms(4) by (auto simp: not_le)
  show ?thesis
    unfolding consume_prefill_batch_def claim_position_ok [OF assms(2,3)] vocab comb
    using assms(5-7) shape head_in_sync_next [OF assms(2), where n = "length ts"]
    by (cases mtp) (simp add: split_beta)
qed

lemma slice_ok: "b < e \<Longrightarrow> e \<le> length batch \<Longrightarrow> slice_sequence_rows batch b e = Inr (take (e - b) (drop b batch))"
  by (simp add: slice_sequence_rows_def)

lemma consume_row_by_row_follows:
  assumes "\<forall>h. H = Some h \<longrightarrow> head_ok M h" and "in_vocabulary M prompt" and "length prompt \<le> SIZE_MAX"
  shows "mtp_follows (offset + row) x \<Longrightarrow> row + n \<le> length batch \<Longrightarrow> offset + row + n \<le> length prompt \<Longrightarrow>
    H \<noteq> None \<Longrightarrow>
    \<exists>x'. consume_row_by_row n H prompt batch offset row x = Inr x' \<and> mtp_follows (offset + row + n) x' \<and>
      (n \<noteq> 0 \<longrightarrow> fst x' \<noteq> None)"
proof (induction n arbitrary: row x)
  case 0
  then show ?case by auto
next
  case (Suc n)
  obtain previous mtp where x: "x = (previous, mtp)" by fastforce
  obtain h where h: "H = Some h" "head_ok M h" using Suc.prems(4) assms(1) by auto
  let ?t = "prompt ! (offset + row)"
  have t: "unat ?t < hd_vocabulary_size h"
    using head_in_vocabulary [OF h(2) assms(2)] Suc.prems(3) by simp
  have sync: "head_in_sync (offset + row) mtp"
    using Suc.prems(1) x fresh_in_sync by (auto simp: mtp_follows_def split: option.splits)
  have "\<exists>mtp'. (case (H, previous) of
            (Some h, Some stream) \<Rightarrow>
              (case consume_decode h stream ?t (offset + row) mtp of
                 (Inl e, _) \<Rightarrow> Inl e | (Inr _, mtp') \<Rightarrow> Inr mtp')
          | _ \<Rightarrow> Inr mtp) = Inr mtp' \<and> head_in_sync (offset + row + 1) mtp'"
  proof (cases previous)
    case None
    then show ?thesis using Suc.prems(1) x h by (auto simp: mtp_follows_def intro: fresh_in_sync)
  next
    case (Some stream)
    then show ?thesis
      using consume_decode_sync [OF h(2) sync _ t, of stream] Suc.prems(3) assms(3) h by auto
  qed
  then obtain mtp' where step: "(case (H, previous) of
            (Some h, Some stream) \<Rightarrow>
              (case consume_decode h stream ?t (offset + row) mtp of
                 (Inl e, _) \<Rightarrow> Inl e | (Inr _, mtp') \<Rightarrow> Inr mtp')
          | _ \<Rightarrow> Inr mtp) = Inr mtp'" and sync': "head_in_sync (offset + row + 1) mtp'" by blast
  let ?x' = "(Some (hd (take 1 (drop row batch))), mtp')"
  have "mtp_follows (offset + (row + 1)) ?x'" using sync' by (simp add: mtp_follows_def)
  with Suc.IH [of "row + 1" ?x'] Suc.prems obtain x'' where
    rest: "consume_row_by_row n H prompt batch offset (row + 1) ?x' = Inr x''"
      "mtp_follows (offset + (row + 1) + n) x''" "n \<noteq> 0 \<longrightarrow> fst x'' \<noteq> None" by auto
  have "consume_row_by_row (Suc n) H prompt batch offset row x = Inr x''"
    using rest(1) Suc.prems(2) x step by (simp add: slice_ok)
  moreover have "fst x'' \<noteq> None" using rest by (cases n) auto
  ultimately show ?case using rest(2) by simp
qed

text \<open>Without a head only the last stream is kept.\<close>

lemma consume_row_by_row_no_head:
  assumes "H = None"
  shows "row + n \<le> length batch \<Longrightarrow>
    \<exists>x'. consume_row_by_row n H prompt batch offset row x = Inr x' \<and> (n \<noteq> 0 \<longrightarrow> fst x' \<noteq> None)"
proof (induction n arbitrary: row x)
  case (Suc n)
  obtain previous mtp where x: "x = (previous, mtp)" by fastforce
  let ?x' = "(Some (hd (take 1 (drop row batch))), mtp)"
  have "row + 1 + n \<le> length batch" using Suc.prems by simp
  from Suc.IH [OF this, of ?x'] obtain x'' where
    rest: "consume_row_by_row n H prompt batch offset (row + 1) ?x' = Inr x''" "n \<noteq> 0 \<longrightarrow> fst x'' \<noteq> None"
    by blast
  then show ?case using Suc.prems x assms by (cases n) (auto simp: slice_ok)
qed simp

text \<open>The variables of the prefill loops after \<open>q\<close> prompt tokens.\<close>

definition ingest_follows ::
    "('s, 'hl, 'm, 'g) mtp_head option \<Rightarrow> nat \<Rightarrow> 's option \<times> 'hl mtp_decode_state \<Rightarrow> bool" where
  "ingest_follows H q x \<longleftrightarrow> (q \<noteq> 0 \<longrightarrow> fst x \<noteq> None) \<and> (H \<noteq> None \<longrightarrow> mtp_follows q x)"

lemma consume_target_batch_follows:
  assumes H: "\<forall>h. H = Some h \<longrightarrow> head_ok M h" and vocab: "in_vocabulary M prompt"
    and size: "length prompt \<le> SIZE_MAX"
    and follows: "ingest_follows H offset x" and count: "0 < count" "count \<le> 512" "length batch = count"
    and room: "offset + count \<le> length prompt"
  shows "\<exists>x'. consume_target_batch env H prompt batch offset count x = Inr x' \<and>
    ingest_follows H (offset + count) x'"
proof (cases "H \<noteq> None \<and> batched_mtp_prefill_enabled env")
  case False
  then show ?thesis
    using consume_row_by_row_follows [OF H vocab size, of offset 0 x count batch]
      consume_row_by_row_no_head [of H 0 count batch prompt offset x] follows count room
    by (cases H) (auto simp: consume_target_batch_def ingest_follows_def split: prod.splits)
next
  case True
  then obtain h where h: "H = Some h" "head_ok M h" using H by auto
  obtain previous mtp where x: "x = (previous, mtp)" by fastforce
  define first where "first = (if previous \<noteq> None then offset else offset + 1)"
  define rows where "rows = offset + count - first"
  have sync: "head_in_sync first mtp"
    using follows x h fresh_in_sync
    by (auto simp: ingest_follows_def mtp_follows_def first_def split: option.splits)
  have off: "previous = None \<Longrightarrow> offset = 0" using follows by (auto simp: ingest_follows_def x)
  have last: "slice_sequence_rows batch (count - 1) count = Inr (take 1 (drop (count - 1) batch))"
    using count by (simp add: slice_ok)
  let ?upd = "if first < offset + count then
        res_bind (case previous of
            Some stream \<Rightarrow>
              if rows = 1 then Inr [stream]
              else res_bind (slice_sequence_rows batch 0 (rows - 1)) (\<lambda>ss. Inr (stream # ss))
          | None \<Rightarrow> slice_sequence_rows batch 0 rows) (\<lambda>target_rows.
          case consume_prefill_batch h target_rows (take rows (drop first prompt)) first mtp of
            (Inl e, _) \<Rightarrow> Inl e | (Inr _, mtp') \<Rightarrow> Inr mtp')
      else Inr mtp"
  have "\<exists>mtp'. ?upd = Inr mtp' \<and> head_in_sync (offset + count) mtp'"
  proof (cases "first < offset + count")
    case False
    then have "previous = None" "count = 1" using count(1) by (auto simp: first_def split: if_splits)
    then have "fresh_mtp mtp" using follows x h by (auto simp: ingest_follows_def mtp_follows_def)
    then show ?thesis using False fresh_in_sync by auto
  next
    case True
    have rows: "0 < rows" "rows \<le> count" "first + rows = offset + count"
      using True by (auto simp: rows_def first_def)
    obtain ss where ss: "(case previous of
            Some stream \<Rightarrow>
              if rows = 1 then Inr [stream]
              else res_bind (slice_sequence_rows batch 0 (rows - 1)) (\<lambda>ss. Inr (stream # ss))
          | None \<Rightarrow> slice_sequence_rows batch 0 rows) = Inr ss" "length ss = rows"
    proof (cases previous)
      case None
      then show thesis using that [of "take rows batch"] rows count by (simp add: slice_ok)
    next
      case (Some stream)
      then show thesis
        using that [of "if rows = 1 then [stream] else stream # take (rows - 1) batch"] rows count
        by (auto simp: slice_ok split: if_splits)
    qed
    let ?ts = "take rows (drop first prompt)"
    have ts: "length ?ts = rows" using rows room by simp
    have valid: "\<forall>t \<in> set ?ts. unat t < hd_vocabulary_size h"
      using head_in_vocabulary [OF h(2) vocab] by (auto dest!: in_set_takeD in_set_dropD)
    have "first \<le> SIZE_MAX" "?ts \<noteq> []" "length ?ts \<le> 512" "length ss = length ?ts"
      using rows ts ss(2) count room size by auto
    from consume_prefill_batch_sync [OF h(2) sync this(1) valid this(2-4)] obtain mtp' where
      "consume_prefill_batch h ss ?ts first mtp = (Inr (), mtp')" "head_in_sync (first + length ?ts) mtp'"
      by blast
    then show ?thesis using True ss(1) ts rows(3) by simp
  qed
  then obtain mtp' where M: "?upd = Inr mtp'" "head_in_sync (offset + count) mtp'" by blast
  have "consume_target_batch env H prompt batch offset count x =
      res_bind ?upd (\<lambda>mtp'. res_bind (slice_sequence_rows batch (count - 1) count) (\<lambda>ss. Inr (Some (hd ss), mtp')))"
    unfolding consume_target_batch_def first_def rows_def using True h x by (simp add: Let_def)
  then have "consume_target_batch env H prompt batch offset count x =
      Inr (Some (hd (take 1 (drop (count - 1) batch))), mtp')"
    unfolding M(1) last by simp
  then show ?thesis using M(2) by (auto simp: ingest_follows_def mtp_follows_def)
qed

lemma stream_slice_ok:
  assumes "batch_offset < count" and "length stream_batch = count"
  shows "\<exists>batch. (if batch_offset = 0 \<and> min 512 (count - batch_offset) = count then Inr stream_batch
        else slice_sequence_rows stream_batch batch_offset (batch_offset + min 512 (count - batch_offset))) =
      Inr batch \<and> length batch = min 512 (count - batch_offset)"
proof (cases "batch_offset = 0 \<and> min 512 (count - batch_offset) = count")
  case True
  show ?thesis unfolding if_P [OF True] using True assms(2) by auto
next
  case False
  let ?n = "min 512 (count - batch_offset)"
  have "slice_sequence_rows stream_batch batch_offset (batch_offset + ?n) =
      Inr (take ?n (drop batch_offset stream_batch))"
    using assms slice_ok [of batch_offset "batch_offset + ?n" stream_batch] by simp
  moreover have "length (take ?n (drop batch_offset stream_batch)) = ?n" using assms by simp
  ultimately show ?thesis using False by (simp only: if_False) blast
qed

lemma consume_stream_batch_follows:
  shows "ingest_follows H (offset + min batch_offset count) x \<Longrightarrow> length stream_batch = count \<Longrightarrow>
    offset + count \<le> length prompt \<Longrightarrow> \<forall>h. H = Some h \<longrightarrow> head_ok M h \<Longrightarrow>
    in_vocabulary M prompt \<Longrightarrow> length prompt \<le> SIZE_MAX \<Longrightarrow>
    \<exists>x'. consume_stream_batch env H prompt stream_batch offset count batch_offset x = Inr x' \<and>
      ingest_follows H (offset + count) x'"
proof (induction env H prompt stream_batch offset count batch_offset x rule: consume_stream_batch.induct)
  case (1 env H prompt stream_batch offset count batch_offset x)
  show ?case
  proof (cases "batch_offset < count")
    case False
    then have "min batch_offset count = count" by simp
    then show ?thesis using 1(2) False by (subst consume_stream_batch.simps) simp
  next
    case True
    let ?n = "min 512 (count - batch_offset)"
    obtain batch where batch: "(if batch_offset = 0 \<and> ?n = count then Inr stream_batch
        else slice_sequence_rows stream_batch batch_offset (batch_offset + ?n)) = Inr batch" "length batch = ?n"
      using stream_slice_ok [OF True 1(3)] by blast
    have n: "0 < ?n" "?n \<le> 512" "offset + batch_offset + ?n \<le> length prompt" using True 1(4) by auto
    have follows: "ingest_follows H (offset + batch_offset) x" using 1(2) True by (simp add: min_def)
    obtain x1 where x1: "consume_target_batch env H prompt batch (offset + batch_offset) ?n x = Inr x1"
      "ingest_follows H (offset + batch_offset + ?n) x1"
      using consume_target_batch_follows [OF 1(5-7) follows n(1,2) batch(2) n(3)] by blast
    have at: "offset + batch_offset + ?n = offset + min (batch_offset + 512) count" using True by simp
    have "ingest_follows H (offset + min (batch_offset + 512) count) x1" using x1(2) unfolding at .
    from 1(1) [OF True refl batch(1) x1(1) this 1(3,4)] 1(5-7) obtain x' where
      rest: "consume_stream_batch env H prompt stream_batch offset count (batch_offset + 512) x1 = Inr x'"
        "ingest_follows H (offset + count) x'" by blast
    have "consume_stream_batch env H prompt stream_batch offset count batch_offset x = Inr x'"
      using True batch(1) x1(1) rest(1) by (subst consume_stream_batch.simps) (simp add: Let_def)
    then show ?thesis using rest(2) by blast
  qed
qed

subsection \<open>The loops over the chunks of a prompt\<close>

definition prefill_ready :: "environment \<Rightarrow> ('s, 'ls, 'm) multi_kernels \<Rightarrow> ('s, 'ls, 'm, 'g) model \<Rightarrow>
    'ls decode_state \<Rightarrow> bool" where
  "prefill_ready env K M st0 \<longleftrightarrow> (\<exists>ok. kernels_steady ok K M \<and> state_ok ok M st0) \<and>
     md_vocabulary_size M \<le> 2147483648 \<and>
     (\<exists>d. decode_barrier_stride env = Inr d) \<and> (\<exists>p. prefill_barrier_stride env = Inr p)"

lemma vocabulary_in_range:
  "in_vocabulary M ts \<Longrightarrow> md_vocabulary_size M \<le> 2147483648 \<Longrightarrow> tokens_in_range M ts"
  by (fastforce simp: tokens_in_range_def in_vocabulary_def)

lemma prefill_ready_fits: "prefill_ready env K M st0 \<Longrightarrow> feeds env K M ts st0 st \<Longrightarrow> state_fits M st"
  unfolding prefill_ready_def using feeds_fits by blast

text \<open>From any state that has been fed tokens, a further chunk is ingested.\<close>

lemma prefill_ready_chunk:
  assumes "prefill_ready env K M st0" and fed: "feeds env K M us st0 st" and "ts \<noteq> []" and "length ts \<le> 2048"
    and "in_vocabulary M ts" and "ds_token_count st + length ts \<le> SIZE_MAX"
  shows "\<exists>batch st'. prefill_chunk_batch env M ts st = (Inr batch, st') \<and> length batch = length ts \<and>
    feeds env K M (us @ ts) st0 st'"
proof -
  obtain ok p where ok: "kernels_steady ok K M" "state_ok ok M st0" and p: "prefill_barrier_stride env = Inr p"
    and v: "md_vocabulary_size M \<le> 2147483648"
    using assms(1) by (auto simp: prefill_ready_def)
  have st: "state_ok ok M st" using feeds_ok [OF fed ok] .
  have "steady ok M" using ok(1) by (simp add: kernels_steady_def)
  from prefill_chunk_batch_total [OF this st assms(3,4,6) vocabulary_in_range [OF assms(5) v] p]
  obtain batch st' where run: "prefill_chunk_batch env M ts st = (Inr batch, st')" "length batch = length ts" by blast
  then show ?thesis using feeds_append [OF fed feeds_prefill [OF run(1)]] by blast
qed

text \<open>
  The common hypotheses of the loops: a valid prompt, a valid head, and a target that has consumed
  the first \<open>offset\<close> tokens of the prompt.
\<close>

definition ingest_ready ::
    "environment \<Rightarrow> ('s, 'ls, 'm) multi_kernels \<Rightarrow> ('s, 'ls, 'hl, 'm, 'g, 'r) NativeEngine \<Rightarrow> u32 list \<Rightarrow> bool" where
  "ingest_ready env K E prompt \<longleftrightarrow>
     prefill_ready env K (ne_model E) (ne_make_state E) \<and> (\<forall>h. ne_mtp_head E = Some h \<longrightarrow> head_ok (ne_model E) h) \<and>
     in_vocabulary (ne_model E) prompt \<and> prompt \<noteq> [] \<and> length prompt \<le> SIZE_MAX \<and>
     ds_token_count (ne_make_state E) = 0"

definition ingested ::
    "environment \<Rightarrow> ('s, 'ls, 'm) multi_kernels \<Rightarrow> ('s, 'ls, 'hl, 'm, 'g, 'r) NativeEngine \<Rightarrow> u32 list \<Rightarrow> nat \<Rightarrow> ('s, 'ls, 'hl) ingest \<Rightarrow> bool" where
  "ingested env K E prompt offset x \<longleftrightarrow>
     feeds env K (ne_model E) (take offset prompt) (ne_make_state E) (fst x) \<and>
     ingest_follows (ne_mtp_head E) offset (snd x)"

lemma in_vocabulary_take: "in_vocabulary M ts \<Longrightarrow> in_vocabulary M (take n ts)"
  by (auto simp: in_vocabulary_def dest: in_set_takeD)

lemma in_vocabulary_drop: "in_vocabulary M ts \<Longrightarrow> in_vocabulary M (drop n ts)"
  by (auto simp: in_vocabulary_def dest: in_set_dropD)

lemma in_vocabulary_append [simp]: "in_vocabulary M (ts @ us) \<longleftrightarrow> in_vocabulary M ts \<and> in_vocabulary M us"
  by (auto simp: in_vocabulary_def)

lemma take_append_part:
  "drop offset prompt = part @ rest \<Longrightarrow> take (offset + length part) prompt = take offset prompt @ part"
  by (simp add: take_add)

lemma drop_append_part: "drop offset prompt = part @ rest \<Longrightarrow> drop (offset + length part) prompt = rest"
  by (metis add.commute append_eq_conv_conj drop_drop)

lemma part_room:
  assumes "drop offset prompt = part @ rest" and "part \<noteq> []"
  shows "offset + length part \<le> length prompt"
  using arg_cong [OF assms(1), of length] assms(2) by (cases part) auto

lemma prefill_sequential_ingests:
  assumes ready: "ingest_ready env K E prompt"
  shows "\<forall>part \<in> set parts. part \<noteq> [] \<and> length part \<le> 2048 \<Longrightarrow> ingested env K E prompt offset x \<Longrightarrow>
    drop offset prompt = concat parts @ rest \<Longrightarrow>
    \<exists>x'. prefill_sequential env E prompt parts offset x = Inr x' \<and>
      ingested env K E prompt (offset + length (concat parts)) x'"
proof (induction parts arbitrary: offset x)
  case Nil
  then show ?case by simp
next
  case (Cons part parts)
  let ?M = "ne_model E"
  note R = ready [unfolded ingest_ready_def]
  obtain target y where x: "x = (target, y)" by (cases x) auto
  have part: "part \<noteq> []" "length part \<le> 2048" "drop offset prompt = part @ concat parts @ rest"
    using Cons.prems by auto
  have room: "offset + length part \<le> length prompt" using part_room [OF part(3,1)] .
  have fed: "feeds env K ?M (take offset prompt) (ne_make_state E) target"
    and follows: "ingest_follows (ne_mtp_head E) offset y"
    using Cons.prems(2) x by (auto simp: ingested_def)
  have count: "ds_token_count target = offset" using feeds_count [OF fed] R room by simp
  have vocab: "in_vocabulary ?M part"
    using in_vocabulary_drop [of ?M prompt offset] R part(3) by simp
  have "ds_token_count target + length part \<le> SIZE_MAX" using R count room by linarith
  then obtain batch target' where chunk: "prefill_chunk_batch env ?M part target = (Inr batch, target')"
    "length batch = length part" "feeds env K ?M (take offset prompt @ part) (ne_make_state E) target'"
    using prefill_ready_chunk [OF _ fed part(1,2) vocab] R by blast
  obtain y' where y': "consume_stream_batch env (ne_mtp_head E) prompt batch offset (length part) 0 y = Inr y'"
    "ingest_follows (ne_mtp_head E) (offset + length part) y'"
    using consume_stream_batch_follows [of "ne_mtp_head E" offset 0 "length part" y batch prompt ?M env]
      follows chunk(2) room R by auto
  have "ingested env K E prompt (offset + length part) (target', y')"
    using take_append_part [OF part(3)] chunk(3) y'(2) by (simp add: ingested_def)
  from Cons.IH [OF _ this] Cons.prems drop_append_part [OF part(3)] obtain x' where
    "prefill_sequential env E prompt parts (offset + length part) (target', y') = Inr x'"
    "ingested env K E prompt (offset + length part + length (concat parts)) x'" by auto
  then show ?case using x chunk(1) y'(1) by (simp add: add.assoc)
qed

subsection \<open>Windows\<close>

lemma sequential_feeds:
  assumes "prefill_ready env K M st0"
  shows "\<forall>part \<in> set parts. part \<noteq> [] \<and> length part \<le> 2048 \<Longrightarrow> feeds env K M us st0 st \<Longrightarrow>
    in_vocabulary M (concat parts) \<Longrightarrow> ds_token_count st + length (concat parts) \<le> SIZE_MAX \<Longrightarrow>
    \<exists>batches st'. prefill_chunks_sequential env M parts st = (Inr batches, st') \<and>
      map length batches = map length parts \<and> feeds env K M (us @ concat parts) st0 st'"
proof (induction parts arbitrary: us st)
  case Nil
  then show ?case by simp
next
  case (Cons part parts)
  have part: "part \<noteq> []" "length part \<le> 2048" "in_vocabulary M part"
    "ds_token_count st + length part \<le> SIZE_MAX" using Cons.prems by auto
  obtain batch st1 where step: "prefill_chunk_batch env M part st = (Inr batch, st1)"
    "length batch = length part" "feeds env K M (us @ part) st0 st1"
    using prefill_ready_chunk [OF assms Cons.prems(2) part] by blast
  have "ds_token_count st1 = ds_token_count st + length part"
    using prefill_chunk_batch_shape [OF step(1)] by simp
  with Cons.IH [OF _ step(3)] Cons.prems obtain batches st' where
    "prefill_chunks_sequential env M parts st1 = (Inr batches, st')"
    "map length batches = map length parts" "feeds env K M ((us @ part) @ concat parts) st0 st'" by auto
  then show ?case using step by simp
qed

text \<open>The sizes the code computes for the outputs of a window are the sizes of its chunks.\<close>

fun outputs_fit :: "nat \<Rightarrow> nat \<Rightarrow> nat \<Rightarrow> nat list \<Rightarrow> bool" where
  "outputs_fit chunk rows offset [] \<longleftrightarrow> True"
| "outputs_fit chunk rows offset (n # ns) \<longleftrightarrow>
     n = min chunk (rows - offset) \<and> outputs_fit chunk rows (offset + n) ns"

lemma chunk_spans_Cons:
  "tokens \<noteq> [] \<Longrightarrow> 0 < rows \<Longrightarrow> chunk_spans rows tokens = take rows tokens # chunk_spans rows (drop rows tokens)"
  by (subst chunk_spans.simps) simp

lemma chunk_spans_Nil [simp]: "chunk_spans rows [] = []"
  by (subst chunk_spans.simps) simp

lemma chunk_spans_fit:
  "0 < chunk \<Longrightarrow> length tokens mod chunk = 0 \<or> offset + length tokens = rows \<Longrightarrow>
     offset + length tokens \<le> rows \<Longrightarrow> outputs_fit chunk rows offset (map length (chunk_spans chunk tokens))"
proof (induction chunk tokens arbitrary: offset rule: chunk_spans.induct)
  case (1 chunk tokens)
  show ?case
  proof (cases "tokens = []")
    case False
    let ?n = "min chunk (length tokens)"
    have part: "length (take chunk tokens) = ?n" by simp
    have "?n = min chunk (rows - offset)"
    proof (cases "offset + length tokens = rows")
      case True
      then have "rows - offset = length tokens" by simp
      then show ?thesis by simp
    next
      case off: False
      then have "length tokens mod chunk = 0" using 1(3) by blast
      then have "chunk \<le> length tokens" using False 1(2) by (metis length_greater_0_conv mod_less not_le nat_neq_iff)
      then show ?thesis using 1(4) by (simp add: min_def)
    qed
    moreover have "outputs_fit chunk rows (offset + ?n) (map length (chunk_spans chunk (drop chunk tokens)))"
    proof (cases "chunk \<le> length tokens")
      case True
      have "(length tokens - chunk) mod chunk = length tokens mod chunk"
        using True by (simp add: le_mod_geq)
      then show ?thesis using 1(1) [of "offset + ?n"] 1(2-4) False True by (auto simp: min_def)
    next
      case False
      then show ?thesis by simp
    qed
    ultimately show ?thesis using 1(2) False part by (simp add: chunk_spans_Cons)
  qed simp
qed

lemma consume_outputs_follows:
  assumes ready: "ingest_ready env K E prompt"
  shows "outputs_fit chunk (length prompt - 1) offset (map length outs) \<Longrightarrow>
    offset + sum_list (map length outs) \<le> length prompt - 1 \<Longrightarrow> ingest_follows (ne_mtp_head E) offset x \<Longrightarrow>
    \<exists>x'. consume_outputs env E prompt chunk offset outs x = Inr x' \<and>
      ingest_follows (ne_mtp_head E) (offset + sum_list (map length outs)) x'"
proof (induction outs arbitrary: offset x)
  case Nil
  then show ?case by simp
next
  case (Cons out outs)
  note R = ready [unfolded ingest_ready_def]
  have n: "length out = min chunk (length prompt - 1 - offset)" using Cons.prems by simp
  have room: "offset + length out \<le> length prompt" using Cons.prems(2) by simp
  obtain x1 where x1: "consume_stream_batch env (ne_mtp_head E) prompt out offset (length out) 0 x = Inr x1"
    "ingest_follows (ne_mtp_head E) (offset + length out) x1"
    using consume_stream_batch_follows [of "ne_mtp_head E" offset 0 "length out" x out prompt "ne_model E" env]
      R Cons.prems(3) room by auto
  from Cons.IH [OF _ _ x1(2)] Cons.prems obtain x' where
    "consume_outputs env E prompt chunk (offset + length out) outs x1 = Inr x'"
    "ingest_follows (ne_mtp_head E) (offset + length out + sum_list (map length outs)) x'" by auto
  then show ?case using x1(1) n by (auto simp: Let_def add.assoc)
qed

lemma sum_list_length: "sum_list (map length xss) = length (concat xss)"
  by (simp add: length_concat)

text \<open>A window that fits can be ingested layer by layer instead of chunk by chunk.\<close>

lemma layer_major_window:
  assumes "prefill_ready env K M st0" and "state_fits M st" and "ts \<noteq> []" and "length ts \<le> 8192"
    and "0 < chunk" and "chunk \<le> 2048" and "in_vocabulary M ts" and "ds_token_count st + length ts \<le> SIZE_MAX"
  shows "prefill_chunks_layer_major env M ts chunk st = prefill_chunks_sequential env M (chunk_spans chunk ts) st"
proof -
  obtain ok p where p: "prefill_barrier_stride env = Inr p" "kernels_steady ok K M" "md_vocabulary_size M \<le> 2147483648"
    using assms(1) by (auto simp: prefill_ready_def)
  have "md_layers M \<noteq> []" using p(2) by (simp add: kernels_steady_def steady_def)
  from layer_major_sequential [OF this assms(2) p(1) assms(3-6,8) vocabulary_in_range [OF assms(7) p(3)]]
  show ?thesis by blast
qed

lemma prefill_windows_ingests:
  assumes ready: "ingest_ready env K E prompt" and chunk: "0 < chunk" "chunk \<le> 2048"
    and divides: "8192 mod chunk = 0 \<or> length rest \<le> 8192"
  shows "ingested env K E prompt offset x \<Longrightarrow> drop offset (butlast prompt) = rest \<Longrightarrow> offset \<le> length prompt - 1 \<Longrightarrow>
    \<exists>x'. prefill_windows env E prompt chunk (chunk_spans 8192 rest) offset x = Inr x' \<and>
      ingested env K E prompt (length prompt - 1) x'"
  using divides
proof (induction "8192 :: nat" rest arbitrary: offset x rule: chunk_spans.induct)
  case (1 rest)
  show ?case
  proof (cases "rest = []")
    case True
    then have "offset = length prompt - 1" using 1(3,4) by simp
    then show ?thesis using 1(2) True by simp
  next
    case False
    let ?M = "ne_model E" and ?w = "take 8192 rest" and ?rows = "length prompt - 1"
    note R = ready [unfolded ingest_ready_def]
    obtain target y where x: "x = (target, y)" by (cases x) auto
    have fed: "feeds env K ?M (take offset prompt) (ne_make_state E) target"
      and follows: "ingest_follows (ne_mtp_head E) offset y"
      using 1(2) x by (auto simp: ingested_def)
    have rest: "length rest = ?rows - offset" using 1(3) by (metis length_butlast length_drop)
    have room: "offset + length ?w \<le> ?rows" using rest 1(4) by simp
    have whole: "drop offset prompt = ?w @ drop 8192 rest @ [last prompt]"
    proof -
      have "prompt = butlast prompt @ [last prompt]" using R by simp
      then have "drop offset prompt = drop offset (butlast prompt) @ [last prompt]"
        using 1(4) by (metis append_Nil2 diff_is_0_eq drop_0 drop_append length_butlast)
      then show ?thesis using 1(3) by simp
    qed
    have count: "ds_token_count target = offset" using feeds_count [OF fed] R 1(4) by simp
    have vocab: "in_vocabulary ?M ?w" using in_vocabulary_drop [of ?M prompt offset] R whole by simp
    have fits_count: "ds_token_count target + length ?w \<le> SIZE_MAX" using count room R by linarith
    let ?parts = "chunk_spans chunk ?w"
    have parts: "concat ?parts = ?w" "\<forall>part \<in> set ?parts. part \<noteq> [] \<and> length part \<le> 2048"
      using chunk_spans_props [OF chunk(1), of ?w] chunk(2) by auto
    obtain batches target' where seq: "prefill_chunks_sequential env ?M ?parts target = (Inr batches, target')"
      "map length batches = map length ?parts" "feeds env K ?M (take offset prompt @ ?w) (ne_make_state E) target'"
      using sequential_feeds [OF _ parts(2) fed] parts(1) R vocab fits_count by auto
    have "state_fits ?M target" using prefill_ready_fits [OF _ fed] R by blast
    then have major: "prefill_chunks_layer_major env ?M ?w chunk target = (Inr batches, target')"
      using layer_major_window [of env K ?M "ne_make_state E" target ?w chunk] seq False chunk R vocab fits_count
      by auto
    have "length ?w mod chunk = 0 \<or> offset + length ?w = ?rows"
      using 1(5) rest 1(4) by (cases "length rest \<le> 8192") (auto simp: min_def)
    then have fit: "outputs_fit chunk ?rows offset (map length batches)"
      using chunk_spans_fit [OF chunk(1)] room seq(2) by simp
    have len: "sum_list (map length batches) = length ?w"
      unfolding seq(2) sum_list_length parts(1) ..
    obtain y' where y': "consume_outputs env E prompt chunk offset batches y = Inr y'"
      "ingest_follows (ne_mtp_head E) (offset + length ?w) y'"
      using consume_outputs_follows [OF ready fit _ follows] len room by auto
    have "ingested env K E prompt (offset + length ?w) (target', y')"
      using take_append_part [OF whole] seq(3) y'(2) by (simp add: ingested_def)
    moreover have "drop (offset + length ?w) (butlast prompt) = drop 8192 rest"
    proof (cases "8192 \<le> length rest")
      case True
      then show ?thesis using 1(3) by (metis add.commute drop_drop length_take min_absorb2)
    next
      case False
      then show ?thesis using 1(3,4) rest by simp
    qed
    ultimately obtain x' where
      "prefill_windows env E prompt chunk (chunk_spans 8192 (drop 8192 rest)) (offset + length ?w) (target', y') = Inr x'"
      "ingested env K E prompt ?rows x'"
      using 1(1) [of "offset + length ?w" "(target', y')"] False room 1(5) by auto
    then show ?thesis using x major y'(1) False by (auto simp: chunk_spans_Cons)
  qed
qed

subsection \<open>A chunk size that does not divide the window\<close>

lemma consume_row_by_row_short:
  assumes "H = None"
  shows "row \<le> length batch \<Longrightarrow> length batch < row + n \<Longrightarrow>
     consume_row_by_row n H prompt batch offset row x = Inl (RuntimeError ''invalid prefill stream slice'')"
  using assms
  by (induction n arbitrary: row x) (auto simp: slice_sequence_rows_def split: prod.splits)

lemma consume_target_batch_no_head:
  assumes "H = None" and "count \<le> length batch"
  shows "\<exists>x'. consume_target_batch env H prompt batch offset count x = Inr x'"
  using consume_row_by_row_no_head [OF assms(1), of 0 count batch prompt offset x] assms
  by (auto simp: consume_target_batch_def split: prod.splits)

lemma consume_stream_batch_no_head:
  "length stream_batch = count \<Longrightarrow> H = None \<Longrightarrow>
     \<exists>x'. consume_stream_batch env H prompt stream_batch offset count batch_offset x = Inr x'"
proof (induction env H prompt stream_batch offset count batch_offset x rule: consume_stream_batch.induct)
  case (1 env H prompt stream_batch offset count batch_offset x)
  show ?case
  proof (cases "batch_offset < count")
    case True
    let ?n = "min 512 (count - batch_offset)"
    obtain batch where batch: "(if batch_offset = 0 \<and> ?n = count then Inr stream_batch
        else slice_sequence_rows stream_batch batch_offset (batch_offset + ?n)) = Inr batch" "length batch = ?n"
      using stream_slice_ok [OF True 1(2)] by blast
    obtain x1 where x1: "consume_target_batch env H prompt batch (offset + batch_offset) ?n x = Inr x1"
      using consume_target_batch_no_head [OF 1(3), of ?n batch env prompt "offset + batch_offset" x] batch(2) by auto
    obtain x' where "consume_stream_batch env H prompt stream_batch offset count (batch_offset + 512) x1 = Inr x'"
      using 1(1) [OF True refl batch(1) x1 1(2,3)] by blast
    then show ?thesis
      using True batch(1) x1 by (subst consume_stream_batch.simps) (simp add: Let_def)
  qed (subst consume_stream_batch.simps, simp)
qed

lemma consume_stream_batch_short:
  "batch_offset \<le> length stream_batch \<Longrightarrow> length stream_batch < count \<Longrightarrow> H = None \<Longrightarrow>
     consume_stream_batch env H prompt stream_batch offset count batch_offset x =
       Inl (RuntimeError ''invalid prefill stream slice'')"
proof (induction env H prompt stream_batch offset count batch_offset x rule: consume_stream_batch.induct)
  case (1 env H prompt stream_batch offset count batch_offset x)
  let ?n = "min 512 (count - batch_offset)"
  have lt: "batch_offset < count" using 1(2,3) by simp
  show ?case
  proof (cases "batch_offset + ?n \<le> length stream_batch")
    case True
    then have n: "?n = 512" "\<not> (batch_offset = 0 \<and> ?n = count)" using 1(3) by auto
    have slice: "slice_sequence_rows stream_batch batch_offset (batch_offset + ?n) =
        Inr (take ?n (drop batch_offset stream_batch))"
      using slice_ok [of batch_offset "batch_offset + ?n" stream_batch] True n(1) by simp
    obtain x' where x': "consume_target_batch env H prompt (take ?n (drop batch_offset stream_batch))
        (offset + batch_offset) ?n x = Inr x'"
    proof -
      have "?n \<le> length (take ?n (drop batch_offset stream_batch))" using True by simp
      from consume_target_batch_no_head [OF 1(4) this, of env prompt "offset + batch_offset" x] that
      show thesis by blast
    qed
    have batch: "(if batch_offset = 0 \<and> ?n = count then Inr stream_batch
        else slice_sequence_rows stream_batch batch_offset (batch_offset + ?n)) =
      Inr (take ?n (drop batch_offset stream_batch))"
      unfolding if_not_P [OF n(2)] by (rule slice)
    have "batch_offset + 512 \<le> length stream_batch" using True n(1) by simp
    from 1(1) [OF lt refl batch x' this 1(3,4)]
    have "consume_stream_batch env H prompt stream_batch offset count (batch_offset + 512) x' =
        Inl (RuntimeError ''invalid prefill stream slice'')" .
    then show ?thesis
      using lt n(2) slice x' by (subst consume_stream_batch.simps) (simp only: Let_def if_True if_False res_bind.simps)
  next
    case False
    show ?thesis
    proof (cases "batch_offset = 0 \<and> ?n = count")
      case True
      then show ?thesis
        using lt consume_row_by_row_short [OF 1(4), of 0 stream_batch count prompt offset x] 1(3,4)
        by (subst consume_stream_batch.simps) (auto simp: Let_def consume_target_batch_def split: prod.splits)
    next
      case whole: False
      have "slice_sequence_rows stream_batch batch_offset (batch_offset + ?n) =
          Inl (RuntimeError ''invalid prefill stream slice'')"
        using False by (simp add: slice_sequence_rows_def)
      then show ?thesis
        using lt whole by (subst consume_stream_batch.simps) (simp only: Let_def if_True if_False res_bind.simps)
    qed
  qed
qed

lemma consume_outputs_short:
  assumes "ne_mtp_head E = None"
  shows "0 < chunk \<Longrightarrow> length tokens mod chunk \<noteq> 0 \<Longrightarrow> offset + length tokens < length prompt - 1 \<Longrightarrow>
    map length outs = map length (chunk_spans chunk tokens) \<Longrightarrow>
    consume_outputs env E prompt chunk offset outs x = Inl (RuntimeError ''invalid prefill stream slice'')"
proof (induction chunk tokens arbitrary: offset outs x rule: chunk_spans.induct)
  case (1 chunk tokens)
  have ne: "tokens \<noteq> []" using 1(3) by auto
  then obtain out outs' where outs: "outs = out # outs'" "length out = min (length tokens) chunk"
    "map length outs' = map length (chunk_spans chunk (drop chunk tokens))"
    using 1(2,5) by (auto simp: chunk_spans_Cons)
  let ?n = "min chunk (length prompt - 1 - offset)"
  show ?case
  proof (cases "chunk \<le> length tokens")
    case True
    then have n: "?n = chunk" "length out = chunk" using outs 1(4) by auto
    obtain x' where x': "consume_stream_batch env (ne_mtp_head E) prompt out offset chunk 0 x = Inr x'"
      using consume_stream_batch_no_head [OF n(2) assms] by blast
    have "length (drop chunk tokens) mod chunk \<noteq> 0" using 1(3) True by (simp add: le_mod_geq)
    then have "consume_outputs env E prompt chunk (offset + chunk) outs' x' =
        Inl (RuntimeError ''invalid prefill stream slice'')"
      using 1(1) [OF _ 1(2), of "offset + chunk" outs' x'] ne 1(2,4) True outs(3) by simp
    then show ?thesis using outs(1) x' n(1) by (simp add: Let_def)
  next
    case False
    then have "length out < ?n" using outs(2) 1(4) by auto
    then show ?thesis
      using outs(1) consume_stream_batch_short [of 0 out ?n "ne_mtp_head E"] assms by (simp add: Let_def)
  qed
qed

text \<open>C37. On a packed vector-quantized model without a companion head, ingesting a prompt is rejected
  whenever more than 8192 of its tokens are left to ingest and the chunk size does not divide 8192,
  from every offset and every state that has consumed the tokens before it: the last chunk of a
  window is shorter than the size the loop over its outputs assumes, and slicing it throws. What is
  assumed of the kernels is that they return one row per token (\<open>ingest_ready\<close>).\<close>

theorem prefill_window_rejects_chunk:
  assumes "ingest_ready env K E prompt" and "ne_mtp_head E = None" and "ne_vq_layer_major E"
    and "0 < chunk" and "chunk \<le> 2048" and "8192 mod chunk \<noteq> 0"
    and "offset + 8192 < length prompt - 1" and "ingested env K E prompt offset x"
  shows "ingest_prompt env E prompt chunk offset x = Inl (RuntimeError ''invalid prefill stream slice'')"
proof -
  let ?M = "ne_model E" and ?rest = "drop offset (butlast prompt)"
  let ?w = "take 8192 ?rest"
  note R = assms(1) [unfolded ingest_ready_def]
  obtain target y where x: "x = (target, y)" by (cases x) auto
  have rest: "?rest \<noteq> []" "length ?w = 8192" using assms(7) by (auto simp flip: length_greater_0_conv)
  have fed: "feeds env K ?M (take offset prompt) (ne_make_state E) target"
    using assms(8) by (simp add: ingested_def x)
  have "in_vocabulary ?M (butlast prompt)" using R in_vocabulary_take by (metis butlast_conv_take)
  then have vocab: "in_vocabulary ?M ?w" by (intro in_vocabulary_take in_vocabulary_drop)
  let ?parts = "chunk_spans chunk ?w"
  have parts: "concat ?parts = ?w" "\<forall>part \<in> set ?parts. part \<noteq> [] \<and> length part \<le> 2048"
    using chunk_spans_props [OF assms(4), of ?w] assms(5) by auto
  have "ds_token_count target = offset" using feeds_count [OF fed] R assms(7) by simp
  then have count: "ds_token_count target + length ?w \<le> SIZE_MAX" using R rest(2) assms(7) by linarith
  obtain batches target' where seq:
    "prefill_chunks_sequential env ?M ?parts target = (Inr batches, target')"
    "map length batches = map length ?parts"
    using sequential_feeds [OF _ parts(2) fed] parts(1) R vocab count by auto
  have "state_fits ?M target" using prefill_ready_fits [OF _ fed] R by blast
  then have major: "prefill_chunks_layer_major env ?M ?w chunk target = (Inr batches, target')"
    using layer_major_window [of env K ?M "ne_make_state E" target ?w chunk] seq rest assms(4,5) R vocab count by auto
  have "consume_outputs env E prompt chunk offset batches y = Inl (RuntimeError ''invalid prefill stream slice'')"
    using consume_outputs_short [OF assms(2,4), of ?w offset prompt batches] seq(2) assms(6,7) rest(2) by simp
  then have windows: "prefill_windows env E prompt chunk (?w # windows) offset (target, y) =
      Inl (RuntimeError ''invalid prefill stream slice'')" for windows
    using major by simp
  have "length prompt - 1 - offset > chunk" using assms(5,7) by linarith
  then have "ingest_prompt env E prompt chunk offset x = prefill_windows env E prompt chunk (chunk_spans 8192 ?rest) offset x"
    using assms(2,3) by (simp add: ingest_prompt_def Let_def)
  also have "chunk_spans 8192 ?rest = ?w # chunk_spans 8192 (drop 8192 ?rest)"
    using chunk_spans_Cons [OF rest(1), of 8192] by simp
  finally show ?thesis using windows x by simp
qed

subsection \<open>Cached prefixes\<close>

text \<open>
  A cached prefix is sound: its target state is the state after its tokens, and the head, after the
  pending rows, will stand at the same position.
\<close>

definition entry_ok ::
    "environment \<Rightarrow> ('s, 'ls, 'm) multi_kernels \<Rightarrow> ('s, 'ls, 'hl, 'm, 'g, 'r) NativeEngine \<Rightarrow> ('s, 'ls, 'hl) PrefixCacheEntry \<Rightarrow> bool" where
  "entry_ok env K E entry \<longleftrightarrow>
     pe_tokens entry \<noteq> [] \<and> pe_previous_target_stream entry \<noteq> None \<and>
     feeds env K (ne_model E) (pe_tokens entry) (ne_make_state E) (pe_target_state entry) \<and>
     (ne_mtp_head E \<noteq> None \<longrightarrow>
        length (pe_pending_mtp_streams entry) = length (pe_pending_mtp_tokens entry) \<and>
        in_vocabulary (ne_model E) (pe_pending_mtp_tokens entry) \<and>
        (case ms_position_base (pe_mtp_state entry) of
           None \<Rightarrow> ms_row_count (pe_mtp_state entry) = 0 \<and> pe_pending_mtp_tokens entry = []
         | Some b \<Rightarrow> b + ms_row_count (pe_mtp_state entry) + length (pe_pending_mtp_tokens entry) =
             length (pe_tokens entry)))"

definition cache_sound ::
    "environment \<Rightarrow> ('s, 'ls, 'm) multi_kernels \<Rightarrow> ('s, 'ls, 'hl, 'm, 'g, 'r) NativeEngine \<Rightarrow> ('s, 'ls, 'hl) PrefixCacheEntry option \<Rightarrow> bool" where
  "cache_sound env K E cache \<longleftrightarrow> (\<forall>entry. cache = Some entry \<longrightarrow> entry_ok env K E entry)"

lemma consume_pending_sync:
  assumes "head_ok M H" and "length ss = length ts" and "in_vocabulary M ts"
    and "case ms_position_base mtp of None \<Rightarrow> ms_row_count mtp = 0 \<and> ts = []
      | Some b \<Rightarrow> b + ms_row_count mtp + length ts = n"
    and "n \<le> SIZE_MAX"
  shows "\<exists>mtp'. consume_pending_mtp_rows H ss ts mtp = (Inr (), mtp') \<and> head_in_sync n mtp'"
proof (cases "ms_position_base mtp")
  case None
  then have "ts = []" "ms_row_count mtp = 0" using assms(4) by auto
  then show ?thesis
    using assms(2) None
    by (subst consume_pending_mtp_rows_def) (simp add: consume_pending_loop.simps head_in_sync_def)
next
  case (Some b)
  then have n: "b + ms_row_count mtp + length ts = n" using assms(4) by simp
  have valid: "rows_valid H ss ts"
    using assms(1-3) by (fastforce simp: rows_valid_def head_ok_def in_vocabulary_def)
  have H: "head_commits H" using assms(1) by (simp add: head_ok_def)
  have "b + ms_row_count mtp + length ts \<le> SIZE_MAX" using n assms(5) by simp
  from consume_pending_loop_ok [OF H valid Some this] obtain mtp' where
    "consume_pending_loop H ss ts mtp = (Inr (), mtp')" "ms_position_base mtp' = Some b"
    "ms_row_count mtp' = ms_row_count mtp + length ts" by blast
  then show ?thesis using assms(2) Some n by (simp add: consume_pending_mtp_rows_def head_in_sync_def)
qed

definition chunk_ok :: "('s, 'ls, 'hl, 'm, 'g, 'r) NativeEngine \<Rightarrow> nat \<Rightarrow> bool" where
  "chunk_ok E chunk \<longleftrightarrow> 0 < chunk \<and> chunk \<le> 2048 \<and>
     (ne_mtp_head E = None \<longrightarrow> ne_vq_layer_major E \<longrightarrow> 8192 mod chunk = 0)"

lemma ingest_prompt_ok:
  assumes "ingest_ready env K E prompt" and "chunk_ok E chunk" and "offset \<le> length prompt - 1"
    and "ingested env K E prompt offset x"
  shows "\<exists>x'. ingest_prompt env E prompt chunk offset x = Inr x' \<and> ingested env K E prompt (length prompt - 1) x'"
proof -
  let ?rest = "drop offset (butlast prompt)"
  have chunk: "0 < chunk" "chunk \<le> 2048" using assms(2) by (auto simp: chunk_ok_def)
  show ?thesis
  proof (cases "ne_mtp_head E = None \<and> length prompt - 1 - offset > chunk \<and> ne_vq_layer_major E")
    case True
    then have "8192 mod chunk = 0 \<or> length ?rest \<le> 8192" using assms(2) by (simp add: chunk_ok_def)
    from prefill_windows_ingests [OF assms(1) chunk this assms(4) refl assms(3)] show ?thesis
      using True by (simp add: ingest_prompt_def)
  next
    case False
    have parts: "concat (chunk_spans chunk ?rest) = ?rest"
      "\<forall>part \<in> set (chunk_spans chunk ?rest). part \<noteq> [] \<and> length part \<le> 2048"
      using chunk_spans_props [OF chunk(1), of ?rest] chunk(2) by auto
    have "prompt = butlast prompt @ [last prompt]" using assms(1) by (simp add: ingest_ready_def)
    then have "drop offset prompt = ?rest @ [last prompt]"
      using assms(3) by (metis append_Nil2 diff_is_0_eq drop_0 drop_append length_butlast)
    moreover have "offset + length ?rest = length prompt - 1" using assms(3) by simp
    ultimately show ?thesis
      using prefill_sequential_ingests [OF assms(1) parts(2) assms(4), of "[last prompt]"] parts(1) False
      by (auto simp: ingest_prompt_def)
  qed
qed

lemma is_prefix_iff: "is_prefix p ts \<longleftrightarrow> (\<exists>n. n \<le> length ts \<and> p = take n ts)"
  by (auto simp: is_prefix_def intro: exI [of _ "length p"])

lemma restore_prefix_ok:
  assumes ready: "ingest_ready env K E prompt" and cache: "cache_sound env K E cache"
    and fresh: "fresh_mtp (ne_make_mtp_state E)"
  shows "\<exists>pp. restore_prefix E prompt cache = Inr pp \<and> pp_prefill_offset pp \<le> length prompt - 1 \<and>
    ingested env K E prompt (pp_prefill_offset pp) (pp_target pp, pp_previous pp, pp_mtp pp)"
proof (cases "\<exists>entry. cache = Some entry \<and> is_prefix (pe_tokens entry) (butlast prompt)")
  case False
  have "ingested env K E prompt 0 (ne_make_state E, None, ne_make_mtp_state E)"
    using fresh feeds_Nil by (simp add: ingested_def ingest_follows_def mtp_follows_def)
  then show ?thesis using False by (cases cache) (auto simp: restore_prefix_def Let_def)
next
  case True
  then obtain entry where entry: "cache = Some entry" "is_prefix (pe_tokens entry) (butlast prompt)" by blast
  let ?M = "ne_model E" and ?n = "length (pe_tokens entry)"
  note R = ready [unfolded ingest_ready_def]
  have ok: "entry_ok env K E entry" using cache entry(1) by (simp add: cache_sound_def)
  note ent = ok [unfolded entry_ok_def]
  have n: "?n \<le> length prompt - 1" "pe_tokens entry = take ?n prompt"
    using entry(2) by (auto simp: is_prefix_def butlast_conv_take)
  have target: "snapshot_state ?M (pe_target_state entry) = Inr (pe_target_state entry)"
    using prefill_ready_fits [of env K ?M "ne_make_state E" "pe_tokens entry"] ent R by (auto simp: snapshot_state_def)
  have size: "?n \<le> SIZE_MAX" using n(1) R by linarith
  obtain mtp where mtp: "restore_mtp E entry = Inr mtp" "ne_mtp_head E \<noteq> None \<longrightarrow> head_in_sync ?n mtp"
  proof (cases "ne_mtp_head E")
    case None
    then show thesis using that by (simp add: restore_mtp_def)
  next
    case (Some H)
    then have "head_ok ?M H" using R by simp
    from consume_pending_sync [OF this _ _ _ size, of "pe_pending_mtp_streams entry" "pe_pending_mtp_tokens entry"
        "pe_mtp_state entry"] show thesis using ent Some that by (auto simp: restore_mtp_def)
  qed
  obtain pp where pp: "restore_prefix E prompt cache = Inr pp" "pp_target pp = pe_target_state entry"
    "pp_previous pp = pe_previous_target_stream entry" "pp_mtp pp = mtp" "pp_prefill_offset pp = ?n"
    using entry target mtp(1) by (simp add: restore_prefix_def Let_def)
  have "ingested env K E prompt ?n (pe_target_state entry, pe_previous_target_stream entry, mtp)"
    using ent n(2) mtp(2) by (auto simp: ingested_def ingest_follows_def mtp_follows_def)
  then show ?thesis using pp n(1) by simp
qed

definition prompt_prepared ::
    "environment \<Rightarrow> ('s, 'ls, 'm) multi_kernels \<Rightarrow> ('s, 'ls, 'hl, 'm, 'g, 'r) NativeEngine \<Rightarrow> u32 list \<Rightarrow> ('s, 'ls, 'hl) prepared_prompt \<Rightarrow> bool" where
  "prompt_prepared env K E prompt pp \<longleftrightarrow>
     ingested env K E prompt (length prompt - 1) (pp_target pp, pp_previous pp, pp_mtp pp)"

lemma prepare_prompt_ok:
  assumes "ingest_ready env K E prompt" and "cache_sound env K E cache" and "fresh_mtp (ne_make_mtp_state E)"
    and "request_prefill_chunk E prompt = Inr chunk" and "chunk_ok E chunk"
  shows "\<exists>pp. prepare_prompt env E prompt cache = Inr pp \<and> prompt_prepared env K E prompt pp"
proof -
  obtain pp where pp: "restore_prefix E prompt cache = Inr pp" "pp_prefill_offset pp \<le> length prompt - 1"
    "ingested env K E prompt (pp_prefill_offset pp) (pp_target pp, pp_previous pp, pp_mtp pp)"
    using restore_prefix_ok [OF assms(1-3)] by blast
  obtain x where x: "ingest_prompt env E prompt chunk (pp_prefill_offset pp)
      (pp_target pp, pp_previous pp, pp_mtp pp) = Inr x" "ingested env K E prompt (length prompt - 1) x"
    using ingest_prompt_ok [OF assms(1,5) pp(2,3)] by blast
  obtain target previous mtp where "x = (target, previous, mtp)" by (cases x) auto
  then show ?thesis using pp(1) x assms(4) by (simp add: prepare_prompt_def prompt_prepared_def)
qed

lemma cache_prompt_sound:
  assumes "ingest_ready env K E prompt" and "cache_sound env K E cache" and "prompt_prepared env K E prompt pp"
  shows "\<exists>cache'. cache_prompt E prompt pp cache = Inr cache' \<and> cache_sound env K E cache'"
proof -
  let ?M = "ne_model E"
  note R = assms(1) [unfolded ingest_ready_def]
  have fed: "feeds env K ?M (butlast prompt) (ne_make_state E) (pp_target pp)"
    and follows: "ingest_follows (ne_mtp_head E) (length prompt - 1) (pp_previous pp, pp_mtp pp)"
    using assms(3) by (simp_all add: prompt_prepared_def ingested_def butlast_conv_take)
  have snap: "snapshot_state ?M (pp_target pp) = Inr (pp_target pp)"
    using prefill_ready_fits [OF _ fed] R by (simp add: snapshot_state_def)
  let ?entry = "\<lparr>pe_tokens = butlast prompt, pe_target_state = pp_target pp,
          pe_mtp_state = (if ne_mtp_head E = None then ne_make_mtp_state E else pp_mtp pp),
          pe_previous_target_stream = pp_previous pp, pe_pending_mtp_streams = [],
          pe_pending_mtp_tokens = [], pe_mtp_profitable = None,
          pe_mtp_profitability_current_token = None, pe_mtp_cumulative_profitability_keep = False\<rparr>"
  have "entry_ok env K E ?entry" if "length prompt - 1 \<noteq> 0"
  proof -
    have "butlast prompt \<noteq> []" using that by (metis length_butlast list.size(3))
    moreover have "pp_previous pp \<noteq> None" using follows that by (simp add: ingest_follows_def)
    moreover have "ne_mtp_head E \<noteq> None \<Longrightarrow> head_in_sync (length prompt - 1) (pp_mtp pp)"
      using follows that by (auto simp: ingest_follows_def mtp_follows_def split: option.splits)
    ultimately show ?thesis
      using fed by (auto simp: entry_ok_def head_in_sync_def in_vocabulary_def split: option.splits)
  qed
  then show ?thesis using assms(2) snap by (simp add: cache_prompt_def Let_def cache_sound_def)
qed

subsection \<open>A concrete engine\<close>

text \<open>
  An engine around the layers of the concrete model, with the concrete tokenizer and companion head.
\<close>

definition serving_model :: "(u32, u32 list, u32, u32) model" where
  "serving_model = sample_model\<lparr>md_vocabulary_size := 258\<rparr>"

definition serving_head :: "(u32, u32 list, u32, u32) mtp_head" where
  "serving_head = sample_head\<lparr>hd_vocabulary_size := 258\<rparr>"

definition serving_engine :: "(u32, u32 list, u32 list, u32, u32, unit) NativeEngine" where
  "serving_engine =
     \<lparr>ne_options = \<lparr>op_max_generation_tokens = 32, op_prefill_chunk_rows = 512, op_adaptive_prefill_chunks = False,
        op_prefix_cache_max_tokens = 64, op_zero_accept_fallback_rounds = 4\<rparr>,
      ne_model = serving_model, ne_mtp_head = Some serving_head, ne_unicode = sample_unicode,
      ne_tokenizer = sample_tokenizer, ne_make_state = sample_state, ne_make_mtp_state = sample_head_state,
      ne_mtp_depth = 3, ne_adaptive_mtp_depth = False, ne_max_context_tokens = 64,
      ne_end_of_sequence_token = 9, ne_chat_end_token = 10, ne_vq_layer_major = False,
      ne_seed_random = (\<lambda>_. ()), ne_draw = (\<lambda>g _ _ _. (Inr (g mod 64), ()))\<rparr>"

lemma serving_steady: "kernels_steady (\<lambda>_. True) sample_multi serving_model"
  using sample_steady sample_multi_steady
  by (simp add: kernels_steady_def steady_def multi_steady_def serving_model_def)

lemma serving_argmax: "unat (md_argmax serving_model g) < 258" "unat (hd_argmax serving_head g) < 258"
proof -
  have "unat (g mod 64) < 64" by (simp add: unat_mod)
  then have small: "unat (g mod 64) < 258" by linarith
  have "md_argmax serving_model = (\<lambda>g. g mod 64)" by (simp add: serving_model_def sample_model_def)
  then show "unat (md_argmax serving_model g) < 258" using small by (simp only:)
  have "hd_argmax serving_head = (\<lambda>g. g mod 64)" by (simp add: serving_head_def sample_head_def)
  then show "unat (hd_argmax serving_head g) < 258" using small by (simp only:)
qed

lemma serving_head_ok: "head_ok serving_model serving_head"
proof -
  have "head_commits serving_head"
    using sample_head_commits by (simp add: head_commits_def serving_head_def)
  then show ?thesis
    using serving_argmax(2)
    by (simp add: head_ok_def serving_model_def) (simp add: serving_head_def sample_head_def)
qed

lemma serving_state: "state_ok (\<lambda>_. True) serving_model sample_state" "ds_token_count sample_state = 0"
  by (simp_all add: state_ok_def state_fits_def serving_model_def sample_model_def sample_state_def)

lemma serving_prefill_ready: "prefill_ready no_environment sample_multi serving_model sample_state"
  using serving_steady serving_state(1)
  by (auto simp: prefill_ready_def default_strides) (simp add: serving_model_def)

text \<open>The same engine as a packed vector-quantized model without a companion head.\<close>

definition packed_engine :: "(u32, u32 list, u32 list, u32, u32, unit) NativeEngine" where
  "packed_engine = serving_engine\<lparr>ne_mtp_head := None, ne_mtp_depth := 0, ne_vq_layer_major := True\<rparr>"

lemma packed_engine_ready: "ingest_ready no_environment sample_multi packed_engine (replicate 8194 1)"
  using serving_prefill_ready serving_state(2)
  by (simp add: ingest_ready_def packed_engine_def serving_engine_def in_vocabulary_def SIZE_MAX_def)
     (simp add: serving_model_def)

theorem prefill_window_rejects_chunk_witness:
  "ingest_prompt no_environment packed_engine (replicate 8194 1) 1000 0
      (ne_make_state packed_engine, None, ne_make_mtp_state packed_engine) =
    Inl (RuntimeError ''invalid prefill stream slice'')"
proof (rule prefill_window_rejects_chunk [OF packed_engine_ready])
  show "ingested no_environment sample_multi packed_engine (replicate 8194 1) 0
      (ne_make_state packed_engine, None, ne_make_mtp_state packed_engine)"
    using feeds_Nil by (simp add: ingested_def ingest_follows_def packed_engine_def)
qed (simp_all add: packed_engine_def serving_engine_def)

end
