(* ===== verification/Engine_Generation.thy ===== *)
theory Engine_Generation
  imports Engine_Prompt
begin

text \<open>
  The generation loop of a greedy request. Whatever is drafted, by the companion head, from the
  history or from the prompt, whatever the policies decide, and whatever prefix was cached, the loop
  ends; every token it has delivered is the token the target selected after consuming exactly the
  prompt and the tokens delivered before it; the delivered tokens are cut at the first stop token or
  at the limit; and the states it leaves in the prefix cache have consumed the tokens they are
  cached under.
\<close>

subsection \<open>Greedy decoding\<close>

text \<open>What a run selects are argmaxes of logits, so they are in the vocabulary.\<close>

lemma target_run_vocabulary:
  assumes "target_run env K M st0 hist outs st" and "\<forall>g. unat (md_argmax M g) < md_vocabulary_size M"
  shows "\<forall>t. Some t \<in> set outs \<longrightarrow> unat t < md_vocabulary_size M"
  using assms(1)
proof (induction rule: target_run.induct)
  case (verify hist outs st ts rows r st')
  then show ?case using assms(2) by (auto dest: in_set_takeD)
qed (use assms(2) in auto)

lemma continues_in_vocabulary:
  assumes "\<forall>g. unat (md_argmax M g) < md_vocabulary_size M" and "continuation env K M t gs st st'"
  shows "in_vocabulary M gs"
  using target_run_vocabulary [OF _ assms(1)] assms(2)
  by (auto simp: continuation_def selects_def in_vocabulary_def)

lemma forward_decode_total:
  assumes "state_fits M st" and "unat t < md_vocabulary_size M" and "decode_barrier_stride env = Inr d"
  shows "\<exists>step st'. forward_decode_capture env M t st = (Inr step, st')"
proof -
  obtain s' xs' where dec: "decode_layers (md_layers M) (md_embed_stream M t) t (ds_layers st) = (s', xs')"
    by fastforce
  have "embed M t = Inr (md_embed_stream M t)" using assms(2) by (simp add: embed_def)
  from forward_hidden_decode_ok [OF assms(1) this assms(3) dec] show ?thesis by blast
qed

subsection \<open>Hypotheses\<close>

text \<open>
  What is assumed of the kernels, that they succeed on a state without deferred work and return one
  row per token (\<open>prefill_ready\<close>), an environment whose settings are valid and that configures no
  diagnostic capture, and what the constructor of the engine has checked. Nothing relates the
  results of one kernel to those of another.
\<close>

definition engine_ok :: "environment \<Rightarrow> ('s, 'ls, 'm) multi_kernels \<Rightarrow> ('s, 'ls, 'hl, 'm, 'g, 'r) NativeEngine \<Rightarrow> bool" where
  "engine_ok env K E \<longleftrightarrow>
     prefill_ready env K (ne_model E) (ne_make_state E) \<and>
     (\<exists>n. verify_barrier_stride env = Inr n) \<and> (\<exists>n. context_copy_max_tokens env = Inr n) \<and>
     (\<forall>g. unat (md_argmax (ne_model E) g) < md_vocabulary_size (ne_model E)) \<and>
     (\<forall>H. ne_mtp_head E = Some H \<longrightarrow> head_ok (ne_model E) H \<and> ne_mtp_depth E \<noteq> 0) \<and>
     ne_mtp_depth E \<in> {0, 2, 3, 4} \<and> calibration_path env = None \<and> \<not> top2_oracle_enabled env \<and>
     state_fits (ne_model E) (ne_make_state E) \<and> ds_token_count (ne_make_state E) = 0 \<and>
     fresh_mtp (ne_make_mtp_state E) \<and> ne_max_context_tokens E + 32 \<le> SIZE_MAX"

definition decodable :: "('s, 'ls, 'hl, 'm, 'g, 'r) NativeEngine \<Rightarrow> bool" where
  "decodable E \<longleftrightarrow>
     (\<forall>ts. in_vocabulary (ne_model E) ts \<longrightarrow> (\<exists>bytes. decode (ne_unicode E) (ne_tokenizer E) ts = Inr bytes))"

definition prompt_ok :: "('s, 'ls, 'hl, 'm, 'g, 'r) NativeEngine \<Rightarrow> u32 list \<Rightarrow> nat \<Rightarrow> bool" where
  "prompt_ok E prompt max_tokens \<longleftrightarrow>
     validate_prompt E prompt max_tokens = Inr () \<and> in_vocabulary (ne_model E) prompt"

definition greedy_request :: "request \<Rightarrow> bool" where
  "greedy_request rq \<longleftrightarrow>
     so_temperature (rq_sampling rq) \<le> 0 \<and> so_thinking_budget_tokens (rq_sampling rq) = 0 \<and>
     rq_thinking_close_tokens rq = [] \<and> rq_forced_thinking_suffix rq = [] \<and>
     rq_context_copy_max_tokens rq \<le> 24"

lemma prompt_ok_bounds:
  "prompt_ok E prompt n \<Longrightarrow> prompt \<noteq> [] \<and> length prompt + n \<le> ne_max_context_tokens E"
  by (auto simp: prompt_ok_def validate_prompt_def Let_def split: if_splits)

lemma engine_ingest_ready:
  assumes "engine_ok env K E" and "prompt_ok E prompt n"
  shows "ingest_ready env K E prompt"
  using assms prompt_ok_bounds [OF assms(2)]
  by (auto simp: engine_ok_def ingest_ready_def prompt_ok_def)

subsection \<open>Invariant of the loop\<close>

text \<open>
  The reply to a prompt: from the fresh state the target consumed the prompt but its last token, and
  from there it selected the tokens \<open>gs\<close>, each after consuming the prompt and all the tokens of
  \<open>gs\<close> before it, and nothing else.
\<close>

definition greedy_reply ::
    "environment \<Rightarrow> ('s, 'ls, 'm) multi_kernels \<Rightarrow> ('s, 'ls, 'hl, 'm, 'g, 'r) NativeEngine \<Rightarrow> u32 list \<Rightarrow> u32 list \<Rightarrow> 'ls decode_state \<Rightarrow> bool" where
  "greedy_reply env K E prompt gs st \<longleftrightarrow>
     (\<exists>st1. feeds env K (ne_model E) (butlast prompt) (ne_make_state E) st1 \<and>
        continuation env K (ne_model E) (last prompt) gs st1 st)"

definition pending_ok ::
    "('s, 'ls, 'm, 'g) model \<Rightarrow> nat \<Rightarrow> 'hl mtp_decode_state \<Rightarrow> 's list \<Rightarrow> u32 list \<Rightarrow> bool" where
  "pending_ok M n mtp streams tokens \<longleftrightarrow>
     length streams = length tokens \<and> in_vocabulary M tokens \<and>
     (case ms_position_base mtp of
        None \<Rightarrow> ms_row_count mtp = 0 \<and> tokens = []
      | Some b \<Rightarrow> b + ms_row_count mtp + length tokens = n)"

text \<open>The head can draft now, and what is pending connects it to the target.\<close>

definition mtp_ready :: "('s, 'ls, 'hl, 'm, 'r) generation \<Rightarrow> bool" where
  "mtp_ready g \<longleftrightarrow> gn_pending_streams g = [] \<and>
     (case gn_previous g of
        None \<Rightarrow> fresh_mtp (gn_mtp g)
      | Some _ \<Rightarrow> head_in_sync (ds_token_count (gn_target g)) (gn_mtp g))"

definition mtp_connected ::
    "('s, 'ls, 'hl, 'm, 'g, 'r) NativeEngine \<Rightarrow> ('s, 'ls, 'hl, 'm, 'r) generation \<Rightarrow> bool" where
  "mtp_connected E g \<longleftrightarrow>
     (ne_mtp_head E \<noteq> None \<longrightarrow> gn_mtp_cache_extendable g \<longrightarrow>
        pending_ok (ne_model E) (ds_token_count (gn_target g)) (gn_mtp g) (gn_pending_streams g)
          (gn_pending_tokens g))"

definition accepting :: "text_delta_callback option \<Rightarrow> bool" where
  "accepting on_delta \<longleftrightarrow> (\<forall>callback deltas fragment. on_delta = Some callback \<longrightarrow> callback deltas fragment)"

definition stream_ok ::
    "('s, 'ls, 'hl, 'm, 'g, 'r) NativeEngine \<Rightarrow> request \<Rightarrow> u32 list \<Rightarrow> stream_state \<Rightarrow> bool" where
  "stream_ok E rq tokens ss \<longleftrightarrow>
     stream_inv (decode (ne_unicode E) (ne_tokenizer E)) tokens ss \<and>
     (rq_on_delta rq \<noteq> None \<longrightarrow> ss_connected ss \<longrightarrow> ss_streamed_tokens ss = length tokens) \<and>
     (accepting (rq_on_delta rq) \<longrightarrow> ss_connected ss) \<and>
     (rq_on_delta rq = None \<longrightarrow> ss = stream_start)"

definition policies_ok ::
    "('s, 'ls, 'hl, 'm, 'g, 'r) NativeEngine \<Rightarrow> u32 list \<Rightarrow> request \<Rightarrow> ('s, 'ls, 'hl, 'm, 'r) generation \<Rightarrow> bool" where
  "policies_ok E prompt rq g \<longleftrightarrow>
     depth_inv (gn_depth_policy g) \<and> (ne_mtp_head E \<noteq> None \<longrightarrow> dp_maximum_depth (gn_depth_policy g) \<noteq> 0) \<and>
     in_vocabulary (ne_model E) (hc_history (gn_history g)) \<and>
     (\<forall>cache. rq_context_copy rq = Some cache \<longrightarrow> context_valid cache \<and> cc_prompt cache = prompt)"

text \<open>What holds at every state of the loop, with the surplus of the last round.\<close>

definition generated ::
    "environment \<Rightarrow> ('s, 'ls, 'm) multi_kernels \<Rightarrow> ('s, 'ls, 'hl, 'm, 'g, 'r) NativeEngine \<Rightarrow> u32 list \<Rightarrow> request \<Rightarrow>
     ('s, 'ls, 'hl, 'm, 'r) generation \<Rightarrow> u32 list \<Rightarrow> bool" where
  "generated env K E prompt rq g extra \<longleftrightarrow>
     greedy_reply env K E prompt (gn_tokens g @ extra) (gn_target g) \<and>
     length (gn_tokens g) \<le> rq_max_tokens rq \<and> (\<forall>t \<in> set (gn_tokens g). \<not> is_stop_token E t) \<and>
     stream_ok E rq (gn_tokens g) (gn_stream g) \<and> mtp_connected E g \<and>
     (length prompt \<noteq> 1 \<or> gn_tokens g @ extra \<noteq> [] \<longrightarrow> gn_previous g \<noteq> None)"

definition loop_inv ::
    "environment \<Rightarrow> ('s, 'ls, 'm) multi_kernels \<Rightarrow> ('s, 'ls, 'hl, 'm, 'g, 'r) NativeEngine \<Rightarrow> u32 list \<Rightarrow> request \<Rightarrow>
     ('s, 'ls, 'hl, 'm, 'r) generation \<Rightarrow> bool" where
  "loop_inv env K E prompt rq g \<longleftrightarrow>
     (\<exists>extra. generated env K E prompt rq g extra \<and>
        (length (gn_tokens g) < rq_max_tokens rq \<longrightarrow>
           extra = [] \<and> gn_current g = last (prompt @ gn_tokens g) \<and>
           (gn_mtp_profitable g \<longrightarrow> ne_mtp_head E \<noteq> None \<and> mtp_ready g))) \<and>
     policies_ok E prompt rq g \<and> gn_forced_tokens g = [] \<and>
     gr_finish_reason (gn_result g) = ''length'' \<and> \<not> gn_stopped g"

definition finished ::
    "environment \<Rightarrow> ('s, 'ls, 'm) multi_kernels \<Rightarrow> ('s, 'ls, 'hl, 'm, 'g, 'r) NativeEngine \<Rightarrow> u32 list \<Rightarrow> request \<Rightarrow>
     ('s, 'ls, 'hl, 'm, 'r) generation \<Rightarrow> bool" where
  "finished env K E prompt rq g \<longleftrightarrow>
     (\<exists>extra. generated env K E prompt rq g extra \<and>
        (gr_finish_reason (gn_result g) = ''stop'' \<and> gn_stopped g \<and> extra \<noteq> [] \<and>
           is_stop_token E (hd extra) \<and> length (gn_tokens g) < rq_max_tokens rq \<or>
         gr_finish_reason (gn_result g) = ''length'' \<and> \<not> gn_stopped g \<and> length (gn_tokens g) = rq_max_tokens rq \<or>
         gr_finish_reason (gn_result g) = ''cancelled'' \<and> \<not> gn_stopped g \<and> gn_tokens g @ extra \<noteq> [] \<and>
           \<not> accepting (rq_on_delta rq)))"

lemma greedy_reply_feeds:
  assumes "greedy_reply env K E prompt gs st" and "prompt \<noteq> []"
  shows "feeds env K (ne_model E) (take (length prompt - 1 + length gs) (prompt @ gs)) (ne_make_state E) st"
proof -
  obtain st1 where st1: "feeds env K (ne_model E) (butlast prompt) (ne_make_state E) st1"
    "continuation env K (ne_model E) (last prompt) gs st1 st"
    using assms(1) by (auto simp: greedy_reply_def)
  have "prompt @ gs = butlast prompt @ (last prompt # gs)" "length prompt - 1 = length (butlast prompt)"
    using assms(2) by simp_all
  then have "take (length prompt - 1 + length gs) (prompt @ gs) = butlast prompt @ butlast (last prompt # gs)"
    by (simp only: take_append) (simp add: butlast_conv_take)
  then show ?thesis using feeds_append [OF st1(1) continuation_feeds [OF st1(2)]] by simp
qed

lemma greedy_reply_count:
  assumes "engine_ok env K E" and "greedy_reply env K E prompt gs st" and "prompt \<noteq> []"
  shows "ds_token_count st = length prompt - 1 + length gs"
proof -
  have "length prompt - 1 + length gs \<le> length (prompt @ gs)" by simp
  then show ?thesis
    using feeds_count [OF greedy_reply_feeds [OF assms(2,3)]] assms(1)
    by (simp add: engine_ok_def del: take_append)
qed

lemma greedy_reply_state:
  assumes "engine_ok env K E" and "greedy_reply env K E prompt gs st"
  obtains ok where "kernels_steady ok K (ne_model E)" and "state_ok ok (ne_model E) st"
proof -
  obtain ok where k: "kernels_steady ok K (ne_model E)" "state_ok ok (ne_model E) (ne_make_state E)"
    using assms(1) by (auto simp: engine_ok_def prefill_ready_def)
  obtain st1 where "feeds env K (ne_model E) (butlast prompt) (ne_make_state E) st1"
    "continuation env K (ne_model E) (last prompt) gs st1 st"
    using assms(2) by (auto simp: greedy_reply_def)
  then show thesis using that k(1) feeds_ok [OF _ k(1)] continuation_feeds k(2) by blast
qed

lemma greedy_reply_fits:
  assumes "engine_ok env K E" and "greedy_reply env K E prompt gs st"
  shows "state_fits (ne_model E) st"
  using greedy_reply_state [OF assms] by (auto simp: state_ok_def)

lemma greedy_reply_vocabulary:
  assumes "engine_ok env K E" and "greedy_reply env K E prompt gs st"
  shows "in_vocabulary (ne_model E) gs"
  using assms continues_in_vocabulary unfolding greedy_reply_def engine_ok_def by metis

lemma greedy_reply_append:
  assumes "greedy_reply env K E prompt gs st" and "prompt \<noteq> []"
    and "continuation env K (ne_model E) (last (prompt @ gs)) hs st st'"
  shows "greedy_reply env K E prompt (gs @ hs) st'"
proof -
  obtain st1 where st1: "feeds env K (ne_model E) (butlast prompt) (ne_make_state E) st1"
    "continuation env K (ne_model E) (last prompt) gs st1 st"
    using assms(1) by (auto simp: greedy_reply_def)
  have "last (prompt @ gs) = last (last prompt # gs)" using assms(2) by (cases gs rule: rev_cases) auto
  from continuation_append [OF st1(2) assms(3) [unfolded this]] st1(1) show ?thesis
    by (auto simp: greedy_reply_def)
qed

subsection \<open>A serial step\<close>

lemma intervention_off: "rq_forced_thinking_suffix rq = [] \<Longrightarrow> begin_thinking_intervention rq g = g"
  by (simp add: begin_thinking_intervention_def)

lemma generation_step_greedy:
  assumes "greedy_request rq"
  shows "generation_step env E rq g =
    (case gn_previous g of
       None \<Rightarrow> serial_step env E rq g
     | Some stream \<Rightarrow>
         if \<not> gn_mtp_profitable g \<or> rq_max_tokens rq - length (gn_tokens g) = 1 \<or>
            (rq_extend_cache rq \<and> rq_max_tokens rq - length (gn_tokens g) = 2)
         then serial_step env E rq g else speculative_step env E rq stream g)"
  using assms by (simp add: generation_step_def greedy_request_def Let_def)

text \<open>Delivering one more token to the caller.\<close>

lemma emit_tokens_ok:
  assumes "decodable E" and "in_vocabulary (ne_model E) (ts @ [t])" and "gn_tokens g = ts @ [t]"
    and "stream_ok E rq ts (gn_stream g)"
  shows "\<exists>sent ss. emit_tokens E rq g = (Inr sent, g\<lparr>gn_stream := ss\<rparr>) \<and> stream_ok E rq (ts @ [t]) ss \<and>
    (accepting (rq_on_delta rq) \<longrightarrow> sent)"
proof -
  let ?D = "decode (ne_unicode E) (ne_tokenizer E)" and ?ss = "gn_stream g"
  have S: "stream_inv ?D ts ?ss" "rq_on_delta rq \<noteq> None \<longrightarrow> ss_connected ?ss \<longrightarrow> ss_streamed_tokens ?ss = length ts"
    "accepting (rq_on_delta rq) \<longrightarrow> ss_connected ?ss" "rq_on_delta rq = None \<longrightarrow> ?ss = stream_start"
    using assms(4) by (auto simp: stream_ok_def)
  have inv: "stream_inv ?D (ts @ [t]) ?ss" using tokenizer_decoder.stream_inv_push [OF S(1)] .
  have short: "ss_streamed_tokens ?ss \<noteq> length (ts @ [t])"
    using S(1) by (auto simp: stream_inv_def)
  obtain bytes where bytes: "?D (drop (ss_streamed_tokens ?ss) (ts @ [t])) = Inr bytes"
    using assms(1,2) in_vocabulary_drop unfolding decodable_def by metis
  have "\<exists>r ss. emit_new_tokens ?D (rq_on_delta rq) (ts @ [t]) ?ss = (Inr r, ss)"
    using short bytes
    by (cases "rq_on_delta rq"; cases "ss_connected ?ss")
       (auto simp add: emit_new_tokens_def Let_def simp del: drop_append)
  then obtain r ss where e: "emit_new_tokens ?D (rq_on_delta rq) (ts @ [t]) ?ss = (Inr r, ss)" by blast
  have "stream_inv ?D (ts @ [t]) ss" using tokenizer_decoder.emit_new_tokens_inv [OF inv e] .
  moreover have "rq_on_delta rq \<noteq> None \<longrightarrow> ss_connected ss \<longrightarrow> ss_streamed_tokens ss = length (ts @ [t])"
    using e short bytes
    by (auto simp: emit_new_tokens_def Let_def send_complete_keeps split: option.splits if_splits)
  moreover have "accepting (rq_on_delta rq) \<longrightarrow> ss_connected ss \<and> r"
    using e short bytes S(3)
    by (auto simp: emit_new_tokens_def Let_def send_complete_def accepting_def split: option.splits if_splits)
  moreover have "rq_on_delta rq = None \<longrightarrow> ss = stream_start"
    using e S(4) by (auto simp: emit_new_tokens_def)
  ultimately show ?thesis using e assms(3) by (auto simp: emit_tokens_def stream_ok_def)
qed

text \<open>What the head keeps through a serial step at which it may consume or save the current row.\<close>

lemma serial_mtp_update_ok:
  assumes ok: "engine_ok env K E" and conn: "mtp_connected E g"
    and ready: "gn_mtp_profitable g \<longrightarrow> ne_mtp_head E \<noteq> None \<and> mtp_ready g"
    and current: "unat (gn_current g) < md_vocabulary_size (ne_model E)"
    and count: "ds_token_count (gn_target g) < SIZE_MAX"
  shows "\<exists>mtp streams tokens extendable.
    serial_mtp_update E rq g = (Inr (), g\<lparr>gn_world := (gn_world g)\<lparr>rw_head := mtp\<rparr>, gn_pending_streams := streams,
      gn_pending_tokens := tokens, gn_mtp_cache_extendable := extendable\<rparr>) \<and>
    (ne_mtp_head E \<noteq> None \<longrightarrow> extendable \<longrightarrow>
       pending_ok (ne_model E) (ds_token_count (gn_target g) + 1) mtp streams tokens) \<and>
    (gn_mtp_profitable g \<longrightarrow> streams = [] \<and> (rq_extend_cache rq \<or> gn_previous g = None \<longrightarrow>
       head_in_sync (ds_token_count (gn_target g) + 1) mtp))"
proof (cases "ne_mtp_head E")
  case None
  then show ?thesis
    using ready
    by (intro exI [of _ "gn_mtp g"] exI [of _ "gn_pending_streams g"] exI [of _ "gn_pending_tokens g"]
        exI [of _ "gn_mtp_cache_extendable g"]) (auto simp: serial_mtp_update_def Let_def)
next
  case (Some H)
  let ?n = "ds_token_count (gn_target g)" and ?M = "ne_model E"
  have H: "head_ok ?M H" using ok Some by (simp add: engine_ok_def)
  have unconnected: "g\<lparr>gn_mtp_cache_extendable := False\<rparr> =
      g\<lparr>gn_world := (gn_world g)\<lparr>rw_head := gn_mtp g\<rparr>, gn_pending_streams := gn_pending_streams g,
        gn_pending_tokens := gn_pending_tokens g, gn_mtp_cache_extendable := False\<rparr>" by simp
  show ?thesis
  proof (cases "gn_previous g")
    case None
    have "gn_mtp_profitable g \<longrightarrow> gn_pending_streams g = [] \<and> head_in_sync (?n + 1) (gn_mtp g)"
      using ready None by (auto simp: mtp_ready_def fresh_in_sync)
    moreover have "serial_mtp_update E rq g = (Inr (), g\<lparr>gn_mtp_cache_extendable := False\<rparr>)"
      using Some None by (simp add: serial_mtp_update_def Let_def)
    ultimately show ?thesis unfolding unconnected using None by blast
  next
    case prev: (Some stream)
    consider (consume) "rq_extend_cache rq" "gn_mtp_profitable g" "mtp_state_matches_target (gn_mtp g) ?n"
      | (save) "\<not> (rq_extend_cache rq \<and> gn_mtp_profitable g \<and> mtp_state_matches_target (gn_mtp g) ?n)"
          "rq_extend_cache rq"
          "(gn_pending_streams g = [] \<and> mtp_state_matches_target (gn_mtp g) ?n) \<or>
           (gn_pending_streams g \<noteq> [] \<and> pending_connected (gn_mtp g) (gn_pending_streams g) ?n)"
      | (lose) "\<not> (rq_extend_cache rq \<and> gn_mtp_profitable g \<and> mtp_state_matches_target (gn_mtp g) ?n)"
          "\<not> (rq_extend_cache rq \<and>
            ((gn_pending_streams g = [] \<and> mtp_state_matches_target (gn_mtp g) ?n) \<or>
             (gn_pending_streams g \<noteq> [] \<and> pending_connected (gn_mtp g) (gn_pending_streams g) ?n)))"
      by blast
    then show ?thesis
    proof cases
      case consume
      have sync: "head_in_sync ?n (gn_mtp g)" using ready consume(2) prev by (simp add: mtp_ready_def)
      have vocab: "unat (gn_current g) < hd_vocabulary_size H" using H current by (simp add: head_ok_def)
      have "hd_shape_ok H stream" using H by (simp add: head_ok_def)
      from head_run_single [OF sync _ this vocab] count obtain mtp where
        mtp: "consume_decode H stream (gn_current g) ?n (gn_mtp g) = (Inr (), mtp)"
        "head_in_sync (?n + 1) mtp" and base: "ms_position_base mtp \<noteq> None"
        by auto
      have pend: "gn_pending_streams g = []" using ready consume(2) by (simp add: mtp_ready_def)
      have "pending_ok ?M (?n + 1) mtp [] (gn_pending_tokens g)" if "gn_mtp_cache_extendable g"
      proof -
        have "gn_pending_tokens g = []"
          using conn that Some pend by (auto simp: mtp_connected_def pending_ok_def)
        then show ?thesis using mtp(2) base
          by (auto simp: pending_ok_def in_vocabulary_def head_in_sync_def split: option.splits)
      qed
      then have "serial_mtp_update E rq g = (Inr (), g\<lparr>gn_world := (gn_world g)\<lparr>rw_head := mtp\<rparr>, gn_pending_streams := [],
          gn_pending_tokens := gn_pending_tokens g, gn_mtp_cache_extendable := gn_mtp_cache_extendable g\<rparr>) \<and>
        (gn_mtp_cache_extendable g \<longrightarrow> pending_ok ?M (?n + 1) mtp [] (gn_pending_tokens g))"
        using consume Some prev mtp(1) pend by (simp add: serial_mtp_update_def Let_def)
      then show ?thesis using mtp(2) by blast
    next
      case save
      let ?s = "gn_pending_streams g @ [stream]" and ?t = "gn_pending_tokens g @ [gn_current g]"
      have new: "pending_ok ?M (?n + 1) (gn_mtp g) ?s ?t" if "gn_mtp_cache_extendable g"
      proof -
        have old: "pending_ok ?M ?n (gn_mtp g) (gn_pending_streams g) (gn_pending_tokens g)"
          using conn that Some by (simp add: mtp_connected_def)
        have "ms_position_base (gn_mtp g) \<noteq> None"
          using save(3) by (auto simp: mtp_state_matches_target_def pending_connected_def split: option.splits)
        then show ?thesis using old current by (auto simp: pending_ok_def in_vocabulary_def split: option.splits)
      qed
      have unprofitable: "\<not> gn_mtp_profitable g"
        using save ready by (auto simp: mtp_ready_def)
      have "serial_mtp_update E rq g = (Inr (), g\<lparr>gn_world := (gn_world g)\<lparr>rw_head := gn_mtp g\<rparr>,
          gn_pending_streams := ?s, gn_pending_tokens := ?t,
          gn_mtp_cache_extendable := gn_mtp_cache_extendable g\<rparr>)"
        using save Some prev unprofitable by (simp add: serial_mtp_update_def Let_def)
      then show ?thesis using new unprofitable by blast
    next
      case lose
      have sync: "head_in_sync (?n + 1) (gn_mtp g)" if p: "gn_mtp_profitable g" "rq_extend_cache rq"
      proof -
        have "gn_pending_streams g = []" "head_in_sync ?n (gn_mtp g)"
          using ready p(1) prev by (auto simp: mtp_ready_def)
        then show ?thesis
          using lose p by (auto simp: head_in_sync_def mtp_state_matches_target_def split: option.splits)
      qed
      have "serial_mtp_update E rq g = (Inr (), g\<lparr>gn_mtp_cache_extendable := False\<rparr>)"
        using lose Some prev by (auto simp: serial_mtp_update_def Let_def)
      then show ?thesis
        unfolding unconnected using prev sync ready
        by (intro exI [of _ "gn_mtp g"] exI [of _ "gn_pending_streams g"] exI [of _ "gn_pending_tokens g"]
            exI [of _ False]) (auto simp: mtp_ready_def)
    qed
  qed
qed

lemma sample_token_greedy:
  "greedy_request rq \<Longrightarrow> sample_token E logits (rq_sampling rq) random ts = (Inr (md_argmax (ne_model E) logits), random)"
  by (simp add: sample_token_def greedy_request_def)

text \<open>The state of a serial step just before its token is delivered.\<close>

lemma serial_step_decodes:
  assumes ok: "engine_ok env K E" and rq: "greedy_request rq" and P: "prompt_ok E prompt (rq_max_tokens rq)"
    and inv: "loop_inv env K E prompt rq g" and lt: "length (gn_tokens g) < rq_max_tokens rq"
  shows "\<exists>g'. serial_step env E rq g = deliver_serial_token E rq g' \<and>
    gn_result g' = gn_result g \<and> gn_stream g' = gn_stream g \<and> gn_previous g' \<noteq> None \<and>
    greedy_reply env K E prompt (gn_tokens g @ [gn_current g']) (gn_target g') \<and> mtp_connected E g' \<and>
    gn_mtp_profitable g' = gn_mtp_profitable g \<and> policies_ok E prompt rq g' \<and>
    gn_forced_tokens g' = [] \<and> \<not> gn_stopped g' \<and>
    (gn_mtp_profitable g \<longrightarrow> rq_extend_cache rq \<or> gn_previous g = None \<longrightarrow> mtp_ready g')"
proof -
  let ?M = "ne_model E" and ?ts = "gn_tokens g"
  have G: "generated env K E prompt rq g []" "gn_current g = last (prompt @ ?ts)"
    "gn_mtp_profitable g \<longrightarrow> ne_mtp_head E \<noteq> None \<and> mtp_ready g"
    and I: "policies_ok E prompt rq g" "gn_forced_tokens g = []" "\<not> gn_stopped g"
    using inv lt by (auto simp: loop_inv_def)
  have reply: "greedy_reply env K E prompt ?ts (gn_target g)" and conn: "mtp_connected E g"
    using G(1) by (auto simp: generated_def)
  have ne: "prompt \<noteq> []" and bound: "length prompt + rq_max_tokens rq \<le> ne_max_context_tokens E"
    using prompt_ok_bounds [OF P] by auto
  have current: "unat (gn_current g) < md_vocabulary_size ?M"
    using greedy_reply_vocabulary [OF ok reply] P ne G(2)
    by (auto simp: prompt_ok_def in_vocabulary_def last_append)
  have count: "ds_token_count (gn_target g) < SIZE_MAX"
    using greedy_reply_count [OF ok reply ne] lt bound ok by (auto simp: engine_ok_def)
  let ?g0 = "g\<lparr>gn_top2_position := None\<rparr>"
  have "mtp_connected E ?g0" "gn_mtp_profitable ?g0 \<longrightarrow> ne_mtp_head E \<noteq> None \<and> mtp_ready ?g0"
    using conn G(3) by (simp_all add: mtp_connected_def mtp_ready_def cong: option.case_cong)
  from serial_mtp_update_ok [OF ok this, of rq] current count obtain mtp streams tokens extendable where
    upd: "serial_mtp_update E rq ?g0 = (Inr (), ?g0\<lparr>gn_world := (gn_world g)\<lparr>rw_head := mtp\<rparr>,
      gn_pending_streams := streams, gn_pending_tokens := tokens, gn_mtp_cache_extendable := extendable\<rparr>)"
    and pend: "ne_mtp_head E \<noteq> None \<longrightarrow> extendable \<longrightarrow>
       pending_ok ?M (ds_token_count (gn_target g) + 1) mtp streams tokens"
    and ready: "gn_mtp_profitable g \<longrightarrow> streams = [] \<and> (rq_extend_cache rq \<or> gn_previous g = None \<longrightarrow>
       head_in_sync (ds_token_count (gn_target g) + 1) mtp)"
    by auto
  obtain d where "decode_barrier_stride env = Inr d"
    using ok by (auto simp: engine_ok_def prefill_ready_def)
  from forward_decode_total [OF greedy_reply_fits [OF ok reply] current this] obtain step target where
    step: "forward_decode_capture env ?M (gn_current g) (gn_target g) = (Inr step, target)" by blast
  have count': "ds_token_count target = ds_token_count (gn_target g) + 1"
    using forward_decode_capture_fits [OF step] by simp
  let ?t = "md_argmax ?M (td_logits step)"
  let ?g1 = "?g0\<lparr>gn_world := (gn_world g)\<lparr>rw_head := mtp\<rparr>,
      gn_pending_streams := streams, gn_pending_tokens := tokens, gn_mtp_cache_extendable := extendable\<rparr>"
  let ?g' = "?g1\<lparr>gn_world := (gn_world ?g1)\<lparr>rw_target := target\<rparr>, gn_random := gn_random ?g1,
      gn_previous := Some (td_pre_mixer_stream step), gn_current := ?t\<rparr>"
  have "serial_step env E rq g = deliver_serial_token E rq ?g'"
    using upd step rq I(2)
    by (simp add: serial_step_def sample_token_greedy choose_serial_token_def intervention_off greedy_request_def
        Let_def)
  moreover have "greedy_reply env K E prompt (?ts @ [?t]) target"
    using greedy_reply_append [OF reply ne, of "[?t]" target] continuation_step [OF step, of K] G(2) by simp
  moreover have "mtp_connected E ?g'" using pend count' by (simp add: mtp_connected_def)
  moreover have "policies_ok E prompt rq ?g'" using I(1) by (simp add: policies_ok_def)
  moreover have "gn_mtp_profitable g \<longrightarrow> rq_extend_cache rq \<or> gn_previous g = None \<longrightarrow> mtp_ready ?g'"
    using ready count' by (simp add: mtp_ready_def)
  ultimately show ?thesis using I by (intro exI [of _ ?g']) simp
qed

lemma serial_step_ok:
  assumes ok: "engine_ok env K E" and dec: "decodable E" and rq: "greedy_request rq"
    and P: "prompt_ok E prompt (rq_max_tokens rq)"
    and inv: "loop_inv env K E prompt rq g" and lt: "length (gn_tokens g) < rq_max_tokens rq"
    and may: "gn_mtp_profitable g \<longrightarrow>
      rq_max_tokens rq - length (gn_tokens g) = 1 \<or> rq_extend_cache rq \<or> gn_previous g = None"
  shows "\<exists>a g'. serial_step env E rq g = (Inr a, g') \<and>
    (case a of Continue \<Rightarrow> loop_inv env K E prompt rq g' | Finish \<Rightarrow> finished env K E prompt rq g')"
proof -
  let ?ts = "gn_tokens g"
  obtain g1 where g1: "serial_step env E rq g = deliver_serial_token E rq g1"
    "gn_result g1 = gn_result g" "gn_stream g1 = gn_stream g" "gn_previous g1 \<noteq> None"
    "greedy_reply env K E prompt (?ts @ [gn_current g1]) (gn_target g1)" "mtp_connected E g1"
    "gn_mtp_profitable g1 = gn_mtp_profitable g" "policies_ok E prompt rq g1" "gn_forced_tokens g1 = []"
    "\<not> gn_stopped g1"
    "gn_mtp_profitable g \<longrightarrow> rq_extend_cache rq \<or> gn_previous g = None \<longrightarrow> mtp_ready g1"
    using serial_step_decodes [OF ok rq P inv lt] by (elim exE conjE) (rule that; assumption)
  have G: "generated env K E prompt rq g []" "gr_finish_reason (gn_result g) = ''length''"
    "gn_mtp_profitable g \<longrightarrow> ne_mtp_head E \<noteq> None"
    using inv lt by (auto simp: loop_inv_def)
  let ?t = "gn_current g1"
  have vocab: "in_vocabulary (ne_model E) (?ts @ [?t])" using greedy_reply_vocabulary [OF ok g1(5)] .
  show ?thesis
  proof (cases "is_stop_token E ?t")
    case True
    let ?g' = "(finish_with ''stop'' g1)\<lparr>gn_stopped := True\<rparr>"
    have "generated env K E prompt rq ?g' [?t]"
      using G(1) g1 by (simp add: generated_def finish_with_def mtp_connected_def)
    then have "finished env K E prompt rq ?g'"
      using True lt g1(2) by (auto simp: finished_def finish_with_def intro!: exI [of _ "[?t]"])
    then show ?thesis using True g1(1) by (simp add: deliver_serial_token_def)
  next
    case False
    have close: "rq_thinking_close_tokens rq = []" using rq by (simp add: greedy_request_def)
    have stream: "stream_ok E rq ?ts (gn_stream (push_token ?t g1))"
      using G(1) g1(3) by (simp add: generated_def push_token_def)
    obtain sent ss where emit: "emit_tokens E rq (push_token ?t g1) = (Inr sent, (push_token ?t g1)\<lparr>gn_stream := ss\<rparr>)"
      "stream_ok E rq (?ts @ [?t]) ss" "accepting (rq_on_delta rq) \<longrightarrow> sent"
      using emit_tokens_ok [OF dec vocab _ stream] g1(2) by (auto simp: push_token_def)
    let ?g2 = "(push_token ?t g1)\<lparr>gn_stream := ss\<rparr>"
    have deliver: "serial_step env E rq g =
        (if \<not> sent then (Inr Finish, finish_with ''cancelled'' ?g2)
         else (Inr Continue, append_history rq ?t ?g2))"
      using g1(1) False emit(1) close by (simp add: deliver_serial_token_def push_token_def Let_def)
    have gen: "generated env K E prompt rq ?g2 []"
      using G(1) g1 lt False emit(2) by (auto simp: generated_def push_token_def mtp_connected_def)
    show ?thesis
    proof (cases sent)
      case False
      have "generated env K E prompt rq (finish_with ''cancelled'' ?g2) []"
        using gen by (simp add: generated_def finish_with_def mtp_connected_def)
      then have "finished env K E prompt rq (finish_with ''cancelled'' ?g2)"
        using False emit(3) g1(10) by (auto simp: finished_def finish_with_def push_token_def)
      then show ?thesis using deliver False by simp
    next
      case True
      let ?g3 = "append_history rq ?t ?g2"
      have fields: "gn_tokens ?g3 = ?ts @ [?t]" "gn_target ?g3 = gn_target g1" "gn_mtp ?g3 = gn_mtp g1"
        "gn_stream ?g3 = ss" "gn_previous ?g3 = gn_previous g1" "gn_current ?g3 = ?t"
        "gn_mtp_profitable ?g3 = gn_mtp_profitable g" "gn_forced_tokens ?g3 = []" "\<not> gn_stopped ?g3"
        "gr_finish_reason (gn_result ?g3) = ''length''" "gn_pending_streams ?g3 = gn_pending_streams g1"
        "gn_pending_tokens ?g3 = gn_pending_tokens g1"
        "gn_mtp_cache_extendable ?g3 = gn_mtp_cache_extendable g1"
        "gn_depth_policy ?g3 = gn_depth_policy g1"
        using g1 G(2) by (auto simp: append_history_def push_token_def)
      have "generated env K E prompt rq ?g3 []"
        using gen fields g1(2,3) by (simp add: generated_def push_token_def mtp_connected_def)
      moreover have "mtp_ready ?g3" if "gn_mtp_profitable g" "length (gn_tokens ?g3) < rq_max_tokens rq"
      proof -
        have "mtp_ready g1" using g1(11) may that fields(1) by auto
        then show ?thesis
          by (simp add: mtp_ready_def append_history_def push_token_def cong: option.case_cong)
      qed
      moreover have "policies_ok E prompt rq ?g3"
        using g1(8) vocab by (auto simp: policies_ok_def append_history_def push_token_def in_vocabulary_def)
      ultimately have "loop_inv env K E prompt rq ?g3"
        using fields G(3) by (auto simp: loop_inv_def)
      then show ?thesis using deliver True by simp
    qed
  qed
qed

end
