(* ===== verification/Engine_Rounds.thy ===== *)
theory Engine_Rounds
  imports Engine_Generation
begin

text \<open>
  A speculative step of a greedy request: whichever source proposes, the round is run, each of its
  tokens is what the target selected after exactly the tokens before it, and the part of them that
  is delivered is cut at the first stop token or at the limit.
\<close>

subsection \<open>Drafts\<close>

lemma in_vocabulary_subset: "in_vocabulary M ts \<Longrightarrow> set us \<subseteq> set ts \<Longrightarrow> in_vocabulary M us"
  by (auto simp: in_vocabulary_def)

lemma context_copy_proposal_ok:
  assumes "policies_ok E prompt rq g" and "greedy_request rq"
  shows "length (context_copy_proposal rq g n) \<le> 24 \<and> set (context_copy_proposal rq g n) \<subseteq> set prompt"
proof (cases "rq_context_copy rq")
  case None
  then show ?thesis by (simp add: context_copy_proposal_def)
next
  case (Some cache)
  have valid: "context_valid cache" "cc_prompt cache = prompt"
    using assms(1) Some by (auto simp: policies_ok_def)
  have limit: "rq_context_copy_max_tokens rq \<le> 24" using assms(2) by (simp add: greedy_request_def)
  define cap where "cap = (if cs_perfect_rounds (gn_context g) \<ge> 2 \<and>
      cs_acceptance_ema (gn_context g) \<ge> to_double (75 / 100) then rq_context_copy_max_tokens rq else 4)"
  let ?p = "cp_tokens (propose_completion cache (gn_tokens g) (min cap n))"
  have "cap \<le> 24" using limit by (simp add: cap_def)
  then have bounds: "length ?p \<le> 24" "set ?p \<subseteq> set prompt"
    using completion_source.proposal_bounded [OF valid(1), of "gn_tokens g" "min cap n"]
      completion_source.proposal_known_tokens [OF valid(1), of "gn_tokens g" "min cap n"] valid(2) by auto
  have "\<exists>m. context_copy_proposal rq g n = take m ?p"
    unfolding context_copy_proposal_def Some option.case cap_def [symmetric] Let_def
    by (auto intro: exI [of _ 0] exI [of _ "length ?p"])
  then obtain m where "context_copy_proposal rq g n = take m ?p" by blast
  moreover have "set (take m ?p) \<subseteq> set ?p" by (rule set_take_subset)
  ultimately show ?thesis using bounds by (auto simp: min_le_iff_disj)
qed

lemma depth_inv_depth:
  assumes "depth_inv pol"
  shows "dp_depth pol \<in> {0, 2, 3, 4}" and "dp_depth pol = 0 \<longleftrightarrow> dp_maximum_depth pol = 0"
  using assms [unfolded depth_inv_def, THEN conjunct2, THEN conjunct1]
    assms [unfolded depth_inv_def, THEN conjunct2, THEN conjunct2, THEN conjunct1] .

lemma history_draft_proposal_ok:
  assumes "depth_inv (gn_depth_policy g)"
  shows "length (history_draft_proposal env g n) \<le> 4 \<and>
    set (history_draft_proposal env g n) \<subseteq> set (hc_history (gn_history g))"
proof -
  have bounds: "length (history_propose c k) \<le> k" for c k
    by (rule history_source.proposal_bounded [OF TrueI])
  have known: "set (history_propose c k) \<subseteq> set (hc_history c)" for c k
    by (rule history_source.proposal_known_tokens [OF TrueI])
  have depth: "dp_depth (gn_depth_policy g) \<le> 4" using depth_inv_depth(1) [OF assms] by auto
  have "\<exists>k \<le> 4. history_draft_proposal env g n = [] \<or>
      history_draft_proposal env g n = history_propose (gn_history g) (min k n)"
    using depth by (auto simp: history_draft_proposal_def Let_def)
  then obtain k where k: "k \<le> 4" "history_draft_proposal env g n = [] \<or>
      history_draft_proposal env g n = history_propose (gn_history g) (min k n)" by blast
  have "length (history_propose (gn_history g) (min k n)) \<le> 4"
    using bounds [of "gn_history g" "min k n"] k(1) by linarith
  then show ?thesis using k(2) known [of "gn_history g" "min k n"] by auto
qed

lemma choose_drafts_ok:
  assumes "policies_ok E prompt rq g" and "greedy_request rq" and "in_vocabulary (ne_model E) prompt"
    and "choose_drafts env rq g n = (source, drafts)" and "source \<noteq> Learned_Drafts"
  shows "2 \<le> length drafts \<and> length drafts \<le> 24 \<and> in_vocabulary (ne_model E) drafts"
proof -
  have history: "in_vocabulary (ne_model E) (hc_history (gn_history g))" and "depth_inv (gn_depth_policy g)"
    using assms(1) by (auto simp: policies_ok_def)
  note C = context_copy_proposal_ok [OF assms(1,2), of n]
    and H = history_draft_proposal_ok [OF \<open>depth_inv (gn_depth_policy g)\<close>, of env n]
  consider "drafts = context_copy_proposal rq g n" "2 \<le> length drafts"
    | "drafts = history_draft_proposal env g n" "2 \<le> length drafts"
    using assms(4,5) by (auto simp: choose_drafts_def Let_def split: if_splits)
  then show ?thesis
    using C H history assms(3) by cases (auto intro: in_vocabulary_subset)
qed

subsection \<open>The round\<close>

lemma finish_draft_tokens:
  "finish_greedy_mtp_round env M H t previous q ds sec hid origin stops w = (Inr step, w') \<Longrightarrow>
     rs_draft_tokens step = ds"
  unfolding finish_greedy_mtp_round_def Let_def
  by (auto split: if_splits sum.splits prod.splits)

text \<open>
  The situation before a round: what was delivered is the greedy reply, and the head stands where
  the target stands.
\<close>

definition round_due ::
    "environment \<Rightarrow> ('s, 'ls, 'm) multi_kernels \<Rightarrow> ('s, 'ls, 'hl, 'm, 'g, 'r) NativeEngine \<Rightarrow> u32 list \<Rightarrow> request \<Rightarrow>
     ('s, 'ls, 'hl, 'm, 'r) generation \<Rightarrow> bool" where
  "round_due env K E prompt rq g \<longleftrightarrow>
     greedy_reply env K E prompt (gn_tokens g) (gn_target g) \<and> gn_current g = last (prompt @ gn_tokens g) \<and>
     length (gn_tokens g) < rq_max_tokens rq \<and> ne_mtp_head E \<noteq> None \<and>
     head_in_sync (ds_token_count (gn_target g)) (gn_mtp g) \<and> policies_ok E prompt rq g"

lemma finish_round_reply:
  assumes ok: "engine_ok env K E" and ne: "prompt \<noteq> []" and due: "round_due env K E prompt rq g"
    and fin: "finish_greedy_mtp_round env (ne_model E) H (gn_current g) stream q ds sec hid origin stops w =
      (Inr step, w')" and w: "rw_target w = gn_target g"
  shows "greedy_reply env K E prompt (gn_tokens g @ rs_emitted_tokens step) (rw_target w') \<and>
    rs_next_current_token step = last (prompt @ gn_tokens g @ rs_emitted_tokens step) \<and>
    rs_emitted_tokens step \<noteq> [] \<and> rs_accepted step \<le> length (rs_draft_tokens step)"
proof -
  note R = round_continues [OF fin, of K]
  have reply: "greedy_reply env K E prompt (gn_tokens g) (gn_target g)" and
    current: "gn_current g = last (prompt @ gn_tokens g)" using due by (auto simp: round_due_def)
  have "continuation env K (ne_model E) (last (prompt @ gn_tokens g)) (rs_emitted_tokens step) (gn_target g)
      (rw_target w')"
    using R current w by simp
  moreover have "rs_emitted_tokens step \<noteq> []" using R by auto
  ultimately show ?thesis
    using greedy_reply_append [OF reply ne] R finish_draft_tokens [OF fin] by simp
qed

lemma round_due_ready:
  assumes ok: "engine_ok env K E" and P: "prompt_ok E prompt (rq_max_tokens rq)"
    and due: "round_due env K E prompt rq g" and H: "ne_mtp_head E = Some H"
    and drafts: "2 \<le> length ds" "length ds \<le> 24" "in_vocabulary (ne_model E) ds"
  shows "round_ready env (ne_model E) H (gn_current g) ds (gn_target g) (gn_mtp g) \<and>
    ds_token_count (gn_target g) + length ds + 1 \<le> SIZE_MAX"
proof -
  have head: "head_ok (ne_model E) H" using ok H by (simp add: engine_ok_def)
  have ne: "prompt \<noteq> []" and bound: "length prompt + rq_max_tokens rq \<le> ne_max_context_tokens E"
    using prompt_ok_bounds [OF P] by auto
  have reply: "greedy_reply env K E prompt (gn_tokens g) (gn_target g)" and
    current: "gn_current g = last (prompt @ gn_tokens g)" and lt: "length (gn_tokens g) < rq_max_tokens rq"
    using due by (auto simp: round_due_def)
  have "in_vocabulary (ne_model E) (prompt @ gn_tokens g)"
    using P greedy_reply_vocabulary [OF ok reply] by (auto simp: prompt_ok_def in_vocabulary_def)
  moreover have "gn_current g \<in> set (prompt @ gn_tokens g)" using current ne by (metis append_is_Nil_conv last_in_set)
  ultimately have "in_vocabulary (ne_model E) (gn_current g # ds)"
    using drafts(3) by (auto simp: in_vocabulary_def)
  then have vocab: "\<forall>x \<in> set (gn_current g # ds). unat x < md_vocabulary_size (ne_model E) \<and>
      unat x < hd_vocabulary_size H"
    using head by (auto simp: in_vocabulary_def head_ok_def intro: less_le_trans)
  have "ne_max_context_tokens E + 32 \<le> SIZE_MAX" using ok by (simp add: engine_ok_def)
  then have room: "ds_token_count (gn_target g) + length ds + 1 \<le> SIZE_MAX"
    using greedy_reply_count [OF ok reply ne] bound lt drafts(2) by linarith
  then show ?thesis
    using vocab drafts greedy_reply_fits [OF ok reply] due ok by (simp add: round_ready_def round_due_def engine_ok_def)
qed

text \<open>Every round succeeds, whatever its source.\<close>

lemma run_round_finishes:
  assumes ok: "engine_ok env K E" and P: "prompt_ok E prompt (rq_max_tokens rq)" and rq: "greedy_request rq"
    and due: "round_due env K E prompt rq g"
    and choice: "choose_drafts env rq g n = (source, drafts)"
  shows "\<exists>H ds sec hid w step w'.
    run_round env E source drafts stream g =
      finish_greedy_mtp_round env (ne_model E) H (gn_current g) stream (ds_token_count (gn_target g)) ds sec hid
        (gn_mtp g) (stop_tokens E) w \<and> rw_target w = gn_target g \<and>
    run_round env E source drafts stream g = (Inr step, w') \<and>
    head_in_sync (rs_next_query_position step) (rw_head w')"
proof -
  obtain H where H: "ne_mtp_head E = Some H" using due by (auto simp: round_due_def)
  have head: "head_commits H" "\<forall>s. hd_shape_ok H s" and argmax: "\<forall>g. unat (hd_argmax H g) < md_vocabulary_size (ne_model E)"
    and size: "md_vocabulary_size (ne_model E) \<le> hd_vocabulary_size H"
    using ok H by (auto simp: engine_ok_def head_ok_def)
  obtain n where stride: "verify_barrier_stride env = Inr n" using ok by (auto simp: engine_ok_def)
  have "greedy_reply env K E prompt (gn_tokens g) (gn_target g)" using due by (simp add: round_due_def)
  from greedy_reply_state [OF ok this] obtain k where k: "steady k (ne_model E)" "state_ok k (ne_model E) (gn_target g)"
    by (auto simp: kernels_steady_def)
  show ?thesis
  proof (cases "source = Learned_Drafts")
    case False
    have ds: "2 \<le> length drafts" "length drafts \<le> 24" "in_vocabulary (ne_model E) drafts"
      using choose_drafts_ok [OF _ rq _ choice False] due P by (auto simp: round_due_def prompt_ok_def)
    have "round_ready env (ne_model E) H (gn_current g) drafts (rw_target (gn_world g)) (gn_mtp g)"
      using round_due_ready [OF ok P due H ds] by simp
    from finish_total [OF k(1) _ head stride this, of stream "[]" "[]" "stop_tokens E"] k(2)
    obtain step w' where fin: "finish_greedy_mtp_round env (ne_model E) H (gn_current g) stream
        (ds_token_count (gn_target g)) drafts [] [] (gn_mtp g) (stop_tokens E) (gn_world g) = (Inr step, w')"
      "head_in_sync (rs_next_query_position step) (rw_head w')" by blast
    have run: "run_round env E source drafts stream g = finish_greedy_mtp_round env (ne_model E) H
        (gn_current g) stream (ds_token_count (gn_target g)) drafts [] [] (gn_mtp g) (stop_tokens E) (gn_world g)"
      using H False by (cases source) (auto simp: run_round_def run_greedy_external_draft_round_reference_def)
    show ?thesis by (intro exI conjI, rule run, rule refl, rule trans [OF run fin(1)], rule fin(2))
  next
    case True
    let ?depth = "dp_depth (gn_depth_policy g)"
    have depth: "2 \<le> ?depth" "?depth \<le> 4"
      using due depth_inv_depth [of "gn_depth_policy g"] by (auto simp: round_due_def policies_ok_def)
    define ds where "ds = replicate ?depth (hd_argmax H undefined)"
    have any: "2 \<le> length ds'" "length ds' \<le> 24" "in_vocabulary (ne_model E) ds'"
      if "length ds' = ?depth" "set ds' \<subseteq> range (hd_argmax H)" for ds'
      using that depth argmax by (auto simp: in_vocabulary_def)
    have ready: "round_ready env (ne_model E) H (gn_current g) ds' (gn_target g) (gn_mtp g) \<and>
        ds_token_count (gn_target g) + length ds' + 1 \<le> SIZE_MAX"
      if "length ds' = ?depth" "set ds' \<subseteq> range (hd_argmax H)" for ds'
      using round_due_ready [OF ok P due H any [OF that]] .
    have "length ds = ?depth" "set ds \<subseteq> range (hd_argmax H)" by (auto simp: ds_def)
    note first = ready [OF this]
    have "unat (gn_current g) < hd_vocabulary_size H" "ds_token_count (gn_target g) + ?depth \<le> SIZE_MAX"
      using first by (auto simp: round_ready_def ds_def)
    moreover have "head_in_sync (ds_token_count (gn_target g)) (rw_head (gn_world g))"
      using due by (simp add: round_due_def)
    moreover have "\<not> top2_oracle_enabled env" "\<forall>g. unat (hd_argmax H g) < hd_vocabulary_size H"
      using ok argmax size by (auto simp: engine_ok_def intro: less_le_trans)
    ultimately obtain ds' sec hid head' where ds': "length ds' = ?depth" "set ds' \<subseteq> range (hd_argmax H)"
      and run: "run_greedy_mtp_round_reference env (ne_model E) H (gn_current g) stream
          (ds_token_count (gn_target g)) ?depth (stop_tokens E) (gn_world g) =
        finish_greedy_mtp_round env (ne_model E) H (gn_current g) stream (ds_token_count (gn_target g)) ds' sec hid
          (gn_mtp g) (stop_tokens E) ((gn_world g)\<lparr>rw_head := head'\<rparr>)"
      using run_mtp_round_as_finish [OF depth head(2)] by blast
    let ?w = "(gn_world g)\<lparr>rw_head := head'\<rparr>"
    have "round_ready env (ne_model E) H (gn_current g) ds' (rw_target ?w) (gn_mtp g)"
      using ready [OF ds'] by simp
    from finish_total [OF k(1) _ head stride this, of stream sec hid "stop_tokens E"] k(2)
    obtain step w' where fin: "finish_greedy_mtp_round env (ne_model E) H (gn_current g) stream
        (ds_token_count (gn_target g)) ds' sec hid (gn_mtp g) (stop_tokens E) ?w = (Inr step, w')"
      "head_in_sync (rs_next_query_position step) (rw_head w')" by auto
    have "run_round env E source drafts stream g = run_greedy_mtp_round_reference env (ne_model E) H
        (gn_current g) stream (ds_token_count (gn_target g)) ?depth (stop_tokens E) (gn_world g)"
      using H True by (simp add: run_round_def)
    note run' = trans [OF this run]
    have "rw_target ?w = gn_target g" by simp
    show ?thesis by (intro exI conjI, rule run', rule \<open>rw_target ?w = gn_target g\<close>, rule trans [OF run' fin(1)], rule fin(2))
  qed
qed

lemma run_round_ok:
  assumes ok: "engine_ok env K E" and P: "prompt_ok E prompt (rq_max_tokens rq)" and rq: "greedy_request rq"
    and due: "round_due env K E prompt rq g"
    and choice: "choose_drafts env rq g n = (source, drafts)"
  shows "\<exists>step w'. run_round env E source drafts stream g = (Inr step, w') \<and>
    greedy_reply env K E prompt (gn_tokens g @ rs_emitted_tokens step) (rw_target w') \<and>
    rs_next_current_token step = last (prompt @ gn_tokens g @ rs_emitted_tokens step) \<and>
    rs_emitted_tokens step \<noteq> [] \<and> rs_accepted step \<le> length (rs_draft_tokens step) \<and>
    head_in_sync (ds_token_count (rw_target w')) (rw_head w')"
proof -
  have ne: "prompt \<noteq> []" using prompt_ok_bounds [OF P] by auto
  obtain H ds sec hid w step w' where R: "rw_target w = gn_target g"
    "run_round env E source drafts stream g =
      finish_greedy_mtp_round env (ne_model E) H (gn_current g) stream (ds_token_count (gn_target g)) ds sec hid
        (gn_mtp g) (stop_tokens E) w"
    "run_round env E source drafts stream g = (Inr step, w')"
    "head_in_sync (rs_next_query_position step) (rw_head w')"
    using run_round_finishes [OF ok P rq due choice] by blast
  have fin: "finish_greedy_mtp_round env (ne_model E) H (gn_current g) stream (ds_token_count (gn_target g))
      ds sec hid (gn_mtp g) (stop_tokens E) w = (Inr step, w')" using R(2,3) by simp
  have "ds_token_count (rw_target w') = rs_next_query_position step" using round_continues [OF fin] by blast
  then show ?thesis using finish_round_reply [OF ok ne due fin R(1)] R(3,4) by simp
qed

subsection \<open>Delivering the tokens of a round\<close>

text \<open>Everything that the reply, the head and the next step depend on is unchanged.\<close>

definition same_position :: "('s, 'ls, 'hl, 'm, 'r) generation \<Rightarrow> ('s, 'ls, 'hl, 'm, 'r) generation \<Rightarrow> bool" where
  "same_position g g' \<longleftrightarrow>
     gn_world g' = gn_world g \<and> gn_previous g' = gn_previous g \<and> gn_current g' = gn_current g \<and>
     gn_forced_tokens g' = gn_forced_tokens g \<and> gn_mtp_profitable g' = gn_mtp_profitable g \<and>
     gn_mtp_cache_extendable g' = gn_mtp_cache_extendable g \<and>
     gn_pending_streams g' = gn_pending_streams g \<and> gn_pending_tokens g' = gn_pending_tokens g"

text \<open>Besides, nothing was delivered and no end was reached.\<close>

definition same_reply :: "('s, 'ls, 'hl, 'm, 'r) generation \<Rightarrow> ('s, 'ls, 'hl, 'm, 'r) generation \<Rightarrow> bool" where
  "same_reply g g' \<longleftrightarrow>
     same_position g g' \<and> gn_tokens g' = gn_tokens g \<and> gn_stream g' = gn_stream g \<and>
     gn_history g' = gn_history g \<and> gn_stopped g' = gn_stopped g \<and>
     gr_finish_reason (gn_result g') = gr_finish_reason (gn_result g)"

definition delivered ::
    "('s, 'ls, 'hl, 'm, 'g, 'r) NativeEngine \<Rightarrow> request \<Rightarrow> ('s, 'ls, 'hl, 'm, 'r) generation \<Rightarrow> u32 list \<Rightarrow>
     u32 list \<Rightarrow> ('s, 'ls, 'hl, 'm, 'r) generation \<Rightarrow> bool" where
  "delivered E rq g taken rest g' \<longleftrightarrow>
     same_position g g' \<and> gn_depth_policy g' = gn_depth_policy g \<and> gn_guard g' = gn_guard g \<and>
     gn_tokens g' = gn_tokens g @ taken \<and> (\<forall>t \<in> set taken. \<not> is_stop_token E t) \<and>
     length (gn_tokens g') \<le> rq_max_tokens rq \<and> stream_ok E rq (gn_tokens g') (gn_stream g') \<and>
     in_vocabulary (ne_model E) (hc_history (gn_history g')) \<and>
     (gr_finish_reason (gn_result g') = ''stop'' \<and> gn_stopped g' \<and> rest \<noteq> [] \<and> is_stop_token E (hd rest) \<and>
        length (gn_tokens g') < rq_max_tokens rq \<or>
      gr_finish_reason (gn_result g') = gr_finish_reason (gn_result g) \<and> gn_stopped g' = gn_stopped g \<and>
        (rest = [] \<or> length (gn_tokens g') = rq_max_tokens rq))"

lemma deliver_round_ok:
  assumes dec: "decodable E"
  shows "in_vocabulary (ne_model E) (gn_tokens g @ tokens) \<Longrightarrow> stream_ok E rq (gn_tokens g) (gn_stream g) \<Longrightarrow>
    length (gn_tokens g) \<le> rq_max_tokens rq \<Longrightarrow> in_vocabulary (ne_model E) (hc_history (gn_history g)) \<Longrightarrow>
    \<exists>c g' taken rest. deliver_round E rq tokens cancel g = (Inr c, g') \<and> tokens = taken @ rest \<and>
      delivered E rq g taken rest g' \<and> (accepting (rq_on_delta rq) \<longrightarrow> c = cancel)"
proof (induction tokens arbitrary: g cancel)
  case Nil
  then show ?case by (simp add: delivered_def same_position_def)
next
  case (Cons t tokens)
  show ?case
  proof (cases "length (gn_tokens g) = rq_max_tokens rq \<or> is_stop_token E t")
    case True
    have "deliver_round E rq (t # tokens) cancel g = (Inr cancel, if length (gn_tokens g) = rq_max_tokens rq then g
        else (finish_with ''stop'' g)\<lparr>gn_stopped := True\<rparr>)" using True by auto
    moreover have "delivered E rq g [] (t # tokens) (if length (gn_tokens g) = rq_max_tokens rq then g
        else (finish_with ''stop'' g)\<lparr>gn_stopped := True\<rparr>)"
      using True Cons.prems by (auto simp: delivered_def same_position_def finish_with_def)
    ultimately show ?thesis by (metis append_Nil)
  next
    case False
    have stream: "stream_ok E rq (gn_tokens g) (gn_stream (push_token t g))"
      using Cons.prems(2) by (simp add: push_token_def)
    have now: "in_vocabulary (ne_model E) (gn_tokens g @ [t])"
      using Cons.prems(1) by (auto simp: in_vocabulary_def)
    obtain sent ss where emit: "emit_tokens E rq (push_token t g) = (Inr sent, (push_token t g)\<lparr>gn_stream := ss\<rparr>)"
      "stream_ok E rq (gn_tokens g @ [t]) ss" "accepting (rq_on_delta rq) \<longrightarrow> sent"
      using emit_tokens_ok [OF dec now _ stream] by (auto simp: push_token_def)
    let ?g1 = "append_history rq t ((push_token t g)\<lparr>gn_stream := ss\<rparr>)"
    have tokens: "gn_tokens ?g1 = gn_tokens g @ [t]" by (simp add: push_token_def)
    have "gn_stream ?g1 = ss" by (simp add: append_history_def)
    moreover have "in_vocabulary (ne_model E) (hc_history (gn_history ?g1))"
      using Cons.prems(4) now by (auto simp: append_history_def push_token_def in_vocabulary_def)
    moreover have "length (gn_tokens ?g1) \<le> rq_max_tokens rq" using False Cons.prems(3) tokens by simp
    moreover have "in_vocabulary (ne_model E) (gn_tokens ?g1 @ tokens)" using Cons.prems(1) tokens by simp
    ultimately obtain c g' taken rest where IH:
      "deliver_round E rq tokens (cancel \<or> \<not> sent) ?g1 = (Inr c, g')" "tokens = taken @ rest"
      "delivered E rq ?g1 taken rest g'" "accepting (rq_on_delta rq) \<longrightarrow> c = (cancel \<or> \<not> sent)"
      using Cons.IH [of ?g1 "cancel \<or> \<not> sent"] emit(2) tokens by auto
    have run: "deliver_round E rq (t # tokens) cancel g = (Inr c, g')" using False emit(1) IH(1) by simp
    have parts: "t # tokens = (t # taken) @ rest" using IH(2) by simp
    have before: "same_position g ?g1" "gn_depth_policy ?g1 = gn_depth_policy g" "gn_guard ?g1 = gn_guard g"
      "gr_finish_reason (gn_result ?g1) = gr_finish_reason (gn_result g)" "gn_stopped ?g1 = gn_stopped g"
      by (simp_all add: same_position_def append_history_def push_token_def)
    note after = IH(3) [unfolded delivered_def before(2-5) tokens]
    have "same_position g g'" using before(1) after by (simp add: same_position_def)
    then have result: "delivered E rq g (t # taken) rest g'"
      unfolding delivered_def using after False by auto
    have "accepting (rq_on_delta rq) \<longrightarrow> c = cancel" using IH(4) emit(3) by auto
    with run parts result show ?thesis by blast
  qed
qed

subsection \<open>The step\<close>

lemma count_round_same: "same_reply g (count_round source step g)"
  by (auto simp: same_reply_def same_position_def count_round_def Let_def split: option.splits)

lemma count_round_policies [simp]:
  "gn_depth_policy (count_round source step g) = gn_depth_policy g"
  "gn_history_policy (count_round source step g) = gn_history_policy g"
  by (simp_all add: count_round_def Let_def)

lemma observed_maximum [simp]:
  "dp_maximum_depth (observe_probe a pol) = dp_maximum_depth pol"
  "dp_maximum_depth (observe_depth_four p a pol) = dp_maximum_depth pol"
  "dp_maximum_depth (observe_depth_three env p a pol) = dp_maximum_depth pol"
  by (simp_all add: observe_probe_def observe_depth_four_def observe_depth_three_def
      count_monitor_def reset_monitor_def Let_def)

lemma depth_observe_maximum:
  "depth_observe env p a pol = Inr pol' \<Longrightarrow> dp_maximum_depth pol' = dp_maximum_depth pol"
  by (auto simp: depth_observe_def split: if_splits)

lemma observations_total:
  assumes "a \<le> p"
  shows "\<exists>pol'. observe_learned p a pol = Inr pol'" and "\<exists>pol'. observe_history p a pol = Inr pol'"
    and "\<exists>dp'. depth_observe env p a dp = Inr dp'"
  using assms
  by (auto simp: observe_learned_def observe_history_def validate_observation_def depth_observe_def Let_def)

lemma observe_round_ok:
  assumes "rs_accepted step \<le> length (rs_draft_tokens step)" and "depth_inv (gn_depth_policy g)"
  shows "\<exists>g'. observe_round env source step g = Inr g' \<and> same_reply g g' \<and> depth_inv (gn_depth_policy g') \<and>
    dp_maximum_depth (gn_depth_policy g') = dp_maximum_depth (gn_depth_policy g)"
proof (cases source)
  case Context_Copy_Drafts
  then show ?thesis
    using assms(2) by (simp add: observe_round_def observe_context_copy_def Let_def same_reply_def same_position_def)
next
  case History_Drafts
  obtain pol where "observe_history (length (rs_draft_tokens step)) (rs_accepted step) (gn_history_policy g) = Inr pol"
    using observations_total(2) [OF assms(1)] by blast
  then show ?thesis
    using assms(2) History_Drafts by (simp add: observe_round_def Let_def same_reply_def same_position_def)
next
  case Learned_Drafts
  obtain pol where pol: "observe_learned (length (rs_draft_tokens step)) (rs_accepted step) (gn_history_policy g) = Inr pol"
    using observations_total(1) [OF assms(1)] by blast
  obtain depth where depth: "depth_observe env (length (rs_draft_tokens step)) (rs_accepted step)
      (gn_depth_policy g) = Inr depth"
    using observations_total(3) [OF assms(1)] by blast
  have "depth_inv depth" using depth_inv_step [OF assms(2)] depth by (blast intro: depth_step.intros)
  then show ?thesis
    using pol depth depth_observe_maximum [OF depth] Learned_Drafts
    by (simp add: observe_round_def Let_def same_reply_def same_position_def)
qed

lemma same_reply_trans: "same_reply g1 g2 \<Longrightarrow> same_reply g2 g3 \<Longrightarrow> same_reply g1 g3"
  by (simp add: same_reply_def same_position_def)

lemma speculative_step_ok:
  assumes ok: "engine_ok env K E" and dec: "decodable E" and rq: "greedy_request rq"
    and P: "prompt_ok E prompt (rq_max_tokens rq)"
    and inv: "loop_inv env K E prompt rq g" and lt: "length (gn_tokens g) < rq_max_tokens rq"
    and profitable: "gn_mtp_profitable g" and previous: "gn_previous g = Some stream"
  shows "\<exists>a g'. speculative_step env E rq stream g = (Inr a, g') \<and>
    (case a of Continue \<Rightarrow> loop_inv env K E prompt rq g' | Finish \<Rightarrow> finished env K E prompt rq g')"
proof -
  have ne: "prompt \<noteq> []" using prompt_ok_bounds [OF P] by auto
  have I: "generated env K E prompt rq g []" "gn_current g = last (prompt @ gn_tokens g)" "ne_mtp_head E \<noteq> None"
    "mtp_ready g" "policies_ok E prompt rq g" "gn_forced_tokens g = []"
    "gr_finish_reason (gn_result g) = ''length''" "\<not> gn_stopped g"
    using inv lt profitable by (auto simp: loop_inv_def)
  have due: "round_due env K E prompt rq g"
    using I lt previous by (simp add: round_due_def generated_def mtp_ready_def)
  obtain source drafts where choice:
    "choose_drafts env rq g (rq_max_tokens rq - length (gn_tokens g)) = (source, drafts)" by fastforce
  obtain step w where R: "run_round env E source drafts stream g = (Inr step, w)"
    "greedy_reply env K E prompt (gn_tokens g @ rs_emitted_tokens step) (rw_target w)"
    "rs_next_current_token step = last (prompt @ gn_tokens g @ rs_emitted_tokens step)"
    "rs_emitted_tokens step \<noteq> []" "rs_accepted step \<le> length (rs_draft_tokens step)"
    "head_in_sync (ds_token_count (rw_target w)) (rw_head w)"
    using run_round_ok [OF ok P rq due choice] by blast
  let ?g1 = "count_round source step (g\<lparr>gn_world := w\<rparr>)"
  have depth: "depth_inv (gn_depth_policy ?g1)" using I(5) by (simp add: policies_ok_def)
  obtain g2 where g2: "observe_round env source step ?g1 = Inr g2" "same_reply ?g1 g2" "depth_inv (gn_depth_policy g2)"
    "dp_maximum_depth (gn_depth_policy g2) = dp_maximum_depth (gn_depth_policy g)"
    using observe_round_ok [OF R(5) depth, of env source] by auto
  have same: "same_reply (g\<lparr>gn_world := w\<rparr>) g2" using same_reply_trans [OF count_round_same g2(2)] .
  let ?g3 = "g2\<lparr>gn_current := rs_next_current_token step, gn_previous := Some (rs_next_target_stream step)\<rparr>"
  have S: "gn_tokens ?g3 = gn_tokens g" "gn_stream ?g3 = gn_stream g" "gn_history ?g3 = gn_history g"
    "gn_stopped ?g3 = gn_stopped g" "gr_finish_reason (gn_result ?g3) = gr_finish_reason (gn_result g)"
    "gn_world ?g3 = w" "gn_forced_tokens ?g3 = gn_forced_tokens g" "gn_mtp_profitable ?g3 = gn_mtp_profitable g"
    "gn_mtp_cache_extendable ?g3 = gn_mtp_cache_extendable g"
    "gn_pending_streams ?g3 = gn_pending_streams g" "gn_pending_tokens ?g3 = gn_pending_tokens g"
    using same by (simp_all add: same_reply_def same_position_def)
  have vocab: "in_vocabulary (ne_model E) (gn_tokens ?g3 @ rs_emitted_tokens step)"
    using greedy_reply_vocabulary [OF ok R(2)] S(1) by simp
  have stream: "stream_ok E rq (gn_tokens ?g3) (gn_stream ?g3)" "length (gn_tokens ?g3) \<le> rq_max_tokens rq"
    "in_vocabulary (ne_model E) (hc_history (gn_history ?g3))"
    using I(1,5) S by (auto simp: generated_def policies_ok_def)
  obtain c g4 taken rest where D: "deliver_round E rq (rs_emitted_tokens step) False ?g3 = (Inr c, g4)"
    "rs_emitted_tokens step = taken @ rest" "delivered E rq ?g3 taken rest g4"
    "accepting (rq_on_delta rq) \<longrightarrow> \<not> c"
    using deliver_round_ok [OF dec vocab stream, of False] by auto
  have g4: "gn_tokens g4 = gn_tokens g @ taken" "gn_world g4 = w" "gn_previous g4 \<noteq> None"
    "gn_current g4 = rs_next_current_token step" "gn_forced_tokens g4 = []" "gn_mtp_profitable g4"
    "gn_mtp_cache_extendable g4 = gn_mtp_cache_extendable g" "gn_pending_streams g4 = gn_pending_streams g"
    "gn_pending_tokens g4 = gn_pending_tokens g" "length (gn_tokens g4) \<le> rq_max_tokens rq"
    "stream_ok E rq (gn_tokens g4) (gn_stream g4)" "\<forall>t \<in> set taken. \<not> is_stop_token E t"
    "gn_depth_policy g4 = gn_depth_policy g2" "in_vocabulary (ne_model E) (hc_history (gn_history g4))"
    using D(3) S I(6) profitable unfolding delivered_def same_position_def by auto
  have pend: "gn_pending_streams g = []" using I(4) by (simp add: mtp_ready_def)
  have "mtp_connected E g4"
  proof -
    have "gn_mtp_cache_extendable g \<longrightarrow> gn_pending_tokens g = []"
      using I(1,3) pend by (auto simp: generated_def mtp_connected_def pending_ok_def)
    then show ?thesis
      using R(6) g4(2,7-9) pend
      by (auto simp: mtp_connected_def pending_ok_def head_in_sync_def in_vocabulary_def split: option.splits)
  qed
  moreover have "greedy_reply env K E prompt (gn_tokens g4 @ rest) (gn_target g4)"
    using R(2) D(2) g4(1,2) by simp
  moreover have "\<forall>t \<in> set (gn_tokens g4). \<not> is_stop_token E t" using I(1) g4(1,12) by (auto simp: generated_def)
  ultimately have gen: "generated env K E prompt rq g4 rest"
    using g4(3,10,11) by (simp add: generated_def)
  have ends: "gr_finish_reason (gn_result g4) = ''stop'' \<and> gn_stopped g4 \<and> rest \<noteq> [] \<and> is_stop_token E (hd rest) \<and>
        length (gn_tokens g4) < rq_max_tokens rq \<or>
      gr_finish_reason (gn_result g4) = ''length'' \<and> \<not> gn_stopped g4 \<and>
      (rest = [] \<or> length (gn_tokens g4) = rq_max_tokens rq)"
    using D(3) S I(7,8) unfolding delivered_def by auto
  have step: "speculative_step env E rq stream g =
      (if gr_finish_reason (gn_result g4) = ''stop'' then (Inr Finish, g4)
       else if c then (Inr Finish, finish_with ''cancelled'' g4)
       else if should_fallback env E source (gn_guard g4) then
         (Inr Continue, g4\<lparr>gn_mtp_profitable := False,
            gn_result := (gn_result g4)\<lparr>gr_mtp_fallbacks := sz_add (gr_mtp_fallbacks (gn_result g4)) 1\<rparr>\<rparr>)
       else (Inr Continue, g4))"
    using choice R(1) g2(1) D(1) by (simp add: speculative_step_def Let_def)
  consider (stop) "gr_finish_reason (gn_result g4) = ''stop''" "gn_stopped g4" "rest \<noteq> []" "is_stop_token E (hd rest)"
        "length (gn_tokens g4) < rq_max_tokens rq"
    | (cancel) "gr_finish_reason (gn_result g4) = ''length''" "c" "\<not> gn_stopped g4"
    | (on) "gr_finish_reason (gn_result g4) = ''length''" "\<not> c" "\<not> gn_stopped g4"
        "rest = [] \<or> length (gn_tokens g4) = rq_max_tokens rq"
    using ends by blast
  then show ?thesis
  proof cases
    case stop
    have "finished env K E prompt rq g4" using gen stop unfolding finished_def by blast
    then show ?thesis using step stop by simp
  next
    case cancel
    have "gn_tokens g4 @ rest \<noteq> []" using g4(1) D(2) R(4) by auto
    then have "gn_tokens (finish_with ''cancelled'' g4) @ rest \<noteq> []" by simp
    moreover have "generated env K E prompt rq (finish_with ''cancelled'' g4) rest"
      using gen by (simp add: generated_def finish_with_def mtp_connected_def)
    moreover have "gr_finish_reason (gn_result (finish_with ''cancelled'' g4)) = ''cancelled''"
      "\<not> gn_stopped (finish_with ''cancelled'' g4)" "\<not> accepting (rq_on_delta rq)"
      using cancel D(4) by (auto simp: finish_with_def)
    ultimately have "finished env K E prompt rq (finish_with ''cancelled'' g4)" unfolding finished_def by blast
    then show ?thesis using step cancel by simp
  next
    case on
    have policies: "policies_ok E prompt rq g4"
      using I(5) g2(3,4) g4(13,14) by (auto simp: policies_ok_def)
    have next_one: "rest = [] \<and> gn_current g4 = last (prompt @ gn_tokens g4) \<and> mtp_ready g4"
      if "length (gn_tokens g4) < rq_max_tokens rq"
    proof -
      have "rest = []" using on(4) that by simp
      then show ?thesis
        using R(3,6) D(2) g4(1-4,8) pend by (auto simp: mtp_ready_def)
    qed
    let ?g5 = "g4\<lparr>gn_mtp_profitable := False,
            gn_result := (gn_result g4)\<lparr>gr_mtp_fallbacks := sz_add (gr_mtp_fallbacks (gn_result g4)) 1\<rparr>\<rparr>"
    have "loop_inv env K E prompt rq g4"
      using gen next_one policies g4(5) on I(3) unfolding loop_inv_def by blast
    moreover have "generated env K E prompt rq ?g5 rest" using gen by (simp add: generated_def mtp_connected_def)
    then have "loop_inv env K E prompt rq ?g5"
      using next_one policies g4(5) on unfolding loop_inv_def by (auto simp: policies_ok_def)
    ultimately show ?thesis using step on by simp
  qed
qed

end
