(* ===== verification/Engine_Complete.thy ===== *)
theory Engine_Complete
  imports Engine_Rounds
begin

text \<open>
  The request as a whole: from the prepared prompt to the answer, its text and the fragments the
  caller receives.
\<close>

subsection \<open>Answers\<close>

text \<open>
  A greedy answer of at most \<open>n\<close> tokens: from the fresh state the target consumed exactly the
  prompt and then the tokens it had selected itself, one after the other; the answer is what it
  selected, up to the first stop token, which is not part of it, or up to the limit.
  \<open>extra\<close> are the tokens selected behind the answer: the stop token, or what the last round
  selected beyond the limit.
\<close>

definition greedy_beginning ::
    "environment \<Rightarrow> ('s, 'ls, 'm) multi_kernels \<Rightarrow> ('s, 'ls, 'hl, 'm, 'g, 'r) NativeEngine \<Rightarrow> u32 list \<Rightarrow> nat \<Rightarrow>
     u32 list \<Rightarrow> bool" where
  "greedy_beginning env K E prompt n ts \<longleftrightarrow>
     length ts \<le> n \<and> (\<forall>t \<in> set ts. \<not> is_stop_token E t) \<and>
     (\<exists>extra st. greedy_reply env K E prompt (ts @ extra) st)"

definition greedy_answer ::
    "environment \<Rightarrow> ('s, 'ls, 'm) multi_kernels \<Rightarrow> ('s, 'ls, 'hl, 'm, 'g, 'r) NativeEngine \<Rightarrow> u32 list \<Rightarrow> nat \<Rightarrow>
     u32 list \<Rightarrow> string \<Rightarrow> bool" where
  "greedy_answer env K E prompt n ts reason \<longleftrightarrow>
     length ts \<le> n \<and> (\<forall>t \<in> set ts. \<not> is_stop_token E t) \<and>
     (\<exists>extra st. greedy_reply env K E prompt (ts @ extra) st \<and>
        (reason = ''stop'' \<and> length ts < n \<and> extra \<noteq> [] \<and> is_stop_token E (hd extra) \<or>
         reason = ''length'' \<and> length ts = n))"

text \<open>Where the loop ends, the tokens are a greedy answer, or the beginning of one.\<close>

definition answers ::
    "environment \<Rightarrow> ('s, 'ls, 'm) multi_kernels \<Rightarrow> ('s, 'ls, 'hl, 'm, 'g, 'r) NativeEngine \<Rightarrow> u32 list \<Rightarrow> request \<Rightarrow>
     u32 list \<Rightarrow> string \<Rightarrow> bool" where
  "answers env K E prompt rq tokens reason \<longleftrightarrow>
     greedy_beginning env K E prompt (rq_max_tokens rq) tokens \<and>
     (accepting (rq_on_delta rq) \<longrightarrow> greedy_answer env K E prompt (rq_max_tokens rq) tokens reason)"

lemma finished_answers:
  assumes "finished env K E prompt rq g"
  shows "answers env K E prompt rq (gn_tokens g) (gr_finish_reason (gn_result g))"
proof -
  let ?ts = "gn_tokens g" and ?n = "rq_max_tokens rq"
  obtain extra where gen: "generated env K E prompt rq g extra"
    and ends: "gr_finish_reason (gn_result g) = ''stop'' \<and> length ?ts < ?n \<and> extra \<noteq> [] \<and> is_stop_token E (hd extra) \<or>
      gr_finish_reason (gn_result g) = ''length'' \<and> length ?ts = ?n \<or> \<not> accepting (rq_on_delta rq)"
    using assms unfolding finished_def by blast
  have G: "length ?ts \<le> ?n" "\<forall>t \<in> set ?ts. \<not> is_stop_token E t" "greedy_reply env K E prompt (?ts @ extra) (gn_target g)"
    using gen by (simp_all add: generated_def)
  then have "greedy_beginning env K E prompt ?n ?ts" unfolding greedy_beginning_def by blast
  moreover have "greedy_answer env K E prompt ?n ?ts (gr_finish_reason (gn_result g))" if "accepting (rq_on_delta rq)"
    using G ends that unfolding greedy_answer_def by blast
  ultimately show ?thesis by (simp add: answers_def)
qed

subsection \<open>The loop\<close>

lemma generation_step_ok:
  assumes ok: "engine_ok env K E" and dec: "decodable E" and rq: "greedy_request rq"
    and P: "prompt_ok E prompt (rq_max_tokens rq)"
    and inv: "loop_inv env K E prompt rq g" and lt: "length (gn_tokens g) < rq_max_tokens rq"
  shows "\<exists>a g'. generation_step env E rq g = (Inr a, g') \<and>
    (case a of Continue \<Rightarrow> loop_inv env K E prompt rq g' | Finish \<Rightarrow> finished env K E prompt rq g')"
proof (cases "gn_previous g")
  case None
  then show ?thesis
    using serial_step_ok [OF ok dec rq P inv lt] by (simp add: generation_step_greedy [OF rq])
next
  case (Some stream)
  let ?serial = "\<not> gn_mtp_profitable g \<or> rq_max_tokens rq - length (gn_tokens g) = 1 \<or>
    (rq_extend_cache rq \<and> rq_max_tokens rq - length (gn_tokens g) = 2)"
  show ?thesis
  proof (cases ?serial)
    case True
    then have "gn_mtp_profitable g \<longrightarrow>
        rq_max_tokens rq - length (gn_tokens g) = 1 \<or> rq_extend_cache rq \<or> gn_previous g = None" by blast
    from serial_step_ok [OF ok dec rq P inv lt this] show ?thesis
      using True Some by (simp only: generation_step_greedy [OF rq] option.case if_True)
  next
    case False
    then have "gn_mtp_profitable g" by blast
    from speculative_step_ok [OF ok dec rq P inv lt this Some] show ?thesis
      using False Some by (simp only: generation_step_greedy [OF rq] option.case if_False)
  qed
qed

lemma generation_loop_ok:
  assumes ok: "engine_ok env K E" and dec: "decodable E" and rq: "greedy_request rq"
    and P: "prompt_ok E prompt (rq_max_tokens rq)" and inv: "loop_inv env K E prompt rq g"
  shows "\<exists>g'. generation_loop env E rq g = (Inr (), g') \<and> finished env K E prompt rq g'"
  using assms
proof (induction env E rq g rule: generation_loop.induct)
  case (1 env E rq g)
  show ?case
  proof (cases "length (gn_tokens g) < rq_max_tokens rq")
    case True
    obtain a g1 where step: "generation_step env E rq g = (Inr a, g1)"
      "case a of Continue \<Rightarrow> loop_inv env K E prompt rq g1 | Finish \<Rightarrow> finished env K E prompt rq g1"
      using generation_step_ok [OF 1(2-6) True] by blast
    show ?thesis
    proof (cases a)
      case Continue
      have "generation_loop env E rq g = generation_loop env E rq g1"
        using True step(1) Continue by (subst generation_loop.simps) simp
      moreover have "\<exists>g'. generation_loop env E rq g1 = (Inr (), g') \<and> finished env K E prompt rq g'"
        using 1(1) [OF True step(1) [symmetric] refl] 1(2-5) step(2) Continue by simp
      ultimately show ?thesis by simp
    next
      case Finish
      then show ?thesis using True step by (subst generation_loop.simps) simp
    qed
  next
    case False
    obtain extra where "generated env K E prompt rq g extra" using 1(6) by (auto simp: loop_inv_def)
    then have "finished env K E prompt rq g"
      using False 1(6) by (auto simp: finished_def loop_inv_def generated_def)
    then show ?thesis using False by (subst generation_loop.simps) simp
  qed
qed

subsection \<open>Starting\<close>

definition greedy_sampling :: "SamplingOptions \<Rightarrow> bool" where
  "greedy_sampling sampling \<longleftrightarrow> so_temperature sampling \<le> 0 \<and> so_thinking_budget_tokens sampling = 0"

lemma context_copy_limit: "context_copy_max_tokens env = Inr n \<Longrightarrow> n \<le> 24"
  by (auto simp: context_copy_max_tokens_def Let_def split: option.splits if_splits)

lemma setup_request_ok:
  assumes ok: "engine_ok env K E" and greedy: "greedy_sampling sampling"
  shows "\<exists>rq. setup_request env E on_delta prompt n sampling = Inr rq \<and> greedy_request rq \<and>
    rq_max_tokens rq = n \<and> rq_on_delta rq = on_delta \<and> rq_sampling rq = sampling \<and>
    (\<forall>cache. rq_context_copy rq = Some cache \<longrightarrow> context_valid cache \<and> cc_prompt cache = prompt)"
proof -
  obtain k where k: "context_copy_max_tokens env = Inr k" using ok by (auto simp: engine_ok_def)
  obtain cache where cache: "context_copy_cache prompt 6 10 = Inr cache" "cc_prompt cache = prompt"
    by (simp add: context_copy_cache_def)
  show ?thesis
    using k cache(1) cache(2) greedy context_copy_limit [OF k] context_copy_cache_valid [OF cache(1)]
    by (simp add: setup_request_def greedy_request_def greedy_sampling_def)
qed

lemma history_append_all_history: "hc_history (history_append_all ts c) = hc_history c @ ts"
  by (induction ts arbitrary: c) (simp_all add: history_append_all_def history_append_def Let_def)

lemma depth_policy_ok:
  assumes "m \<in> {0, 2, 3, 4}"
  shows "\<exists>pol. depth_policy env m n four = Inr pol \<and> dp_maximum_depth pol = m"
  using assms by (auto simp: depth_policy_def Let_def)

lemma start_generation_ok:
  assumes ok: "engine_ok env K E" and rq: "greedy_request rq" and P: "prompt_ok E prompt (rq_max_tokens rq)"
    and prepared: "prompt_prepared env K E prompt pp"
    and copying: "\<forall>cache. rq_context_copy rq = Some cache \<longrightarrow> context_valid cache \<and> cc_prompt cache = prompt"
  shows "\<exists>g. start_generation env E rq prompt pp cal = Inr g \<and> loop_inv env K E prompt rq g"
proof -
  obtain history where history: "history_cache 2 5 = Inr history" "hc_history history = []"
    by (simp add: history_cache_def)
  have "ne_mtp_depth E \<in> {0, 2, 3, 4}" using ok by (simp add: engine_ok_def)
  then obtain depth where depth: "depth_policy env (ne_mtp_depth E) (length prompt) (ne_adaptive_mtp_depth E) = Inr depth"
    "dp_maximum_depth depth = ne_mtp_depth E" using depth_policy_ok by blast
  obtain g where g: "start_generation env E rq prompt pp cal = Inr g" "gn_tokens g = []" "gn_target g = pp_target pp"
    "gn_mtp g = pp_mtp pp" "gn_previous g = pp_previous pp" "gn_current g = last prompt" "gn_stream g = stream_start"
    "gn_pending_streams g = []" "gn_pending_tokens g = []" "gn_forced_tokens g = []" "\<not> gn_stopped g"
    "gr_finish_reason (gn_result g) = ''length''" "gn_depth_policy g = depth"
    "gn_mtp_profitable g \<longrightarrow> ne_mtp_head E \<noteq> None"
    "hc_history (gn_history g) = [] \<or> hc_history (gn_history g) = prompt"
    using history depth(1)
    by (simp add: start_generation_def Let_def empty_result_def history_append_all_history)
  have fed: "feeds env K (ne_model E) (butlast prompt) (ne_make_state E) (pp_target pp)"
    and follows: "ingest_follows (ne_mtp_head E) (length prompt - 1) (pp_previous pp, pp_mtp pp)"
    using prepared by (simp_all add: prompt_prepared_def ingested_def butlast_conv_take)
  have count: "ds_token_count (pp_target pp) = length prompt - 1"
    using feeds_count [OF fed] ok by (simp add: engine_ok_def)
  have "stream_inv (decode (ne_unicode E) (ne_tokenizer E)) [] stream_start"
    by (rule tokenizer_decoder.stream_start_inv)
  then have stream: "stream_ok E rq [] stream_start" by (simp add: stream_ok_def stream_start_def)
  have connected: "mtp_connected E g"
    using follows count g(3,4,8,9)
    by (auto simp: mtp_connected_def pending_ok_def ingest_follows_def mtp_follows_def fresh_mtp_def
        head_in_sync_def in_vocabulary_def split: option.splits)
  have "greedy_reply env K E prompt [] (pp_target pp)" using fed continuation_Nil by (fastforce simp: greedy_reply_def)
  then have gen: "generated env K E prompt rq g []"
    using g(2-9) stream connected follows prompt_ok_bounds [OF P]
    by (cases prompt) (auto simp: generated_def ingest_follows_def)
  have ready: "mtp_ready g" if "ne_mtp_head E \<noteq> None"
    using follows that count g(3-5,8) by (auto simp: mtp_ready_def ingest_follows_def mtp_follows_def split: option.splits)
  have "policies_ok E prompt rq g"
    using depth_inv_init [OF depth(1)] depth(2) ok P g(13,15) copying
    by (auto simp: policies_ok_def engine_ok_def prompt_ok_def in_vocabulary_def)
  then show ?thesis
    using g gen ready unfolding loop_inv_def by auto
qed

subsection \<open>Finishing\<close>

lemma record_profitability_sound:
  "cache_sound env K E cache \<Longrightarrow> cache_sound env K E (record_profitability env prompt res cache)"
  by (auto simp: record_profitability_def cache_sound_def entry_ok_def Let_def split: option.splits)

text \<open>The state that is cached at the end is the state after the tokens it is cached under.\<close>

lemma end_state_tokens:
  assumes ok: "engine_ok env K E" and ne: "prompt \<noteq> []" and gen: "generated env K E prompt rq g extra"
    and matches: "target_matches_output prompt g"
    and stop: "gn_stopped g \<longrightarrow> extra \<noteq> []"
  shows "feeds env K (ne_model E) (take (ds_token_count (gn_target g)) (prompt @ gn_tokens g)) (ne_make_state E) (gn_target g)
    \<and> ds_token_count (gn_target g) \<le> length (prompt @ gn_tokens g) \<and> ds_token_count (gn_target g) = length prompt - 1 + length (gn_tokens g @ extra)"
proof -
  let ?ts = "gn_tokens g" and ?n = "ds_token_count (gn_target g)"
  have reply: "greedy_reply env K E prompt (?ts @ extra) (gn_target g)" using gen by (simp add: generated_def)
  have count: "?n = length prompt - 1 + length (?ts @ extra)" using greedy_reply_count [OF ok reply ne] .
  have "length extra = (if gn_stopped g then 1 else 0)"
    using matches count ne by (cases prompt) (auto simp: target_matches_output_def Let_def split: if_splits)
  then have n: "?n \<le> length (prompt @ ?ts)" using count ne by (cases prompt) (auto split: if_splits)
  have "take ?n (prompt @ ?ts) = take ?n (prompt @ ?ts @ extra)" using n by simp
  then show ?thesis
    using greedy_reply_feeds [OF reply ne] count n by (simp del: take_append)
qed

lemma extend_prefix_cache_sound:
  assumes ok: "engine_ok env K E" and P: "prompt_ok E prompt (rq_max_tokens rq)" and pos: "0 < rq_max_tokens rq"
    and fin: "finished env K E prompt rq g" and cache: "cache_sound env K E cache"
  shows "\<exists>cache'. extend_prefix_cache env E rq prompt g cache = Inr cache' \<and> cache_sound env K E cache'"
proof (cases "target_matches_output prompt g \<and> mtp_matches_output E g \<and> gn_previous g \<noteq> None")
  case False
  then show ?thesis using cache by (auto simp: extend_prefix_cache_def Let_def)
next
  case True
  have ne: "prompt \<noteq> []" using prompt_ok_bounds [OF P] by simp
  obtain extra where gen: "generated env K E prompt rq g extra" and stop: "gn_stopped g \<longrightarrow> extra \<noteq> []"
    and some: "gn_tokens g @ extra \<noteq> []"
    using fin pos unfolding finished_def by fastforce
  let ?M = "ne_model E" and ?n = "ds_token_count (gn_target g)"
  have fed: "feeds env K ?M (take ?n (prompt @ gn_tokens g)) (ne_make_state E) (gn_target g)"
    "?n \<le> length (prompt @ gn_tokens g)" "?n = length prompt - 1 + length (gn_tokens g @ extra)"
    using end_state_tokens [OF ok ne gen _ stop] True by auto
  have long: "length (take ?n (prompt @ gn_tokens g)) = ?n" using fed(2) by simp
  have nonempty: "take ?n (prompt @ gn_tokens g) \<noteq> []" using fed(3) some ne by (auto simp del: take_append)
  have snap: "snapshot_state ?M (gn_target g) = Inr (gn_target g)"
    using feeds_fits [OF fed(1)] ok by (simp add: engine_ok_def snapshot_state_def)
  have "ne_mtp_head E \<noteq> None \<Longrightarrow> pending_ok ?M ?n (gn_mtp g) (gn_pending_streams g) (gn_pending_tokens g)"
    using gen True by (auto simp: generated_def mtp_connected_def mtp_matches_output_def)
  then have "entry_ok env K E \<lparr>pe_tokens = take ?n (prompt @ gn_tokens g), pe_target_state = gn_target g,
      pe_mtp_state = (if ne_mtp_head E = None then ne_make_mtp_state E else gn_mtp g),
      pe_previous_target_stream = gn_previous g, pe_pending_mtp_streams = gn_pending_streams g,
      pe_pending_mtp_tokens = gn_pending_tokens g, pe_mtp_profitable = a,
      pe_mtp_profitability_current_token = b, pe_mtp_cumulative_profitability_keep = c\<rparr>" for a b c
    using fed(1) long nonempty True
    by (auto simp: entry_ok_def pending_ok_def simp del: take_append split: option.splits)
  then show ?thesis
    using cache snap by (simp add: extend_prefix_cache_def Let_def cache_sound_def del: take_append)
qed

subsection \<open>What the caller receives\<close>

definition delivered_text :: "text_delta_callback option \<Rightarrow> string list \<Rightarrow> string \<Rightarrow> bool" where
  "delivered_text on_delta deltas bytes \<longleftrightarrow>
     (\<exists>rest. bytes = concat deltas @ rest) \<and>
     (on_delta = None \<longrightarrow> deltas = []) \<and>
     (on_delta \<noteq> None \<and> accepting on_delta \<longrightarrow> concat deltas = bytes) \<and>
     (utf8_text bytes \<longrightarrow> list_all utf8_text deltas)"

lemma flush_pending_text:
  assumes inv: "stream_ok E rq tokens ss" and bytes: "decode (ne_unicode E) (ne_tokenizer E) tokens = Inr bytes"
    and flush: "flush_pending (rq_on_delta rq) ss = (sent, ss')"
  shows "delivered_text (rq_on_delta rq) (ss_deltas ss') bytes \<and> (accepting (rq_on_delta rq) \<longrightarrow> sent)"
proof -
  let ?D = "decode (ne_unicode E) (ne_tokenizer E)" and ?cb = "rq_on_delta rq"
  have S: "stream_inv ?D tokens ss" "?cb \<noteq> None \<longrightarrow> ss_connected ss \<longrightarrow> ss_streamed_tokens ss = length tokens"
    "accepting ?cb \<longrightarrow> ss_connected ss" "?cb = None \<longrightarrow> ss = stream_start"
    using inv by (auto simp: stream_ok_def)
  obtain m rest where I: "m \<le> length tokens" "?D (take m tokens) = Inr (concat (ss_deltas ss) @ rest)"
      "ss_connected ss \<longrightarrow> m = ss_streamed_tokens ss \<and> rest = ss_pending_bytes ss"
      "\<forall>y. utf8_text (concat (ss_deltas ss) @ rest @ y) \<longrightarrow>
         list_all utf8_text (ss_deltas ss) \<and> utf8_text (concat (ss_deltas ss))"
    using S(1) unfolding stream_inv_def by blast
  have "?D (take m tokens @ drop m tokens) = Inr bytes" using bytes by simp
  then obtain tail where tail: "bytes = (concat (ss_deltas ss) @ rest) @ tail"
    unfolding tokenizer_decoder.decoding_append by (cases "?D (drop m tokens)") (auto simp: I(2))
  have valid: "utf8_text bytes \<longrightarrow> list_all utf8_text (ss_deltas ss) \<and> utf8_text (concat (ss_deltas ss))"
    using I(4) [rule_format, of tail] tail by simp
  show ?thesis
  proof (cases "?cb")
    case None
    then show ?thesis using S(4) flush by (auto simp: flush_pending_def stream_start_def delivered_text_def)
  next
    case (Some callback)
    show ?thesis
    proof (cases "ss_connected ss")
      case False
      then show ?thesis using flush Some tail valid S(3) by (auto simp: flush_pending_def delivered_text_def)
    next
      case True
      then have all: "bytes = concat (ss_deltas ss) @ ss_pending_bytes ss"
        using S(2) I(2,3) Some bytes by simp
      then have "utf8_text bytes \<longrightarrow> list_all utf8_text (ss_deltas ss) \<and> utf8_text (ss_pending_bytes ss)"
        using valid utf8_text_rest by blast
      then show ?thesis
        using flush Some all True
        by (auto simp: flush_pending_def delivered_text_def accepting_def split: if_splits)
    qed
  qed
qed

lemma finish_generation_ok:
  assumes ok: "engine_ok env K E" and dec: "decodable E" and P: "prompt_ok E prompt (rq_max_tokens rq)"
    and pos: "0 < rq_max_tokens rq" and fin: "finished env K E prompt rq g" and cache: "cache_sound env K E cache"
  shows "\<exists>res deltas cache'. finish_generation env E rq prompt g cache = (Inr res, deltas, cache') \<and>
    cache_sound env K E cache' \<and> answers env K E prompt rq (gr_tokens res) (gr_finish_reason res) \<and>
    decode (ne_unicode E) (ne_tokenizer E) (gr_tokens res) = Inr (gr_text res) \<and>
    delivered_text (rq_on_delta rq) deltas (gr_text res)"
proof -
  have ne: "prompt \<noteq> []" using prompt_ok_bounds [OF P] by simp
  obtain extra where gen: "generated env K E prompt rq g extra" using fin by (auto simp: finished_def)
  have reply: "greedy_reply env K E prompt (gn_tokens g @ extra) (gn_target g)" and
    stream: "stream_ok E rq (gn_tokens g) (gn_stream g)" using gen by (auto simp: generated_def)
  have "in_vocabulary (ne_model E) (gn_tokens g)"
    using greedy_reply_vocabulary [OF ok reply] by (auto simp: in_vocabulary_def)
  then obtain bytes where bytes: "decode (ne_unicode E) (ne_tokenizer E) (gn_tokens g) = Inr bytes"
    using dec unfolding decodable_def by blast
  obtain cache' where cache': "extend_prefix_cache env E rq prompt g
      (record_profitability env prompt (gn_result g) cache) = Inr cache'" "cache_sound env K E cache'"
    using extend_prefix_cache_sound [OF ok P pos fin record_profitability_sound [OF cache]] by blast
  obtain sent ss' where flush: "flush_pending (rq_on_delta rq) (gn_stream g) = (sent, ss')" by fastforce
  note F = flush_pending_text [OF stream bytes flush]
  have answer: "answers env K E prompt rq (gn_tokens g) (gr_finish_reason (gn_result g))"
    using finished_answers [OF fin] .
  let ?res = "(if sent then gn_result g else (gn_result g)\<lparr>gr_finish_reason := ''cancelled''\<rparr>)\<lparr>gr_text := bytes\<rparr>"
  have run: "finish_generation env E rq prompt g cache = (Inr ?res, ss_deltas ss', cache')"
    using cache'(1) flush bytes by (simp add: finish_generation_def Let_def)
  moreover have "answers env K E prompt rq (gr_tokens ?res) (gr_finish_reason ?res)"
    using answer F by (auto simp: answers_def)
  ultimately show ?thesis using cache'(2) F bytes by (intro exI [of _ ?res] exI [of _ "ss_deltas ss'"] exI [of _ cache']) auto
qed

end
