(* ===== verification/Engine_Correctness.thy ===== *)
theory Engine_Correctness
  imports Engine_Complete
begin

text \<open>
  What a caller of the engine can rely on: a greedy request is answered with what the target selects
  after the prompt and the tokens already delivered, whatever requests came before, and every state
  in the prefix cache has consumed exactly the tokens it is stored under.
\<close>

subsection \<open>A request\<close>

text \<open>The engine is set up: the chunk size of every prompt suits the model.\<close>

definition serving_ok :: "environment \<Rightarrow> ('s, 'ls, 'm) multi_kernels \<Rightarrow> ('s, 'ls, 'hl, 'm, 'g, 'r) NativeEngine \<Rightarrow> bool" where
  "serving_ok env K E \<longleftrightarrow> engine_ok env K E \<and> decodable E \<and>
     (\<forall>prompt. \<exists>chunk. request_prefill_chunk E prompt = Inr chunk \<and> chunk_ok E chunk)"

definition answered ::
    "environment \<Rightarrow> ('s, 'ls, 'm) multi_kernels \<Rightarrow> ('s, 'ls, 'hl, 'm, 'g, 'r) NativeEngine \<Rightarrow> text_delta_callback option \<Rightarrow> u32 list \<Rightarrow> nat \<Rightarrow>
     GenerationResult \<Rightarrow> string list \<Rightarrow> bool" where
  "answered env K E on_delta prompt n res deltas \<longleftrightarrow>
     greedy_beginning env K E prompt n (gr_tokens res) \<and>
     (accepting on_delta \<longrightarrow> greedy_answer env K E prompt n (gr_tokens res) (gr_finish_reason res)) \<and>
     decode (ne_unicode E) (ne_tokenizer E) (gr_tokens res) = Inr (gr_text res) \<and>
     delivered_text on_delta deltas (gr_text res)"

lemma complete_tokens_ok:
  assumes ok: "engine_ok env K E" and dec: "decodable E" and greedy: "greedy_sampling sampling"
    and P: "prompt_ok E prompt n" and pos: "0 < n" and prepared: "prompt_prepared env K E prompt pp"
    and cache: "cache_sound env K E (ew_prefix_cache w)"
  shows "\<exists>res deltas w'. complete_tokens env E on_delta prompt n sampling pp w = Some (Inr res, deltas, w') \<and>
    cache_sound env K E (ew_prefix_cache w') \<and> answered env K E on_delta prompt n res deltas"
proof -
  obtain rq where rq: "setup_request env E on_delta prompt n sampling = Inr rq" "greedy_request rq"
    "rq_max_tokens rq = n" "rq_on_delta rq = on_delta" "rq_sampling rq = sampling"
    "\<forall>cache. rq_context_copy rq = Some cache \<longrightarrow> context_valid cache \<and> cc_prompt cache = prompt"
    using setup_request_ok [OF ok greedy] by blast
  have P': "prompt_ok E prompt (rq_max_tokens rq)" using P rq(3) by simp
  obtain g where g: "start_generation env E rq prompt pp (ew_calibration w) = Inr g" "loop_inv env K E prompt rq g"
    using start_generation_ok [OF ok rq(2) P' prepared rq(6)] by blast
  have same: "rq\<lparr>rq_thinking_close_tokens := [], rq_forced_thinking_suffix := []\<rparr> = rq"
    using rq(2) by (simp add: greedy_request_def)
  obtain g' where loop: "generation_loop env E rq g = (Inr (), g')" "finished env K E prompt rq g'"
    using generation_loop_ok [OF ok dec rq(2) P' g(2)] by blast
  have "0 < rq_max_tokens rq" using pos rq(3) by simp
  from finish_generation_ok [OF ok dec P' this loop(2) cache] obtain res deltas cache' where
    fin: "finish_generation env E rq prompt g' (ew_prefix_cache w) = (Inr res, deltas, cache')"
      "cache_sound env K E cache'" "answers env K E prompt rq (gr_tokens res) (gr_finish_reason res)"
      "decode (ne_unicode E) (ne_tokenizer E) (gr_tokens res) = Inr (gr_text res)"
      "delivered_text (rq_on_delta rq) deltas (gr_text res)" by blast
  have "thinking_tokens E sampling (ew_bpe_cache w) = Some (Inr ([], []), ew_bpe_cache w)"
    using greedy by (simp add: thinking_tokens_def greedy_sampling_def)
  then have "complete_tokens env E on_delta prompt n sampling pp w =
      Some (Inr res, deltas, w\<lparr>ew_prefix_cache := cache', ew_calibration := rw_cal (gn_world g')\<rparr>)"
    using rq(1) g(1) loop(1) fin(1) same by (simp add: complete_tokens_def Let_def)
  moreover have "answered env K E on_delta prompt n res deltas"
    using fin(3-5) rq(3,4) by (simp add: answered_def answers_def)
  ultimately show ?thesis using fin(2) by auto
qed

lemma complete_impl_ok:
  assumes serving: "serving_ok env K E" and greedy: "greedy_sampling sampling"
    and cache: "cache_sound env K E (ew_prefix_cache w)" and valid: "validate_request E n sampling = Inr ()"
    and enc: "encode (ne_unicode E) (ne_tokenizer E) (ew_bpe_cache w) prompt True = Some (Inr tokens, bpe')"
    and P: "prompt_ok E tokens n"
  shows "\<exists>res deltas w'. complete_impl env E on_delta prompt n sampling w = Some (Inr res, deltas, w') \<and>
    cache_sound env K E (ew_prefix_cache w') \<and> answered env K E on_delta tokens n res deltas"
proof -
  have ok: "engine_ok env K E" and dec: "decodable E" using serving by (simp_all add: serving_ok_def)
  have fresh: "fresh_mtp (ne_make_mtp_state E)" using ok by (simp add: engine_ok_def)
  note ready = engine_ingest_ready [OF ok P]
  obtain chunk where chunk: "request_prefill_chunk E tokens = Inr chunk" "chunk_ok E chunk"
    using serving unfolding serving_ok_def by blast
  obtain pp where pp: "prepare_prompt env E tokens (ew_prefix_cache w) = Inr pp" "prompt_prepared env K E tokens pp"
    using prepare_prompt_ok [OF ready cache fresh chunk] by blast
  obtain cache' where cache': "cache_prompt E tokens pp (ew_prefix_cache w) = Inr cache'" "cache_sound env K E cache'"
    using cache_prompt_sound [OF ready cache pp(2)] by blast
  have pos: "0 < n" using valid by (auto simp: validate_request_def split: if_splits)
  have prompt: "validate_prompt E tokens n = Inr ()" using P by (simp add: prompt_ok_def)
  let ?w = "w\<lparr>ew_calibration := begin_mtp_calibration_request env (ew_calibration w), ew_bpe_cache := bpe'\<rparr>"
  have "complete_impl env E on_delta prompt n sampling w =
      complete_tokens env E on_delta tokens n sampling pp (?w\<lparr>ew_prefix_cache := cache'\<rparr>)"
    using valid enc prompt pp(1) cache'(1) by (simp add: complete_impl_def Let_def)
  moreover have "cache_sound env K E (ew_prefix_cache (?w\<lparr>ew_prefix_cache := cache'\<rparr>))" using cache'(2) by simp
  ultimately show ?thesis
    using complete_tokens_ok [OF ok dec greedy P pos pp(2)] by metis
qed

subsection \<open>A sequence of requests\<close>

text \<open>
  What a caller does with an engine: greedy requests, valid or not, whose prompt has its tokens in
  the vocabulary of the model, and clearing the cache.
\<close>

inductive engine_step ::
    "environment \<Rightarrow> ('s, 'ls, 'hl, 'm, 'g, 'r) NativeEngine \<Rightarrow> ('s, 'ls, 'hl, 'm) engine_world \<Rightarrow>
     ('s, 'ls, 'hl, 'm) engine_world \<Rightarrow> bool" for env E where
  request: "complete_impl env E on_delta prompt n sampling w = Some (r, deltas, w') \<Longrightarrow> greedy_sampling sampling \<Longrightarrow>
     (\<And>tokens bpe'. encode (ne_unicode E) (ne_tokenizer E) (ew_bpe_cache w) prompt True = Some (Inr tokens, bpe') \<Longrightarrow>
        in_vocabulary (ne_model E) tokens) \<Longrightarrow> engine_step env E w w'"
| clear: "engine_step env E w (clear_cache w)"

inductive_cases engine_stepE: "engine_step env E w w'"

lemma engine_step_sound:
  assumes serving: "serving_ok env K E" and cache: "cache_sound env K E (ew_prefix_cache w)" and step: "engine_step env E w w'"
  shows "cache_sound env K E (ew_prefix_cache w')"
  using step
proof cases
  case clear
  then show ?thesis by (simp add: clear_cache_def cache_sound_def)
next
  case (request on_delta prompt n sampling r deltas)
  show ?thesis
  proof (cases "\<exists>tokens bpe'. validate_request E n sampling = Inr () \<and> validate_prompt E tokens n = Inr () \<and>
      encode (ne_unicode E) (ne_tokenizer E) (ew_bpe_cache w) prompt True = Some (Inr tokens, bpe')")
    case True
    then obtain tokens bpe' where T: "validate_request E n sampling = Inr ()" "validate_prompt E tokens n = Inr ()"
      "encode (ne_unicode E) (ne_tokenizer E) (ew_bpe_cache w) prompt True = Some (Inr tokens, bpe')" by blast
    have "prompt_ok E tokens n" using T(2) request(3) [OF T(3)] by (simp add: prompt_ok_def)
    from complete_impl_ok [OF serving request(2) cache T(1,3) this, of on_delta] show ?thesis using request(1) by auto
  next
    case False
    have "ew_prefix_cache w' = ew_prefix_cache w"
    proof (cases "validate_request E n sampling")
      case (Inl e)
      then show ?thesis using request(1) by (simp add: complete_impl_def)
    next
      case (Inr u)
      obtain a b where enc: "encode (ne_unicode E) (ne_tokenizer E) (ew_bpe_cache w) prompt True = Some (a, b)"
        using request(1) Inr by (cases "encode (ne_unicode E) (ne_tokenizer E) (ew_bpe_cache w) prompt True")
          (auto simp: complete_impl_def Let_def)
      show ?thesis
      proof (cases a)
        case (Inl e)
        then show ?thesis using request(1) Inr enc by (auto simp: complete_impl_def Let_def)
      next
        case tokens: (Inr tokens)
        then obtain e where "validate_prompt E tokens n = Inl e"
          using False Inr enc by (cases "validate_prompt E tokens n") auto
        then show ?thesis using request(1) Inr enc tokens by (auto simp: complete_impl_def Let_def)
      qed
    qed
    then show ?thesis using cache by simp
  qed
qed

interpretation engine_system: invariant_system
  "\<lambda>w. serving_ok env K E \<and> ew_prefix_cache w = None" "engine_step env E"
  "\<lambda>w. serving_ok env K E \<and> cache_sound env K E (ew_prefix_cache w)" for env K E
proof (unfold_locales, goal_cases)
  case (1 w)
  then show ?case by (simp add: cache_sound_def)
next
  case (2 w w')
  then show ?case using engine_step_sound by blast
qed

lemma reachable_sound:
  assumes "serving_ok env K E" and "ew_prefix_cache w0 = None" and "(engine_step env E)\<^sup>*\<^sup>* w0 w"
  shows "cache_sound env K E (ew_prefix_cache w)"
  using engine_system.inv_reachable assms by blast

subsection \<open>The concrete engine\<close>

lemma decoded_in_range:
  "decode U T ids = Inr bytes \<Longrightarrow> i \<in> set ids \<Longrightarrow> unat i < length (tk_id_to_token T)"
proof (induction ids arbitrary: bytes)
  case (Cons j ids)
  then show ?case
    by (auto simp: decode_def decode_token_def not_le split: sum.splits if_splits)
qed simp

lemma sample_decode_token:
  assumes "unat i < 258"
  shows "decode_token sample_unicode sample_tokenizer i = Inr (sample_strings ! unat i)" and
    "length (sample_strings ! unat i) \<le> 3"
proof -
  have len: "length sample_strings = 258" by (simp add: sample_strings_def)
  have "tk_token_to_id sample_tokenizer (spelling sample_unicode (sample_strings ! unat i)) = Some i"
    using sample_token_id [OF assms] assms len by (simp add: sample_tokens_def)
  moreover have member: "sample_strings ! unat i \<in> set sample_strings" using assms len by (intro nth_mem) simp
  moreover have "sample_strings ! unat i \<noteq> []" using member by (auto simp: sample_strings_def)
  ultimately show "decode_token sample_unicode sample_tokenizer i = Inr (sample_strings ! unat i)"
    using decode_token_spelled [OF sample_unicode_faithful sample_tokenizer_ok] by blast
  show "length (sample_strings ! unat i) \<le> 3" using member by (auto simp: sample_strings_def)
qed

lemma sample_decodable:
  assumes "\<forall>i \<in> set ids. unat i < 258"
  shows "\<exists>bytes. decode sample_unicode sample_tokenizer ids = Inr bytes"
proof -
  have "\<exists>texts. res_map (decode_token sample_unicode sample_tokenizer) ids = Inr texts"
    using assms sample_decode_token(1) by (induction ids) auto
  then show ?thesis by (auto simp: decode_def)
qed

lemma sample_decode_short:
  "decode sample_unicode sample_tokenizer ids = Inr bytes \<Longrightarrow> length bytes \<le> 3 * length ids"
proof (induction ids arbitrary: bytes)
  case Nil
  then show ?case by (simp add: decode_def)
next
  case (Cons i ids)
  then obtain b bs where parts: "decode_token sample_unicode sample_tokenizer i = Inr b"
    "decode sample_unicode sample_tokenizer ids = Inr bs" "bytes = b @ bs"
    by (auto simp: decode_def)
  have small: "unat i < 258"
    using parts(1) by (auto simp: decode_token_def sample_tokenizer_def sample_tokens_def sample_strings_def split: if_splits)
  have "length b \<le> 3" using sample_decode_token [OF small] parts(1) by auto
  then show ?case using Cons.IH [OF parts(2)] parts(3) by simp
qed

lemma sample_special_tokens: "tk_special_to_id sample_tokenizer \<noteq> []"
  by (simp add: sample_tokenizer_def)

lemma serving_engine_ok: "serving_ok no_environment sample_multi serving_engine"
proof -
  have "md_vocabulary_size serving_model = 258" by (simp add: serving_model_def)
  then have "engine_ok no_environment sample_multi serving_engine"
    using serving_prefill_ready serving_argmax(1) serving_head_ok serving_state
    by (simp add: engine_ok_def state_ok_def serving_engine_def default_strides context_copy_max_tokens_def calibration_path_def
        top2_oracle_enabled_def fresh_mtp_def sample_head_state_def SIZE_MAX_def)
  moreover have "decodable serving_engine"
    using sample_decodable \<open>md_vocabulary_size serving_model = 258\<close>
    by (simp add: decodable_def serving_engine_def in_vocabulary_def)
  moreover have "\<exists>chunk. request_prefill_chunk serving_engine prompt = Inr chunk \<and> chunk_ok serving_engine chunk" for prompt
    by (simp add: request_prefill_chunk_def serving_engine_def chunk_ok_def)
  ultimately show ?thesis unfolding serving_ok_def by blast
qed

definition sample_sampling :: SamplingOptions where
  "sample_sampling = \<lparr>so_temperature = 0, so_top_p = 1, so_top_k = 1, so_seed = 0, so_frequency_penalty = 0,
     so_thinking_budget_tokens = 0\<rparr>"

definition fresh_world :: "(u32, u32 list, u32 list, u32) engine_world" where
  "fresh_world = \<lparr>ew_prefix_cache = None, ew_bpe_cache = [], ew_calibration = rw_cal sample_world\<rparr>"

lemma sample_request_valid:
  "validate_request serving_engine 5 sample_sampling = Inr ()" "greedy_sampling sample_sampling"
  by (simp_all add: validate_request_def serving_engine_def sample_sampling_def greedy_sampling_def)

lemma decode_token_nonempty:
  assumes "decode_token U T i = Inr bytes"
  shows "bytes \<noteq> []"
proof
  assume "bytes = []"
  have nonempty: "codepoints_from U c s = Inr [] \<Longrightarrow> s = []" for c s
    by (rule ccontr) (subst (asm) codepoints_from.simps, auto simp: Let_def split: prod.splits if_splits)
  have empty: "res_map f cps = Inr [] \<Longrightarrow> cps = []" for f :: "Codepoint \<Rightarrow> char result" and cps
    by (cases cps) auto
  show False
    using assms \<open>bytes = []\<close>
    by (auto simp: decode_token_def codepoints_def split: if_splits dest!: empty dest: nonempty)
qed

lemma decode_length: "decode U T ids = Inr bytes \<Longrightarrow> length ids \<le> length bytes"
proof (induction ids arbitrary: bytes)
  case (Cons i ids)
  then obtain b bs where "decode_token U T i = Inr b" "decode U T ids = Inr bs" "bytes = b @ bs"
    by (auto simp: decode_def)
  then show ?case using Cons.IH decode_token_nonempty [of U T i b] by (cases b) fastforce+
qed simp

lemma sample_prompt:
  obtains tokens bpe' where
    "encode (ne_unicode serving_engine) (ne_tokenizer serving_engine) (ew_bpe_cache fresh_world) ''cabc'' True =
       Some (Inr tokens, bpe')" and "prompt_ok serving_engine tokens 5"
    and "2 \<le> length tokens"
proof -
  obtain ids cache' where e: "encode_loop sample_unicode sample_tokenizer [] ''cabc'' = Some (Inr ids, cache')"
    "decode sample_unicode sample_tokenizer ids = Inr ''cabc''"
    using encode_loop_round_trip [OF sample_unicode_faithful sample_tokenizer_ok sample_vocabulary_closed empty_cache_ok]
    by force
  have ne: "ids \<noteq> []" using e(2) by (auto simp: decode_def)
  have vocab: "in_vocabulary serving_model ids"
    using decoded_in_range [OF e(2)]
    by (simp add: in_vocabulary_def serving_model_def) (simp add: sample_tokenizer_def sample_tokens_def sample_strings_def)
  have "length ids \<le> 4" using decode_length [OF e(2)] by simp
  then have ok: "prompt_ok serving_engine ids 5"
    using ne vocab by (simp add: prompt_ok_def validate_prompt_def serving_engine_def Let_def)
  have "encode (ne_unicode serving_engine) (ne_tokenizer serving_engine) (ew_bpe_cache fresh_world) ''cabc'' True =
      Some (Inr ids, cache')"
    using e(1) by (simp add: encode_def serving_engine_def fresh_world_def sample_special_tokens)
  moreover have "2 \<le> length ids" using sample_decode_short [OF e(2)] by simp
  ultimately show thesis using that ok by blast
qed

lemma finish_keeps_entry:
  "finish_generation env E rq prompt g cache = (Inr res, deltas, cache') \<Longrightarrow> cache \<noteq> None \<Longrightarrow> cache' \<noteq> None"
  by (auto simp: finish_generation_def extend_prefix_cache_def record_profitability_def Let_def
      split: sum.splits prod.splits option.splits if_splits)

lemma complete_tokens_keeps_entry:
  assumes "complete_tokens env E on_delta prompt n sampling pp w = Some (Inr res, deltas, w')"
    and "ew_prefix_cache w \<noteq> None"
  shows "ew_prefix_cache w' \<noteq> None"
proof -
  obtain rq g where start: "setup_request env E on_delta prompt n sampling = Inr rq"
    "start_generation env E rq prompt pp (ew_calibration w) = Inr g"
    using assms(1) by (auto simp: complete_tokens_def split: sum.splits)
  note run = assms(1) [unfolded complete_tokens_def start res_bind.simps sum.case prod.case Let_def]
  obtain thinking bpe' where thinking: "thinking_tokens E sampling (ew_bpe_cache w) = Some (thinking, bpe')"
    using run by (auto simp: bind_eq_Some_conv)
  obtain close suffix_tokens where suffix: "thinking = Inr (close, suffix_tokens)"
    using run thinking by (cases thinking) auto
  let ?rq = "rq\<lparr>rq_thinking_close_tokens := close, rq_forced_thinking_suffix := suffix_tokens\<rparr>"
  obtain r g' where loop: "generation_loop env E ?rq g = (r, g')" by fastforce
  obtain cache' where "finish_generation env E ?rq prompt g' (ew_prefix_cache w) = (Inr res, deltas, cache')"
    "ew_prefix_cache w' = cache'"
    using run thinking suffix loop by (cases r) (auto split: prod.splits)
  then show ?thesis using finish_keeps_entry assms(2) by metis
qed

lemma sample_request_step:
  obtains w entry where "engine_step no_environment serving_engine fresh_world w" and "ew_prefix_cache w = Some entry"
proof -
  let ?E = serving_engine
  obtain tokens bpe' where enc: "encode (ne_unicode ?E) (ne_tokenizer ?E) (ew_bpe_cache fresh_world) ''cabc'' True =
      Some (Inr tokens, bpe')" and P: "prompt_ok ?E tokens 5" and long: "2 \<le> length tokens" by (rule sample_prompt)
  have cache: "cache_sound no_environment sample_multi ?E (ew_prefix_cache fresh_world)"
    by (simp add: fresh_world_def cache_sound_def)
  from complete_impl_ok [OF serving_engine_ok sample_request_valid(2) cache sample_request_valid(1) enc P]
  obtain res deltas w' where run: "complete_impl no_environment ?E None ''cabc'' 5 sample_sampling fresh_world =
      Some (Inr res, deltas, w')" by blast
  have step: "engine_step no_environment ?E fresh_world w'"
    using enc P by (intro engine_step.request [OF run sample_request_valid(2)]) (auto simp: prompt_ok_def)
  have "length tokens \<le> 64" using prompt_ok_bounds [OF P] by (simp add: serving_engine_def)
  then have "cache_prompt ?E tokens pp None \<noteq> Inr None" for pp
    using long by (simp add: cache_prompt_def serving_engine_def Let_def snapshot_state_def)
  then have "ew_prefix_cache w' \<noteq> None"
    using run enc sample_request_valid(1)
    by (auto simp: complete_impl_def Let_def fresh_world_def dest!: complete_tokens_keeps_entry split: sum.splits)
  then show thesis using that step by blast
qed

subsection \<open>Properties\<close>



text \<open>C10. A caller may stop listening at any point. Then too the request returns, its tokens are a beginning of
  what the target selects after the prompt and its own selections, without a stop token and within the
  limit; what the caller was sent is a beginning of the text of these tokens, and when the text is
  well-formed UTF-8 every fragment the caller was sent is well-formed by itself.\<close>

theorem cancelled_requests_stay_prefixes:
  assumes "serving_ok env K E" and "ew_prefix_cache w0 = None" and "(engine_step env E)\<^sup>*\<^sup>* w0 w"
    and "greedy_sampling sampling" and "validate_request E n sampling = Inr ()"
    and "encode (ne_unicode E) (ne_tokenizer E) (ew_bpe_cache w) prompt True = Some (Inr tokens, bpe')"
    and "prompt_ok E tokens n"
  shows "\<exists>res deltas w' rest_text.
    complete_impl env E on_delta prompt n sampling w = Some (Inr res, deltas, w') \<and>
    greedy_beginning env K E tokens n (gr_tokens res) \<and>
    decode (ne_unicode E) (ne_tokenizer E) (gr_tokens res) = Inr (gr_text res) \<and>
    gr_text res = concat deltas @ rest_text \<and>
    (utf8_text (gr_text res) \<longrightarrow> list_all utf8_text deltas)"
proof -
  have cache: "cache_sound env K E (ew_prefix_cache w)" using reachable_sound [OF assms(1-3)] .
  obtain res deltas w' where R: "complete_impl env E on_delta prompt n sampling w = Some (Inr res, deltas, w')"
    "answered env K E on_delta tokens n res deltas"
    using complete_impl_ok [OF assms(1,4) cache assms(5-7), of on_delta] by blast
  then show ?thesis unfolding answered_def delivered_text_def by blast
qed

theorem cancelled_requests_stay_prefixes_witness:
  "\<exists>tokens res deltas w' rest_text.
    complete_impl no_environment serving_engine (Some (\<lambda>deltas _. length deltas < 1)) ''cabc'' 5 sample_sampling
      fresh_world = Some (Inr res, deltas, w') \<and>
    greedy_beginning no_environment sample_multi serving_engine tokens 5 (gr_tokens res) \<and>
    gr_text res = concat deltas @ rest_text"
proof -
  let ?E = serving_engine
  obtain tokens bpe' where enc: "encode (ne_unicode ?E) (ne_tokenizer ?E) (ew_bpe_cache fresh_world) ''cabc'' True =
      Some (Inr tokens, bpe')" and P: "prompt_ok ?E tokens 5" by (rule sample_prompt)
  have fresh: "ew_prefix_cache fresh_world = None" by (simp add: fresh_world_def)
  show ?thesis
    using cancelled_requests_stay_prefixes [OF serving_engine_ok fresh rtranclp.rtrancl_refl sample_request_valid(2,1)
        enc P] by blast
qed

text \<open>C6. The prefix cache never lies: after any sequence of greedy requests, failed ones included, and
  cache clearings, a state that is cached under a list of tokens was reached from the fresh state by
  calls of the target that consumed exactly these tokens, each once and in order, with no token of a
  rejected draft among them.\<close>

theorem prefix_cache_stays_sound:
  assumes "serving_ok env K E" and "ew_prefix_cache w0 = None" and "(engine_step env E)\<^sup>*\<^sup>* w0 w"
    and "ew_prefix_cache w = Some entry"
  shows "\<exists>outs. target_run env K (ne_model E) (ne_make_state E) (pe_tokens entry) outs (pe_target_state entry)"
  using reachable_sound [OF assms(1-3)] assms(4) by (simp add: cache_sound_def entry_ok_def feeds_def)

theorem prefix_cache_stays_sound_witness:
  "\<exists>w entry outs. (engine_step no_environment serving_engine)\<^sup>*\<^sup>* fresh_world w \<and> ew_prefix_cache w = Some entry \<and>
    target_run no_environment sample_multi serving_model sample_state (pe_tokens entry) outs (pe_target_state entry)"
proof -
  obtain w entry where w: "engine_step no_environment serving_engine fresh_world w" "ew_prefix_cache w = Some entry"
    by (rule sample_request_step)
  then have run: "(engine_step no_environment serving_engine)\<^sup>*\<^sup>* fresh_world w" by blast
  have fresh: "ew_prefix_cache fresh_world = None" by (simp add: fresh_world_def)
  have "ne_model serving_engine = serving_model" "ne_make_state serving_engine = sample_state"
    by (simp_all add: serving_engine_def)
  then show ?thesis using prefix_cache_stays_sound [OF serving_engine_ok fresh run w(2)] run w(2) by auto
qed

end
