(* ===== verification/Engine_Batch.thy ===== *)
theory Engine_Batch
  imports Engine_Correctness Target_Multi
begin

text \<open>
  Continuous batching, \<open>NativeEngine::complete_batch\<close> of \<^verbatim>\<open>src/native_engine.cpp\<close>: up to four
  requests share the decode passes of the model, each with a session of its own; when a session
  ends, another request is taken in and its prompt is ingested between the decode passes.

  The callbacks \<open>on_complete\<close> and \<open>on_error\<close> of a request are the events of the model: the request,
  its result or exception, and the text fragments its caller was given before. \<open>br_id\<close> tells the
  requests apart. What \<open>refill\<close> answers is the list \<open>ba_refills\<close>, one element per call: the next
  request, or that none is waiting. The switch of the query-metadata cache and the clocks have no effect
  on what is computed and are left out.
\<close>

subsection \<open>Requests, events and sessions\<close>

record batch_request =
  br_id :: nat
  br_prompt :: string
  br_max_tokens :: nat
  br_on_delta :: "text_delta_callback option"
  br_sampling :: SamplingOptions

type_synonym batch_event = "batch_request \<times> GenerationResult result \<times> string list"

record ('s, 'ls, 'r) session =
  bs_request :: batch_request
  bs_prompt_tokens :: "u32 list"
  bs_state :: "'ls decode_state"
  bs_result :: GenerationResult
  bs_random :: 'r
  bs_current :: u32
  bs_stream :: stream_state
  bs_pending_prefill :: "'s prefill_chunk_state option"
  bs_prefill_offset :: nat
  bs_prefill_rows :: nat
  bs_prefill_chunk_rows :: nat
  bs_current_prefill_rows :: nat
  bs_active :: bool
  bs_ready :: bool
  bs_reserved_tokens :: nat

abbreviation bs_tokens :: "('s, 'ls, 'r) session \<Rightarrow> u32 list" where
  "bs_tokens s \<equiv> gr_tokens (bs_result s)"

record ('s, 'ls, 'r) batch =
  ba_sessions :: "('s, 'ls, 'r) session list"
  ba_deferred :: "batch_request list"
  ba_refills :: "batch_request option list"
  ba_events :: "batch_event list"
  ba_bpe_cache :: bpe_cache

subsection \<open>One request after the other\<close>

fun complete_each ::
    "environment \<Rightarrow> ('s, 'ls, 'hl, 'm, 'g, 'r) NativeEngine \<Rightarrow> batch_request list \<Rightarrow>
     ('s, 'ls, 'hl, 'm) engine_world \<Rightarrow> (batch_event list \<times> ('s, 'ls, 'hl, 'm) engine_world) option" where
  "complete_each env E [] w = Some ([], w)"
| "complete_each env E (rq # rqs) w =
     Option.bind (complete_impl env E (br_on_delta rq) (br_prompt rq) (br_max_tokens rq) (br_sampling rq) w)
       (\<lambda>(r, deltas, w1). Option.bind (complete_each env E rqs w1) (\<lambda>(events, w2).
         Some ((rq, r, deltas) # events, w2)))"

subsection \<open>Validation of a batch\<close>

definition invalid_sampling :: "SamplingOptions \<Rightarrow> bool" where
  "invalid_sampling s \<longleftrightarrow>
     so_temperature s < 0 \<or> so_top_p s \<le> 0 \<or> so_top_p s > 1 \<or> so_frequency_penalty s < 0 \<or>
     so_frequency_penalty s > 2 \<or> (so_temperature s > 0 \<and> (so_top_k s = 0 \<or> so_top_k s > 256))"

definition exceeds_context :: "('s, 'ls, 'hl, 'm, 'g, 'r) NativeEngine \<Rightarrow> u32 list \<Rightarrow> nat \<Rightarrow> bool" where
  "exceeds_context E tokens max_tokens \<longleftrightarrow>
     length tokens > ne_max_context_tokens E \<or> max_tokens > ne_max_context_tokens E - length tokens"

fun tokenize_batch ::
    "('s, 'ls, 'hl, 'm, 'g, 'r) NativeEngine \<Rightarrow> batch_request list \<Rightarrow> bpe_cache \<Rightarrow> nat \<Rightarrow>
     ((u32 list list \<times> nat) result \<times> bpe_cache) option" where
  "tokenize_batch E [] cache capacity = Some (Inr ([], capacity), cache)"
| "tokenize_batch E (rq # rqs) cache capacity =
     (if br_max_tokens rq = 0 \<or> br_max_tokens rq > op_max_generation_tokens (ne_options E) then
        Some (Inl (RuntimeError ''batched max_tokens is outside the configured limit''), cache)
      else if invalid_sampling (br_sampling rq) then
        Some (Inl (RuntimeError ''invalid sampling options in continuous decode batch''), cache)
      else Option.bind (encode (ne_unicode E) (ne_tokenizer E) cache (br_prompt rq) True) (\<lambda>(r, cache1).
        case r of
          Inl e \<Rightarrow> Some (Inl e, cache1)
        | Inr tokens \<Rightarrow>
            if tokens = [] then Some (Inl (RuntimeError ''prompt produced no tokens''), cache1)
            else if exceeds_context E tokens (br_max_tokens rq) then
              Some (Inl (RuntimeError ''batched prompt and max_tokens exceed model context''), cache1)
            else Option.bind (tokenize_batch E rqs cache1
                (sz_add capacity (sz_add (length tokens) (br_max_tokens rq)))) (\<lambda>(r, cache2).
              Some (res_bind r (\<lambda>(rest, capacity'). Inr (tokens # rest, capacity')), cache2))))"

definition batch_context_limit :: "environment \<Rightarrow> nat result" where
  "batch_context_limit env =
     (let message = RuntimeError ''QWEN38_BATCH_CONTEXT_TOKENS must be at least 4096'' in
      case env ''QWEN38_BATCH_CONTEXT_TOKENS'' of
        None \<Rightarrow> Inr 131072
      | Some configured \<Rightarrow>
          (case strtoul10 configured of
             None \<Rightarrow> Inl message
           | Some (parsed, rest) \<Rightarrow> if rest \<noteq> [] \<or> parsed < 4096 then Inl message else Inr parsed))"

subsection \<open>Starting a session\<close>

definition new_session ::
    "('s, 'ls, 'hl, 'm, 'g, 'r) NativeEngine \<Rightarrow> batch_request \<Rightarrow> u32 list \<Rightarrow> nat \<Rightarrow> ('s, 'ls, 'r) session" where
  "new_session E rq tokens chunk =
     \<lparr>bs_request = rq, bs_prompt_tokens = tokens, bs_state = ne_make_state E,
      bs_result = empty_result\<lparr>gr_prompt_tokens := length tokens\<rparr>,
      bs_random = ne_seed_random E (so_seed (br_sampling rq)), bs_current = last tokens, bs_stream = stream_start,
      bs_pending_prefill = None, bs_prefill_offset = 0, bs_prefill_rows = length tokens - 1,
      bs_prefill_chunk_rows = chunk, bs_current_prefill_rows = 0, bs_active = True, bs_ready = False,
      bs_reserved_tokens = sz_add (length tokens) (br_max_tokens rq)\<rparr>"

definition initialize_session ::
    "environment \<Rightarrow> ('s, 'ls, 'hl, 'm, 'g, 'r) NativeEngine \<Rightarrow> bool \<Rightarrow> batch_request \<Rightarrow> u32 list \<Rightarrow>
     ('s, 'ls, 'r) session result" where
  "initialize_session env E incremental_prefill rq tokens =
     res_bind (request_prefill_chunk E tokens) (\<lambda>chunk.
       let s = new_session E rq tokens chunk in
       if bs_prefill_rows s = 0 then Inr (s\<lparr>bs_ready := True\<rparr>)
       else if incremental_prefill then Inr s
       else case prefill_chunks_sequential env (ne_model E) (chunk_spans chunk (butlast tokens)) (bs_state s) of
         (Inl e, _) \<Rightarrow> Inl e
       | (Inr _, st) \<Rightarrow> Inr (s\<lparr>bs_state := st, bs_ready := True\<rparr>))"

fun initialize_all ::
    "environment \<Rightarrow> ('s, 'ls, 'hl, 'm, 'g, 'r) NativeEngine \<Rightarrow> (batch_request \<times> u32 list) list \<Rightarrow>
     ('s, 'ls, 'r) session list \<times> batch_event list" where
  "initialize_all env E [] = ([], [])"
| "initialize_all env E ((rq, tokens) # rest) =
     (case (initialize_session env E False rq tokens, initialize_all env E rest) of
        (Inl e, ss, events) \<Rightarrow> (ss, (rq, Inl e, []) # events)
      | (Inr s, ss, events) \<Rightarrow> (s # ss, events))"

subsection \<open>Ingesting a prompt between the decode passes\<close>

definition prefill_part :: "('s, 'ls, 'r) session \<Rightarrow> nat \<Rightarrow> u32 list" where
  "prefill_part s rows = take rows (drop (bs_prefill_offset s) (bs_prompt_tokens s))"

definition begin_pending_prefill ::
    "('s, 'ls, 'hl, 'm, 'g, 'r) NativeEngine \<Rightarrow> ('s, 'ls, 'r) session \<Rightarrow>
     (('s, 'ls, 'r) session \<times> 's prefill_chunk_state) result" where
  "begin_pending_prefill E s =
     (case bs_pending_prefill s of
        Some chunk \<Rightarrow> Inr (s, chunk)
      | None \<Rightarrow>
          let rows = min (bs_prefill_chunk_rows s) (bs_prefill_rows s - bs_prefill_offset s) in
          res_bind (begin_prefill_chunk_batch (ne_model E) (prefill_part s rows) (bs_state s)) (\<lambda>chunk.
            Inr (s\<lparr>bs_current_prefill_rows := rows\<rparr>, chunk)))"

definition advance_pending_prefill ::
    "environment \<Rightarrow> ('s, 'ls, 'hl, 'm, 'g, 'r) NativeEngine \<Rightarrow> ('s, 'ls, 'r) session \<Rightarrow>
     ('s, 'ls, 'r) session result" where
  "advance_pending_prefill env E s0 =
     (if bs_ready s0 then Inr s0
      else res_bind (begin_pending_prefill E s0) (\<lambda>(s, chunk).
        case advance_prefill_chunk_batch env (ne_model E) chunk (prefill_part s (bs_current_prefill_rows s))
            (bs_state s) of
          (Inl e, _, _) \<Rightarrow> Inl e
        | (Inr chunk_done, chunk', st) \<Rightarrow>
            let s1 = s\<lparr>bs_state := st, bs_pending_prefill := Some chunk'\<rparr>;
                s2 = (if chunk_done
                      then s1\<lparr>bs_prefill_offset := bs_prefill_offset s1 + bs_current_prefill_rows s1,
                             bs_current_prefill_rows := 0, bs_pending_prefill := None\<rparr>
                      else s1)
            in Inr (if bs_prefill_offset s2 = bs_prefill_rows s2 then s2\<lparr>bs_ready := True\<rparr> else s2)))"

subsection \<open>A decode pass\<close>

text \<open>The advanced states and the logits go back to the sessions that took part, in order.\<close>

fun install_states ::
    "('s, 'ls, 'r) session list \<Rightarrow> 'ls decode_state list \<Rightarrow> ('s, 'ls, 'r) session list" where
  "install_states (s # ss) (st # sts) =
     (if bs_ready s then s\<lparr>bs_state := st\<rparr> # install_states ss sts else s # install_states ss (st # sts))"
| "install_states ss _ = ss"

text \<open>Streaming a token; the second case has just disconnected the caller.\<close>

definition stream_token ::
    "('s, 'ls, 'hl, 'm, 'g, 'r) NativeEngine \<Rightarrow> u32 \<Rightarrow> ('s, 'ls, 'r) session \<Rightarrow> ('s, 'ls, 'r) session result" where
  "stream_token E token s =
     (case br_on_delta (bs_request s) of
        None \<Rightarrow> Inr s
      | Some callback \<Rightarrow>
          res_bind (decode (ne_unicode E) (ne_tokenizer E) [token]) (\<lambda>bytes.
            let ss = send_complete callback ((bs_stream s)\<lparr>
                  ss_pending_bytes := ss_pending_bytes (bs_stream s) @ bytes,
                  ss_streamed_tokens := length (bs_tokens s)\<rparr>);
                s1 = s\<lparr>bs_stream := ss\<rparr>
            in Inr (if ss_connected ss then s1
                    else s1\<lparr>bs_result := (bs_result s1)\<lparr>gr_finish_reason := ''cancelled''\<rparr>, bs_active := False\<rparr>)))"

definition deliver_row ::
    "('s, 'ls, 'hl, 'm, 'g, 'r) NativeEngine \<Rightarrow> ('s, 'g) target_decode_step \<Rightarrow> ('s, 'ls, 'r) session \<Rightarrow>
     ('s, 'ls, 'r) session result" where
  "deliver_row E step s =
     (case sample_token E (td_logits step) (br_sampling (bs_request s)) (bs_random s) (bs_tokens s) of
        (Inl e, _) \<Rightarrow> Inl e
      | (Inr next_token, random) \<Rightarrow>
          let s1 = s\<lparr>bs_random := random, bs_current := next_token\<rparr> in
          if is_stop_token E next_token then
            Inr (s1\<lparr>bs_result := (bs_result s1)\<lparr>gr_finish_reason := ''stop''\<rparr>, bs_active := False\<rparr>)
          else
            res_bind (stream_token E next_token
                (s1\<lparr>bs_result := (bs_result s1)\<lparr>gr_tokens := bs_tokens s1 @ [next_token]\<rparr>\<rparr>)) (\<lambda>s2.
              Inr (if bs_active s2 \<and> length (bs_tokens s2) = br_max_tokens (bs_request s2)
                   then s2\<lparr>bs_active := False\<rparr> else s2)))"

fun deliver_rows ::
    "('s, 'ls, 'hl, 'm, 'g, 'r) NativeEngine \<Rightarrow> ('s, 'ls, 'r) session list \<Rightarrow> ('s, 'g) target_decode_step list \<Rightarrow>
     unit result \<times> ('s, 'ls, 'r) session list" where
  "deliver_rows E (s # ss) (step # steps) =
     (if bs_ready s then
        (case deliver_row E step s of
           Inl e \<Rightarrow> (Inl e, s # ss)
         | Inr s' \<Rightarrow> (case deliver_rows E ss steps of (r, ss') \<Rightarrow> (r, s' # ss')))
      else (case deliver_rows E ss (step # steps) of (r, ss') \<Rightarrow> (r, s # ss')))"
| "deliver_rows E ss _ = (Inr (), ss)"

definition decode_pass ::
    "environment \<Rightarrow> ('s, 'ls, 'm) multi_kernels \<Rightarrow> ('s, 'ls, 'hl, 'm, 'g, 'r) NativeEngine \<Rightarrow>
     ('s, 'ls, 'r) session list \<Rightarrow> unit result \<times> ('s, 'ls, 'r) session list" where
  "decode_pass env K E sessions =
     (let rows = filter bs_ready sessions in
      if rows = [] then (Inr (), sessions)
      else case forward_decode_capture_multi env K (ne_model E) (map bs_current rows) (map bs_state rows) of
        (Inl e, _) \<Rightarrow> (Inl e, sessions)
      | (Inr steps, states) \<Rightarrow> deliver_rows E (install_states sessions states) steps)"

subsection \<open>Ending sessions and taking in requests\<close>

definition finish_session ::
    "('s, 'ls, 'hl, 'm, 'g, 'r) NativeEngine \<Rightarrow> ('s, 'ls, 'r) session \<Rightarrow> batch_event result \<times> ('s, 'ls, 'r) session" where
  "finish_session E s =
     (let (sent, ss) = (if gr_finish_reason (bs_result s) \<noteq> ''cancelled''
                        then flush_pending (br_on_delta (bs_request s)) (bs_stream s) else (True, bs_stream s));
          res = (if sent then bs_result s else (bs_result s)\<lparr>gr_finish_reason := ''cancelled''\<rparr>)
      in (res_bind (decode (ne_unicode E) (ne_tokenizer E) (gr_tokens res)) (\<lambda>bytes.
            Inr (bs_request s, Inr (res\<lparr>gr_text := bytes\<rparr>), ss_deltas ss)), s\<lparr>bs_stream := ss\<rparr>))"

text \<open>The events of the sessions that ended; after an exception the events before it stand.\<close>

fun finish_sessions ::
    "('s, 'ls, 'hl, 'm, 'g, 'r) NativeEngine \<Rightarrow> ('s, 'ls, 'r) session list \<Rightarrow>
     batch_event list \<times> unit result \<times> ('s, 'ls, 'r) session list" where
  "finish_sessions E [] = ([], Inr (), [])"
| "finish_sessions E (s # ss) =
     (if bs_active s then (case finish_sessions E ss of (events, r, ss') \<Rightarrow> (events, r, s # ss'))
      else case finish_session E s of
        (Inl e, s') \<Rightarrow> ([], Inl e, s' # ss)
      | (Inr event, s') \<Rightarrow> (case finish_sessions E ss of (events, r, ss') \<Rightarrow> (event # events, r, s' # ss')))"

definition live_capacity :: "('s, 'ls, 'r) session list \<Rightarrow> nat" where
  "live_capacity sessions = foldl sz_add 0 (map bs_reserved_tokens (filter bs_active sessions))"

text \<open>Why a request taken from the queue is refused, or its tokens.\<close>

definition admit_refill ::
    "('s, 'ls, 'hl, 'm, 'g, 'r) NativeEngine \<Rightarrow> batch_request \<Rightarrow> bpe_cache \<Rightarrow> (u32 list result \<times> bpe_cache) option" where
  "admit_refill E rq cache =
     (if br_max_tokens rq = 0 \<or> br_max_tokens rq > op_max_generation_tokens (ne_options E) then
        Some (Inl (RuntimeError ''refill max_tokens is outside the configured limit''), cache)
      else if invalid_sampling (br_sampling rq) then
        Some (Inl (RuntimeError ''invalid sampling options in batch refill''), cache)
      else Option.bind (encode (ne_unicode E) (ne_tokenizer E) cache (br_prompt rq) True) (\<lambda>(r, cache1).
        Some (res_bind r (\<lambda>tokens.
          if tokens = [] then Inl (RuntimeError ''prompt produced no tokens'')
          else if exceeds_context E tokens (br_max_tokens rq) then
            Inl (RuntimeError ''refill prompt and max_tokens exceed model context'')
          else Inr tokens), cache1)))"

text \<open>The loop over the calls of \<open>refill\<close>.\<close>

fun refill_loop ::
    "environment \<Rightarrow> ('s, 'ls, 'hl, 'm, 'g, 'r) NativeEngine \<Rightarrow> nat \<Rightarrow> batch_request option list \<Rightarrow> nat \<Rightarrow>
     ('s, 'ls, 'r) batch \<Rightarrow> ('s, 'ls, 'r) batch option" where
  "refill_loop env E aggregate_limit [] live b = Some (b\<lparr>ba_refills := []\<rparr>)"
| "refill_loop env E aggregate_limit (call # calls) live b =
     (if ba_sessions b = [] \<or> length (ba_sessions b) \<ge> 4 then Some (b\<lparr>ba_refills := call # calls\<rparr>)
      else case call of
        None \<Rightarrow> Some (b\<lparr>ba_refills := calls\<rparr>)
      | Some rq \<Rightarrow>
          Option.bind (admit_refill E rq (ba_bpe_cache b)) (\<lambda>(r, cache).
            let b1 = b\<lparr>ba_bpe_cache := cache\<rparr> in
            case r of
              Inl e \<Rightarrow> refill_loop env E aggregate_limit calls live
                (b1\<lparr>ba_events := ba_events b1 @ [(rq, Inl e, [])]\<rparr>)
            | Inr tokens \<Rightarrow>
                let capacity = sz_add (length tokens) (br_max_tokens rq) in
                if so_thinking_budget_tokens (br_sampling rq) \<noteq> 0 \<or> sz_add live capacity > aggregate_limit then
                  Some (b1\<lparr>ba_deferred := ba_deferred b1 @ [rq], ba_refills := calls\<rparr>)
                else case initialize_session env E True rq tokens of
                  Inl e \<Rightarrow> refill_loop env E aggregate_limit calls live
                    (b1\<lparr>ba_events := ba_events b1 @ [(rq, Inl e, [])]\<rparr>)
                | Inr s \<Rightarrow> refill_loop env E aggregate_limit calls (sz_add live capacity)
                    (b1\<lparr>ba_sessions := ba_sessions b1 @ [s]\<rparr>)))"

text \<open>The first session whose prompt is not ingested yet is advanced by one group of layers.\<close>

fun prefill_first ::
    "environment \<Rightarrow> ('s, 'ls, 'hl, 'm, 'g, 'r) NativeEngine \<Rightarrow> ('s, 'ls, 'r) session list \<Rightarrow>
     ('s, 'ls, 'r) session list \<times> batch_event list" where
  "prefill_first env E [] = ([], [])"
| "prefill_first env E (s # ss) =
     (if bs_active s \<and> \<not> bs_ready s then
        (case advance_pending_prefill env E s of
           Inl e \<Rightarrow> (ss, [(bs_request s, Inl e, ss_deltas (bs_stream s))])
         | Inr s' \<Rightarrow> (s' # ss, []))
      else case prefill_first env E ss of (ss', events) \<Rightarrow> (s # ss', events))"

subsection \<open>The loop\<close>

text \<open>One turn; \<open>Inl\<close> is an exception that reaches the outer handler.\<close>

definition batch_turn ::
    "environment \<Rightarrow> ('s, 'ls, 'm) multi_kernels \<Rightarrow> ('s, 'ls, 'hl, 'm, 'g, 'r) NativeEngine \<Rightarrow> nat \<Rightarrow>
     ('s, 'ls, 'r) batch \<Rightarrow> (unit result \<times> ('s, 'ls, 'r) batch) option" where
  "batch_turn env K E aggregate_limit b =
     (case decode_pass env K E (ba_sessions b) of
        (Inl e, sessions) \<Rightarrow> Some (Inl e, b\<lparr>ba_sessions := sessions\<rparr>)
      | (Inr _, sessions) \<Rightarrow>
          (case finish_sessions E sessions of
             (events, Inl e, sessions') \<Rightarrow>
               Some (Inl e, b\<lparr>ba_sessions := sessions', ba_events := ba_events b @ events\<rparr>)
           | (events, Inr _, sessions') \<Rightarrow>
               Option.bind (refill_loop env E aggregate_limit (ba_refills b) (live_capacity sessions')
                   (b\<lparr>ba_sessions := filter bs_active sessions', ba_events := ba_events b @ events\<rparr>)) (\<lambda>b1.
                 case prefill_first env E (ba_sessions b1) of
                   (sessions'', failed) \<Rightarrow>
                     Some (Inr (), b1\<lparr>ba_sessions := sessions'', ba_events := ba_events b1 @ failed\<rparr>))))"

partial_function (option) batch_loop ::
    "environment \<Rightarrow> ('s, 'ls, 'm) multi_kernels \<Rightarrow> ('s, 'ls, 'hl, 'm, 'g, 'r) NativeEngine \<Rightarrow> nat \<Rightarrow>
     ('s, 'ls, 'r) batch \<Rightarrow> (unit result \<times> ('s, 'ls, 'r) batch) option" where
  "batch_loop env K E aggregate_limit b =
     (if ba_sessions b = [] then Some (Inr (), b)
      else Option.bind (batch_turn env K E aggregate_limit b) (\<lambda>(r, b').
        case r of Inl e \<Rightarrow> Some (Inl e, b') | Inr _ \<Rightarrow> batch_loop env K E aggregate_limit b'))"

text \<open>The outer handler reports to every session and to every deferred request.\<close>

definition fail_batch :: "error \<Rightarrow> ('s, 'ls, 'r) batch \<Rightarrow> batch_event list" where
  "fail_batch e b =
     ba_events b @ map (\<lambda>s. (bs_request s, Inl e, ss_deltas (bs_stream s))) (ba_sessions b) @
     map (\<lambda>rq. (rq, Inl e, [])) (ba_deferred b)"

definition run_sessions ::
    "environment \<Rightarrow> ('s, 'ls, 'm) multi_kernels \<Rightarrow> ('s, 'ls, 'hl, 'm, 'g, 'r) NativeEngine \<Rightarrow> nat \<Rightarrow>
     batch_request option list \<Rightarrow> (batch_request \<times> u32 list) list \<Rightarrow> ('s, 'ls, 'hl, 'm) engine_world \<Rightarrow>
     (batch_event list \<times> batch_request option list \<times> ('s, 'ls, 'hl, 'm) engine_world) option" where
  "run_sessions env K E aggregate_limit refills requests w =
     (case initialize_all env E requests of
        (sessions, failed) \<Rightarrow>
          Option.bind (batch_loop env K E aggregate_limit \<lparr>ba_sessions = sessions, ba_deferred = [],
              ba_refills = refills, ba_events = failed, ba_bpe_cache = ew_bpe_cache w\<rparr>) (\<lambda>(r, b).
            let w1 = w\<lparr>ew_prefix_cache := None, ew_bpe_cache := ba_bpe_cache b\<rparr> in
            case r of
              Inl e \<Rightarrow> Some (fail_batch e b, ba_refills b, w1)
            | Inr _ \<Rightarrow> Option.bind (complete_each env E (ba_deferred b) w1) (\<lambda>(events, w2).
                Some (ba_events b @ events, ba_refills b, w2))))"

definition complete_batch ::
    "environment \<Rightarrow> ('s, 'ls, 'm) multi_kernels \<Rightarrow> ('s, 'ls, 'hl, 'm, 'g, 'r) NativeEngine \<Rightarrow>
     batch_request option list \<Rightarrow> batch_request list \<Rightarrow> ('s, 'ls, 'hl, 'm) engine_world \<Rightarrow>
     (unit result \<times> batch_event list \<times> batch_request option list \<times> ('s, 'ls, 'hl, 'm) engine_world) option" where
  "complete_batch env K E refills requests w =
     (if requests = [] \<or> length requests > 4 then
        Some (Inl (RuntimeError ''continuous decode batch must contain 1 to 4 requests''), [], refills, w)
      else if length requests = 1 \<or> (\<exists>rq \<in> set requests. so_thinking_budget_tokens (br_sampling rq) \<noteq> 0) then
        Option.bind (complete_each env E requests w) (\<lambda>(events, w1). Some (Inr (), events, refills, w1))
      else Option.bind (tokenize_batch E requests (ew_bpe_cache w) 0) (\<lambda>(r, cache).
        let w1 = w\<lparr>ew_bpe_cache := cache\<rparr> in
        case res_bind r (\<lambda>(tokens, capacity). res_bind (batch_context_limit env) (\<lambda>limit.
            Inr (tokens, capacity, limit))) of
          Inl e \<Rightarrow> Some (Inl e, [], refills, w1)
        | Inr (tokens, capacity, limit) \<Rightarrow>
            if capacity > limit then
              Option.bind (complete_each env E requests w1) (\<lambda>(events, w2). Some (Inr (), events, refills, w2))
            else
              Option.bind (run_sessions env K E limit refills (zip requests tokens) w1) (\<lambda>(events, refills', w2).
                Some (Inr (), events, refills', w2))))"

end
