(* ===== verification/Batch_Correctness.thy ===== *)
theory Batch_Correctness
  imports Engine_Batch "HOL-Library.Multiset"
begin

text \<open>
  Continuous batching answers every request with what the target selects after exactly that request's
  prompt and its own earlier tokens, never after another session's.
\<close>

subsection \<open>Answers\<close>

definition tokenized :: "('s, 'ls, 'hl, 'm, 'g, 'r) NativeEngine \<Rightarrow> batch_request \<Rightarrow> u32 list \<Rightarrow> bool" where
  "tokenized E rq tokens \<longleftrightarrow>
     (\<exists>cache cache'. encode (ne_unicode E) (ne_tokenizer E) cache (br_prompt rq) True = Some (Inr tokens, cache'))"

text \<open>A request is refused for its options, because its text cannot be encoded, or for its length.\<close>

definition refused :: "('s, 'ls, 'hl, 'm, 'g, 'r) NativeEngine \<Rightarrow> batch_request \<Rightarrow> bool" where
  "refused E rq \<longleftrightarrow>
     validate_request E (br_max_tokens rq) (br_sampling rq) \<noteq> Inr () \<or>
     (\<exists>cache r cache'. encode (ne_unicode E) (ne_tokenizer E) cache (br_prompt rq) True = Some (r, cache') \<and>
        (\<forall>tokens. r = Inr tokens \<longrightarrow> validate_prompt E tokens (br_max_tokens rq) \<noteq> Inr ()))"

definition event_ok ::
    "environment \<Rightarrow> ('s, 'ls, 'm) multi_kernels \<Rightarrow> ('s, 'ls, 'hl, 'm, 'g, 'r) NativeEngine \<Rightarrow> batch_event \<Rightarrow> bool" where
  "event_ok env K E event \<longleftrightarrow>
     (case event of (rq, r, deltas) \<Rightarrow>
        (case r of
           Inl e \<Rightarrow> refused E rq \<and> deltas = []
         | Inr res \<Rightarrow> \<exists>tokens. tokenized E rq tokens \<and>
             answered env K E (br_on_delta rq) tokens (br_max_tokens rq) res deltas))"

definition batch_engine_ok ::
    "environment \<Rightarrow> ('s, 'ls, 'm) multi_kernels \<Rightarrow> ('s, 'ls, 'hl, 'm, 'g, 'r) NativeEngine \<Rightarrow> bool" where
  "batch_engine_ok env K E \<longleftrightarrow>
     serving_ok env K E \<and>
     (\<forall>cache text. \<exists>r cache'. encode (ne_unicode E) (ne_tokenizer E) cache text True = Some (r, cache') \<and>
        (\<forall>tokens. r = Inr tokens \<longrightarrow> in_vocabulary (ne_model E) tokens))"

lemma batch_engine_parts:
  assumes "batch_engine_ok env K E"
  shows "serving_ok env K E" "engine_ok env K E" "decodable E"
    "\<exists>d. decode_barrier_stride env = Inr d" "prefill_ready env K (ne_model E) (ne_make_state E)"
  using assms by (auto simp: batch_engine_ok_def serving_ok_def engine_ok_def prefill_ready_def)

lemma batch_encode:
  assumes "batch_engine_ok env K E"
  obtains r cache' where "encode (ne_unicode E) (ne_tokenizer E) cache bytes True = Some (r, cache')"
    and "\<And>tokens. r = Inr tokens \<Longrightarrow> in_vocabulary (ne_model E) tokens"
proof -
  have "\<forall>cache text. \<exists>r cache'. encode (ne_unicode E) (ne_tokenizer E) cache text True = Some (r, cache') \<and>
      (\<forall>tokens. r = Inr tokens \<longrightarrow> in_vocabulary (ne_model E) tokens)"
    using assms by (simp add: batch_engine_ok_def)
  then obtain r cache' where "encode (ne_unicode E) (ne_tokenizer E) cache bytes True = Some (r, cache')"
    "\<forall>tokens. r = Inr tokens \<longrightarrow> in_vocabulary (ne_model E) tokens" by blast
  then show thesis using that by blast
qed

lemma validate_request_iff:
  "validate_request E n s = Inr () \<longleftrightarrow>
     n \<noteq> 0 \<and> n \<le> op_max_generation_tokens (ne_options E) \<and> \<not> invalid_sampling s"
  by (auto simp: validate_request_def invalid_sampling_def)

lemma validate_prompt_iff: "validate_prompt E tokens n = Inr () \<longleftrightarrow> tokens \<noteq> [] \<and> \<not> exceeds_context E tokens n"
  by (auto simp: validate_prompt_def exceeds_context_def Let_def)

subsection \<open>One request after the other\<close>

lemma complete_impl_event:
  assumes ok: "batch_engine_ok env K E" and greedy: "greedy_sampling (br_sampling rq)"
    and cache: "cache_sound env K E (ew_prefix_cache w)"
  shows "\<exists>r deltas w'. complete_impl env E (br_on_delta rq) (br_prompt rq) (br_max_tokens rq) (br_sampling rq) w =
      Some (r, deltas, w') \<and> event_ok env K E (rq, r, deltas) \<and> cache_sound env K E (ew_prefix_cache w')"
proof (cases "validate_request E (br_max_tokens rq) (br_sampling rq)")
  case (Inl e)
  then show ?thesis using cache by (simp add: complete_impl_def event_ok_def refused_def)
next
  case (Inr u)
  obtain r bpe' where enc: "encode (ne_unicode E) (ne_tokenizer E) (ew_bpe_cache w) (br_prompt rq) True = Some (r, bpe')"
    "\<And>tokens. r = Inr tokens \<Longrightarrow> in_vocabulary (ne_model E) tokens" 
    by (rule batch_encode [OF ok, where cache = "ew_bpe_cache w" and bytes = "br_prompt rq"]) blast
  show ?thesis
  proof (cases "\<exists>tokens. r = Inr tokens \<and> validate_prompt E tokens (br_max_tokens rq) = Inr ()")
    case True
    then obtain tokens where tokens: "r = Inr tokens" "validate_prompt E tokens (br_max_tokens rq) = Inr ()" by blast
    then have P: "prompt_ok E tokens (br_max_tokens rq)" using enc(2) by (simp add: prompt_ok_def)
    have valid: "validate_request E (br_max_tokens rq) (br_sampling rq) = Inr ()" using Inr by simp
    from complete_impl_ok [OF batch_engine_parts(1) [OF ok] greedy cache valid enc(1) [unfolded tokens(1)] P,
        of "br_on_delta rq"]
    obtain res deltas w' where "complete_impl env E (br_on_delta rq) (br_prompt rq) (br_max_tokens rq) (br_sampling rq) w =
        Some (Inr res, deltas, w')" "cache_sound env K E (ew_prefix_cache w')"
        "answered env K E (br_on_delta rq) tokens (br_max_tokens rq) res deltas" by blast
    moreover have "tokenized E rq tokens" using enc(1) tokens(1) by (auto simp: tokenized_def)
    ultimately show ?thesis by (auto simp: event_ok_def)
  next
    case False
    have "refused E rq" unfolding refused_def using enc(1) False by blast
    moreover have "\<exists>e w'. complete_impl env E (br_on_delta rq) (br_prompt rq) (br_max_tokens rq) (br_sampling rq) w =
        Some (Inl e, [], w') \<and> ew_prefix_cache w' = ew_prefix_cache w"
    proof (cases r)
      case (Inl e)
      then show ?thesis using Inr enc(1) by (simp add: complete_impl_def Let_def)
    next
      case tokens: (Inr tokens)
      then obtain e where "validate_prompt E tokens (br_max_tokens rq) = Inl e"
        using False by (cases "validate_prompt E tokens (br_max_tokens rq)") auto
      then show ?thesis using Inr enc(1) tokens by (simp add: complete_impl_def Let_def)
    qed
    ultimately show ?thesis using cache by (auto simp: event_ok_def)
  qed
qed

lemma complete_each_ok:
  assumes ok: "batch_engine_ok env K E"
  shows "\<forall>rq \<in> set rqs. greedy_sampling (br_sampling rq) \<Longrightarrow> cache_sound env K E (ew_prefix_cache w) \<Longrightarrow>
    \<exists>events w'. complete_each env E rqs w = Some (events, w') \<and> map fst events = rqs \<and>
      list_all (event_ok env K E) events \<and> cache_sound env K E (ew_prefix_cache w')"
proof (induction rqs arbitrary: w)
  case Nil
  then show ?case by simp
next
  case (Cons rq rqs)
  obtain r deltas w1 where one: "complete_impl env E (br_on_delta rq) (br_prompt rq) (br_max_tokens rq) (br_sampling rq) w =
      Some (r, deltas, w1)" "event_ok env K E (rq, r, deltas)" "cache_sound env K E (ew_prefix_cache w1)"
    using complete_impl_event [OF ok _ Cons.prems(2), of rq] Cons.prems(1) by auto
  from Cons.IH [OF _ one(3)] Cons.prems obtain events w' where
    "complete_each env E rqs w1 = Some (events, w')" "map fst events = rqs"
    "list_all (event_ok env K E) events" "cache_sound env K E (ew_prefix_cache w')" by auto
  then show ?case using one by simp
qed

subsection \<open>Sessions\<close>

definition stream_view :: "text_delta_callback option \<Rightarrow> request" where
  "stream_view cb = undefined\<lparr>rq_on_delta := cb\<rparr>"

lemma stream_view_on_delta [simp]: "rq_on_delta (stream_view cb) = cb"
  by (simp add: stream_view_def)

abbreviation session_max :: "('s, 'ls, 'r) session \<Rightarrow> nat" where
  "session_max s \<equiv> br_max_tokens (bs_request s)"

definition session_base ::
    "('s, 'ls, 'hl, 'm, 'g, 'r) NativeEngine \<Rightarrow> ('s, 'ls, 'r) session \<Rightarrow> bool" where
  "session_base E s \<longleftrightarrow>
     tokenized E (bs_request s) (bs_prompt_tokens s) \<and> prompt_ok E (bs_prompt_tokens s) (session_max s) \<and>
     0 < session_max s \<and> greedy_sampling (br_sampling (bs_request s)) \<and>
     in_vocabulary (ne_model E) (bs_tokens s) \<and>
     stream_ok E (stream_view (br_on_delta (bs_request s))) (bs_tokens s) (bs_stream s)"

text \<open>
  The state of a ready session has consumed its prompt and its tokens, and nothing of any other
  session; the tokens are what the target selected on the way, the last one is fed next.
\<close>

definition session_decodes ::
    "environment \<Rightarrow> ('s, 'ls, 'm) multi_kernels \<Rightarrow> ('s, 'ls, 'hl, 'm, 'g, 'r) NativeEngine \<Rightarrow> ('s, 'ls, 'r) session \<Rightarrow> bool" where
  "session_decodes env K E s \<longleftrightarrow>
     greedy_reply env K E (bs_prompt_tokens s) (bs_tokens s) (bs_state s) \<and>
     bs_current s = last (bs_prompt_tokens s @ bs_tokens s) \<and> (\<forall>t \<in> set (bs_tokens s). \<not> is_stop_token E t)"

definition session_ingests ::
    "environment \<Rightarrow> ('s, 'ls, 'm) multi_kernels \<Rightarrow> ('s, 'ls, 'hl, 'm, 'g, 'r) NativeEngine \<Rightarrow> ('s, 'ls, 'r) session \<Rightarrow> bool" where
  "session_ingests env K E s \<longleftrightarrow>
     bs_tokens s = [] \<and> bs_current s = last (bs_prompt_tokens s) \<and>
     bs_prefill_rows s = length (bs_prompt_tokens s) - 1 \<and> bs_prefill_offset s < bs_prefill_rows s \<and>
     0 < bs_prefill_chunk_rows s \<and> bs_prefill_chunk_rows s \<le> 2048 \<and>
     (case bs_pending_prefill s of
        None \<Rightarrow> feeds env K (ne_model E) (take (bs_prefill_offset s) (bs_prompt_tokens s)) (ne_make_state E) (bs_state s)
      | Some chunk \<Rightarrow>
          0 < bs_current_prefill_rows s \<and> bs_prefill_offset s + bs_current_prefill_rows s \<le> bs_prefill_rows s \<and>
          (\<exists>batch st. prefill_loop env (ne_model E) (prefill_part s (bs_current_prefill_rows s)) chunk (bs_state s) =
             (Inr batch, st) \<and>
             feeds env K (ne_model E) (take (bs_prefill_offset s + bs_current_prefill_rows s) (bs_prompt_tokens s))
               (ne_make_state E) st))"

definition session_live ::
    "environment \<Rightarrow> ('s, 'ls, 'm) multi_kernels \<Rightarrow> ('s, 'ls, 'hl, 'm, 'g, 'r) NativeEngine \<Rightarrow> ('s, 'ls, 'r) session \<Rightarrow> bool" where
  "session_live env K E s \<longleftrightarrow>
     session_base E s \<and> bs_active s \<and> gr_finish_reason (bs_result s) = ''length'' \<and>
     length (bs_tokens s) < session_max s \<and> ss_connected (bs_stream s) \<and>
     (if bs_ready s then session_decodes env K E s else session_ingests env K E s)"

definition session_done ::
    "environment \<Rightarrow> ('s, 'ls, 'm) multi_kernels \<Rightarrow> ('s, 'ls, 'hl, 'm, 'g, 'r) NativeEngine \<Rightarrow> ('s, 'ls, 'r) session \<Rightarrow> bool" where
  "session_done env K E s \<longleftrightarrow>
     session_base E s \<and> \<not> bs_active s \<and>
     (ss_connected (bs_stream s) \<longleftrightarrow> gr_finish_reason (bs_result s) \<noteq> ''cancelled'') \<and>
     greedy_beginning env K E (bs_prompt_tokens s) (session_max s) (bs_tokens s) \<and>
     (gr_finish_reason (bs_result s) \<noteq> ''cancelled'' \<longrightarrow>
        greedy_answer env K E (bs_prompt_tokens s) (session_max s) (bs_tokens s) (gr_finish_reason (bs_result s)))"

subsection \<open>A decode pass\<close>

lemma emit_new_tokens_ok:
  assumes "decodable E" and "in_vocabulary (ne_model E) (ts @ [t])" and "stream_ok E rq ts ss"
  shows "\<exists>sent ss'. emit_new_tokens (decode (ne_unicode E) (ne_tokenizer E)) (rq_on_delta rq) (ts @ [t]) ss =
    (Inr sent, ss') \<and> stream_ok E rq (ts @ [t]) ss'"
proof -
  let ?g = "(undefined :: ('a, 'b, 'c, 'd, 'f) generation)\<lparr>gn_stream := ss,
    gn_result := empty_result\<lparr>gr_tokens := ts @ [t]\<rparr>\<rparr>"
  have "gn_tokens ?g = ts @ [t]" "gn_stream ?g = ss" by simp_all
  with emit_tokens_ok [OF assms(1,2), of ?g rq] assms(3) obtain sent ss' where
    "emit_tokens E rq ?g = (Inr sent, ?g\<lparr>gn_stream := ss'\<rparr>)" "stream_ok E rq (ts @ [t]) ss'" by auto
  moreover obtain r ss'' where "emit_new_tokens (decode (ne_unicode E) (ne_tokenizer E)) (rq_on_delta rq) (ts @ [t]) ss =
      (r, ss'')" by fastforce
  ultimately show ?thesis by (auto simp: emit_tokens_def dest!: arg_cong [where f = gn_stream])
qed

lemma stream_token_ok:
  assumes dec: "decodable E" and vocab: "in_vocabulary (ne_model E) (ts @ [t])"
    and stream: "stream_ok E (stream_view (br_on_delta (bs_request s))) ts (bs_stream s)"
    and live: "ss_connected (bs_stream s)" and tokens: "bs_tokens s = ts @ [t]"
  shows "\<exists>ss. stream_ok E (stream_view (br_on_delta (bs_request s))) (ts @ [t]) ss \<and>
    stream_token E t s = Inr (if ss_connected ss then s\<lparr>bs_stream := ss\<rparr>
      else s\<lparr>bs_stream := ss, bs_result := (bs_result s)\<lparr>gr_finish_reason := ''cancelled''\<rparr>, bs_active := False\<rparr>)"
proof (cases "br_on_delta (bs_request s)")
  case None
  then have "bs_stream s = stream_start" using stream by (simp add: stream_ok_def)
  moreover have "stream_ok E (stream_view None) (ts @ [t]) stream_start"
    using stream None \<open>bs_stream s = stream_start\<close> tokenizer_decoder.stream_inv_push
    by (auto simp: stream_ok_def accepting_def)
  ultimately show ?thesis using None live by (intro exI [of _ "bs_stream s"]) (simp add: stream_token_def)
next
  case (Some callback)
  have streamed: "ss_streamed_tokens (bs_stream s) = length ts" using stream Some live by (simp add: stream_ok_def)
  have "in_vocabulary (ne_model E) [t]" using vocab by (simp add: in_vocabulary_def)
  then obtain bytes where bytes: "decode (ne_unicode E) (ne_tokenizer E) [t] = Inr bytes"
    using dec unfolding decodable_def by blast
  let ?ss = "send_complete callback ((bs_stream s)\<lparr>ss_pending_bytes := ss_pending_bytes (bs_stream s) @ bytes,
    ss_streamed_tokens := length (ts @ [t])\<rparr>)"
  have emit: "emit_new_tokens (decode (ne_unicode E) (ne_tokenizer E)) (Some callback) (ts @ [t]) (bs_stream s) =
      (Inr (ss_connected ?ss), ?ss)"
    using live streamed bytes by (simp add: emit_new_tokens_def Let_def)
  have "stream_ok E (stream_view (Some callback)) (ts @ [t]) ?ss"
    using emit_new_tokens_ok [OF dec vocab stream] emit unfolding Some stream_view_on_delta by (metis prod.inject)
  then show ?thesis
    using Some bytes tokens by (intro exI [of _ ?ss]) (simp add: stream_token_def Let_def)
qed

lemma deliver_row_ok:
  assumes ok: "batch_engine_ok env K E" and live: "session_live env K E s" "bs_ready s"
    and step: "continuation env K (ne_model E) (bs_current s) [md_argmax (ne_model E) (td_logits step)] (bs_state s) st'"
  shows "\<exists>s'. deliver_row E step (s\<lparr>bs_state := st'\<rparr>) = Inr s' \<and> bs_request s' = bs_request s \<and> bs_ready s' \<and>
    (if bs_active s' then session_live env K E s' \<and> length (bs_tokens s') = Suc (length (bs_tokens s))
     else session_done env K E s')"
proof -
  let ?M = "ne_model E" and ?t = "md_argmax (ne_model E) (td_logits step)" and ?n = "session_max s"
    and ?ts = "bs_tokens s" and ?s = "s\<lparr>bs_state := st'\<rparr>" and ?P = "bs_prompt_tokens s"
  have base: "session_base E s" and act: "bs_active s" "gr_finish_reason (bs_result s) = ''length''"
    "length ?ts < ?n" "ss_connected (bs_stream s)" and decodes: "session_decodes env K E s"
    using live by (simp_all add: session_live_def)
  note D = decodes [unfolded session_decodes_def]
  have ne: "?P \<noteq> []" using base prompt_ok_bounds by (auto simp: session_base_def)
  have tv: "unat ?t < md_vocabulary_size ?M" using batch_engine_parts(2) [OF ok] by (simp add: engine_ok_def)
  have reply: "greedy_reply env K E ?P (?ts @ [?t]) st'"
    using greedy_reply_append [OF _ ne, of env K E ?ts "bs_state s" "[?t]" st'] D step by simp
  have sample: "sample_token E (td_logits step) (br_sampling (bs_request ?s)) (bs_random ?s) (bs_tokens ?s) =
      (Inr ?t, bs_random s)"
    using base by (simp add: session_base_def greedy_sampling_def sample_token_def)
  show ?thesis
  proof (cases "is_stop_token E ?t")
    case True
    let ?r = "s\<lparr>bs_state := st', bs_current := ?t,
      bs_result := (bs_result s)\<lparr>gr_finish_reason := ''stop''\<rparr>, bs_active := False\<rparr>"
    have run: "deliver_row E step ?s = Inr ?r"
      unfolding deliver_row_def sample using True by (simp add: Let_def)
    have "greedy_beginning env K E ?P ?n ?ts"
      unfolding greedy_beginning_def using reply D act(3) less_imp_le by blast
    moreover have "greedy_answer env K E ?P ?n ?ts ''stop''"
      unfolding greedy_answer_def using reply D act(3) True
      by (intro conjI exI [of _ "[?t]"] exI [of _ st']) simp_all
    ultimately have "session_done env K E ?r"
      using base act by (simp add: session_done_def session_base_def)
    then show ?thesis using run live(2) by (intro exI [of _ ?r]) simp
  next
    case False
    have vocab: "in_vocabulary ?M (?ts @ [?t])" using base tv by (simp add: session_base_def in_vocabulary_def)
    let ?s1 = "s\<lparr>bs_state := st', bs_current := ?t, bs_result := (bs_result s)\<lparr>gr_tokens := ?ts @ [?t]\<rparr>\<rparr>"
    have "stream_ok E (stream_view (br_on_delta (bs_request ?s1))) ?ts (bs_stream ?s1)" "ss_connected (bs_stream ?s1)"
      "bs_tokens ?s1 = ?ts @ [?t]" using base act(4) by (simp_all add: session_base_def)
    from stream_token_ok [OF batch_engine_parts(3) [OF ok] vocab this] obtain ss where
      ss: "stream_ok E (stream_view (br_on_delta (bs_request s))) (?ts @ [?t]) ss"
      "stream_token E ?t ?s1 = Inr (if ss_connected ss then ?s1\<lparr>bs_stream := ss\<rparr>
        else ?s1\<lparr>bs_stream := ss, bs_result := (bs_result ?s1)\<lparr>gr_finish_reason := ''cancelled''\<rparr>, bs_active := False\<rparr>)"
      by auto
    let ?s2 = "if ss_connected ss then ?s1\<lparr>bs_stream := ss\<rparr>
        else ?s1\<lparr>bs_stream := ss, bs_result := (bs_result ?s1)\<lparr>gr_finish_reason := ''cancelled''\<rparr>, bs_active := False\<rparr>"
    let ?r = "if bs_active ?s2 \<and> length (bs_tokens ?s2) = br_max_tokens (bs_request ?s2)
      then ?s2\<lparr>bs_active := False\<rparr> else ?s2"
    have run: "deliver_row E step ?s = Inr ?r"
      unfolding deliver_row_def sample using False ss(2) by (simp add: Let_def)
    have free: "\<forall>t \<in> set (?ts @ [?t]). \<not> is_stop_token E t" using D False by simp
    have le: "length (?ts @ [?t]) \<le> ?n" using act(3) by simp
    have "greedy_reply env K E ?P ((?ts @ [?t]) @ []) st'" using reply by simp
    then have beginning: "greedy_beginning env K E ?P ?n (?ts @ [?t])"
      unfolding greedy_beginning_def using free le by blast
    have base': "session_base E ?r"
      using base ss(1) vocab by (simp add: session_base_def)
    consider (gone) "\<not> ss_connected ss" | (full) "ss_connected ss" "length (?ts @ [?t]) = ?n"
      | (more) "ss_connected ss" "length (?ts @ [?t]) < ?n" using le by linarith
    then show ?thesis
    proof cases
      case gone
      have "session_done env K E ?r"
        using base' gone beginning unfolding session_done_def by simp
      then show ?thesis using run live(2) gone by (intro exI [of _ ?r]) simp
    next
      case full
      have "greedy_answer env K E ?P ?n (?ts @ [?t]) ''length''"
        unfolding greedy_answer_def using reply free full(2)
        by (intro conjI exI [of _ "[]"] exI [of _ st']) simp_all
      then have "session_done env K E ?r"
        using base' full beginning act(1,2) unfolding session_done_def by simp
      then show ?thesis using run live(2) full act(1) by (intro exI [of _ ?r]) simp
    next
      case more
      have "session_decodes env K E ?r"
        using more reply free by (simp add: session_decodes_def)
      then have "session_live env K E ?r"
        using base' more act(1,2) live(2) by (simp add: session_live_def)
      then show ?thesis using run live(2) more act(1) by (intro exI [of _ ?r]) simp
    qed
  qed
qed

definition passed ::
    "environment \<Rightarrow> ('s, 'ls, 'm) multi_kernels \<Rightarrow> ('s, 'ls, 'hl, 'm, 'g, 'r) NativeEngine \<Rightarrow> ('s, 'ls, 'r) session \<Rightarrow> ('s, 'ls, 'r) session \<Rightarrow> bool" where
  "passed env K E s s' \<longleftrightarrow>
     (if bs_ready s then bs_request s' = bs_request s \<and> bs_ready s' \<and>
        (if bs_active s' then session_live env K E s' \<and> length (bs_tokens s') = Suc (length (bs_tokens s))
         else session_done env K E s')
      else s' = s)"

lemma passed_idle: "filter bs_ready ss = [] \<Longrightarrow> list_all2 (passed env K E) ss ss"
  by (induction ss) (auto simp: passed_def split: if_splits)

lemma deliver_rows_ok:
  assumes ok: "batch_engine_ok env K E"
  shows "\<forall>s \<in> set ss. session_live env K E s \<Longrightarrow> length steps = length sts \<Longrightarrow>
    list_all2 (\<lambda>s (step, st). continuation env K (ne_model E) (bs_current s) [md_argmax (ne_model E) (td_logits step)] (bs_state s) st)
      (filter bs_ready ss) (zip steps sts) \<Longrightarrow>
    \<exists>ss'. deliver_rows E (install_states ss sts) steps = (Inr (), ss') \<and> list_all2 (passed env K E) ss ss'"
proof (induction ss arbitrary: steps sts)
  case Nil
  then show ?case by simp
next
  case (Cons s ss)
  show ?case
  proof (cases steps)
    case Nil
    then have none: "filter bs_ready (s # ss) = []" "sts = []" using Cons.prems(2,3) by (auto split: if_splits)
    have "install_states (s # ss) sts = s # ss" "deliver_rows E (s # ss) steps = (Inr (), s # ss)"
      using Nil none(2) by simp_all
    then show ?thesis using passed_idle [OF none(1), of env K E] by simp
  next
    case steps: (Cons step steps')
    then obtain st sts' where sts: "sts = st # sts'" using Cons.prems(2) by (cases sts) auto
    show ?thesis
    proof (cases "bs_ready s")
      case True
      have row: "continuation env K (ne_model E) (bs_current s) [md_argmax (ne_model E) (td_logits step)] (bs_state s) st"
        and rest: "list_all2 (\<lambda>s (step, st). continuation env K (ne_model E) (bs_current s)
          [md_argmax (ne_model E) (td_logits step)] (bs_state s) st) (filter bs_ready ss) (zip steps' sts')"
        using Cons.prems(3) True by (simp_all add: steps sts)
      have live: "session_live env K E s" using Cons.prems(1) by simp
      obtain s' where s': "deliver_row E step (s\<lparr>bs_state := st\<rparr>) = Inr s'" "passed env K E s s'"
        using deliver_row_ok [OF ok live True row] True by (auto simp: passed_def)
      obtain ss' where "deliver_rows E (install_states ss sts') steps' = (Inr (), ss')" "list_all2 (passed env K E) ss ss'"
        using Cons.IH [OF _ _ rest] Cons.prems(1,2) by (auto simp: steps sts)
      then show ?thesis using s' True by (simp add: steps sts)
    next
      case False
      have rest: "list_all2 (\<lambda>s (step, st). continuation env K (ne_model E) (bs_current s)
          [md_argmax (ne_model E) (td_logits step)] (bs_state s) st) (filter bs_ready ss) (zip steps sts)"
        using Cons.prems(3) False by simp
      obtain ss' where "deliver_rows E (install_states ss sts) steps = (Inr (), ss')" "list_all2 (passed env K E) ss ss'"
        using Cons.IH [OF _ Cons.prems(2) rest] Cons.prems(1) by auto
      moreover have "passed env K E s s" using False by (simp add: passed_def)
      ultimately show ?thesis using False by (simp add: steps sts)
    qed
  qed
qed

lemma session_decodes_ready:
  assumes ok: "engine_ok env K E" and dec: "session_decodes env K E s"
    and P: "prompt_ok E (bs_prompt_tokens s) (session_max s)"
  shows "state_fits (ne_model E) (bs_state s) \<and> unat (bs_current s) < md_vocabulary_size (ne_model E)"
proof -
  have reply: "greedy_reply env K E (bs_prompt_tokens s) (bs_tokens s) (bs_state s)"
    and current: "bs_current s = last (bs_prompt_tokens s @ bs_tokens s)"
    using dec by (simp_all add: session_decodes_def)
  have "in_vocabulary (ne_model E) (bs_prompt_tokens s @ bs_tokens s)"
    using P greedy_reply_vocabulary [OF ok reply] by (auto simp: prompt_ok_def in_vocabulary_def)
  moreover have "bs_current s \<in> set (bs_prompt_tokens s @ bs_tokens s)"
    using current prompt_ok_bounds [OF P] by (metis append_is_Nil_conv last_in_set)
  ultimately show ?thesis using greedy_reply_fits [OF ok reply] by (simp add: in_vocabulary_def)
qed

lemma decode_pass_ok:
  assumes ok: "batch_engine_ok env K E" and live: "\<forall>s \<in> set ss. session_live env K E s" and few: "length ss \<le> 64"
  shows "\<exists>ss'. decode_pass env K E ss = (Inr (), ss') \<and> list_all2 (passed env K E) ss ss'"
proof (cases "filter bs_ready ss = []")
  case True
  then show ?thesis using passed_idle [OF True, of env K E] by (simp add: decode_pass_def)
next
  case False
  let ?rows = "filter bs_ready ss"
  obtain d where d: "decode_barrier_stride env = Inr d" using batch_engine_parts(4) [OF ok] by blast
  obtain k where k: "multi_steady k K (ne_model E)"
    using batch_engine_parts(5) [OF ok] by (auto simp: prefill_ready_def kernels_steady_def)
  have row: "state_fits (ne_model E) (bs_state s) \<and> unat (bs_current s) < md_vocabulary_size (ne_model E)"
    if "s \<in> set ?rows" for s
  proof -
    have "session_decodes env K E s" "session_base E s" using live that by (auto simp: session_live_def)
    then show ?thesis
      using session_decodes_ready [OF batch_engine_parts(2) [OF ok]] by (simp add: session_base_def)
  qed
  have "length ?rows \<le> 64" using few order_trans [OF length_filter_le] by blast
  moreover have "\<forall>st \<in> set (map bs_state ?rows). state_fits (ne_model E) st"
    "\<forall>t \<in> set (map bs_current ?rows). unat t < md_vocabulary_size (ne_model E)"
    using row by auto
  ultimately obtain steps sts where multi:
    "forward_decode_capture_multi env K (ne_model E) (map bs_current ?rows) (map bs_state ?rows) = (Inr steps, sts)"
    "length steps = length ?rows" "length sts = length ?rows"
    using forward_multi_total [OF k d, of "map bs_current ?rows" "map bs_state ?rows"] False
    by auto
  have "continuation env K (ne_model E) (map bs_current ?rows ! r) [md_argmax (ne_model E) (td_logits (steps ! r))]
      (map bs_state ?rows ! r) (sts ! r)" if "r < length ?rows" for r
    using continuation_multi [OF multi(1), of r] multi(2,3) that by simp
  then have "list_all2 (\<lambda>s (step, st). continuation env K (ne_model E) (bs_current s) [md_argmax (ne_model E) (td_logits step)]
      (bs_state s) st) ?rows (zip steps sts)"
    using multi(2,3) by (simp add: list_all2_conv_all_nth)
  from deliver_rows_ok [OF ok live _ this] multi show ?thesis
    using False by (simp add: decode_pass_def Let_def)
qed

subsection \<open>The end of a session\<close>

lemma finish_session_ok:
  assumes ok: "batch_engine_ok env K E" and dn: "session_done env K E s"
  shows "\<exists>event s'. finish_session E s = (Inr event, s') \<and> fst event = bs_request s \<and> event_ok env K E event \<and>
    \<not> bs_active s'"
proof -
  let ?cb = "br_on_delta (bs_request s)" and ?rq = "stream_view (br_on_delta (bs_request s))"
  have base: "session_base E s" and closing: "\<not> bs_active s"
    "ss_connected (bs_stream s) \<longleftrightarrow> gr_finish_reason (bs_result s) \<noteq> ''cancelled''"
    using dn by (simp_all add: session_done_def)
  have plain: "greedy_beginning env K E (bs_prompt_tokens s) (session_max s) (bs_tokens s)"
    "gr_finish_reason (bs_result s) \<noteq> ''cancelled'' \<longrightarrow>
       greedy_answer env K E (bs_prompt_tokens s) (session_max s) (bs_tokens s) (gr_finish_reason (bs_result s))"
    using dn by (simp_all add: session_done_def)
  obtain bytes where bytes: "decode (ne_unicode E) (ne_tokenizer E) (bs_tokens s) = Inr bytes"
    using base batch_engine_parts(3) [OF ok] unfolding session_base_def decodable_def by blast
  have stream: "stream_ok E ?rq (bs_tokens s) (bs_stream s)" using base by (simp add: session_base_def)
  obtain sent ss where flush: "flush_pending ?cb (bs_stream s) = (sent, ss)" by fastforce
  have closed: "sent" "ss = bs_stream s" if "gr_finish_reason (bs_result s) = ''cancelled''"
    using flush that closing(2) by (auto simp: flush_pending_def split: option.splits)
  have F: "delivered_text ?cb (ss_deltas ss) bytes" "accepting ?cb \<longrightarrow> sent"
    using flush_pending_text [OF stream bytes, of sent ss] flush by simp_all
  let ?res = "(if sent then bs_result s else (bs_result s)\<lparr>gr_finish_reason := ''cancelled''\<rparr>)\<lparr>gr_text := bytes\<rparr>"
  have run: "finish_session E s = (Inr (bs_request s, Inr ?res, ss_deltas ss), s\<lparr>bs_stream := ss\<rparr>)"
  proof (cases "gr_finish_reason (bs_result s) = ''cancelled''")
    case True
    then show ?thesis using closed bytes by (simp add: finish_session_def)
  next
    case False
    then show ?thesis using flush bytes by (simp add: finish_session_def)
  qed
  have "accepting ?cb \<longrightarrow> ss_connected (bs_stream s)" using stream by (simp add: stream_ok_def)
  then have "accepting ?cb \<longrightarrow> greedy_answer env K E (bs_prompt_tokens s) (session_max s) (gr_tokens ?res) (gr_finish_reason ?res)"
    using plain(2) F(2) closing(2) by auto
  moreover have "gr_tokens ?res = bs_tokens s" "gr_text ?res = bytes" by simp_all
  ultimately have "answered env K E ?cb (bs_prompt_tokens s) (session_max s) ?res (ss_deltas ss)"
    using plain(1) bytes F(1) unfolding answered_def by simp
  then have "event_ok env K E (bs_request s, Inr ?res, ss_deltas ss)"
    using base unfolding event_ok_def session_base_def by auto
  then show ?thesis using run closing(1) by (intro exI conjI) (rule run, simp_all)
qed

lemma finish_sessions_ok:
  assumes ok: "batch_engine_ok env K E"
  shows "\<forall>s \<in> set ss. if bs_active s then session_live env K E s else session_done env K E s \<Longrightarrow>
    \<exists>events ss'. finish_sessions E ss = (events, Inr (), ss') \<and>
      map fst events = map bs_request (filter (\<lambda>s. \<not> bs_active s) ss) \<and> list_all (event_ok env K E) events \<and>
      filter bs_active ss' = filter bs_active ss"
proof (induction ss)
  case Nil
  then show ?case by simp
next
  case (Cons s ss)
  then obtain events ss' where IH: "finish_sessions E ss = (events, Inr (), ss')"
    "map fst events = map bs_request (filter (\<lambda>s. \<not> bs_active s) ss)" "list_all (event_ok env K E) events"
    "filter bs_active ss' = filter bs_active ss" by auto
  show ?case
  proof (cases "bs_active s")
    case True
    then show ?thesis using IH by simp
  next
    case False
    then have "session_done env K E s" using Cons.prems by simp
    from finish_session_ok [OF ok this] obtain event s' where "finish_session E s = (Inr event, s')"
      "fst event = bs_request s" "event_ok env K E event" "\<not> bs_active s'" by blast
    then show ?thesis using IH False by simp
  qed
qed

subsection \<open>The start of a session\<close>

lemma session_decodes_start:
  assumes "feeds env K (ne_model E) (butlast (bs_prompt_tokens s)) (ne_make_state E) (bs_state s)"
    and "bs_tokens s = []" and "bs_current s = last (bs_prompt_tokens s)"
  shows "session_decodes env K E s"
  using assms continuation_Nil by (fastforce simp: session_decodes_def greedy_reply_def)

lemma stream_start_ok: "stream_ok E rq [] stream_start"
  using tokenizer_decoder.stream_start_inv by (simp add: stream_ok_def stream_start_def)

lemma initialize_session_ok:
  assumes ok: "batch_engine_ok env K E" and token: "tokenized E rq P" and P: "prompt_ok E P (br_max_tokens rq)"
    and pos: "0 < br_max_tokens rq" and greedy: "greedy_sampling (br_sampling rq)"
  shows "\<exists>s. initialize_session env E incremental rq P = Inr s \<and> session_live env K E s \<and> bs_request s = rq"
proof -
  let ?M = "ne_model E"
  have eok: "engine_ok env K E" and ready: "prefill_ready env K ?M (ne_make_state E)" using batch_engine_parts [OF ok] by simp_all
  have ne: "P \<noteq> []" "length P + br_max_tokens rq \<le> ne_max_context_tokens E" using prompt_ok_bounds [OF P] by simp_all
  have fresh: "state_fits ?M (ne_make_state E)" "ds_token_count (ne_make_state E) = 0"
    "ne_max_context_tokens E + 32 \<le> SIZE_MAX" using eok by (simp_all add: engine_ok_def)
  obtain chunk where chunk: "request_prefill_chunk E P = Inr chunk" "0 < chunk" "chunk \<le> 2048"
    using batch_engine_parts(1) [OF ok] unfolding serving_ok_def chunk_ok_def by blast
  let ?s = "new_session E rq P chunk"
  have base: "session_base E (?s\<lparr>bs_state := st, bs_ready := b\<rparr>)" for st b
    using token P pos greedy stream_start_ok
    by (simp add: session_base_def new_session_def empty_result_def in_vocabulary_def)
  have live: "session_live env K E (?s\<lparr>bs_state := st, bs_ready := True\<rparr>)"
    if fed: "feeds env K ?M (butlast P) (ne_make_state E) st" for st
  proof -
    have "session_decodes env K E (?s\<lparr>bs_state := st, bs_ready := True\<rparr>)"
      using fed by (intro session_decodes_start) (simp_all add: new_session_def empty_result_def)
    then show ?thesis
      using base [where st = st and b = True] pos by (simp add: session_live_def new_session_def empty_result_def stream_start_def)
  qed
  consider (one) "length P = 1" | (whole) "1 < length P" "\<not> incremental" | (later) "1 < length P" "incremental"
    using ne(1) by (cases "length P = 1"; cases incremental) (auto simp: Suc_lessI)
  then show ?thesis
  proof cases
    case one
    then have "butlast P = []" by (simp add: length_0_conv [symmetric] del: length_0_conv)
    then have "session_live env K E (?s\<lparr>bs_state := ne_make_state E, bs_ready := True\<rparr>)"
      using live [of "ne_make_state E"] feeds_Nil [of env K ?M] by simp
    moreover have "?s\<lparr>bs_state := ne_make_state E, bs_ready := True\<rparr> = ?s\<lparr>bs_ready := True\<rparr>"
      by (simp add: new_session_def)
    ultimately show ?thesis
      using chunk(1) one by (simp add: initialize_session_def Let_def new_session_def)
  next
    case whole
    have parts: "concat (chunk_spans chunk (butlast P)) = butlast P"
      "\<forall>part \<in> set (chunk_spans chunk (butlast P)). part \<noteq> [] \<and> length part \<le> 2048"
      using chunk_spans_props [OF chunk(2), of "butlast P"] chunk(3) by auto
    have "in_vocabulary ?M (butlast P)" using P by (auto simp: prompt_ok_def in_vocabulary_def dest: in_set_butlastD)
    moreover have "length P - 1 \<le> SIZE_MAX" using ne(2) fresh(3) by simp
    ultimately obtain outs st where run: "prefill_chunks_sequential env ?M (chunk_spans chunk (butlast P)) (ne_make_state E) =
        (Inr outs, st)" "feeds env K ?M (butlast P) (ne_make_state E) st"
      using sequential_feeds [OF ready parts(2) feeds_Nil] parts(1) fresh(2) by auto
    then show ?thesis
      using chunk(1) whole live [OF run(2)] by (simp add: initialize_session_def Let_def new_session_def)
  next
    case later
    have "session_ingests env K E ?s"
      using later chunk feeds_Nil [of env K ?M] by (simp add: session_ingests_def new_session_def empty_result_def)
    then have "session_live env K E ?s"
      using base [where st = "bs_state ?s" and b = "bs_ready ?s"] pos
      by (simp add: session_live_def new_session_def empty_result_def stream_start_def)
    then show ?thesis
      using chunk(1) later by (simp add: initialize_session_def Let_def new_session_def)
  qed
qed

subsection \<open>Ingesting between the passes\<close>

text \<open>A measure of the work a session still has: tokens to generate and layer groups to ingest.\<close>

definition session_work :: "nat \<Rightarrow> ('s, 'ls, 'r) session \<Rightarrow> nat" where
  "session_work layers s =
     session_max s - length (bs_tokens s) +
     (if bs_ready s then 0
      else 1 + ((bs_prefill_rows s - bs_prefill_offset s) * (layers + 1) -
        (case bs_pending_prefill s of None \<Rightarrow> 0 | Some chunk \<Rightarrow> pc_next_layer chunk)))"

lemma prefill_loop_step:
  assumes "prefill_loop env M tokens chunk st = (Inr batch, st'')"
  obtains fin chunk' st' where "advance_prefill_chunk_batch env M chunk tokens st = (Inr fin, chunk', st')"
    and "if fin then st'' = st' else prefill_loop env M tokens chunk' st' = (Inr batch, st'')"
    and "pc_next_layer chunk < pc_next_layer chunk'" and "pc_next_layer chunk' \<le> length (md_layers M)"
proof -
  obtain r chunk' st' where adv: "advance_prefill_chunk_batch env M chunk tokens st = (r, chunk', st')"
    using prod_cases3 by blast
  note loop = assms [unfolded prefill_loop.simps [of env M tokens chunk st] adv prod.case]
  obtain fin where r: "r = Inr fin" using loop by (cases r) auto
  have "if fin then st'' = st' else prefill_loop env M tokens chunk' st' = (Inr batch, st'')"
    using loop r by (auto split: if_splits)
  then show thesis using that adv r advance_progress [OF adv [unfolded r]] by blast
qed

lemma work_done:
  fixes rest rows layers next_layer :: nat
  assumes "0 < rows" and "rows \<le> rest" and "next_layer \<le> layers"
  shows "(rest - rows) * (layers + 1) < rest * (layers + 1) - next_layer"
proof -
  have "(rest - rows) * (layers + 1) + rows * (layers + 1) = rest * (layers + 1)"
    using assms(2) by (simp only: add_mult_distrib [symmetric]) simp
  moreover have "layers + 1 \<le> rows * (layers + 1)" using mult_le_mono1 [of 1 rows "layers + 1"] assms(1) by simp
  ultimately show ?thesis using assms(3) by linarith
qed

lemma work_layers:
  fixes rest layers a b :: nat
  assumes "0 < rest" and "a < b" and "b \<le> layers"
  shows "rest * (layers + 1) - b < rest * (layers + 1) - a"
proof -
  have "layers + 1 \<le> rest * (layers + 1)" using mult_le_mono1 [of 1 rest "layers + 1"] assms(1) by simp
  then show ?thesis using assms(2,3) by linarith
qed

text \<open>The chunk that is being ingested, or the one that starts now.\<close>

lemma begin_pending_ok:
  assumes ok: "batch_engine_ok env K E" and live: "session_live env K E s" and waiting: "\<not> bs_ready s"
  shows "\<exists>rows chunk batch st. begin_pending_prefill E s = Inr (s\<lparr>bs_current_prefill_rows := rows\<rparr>, chunk) \<and>
    0 < rows \<and> bs_prefill_offset s + rows \<le> bs_prefill_rows s \<and>
    prefill_loop env (ne_model E) (prefill_part s rows) chunk (bs_state s) = (Inr batch, st) \<and>
    feeds env K (ne_model E) (take (bs_prefill_offset s + rows) (bs_prompt_tokens s)) (ne_make_state E) st \<and>
    (case bs_pending_prefill s of None \<Rightarrow> True | Some c \<Rightarrow> c = chunk)"
proof -
  let ?M = "ne_model E" and ?P = "bs_prompt_tokens s" and ?o = "bs_prefill_offset s"
  have I: "session_ingests env K E s" and base: "session_base E s"
    using live waiting by (simp_all add: session_live_def)
  have shape: "?o < bs_prefill_rows s" "bs_prefill_rows s = length ?P - 1" "0 < bs_prefill_chunk_rows s"
    "bs_prefill_chunk_rows s \<le> 2048" using I by (simp_all add: session_ingests_def)
  show ?thesis
  proof (cases "bs_pending_prefill s")
    case (Some chunk)
    have "0 < bs_current_prefill_rows s \<and> ?o + bs_current_prefill_rows s \<le> bs_prefill_rows s \<and>
        (\<exists>batch st. prefill_loop env ?M (prefill_part s (bs_current_prefill_rows s)) chunk (bs_state s) = (Inr batch, st) \<and>
          feeds env K ?M (take (?o + bs_current_prefill_rows s) ?P) (ne_make_state E) st)"
      using I unfolding session_ingests_def Some option.case by (elim conjE) (intro conjI)
    then obtain batch st where "0 < bs_current_prefill_rows s" "?o + bs_current_prefill_rows s \<le> bs_prefill_rows s"
      "prefill_loop env ?M (prefill_part s (bs_current_prefill_rows s)) chunk (bs_state s) = (Inr batch, st)"
      "feeds env K ?M (take (?o + bs_current_prefill_rows s) ?P) (ne_make_state E) st" by blast
    then show ?thesis using Some
      by (intro exI [of _ "bs_current_prefill_rows s"] exI [of _ chunk] exI [of _ batch] exI [of _ st])
        (simp add: begin_pending_prefill_def)
  next
    case None
    let ?n = "min (bs_prefill_chunk_rows s) (bs_prefill_rows s - ?o)" and ?part = "prefill_part s"
    have eok: "engine_ok env K E" and ready: "prefill_ready env K ?M (ne_make_state E)" using batch_engine_parts [OF ok] by simp_all
    have fed: "feeds env K ?M (take ?o ?P) (ne_make_state E) (bs_state s)" using I None by (simp add: session_ingests_def)
    have P: "prompt_ok E ?P (session_max s)" using base by (simp add: session_base_def)
    have n: "0 < ?n" "?n \<le> 2048" "?o + ?n \<le> bs_prefill_rows s" using shape by auto
    have len: "length (?part ?n) = ?n" using n(3) shape(2) by (simp add: prefill_part_def)
    have count: "ds_token_count (bs_state s) = ?o"
      using feeds_count [OF fed] eok shape by (simp add: engine_ok_def)
    have "in_vocabulary ?M (?part ?n)"
      using P in_vocabulary_take in_vocabulary_drop unfolding prompt_ok_def prefill_part_def by blast
    moreover have "ds_token_count (bs_state s) + length (?part ?n) \<le> SIZE_MAX"
      using prompt_ok_bounds [OF P] eok n(3) shape(2) unfolding len count engine_ok_def by linarith
    moreover have "?part ?n \<noteq> []" "length (?part ?n) \<le> 2048" using len n(1,2) by auto
    ultimately obtain batch st where run: "prefill_chunk_batch env ?M (?part ?n) (bs_state s) = (Inr batch, st)"
      "feeds env K ?M (take ?o ?P @ ?part ?n) (ne_make_state E) st" using prefill_ready_chunk [OF ready fed] by blast
    obtain chunk where chunk: "begin_prefill_chunk_batch ?M (?part ?n) (bs_state s) = Inr chunk"
      "prefill_loop env ?M (?part ?n) chunk (bs_state s) = (Inr batch, st)"
      using run(1) by (auto simp: prefill_chunk_batch_def split: sum.splits)
    have "take (?o + ?n) ?P = take ?o ?P @ ?part ?n" by (simp only: take_add prefill_part_def)
    then have "feeds env K ?M (take (?o + ?n) ?P) (ne_make_state E) st" using run(2) by simp
    moreover have "begin_pending_prefill E s = Inr (s\<lparr>bs_current_prefill_rows := ?n\<rparr>, chunk)"
      using None chunk(1) by (simp add: begin_pending_prefill_def Let_def)
    ultimately show ?thesis using n chunk(2) None
      by (intro exI [of _ ?n] exI [of _ chunk] exI [of _ batch] exI [of _ st]) simp
  qed
qed

lemma advance_pending_ok:
  assumes ok: "batch_engine_ok env K E" and live: "session_live env K E s" and waiting: "\<not> bs_ready s"
  shows "\<exists>s'. advance_pending_prefill env E s = Inr s' \<and> session_live env K E s' \<and> bs_request s' = bs_request s \<and>
    session_work (length (md_layers (ne_model E))) s' < session_work (length (md_layers (ne_model E))) s"
proof -
  let ?M = "ne_model E" and ?P = "bs_prompt_tokens s" and ?o = "bs_prefill_offset s"
    and ?L = "length (md_layers (ne_model E))"
  obtain rows chunk batch st where B: "begin_pending_prefill E s = Inr (s\<lparr>bs_current_prefill_rows := rows\<rparr>, chunk)"
    "0 < rows" "?o + rows \<le> bs_prefill_rows s"
    "prefill_loop env ?M (prefill_part s rows) chunk (bs_state s) = (Inr batch, st)"
    "feeds env K ?M (take (?o + rows) ?P) (ne_make_state E) st"
    "case bs_pending_prefill s of None \<Rightarrow> True | Some c \<Rightarrow> c = chunk"
    using begin_pending_ok [OF assms] by blast
  from B(4) obtain fin chunk' st' where A: "advance_prefill_chunk_batch env ?M chunk (prefill_part s rows) (bs_state s) =
      (Inr fin, chunk', st')"
    "if fin then st = st' else prefill_loop env ?M (prefill_part s rows) chunk' st' = (Inr batch, st)"
    "pc_next_layer chunk < pc_next_layer chunk'" "pc_next_layer chunk' \<le> ?L" by (rule prefill_loop_step)
  have I: "session_ingests env K E s" and base: "session_base E s" and act: "bs_active s"
    "gr_finish_reason (bs_result s) = ''length''" "length (bs_tokens s) < session_max s" "ss_connected (bs_stream s)"
    using live waiting by (simp_all add: session_live_def)
  have shape: "?o < bs_prefill_rows s" "bs_prefill_rows s = length ?P - 1" "bs_tokens s = []"
    "bs_current s = last ?P" "0 < bs_prefill_chunk_rows s" "bs_prefill_chunk_rows s \<le> 2048"
    using I by (simp_all add: session_ingests_def)
  have part: "prefill_part (s\<lparr>bs_current_prefill_rows := n, bs_state := x, bs_pending_prefill := c\<rparr>) = prefill_part s"
    "prefill_part (s\<lparr>bs_current_prefill_rows := n\<rparr>) = prefill_part s" for n x c
    by (simp_all add: prefill_part_def fun_eq_iff)
  have old: "(case bs_pending_prefill s of None \<Rightarrow> 0 | Some c \<Rightarrow> pc_next_layer c) \<le> pc_next_layer chunk"
    using B(6) by (cases "bs_pending_prefill s") simp_all
  show ?thesis
  proof (cases fin)
    case False
    let ?s = "s\<lparr>bs_current_prefill_rows := rows, bs_state := st', bs_pending_prefill := Some chunk'\<rparr>"
    have run: "advance_pending_prefill env E s = Inr ?s"
      using waiting A(1) False shape(1) by (simp add: advance_pending_prefill_def B(1) part Let_def)
    have "session_ingests env K E ?s"
      using shape A(2) B(2,3,5) False by (simp add: session_ingests_def part)
    moreover have "session_base E ?s" using base by (simp add: session_base_def)
    ultimately have "session_live env K E ?s" using act waiting by (simp add: session_live_def)
    moreover have "session_work ?L ?s < session_work ?L s"
      using work_layers [of "bs_prefill_rows s - ?o" _ _ ?L] old A(3,4) shape(1) waiting
      by (simp add: session_work_def del: mult_Suc_right)
    ultimately show ?thesis using run by (intro exI [of _ ?s]) simp
  next
    case True
    let ?s = "s\<lparr>bs_current_prefill_rows := 0, bs_state := st', bs_pending_prefill := None,
      bs_prefill_offset := ?o + rows\<rparr>"
    let ?r = "if ?o + rows = bs_prefill_rows s then ?s\<lparr>bs_ready := True\<rparr> else ?s"
    have run: "advance_pending_prefill env E s = Inr ?r"
      using waiting A(1) True by (simp add: advance_pending_prefill_def B(1) part Let_def)
    have fed: "feeds env K ?M (take (?o + rows) ?P) (ne_make_state E) st'" using A(2) B(5) True by simp
    have base': "session_base E ?r" using base by (simp add: session_base_def)
    have "session_live env K E ?r"
    proof (cases "?o + rows = bs_prefill_rows s")
      case full: True
      have "take (?o + rows) ?P = butlast ?P" using full shape(2) by (simp add: butlast_conv_take)
      then have "session_decodes env K E ?r"
        using fed full shape by (intro session_decodes_start) simp_all
      then show ?thesis using base' full act by (simp add: session_live_def)
    next
      case more: False
      then have "session_ingests env K E ?r" using shape fed B(3) by (simp add: session_ingests_def)
      then show ?thesis using base' more act waiting by (simp add: session_live_def)
    qed
    moreover have "(bs_prefill_rows s - (?o + rows)) * (?L + 1) <
        (bs_prefill_rows s - ?o) * (?L + 1) - (case bs_pending_prefill s of None \<Rightarrow> 0 | Some c \<Rightarrow> pc_next_layer c)"
      using work_done [of rows "bs_prefill_rows s - ?o" "case bs_pending_prefill s of None \<Rightarrow> 0 | Some c \<Rightarrow> pc_next_layer c" ?L]
        old A(3,4) B(2,3) by simp
    then have "session_work ?L ?r < session_work ?L s"
      using waiting by (simp add: session_work_def del: mult_Suc_right) (intro conjI impI; linarith)
    ultimately show ?thesis using run by (intro exI [of _ ?r]) simp
  qed
qed

lemma prefill_first_ok:
  assumes ok: "batch_engine_ok env K E"
  shows "\<forall>s \<in> set ss. session_live env K E s \<Longrightarrow>
    \<exists>ss'. prefill_first env E ss = (ss', []) \<and> (\<forall>s \<in> set ss'. session_live env K E s) \<and>
      map bs_request ss' = map bs_request ss \<and>
      (if list_all bs_ready ss then ss' = ss
       else sum_list (map (session_work (length (md_layers (ne_model E)))) ss') <
         sum_list (map (session_work (length (md_layers (ne_model E)))) ss))"
proof (induction ss)
  case Nil
  then show ?case by simp
next
  case (Cons s ss)
  have live: "session_live env K E s" using Cons.prems by simp
  then have act: "bs_active s" by (simp add: session_live_def)
  show ?case
  proof (cases "bs_ready s")
    case True
    from Cons obtain ss' where "prefill_first env E ss = (ss', [])" "\<forall>s \<in> set ss'. session_live env K E s"
      "map bs_request ss' = map bs_request ss"
      "if list_all bs_ready ss then ss' = ss
       else sum_list (map (session_work (length (md_layers (ne_model E)))) ss') <
         sum_list (map (session_work (length (md_layers (ne_model E)))) ss)" by auto
    then show ?thesis using True live by (auto split: if_splits)
  next
    case False
    from advance_pending_ok [OF ok live False] obtain s' where "advance_pending_prefill env E s = Inr s'"
      "session_live env K E s'" "bs_request s' = bs_request s"
      "session_work (length (md_layers (ne_model E))) s' < session_work (length (md_layers (ne_model E))) s" by blast
    then show ?thesis using False act Cons.prems by simp
  qed
qed

subsection \<open>Taking in requests\<close>

text \<open>What is taken from the queue, and what every event and deferral accounts for.\<close>

definition taken :: "batch_request option list \<Rightarrow> batch_request list" where
  "taken calls = List.map_filter (\<lambda>x. x) calls"

lemma taken_simps [simp]: "taken [] = []" "taken (None # xs) = taken xs" "taken (Some rq # xs) = rq # taken xs"
  "taken (xs @ ys) = taken xs @ taken ys"
  by (simp_all add: taken_def List.map_filter_def)

definition greedy_requests :: "batch_request list \<Rightarrow> bool" where
  "greedy_requests rqs \<longleftrightarrow> (\<forall>rq \<in> set rqs. greedy_sampling (br_sampling rq))"

definition batch_inv ::
    "environment \<Rightarrow> ('s, 'ls, 'm) multi_kernels \<Rightarrow> ('s, 'ls, 'hl, 'm, 'g, 'r) NativeEngine \<Rightarrow> ('s, 'ls, 'r) batch \<Rightarrow> bool" where
  "batch_inv env K E b \<longleftrightarrow>
     (\<forall>s \<in> set (ba_sessions b). session_live env K E s) \<and> length (ba_sessions b) \<le> 4 \<and>
     list_all (event_ok env K E) (ba_events b) \<and> greedy_requests (ba_deferred b) \<and>
     greedy_requests (taken (ba_refills b))"

text \<open>The requests a batch is responsible for.\<close>

definition batch_requests :: "('s, 'ls, 'r) batch \<Rightarrow> batch_request multiset" where
  "batch_requests b = mset (map fst (ba_events b)) + mset (map bs_request (ba_sessions b)) + mset (ba_deferred b)"

lemma admit_refill_ok:
  assumes ok: "batch_engine_ok env K E"
  obtains r cache' where "admit_refill E rq cache = Some (r, cache')"
    and "\<And>e. r = Inl e \<Longrightarrow> refused E rq"
    and "\<And>tokens. r = Inr tokens \<Longrightarrow> tokenized E rq tokens \<and> prompt_ok E tokens (br_max_tokens rq) \<and> 0 < br_max_tokens rq"
proof (cases "validate_request E (br_max_tokens rq) (br_sampling rq) = Inr ()")
  case False
  then have "refused E rq" by (simp add: refused_def)
  moreover have "\<exists>e. admit_refill E rq cache = Some (Inl e, cache)"
    using False by (auto simp: admit_refill_def validate_request_iff)
  ultimately show thesis using that by blast
next
  case True
  obtain r cache' where enc: "encode (ne_unicode E) (ne_tokenizer E) cache (br_prompt rq) True = Some (r, cache')"
    "\<And>tokens. r = Inr tokens \<Longrightarrow> in_vocabulary (ne_model E) tokens"
    by (rule batch_encode [OF ok, where cache = cache and bytes = "br_prompt rq"]) blast
  show thesis
  proof (cases "\<exists>tokens. r = Inr tokens \<and> validate_prompt E tokens (br_max_tokens rq) = Inr ()")
    case accepted: True
    then obtain tokens where tokens: "r = Inr tokens" "validate_prompt E tokens (br_max_tokens rq) = Inr ()" by blast
    have "admit_refill E rq cache = Some (Inr tokens, cache')"
      using True enc(1) tokens by (simp add: admit_refill_def validate_request_iff validate_prompt_iff)
    moreover have "tokenized E rq tokens" using enc(1) tokens(1) by (auto simp: tokenized_def)
    moreover have "prompt_ok E tokens (br_max_tokens rq)" using enc(2) tokens by (simp add: prompt_ok_def)
    moreover have "0 < br_max_tokens rq" using True by (simp add: validate_request_iff)
    ultimately show thesis using that by blast
  next
    case False
    then have "refused E rq" unfolding refused_def using enc(1) by blast
    moreover have "\<exists>e. admit_refill E rq cache = Some (Inl e, cache')"
      using True enc(1) False by (cases r) (auto simp: admit_refill_def validate_request_iff validate_prompt_iff)
    ultimately show thesis using that by blast
  qed
qed

lemma refill_loop_ok:
  assumes ok: "batch_engine_ok env K E"
  shows "batch_inv env K E (b\<lparr>ba_refills := calls\<rparr>) \<Longrightarrow>
    \<exists>b' used. refill_loop env E limit calls live b = Some b' \<and> batch_inv env K E b' \<and> calls = used @ ba_refills b' \<and>
      batch_requests b' = batch_requests b + mset (taken used) \<and>
      (used = [] \<longrightarrow> ba_sessions b' = ba_sessions b)"
proof (induction calls arbitrary: live b)
  case Nil
  then show ?case by (simp add: batch_requests_def)
next
  case (Cons call calls)
  have inv: "\<forall>s \<in> set (ba_sessions b). session_live env K E s" "length (ba_sessions b) \<le> 4"
    "list_all (event_ok env K E) (ba_events b)" "greedy_requests (ba_deferred b)" "greedy_requests (taken (call # calls))"
    using Cons.prems by (simp_all add: batch_inv_def)
  have rest: "greedy_requests (taken calls)" using inv(5) by (cases call) (simp_all add: greedy_requests_def)
  show ?case
  proof (cases "ba_sessions b = [] \<or> length (ba_sessions b) \<ge> 4")
    case True
    then show ?thesis using Cons.prems by (simp add: batch_requests_def)
  next
    case room: False
    show ?thesis
    proof (cases call)
      case None
      then show ?thesis
        using room inv rest by (intro exI [of _ "b\<lparr>ba_refills := calls\<rparr>"] exI [of _ "[call]"])
          (simp add: batch_inv_def batch_requests_def)
    next
      case (Some rq)
      have greedy: "greedy_sampling (br_sampling rq)" using inv(5) Some by (simp add: greedy_requests_def)
      obtain r cache where A: "admit_refill E rq (ba_bpe_cache b) = Some (r, cache)" "\<And>e. r = Inl e \<Longrightarrow> refused E rq"
        "\<And>tokens. r = Inr tokens \<Longrightarrow> tokenized E rq tokens \<and> prompt_ok E tokens (br_max_tokens rq) \<and> 0 < br_max_tokens rq"
        by (rule admit_refill_ok [OF ok, where rq = rq and cache = "ba_bpe_cache b"]) blast
      have again: ?thesis
        if run: "refill_loop env E limit (call # calls) live b = refill_loop env E limit calls live' b1"
          and b1: "batch_inv env K E (b1\<lparr>ba_refills := calls\<rparr>)" "batch_requests b1 = batch_requests b + {#rq#}"
        for live' b1
      proof -
        obtain b' used where "refill_loop env E limit calls live' b1 = Some b'" "batch_inv env K E b'"
          "calls = used @ ba_refills b'" "batch_requests b' = batch_requests b1 + mset (taken used)"
          using Cons.IH [OF b1(1), of live'] by blast
        then show ?thesis
          using run b1(2) Some by (intro exI [of _ b'] exI [of _ "call # used"]) simp
      qed
      show ?thesis
      proof (cases r)
        case (Inl e)
        let ?b1 = "b\<lparr>ba_bpe_cache := cache, ba_events := ba_events b @ [(rq, Inl e, [])]\<rparr>"
        have "event_ok env K E (rq, Inl e, [])" using A(2) Inl by (simp add: event_ok_def)
        then show ?thesis
          using room A(1) Some Inl inv rest
          by (intro again [of live ?b1]) (simp_all add: batch_inv_def batch_requests_def Let_def)
      next
        case (Inr tokens)
        note T = A(3) [OF Inr]
        obtain s where s: "initialize_session env E True rq tokens = Inr s" "session_live env K E s" "bs_request s = rq"
          using initialize_session_ok [OF ok, of rq tokens] T greedy by blast
        let ?capacity = "sz_add (length tokens) (br_max_tokens rq)"
        show ?thesis
        proof (cases "so_thinking_budget_tokens (br_sampling rq) \<noteq> 0 \<or> sz_add live ?capacity > limit")
          case True
          let ?b1 = "b\<lparr>ba_bpe_cache := cache, ba_deferred := ba_deferred b @ [rq], ba_refills := calls\<rparr>"
          have "refill_loop env E limit (call # calls) live b = Some ?b1"
            using room A(1) Some Inr True by (simp add: Let_def)
          moreover have "batch_inv env K E ?b1" using inv rest greedy by (simp add: batch_inv_def greedy_requests_def)
          ultimately show ?thesis using Some
            by (intro exI [of _ ?b1] exI [of _ "[call]"]) (simp add: batch_requests_def)
        next
          case False
          let ?b1 = "b\<lparr>ba_bpe_cache := cache, ba_sessions := ba_sessions b @ [s]\<rparr>"
          show ?thesis
            using room A(1) Some Inr False inv rest s
            by (intro again [of "sz_add live ?capacity" ?b1]) (simp_all add: batch_inv_def batch_requests_def Let_def)
        qed
      qed
    qed
  qed
qed

subsection \<open>A turn of the loop\<close>

abbreviation total_work :: "('s, 'ls, 'hl, 'm, 'g, 'r) NativeEngine \<Rightarrow> ('s, 'ls, 'r) session list \<Rightarrow> nat" where
  "total_work E ss \<equiv> sum_list (map (session_work (length (md_layers (ne_model E)))) ss)"

lemma passed_result:
  assumes "session_live env K E s" and "passed env K E s s'"
  shows "if bs_active s' then session_live env K E s' else session_done env K E s'" and "bs_request s' = bs_request s"
    and "(if bs_active s' then session_work layers s' else 0) + (if bs_ready s then 1 else 0) \<le> session_work layers s"
  using assms by (auto simp: passed_def session_live_def session_work_def split: if_splits)

lemma passed_results:
  "list_all2 (passed env K E) ss ss' \<Longrightarrow> \<forall>s \<in> set ss. session_live env K E s \<Longrightarrow>
     (\<forall>s \<in> set ss'. if bs_active s then session_live env K E s else session_done env K E s) \<and>
     map bs_request ss' = map bs_request ss \<and>
     total_work E (filter bs_active ss') + length (filter bs_ready ss) \<le> total_work E ss"
proof (induction rule: list_all2_induct)
  case Nil
  then show ?case by simp
next
  case (Cons s ss s' ss')
  have live: "session_live env K E s" using Cons.prems by simp
  note P = passed_result [OF live Cons.hyps(1)]
  from P(3) [of "length (md_layers (ne_model E))"] P(1,2) Cons show ?case by auto
qed

lemma requests_split:
  "mset (map f (filter (\<lambda>s. \<not> P s) ss)) + mset (map f (filter P ss)) = mset (map f ss)"
  by (induction ss) auto

lemma batch_turn_ok:
  assumes ok: "batch_engine_ok env K E" and inv: "batch_inv env K E b" and some: "ba_sessions b \<noteq> []"
  shows "\<exists>b' used. batch_turn env K E limit b = Some (Inr (), b') \<and> batch_inv env K E b' \<and>
    ba_refills b = used @ ba_refills b' \<and> batch_requests b' = batch_requests b + mset (taken used) \<and>
    (used = [] \<longrightarrow> total_work E (ba_sessions b') < total_work E (ba_sessions b))"
proof -
  let ?ss = "ba_sessions b"
  have live: "\<forall>s \<in> set ?ss. session_live env K E s" and few: "length ?ss \<le> 4" using inv by (simp_all add: batch_inv_def)
  obtain ss1 where pass: "decode_pass env K E ?ss = (Inr (), ss1)" "list_all2 (passed env K E) ?ss ss1"
    using decode_pass_ok [OF ok live] few by auto
  note R = passed_results [OF pass(2) live]
  then obtain events ss2 where F: "finish_sessions E ss1 = (events, Inr (), ss2)"
    "map fst events = map bs_request (filter (\<lambda>s. \<not> bs_active s) ss1)" "list_all (event_ok env K E) events"
    "filter bs_active ss2 = filter bs_active ss1" using finish_sessions_ok [OF ok, of ss1] by blast
  let ?b1 = "b\<lparr>ba_sessions := filter bs_active ss2, ba_events := ba_events b @ events\<rparr>"
  have "length (filter bs_active ss1) \<le> 4"
    using list_all2_lengthD [OF pass(2)] few length_filter_le [of bs_active ss1] by linarith
  then have "batch_inv env K E (?b1\<lparr>ba_refills := ba_refills b\<rparr>)"
    using inv R F(3,4) by (auto simp: batch_inv_def)
  from refill_loop_ok [OF ok this, of limit "live_capacity ss2"] obtain b2 used where
    L: "refill_loop env E limit (ba_refills b) (live_capacity ss2) ?b1 = Some b2" "batch_inv env K E b2"
    "ba_refills b = used @ ba_refills b2" "batch_requests b2 = batch_requests ?b1 + mset (taken used)"
    "used = [] \<longrightarrow> ba_sessions b2 = ba_sessions ?b1" by blast
  have "batch_requests ?b1 = batch_requests b"
    using F(2,4) R requests_split [of bs_request bs_active ss1] by (simp add: batch_requests_def)
  note reqs = L(4) [unfolded this]
  have live2: "\<forall>s \<in> set (ba_sessions b2). session_live env K E s" using L(2) by (simp add: batch_inv_def)
  from prefill_first_ok [OF ok live2] obtain ss3 where P: "prefill_first env E (ba_sessions b2) = (ss3, [])"
    "\<forall>s \<in> set ss3. session_live env K E s" "map bs_request ss3 = map bs_request (ba_sessions b2)"
    "if list_all bs_ready (ba_sessions b2) then ss3 = ba_sessions b2
     else total_work E ss3 < total_work E (ba_sessions b2)" by blast
  let ?b' = "b2\<lparr>ba_sessions := ss3\<rparr>"
  have run: "batch_turn env K E limit b = Some (Inr (), ?b')"
    using pass(1) F(1) L(1) P(1) by (simp add: batch_turn_def)
  have "batch_inv env K E ?b'" using L(2) P(2) map_eq_imp_length_eq [OF P(3)] by (simp add: batch_inv_def)
  moreover have "batch_requests ?b' = batch_requests b + mset (taken used)"
    using reqs P(3) by (simp add: batch_requests_def)
  moreover have "total_work E ss3 < total_work E ?ss" if "used = []"
  proof (cases "filter bs_ready ?ss = []")
    case True
    have "ss1 = ?ss" using pass(1) True by (simp add: decode_pass_def)
    moreover have "filter bs_active ?ss = ?ss" using live by (simp add: filter_id_conv session_live_def)
    ultimately have "ba_sessions b2 = ?ss" using L(5) that F(4) by simp
    moreover have "\<not> list_all bs_ready ?ss" using True some by (cases ?ss) auto
    ultimately show ?thesis using P(4) by simp
  next
    case False
    then have "0 < length (filter bs_ready ?ss)" by simp
    then have "total_work E (filter bs_active ss1) < total_work E ?ss" using R by linarith
    moreover have "total_work E ss3 \<le> total_work E (ba_sessions b2)"
      using P(4) by (cases "list_all bs_ready (ba_sessions b2)") simp_all
    ultimately show ?thesis using L(5) that F(4) by simp
  qed
  ultimately show ?thesis using run L(3) by (intro exI [of _ ?b'] exI [of _ used]) simp
qed

lemma batch_loop_ok:
  assumes ok: "batch_engine_ok env K E"
  shows "batch_inv env K E b \<Longrightarrow>
    \<exists>b' used. batch_loop env K E limit b = Some (Inr (), b') \<and> batch_inv env K E b' \<and> ba_sessions b' = [] \<and>
      ba_refills b = used @ ba_refills b' \<and> batch_requests b' = batch_requests b + mset (taken used)"
proof (induction b rule: wf_induct_rule
    [OF wf_measures [of "[\<lambda>b. length (ba_refills b), \<lambda>b. total_work E (ba_sessions b)]"]])
  case (1 b)
  show ?case
  proof (cases "ba_sessions b = []")
    case True
    then show ?thesis using 1(2) by (intro exI [of _ b] exI [of _ "[]"]) (simp add: batch_loop.simps)
  next
    case False
    obtain b1 used where T: "batch_turn env K E limit b = Some (Inr (), b1)" "batch_inv env K E b1"
      "ba_refills b = used @ ba_refills b1" "batch_requests b1 = batch_requests b + mset (taken used)"
      "used = [] \<longrightarrow> total_work E (ba_sessions b1) < total_work E (ba_sessions b)"
      using batch_turn_ok [OF ok 1(2) False] by blast
    have "(b1, b) \<in> measures [\<lambda>b. length (ba_refills b), \<lambda>b. total_work E (ba_sessions b)]"
      using T(3,5) by (cases used) simp_all
    from 1(1) [OF this T(2)] obtain b' used' where "batch_loop env K E limit b1 = Some (Inr (), b')"
      "batch_inv env K E b'" "ba_sessions b' = []" "ba_refills b1 = used' @ ba_refills b'"
      "batch_requests b' = batch_requests b1 + mset (taken used')" by blast
    then show ?thesis using T False
      by (intro exI [of _ b'] exI [of _ "used @ used'"]) (simp add: batch_loop.simps)
  qed
qed

subsection \<open>The whole batch\<close>

definition accepted ::
    "('s, 'ls, 'hl, 'm, 'g, 'r) NativeEngine \<Rightarrow> batch_request \<Rightarrow> u32 list \<Rightarrow> bool" where
  "accepted E rq tokens \<longleftrightarrow> tokenized E rq tokens \<and> prompt_ok E tokens (br_max_tokens rq) \<and> 0 < br_max_tokens rq"

lemma initialize_all_ok:
  assumes ok: "batch_engine_ok env K E"
  shows "list_all2 (accepted E) rqs tokens \<Longrightarrow> greedy_requests rqs \<Longrightarrow>
    \<exists>ss. initialize_all env E (zip rqs tokens) = (ss, []) \<and> (\<forall>s \<in> set ss. session_live env K E s) \<and>
      map bs_request ss = rqs"
proof (induction rule: list_all2_induct)
  case Nil
  then show ?case by simp
next
  case (Cons rq rqs P tokens)
  then obtain ss where IH: "initialize_all env E (zip rqs tokens) = (ss, [])" "\<forall>s \<in> set ss. session_live env K E s"
    "map bs_request ss = rqs" by (auto simp: greedy_requests_def)
  from Cons.hyps(1) Cons.prems obtain s where "initialize_session env E False rq P = Inr s" "session_live env K E s"
    "bs_request s = rq"
    using initialize_session_ok [OF ok, of rq P False] by (auto simp: accepted_def greedy_requests_def)
  then show ?case using IH by simp
qed

lemma res_bind_case: "res_bind r f = (case r of Inl e \<Rightarrow> Inl e | Inr x \<Rightarrow> f x)"
  by (cases r) simp_all

lemma tokenize_batch_ok:
  assumes ok: "batch_engine_ok env K E"
  shows "\<exists>r cache'. tokenize_batch E rqs cache capacity = Some (r, cache') \<and>
    (case r of Inl e \<Rightarrow> \<exists>rq \<in> set rqs. refused E rq
     | Inr (tokens, capacity') \<Rightarrow> list_all2 (accepted E) rqs tokens)"
proof (induction rqs arbitrary: cache capacity)
  case Nil
  then show ?case by simp
next
  case (Cons rq rqs)
  obtain r cache' where A: "admit_refill E rq cache = Some (r, cache')" "\<And>e. r = Inl e \<Longrightarrow> refused E rq"
    "\<And>tokens. r = Inr tokens \<Longrightarrow> accepted E rq tokens"
    unfolding accepted_def by (rule admit_refill_ok [OF ok, where rq = rq and cache = cache]) blast
  show ?case
  proof (cases r)
    case (Inl e)
    have "\<exists>e' cache''. tokenize_batch E (rq # rqs) cache capacity = Some (Inl e', cache'')"
      using A(1) Inl unfolding admit_refill_def
      by (auto split: if_splits sum.splits bind_splits simp: res_bind_case)
    then show ?thesis using A(2) Inl by auto
  next
    case (Inr tokens)
    let ?capacity = "sz_add capacity (sz_add (length tokens) (br_max_tokens rq))"
    obtain r' cache'' where IH: "tokenize_batch E rqs cache' ?capacity = Some (r', cache'')"
      "case r' of Inl e \<Rightarrow> \<exists>rq \<in> set rqs. refused E rq
       | Inr (tokens, capacity') \<Rightarrow> list_all2 (accepted E) rqs tokens" using Cons.IH by blast
    have "tokenize_batch E (rq # rqs) cache capacity =
        Some (res_bind r' (\<lambda>(rest, capacity'). Inr (tokens # rest, capacity')), cache'')"
      using A(1) Inr IH(1) unfolding admit_refill_def
      by (auto split: if_splits sum.splits bind_splits simp: res_bind_case)
    then show ?thesis using IH(2) A(3) [OF Inr] by (cases r') auto
  qed
qed

lemma run_sessions_ok:
  assumes ok: "batch_engine_ok env K E" and rqs: "list_all2 (accepted E) rqs tokens" and few: "length rqs \<le> 4"
    and greedy: "greedy_requests rqs" "greedy_requests (taken refills)"
  shows "\<exists>events rest used w'. run_sessions env K E limit refills (zip rqs tokens) w = Some (events, rest, w') \<and>
    cache_sound env K E (ew_prefix_cache w') \<and> list_all (event_ok env K E) events \<and>
    refills = used @ rest \<and> mset (map fst events) = mset (rqs @ taken used)"
proof -
  obtain ss where I: "initialize_all env E (zip rqs tokens) = (ss, [])" "\<forall>s \<in> set ss. session_live env K E s"
    "map bs_request ss = rqs" using initialize_all_ok [OF ok rqs greedy(1)] by blast
  let ?b = "\<lparr>ba_sessions = ss, ba_deferred = [], ba_refills = refills, ba_events = [],
    ba_bpe_cache = ew_bpe_cache w\<rparr>"
  have "length ss \<le> 4" using I(3) few by auto
  then have "batch_inv env K E ?b" using I(2) greedy by (simp add: batch_inv_def greedy_requests_def)
  from batch_loop_ok [OF ok this, of limit] obtain b' used where L:
    "batch_loop env K E limit ?b = Some (Inr (), b')" "batch_inv env K E b'" "ba_sessions b' = []"
    "refills = used @ ba_refills b'" "batch_requests b' = mset rqs + mset (taken used)"
    using I(3) by (auto simp: batch_requests_def)
  let ?w1 = "w\<lparr>ew_prefix_cache := None, ew_bpe_cache := ba_bpe_cache b'\<rparr>"
  have "\<forall>rq \<in> set (ba_deferred b'). greedy_sampling (br_sampling rq)" "cache_sound env K E (ew_prefix_cache ?w1)"
    using L(2) by (simp_all add: batch_inv_def greedy_requests_def cache_sound_def)
  from complete_each_ok [OF ok this] obtain events w' where C:
    "complete_each env E (ba_deferred b') ?w1 = Some (events, w')" "map fst events = ba_deferred b'"
    "list_all (event_ok env K E) events" "cache_sound env K E (ew_prefix_cache w')" by blast
  have "run_sessions env K E limit refills (zip rqs tokens) w = Some (ba_events b' @ events, ba_refills b', w')"
    using I(1) L(1) C(1) by (simp add: run_sessions_def Let_def)
  moreover have "mset (map fst (ba_events b' @ events)) = mset (rqs @ taken used)"
    using L(3,5) C(2) by (simp add: batch_requests_def)
  ultimately show ?thesis using L(2,4) C(3,4) by (auto simp: batch_inv_def)
qed

definition batch_outcome ::
    "environment \<Rightarrow> ('s, 'ls, 'm) multi_kernels \<Rightarrow> ('s, 'ls, 'hl, 'm, 'g, 'r) NativeEngine \<Rightarrow> batch_request list \<Rightarrow> batch_request option list \<Rightarrow>
     unit result \<Rightarrow> batch_event list \<Rightarrow> batch_request option list \<Rightarrow> bool" where
  "batch_outcome env K E requests refills r events rest \<longleftrightarrow>
     list_all (event_ok env K E) events \<and>
     (case r of
        Inl e \<Rightarrow> events = [] \<and> rest = refills \<and>
          (requests = [] \<or> length requests > 4 \<or> (\<exists>rq \<in> set requests. refused E rq))
      | Inr _ \<Rightarrow> \<exists>used. refills = used @ rest \<and> mset (map fst events) = mset (requests @ taken used))"

lemma complete_batch_ok:
  assumes "batch_engine_ok env K E" and "cache_sound env K E (ew_prefix_cache w)"
    and "batch_context_limit env = Inr limit"
    and "greedy_requests requests" and "greedy_requests (taken refills)"
  shows "\<exists>r events rest w'. complete_batch env K E refills requests w = Some (r, events, rest, w') \<and>
    cache_sound env K E (ew_prefix_cache w') \<and> batch_outcome env K E requests refills r events rest"
proof -
  note ok = assms(1)
  have greedy: "\<forall>rq \<in> set requests. greedy_sampling (br_sampling rq)"
    using assms(4) by (simp add: greedy_requests_def)
  have each: "\<exists>events w'. complete_each env E requests w0 = Some (events, w') \<and>
      cache_sound env K E (ew_prefix_cache w') \<and> batch_outcome env K E requests refills (Inr ()) events refills"
    if "ew_prefix_cache w0 = ew_prefix_cache w" for w0
    using complete_each_ok [OF ok greedy, of w0] assms(2) that by (auto simp: batch_outcome_def)
  consider (size) "requests = [] \<or> length requests > 4"
    | (single) "\<not> (requests = [] \<or> length requests > 4)"
        "length requests = 1 \<or> (\<exists>rq \<in> set requests. so_thinking_budget_tokens (br_sampling rq) \<noteq> 0)"
    | (batch) "\<not> (requests = [] \<or> length requests > 4)"
        "\<not> (length requests = 1 \<or> (\<exists>rq \<in> set requests. so_thinking_budget_tokens (br_sampling rq) \<noteq> 0))" by blast
  then show ?thesis
  proof cases
    case size
    then show ?thesis using assms(2) by (auto simp: complete_batch_def batch_outcome_def)
  next
    case single
    then show ?thesis using each [of w] by (auto simp: complete_batch_def)
  next
    case batch
    obtain r cache where T: "tokenize_batch E requests (ew_bpe_cache w) 0 = Some (r, cache)"
      "case r of Inl e \<Rightarrow> \<exists>rq \<in> set requests. refused E rq
       | Inr (tokens, capacity') \<Rightarrow> list_all2 (accepted E) requests tokens"
      using tokenize_batch_ok [OF ok] by blast
    let ?w = "w\<lparr>ew_bpe_cache := cache\<rparr>"
    show ?thesis
    proof (cases r)
      case (Inl e)
      then have "complete_batch env K E refills requests w = Some (Inl e, [], refills, ?w)"
        unfolding complete_batch_def if_not_P [OF batch(1)] if_not_P [OF batch(2)] T(1) by simp
      moreover have "batch_outcome env K E requests refills (Inl e) [] refills"
        using T(2) Inl by (simp add: batch_outcome_def)
      ultimately show ?thesis using assms(2) by auto
    next
      case (Inr pair)
      obtain tokens capacity where pair: "pair = (tokens, capacity)" by fastforce
      have accepted: "list_all2 (accepted E) requests tokens" using T(2) Inr pair by simp
      have run: "complete_batch env K E refills requests w =
          (if capacity > limit then
             Option.bind (complete_each env E requests ?w) (\<lambda>(events, w2). Some (Inr (), events, refills, w2))
           else Option.bind (run_sessions env K E limit refills (zip requests tokens) ?w)
             (\<lambda>(events, refills', w2). Some (Inr (), events, refills', w2)))"
        unfolding complete_batch_def if_not_P [OF batch(1)] if_not_P [OF batch(2)] T(1)
        using Inr pair assms(3) by simp
      show ?thesis
      proof (cases "capacity > limit")
        case True
        then show ?thesis using run each [of ?w] by auto
      next
        case False
        have "length requests \<le> 4" using batch(1) by simp
        from run_sessions_ok [OF ok accepted this assms(4,5), of limit ?w] False run
        show ?thesis unfolding batch_outcome_def by fastforce
      qed
    qed
  qed
qed

subsection \<open>A batch on the sample engine\<close>

definition ids_below :: "nat \<Rightarrow> u32 list result \<Rightarrow> bool" where
  "ids_below n r \<longleftrightarrow> (\<forall>ids. r = Inr ids \<longrightarrow> (\<forall>i \<in> set ids. unat i < n))"

definition table_below :: "nat \<Rightarrow> Tokenizer \<Rightarrow> bool" where
  "table_below n T \<longleftrightarrow> (\<forall>t i. tk_token_to_id T t = Some i \<longrightarrow> unat i < n) \<and>
     (\<forall>(t, i) \<in> set (tk_special_to_id T). t \<noteq> [] \<and> unat i < n)"

lemma ids_below_simps [simp]:
  "ids_below n (Inl e)" "ids_below n (Inr ids) \<longleftrightarrow> (\<forall>i \<in> set ids. unat i < n)"
  by (simp_all add: ids_below_def)

lemma token_ids_below:
  assumes "table_below n T"
  shows "ids_below n (res_map (token_id T) tokens)"
proof (induction tokens)
  case Nil
  then show ?case by simp
next
  case (Cons t tokens)
  show ?case
  proof (cases "tk_token_to_id T t")
    case None
    then have "token_id T t = Inl (RuntimeError ''BPE emitted an unknown token'')" by (simp add: token_id_def)
    then show ?thesis by simp
  next
    case (Some i)
    then have "token_id T t = Inr i" "unat i < n" using assms by (simp_all add: token_id_def table_below_def)
    then show ?thesis using Cons by (cases "res_map (token_id T) tokens") simp_all
  qed
qed

lemma encode_pieces_below: "table_below n T \<Longrightarrow> ids_below n (fst (encode_pieces U T cache pieces))"
proof (induction pieces arbitrary: cache)
  case Nil
  then show ?case by simp
next
  case (Cons piece pieces)
  obtain r cache' where b: "bpe U T cache (byte_piece T piece) = (r, cache')" by fastforce
  show ?case
  proof (cases "\<exists>tokens ids. r = Inr tokens \<and> res_map (token_id T) tokens = Inr ids")
    case True
    then obtain tokens ids where ids: "r = Inr tokens" "res_map (token_id T) tokens = Inr ids" by blast
    have "\<forall>i \<in> set ids. unat i < n" using token_ids_below [OF Cons.prems, of tokens] ids(2) by simp
    then show ?thesis using Cons.IH [OF Cons.prems, of cache'] b ids
      by (cases "encode_pieces U T cache' pieces") (auto split: sum.splits)
  next
    case False
    then show ?thesis using b by (auto split: sum.splits)
  qed
qed

lemma encode_ordinary_below: "table_below n T \<Longrightarrow> ids_below n (fst (encode_ordinary U T cache bytes))"
  using encode_pieces_below [of n T U cache] by (simp add: encode_ordinary_def split: sum.splits)

lemma special_below:
  assumes "table_below n T" and "special \<in> fst ` set (tk_special_to_id T)"
  shows "special \<noteq> []" and "unat (the (map_of (tk_special_to_id T) special)) < n"
proof -
  obtain i where i: "map_of (tk_special_to_id T) special = Some i"
    using assms(2) by (cases "map_of (tk_special_to_id T) special") (auto simp: map_of_eq_None_iff)
  then have "(special, i) \<in> set (tk_special_to_id T)" by (rule map_of_SomeD)
  then have "special \<noteq> [] \<and> unat i < n" using assms(1) unfolding table_below_def by blast
  then show "special \<noteq> []" "unat (the (map_of (tk_special_to_id T) special)) < n" using i by simp_all
qed

lemma encode_loop_below:
  assumes T: "table_below n T"
  shows "\<exists>r cache'. encode_loop U T cache rest = Some (r, cache') \<and> ids_below n r"
proof (induction "length rest" arbitrary: rest cache rule: less_induct)
  case less
  note ordinary = encode_ordinary_below [OF T]
  consider (none) "rest = [] \<or> find_special T rest = None"
    | (found) found special where "rest \<noteq> []" "find_special T rest = Some (found, special)"
    by (cases "find_special T rest") auto
  then show ?case
  proof cases
    case none
    then show ?thesis using ordinary [of U cache rest]
      by (cases "encode_ordinary U T cache rest") (auto simp: encode_loop.simps [of U T cache rest])
  next
    case (found found special)
    note bound = special_below [OF T find_special_split(1) [OF found(2)]]
    obtain r cache' where pre: "(if found > 0 then encode_ordinary U T cache (take found rest) else (Inr [], cache)) =
        (r, cache')" by fastforce
    have small: "ids_below n r" using ordinary [of U cache "take found rest"] pre
      by (cases "found > 0") auto
    show ?thesis
    proof (cases r)
      case (Inl e)
      then show ?thesis using found pre by (simp add: encode_loop.simps [of U T cache rest])
    next
      case (Inr ids)
      have "length (drop (found + length special) rest) < length rest" using found(1) bound(1) by (cases special) auto
      from less [OF this, of cache'] obtain r' cache'' where
        "encode_loop U T cache' (drop (found + length special) rest) = Some (r', cache'')" "ids_below n r'" by blast
      then show ?thesis using found pre Inr small bound(2)
        by (cases r') (simp_all add: encode_loop.simps [of U T cache rest] ball_Un)
    qed
  qed
qed

lemma sample_table: "table_below 258 sample_tokenizer"
proof -
  have len: "length (tk_id_to_token sample_tokenizer) = 258"
    by (simp add: sample_tokenizer_def sample_tokens_def sample_strings_def)
  have "tk_token_to_id sample_tokenizer t = Some i \<Longrightarrow> unat i < 258" for t i
    using sample_token_back [of t i] len by simp
  moreover have "tk_special_to_id sample_tokenizer = [(''<s>'', 257)]" by (simp add: sample_tokenizer_def)
  ultimately show ?thesis by (simp add: table_below_def)
qed

lemma sample_batch_ok: "batch_engine_ok no_environment sample_multi serving_engine"
proof -
  have "\<exists>r cache'. encode (ne_unicode serving_engine) (ne_tokenizer serving_engine) cache bytes True =
      Some (r, cache') \<and> (\<forall>tokens. r = Inr tokens \<longrightarrow> in_vocabulary (ne_model serving_engine) tokens)" for cache bytes
    using encode_loop_below [OF sample_table, of sample_unicode cache bytes]
    by (simp add: encode_def serving_engine_def sample_special_tokens ids_below_def in_vocabulary_def serving_model_def)
  then show ?thesis using serving_engine_ok by (simp add: batch_engine_ok_def)
qed

definition sample_request :: "nat \<Rightarrow> string \<Rightarrow> batch_request" where
  "sample_request i prompt = \<lparr>br_id = i, br_prompt = prompt, br_max_tokens = 5, br_on_delta = None,
     br_sampling = sample_sampling\<rparr>"

lemma sample_batch_ready:
  "cache_sound no_environment sample_multi serving_engine (ew_prefix_cache fresh_world)"
  "batch_context_limit no_environment = Inr 131072"
  "greedy_requests [sample_request 0 ''cabc'', sample_request 1 ''b'']"
  "greedy_requests (taken [Some (sample_request 2 ''ab''), None])"
  using sample_request_valid(2)
  by (simp_all add: fresh_world_def cache_sound_def batch_context_limit_def greedy_requests_def sample_request_def)

lemma sample_batch_runs:
  "\<exists>r events rest w'. complete_batch no_environment sample_multi serving_engine
      [Some (sample_request 2 ''ab''), None] [sample_request 0 ''cabc'', sample_request 1 ''b''] fresh_world =
      Some (r, events, rest, w')"
  using complete_batch_ok [OF sample_batch_ok sample_batch_ready] by blast



end
