(* ===== verification/Batch_Accounting.thy ===== *)
theory Batch_Accounting
  imports Batch_Correctness
begin

text \<open>
  What a batch reports, whatever the kernels, the sampling and the callers do: no request given to
  \<open>complete_batch\<close> or taken from the queue stays without an event, and no other request gets one.
\<close>

subsection \<open>Sessions keep their request\<close>

lemma install_states_requests: "map bs_request (install_states ss sts) = map bs_request ss"
  by (induction ss sts rule: install_states.induct) auto

lemma stream_token_request: "stream_token E t s = Inr s' \<Longrightarrow> bs_request s' = bs_request s"
  by (auto simp: stream_token_def Let_def split: option.splits if_splits)

lemma deliver_row_request: "deliver_row E step s = Inr s' \<Longrightarrow> bs_request s' = bs_request s"
  by (auto simp: deliver_row_def Let_def split: prod.splits sum.splits if_splits dest!: stream_token_request)

lemma deliver_rows_requests: "deliver_rows E ss steps = (r, ss') \<Longrightarrow> map bs_request ss' = map bs_request ss"
  by (induction E ss steps arbitrary: r ss' rule: deliver_rows.induct)
    (auto split: if_splits sum.splits prod.splits dest: deliver_row_request)

lemma decode_pass_requests: "decode_pass env K E ss = (r, ss') \<Longrightarrow> map bs_request ss' = map bs_request ss"
  by (auto simp: decode_pass_def Let_def install_states_requests dest!: deliver_rows_requests
      split: if_splits sum.splits prod.splits)

lemma finish_session_request:
  "finish_session E s = (r, s') \<Longrightarrow>
     bs_request s' = bs_request s \<and> bs_active s' = bs_active s \<and> (\<forall>event. r = Inr event \<longrightarrow> fst event = bs_request s)"
  by (auto simp: finish_session_def Let_def split: if_splits prod.splits)

lemma finish_sessions_requests:
  "finish_sessions E ss = (events, r, ss') \<Longrightarrow>
     map bs_request ss' = map bs_request ss \<and> (\<forall>event \<in> set events. fst event \<in> set (map bs_request ss)) \<and>
     (r = Inr () \<longrightarrow> map fst events = map bs_request (filter (\<lambda>s. \<not> bs_active s) ss'))"
proof (induction ss arbitrary: events r ss')
  case (Cons s ss)
  obtain events1 r1 ss1 where rest: "finish_sessions E ss = (events1, r1, ss1)" by (cases "finish_sessions E ss") auto
  obtain r2 s2 where one: "finish_session E s = (r2, s2)" by fastforce
  show ?case using Cons.prems Cons.IH [OF rest] finish_session_request [OF one]
    by (cases "bs_active s"; cases r2) (auto simp: rest one)
qed simp

lemma initialize_session_request:
  "initialize_session env E incremental rq tokens = Inr s \<Longrightarrow> bs_request s = rq"
  by (auto simp: initialize_session_def new_session_def Let_def split: if_splits prod.splits sum.splits)

lemma initialize_all_requests:
  "initialize_all env E pairs = (ss, events) \<Longrightarrow>
     mset (map bs_request ss) + mset (map fst events) = mset (map fst pairs)"
proof (induction pairs arbitrary: ss events)
  case (Cons pair pairs)
  obtain rq tokens where pair: "pair = (rq, tokens)" by fastforce
  obtain ss1 events1 where rest: "initialize_all env E pairs = (ss1, events1)" by fastforce
  show ?case
    using Cons.prems Cons.IH [OF rest] initialize_session_request [of env E False rq tokens]
    by (auto simp: pair rest split: sum.splits)
qed simp

lemma begin_pending_request: "begin_pending_prefill E s = Inr (s', chunk) \<Longrightarrow> bs_request s' = bs_request s"
  by (auto simp: begin_pending_prefill_def Let_def split: option.splits)

lemma advance_pending_request:
  assumes "advance_pending_prefill env E s = Inr s'"
  shows "bs_request s' = bs_request s"
proof (cases "bs_ready s")
  case True
  then show ?thesis using assms by (simp add: advance_pending_prefill_def)
next
  case False
  then obtain s1 chunk where B: "begin_pending_prefill E s = Inr (s1, chunk)"
    using assms by (cases "begin_pending_prefill E s") (auto simp: advance_pending_prefill_def)
  obtain r chunk' st where A: "advance_prefill_chunk_batch env (ne_model E) chunk
      (prefill_part s1 (bs_current_prefill_rows s1)) (bs_state s1) = (r, chunk', st)" by (rule prod_cases3)
  show ?thesis using assms False begin_pending_request [OF B]
    by (auto simp: advance_pending_prefill_def B A Let_def split: sum.splits if_splits)
qed

lemma prefill_first_requests:
  "prefill_first env E ss = (ss', events) \<Longrightarrow>
     mset (map bs_request ss') + mset (map fst events) = mset (map bs_request ss)"
proof (induction ss arbitrary: ss' events)
  case (Cons s ss)
  obtain ss1 events1 where rest: "prefill_first env E ss = (ss1, events1)" by fastforce
  show ?case
    using Cons.prems Cons.IH [OF rest] advance_pending_request [of env E s]
    by (auto simp: rest split: if_splits sum.splits)
qed simp

subsection \<open>Every turn accounts for its requests\<close>

lemma refill_loop_requests:
  "refill_loop env E limit calls live b = Some b' \<Longrightarrow>
     \<exists>used. calls = used @ ba_refills b' \<and> batch_requests b' = batch_requests b + mset (taken used)"
proof (induction calls arbitrary: live b)
  case Nil
  then show ?case by (auto simp: batch_requests_def)
next
  case (Cons call calls)
  show ?case
  proof (cases "ba_sessions b = [] \<or> length (ba_sessions b) \<ge> 4")
    case True
    then have "b' = b\<lparr>ba_refills := call # calls\<rparr>" using Cons.prems by simp
    then show ?thesis by (simp add: batch_requests_def)
  next
    case room: False
    show ?thesis
    proof (cases call)
      case None
      then have "b' = b\<lparr>ba_refills := calls\<rparr>" using Cons.prems room by simp
      then show ?thesis using None by (intro exI [of _ "[None]"]) (simp add: batch_requests_def)
    next
      case (Some rq)
      have again: ?thesis
        if "refill_loop env E limit calls live' b1 = Some b'" "batch_requests b1 = batch_requests b + {#rq#}" for live' b1
      proof -
        from Cons.IH [OF that(1)] obtain used where
          "calls = used @ ba_refills b'" "batch_requests b' = batch_requests b1 + mset (taken used)" by blast
        then show ?thesis using that(2) Some by (intro exI [of _ "call # used"]) simp
      qed
      obtain r cache where A: "admit_refill E rq (ba_bpe_cache b) = Some (r, cache)"
        using Cons.prems room Some by (cases "admit_refill E rq (ba_bpe_cache b)") auto
      let ?b1 = "b\<lparr>ba_bpe_cache := cache\<rparr>"
      show ?thesis
      proof (cases r)
        case (Inl e)
        let ?b2 = "?b1\<lparr>ba_events := ba_events ?b1 @ [(rq, Inl e, [])]\<rparr>"
        have "refill_loop env E limit calls live ?b2 = Some b'"
          using Cons.prems room Some A Inl by (simp add: Let_def)
        then show ?thesis by (rule again) (simp add: batch_requests_def)
      next
        case (Inr tokens)
        let ?capacity = "sz_add (length tokens) (br_max_tokens rq)"
        show ?thesis
        proof (cases "so_thinking_budget_tokens (br_sampling rq) \<noteq> 0 \<or> sz_add live ?capacity > limit")
          case True
          then have "b' = ?b1\<lparr>ba_deferred := ba_deferred ?b1 @ [rq], ba_refills := calls\<rparr>"
            using Cons.prems room Some A Inr by (simp add: Let_def)
          then show ?thesis using Some by (intro exI [of _ "[call]"]) (simp add: batch_requests_def)
        next
          case False
          show ?thesis
          proof (cases "initialize_session env E True rq tokens")
            case (Inl e)
            let ?b2 = "?b1\<lparr>ba_events := ba_events ?b1 @ [(rq, Inl e, [])]\<rparr>"
            have "refill_loop env E limit calls live ?b2 = Some b'"
              using Cons.prems room Some A \<open>r = Inr tokens\<close> False Inl by (simp add: Let_def)
            then show ?thesis by (rule again) (simp add: batch_requests_def)
          next
            case (Inr s)
            let ?b2 = "?b1\<lparr>ba_sessions := ba_sessions ?b1 @ [s]\<rparr>"
            have "refill_loop env E limit calls (sz_add live ?capacity) ?b2 = Some b'"
              using Cons.prems room Some A \<open>r = Inr tokens\<close> False Inr by (simp add: Let_def)
            then show ?thesis
              by (rule again) (simp add: batch_requests_def initialize_session_request [OF Inr])
          qed
        qed
      qed
    qed
  qed
qed

text \<open>Between two states the batch took some requests and lost none.\<close>

definition accounts ::
    "batch_request multiset \<Rightarrow> batch_request option list \<Rightarrow> batch_request multiset \<Rightarrow> batch_request option list \<Rightarrow> bool" where
  "accounts old refills new rest \<longleftrightarrow>
     (\<exists>used. refills = used @ rest \<and> old + mset (taken used) \<subseteq># new \<and>
        set_mset new = set_mset (old + mset (taken used)))"

lemma accounts_trans:
  assumes "accounts a r b s" and "accounts b s c t"
  shows "accounts a r c t"
proof -
  obtain u where u: "r = u @ s" "a + mset (taken u) \<subseteq># b" "set_mset b = set_mset (a + mset (taken u))"
    using assms(1) by (auto simp: accounts_def)
  obtain v where v: "s = v @ t" "b + mset (taken v) \<subseteq># c" "set_mset c = set_mset (b + mset (taken v))"
    using assms(2) by (auto simp: accounts_def)
  have "a + mset (taken u) + mset (taken v) \<subseteq># b + mset (taken v)" using u(2) by simp
  moreover have "a + mset (taken (u @ v)) = a + mset (taken u) + mset (taken v)" by (simp add: add.assoc)
  ultimately have "a + mset (taken (u @ v)) \<subseteq># c" using v(2) by (metis subset_mset.order_trans)
  then show ?thesis using u v unfolding accounts_def by (intro exI [of _ "u @ v"]) auto
qed

lemma accounts_eq: "new = old + mset (taken used) \<Longrightarrow> accounts old (used @ rest) new rest"
  by (auto simp: accounts_def)

lemma batch_turn_requests:
  assumes "batch_turn env K E limit b = Some (r, b')"
  shows "accounts (batch_requests b) (ba_refills b) (batch_requests b') (ba_refills b')"
proof -
  obtain r1 ss1 where D: "decode_pass env K E (ba_sessions b) = (r1, ss1)" by fastforce
  have D': "map bs_request ss1 = map bs_request (ba_sessions b)" by (rule decode_pass_requests [OF D])
  show ?thesis
  proof (cases r1)
    case (Inl e)
    then have "b' = b\<lparr>ba_sessions := ss1\<rparr>" using assms D by (simp add: batch_turn_def)
    then show ?thesis using D' accounts_eq [of _ _ "[]"] by (simp add: batch_requests_def)
  next
    case (Inr u)
    obtain events r2 ss2 where F: "finish_sessions E ss1 = (events, r2, ss2)" by (cases "finish_sessions E ss1") auto
    note F' = finish_sessions_requests [OF F]
    show ?thesis
    proof (cases r2)
      case (Inl e)
      then have b': "b' = b\<lparr>ba_sessions := ss2, ba_events := ba_events b @ events\<rparr>"
        using assms D Inr F by (simp add: batch_turn_def)
      have "batch_requests b' = batch_requests b + mset (map fst events)"
        using b' D' F' by (simp add: batch_requests_def)
      moreover have "set_mset (mset (map fst events)) \<subseteq> set_mset (batch_requests b)"
        using F' unfolding D' by (auto simp: batch_requests_def)
      ultimately show ?thesis using b' unfolding accounts_def by (intro exI [of _ "[]"]) auto
    next
      case (Inr v)
      let ?b1 = "b\<lparr>ba_sessions := filter bs_active ss2, ba_events := ba_events b @ events\<rparr>"
      obtain b2 where L: "refill_loop env E limit (ba_refills b) (live_capacity ss2) ?b1 = Some b2"
        using assms D \<open>r1 = Inr u\<close> F Inr
        by (cases "refill_loop env E limit (ba_refills b) (live_capacity ss2) ?b1") (simp_all add: batch_turn_def)
      obtain ss3 failed where P: "prefill_first env E (ba_sessions b2) = (ss3, failed)" by fastforce
      have b': "b' = b2\<lparr>ba_sessions := ss3, ba_events := ba_events b2 @ failed\<rparr>"
        using assms D \<open>r1 = Inr u\<close> F Inr L P by (simp add: batch_turn_def)
      obtain used where U: "ba_refills b = used @ ba_refills b2" "batch_requests b2 = batch_requests ?b1 + mset (taken used)"
        using refill_loop_requests [OF L] by blast
      have "batch_requests ?b1 = batch_requests b"
        using F' Inr D' requests_split [of bs_request bs_active ss2] by (simp add: batch_requests_def)
      moreover have "batch_requests b' = batch_requests b2"
        using b' prefill_first_requests [OF P] by (simp add: batch_requests_def ac_simps)
      ultimately show ?thesis using U b' accounts_eq [of "batch_requests b'" "batch_requests b" used] by simp
    qed
  qed
qed

lemma batch_loop_requests:
  assumes "batch_loop env K E limit b = Some (r, b')"
  shows "accounts (batch_requests b) (ba_refills b) (batch_requests b') (ba_refills b') \<and> (r = Inr () \<longrightarrow> ba_sessions b' = [])"
proof -
  have "case y of (r, b') \<Rightarrow>
      accounts (batch_requests b) (ba_refills b) (batch_requests b') (ba_refills b') \<and> (r = Inr () \<longrightarrow> ba_sessions b' = [])"
    if "batch_loop env K E limit b = Some y" for y
  proof (rule batch_loop.raw_induct [where P = "\<lambda>env K E limit b y. case y of (r, b') \<Rightarrow>
      accounts (batch_requests b) (ba_refills b) (batch_requests b') (ba_refills b') \<and> (r = Inr () \<longrightarrow> ba_sessions b' = [])",
      OF _ that])
    fix loop env K E limit b y
    assume IH: "\<And>env K E limit b y. loop env K E limit b = Some y \<Longrightarrow> case y of (r, b') \<Rightarrow>
        accounts (batch_requests b) (ba_refills b) (batch_requests b') (ba_refills b') \<and> (r = Inr () \<longrightarrow> ba_sessions b' = [])"
      and y: "(if ba_sessions b = [] then Some (Inr (), b)
         else Option.bind (batch_turn env K E limit b) (\<lambda>(r, b').
           case r of Inl e \<Rightarrow> Some (Inl e, b') | Inr x \<Rightarrow> loop env K E limit b')) = Some y"
    show "case y of (r, b') \<Rightarrow>
        accounts (batch_requests b) (ba_refills b) (batch_requests b') (ba_refills b') \<and> (r = Inr () \<longrightarrow> ba_sessions b' = [])"
    proof (cases "ba_sessions b = []")
      case True
      then show ?thesis using y accounts_eq [of "batch_requests b" "batch_requests b" "[]"] by auto
    next
      case False
      then obtain r1 b1 where T: "batch_turn env K E limit b = Some (r1, b1)"
        using y by (cases "batch_turn env K E limit b") auto
      note A = batch_turn_requests [OF T]
      show ?thesis
      proof (cases r1)
        case (Inl e)
        then show ?thesis using y False T A by auto
      next
        case (Inr u)
        then have "loop env K E limit b1 = Some y" using y False T by simp
        from IH [OF this] show ?thesis using accounts_trans [OF A] by auto
      qed
    qed
  qed
  from this [OF assms] show ?thesis by simp
qed

subsection \<open>The whole batch\<close>

lemma complete_each_requests: "complete_each env E rqs w = Some (events, w') \<Longrightarrow> map fst events = rqs"
proof (induction rqs arbitrary: events w w')
  case (Cons rq rqs)
  then obtain r deltas w1 events1 where
    "complete_impl env E (br_on_delta rq) (br_prompt rq) (br_max_tokens rq) (br_sampling rq) w = Some (r, deltas, w1)"
    "complete_each env E rqs w1 = Some (events1, w')" "events = (rq, r, deltas) # events1"
    by (auto split: bind_splits prod.splits)
  then show ?case using Cons.IH by simp
qed simp

lemma fail_batch_requests: "mset (map fst (fail_batch e b)) = batch_requests b"
  by (simp add: fail_batch_def batch_requests_def comp_def)

lemma run_sessions_requests:
  assumes "run_sessions env K E limit refills pairs w = Some (events, rest, w')"
  shows "accounts (mset (map fst pairs)) refills (mset (map fst events)) rest"
proof -
  obtain ss failed where I: "initialize_all env E pairs = (ss, failed)" by fastforce
  let ?b = "\<lparr>ba_sessions = ss, ba_deferred = [], ba_refills = refills, ba_events = failed,
    ba_bpe_cache = ew_bpe_cache w\<rparr>"
  obtain r b where L: "batch_loop env K E limit ?b = Some (r, b)"
    using assms I by (cases "batch_loop env K E limit ?b") (auto simp: run_sessions_def)
  have "batch_requests ?b = mset (map fst pairs)"
    using initialize_all_requests [OF I] by (simp add: batch_requests_def add.commute)
  then have A: "accounts (mset (map fst pairs)) refills (batch_requests b) (ba_refills b)"
    "r = Inr () \<longrightarrow> ba_sessions b = []" using batch_loop_requests [OF L] by simp_all
  show ?thesis
  proof (cases r)
    case (Inl e)
    then have "events = fail_batch e b" "rest = ba_refills b"
      using assms I L by (simp_all add: run_sessions_def Let_def)
    then show ?thesis using A(1) fail_batch_requests [of e b] by simp
  next
    case (Inr u)
    obtain events1 where C: "complete_each env E (ba_deferred b)
        (w\<lparr>ew_prefix_cache := None, ew_bpe_cache := ba_bpe_cache b\<rparr>) = Some (events1, w')"
      "events = ba_events b @ events1" "rest = ba_refills b"
      using assms I L Inr by (auto simp: run_sessions_def Let_def split: bind_splits)
    have "mset (map fst events) = batch_requests b"
      using complete_each_requests [OF C(1)] C(2) A(2) Inr by (simp add: batch_requests_def)
    then show ?thesis using A(1) C(3) by simp
  qed
qed

lemma tokenize_batch_length:
  "tokenize_batch E rqs cache capacity = Some (Inr (tokens, capacity'), cache') \<Longrightarrow> length tokens = length rqs"
proof (induction rqs arbitrary: cache capacity tokens)
  case (Cons rq rqs)
  then show ?case
    by (auto split: if_splits sum.splits bind_splits prod.splits simp: res_bind_case)
qed simp

lemma complete_batch_reports:
  assumes "complete_batch env K E refills requests w = Some (r, events, rest, w')"
  shows "case r of
      Inl e \<Rightarrow> events = [] \<and> rest = refills
    | Inr _ \<Rightarrow> \<exists>used. refills = used @ rest \<and> mset (requests @ taken used) \<subseteq># mset (map fst events) \<and>
        set (map fst events) = set (requests @ taken used)"
proof -
  have each: ?thesis if "complete_each env E requests w0 = Some (events, w')" "r = Inr ()" "rest = refills" for w0
    using complete_each_requests [OF that(1)] that(2,3) by auto
  consider (size) "requests = [] \<or> length requests > 4"
    | (single) "\<not> (requests = [] \<or> length requests > 4)"
        "length requests = 1 \<or> (\<exists>rq \<in> set requests. so_thinking_budget_tokens (br_sampling rq) \<noteq> 0)"
    | (batch) "\<not> (requests = [] \<or> length requests > 4)"
        "\<not> (length requests = 1 \<or> (\<exists>rq \<in> set requests. so_thinking_budget_tokens (br_sampling rq) \<noteq> 0))" by blast
  then show ?thesis
  proof cases
    case size
    then show ?thesis using assms by (auto simp: complete_batch_def)
  next
    case single
    then show ?thesis using assms each unfolding complete_batch_def by (auto split: bind_splits)
  next
    case batch
    obtain r1 cache where T: "tokenize_batch E requests (ew_bpe_cache w) 0 = Some (r1, cache)"
      using assms batch
      by (cases "tokenize_batch E requests (ew_bpe_cache w) 0") (auto simp: complete_batch_def)
    let ?w = "w\<lparr>ew_bpe_cache := cache\<rparr>"
    let ?r = "res_bind r1 (\<lambda>(tokens, capacity). res_bind (batch_context_limit env) (\<lambda>limit. Inr (tokens, capacity, limit)))"
    note step = assms [unfolded complete_batch_def if_not_P [OF batch(1)] if_not_P [OF batch(2)] T]
    show ?thesis
    proof (cases ?r)
      case (Inl e)
      then show ?thesis using step by auto
    next
      case (Inr triple)
      then obtain tokens capacity limit where R: "r1 = Inr (tokens, capacity)" "triple = (tokens, capacity, limit)"
        by auto
      have zip: "map fst (zip requests tokens) = requests"
        using tokenize_batch_length [OF T [unfolded R(1)]] by simp
      show ?thesis
      proof (cases "capacity > limit")
        case True
        then show ?thesis using step Inr R(2) each [of ?w] by (auto split: bind_splits)
      next
        case False
        then have "run_sessions env K E limit refills (zip requests tokens) ?w = Some (events, rest, w')" "r = Inr ()"
          using step Inr R(2) by (auto split: bind_splits)
        from run_sessions_requests [OF this(1)] this(2) show ?thesis
          unfolding zip accounts_def by (auto simp flip: set_mset_mset)
      qed
    qed
  qed
qed

text \<open>C7. Whatever the kernels, the sampling, the callers and the exceptions: either the batch is refused
  before any event and before a request is taken from the queue, or every given and every taken request
  gets at least one event and no other request gets one.
\<close>

theorem batch_reports_every_request:
  assumes "complete_batch env K E refills requests w = Some (r, events, rest, w')"
  shows "case r of
      Inl e \<Rightarrow> events = [] \<and> rest = refills
    | Inr _ \<Rightarrow> \<exists>used. refills = used @ rest \<and> mset (requests @ taken used) \<subseteq># mset (map fst events) \<and>
        set (map fst events) = set (requests @ taken used)"
  using complete_batch_reports [OF assms] .

theorem batch_reports_every_request_witness:
  "\<exists>r events rest w'. complete_batch no_environment sample_multi serving_engine
      [Some (sample_request 2 ''ab''), None] [sample_request 0 ''cabc'', sample_request 1 ''b''] fresh_world =
      Some (r, events, rest, w') \<and>
    (case r of
       Inl e \<Rightarrow> events = [] \<and> rest = [Some (sample_request 2 ''ab''), None]
     | Inr _ \<Rightarrow> \<exists>used. [Some (sample_request 2 ''ab''), None] = used @ rest \<and>
         mset ([sample_request 0 ''cabc'', sample_request 1 ''b''] @ taken used) \<subseteq># mset (map fst events) \<and>
         set (map fst events) = set ([sample_request 0 ''cabc'', sample_request 1 ''b''] @ taken used))"
proof -
  obtain r events rest w' where run: "complete_batch no_environment sample_multi serving_engine
      [Some (sample_request 2 ''ab''), None] [sample_request 0 ''cabc'', sample_request 1 ''b''] fresh_world =
      Some (r, events, rest, w')" using sample_batch_runs by blast
  from batch_reports_every_request [OF run] run show ?thesis by blast
qed

subsection \<open>A batch is refused as a whole\<close>

text \<open>A request no tokenizer cache makes acceptable.\<close>

definition rejected :: "('s, 'ls, 'hl, 'm, 'g, 'r) NativeEngine \<Rightarrow> batch_request \<Rightarrow> bool" where
  "rejected E rq \<longleftrightarrow>
     validate_request E (br_max_tokens rq) (br_sampling rq) \<noteq> Inr () \<or>
     (\<forall>cache tokens cache'. encode (ne_unicode E) (ne_tokenizer E) cache (br_prompt rq) True = Some (Inr tokens, cache') \<longrightarrow>
        validate_prompt E tokens (br_max_tokens rq) \<noteq> Inr ())"

lemma tokenize_batch_accepts:
  "tokenize_batch E rqs cache capacity = Some (Inr result, cache') \<Longrightarrow> rq \<in> set rqs \<Longrightarrow> \<not> rejected E rq"
proof (induction rqs arbitrary: cache cache' capacity result)
  case Nil
  then show ?case by simp
next
  case (Cons first rqs)
  have valid: "validate_request E (br_max_tokens first) (br_sampling first) = Inr ()"
    using Cons.prems(1) unfolding validate_request_iff by (auto split: if_splits)
  then obtain r cache1 where enc: "encode (ne_unicode E) (ne_tokenizer E) cache (br_prompt first) True = Some (r, cache1)"
    using Cons.prems(1) unfolding validate_request_iff by (auto split: bind_splits)
  obtain tokens where tokens: "r = Inr tokens"
    using Cons.prems(1) valid enc unfolding validate_request_iff by (cases r) auto
  have prompt: "validate_prompt E tokens (br_max_tokens first) = Inr ()"
    using Cons.prems(1) valid enc tokens unfolding validate_request_iff validate_prompt_iff by (auto split: if_splits)
  obtain r2 cache2 where rest: "tokenize_batch E rqs cache1
      (sz_add capacity (sz_add (length tokens) (br_max_tokens first))) = Some (r2, cache2)"
    "Inr result = res_bind r2 (\<lambda>(rest, capacity'). Inr (tokens # rest, capacity'))"
    using Cons.prems(1) valid enc tokens prompt unfolding validate_request_iff validate_prompt_iff
    by (auto split: bind_splits)
  then obtain result2 where "r2 = Inr result2" by (cases r2) auto
  show ?case
  proof (cases "rq = first")
    case True
    then show ?thesis using valid enc tokens prompt unfolding rejected_def by auto
  next
    case False
    then show ?thesis using Cons.IH [OF rest(1) [unfolded \<open>r2 = _\<close>]] Cons.prems(2) by simp
  qed
qed

text \<open>C40. One request that has to be refused makes a batch of several fail as a whole: \<open>complete_batch\<close> raises an
  error before the other requests got anything, although each of them alone would have been answered.
\<close>

theorem one_rejected_request_fails_the_batch:
  assumes "2 \<le> length requests" and "\<forall>rq \<in> set requests. so_thinking_budget_tokens (br_sampling rq) = 0"
    and "rq \<in> set requests" and "rejected E rq"
    and "complete_batch env K E refills requests w = Some (r, events, rest, w')"
  shows "(\<exists>e. r = Inl e) \<and> events = [] \<and> rest = refills"
proof -
  have "\<exists>e. r = Inl e"
  proof (cases "requests = [] \<or> length requests > 4")
    case True
    then show ?thesis using assms(5) by (auto simp: complete_batch_def)
  next
    case few: False
    have "\<not> (length requests = 1 \<or> (\<exists>rq \<in> set requests. so_thinking_budget_tokens (br_sampling rq) \<noteq> 0))"
      using assms(1,2) by auto
    note step = assms(5) [unfolded complete_batch_def if_not_P [OF few] if_not_P [OF this]]
    obtain r1 cache where T: "tokenize_batch E requests (ew_bpe_cache w) 0 = Some (r1, cache)"
      using step by (cases "tokenize_batch E requests (ew_bpe_cache w) 0") auto
    have "\<exists>e. r1 = Inl e" using tokenize_batch_accepts [of E requests "ew_bpe_cache w" 0 _ cache rq] T assms(3,4)
      by (cases r1) auto
    then show ?thesis using step T by auto
  qed
  then show ?thesis using complete_batch_reports [OF assms(5)] by auto
qed

theorem one_rejected_request_fails_the_batch_witness:
  "\<exists>r events rest w'. complete_batch no_environment sample_multi serving_engine []
      [sample_request 0 ''cabc'', (sample_request 1 ''b'')\<lparr>br_max_tokens := 0\<rparr>] fresh_world =
      Some (r, events, rest, w') \<and> (\<exists>e. r = Inl e) \<and> events = []"
proof -
  let ?rqs = "[sample_request 0 ''cabc'', (sample_request 1 ''b'')\<lparr>br_max_tokens := 0\<rparr>]"
  have greedy: "greedy_requests ?rqs" "greedy_requests (taken [])"
    using sample_request_valid(2) by (simp_all add: greedy_requests_def sample_request_def)
  obtain r events rest w' where run: "complete_batch no_environment sample_multi serving_engine [] ?rqs fresh_world =
      Some (r, events, rest, w')"
    using complete_batch_ok [OF sample_batch_ok sample_batch_ready(1,2) greedy] by blast
  have "2 \<le> length ?rqs" by simp
  moreover have "\<forall>rq \<in> set ?rqs. so_thinking_budget_tokens (br_sampling rq) = 0"
    using sample_request_valid(2) by (simp add: sample_request_def greedy_sampling_def sample_sampling_def)
  moreover have "rejected serving_engine ((sample_request 1 ''b'')\<lparr>br_max_tokens := 0\<rparr>)"
    by (simp add: rejected_def validate_request_def)
  ultimately have "(\<exists>e. r = Inl e) \<and> events = [] \<and> rest = []"
    using one_rejected_request_fails_the_batch [of ?rqs "(sample_request 1 ''b'')\<lparr>br_max_tokens := 0\<rparr>", OF _ _ _ _ run]
    by simp
  then show ?thesis using run by blast
qed

end
