(* ===== verification/Executor.thy ===== *)
theory Executor
  imports Batch_Accounting
begin

text \<open>
  The thread that owns the engine, \<open>NativeEngineExecutor\<close> of \<^verbatim>\<open>src/native_engine.cpp\<close>: callers put
  tasks into a queue and wait for the promise of their task; the worker takes them out, several greedy
  requests at a time, and fulfils the promises.

  \<open>et_id\<close> stands for the promise of a task; it is also the \<open>br_id\<close> the bound callbacks carry. The
  \<open>resolved\<close> flags and the values of the promises are the list \<open>ex_resolved\<close>. What other threads enqueue
  while the worker waits or computes is an argument: \<open>arrivals\<close> for the waits of \<open>gather\<close>, one list
  per wait, and \<open>schedule\<close> for the calls of \<open>refill\<close>, one list per call.
\<close>

subsection \<open>Tasks and the state\<close>

datatype task_kind = generate | clear

record executor_task =
  et_id :: nat
  et_kind :: task_kind
  et_request :: batch_request

datatype outcome = Generated GenerationResult | Cleared | Failed error

record ('s, 'ls, 'hl, 'm) executor =
  ex_tasks :: "executor_task list"
  ex_stopping :: bool
  ex_running :: bool
  ex_resolved :: "(nat \<times> outcome) list"
  ex_world :: "('s, 'ls, 'hl, 'm) engine_world"

definition start_executor :: "('s, 'ls, 'hl, 'm) engine_world \<Rightarrow> ('s, 'ls, 'hl, 'm) executor" where
  "start_executor w = \<lparr>ex_tasks = [], ex_stopping = False, ex_running = True, ex_resolved = [], ex_world = w\<rparr>"

definition enqueue ::
    "executor_task \<Rightarrow> ('s, 'ls, 'hl, 'm) executor \<Rightarrow> ('s, 'ls, 'hl, 'm) executor result" where
  "enqueue task ex =
     (if ex_stopping ex then Inl (RuntimeError ''inference executor is stopping'')
      else Inr (ex\<lparr>ex_tasks := ex_tasks ex @ [task]\<rparr>))"

definition stop_executor :: "('s, 'ls, 'hl, 'm) executor \<Rightarrow> ('s, 'ls, 'hl, 'm) executor" where
  "stop_executor ex = ex\<lparr>ex_stopping := True\<rparr>"

subsection \<open>Taking tasks out of the queue\<close>

definition batchable :: "executor_task \<Rightarrow> bool" where
  "batchable task \<longleftrightarrow> et_kind task = generate \<and> so_thinking_budget_tokens (br_sampling (et_request task)) = 0"

text \<open>
  Up to \<open>slots\<close> further tasks; an empty queue is waited on. The result is the batch, the queue and the
  arrivals of waits that did not happen.
\<close>

fun gather ::
    "nat \<Rightarrow> executor_task list \<Rightarrow> executor_task list list \<Rightarrow>
     executor_task list \<times> executor_task list \<times> executor_task list list" where
  "gather 0 tasks arrivals = ([], tasks, arrivals)"
| "gather (Suc slots) (task # tasks) arrivals =
     (if batchable task
      then (case gather slots tasks arrivals of (batch, rest) \<Rightarrow> (task # batch, rest))
      else ([], task # tasks, arrivals))"
| "gather (Suc slots) [] ((task # tasks) # arrivals) =
     (if batchable task
      then (case gather slots tasks arrivals of (batch, rest) \<Rightarrow> (task # batch, rest))
      else ([], task # tasks, arrivals))"
| "gather (Suc slots) [] ([] # arrivals) = ([], [], arrivals)"
| "gather (Suc slots) [] [] = ([], [], [])"

definition take_batch ::
    "executor_task \<Rightarrow> executor_task list \<Rightarrow> executor_task list list \<Rightarrow>
     executor_task list \<times> executor_task list \<times> executor_task list list" where
  "take_batch task tasks arrivals =
     (if batchable task
      then (case gather 3 tasks arrivals of (batch, rest) \<Rightarrow> (task # batch, rest))
      else ([task], tasks, arrivals))"

definition bind_completion :: "executor_task \<Rightarrow> batch_request" where
  "bind_completion task = (et_request task)\<lparr>br_id := et_id task\<rparr>"

text \<open>The calls of \<open>refill\<close>: their answers and the queue after them.\<close>

fun refill_calls ::
    "executor_task list \<Rightarrow> executor_task list list \<Rightarrow> batch_request option list \<times> executor_task list" where
  "refill_calls tasks [] = ([], tasks)"
| "refill_calls tasks (arrived # schedule) =
     (case tasks @ arrived of
        [] \<Rightarrow> (case refill_calls [] schedule of (calls, tasks') \<Rightarrow> (None # calls, tasks'))
      | task # rest \<Rightarrow>
          if batchable task
          then (case refill_calls rest schedule of (calls, tasks') \<Rightarrow> (Some (bind_completion task) # calls, tasks'))
          else (case refill_calls (task # rest) schedule of (calls, tasks') \<Rightarrow> (None # calls, tasks')))"

subsection \<open>Fulfilling the promises\<close>

definition resolve :: "nat \<Rightarrow> outcome \<Rightarrow> (nat \<times> outcome) list \<Rightarrow> (nat \<times> outcome) list" where
  "resolve i outcome resolved =
     (if i \<in> fst ` set resolved then resolved else resolved @ [(i, outcome)])"

definition outcome_of :: "GenerationResult result \<Rightarrow> outcome" where
  "outcome_of r = (case r of Inl e \<Rightarrow> Failed e | Inr res \<Rightarrow> Generated res)"

definition report_event :: "batch_event \<Rightarrow> (nat \<times> outcome) list \<Rightarrow> (nat \<times> outcome) list" where
  "report_event event resolved = (case event of (rq, r, deltas) \<Rightarrow> resolve (br_id rq) (outcome_of r) resolved)"

definition fail_task :: "error \<Rightarrow> executor_task \<Rightarrow> (nat \<times> outcome) list \<Rightarrow> (nat \<times> outcome) list" where
  "fail_task e task resolved = resolve (et_id task) (Failed e) resolved"

text \<open>What the worker does with the tasks it took; the last component is the rest of the refill answers.\<close>

definition run_batch ::
    "environment \<Rightarrow> ('s, 'ls, 'm) multi_kernels \<Rightarrow> ('s, 'ls, 'hl, 'm, 'g, 'r) NativeEngine \<Rightarrow> executor_task list \<Rightarrow>
     batch_request option list \<Rightarrow> (nat \<times> outcome) list \<Rightarrow> ('s, 'ls, 'hl, 'm) engine_world \<Rightarrow>
     ((nat \<times> outcome) list \<times> ('s, 'ls, 'hl, 'm) engine_world \<times> batch_request option list) option" where
  "run_batch env K E batch calls resolved w =
     (if et_kind (hd batch) = clear then
        Some (resolve (et_id (hd batch)) Cleared resolved, clear_cache w, calls)
      else if length batch = 1 then
        (let rq = et_request (hd batch) in
         Option.bind (complete_impl env E (br_on_delta rq) (br_prompt rq) (br_max_tokens rq) (br_sampling rq) w)
           (\<lambda>(r, deltas, w1). Some (resolve (et_id (hd batch)) (outcome_of r) resolved, w1, calls)))
      else
        Option.bind (complete_batch env K E calls (map bind_completion batch) w) (\<lambda>(r, events, rest, w1).
          let resolved1 = fold report_event events resolved in
          case r of
            Inr _ \<Rightarrow> Some (resolved1, w1, rest)
          | Inl e \<Rightarrow> Some (fold (fail_task e) batch resolved1, w1, rest)))"

definition executor_turn ::
    "environment \<Rightarrow> ('s, 'ls, 'm) multi_kernels \<Rightarrow> ('s, 'ls, 'hl, 'm, 'g, 'r) NativeEngine \<Rightarrow>
     executor_task list list \<Rightarrow> executor_task list list \<Rightarrow> ('s, 'ls, 'hl, 'm) executor \<Rightarrow>
     (('s, 'ls, 'hl, 'm) executor \<times> executor_task list list \<times> batch_request option list) option" where
  "executor_turn env K E arrivals schedule ex =
     (case ex_tasks ex of
        [] \<Rightarrow> Some (if ex_stopping ex then ex\<lparr>ex_running := False\<rparr> else ex, arrivals, fst (refill_calls [] schedule))
      | task # tasks \<Rightarrow>
          (case take_batch task tasks arrivals of
             (batch, tasks1, left) \<Rightarrow>
               (case refill_calls tasks1 schedule of
                  (calls, tasks2) \<Rightarrow>
                    Option.bind (run_batch env K E batch calls (ex_resolved ex) (ex_world ex)) (\<lambda>(resolved, w, rest).
                      Some (ex\<lparr>ex_tasks := tasks2, ex_resolved := resolved, ex_world := w\<rparr>, left, rest)))))"

text \<open>
  The runs: \<open>submitted\<close> lists the tasks in the order they were enqueued. A turn of the worker happens with
  the arrivals and refill calls it makes, no fewer and no more.
\<close>

inductive executor_run ::
    "environment \<Rightarrow> ('s, 'ls, 'm) multi_kernels \<Rightarrow> ('s, 'ls, 'hl, 'm, 'g, 'r) NativeEngine \<Rightarrow>
     ('s, 'ls, 'hl, 'm) engine_world \<Rightarrow> executor_task list \<Rightarrow> ('s, 'ls, 'hl, 'm) executor \<Rightarrow> bool"
  for env K E w0 where
  start: "executor_run env K E w0 [] (start_executor w0)"
| submit: "executor_run env K E w0 submitted ex \<Longrightarrow> enqueue task ex = Inr ex' \<Longrightarrow>
    executor_run env K E w0 (submitted @ [task]) ex'"
| stop: "executor_run env K E w0 submitted ex \<Longrightarrow> executor_run env K E w0 submitted (stop_executor ex)"
| turn: "executor_run env K E w0 submitted ex \<Longrightarrow> ex_running ex \<Longrightarrow>
    executor_turn env K E arrivals schedule ex = Some (ex', [], []) \<Longrightarrow>
    concat arrivals @ concat schedule = [] \<or> \<not> ex_stopping ex \<Longrightarrow>
    executor_run env K E w0 (submitted @ concat arrivals @ concat schedule) ex'"

subsection \<open>No task is lost on the way out of the queue\<close>

lemma gather_tasks:
  "gather slots tasks arrivals = (batch, tasks', left) \<Longrightarrow> tasks @ concat arrivals = batch @ tasks' @ concat left"
  by (induction slots tasks arrivals arbitrary: batch rule: gather.induct) (auto split: if_splits prod.splits)

lemma gather_batchable:
  "gather slots tasks arrivals = (batch, tasks', left) \<Longrightarrow> (\<forall>task \<in> set batch. batchable task) \<and> length batch \<le> slots"
  by (induction slots tasks arrivals arbitrary: batch rule: gather.induct) (fastforce split: if_splits prod.splits)+

lemma take_batch_tasks:
  assumes "take_batch task tasks arrivals = (batch, tasks', left)"
  shows "task # tasks @ concat arrivals = batch @ tasks' @ concat left" and "hd batch = task" and "batch \<noteq> []"
    and "length batch \<le> 4" and "batch = [task] \<or> (\<forall>task \<in> set batch. batchable task)"
proof -
  obtain more tasks1 left1 where G: "gather 3 tasks arrivals = (more, tasks1, left1)" by (rule prod_cases3)
  note facts = gather_tasks [OF G] gather_batchable [OF G]
  show "task # tasks @ concat arrivals = batch @ tasks' @ concat left" "hd batch = task" "batch \<noteq> []"
    "length batch \<le> 4" "batch = [task] \<or> (\<forall>task \<in> set batch. batchable task)"
    using assms facts unfolding take_batch_def G by (auto split: if_splits)
qed

lemma refill_calls_tasks:
  "refill_calls tasks schedule = (calls, tasks') \<Longrightarrow>
     \<exists>popped. tasks @ concat schedule = popped @ tasks' \<and> taken calls = map bind_completion popped \<and>
       (\<forall>task \<in> set popped. batchable task) \<and> length calls = length schedule"
proof (induction tasks schedule arbitrary: calls tasks' rule: refill_calls.induct)
  case (1 tasks)
  then show ?case by simp
next
  case (2 tasks arrived schedule)
  show ?case
  proof (cases "tasks @ arrived")
    case Nil
    obtain calls1 tasks1 where R: "refill_calls [] schedule = (calls1, tasks1)" by fastforce
    obtain popped where P: "[] @ concat schedule = popped @ tasks1" "taken calls1 = map bind_completion popped"
      "\<forall>task \<in> set popped. batchable task" "length calls1 = length schedule"
      using 2(1) [OF Nil R] by blast
    have "calls = None # calls1" "tasks' = tasks1" using 2(4) Nil R by simp_all
    then show ?thesis using P Nil by (intro exI [of _ popped]) simp
  next
    case (Cons task rest)
    show ?thesis
    proof (cases "batchable task")
      case True
      obtain calls1 tasks1 where R: "refill_calls rest schedule = (calls1, tasks1)" by fastforce
      obtain popped where P: "rest @ concat schedule = popped @ tasks1" "taken calls1 = map bind_completion popped"
        "\<forall>task \<in> set popped. batchable task" "length calls1 = length schedule"
        using 2(2) [OF Cons True R] by blast
      have "calls = Some (bind_completion task) # calls1" "tasks' = tasks1" using 2(4) Cons True R by simp_all
      moreover have "tasks @ concat (arrived # schedule) = (task # popped) @ tasks1"
        using Cons P(1) by (simp flip: append_assoc)
      ultimately show ?thesis using P True by (intro exI [of _ "task # popped"]) simp
    next
      case False
      obtain calls1 tasks1 where R: "refill_calls (task # rest) schedule = (calls1, tasks1)" by fastforce
      obtain popped where P: "(task # rest) @ concat schedule = popped @ tasks1" "taken calls1 = map bind_completion popped"
        "\<forall>task \<in> set popped. batchable task" "length calls1 = length schedule"
        using 2(3) [OF Cons False R] by blast
      have "calls = None # calls1" "tasks' = tasks1" using 2(4) Cons False R by simp_all
      moreover have "tasks @ concat (arrived # schedule) = popped @ tasks1"
        using P(1) unfolding Cons [symmetric] by simp
      ultimately show ?thesis using P by (intro exI [of _ popped]) simp
    qed
  qed
qed

subsection \<open>Promises are fulfilled once\<close>

lemma resolve_ids:
  "set (map fst (resolve i outcome resolved)) = insert i (set (map fst resolved))"
  "distinct (map fst (resolve i outcome resolved)) \<longleftrightarrow> distinct (map fst resolved)"
  by (auto simp: resolve_def image_iff)

lemma report_events_ids:
  "set (map fst (fold report_event events resolved)) = br_id ` fst ` set events \<union> set (map fst resolved) \<and>
   (distinct (map fst (fold report_event events resolved)) \<longleftrightarrow> distinct (map fst resolved))"
proof (induction events arbitrary: resolved)
  case Nil
  then show ?case by simp
next
  case (Cons event events)
  obtain rq r deltas where event: "event = (rq, r, deltas)" by (cases event) auto
  show ?case using Cons.IH [of "report_event event resolved"]
    by (simp add: event report_event_def resolve_ids del: set_map)
qed

lemma fail_tasks_ids:
  "set (map fst (fold (fail_task e) tasks resolved)) = et_id ` set tasks \<union> set (map fst resolved) \<and>
   (distinct (map fst (fold (fail_task e) tasks resolved)) \<longleftrightarrow> distinct (map fst resolved))"
proof (induction tasks arbitrary: resolved)
  case Nil
  then show ?case by simp
next
  case (Cons task tasks)
  show ?case using Cons.IH [of "fail_task e task resolved"]
    by (simp add: fail_task_def resolve_ids del: set_map)
qed

lemma bind_completion_id [simp]: "br_id (bind_completion task) = et_id task"
  by (simp add: bind_completion_def)

lemma run_batch_ids:
  assumes run: "run_batch env K E batch calls resolved w = Some (resolved', w', [])" and some: "batch \<noteq> []"
    and shape: "et_kind (hd batch) = clear \<longrightarrow> length batch = 1"
    and popped: "taken calls = map bind_completion popped"
  shows "set (map fst resolved') = et_id ` set (batch @ popped) \<union> set (map fst resolved) \<and>
    (distinct (map fst resolved') \<longleftrightarrow> distinct (map fst resolved))"
proof (cases "length batch = 1")
  case True
  then obtain task where task: "batch = [task]" by (cases batch) auto
  have "\<exists>outcome. resolved' = resolve (et_id task) outcome resolved \<and> calls = []"
  proof (cases "et_kind task = clear")
    case True
    then show ?thesis using run task by (auto simp: run_batch_def)
  next
    case False
    then show ?thesis using run task by (auto simp: run_batch_def Let_def split: bind_splits)
  qed
  then obtain outcome where O: "resolved' = resolve (et_id task) outcome resolved" "calls = []" by blast
  then have "popped = []" using popped by simp
  then show ?thesis unfolding task O(1) resolve_ids by simp
next
  case False
  then have gen: "et_kind (hd batch) \<noteq> clear" using shape by blast
  then obtain r events rest w1 where
    C: "complete_batch env K E calls (map bind_completion batch) w = Some (r, events, rest, w1)"
    using run False unfolding run_batch_def
    by (cases "complete_batch env K E calls (map bind_completion batch) w") auto
  note R = complete_batch_reports [OF C]
  have res: "rest = [] \<and> resolved' = (case r of Inr x \<Rightarrow> fold report_event events resolved
      | Inl e \<Rightarrow> fold (fail_task e) batch (fold report_event events resolved))"
    using run False gen C unfolding run_batch_def by (cases r) (simp_all add: Let_def)
  show ?thesis
  proof (cases r)
    case (Inl e)
    then have "events = []" "calls = []" using R res by simp_all
    then have "resolved' = fold (fail_task e) batch resolved" "popped = []" using res Inl popped by simp_all
    then show ?thesis using fail_tasks_ids [of e batch resolved] by simp
  next
    case (Inr u)
    have "set (map fst events) = set (map bind_completion batch @ taken calls)" using R Inr res by simp
    then have "br_id ` set (map fst events) = br_id ` set (map bind_completion (batch @ popped))"
      unfolding popped by simp
    then have "br_id ` fst ` set events = et_id ` set (batch @ popped)" by (simp add: image_Un image_image)
    moreover have "resolved' = fold report_event events resolved" using res Inr by simp
    ultimately show ?thesis using report_events_ids [of events resolved] by simp
  qed
qed

text \<open>Every task that was enqueued is in the queue or has its promise fulfilled, and only one of the two.\<close>

definition executor_accounts :: "executor_task list \<Rightarrow> ('s, 'ls, 'hl, 'm) executor \<Rightarrow> bool" where
  "executor_accounts submitted ex \<longleftrightarrow>
     distinct (map fst (ex_resolved ex)) \<and>
     mset (map et_id submitted) = mset (map et_id (ex_tasks ex)) + mset (map fst (ex_resolved ex)) \<and>
     (\<not> ex_running ex \<longrightarrow> ex_stopping ex \<and> ex_tasks ex = [])"

lemma executor_turn_accounts:
  assumes inv: "executor_accounts submitted ex" and running: "ex_running ex"
    and turn: "executor_turn env K E arrivals schedule ex = Some (ex', [], [])"
    and dist: "distinct (map et_id (submitted @ concat arrivals @ concat schedule))"
  shows "executor_accounts (submitted @ concat arrivals @ concat schedule) ex'"
proof (cases "ex_tasks ex")
  case Nil
  then have "arrivals = []" "fst (refill_calls [] schedule) = []"
    and ex': "ex' = (if ex_stopping ex then ex\<lparr>ex_running := False\<rparr> else ex)"
    using turn by (simp_all add: executor_turn_def)
  moreover obtain calls tasks' where R: "refill_calls [] schedule = (calls, tasks')" by fastforce
  ultimately have "arrivals = []" "schedule = []" using refill_calls_tasks [OF R] by auto
  then show ?thesis using inv ex' Nil by (auto simp: executor_accounts_def)
next
  case (Cons task tasks)
  obtain batch tasks1 left where T: "take_batch task tasks arrivals = (batch, tasks1, left)"
    by (cases "take_batch task tasks arrivals") auto
  obtain calls tasks2 where R: "refill_calls tasks1 schedule = (calls, tasks2)" by fastforce
  obtain resolved w rest where B: "run_batch env K E batch calls (ex_resolved ex) (ex_world ex) = Some (resolved, w, rest)"
    using turn Cons T R
    by (cases "run_batch env K E batch calls (ex_resolved ex) (ex_world ex)") (auto simp: executor_turn_def)
  have fin: "ex' = ex\<lparr>ex_tasks := tasks2, ex_resolved := resolved, ex_world := w\<rparr>" "left = []" "rest = []"
    using turn Cons T R B by (simp_all add: executor_turn_def)
  note T' = take_batch_tasks [OF T]
  obtain popped where P: "tasks1 @ concat schedule = popped @ tasks2" "taken calls = map bind_completion popped"
    using refill_calls_tasks [OF R] by blast
  have "et_kind (hd batch) = clear \<longrightarrow> length batch = 1"
    using T'(2,5) \<open>batch \<noteq> []\<close> by (cases batch) (auto simp: batchable_def)
  note ids = run_batch_ids [OF B [unfolded fin(3)] T'(3) this P(2)]
  let ?all = "submitted @ concat arrivals @ concat schedule"
  have all: "ex_tasks ex @ concat arrivals @ concat schedule = batch @ popped @ tasks2"
  proof -
    have "ex_tasks ex @ concat arrivals @ concat schedule = (task # tasks @ concat arrivals) @ concat schedule"
      using Cons by simp
    also have "\<dots> = batch @ tasks1 @ concat schedule" unfolding T'(1) fin(2) by simp
    finally show ?thesis unfolding P(1) .
  qed
  have old: "mset (map et_id submitted) = mset (map et_id (ex_tasks ex)) + mset (map fst (ex_resolved ex))"
    "distinct (map fst (ex_resolved ex))" using inv by (simp_all add: executor_accounts_def)
  have "mset (map et_id ?all) =
      mset (map et_id (ex_tasks ex @ concat arrivals @ concat schedule)) + mset (map fst (ex_resolved ex))"
    unfolding map_append mset_append old(1) by (simp only: ac_simps)
  then have M: "mset (map et_id ?all) =
      mset (map et_id tasks2) + mset (map et_id (batch @ popped) @ map fst (ex_resolved ex))"
    unfolding all map_append mset_append by (simp only: ac_simps)
  then have "mset (map et_id ?all) = mset (map et_id tasks2 @ map et_id (batch @ popped) @ map fst (ex_resolved ex))"
    unfolding mset_append .
  from mset_eq_imp_distinct_iff [OF this] dist
  have D: "distinct (map et_id (batch @ popped) @ map fst (ex_resolved ex))" unfolding distinct_append by blast
  have "set (map fst resolved) = set (map et_id (batch @ popped) @ map fst (ex_resolved ex))" "distinct (map fst resolved)"
    using ids old(2) unfolding set_append set_map by blast+
  with D have "mset (map fst resolved) = mset (map et_id (batch @ popped) @ map fst (ex_resolved ex))"
    using set_eq_iff_mset_eq_distinct by metis
  then have "mset (map et_id ?all) = mset (map et_id tasks2) + mset (map fst resolved)" using M by (simp only:)
  then show ?thesis using \<open>distinct (map fst resolved)\<close> fin(1) running unfolding executor_accounts_def by simp
qed

lemma executor_run_accounts:
  "executor_run env K E w0 submitted ex \<Longrightarrow> distinct (map et_id submitted) \<Longrightarrow> executor_accounts submitted ex"
proof (induction rule: executor_run.induct)
  case start
  then show ?case by (simp add: executor_accounts_def start_executor_def)
next
  case (submit submitted ex task ex')
  then show ?case by (auto simp: executor_accounts_def enqueue_def split: if_splits)
next
  case (stop submitted ex)
  then show ?case by (simp add: executor_accounts_def stop_executor_def)
next
  case (turn submitted ex arrivals schedule ex')
  have "distinct (map et_id submitted)" using turn.prems unfolding map_append distinct_append by blast
  from executor_turn_accounts [OF turn.IH [OF this] turn.hyps(2,3) turn.prems] show ?case .
qed

subsection \<open>Promises are fulfilled rightly\<close>

definition outcome_ok ::
    "environment \<Rightarrow> ('s, 'ls, 'm) multi_kernels \<Rightarrow> ('s, 'ls, 'hl, 'm, 'g, 'r) NativeEngine \<Rightarrow> executor_task list \<Rightarrow> nat \<times> outcome \<Rightarrow> bool" where
  "outcome_ok env K E tasks x \<longleftrightarrow>
     (\<exists>task \<in> set tasks. et_id task = fst x \<and>
        (case snd x of
           Cleared \<Rightarrow> et_kind task = clear
         | Generated res \<Rightarrow> et_kind task = generate \<and> (\<exists>deltas. event_ok env K E (et_request task, Inr res, deltas))
         | Failed e \<Rightarrow> et_kind task = generate \<and> (\<exists>other \<in> set tasks. refused E (et_request other))))"

definition greedy_tasks :: "executor_task list \<Rightarrow> bool" where
  "greedy_tasks tasks \<longleftrightarrow> (\<forall>task \<in> set tasks. et_kind task = generate \<longrightarrow> greedy_sampling (br_sampling (et_request task)))"

definition executor_ready ::
    "environment \<Rightarrow> ('s, 'ls, 'm) multi_kernels \<Rightarrow> ('s, 'ls, 'hl, 'm, 'g, 'r) NativeEngine \<Rightarrow>
     ('s, 'ls, 'hl, 'm) engine_world \<Rightarrow> bool" where
  "executor_ready env K E w \<longleftrightarrow>
     batch_engine_ok env K E \<and> cache_sound env K E (ew_prefix_cache w) \<and> (\<exists>limit. batch_context_limit env = Inr limit)"

lemma outcome_ok_mono: "outcome_ok env K E tasks x \<Longrightarrow> set tasks \<subseteq> set tasks' \<Longrightarrow> outcome_ok env K E tasks' x"
  unfolding outcome_ok_def by (cases "snd x") (simp; blast)+

lemma bound_fields [simp]:
  "br_prompt (bind_completion task) = br_prompt (et_request task)"
  "br_max_tokens (bind_completion task) = br_max_tokens (et_request task)"
  "br_on_delta (bind_completion task) = br_on_delta (et_request task)"
  "br_sampling (bind_completion task) = br_sampling (et_request task)"
  by (simp_all add: bind_completion_def)

lemma bound_refused [simp]: "refused E (bind_completion task) \<longleftrightarrow> refused E (et_request task)"
  by (simp add: refused_def)

lemma bound_event [simp]:
  "event_ok env K E (bind_completion task, r, deltas) \<longleftrightarrow> event_ok env K E (et_request task, r, deltas)"
  by (cases r) (simp_all add: event_ok_def tokenized_def)

lemma resolve_member: "x \<in> set (resolve i outcome resolved) \<Longrightarrow> x \<in> set resolved \<or> x = (i, outcome)"
  by (auto simp: resolve_def split: if_splits)

lemma report_events_member:
  "x \<in> set (fold report_event events resolved) \<Longrightarrow>
     x \<in> set resolved \<or> (\<exists>rq r deltas. (rq, r, deltas) \<in> set events \<and> x = (br_id rq, outcome_of r))"
proof (induction events arbitrary: resolved)
  case Nil
  then show ?case by simp
next
  case (Cons event events)
  obtain rq r deltas where event: "event = (rq, r, deltas)" by (rule prod_cases3)
  have "x \<in> set (fold report_event events (report_event event resolved))" using Cons.prems by simp
  from Cons.IH [OF this] have "x \<in> set (report_event event resolved) \<or>
      (\<exists>rq r deltas. (rq, r, deltas) \<in> set events \<and> x = (br_id rq, outcome_of r))" .
  then show ?case
  proof
    assume "x \<in> set (report_event event resolved)"
    then have "x \<in> set resolved \<or> x = (br_id rq, outcome_of r)" unfolding event report_event_def by (auto dest: resolve_member)
    then show ?thesis unfolding event by auto
  qed auto
qed

lemma fail_tasks_member:
  "x \<in> set (fold (fail_task e) tasks resolved) \<Longrightarrow>
     x \<in> set resolved \<or> (\<exists>task \<in> set tasks. x = (et_id task, Failed e))"
proof (induction tasks arbitrary: resolved)
  case Nil
  then show ?case by simp
next
  case (Cons task tasks)
  have "x \<in> set (fold (fail_task e) tasks (fail_task e task resolved))" using Cons.prems by simp
  from Cons.IH [OF this] show ?case by (auto simp: fail_task_def dest: resolve_member)
qed

lemma run_single_ok:
  assumes ready: "executor_ready env K E w" and greedy: "greedy_tasks [task]"
  shows "\<exists>outcome w'. run_batch env K E [task] calls resolved w = Some (resolve (et_id task) outcome resolved, w', calls) \<and>
    executor_ready env K E w' \<and> outcome_ok env K E [task] (et_id task, outcome)"
proof (cases "et_kind task")
  case clear
  have "executor_ready env K E (clear_cache w)" using ready by (simp add: executor_ready_def clear_cache_def cache_sound_def)
  then show ?thesis using clear by (intro exI [of _ Cleared] exI [of _ "clear_cache w"]) (simp add: run_batch_def outcome_ok_def)
next
  case generate
  have "batch_engine_ok env K E" "cache_sound env K E (ew_prefix_cache w)" using ready by (simp_all add: executor_ready_def)
  moreover have "greedy_sampling (br_sampling (et_request task))" using greedy generate by (simp add: greedy_tasks_def)
  ultimately obtain r deltas w' where R: "complete_impl env E (br_on_delta (et_request task)) (br_prompt (et_request task))
      (br_max_tokens (et_request task)) (br_sampling (et_request task)) w = Some (r, deltas, w')"
    "event_ok env K E (et_request task, r, deltas)" "cache_sound env K E (ew_prefix_cache w')"
    using complete_impl_event by blast
  have "outcome_ok env K E [task] (et_id task, outcome_of r)"
  proof (cases r)
    case (Inl e)
    then have "refused E (et_request task)" using R(2) by (simp add: event_ok_def)
    then show ?thesis using Inl generate by (simp add: outcome_ok_def outcome_of_def)
  next
    case (Inr res)
    then show ?thesis using R(2) generate by (auto simp: outcome_ok_def outcome_of_def)
  qed
  moreover have "executor_ready env K E w'" using ready R(3) by (simp add: executor_ready_def)
  ultimately show ?thesis using R(1) generate
    by (intro exI [of _ "outcome_of r"] exI [of _ w']) (simp add: run_batch_def)
qed

lemma run_batch_ok:
  assumes ready: "executor_ready env K E w" and some: "batch \<noteq> []" and few: "length batch \<le> 4"
    and shape: "length batch = 1 \<or> (\<forall>task \<in> set batch. batchable task)"
    and greedy: "greedy_tasks (batch @ popped)" and popped: "taken calls = map bind_completion popped"
      "\<forall>task \<in> set popped. batchable task"
  shows "\<exists>resolved' w' used rest. run_batch env K E batch calls resolved w = Some (resolved', w', rest) \<and> calls = used @ rest \<and>
    executor_ready env K E w' \<and> (\<forall>x \<in> set resolved'. x \<in> set resolved \<or> outcome_ok env K E (batch @ popped) x)"
proof (cases "length batch = 1")
  case True
  then obtain task where task: "batch = [task]" by (cases batch) auto
  have "greedy_tasks [task]" using greedy by (simp add: greedy_tasks_def task)
  from run_single_ok [OF ready this] obtain outcome w' where S:
    "run_batch env K E [task] calls resolved w = Some (resolve (et_id task) outcome resolved, w', calls)"
    "executor_ready env K E w'" "outcome_ok env K E [task] (et_id task, outcome)" by blast
  have "outcome_ok env K E (batch @ popped) (et_id task, outcome)" by (rule outcome_ok_mono [OF S(3)]) (simp add: task)
  then have "\<forall>x \<in> set (resolve (et_id task) outcome resolved). x \<in> set resolved \<or> outcome_ok env K E (batch @ popped) x"
    by (auto dest: resolve_member)
  then show ?thesis using S(1,2) unfolding task
    by (intro exI [of _ "resolve (et_id task) outcome resolved"] exI [of _ w'] exI [of _ "[]"] exI [of _ calls]) simp
next
  case False
  then have kinds: "\<forall>task \<in> set (batch @ popped). et_kind task = generate"
    using shape popped(2) by (auto simp: batchable_def)
  then have gen: "et_kind (hd batch) \<noteq> clear" using some by (cases batch) simp_all
  let ?rqs = "map bind_completion batch"
  have "batch_engine_ok env K E" "cache_sound env K E (ew_prefix_cache w)"
    and "\<exists>limit. batch_context_limit env = Inr limit" using ready by (simp_all add: executor_ready_def)
  moreover have "greedy_requests ?rqs" "greedy_requests (taken calls)"
    using greedy kinds by (simp_all add: greedy_requests_def greedy_tasks_def popped(1))
  ultimately obtain r events rest w' where C: "complete_batch env K E calls ?rqs w = Some (r, events, rest, w')"
    "cache_sound env K E (ew_prefix_cache w')" "batch_outcome env K E ?rqs calls r events rest"
    using complete_batch_ok by blast
  have ready': "executor_ready env K E w'" using ready C(2) by (simp add: executor_ready_def)
  have known: "outcome_ok env K E (batch @ popped) x"
    if "x = (et_id task, out)" "task \<in> set (batch @ popped)" "case out of Cleared \<Rightarrow> False
      | Generated res \<Rightarrow> \<exists>deltas. event_ok env K E (et_request task, Inr res, deltas)
      | Failed e \<Rightarrow> \<exists>other \<in> set (batch @ popped). refused E (et_request other)" for x task out
    using that kinds unfolding outcome_ok_def by (cases out) auto
  show ?thesis
  proof (cases r)
    case (Inl e)
    have O: "events = []" "rest = calls" "\<exists>rq \<in> set ?rqs. refused E rq"
      using C(3) Inl some few by (auto simp: batch_outcome_def)
    have run: "run_batch env K E batch calls resolved w = Some (fold (fail_task e) batch resolved, w', calls)"
      using gen False C(1) Inl O(1,2) by (simp add: run_batch_def)
    have bad: "\<exists>other \<in> set (batch @ popped). refused E (et_request other)" using O(3) by auto
    have "x \<in> set resolved \<or> outcome_ok env K E (batch @ popped) x"
      if "x \<in> set (fold (fail_task e) batch resolved)" for x
      using fail_tasks_member [OF that]
    proof
      assume "\<exists>task \<in> set batch. x = (et_id task, Failed e)"
      then obtain task where task: "task \<in> set batch" "x = (et_id task, Failed e)" by blast
      have "outcome_ok env K E (batch @ popped) x" by (rule known [OF task(2)]) (use task(1) bad in simp_all)
      then show ?thesis ..
    qed (rule disjI1)
    then show ?thesis using run ready'
      by (intro exI [of _ "fold (fail_task e) batch resolved"] exI [of _ w'] exI [of _ "[]"] exI [of _ calls]) simp
  next
    case (Inr u)
    obtain used where O: "list_all (event_ok env K E) events" "calls = used @ rest"
      "mset (map fst events) = mset (?rqs @ taken used)" using C(3) Inr by (auto simp: batch_outcome_def)
    have run: "run_batch env K E batch calls resolved w = Some (fold report_event events resolved, w', rest)"
      using gen False C(1) Inr by (simp add: run_batch_def Let_def)
    have "set (map fst events) = set (?rqs @ taken used)" using O(3) by (metis set_mset_mset)
    moreover have "set (taken used) \<subseteq> set (map bind_completion popped)" unfolding popped(1) [symmetric] O(2) by simp
    ultimately have "set (map fst events) \<subseteq> set (map bind_completion (batch @ popped))" by (simp only: set_append map_append) blast
    then have within: "\<exists>task \<in> set (batch @ popped). rq = bind_completion task" if "(rq, r, deltas) \<in> set events" for rq r deltas
    proof -
      have "rq \<in> set (map fst events)" using that by (simp add: rev_image_eqI)
      with \<open>set (map fst events) \<subseteq> _\<close> have "rq \<in> set (map bind_completion (batch @ popped))" by (rule subsetD)
      then show ?thesis unfolding set_map by blast
    qed
    have "x \<in> set resolved \<or> outcome_ok env K E (batch @ popped) x" if x: "x \<in> set (fold report_event events resolved)" for x
      using report_events_member [OF x]
    proof
      assume "\<exists>rq r deltas. (rq, r, deltas) \<in> set events \<and> x = (br_id rq, outcome_of r)"
      then obtain rq r deltas where e: "(rq, r, deltas) \<in> set events" "x = (br_id rq, outcome_of r)" by blast
      from within [OF e(1)] obtain task where task: "task \<in> set (batch @ popped)" "rq = bind_completion task" by blast
      have "event_ok env K E (rq, r, deltas)" using O(1) e(1) by (auto simp: list_all_iff)
      then have ev: "event_ok env K E (et_request task, r, deltas)" unfolding task(2) by simp
      have "outcome_ok env K E (batch @ popped) x"
      proof (rule known [OF _ task(1)])
        show "x = (et_id task, outcome_of r)" using e(2) task(2) by simp
        show "case outcome_of r of Cleared \<Rightarrow> False
            | Generated res \<Rightarrow> \<exists>deltas. event_ok env K E (et_request task, Inr res, deltas)
            | Failed e \<Rightarrow> \<exists>other \<in> set (batch @ popped). refused E (et_request other)"
        proof (cases r)
          case (Inl e)
          then have "refused E (et_request task)" using ev by (simp add: event_ok_def)
          then show ?thesis using Inl task(1) by (auto simp: outcome_of_def)
        next
          case (Inr res)
          then show ?thesis using ev by (auto simp: outcome_of_def)
        qed
      qed
      then show ?thesis ..
    qed simp
    then show ?thesis using run ready' O(2)
      by (intro exI [of _ "fold report_event events resolved"] exI [of _ w'] exI [of _ used] exI [of _ rest]) simp
  qed
qed

lemma gather_no_waits: "gather slots tasks [] = (batch, tasks', left) \<Longrightarrow> left = []"
  by (induction slots tasks "[] :: executor_task list list" arbitrary: batch rule: gather.induct)
    (auto split: if_splits prod.splits)

lemma greedy_tasks_mono: "greedy_tasks tasks \<Longrightarrow> set tasks' \<subseteq> set tasks \<Longrightarrow> greedy_tasks tasks'"
  unfolding greedy_tasks_def by blast

lemma executor_turn_ok:
  assumes ready: "executor_ready env K E (ex_world ex)"
    and greedy: "greedy_tasks (ex_tasks ex @ concat arrivals @ concat schedule)"
    and turn: "executor_turn env K E arrivals schedule ex = Some (ex', [], [])"
  shows "executor_ready env K E (ex_world ex') \<and>
    set (ex_tasks ex') \<subseteq> set (ex_tasks ex @ concat arrivals @ concat schedule) \<and>
    (\<forall>x \<in> set (ex_resolved ex'). x \<in> set (ex_resolved ex) \<or>
       outcome_ok env K E (ex_tasks ex @ concat arrivals @ concat schedule) x)"
proof (cases "ex_tasks ex")
  case Nil
  then show ?thesis using turn ready by (cases "ex_stopping ex") (auto simp: executor_turn_def)
next
  case (Cons task tasks)
  obtain batch tasks1 left where T: "take_batch task tasks arrivals = (batch, tasks1, left)" by (rule prod_cases3)
  obtain calls tasks2 where R: "refill_calls tasks1 schedule = (calls, tasks2)" by fastforce
  note T' = take_batch_tasks [OF T]
  obtain popped where P: "tasks1 @ concat schedule = popped @ tasks2" "taken calls = map bind_completion popped"
    "\<forall>task \<in> set popped. batchable task" using refill_calls_tasks [OF R] by blast
  obtain resolved w rest where B: "run_batch env K E batch calls (ex_resolved ex) (ex_world ex) = Some (resolved, w, rest)"
    using turn Cons T R
    by (cases "run_batch env K E batch calls (ex_resolved ex) (ex_world ex)") (auto simp: executor_turn_def)
  have fin: "ex' = ex\<lparr>ex_tasks := tasks2, ex_resolved := resolved, ex_world := w\<rparr>" "left = []"
    using turn Cons T R B by (simp_all add: executor_turn_def)
  have all: "set (ex_tasks ex @ concat arrivals @ concat schedule) = set (batch @ popped @ tasks2)"
  proof -
    have "ex_tasks ex @ concat arrivals @ concat schedule = (task # tasks @ concat arrivals) @ concat schedule"
      using Cons by simp
    also have "\<dots> = batch @ tasks1 @ concat schedule" unfolding T'(1) fin(2) by simp
    finally show ?thesis unfolding P(1) by simp
  qed
  have mono: "set (batch @ popped) \<subseteq> set (ex_tasks ex @ concat arrivals @ concat schedule)" unfolding all by auto
  have "greedy_tasks (batch @ popped)" by (rule greedy_tasks_mono [OF greedy mono])
  moreover have "length batch = 1 \<or> (\<forall>task \<in> set batch. batchable task)" using T'(5) by auto
  ultimately have "\<exists>resolved' w' used rest. run_batch env K E batch calls (ex_resolved ex) (ex_world ex) =
      Some (resolved', w', rest) \<and> calls = used @ rest \<and> executor_ready env K E w' \<and>
      (\<forall>x \<in> set resolved'. x \<in> set (ex_resolved ex) \<or> outcome_ok env K E (batch @ popped) x)"
    by (intro run_batch_ok [OF ready T'(3,4) _ _ P(2,3)])
  then have new: "executor_ready env K E w"
    "\<forall>x \<in> set resolved. x \<in> set (ex_resolved ex) \<or> outcome_ok env K E (batch @ popped) x" using B by simp_all
  show ?thesis
  proof (intro conjI ballI)
    show "executor_ready env K E (ex_world ex')" using new(1) fin(1) by simp
    show "set (ex_tasks ex') \<subseteq> set (ex_tasks ex @ concat arrivals @ concat schedule)"
      unfolding all using fin(1) by auto
    fix x
    assume "x \<in> set (ex_resolved ex')"
    then have "x \<in> set resolved" using fin(1) by simp
    with new(2) have "x \<in> set (ex_resolved ex) \<or> outcome_ok env K E (batch @ popped) x" by (rule bspec)
    then show "x \<in> set (ex_resolved ex) \<or> outcome_ok env K E (ex_tasks ex @ concat arrivals @ concat schedule) x"
      using outcome_ok_mono [OF _ mono] by blast
  qed
qed

lemma executor_turn_moves:
  assumes ready: "executor_ready env K E (ex_world ex)" and greedy: "greedy_tasks (ex_tasks ex)"
  shows "\<exists>ex'. executor_turn env K E [] [] ex = Some (ex', [], []) \<and>
    (if ex_tasks ex = [] then ex_running ex' = (ex_running ex \<and> \<not> ex_stopping ex)
     else length (ex_tasks ex') < length (ex_tasks ex))"
proof (cases "ex_tasks ex")
  case Nil
  then show ?thesis by (simp add: executor_turn_def)
next
  case (Cons task tasks)
  obtain batch tasks1 left where T: "take_batch task tasks [] = (batch, tasks1, left)" by (rule prod_cases3)
  note T' = take_batch_tasks [OF T]
  have left: "left = []"
  proof (cases "batchable task")
    case True
    obtain more rest where "gather 3 tasks [] = (more, rest, left)"
      using T True by (cases "gather 3 tasks []") (auto simp: take_batch_def)
    then show ?thesis by (rule gather_no_waits)
  next
    case False
    then show ?thesis using T by (simp add: take_batch_def)
  qed
  have split: "task # tasks = batch @ tasks1" using T'(1) left by simp
  have "set (batch @ []) \<subseteq> set (ex_tasks ex)" unfolding Cons split by simp
  from greedy_tasks_mono [OF greedy this] have "greedy_tasks (batch @ [])" .
  moreover have "length batch = 1 \<or> (\<forall>task \<in> set batch. batchable task)" using T'(5) by auto
  ultimately have "\<exists>resolved' w' used rest. run_batch env K E batch [] (ex_resolved ex) (ex_world ex) =
      Some (resolved', w', rest) \<and> [] = used @ rest \<and> executor_ready env K E w' \<and>
      (\<forall>x \<in> set resolved'. x \<in> set (ex_resolved ex) \<or> outcome_ok env K E (batch @ []) x)"
    by (intro run_batch_ok [OF ready T'(3,4)]) simp_all
  then obtain resolved w used rest where
    "run_batch env K E batch [] (ex_resolved ex) (ex_world ex) = Some (resolved, w, rest)" "[] = used @ rest" by blast
  then have "executor_turn env K E [] [] ex = Some (ex\<lparr>ex_tasks := tasks1, ex_resolved := resolved, ex_world := w\<rparr>, [], [])"
    using Cons T left by (simp add: executor_turn_def)
  moreover have "length tasks1 < length (task # tasks)" unfolding split using T'(3) by (cases batch) simp_all
  ultimately show ?thesis using Cons by simp
qed

lemma executor_run_ok:
  assumes "executor_ready env K E w0"
  shows "executor_run env K E w0 submitted ex \<Longrightarrow> greedy_tasks submitted \<Longrightarrow>
    executor_ready env K E (ex_world ex) \<and> set (ex_tasks ex) \<subseteq> set submitted \<and>
    (\<forall>x \<in> set (ex_resolved ex). outcome_ok env K E submitted x)"
proof (induction rule: executor_run.induct)
  case start
  then show ?case using assms by (simp add: start_executor_def)
next
  case (submit submitted ex task ex')
  have "greedy_tasks submitted" by (rule greedy_tasks_mono [OF submit.prems]) auto
  note IH = submit.IH [OF this]
  have ex': "ex' = ex\<lparr>ex_tasks := ex_tasks ex @ [task]\<rparr>" using submit.hyps(2) by (auto simp: enqueue_def split: if_splits)
  show ?case
  proof (intro conjI ballI)
    show "executor_ready env K E (ex_world ex')" using IH ex' by simp
    show "set (ex_tasks ex') \<subseteq> set (submitted @ [task])" using IH ex' by auto
    fix x
    assume "x \<in> set (ex_resolved ex')"
    then have "outcome_ok env K E submitted x" using IH ex' by simp
    then show "outcome_ok env K E (submitted @ [task]) x" by (rule outcome_ok_mono) auto
  qed
next
  case (stop submitted ex)
  then show ?case by (simp add: stop_executor_def)
next
  case (turn submitted ex arrivals schedule ex')
  let ?new = "concat arrivals @ concat schedule"
  have "greedy_tasks submitted" by (rule greedy_tasks_mono [OF turn.prems]) simp
  note IH = turn.IH [OF this]
  have within: "set (ex_tasks ex @ ?new) \<subseteq> set (submitted @ ?new)" using IH by auto
  have "executor_ready env K E (ex_world ex)" using IH by blast
  note T = executor_turn_ok [OF this greedy_tasks_mono [OF turn.prems within] turn.hyps(3)]
  show ?case
  proof (intro conjI ballI)
    show "executor_ready env K E (ex_world ex')" using T by blast
    show "set (ex_tasks ex') \<subseteq> set (submitted @ ?new)" using T within by blast
    fix x
    assume "x \<in> set (ex_resolved ex')"
    then have "x \<in> set (ex_resolved ex) \<or> outcome_ok env K E (ex_tasks ex @ ?new) x" using T by blast
    then show "outcome_ok env K E (submitted @ ?new) x"
    proof
      assume "x \<in> set (ex_resolved ex)"
      then have "outcome_ok env K E submitted x" using IH by blast
      then show ?thesis by (rule outcome_ok_mono) simp
    next
      assume "outcome_ok env K E (ex_tasks ex @ ?new) x"
      then show ?thesis using within by (rule outcome_ok_mono)
    qed
  qed
qed

subsection \<open>A sample run\<close>

definition sample_tasks :: "executor_task list" where
  "sample_tasks = [\<lparr>et_id = 0, et_kind = generate, et_request = sample_request 0 ''cabc''\<rparr>,
     \<lparr>et_id = 1, et_kind = generate, et_request = sample_request 1 ''b''\<rparr>,
     \<lparr>et_id = 2, et_kind = clear, et_request = sample_request 2 ''a''\<rparr>]"

lemma sample_tasks_ok: "distinct (map et_id sample_tasks)" "greedy_tasks sample_tasks"
  using sample_request_valid(2) by (simp_all add: sample_tasks_def greedy_tasks_def sample_request_def)

lemma sample_executor_ready: "executor_ready no_environment sample_multi serving_engine fresh_world"
  using sample_batch_ok sample_batch_ready(1,2) by (simp add: executor_ready_def)

lemma submit_all:
  "executor_run env K E w0 submitted ex \<Longrightarrow> \<not> ex_stopping ex \<Longrightarrow>
     executor_run env K E w0 (submitted @ tasks) (ex\<lparr>ex_tasks := ex_tasks ex @ tasks\<rparr>)"
proof (induction tasks arbitrary: submitted ex)
  case Nil
  then show ?case by simp
next
  case (Cons task tasks)
  let ?ex = "ex\<lparr>ex_tasks := ex_tasks ex @ [task]\<rparr>"
  have "executor_run env K E w0 (submitted @ [task]) ?ex"
    by (rule executor_run.submit [OF Cons.prems(1)]) (simp add: enqueue_def Cons.prems(2))
  from Cons.IH [OF this] Cons.prems(2) show ?case by simp
qed

lemma sample_executor_run:
  "\<exists>ex. executor_run no_environment sample_multi serving_engine fresh_world sample_tasks ex \<and> length (ex_tasks ex) < 3"
proof -
  let ?ex = "(start_executor fresh_world)\<lparr>ex_tasks := sample_tasks\<rparr>"
  let ?run = "executor_run no_environment sample_multi serving_engine fresh_world"
  have run: "?run sample_tasks ?ex"
    using submit_all [OF executor_run.start, of fresh_world no_environment sample_multi serving_engine sample_tasks]
    by (simp add: start_executor_def)
  have "executor_ready no_environment sample_multi serving_engine (ex_world ?ex)" "greedy_tasks (ex_tasks ?ex)"
    using sample_executor_ready sample_tasks_ok by (simp_all add: start_executor_def)
  from executor_turn_moves [OF this] obtain ex' where
    turn: "executor_turn no_environment sample_multi serving_engine [] [] ?ex = Some (ex', [], [])" and
    short: "length (ex_tasks ex') < length (ex_tasks ?ex)" by (auto simp: sample_tasks_def)
  have "ex_running ?ex" by (simp add: start_executor_def)
  from executor_run.turn [OF run this turn] have "?run sample_tasks ex'" by simp
  moreover have "length (ex_tasks ex') < 3" using short by (simp add: sample_tasks_def)
  ultimately show ?thesis by blast
qed

subsection \<open>Properties\<close>

text \<open>C4. Whatever the callers enqueue and whenever they do it, whatever fails: every task that was enqueued is
  waiting in the queue or has its promise fulfilled, exactly once and not both. When the worker has ended,
  no task is waiting, so every caller got an answer.
\<close>

theorem every_promise_fulfilled_once:
  assumes "executor_run env K E w0 submitted ex" and "distinct (map et_id submitted)"
  shows "distinct (map fst (ex_resolved ex)) \<and>
    mset (map et_id submitted) = mset (map et_id (ex_tasks ex)) + mset (map fst (ex_resolved ex)) \<and>
    (\<not> ex_running ex \<longrightarrow> ex_tasks ex = [])"
  using executor_run_accounts [OF assms] unfolding executor_accounts_def by blast

theorem every_promise_fulfilled_once_witness:
  "\<exists>ex. executor_run no_environment sample_multi serving_engine fresh_world sample_tasks ex \<and>
     distinct (map fst (ex_resolved ex)) \<and> ex_resolved ex \<noteq> [] \<and>
     mset (map et_id sample_tasks) = mset (map et_id (ex_tasks ex)) + mset (map fst (ex_resolved ex))"
proof -
  obtain ex where ex: "executor_run no_environment sample_multi serving_engine fresh_world sample_tasks ex"
    "length (ex_tasks ex) < 3" using sample_executor_run by blast
  note P = every_promise_fulfilled_once [OF ex(1) sample_tasks_ok(1)]
  then have "size (mset (map et_id sample_tasks)) =
      size (mset (map et_id (ex_tasks ex)) + mset (map fst (ex_resolved ex)))" by (simp only:)
  then have "3 = length (ex_tasks ex) + length (ex_resolved ex)" by (simp add: sample_tasks_def)
  then have "ex_resolved ex \<noteq> []" using ex(2) by auto
  then show ?thesis using ex(1) P by blast
qed



end
