(* ===== verification/Expert_Cache.thy ===== *)
theory Expert_Cache
  imports Prelude
begin

text \<open>
  The cache of expert weights, \<^verbatim>\<open>include/qwen38/expert_cache.hpp\<close>: admission under a byte budget,
  eviction by frequency and age, leases that pin entries, and a history of evicted keys. A hash
  table is an association list in an iteration order of the table. The \<open>use_count\<close> of an
  entry's value is one plus the number \<open>en_leases\<close> of handles callers hold. A loader is \<open>None\<close>
  for an empty \<open>std::function\<close>, and otherwise throws, returns null (\<open>Inr None\<close>) or a value.
\<close>

record 'v cache_entry =
  en_value :: 'v
  en_bytes :: nat
  en_frequency :: nat
  en_last_touch :: nat
  en_leases :: nat

record cache_history =
  hi_frequency :: nat
  hi_last_touch :: nat

record cache_stats =
  st_hits :: nat
  st_misses :: nat
  st_evictions :: nat
  st_load_failures :: nat
  st_refusals :: nat
  st_resident_bytes :: nat
  st_peak_bytes :: nat
  st_entries :: nat
  st_hit_bytes :: nat
  st_miss_bytes :: nat
  st_history_entries :: nat
  st_history_hits :: nat

record 'v expert_cache =
  ec_budget_bytes :: nat
  ec_decay_period :: nat
  ec_history_limit :: nat
  ec_resident_bytes :: nat
  ec_pending_bytes :: nat
  ec_operations :: nat
  ec_tick :: nat
  ec_loading :: bool
  ec_entries :: "(string \<times> 'v cache_entry) list"
  ec_history :: "(string \<times> cache_history) list"
  ec_stats :: cache_stats

definition expert_cache_init :: "nat \<Rightarrow> nat \<Rightarrow> nat \<Rightarrow> 'v expert_cache result" where
  "expert_cache_init budget_bytes decay_period history_limit =
     (if decay_period = 0 then Inl (InvalidArgument ''expert-cache decay period is zero'')
      else Inr \<lparr>ec_budget_bytes = budget_bytes, ec_decay_period = decay_period,
        ec_history_limit = history_limit, ec_resident_bytes = 0, ec_pending_bytes = 0,
        ec_operations = 0, ec_tick = 0, ec_loading = False, ec_entries = [], ec_history = [],
        ec_stats = \<lparr>st_hits = 0, st_misses = 0, st_evictions = 0, st_load_failures = 0,
          st_refusals = 0, st_resident_bytes = 0, st_peak_bytes = 0, st_entries = 0, st_hit_bytes = 0,
          st_miss_bytes = 0, st_history_entries = 0, st_history_hits = 0\<rparr>\<rparr>)"

definition refuse :: "string \<Rightarrow> 'v expert_cache \<Rightarrow> 'a result \<times> 'v expert_cache" where
  "refuse reason c =
     (Inl (RuntimeError reason),
      c\<lparr>ec_stats := (ec_stats c)\<lparr>st_refusals := sz_add (st_refusals (ec_stats c)) 1\<rparr>\<rparr>)"

definition add_stat :: "nat \<Rightarrow> nat \<Rightarrow> nat" where
  "add_stat destination v = (if destination > SIZE_MAX - v then SIZE_MAX else destination + v)"

definition decay :: "nat \<Rightarrow> nat" where
  "decay frequency = max 1 (frequency div 2 + frequency mod 2)"

definition begin_operation :: "'v expert_cache \<Rightarrow> 'v expert_cache" where
  "begin_operation c =
     (let operations = (if ec_operations c = SIZE_MAX then 0 else ec_operations c) + 1;
          c1 = c\<lparr>ec_operations := operations\<rparr>
      in if operations mod ec_decay_period c = 0 then
           c1\<lparr>ec_entries := map (\<lambda>(k, e). (k, e\<lparr>en_frequency := decay (en_frequency e)\<rparr>)) (ec_entries c),
              ec_history := map (\<lambda>(k, h). (k, h\<lparr>hi_frequency := decay (hi_frequency h)\<rparr>)) (ec_history c)\<rparr>
         else c1)"

text \<open>The new tick and the cache after a possible halving of all ages.\<close>

definition next_tick :: "'v expert_cache \<Rightarrow> nat \<times> 'v expert_cache" where
  "next_tick c =
     (let c1 = (if ec_tick c = SIZE_MAX then
          c\<lparr>ec_entries := map (\<lambda>(k, e). (k, e\<lparr>en_last_touch := en_last_touch e div 2\<rparr>)) (ec_entries c),
            ec_tick := ec_tick c div 2,
            ec_history := map (\<lambda>(k, h). (k, h\<lparr>hi_last_touch := hi_last_touch h div 2\<rparr>)) (ec_history c)\<rparr>
        else c)
      in (ec_tick c1 + 1, c1\<lparr>ec_tick := ec_tick c1 + 1\<rparr>))"

definition saturating_succ :: "nat \<Rightarrow> nat" where
  "saturating_succ frequency = (if frequency \<noteq> SIZE_MAX then frequency + 1 else frequency)"

definition update_entry ::
    "string \<Rightarrow> ('v cache_entry \<Rightarrow> 'v cache_entry) \<Rightarrow> 'v expert_cache \<Rightarrow> 'v expert_cache" where
  "update_entry key f c = c\<lparr>ec_entries := map (\<lambda>(k, e). (k, if k = key then f e else e)) (ec_entries c)\<rparr>"

definition touch :: "string \<Rightarrow> 'v expert_cache \<Rightarrow> 'v expert_cache" where
  "touch key c =
     (let c1 = update_entry key (\<lambda>e. e\<lparr>en_frequency := saturating_succ (en_frequency e)\<rparr>) c;
          (tick, c2) = next_tick c1
      in update_entry key (\<lambda>e. e\<lparr>en_last_touch := tick\<rparr>) c2)"

definition sync_stats :: "'v expert_cache \<Rightarrow> 'v expert_cache" where
  "sync_stats c = c\<lparr>ec_stats := (ec_stats c)\<lparr>st_resident_bytes := ec_resident_bytes c,
     st_entries := length (ec_entries c), st_history_entries := length (ec_history c)\<rparr>\<rparr>"

definition better_victim :: "'v cache_entry \<Rightarrow> 'v cache_entry \<Rightarrow> bool" where
  "better_victim e candidate \<longleftrightarrow> en_frequency e < en_frequency candidate \<or>
     en_frequency e = en_frequency candidate \<and> en_last_touch e < en_last_touch candidate"

fun pick_candidate ::
    "(string \<times> 'v cache_entry) list \<Rightarrow> (string \<times> 'v cache_entry) option \<Rightarrow> (string \<times> 'v cache_entry) option" where
  "pick_candidate [] candidate = candidate"
| "pick_candidate ((k, e) # rest) candidate =
     (if en_leases e + 1 \<noteq> 1 then pick_candidate rest candidate
      else case candidate of
        None \<Rightarrow> pick_candidate rest (Some (k, e))
      | Some (k', e') \<Rightarrow>
          pick_candidate rest (if better_victim e e' then Some (k, e) else candidate))"

fun oldest_history ::
    "(string \<times> cache_history) list \<Rightarrow> string \<times> cache_history \<Rightarrow> string \<times> cache_history" where
  "oldest_history [] oldest = oldest"
| "oldest_history (h # rest) oldest =
     oldest_history rest (if hi_last_touch (snd h) < hi_last_touch (snd oldest) then h else oldest)"

definition insert_or_assign :: "string \<Rightarrow> 'a \<Rightarrow> (string \<times> 'a) list \<Rightarrow> (string \<times> 'a) list" where
  "insert_or_assign key v xs =
     (if key \<in> fst ` set xs then map (\<lambda>(k, x). (k, if k = key then v else x)) xs else xs @ [(key, v)])"

definition remember :: "string \<Rightarrow> 'v cache_entry \<Rightarrow> nat \<Rightarrow> (string \<times> cache_history) list \<Rightarrow> (string \<times> cache_history) list" where
  "remember key e limit history =
     (if limit = 0 then history
      else
        let kept = (if length history \<ge> limit
                    then filter (\<lambda>(k, _). k \<noteq> fst (oldest_history history (hd history))) history
                    else history)
        in insert_or_assign key \<lparr>hi_frequency = en_frequency e, hi_last_touch = en_last_touch e\<rparr> kept)"

definition evict_one :: "'v expert_cache \<Rightarrow> bool \<times> 'v expert_cache" where
  "evict_one c =
     (case pick_candidate (ec_entries c) None of
        None \<Rightarrow> (False, c)
      | Some (key, e) \<Rightarrow>
          (True, sync_stats (c\<lparr>
             ec_history := remember key e (ec_history_limit c) (ec_history c),
             ec_resident_bytes := ec_resident_bytes c - en_bytes e,
             ec_entries := filter (\<lambda>(k, _). k \<noteq> key) (ec_entries c),
             ec_stats := (ec_stats c)\<lparr>st_evictions := sz_add (st_evictions (ec_stats c)) 1\<rparr>\<rparr>)))"

lemma pick_candidate_step:
  "pick_candidate (x # rest) cand = pick_candidate rest cand \<and>
     (en_leases (snd x) \<noteq> 0 \<or> (\<exists>r. cand = Some r \<and> \<not> better_victim (snd x) (snd r))) \<or>
   pick_candidate (x # rest) cand = pick_candidate rest (Some x) \<and> en_leases (snd x) = 0 \<and>
     (\<forall>r. cand = Some r \<longrightarrow> better_victim (snd x) (snd r))"
  by (cases x; cases cand) auto

lemma pick_candidate_sound:
  "pick_candidate xs cand = Some r \<Longrightarrow> r \<in> set xs \<and> en_leases (snd r) = 0 \<or> cand = Some r"
proof (induction xs arbitrary: cand)
  case Nil
  then show ?case by simp
next
  case (Cons x xs)
  consider "pick_candidate xs cand = Some r"
    | "pick_candidate xs (Some x) = Some r" "en_leases (snd x) = 0"
    using pick_candidate_step [of x xs cand] Cons.prems by argo
  then show ?case using Cons.IH by cases force+
qed

lemma pick_candidate_Some: "\<exists>r. pick_candidate xs (Some q) = Some r"
  by (induction xs arbitrary: q) auto

lemma pick_candidate_None: "pick_candidate xs None = None \<Longrightarrow> \<forall>ke \<in> set xs. 0 < en_leases (snd ke)"
proof (induction xs)
  case Nil
  then show ?case by simp
next
  case (Cons x xs)
  have "pick_candidate xs (Some x) \<noteq> None" using pick_candidate_Some [of xs x] by auto
  then show ?case using Cons by (cases x) (auto split: if_splits)
qed

lemma pick_candidate_member:
  assumes "pick_candidate xs None = Some (k, e)"
  shows "(k, e) \<in> set xs \<and> en_leases e = 0"
  using pick_candidate_sound [OF assms] by simp

lemma evict_one_shrinks:
  assumes "evict_one c = (True, c')"
  shows "length (ec_entries c') < length (ec_entries c)"
proof -
  obtain key e where p: "pick_candidate (ec_entries c) None = Some (key, e)"
    using assms by (auto simp: evict_one_def split: option.splits)
  then have "(key, e) \<in> set (ec_entries c)" using pick_candidate_member by auto
  then have "length (filter (\<lambda>(k, _). k \<noteq> key) (ec_entries c)) < length (ec_entries c)"
    by (intro length_filter_less) auto
  then show ?thesis using assms p by (auto simp: evict_one_def sync_stats_def)
qed

text \<open>The loop \<open>while (resident > limit) if (!evict_one()) return false\<close> of \<open>make_room\<close> and \<open>trim\<close>.\<close>

function evict_until :: "nat \<Rightarrow> 'v expert_cache \<Rightarrow> bool \<times> 'v expert_cache" where
  "evict_until limit c =
     (if ec_resident_bytes c > limit then
        (case evict_one c of
           (False, c') \<Rightarrow> (False, c')
         | (True, c') \<Rightarrow> evict_until limit c')
      else (True, c))"
  by pat_completeness auto
termination
  by (relation "measure (\<lambda>(limit, c). length (ec_entries c))") (auto dest!: evict_one_shrinks [OF sym])

declare evict_until.simps [simp del]

function evict_all :: "'v expert_cache \<Rightarrow> 'v expert_cache" where
  "evict_all c = (case evict_one c of (False, c') \<Rightarrow> c' | (True, c') \<Rightarrow> evict_all c')"
  by pat_completeness auto
termination
  by (relation "measure (\<lambda>c. length (ec_entries c))") (auto dest!: evict_one_shrinks [OF sym])

declare evict_all.simps [simp del]

definition make_room :: "nat \<Rightarrow> 'v expert_cache \<Rightarrow> bool \<times> 'v expert_cache" where
  "make_room bytes c =
     (if bytes > ec_budget_bytes c \<or> ec_pending_bytes c > ec_budget_bytes c - bytes then (False, c)
      else evict_until (ec_budget_bytes c - sz_add (ec_pending_bytes c) bytes) c)"

definition load_failed :: "error \<Rightarrow> nat \<Rightarrow> 'v expert_cache \<Rightarrow> 'a result \<times> 'v expert_cache" where
  "load_failed err bytes c =
     (Inl err, sync_stats (c\<lparr>ec_pending_bytes := ec_pending_bytes c - bytes, ec_loading := False,
        ec_stats := (ec_stats c)\<lparr>st_load_failures := sz_add (st_load_failures (ec_stats c)) 1\<rparr>\<rparr>))"

text \<open>The part of \<open>acquire\<close> from the call of the loader on; the caller's handle is a lease.\<close>

definition insert_loaded ::
    "string \<Rightarrow> nat \<Rightarrow> 'v option result \<Rightarrow> 'v expert_cache \<Rightarrow> 'v result \<times> 'v expert_cache" where
  "insert_loaded key bytes loaded c =
     (case loaded of
        Inl err \<Rightarrow> load_failed err bytes c
      | Inr None \<Rightarrow> load_failed (RuntimeError ''expert-cache loader returned null'') bytes c
      | Inr (Some v) \<Rightarrow>
          if ec_resident_bytes c > SIZE_MAX - bytes then
            load_failed (RuntimeError ''expert-cache resident byte counter overflow'') bytes c
          else
            let history = map_of (ec_history c) key;
                frequency = (case history of None \<Rightarrow> 1 | Some h \<Rightarrow> saturating_succ (hi_frequency h));
                (tick, c1) = next_tick c
            in if key \<in> fst ` set (ec_entries c1) then
                 load_failed (RuntimeError ''expert-cache insertion found an existing key'') bytes c1
               else
                 let e = \<lparr>en_value = v, en_bytes = bytes, en_frequency = frequency, en_last_touch = tick,
                          en_leases = 1\<rparr>;
                     c2 = c1\<lparr>ec_entries := ec_entries c1 @ [(key, e)]\<rparr>;
                     c3 = (if history = None then c2
                           else c2\<lparr>ec_history := filter (\<lambda>(k, _). k \<noteq> key) (ec_history c2),
                                   ec_stats := (ec_stats c2)\<lparr>st_history_hits :=
                                     sz_add (st_history_hits (ec_stats c2)) 1\<rparr>\<rparr>);
                     resident = ec_resident_bytes c3 + bytes
                 in (Inr v, sync_stats (c3\<lparr>ec_pending_bytes := ec_pending_bytes c3 - bytes,
                       ec_loading := False, ec_resident_bytes := resident,
                       ec_stats := (ec_stats c3)\<lparr>st_peak_bytes :=
                         max (st_peak_bytes (ec_stats c3)) resident\<rparr>\<rparr>)))"

definition acquire ::
    "string \<Rightarrow> nat \<Rightarrow> 'v option result option \<Rightarrow> 'v expert_cache \<Rightarrow> 'v result \<times> 'v expert_cache" where
  "acquire key bytes loader c0 =
     (if ec_loading c0 then refuse ''reentrant expert-cache acquire'' c0
      else if key = [] then refuse ''expert-cache key is empty'' c0
      else if bytes = 0 then refuse ''expert-cache entry size is zero'' c0
      else
        let c = begin_operation c0 in
        case map_of (ec_entries c) key of
          Some e \<Rightarrow>
            if en_bytes e \<noteq> bytes then refuse ''expert-cache key has a different byte size'' c
            else
              let c1 = c\<lparr>ec_stats := (ec_stats c)\<lparr>st_hits := sz_add (st_hits (ec_stats c)) 1,
                         st_hit_bytes := add_stat (st_hit_bytes (ec_stats c)) bytes\<rparr>\<rparr>
              in (Inr (en_value e),
                  update_entry key (\<lambda>e. e\<lparr>en_leases := en_leases e + 1\<rparr>) (touch key c1))
        | None \<Rightarrow>
            let c1 = c\<lparr>ec_stats := (ec_stats c)\<lparr>st_misses := sz_add (st_misses (ec_stats c)) 1,
                       st_miss_bytes := add_stat (st_miss_bytes (ec_stats c)) bytes\<rparr>\<rparr>
            in case loader of
                 None \<Rightarrow> refuse ''expert-cache loader is empty'' c1
               | Some load \<Rightarrow>
                   (case make_room bytes c1 of
                      (False, c2) \<Rightarrow> refuse ''expert-cache admission refused'' c2
                    | (True, c2) \<Rightarrow>
                        insert_loaded key bytes load
                          (c2\<lparr>ec_pending_bytes := ec_pending_bytes c2 + bytes, ec_loading := True\<rparr>)))"

definition trim :: "'v expert_cache \<Rightarrow> bool result \<times> 'v expert_cache" where
  "trim c =
     (if ec_loading c then (Inl (RuntimeError ''reentrant expert-cache mutation''), c)
      else case evict_until (ec_budget_bytes c) c of (ok, c') \<Rightarrow> (Inr ok, sync_stats c'))"

definition set_budget :: "nat \<Rightarrow> 'v expert_cache \<Rightarrow> bool result \<times> 'v expert_cache" where
  "set_budget bytes c =
     (if ec_loading c then (Inl (RuntimeError ''reentrant expert-cache mutation''), c)
      else trim (c\<lparr>ec_budget_bytes := bytes\<rparr>))"

definition clear :: "'v expert_cache \<Rightarrow> unit result \<times> 'v expert_cache" where
  "clear c =
     (if ec_loading c then (Inl (RuntimeError ''reentrant expert-cache mutation''), c)
      else (Inr (), sync_stats ((evict_all c)\<lparr>ec_history := []\<rparr>)))"

text \<open>A caller drops one of its handles.\<close>

definition release :: "string \<Rightarrow> 'v expert_cache \<Rightarrow> 'v expert_cache" where
  "release key c = update_entry key (\<lambda>e. e\<lparr>en_leases := en_leases e - 1\<rparr>) c"

subsection \<open>The invariant\<close>

definition entry_bytes :: "(string \<times> 'v cache_entry) list \<Rightarrow> nat" where
  "entry_bytes es = sum_list (map (\<lambda>(_, e). en_bytes e) es)"

definition entry_ok :: "nat \<Rightarrow> string \<times> 'v cache_entry \<Rightarrow> bool" where
  "entry_ok tick ke \<longleftrightarrow> fst ke \<noteq> [] \<and> 0 < en_bytes (snd ke) \<and> 1 \<le> en_frequency (snd ke) \<and>
     en_last_touch (snd ke) \<le> tick"

text \<open>What holds throughout an operation, also while a loader runs.\<close>

definition core_inv :: "'v expert_cache \<Rightarrow> bool" where
  "core_inv c \<longleftrightarrow>
     0 < ec_decay_period c \<and> ec_tick c \<le> SIZE_MAX \<and>
     distinct (map fst (ec_entries c)) \<and> list_all (entry_ok (ec_tick c)) (ec_entries c) \<and>
     distinct (map fst (ec_history c)) \<and>
     fst ` set (ec_entries c) \<inter> fst ` set (ec_history c) = {} \<and>
     length (ec_history c) \<le> ec_history_limit c \<and>
     ec_resident_bytes c = entry_bytes (ec_entries c) \<and>
     ec_resident_bytes c \<le> st_peak_bytes (ec_stats c) \<and> st_peak_bytes (ec_stats c) \<le> SIZE_MAX"

definition cache_inv :: "'v expert_cache \<Rightarrow> bool" where
  "cache_inv c \<longleftrightarrow> core_inv c \<and> \<not> ec_loading c \<and> ec_pending_bytes c = 0 \<and>
     ec_budget_bytes c \<le> SIZE_MAX"

lemma map_keys_values:
  "map fst (map (\<lambda>(k, e). (k, f k e)) es) = map fst es"
  by (induction es) auto

lemma comp_keys_values [simp]: "fst \<circ> (\<lambda>(k, e). (k, f k e)) = fst"
  by auto

lemma entry_bytes_map:
  assumes "\<And>k e. en_bytes (f k e) = en_bytes e"
  shows "entry_bytes (map (\<lambda>(k, e). (k, f k e)) es) = entry_bytes es"
  unfolding entry_bytes_def by (induction es) (auto simp: assms)

lemma entry_bytes_remove:
  assumes "distinct (map fst es)" and "(key, e) \<in> set es"
  shows "entry_bytes (filter (\<lambda>(k, _). k \<noteq> key) es) + en_bytes e = entry_bytes es"
  using assms
proof (induction es)
  case Nil
  then show ?case by simp
next
  case (Cons x es)
  obtain k d where x: "x = (k, d)" by fastforce
  show ?case
  proof (cases "k = key")
    case True
    then have "filter (\<lambda>(k, _). k \<noteq> key) es = es" "d = e"
      using Cons.prems x by (force simp: filter_id_conv image_iff)+
    then show ?thesis using x True by (simp add: entry_bytes_def)
  next
    case False
    then show ?thesis using Cons x by (auto simp: entry_bytes_def)
  qed
qed

lemma oldest_history_member: "oldest_history hs h \<in> insert h (set hs)"
  by (induction hs h rule: oldest_history.induct) auto

lemma remember_ok:
  assumes "distinct (map fst hs)" and "length hs \<le> limit" and "key \<notin> fst ` set hs"
  shows "distinct (map fst (remember key e limit hs)) \<and> length (remember key e limit hs) \<le> limit \<and>
    fst ` set (remember key e limit hs) \<subseteq> insert key (fst ` set hs)"
proof (cases "limit = 0")
  case True
  then show ?thesis using assms by (auto simp: remember_def)
next
  case False
  let ?old = "fst (oldest_history hs (hd hs))"
  let ?kept = "if length hs \<ge> limit then filter (\<lambda>(k, _). k \<noteq> ?old) hs else hs"
  have kept: "distinct (map fst ?kept)" "fst ` set ?kept \<subseteq> fst ` set hs" "length ?kept < limit"
  proof -
    show "distinct (map fst ?kept)" using assms(1) by (simp add: distinct_map_filter)
    show "fst ` set ?kept \<subseteq> fst ` set hs" by auto
    show "length ?kept < limit"
    proof (cases "length hs \<ge> limit")
      case True
      then have "hs \<noteq> []" using False by auto
      then have "oldest_history hs (hd hs) \<in> set hs"
        using oldest_history_member [of hs "hd hs"] by auto
      then have "length (filter (\<lambda>(k, _). k \<noteq> ?old) hs) < length hs"
        by (intro length_filter_less) (auto simp: split_beta)
      then show ?thesis using True assms(2) by simp
    qed simp
  qed
  have "remember key e limit hs =
      ?kept @ [(key, \<lparr>hi_frequency = en_frequency e, hi_last_touch = en_last_touch e\<rparr>)]"
    using False kept(2) assms(3) by (auto simp: remember_def insert_or_assign_def Let_def)
  then show ?thesis using kept assms(3) by auto
qed

lemma evict_one_core:
  assumes "core_inv c" and "evict_one c = (r, c')"
  shows "core_inv c' \<and> ec_budget_bytes c' = ec_budget_bytes c \<and> ec_loading c' = ec_loading c \<and>
    ec_pending_bytes c' = ec_pending_bytes c \<and> ec_history_limit c' = ec_history_limit c \<and>
    ec_resident_bytes c' \<le> ec_resident_bytes c \<and> set (ec_entries c') \<subseteq> set (ec_entries c) \<and>
    (\<forall>ke \<in> set (ec_entries c). 0 < en_leases (snd ke) \<longrightarrow> ke \<in> set (ec_entries c'))"
proof (cases "pick_candidate (ec_entries c) None")
  case None
  then show ?thesis using assms by (simp add: evict_one_def)
next
  case (Some ke)
  obtain key e where ke: "ke = (key, e)" by fastforce
  have mem: "(key, e) \<in> set (ec_entries c)" and free: "en_leases e = 0"
    using pick_candidate_member Some ke by auto
  let ?es = "filter (\<lambda>(k, _). k \<noteq> key) (ec_entries c)"
  have c': "ec_entries c' = ?es" "ec_history c' = remember key e (ec_history_limit c) (ec_history c)"
    "ec_resident_bytes c' = ec_resident_bytes c - en_bytes e" "ec_tick c' = ec_tick c"
    "ec_decay_period c' = ec_decay_period c" "ec_history_limit c' = ec_history_limit c"
    "ec_budget_bytes c' = ec_budget_bytes c" "ec_loading c' = ec_loading c"
    "ec_pending_bytes c' = ec_pending_bytes c" "st_peak_bytes (ec_stats c') = st_peak_bytes (ec_stats c)"
    using assms(2) Some ke by (auto simp: evict_one_def sync_stats_def)
  note inv = assms(1) [unfolded core_inv_def]
  have "key \<notin> fst ` set (ec_history c)"
    using inv imageI [OF mem, of fst] by auto
  then have hist: "distinct (map fst (ec_history c'))" "length (ec_history c') \<le> ec_history_limit c"
    "fst ` set (ec_history c') \<subseteq> insert key (fst ` set (ec_history c))"
    using remember_ok [of "ec_history c" "ec_history_limit c" key e] inv c'(2) by auto
  have "fst ` set ?es \<subseteq> fst ` set (ec_entries c) - {key}" by auto
  then have "fst ` set ?es \<inter> fst ` set (ec_history c') = {}" using hist(3) inv by blast
  moreover have "ec_resident_bytes c' = entry_bytes ?es"
    using entry_bytes_remove [OF _ mem] inv c'(3) by fastforce
  moreover have "distinct (map fst ?es)" using inv by (simp add: distinct_map_filter)
  moreover have "list_all (entry_ok (ec_tick c)) ?es" using inv by (auto simp: list_all_iff)
  moreover have "\<forall>ke \<in> set (ec_entries c). 0 < en_leases (snd ke) \<longrightarrow> ke \<in> set ?es"
  proof (intro ballI impI)
    fix x
    assume x: "x \<in> set (ec_entries c)" "0 < en_leases (snd x)"
    have "fst x \<noteq> key"
    proof
      assume "fst x = key"
      then have "snd x = e"
        using eq_key_imp_eq_value [of "ec_entries c" key "snd x" e] x(1) mem inv by (cases x) auto
      then show False using x(2) free by simp
    qed
    then show "x \<in> set ?es" using x(1) by (cases x) simp
  qed
  ultimately show ?thesis using hist(1,2) inv unfolding core_inv_def c' by auto
qed

text \<open>What an operation that only evicts leaves alone.\<close>

definition evicted_from :: "'v expert_cache \<Rightarrow> 'v expert_cache \<Rightarrow> bool" where
  "evicted_from c c' \<longleftrightarrow>
     core_inv c' \<and> ec_budget_bytes c' = ec_budget_bytes c \<and> ec_loading c' = ec_loading c \<and>
     ec_pending_bytes c' = ec_pending_bytes c \<and> ec_history_limit c' = ec_history_limit c \<and>
     ec_resident_bytes c' \<le> ec_resident_bytes c \<and> set (ec_entries c') \<subseteq> set (ec_entries c) \<and>
     (\<forall>ke \<in> set (ec_entries c). 0 < en_leases (snd ke) \<longrightarrow> ke \<in> set (ec_entries c'))"

lemma evicted_from_refl: "core_inv c \<Longrightarrow> evicted_from c c"
  by (simp add: evicted_from_def)

lemma evicted_from_trans: "evicted_from c c' \<Longrightarrow> evicted_from c' c'' \<Longrightarrow> evicted_from c c''"
  unfolding evicted_from_def by (metis (no_types, opaque_lifting) order_trans)

lemma evict_one_from: "core_inv c \<Longrightarrow> evict_one c = (r, c') \<Longrightarrow> evicted_from c c'"
  unfolding evicted_from_def by (rule evict_one_core)

lemma evict_until_ok:
  "core_inv c \<Longrightarrow> evict_until limit c = (r, c') \<Longrightarrow>
     evicted_from c c' \<and> (if r then ec_resident_bytes c' \<le> limit
       else limit < ec_resident_bytes c' \<and> (\<forall>ke \<in> set (ec_entries c'). 0 < en_leases (snd ke)))"
proof (induction limit c rule: evict_until.induct)
  case (1 limit c)
  show ?case
  proof (cases "ec_resident_bytes c > limit")
    case False
    then have "r \<and> c' = c" using 1(3) by (subst (asm) evict_until.simps) simp
    then show ?thesis using False 1(2) by (simp add: evicted_from_refl)
  next
    case True
    obtain b c1 where ev: "evict_one c = (b, c1)" by fastforce
    note from1 = evict_one_from [OF 1(2) ev]
    show ?thesis
    proof (cases b)
      case True
      then have "evict_until limit c1 = (r, c')"
        using 1(3) ev \<open>ec_resident_bytes c > limit\<close> by (subst (asm) evict_until.simps) simp
      then show ?thesis
        using 1(1) [OF \<open>ec_resident_bytes c > limit\<close> ev [symmetric]] True from1
          evicted_from_trans [OF from1] by (auto simp: evicted_from_def)
    next
      case False
      then have res: "r = False" "c' = c1" "c1 = c"
        using 1(3) ev True by (auto simp: evict_until.simps evict_one_def split: option.splits)
      have "pick_candidate (ec_entries c) None = None"
        using ev False by (auto simp: evict_one_def split: option.splits)
      then have "\<forall>ke \<in> set (ec_entries c). 0 < en_leases (snd ke)" by (rule pick_candidate_None)
      then show ?thesis using res True from1 by simp
    qed
  qed
qed

text \<open>What callers can rely on of an entry: its value, its size and its leases.\<close>

definition holdings :: "'v expert_cache \<Rightarrow> (string \<times> 'v \<times> nat \<times> nat) list" where
  "holdings c = map (\<lambda>(k, e). (k, en_value e, en_bytes e, en_leases e)) (ec_entries c)"

text \<open>Operations that only rewrite ages, frequencies, counters and leases.\<close>

lemma core_inv_rewrite:
  assumes "core_inv c"
    and "ec_entries c' = map (\<lambda>(k, e). (k, f k e)) (ec_entries c)"
    and "\<And>k e. entry_ok (ec_tick c) (k, e) \<Longrightarrow> entry_ok (ec_tick c') (k, f k e) \<and> en_bytes (f k e) = en_bytes e"
    and "ec_history c' = map (\<lambda>(k, h). (k, g k h)) (ec_history c)"
    and "ec_tick c' \<le> SIZE_MAX" and "ec_decay_period c' = ec_decay_period c"
    and "ec_history_limit c' = ec_history_limit c" and "ec_resident_bytes c' = ec_resident_bytes c"
    and "st_peak_bytes (ec_stats c') = st_peak_bytes (ec_stats c)"
  shows "core_inv c'"
proof -
  have "list_all (entry_ok (ec_tick c)) es \<Longrightarrow>
      entry_bytes (map (\<lambda>(k, e). (k, f k e)) es) = entry_bytes es \<and>
      list_all (entry_ok (ec_tick c')) (map (\<lambda>(k, e). (k, f k e)) es)" for es
    using assms(3) by (induction es) (auto simp: entry_bytes_def)
  moreover have "fst ` set (map (\<lambda>(k, e). (k, f k e)) (ec_entries c)) = fst ` set (ec_entries c)"
      "fst ` set (map (\<lambda>(k, h). (k, g k h)) (ec_history c)) = fst ` set (ec_history c)"
    by (force simp: image_image split_beta)+
  ultimately show ?thesis
    using assms unfolding core_inv_def by (simp add: map_keys_values)
qed

lemma begin_operation_core:
  assumes "core_inv c"
  shows "core_inv (begin_operation c)"
proof (cases "((if ec_operations c = SIZE_MAX then 0 else ec_operations c) + 1) mod ec_decay_period c = 0")
  case True
  show ?thesis
    by (rule core_inv_rewrite [OF assms, where f = "\<lambda>_ e. e\<lparr>en_frequency := decay (en_frequency e)\<rparr>"
          and g = "\<lambda>_ h. h\<lparr>hi_frequency := decay (hi_frequency h)\<rparr>"])
       (use True assms in \<open>auto simp: begin_operation_def Let_def entry_ok_def decay_def core_inv_def\<close>)
next
  case False
  then show ?thesis using assms by (auto simp: begin_operation_def Let_def core_inv_def)
qed

lemma begin_operation_frame:
  "holdings (begin_operation c) = holdings c" "ec_budget_bytes (begin_operation c) = ec_budget_bytes c"
  "ec_loading (begin_operation c) = ec_loading c" "ec_pending_bytes (begin_operation c) = ec_pending_bytes c"
  "ec_resident_bytes (begin_operation c) = ec_resident_bytes c"
  by (auto simp: begin_operation_def holdings_def Let_def)

lemma next_tick_core:
  assumes "core_inv c" and "next_tick c = (t, c')"
  shows "core_inv c' \<and> t = ec_tick c' \<and> t \<le> SIZE_MAX"
proof (cases "ec_tick c = SIZE_MAX")
  case True
  have "core_inv c'"
    by (rule core_inv_rewrite [OF assms(1), where f = "\<lambda>_ e. e\<lparr>en_last_touch := en_last_touch e div 2\<rparr>"
          and g = "\<lambda>_ h. h\<lparr>hi_last_touch := hi_last_touch h div 2\<rparr>"])
       (use True assms in \<open>auto simp: next_tick_def entry_ok_def SIZE_MAX_def\<close>)
  then show ?thesis using True assms by (auto simp: next_tick_def SIZE_MAX_def)
next
  case False
  have "core_inv c'"
    by (rule core_inv_rewrite [OF assms(1), where f = "\<lambda>_ e. e" and g = "\<lambda>_ h. h"])
       (use False assms in \<open>auto simp: next_tick_def entry_ok_def core_inv_def\<close>)
  then show ?thesis using False assms by (auto simp: next_tick_def core_inv_def)
qed

lemma next_tick_frame:
  assumes "next_tick c = (t, c')"
  shows "holdings c' = holdings c" "map fst (ec_entries c') = map fst (ec_entries c)"
    "map fst (ec_history c') = map fst (ec_history c)" "ec_budget_bytes c' = ec_budget_bytes c"
    "ec_loading c' = ec_loading c" "ec_pending_bytes c' = ec_pending_bytes c" "ec_stats c' = ec_stats c"
    "ec_resident_bytes c' = ec_resident_bytes c" "ec_history_limit c' = ec_history_limit c"
    "ec_decay_period c' = ec_decay_period c"
  using assms by (auto simp: next_tick_def holdings_def Let_def split_beta split: if_splits)

lemma update_entry_core:
  assumes "core_inv c"
    and "\<And>k e. entry_ok (ec_tick c) (k, e) \<Longrightarrow> entry_ok (ec_tick c) (k, f e) \<and> en_bytes (f e) = en_bytes e"
  shows "core_inv (update_entry key f c)"
  by (rule core_inv_rewrite [OF assms(1), where f = "\<lambda>k e. if k = key then f e else e" and g = "\<lambda>_ h. h"])
     (use assms in \<open>auto simp: update_entry_def core_inv_def\<close>)

lemma update_entry_frame [simp]:
  "ec_budget_bytes (update_entry k f c) = ec_budget_bytes c" "ec_loading (update_entry k f c) = ec_loading c"
  "ec_pending_bytes (update_entry k f c) = ec_pending_bytes c" "ec_stats (update_entry k f c) = ec_stats c"
  "ec_tick (update_entry k f c) = ec_tick c" "ec_resident_bytes (update_entry k f c) = ec_resident_bytes c"
  "map fst (ec_entries (update_entry k f c)) = map fst (ec_entries c)"
  by (auto simp: update_entry_def split_beta)

lemma holdings_update_entry:
  "(\<And>e. en_value (f e) = en_value e \<and> en_bytes (f e) = en_bytes e \<and> en_leases (f e) = en_leases e) \<Longrightarrow>
     holdings (update_entry k f c) = holdings c"
  by (auto simp: holdings_def update_entry_def)

lemma touch_core:
  assumes "core_inv c"
  shows "core_inv (touch key c) \<and> holdings (touch key c) = holdings c \<and>
    ec_budget_bytes (touch key c) = ec_budget_bytes c \<and> ec_loading (touch key c) = ec_loading c \<and>
    ec_pending_bytes (touch key c) = ec_pending_bytes c \<and> ec_resident_bytes (touch key c) = ec_resident_bytes c"
proof -
  let ?c1 = "update_entry key (\<lambda>e. e\<lparr>en_frequency := saturating_succ (en_frequency e)\<rparr>) c"
  obtain t c2 where tick: "next_tick ?c1 = (t, c2)" by fastforce
  have c1: "core_inv ?c1"
    by (rule update_entry_core [OF assms]) (auto simp: entry_ok_def saturating_succ_def)
  note n = next_tick_core [OF c1 tick] and fr = next_tick_frame [OF tick]
  have "core_inv (update_entry key (\<lambda>e. e\<lparr>en_last_touch := t\<rparr>) c2)"
    using n by (intro update_entry_core) (auto simp: entry_ok_def)
  then show ?thesis
    using fr by (simp add: touch_def tick Let_def holdings_update_entry)
qed

definition keeps_leases :: "'v expert_cache \<Rightarrow> 'v expert_cache \<Rightarrow> bool" where
  "keeps_leases c c' \<longleftrightarrow>
     (\<forall>k v b l. (k, v, b, l) \<in> set (holdings c) \<longrightarrow> 0 < l \<longrightarrow>
        (\<exists>l' \<ge> l. (k, v, b, l') \<in> set (holdings c')))"

lemma keeps_leases_same: "holdings c' = holdings c \<Longrightarrow> keeps_leases c c'"
  unfolding keeps_leases_def by auto

lemma keeps_leases_trans: "keeps_leases c c' \<Longrightarrow> keeps_leases c' c'' \<Longrightarrow> keeps_leases c c''"
  unfolding keeps_leases_def by (meson less_le_trans order_trans)

lemma evicted_from_keeps:
  assumes "evicted_from c c'"
  shows "keeps_leases c c'"
  unfolding keeps_leases_def
proof (intro allI impI)
  fix k v b l
  assume "(k, v, b, l) \<in> set (holdings c)" "0 < l"
  then obtain e where "(k, e) \<in> set (ec_entries c)" "en_value e = v" "en_bytes e = b" "en_leases e = l"
    by (auto simp: holdings_def)
  then have "(k, e) \<in> set (ec_entries c')" using assms \<open>0 < l\<close> unfolding evicted_from_def by fastforce
  then show "\<exists>l' \<ge> l. (k, v, b, l') \<in> set (holdings c')"
    using \<open>en_value e = v\<close> \<open>en_bytes e = b\<close> \<open>en_leases e = l\<close>
    by (intro exI [of _ l]) (auto simp: holdings_def image_iff split: prod.splits intro!: bexI [of _ "(k, e)"])
qed

lemma core_inv_cong:
  assumes "core_inv c" and "ec_entries c' = ec_entries c" and "ec_history c' = ec_history c"
    and "ec_tick c' = ec_tick c" and "ec_decay_period c' = ec_decay_period c"
    and "ec_history_limit c' = ec_history_limit c" and "ec_resident_bytes c' = ec_resident_bytes c"
    and "st_peak_bytes (ec_stats c') = st_peak_bytes (ec_stats c)"
  shows "core_inv c'"
  using assms unfolding core_inv_def by simp

lemma load_failed_ok:
  assumes "core_inv c" and "load_failed err bytes c = (r, c')"
  shows "core_inv c' \<and> \<not> ec_loading c' \<and> ec_pending_bytes c' = ec_pending_bytes c - bytes \<and>
    ec_budget_bytes c' = ec_budget_bytes c \<and> holdings c' = holdings c \<and>
    ec_resident_bytes c' = ec_resident_bytes c \<and> r = Inl err"
proof -
  have "core_inv c'"
    by (rule core_inv_cong [OF assms(1)]) (use assms(2) in \<open>auto simp: load_failed_def sync_stats_def\<close>)
  then show ?thesis using assms(2) by (auto simp: load_failed_def sync_stats_def holdings_def)
qed

lemma insert_core:
  assumes inv: "core_inv c" and key: "key \<notin> fst ` set (ec_entries c)" "key \<noteq> []"
    and e: "0 < en_bytes e" "1 \<le> en_frequency e" "en_last_touch e \<le> ec_tick c"
    and room: "ec_resident_bytes c + en_bytes e \<le> SIZE_MAX"
    and c': "ec_entries c' = ec_entries c @ [(key, e)]"
      "ec_history c' = filter (\<lambda>(k, _). k \<noteq> key) (ec_history c)"
      "ec_tick c' = ec_tick c" "ec_decay_period c' = ec_decay_period c"
      "ec_history_limit c' = ec_history_limit c" "ec_resident_bytes c' = ec_resident_bytes c + en_bytes e"
      "st_peak_bytes (ec_stats c') = max (st_peak_bytes (ec_stats c)) (ec_resident_bytes c + en_bytes e)"
  shows "core_inv c'"
proof -
  have "length (ec_history c') \<le> length (ec_history c)" using c' by simp
  moreover have "distinct (map fst (ec_history c'))"
    using inv c' by (simp add: core_inv_def distinct_map_filter)
  moreover have "fst ` set (ec_history c') \<subseteq> fst ` set (ec_history c) - {key}" using c' by auto
  moreover have "entry_bytes (ec_entries c @ [(key, e)]) = entry_bytes (ec_entries c) + en_bytes e"
    by (simp add: entry_bytes_def)
  moreover have "list_all (entry_ok (ec_tick c)) (ec_entries c @ [(key, e)])"
    using inv key e by (simp add: core_inv_def entry_ok_def)
  ultimately show ?thesis
    using inv key room unfolding core_inv_def c'(1,3-7) by (auto simp: max_def)
qed

lemma saturating_succ_pos: "1 \<le> saturating_succ n"
  by (simp add: saturating_succ_def SIZE_MAX_def)

lemma filter_absent: "key \<notin> fst ` set xs \<Longrightarrow> filter (\<lambda>(k, _). k \<noteq> key) xs = xs"
  by (force simp: filter_id_conv image_iff)

lemma insert_loaded_ok:
  assumes inv: "core_inv c" and key: "key \<notin> fst ` set (ec_entries c)" "key \<noteq> []" and bytes: "0 < bytes" "bytes \<le> SIZE_MAX"
    and run: "insert_loaded key bytes loaded c = (r, c')"
  shows "core_inv c' \<and> \<not> ec_loading c' \<and> ec_pending_bytes c' = ec_pending_bytes c - bytes \<and>
    ec_budget_bytes c' = ec_budget_bytes c \<and>
    (case r of
       Inl _ \<Rightarrow> holdings c' = holdings c \<and> ec_resident_bytes c' = ec_resident_bytes c
     | Inr v \<Rightarrow> loaded = Inr (Some v) \<and> holdings c' = holdings c @ [(key, v, bytes, 1)] \<and>
         ec_resident_bytes c' = ec_resident_bytes c + bytes)"
proof (cases "\<exists>v. loaded = Inr (Some v) \<and> ec_resident_bytes c \<le> SIZE_MAX - bytes")
  case False
  then obtain err where "load_failed err bytes c = (r, c')"
    using run by (auto simp: insert_loaded_def split: sum.splits option.splits if_splits)
  from load_failed_ok [OF inv this] show ?thesis by auto
next
  case True
  then obtain v where v: "loaded = Inr (Some v)" and room: "ec_resident_bytes c \<le> SIZE_MAX - bytes" by blast
  obtain t c1 where tick: "next_tick c = (t, c1)" by fastforce
  note n = next_tick_core [OF inv tick] and fr = next_tick_frame [OF tick]
  have key1: "key \<notin> fst ` set (ec_entries c1)" using key fr(2) by (metis list.set_map)
  let ?fq = "case map_of (ec_history c) key of None \<Rightarrow> 1 | Some h \<Rightarrow> saturating_succ (hi_frequency h)"
  let ?e = "\<lparr>en_value = v, en_bytes = bytes, en_frequency = ?fq, en_last_touch = t, en_leases = 1\<rparr>"
  have hist: "map_of (ec_history c) key = None \<longleftrightarrow> key \<notin> fst ` set (ec_history c1)"
    using fr(3) by (metis list.set_map map_of_eq_None_iff)
  have c': "r = Inr v" "ec_entries c' = ec_entries c1 @ [(key, ?e)]"
    "ec_history c' = filter (\<lambda>(k, _). k \<noteq> key) (ec_history c1)" "ec_tick c' = ec_tick c1"
    "ec_decay_period c' = ec_decay_period c1" "ec_history_limit c' = ec_history_limit c1"
    "ec_resident_bytes c' = ec_resident_bytes c1 + bytes"
    "st_peak_bytes (ec_stats c') = max (st_peak_bytes (ec_stats c1)) (ec_resident_bytes c1 + bytes)"
    "\<not> ec_loading c'" "ec_pending_bytes c' = ec_pending_bytes c1 - bytes"
    "ec_budget_bytes c' = ec_budget_bytes c1"
    using run v room tick key1 hist filter_absent [of key "ec_history c1"]
    by (auto simp: insert_loaded_def sync_stats_def Let_def split: if_splits)
  have "core_inv c'"
  proof (rule insert_core [of c1 key ?e])
    show "1 \<le> en_frequency ?e" using saturating_succ_pos by (simp split: option.split)
    show "ec_resident_bytes c1 + en_bytes ?e \<le> SIZE_MAX" using room bytes fr(8) by simp
  qed (use n key1 key(2) bytes c' in auto)
  then show ?thesis using c' v fr by (auto simp: holdings_def)
qed

lemma keys_holdings: "fst ` set (holdings c) = fst ` set (ec_entries c)"
  unfolding holdings_def by (force simp: image_image split_beta)

lemma make_room_ok:
  assumes "core_inv c" and "ec_pending_bytes c = 0" and "ec_budget_bytes c \<le> SIZE_MAX"
    and "make_room bytes c = (r, c')"
  shows "evicted_from c c' \<and> (r \<longrightarrow> bytes \<le> ec_budget_bytes c \<and>
    ec_resident_bytes c' + bytes \<le> ec_budget_bytes c)"
proof (cases "bytes \<le> ec_budget_bytes c")
  case True
  then have "sz_add (ec_pending_bytes c) bytes = bytes" using assms(2,3) by simp
  then have "evict_until (ec_budget_bytes c - bytes) c = (r, c')"
    using assms(2,4) True by (simp add: make_room_def)
  from evict_until_ok [OF assms(1) this] show ?thesis using True by (auto split: if_splits)
next
  case False
  then show ?thesis using assms by (auto simp: make_room_def evicted_from_refl)
qed

lemma refuse_ok:
  assumes "core_inv c" and "refuse msg c = (r, c')"
  shows "core_inv c' \<and> ec_loading c' = ec_loading c \<and> ec_pending_bytes c' = ec_pending_bytes c \<and>
    ec_budget_bytes c' = ec_budget_bytes c \<and> holdings c' = holdings c \<and>
    ec_resident_bytes c' = ec_resident_bytes c \<and> (\<exists>e. r = Inl e)"
proof -
  have "core_inv c'"
    by (rule core_inv_cong [OF assms(1)]) (use assms(2) in \<open>auto simp: refuse_def\<close>)
  then show ?thesis using assms(2) by (auto simp: refuse_def holdings_def)
qed

lemma cache_inv_from_refuse:
  assumes "cache_inv c" and "refuse msg c = (r, c')"
  shows "cache_inv c' \<and> keeps_leases c c' \<and> (\<exists>e. r = Inl e)"
  using refuse_ok [of c msg r c'] assms keeps_leases_same by (auto simp: cache_inv_def)

text \<open>A hit: the entry is touched and leased once more.\<close>

lemma holdings_lease:
  "holdings (update_entry key (\<lambda>e. e\<lparr>en_leases := en_leases e + 1\<rparr>) c) =
     map (\<lambda>(k, v, b, l). (k, v, b, if k = key then l + 1 else l)) (holdings c)"
  by (auto simp: holdings_def update_entry_def)

lemma acquire_hit_ok:
  assumes inv: "cache_inv c" and e: "(key, e) \<in> set (ec_entries c)"
    and c': "c' = update_entry key (\<lambda>e. e\<lparr>en_leases := en_leases e + 1\<rparr>) (touch key c)"
  shows "cache_inv c' \<and> keeps_leases c c' \<and> ec_resident_bytes c' = ec_resident_bytes c \<and>
    ec_budget_bytes c' = ec_budget_bytes c \<and> (\<exists>l \<ge> 1. (key, en_value e, en_bytes e, l) \<in> set (holdings c'))"
proof -
  let ?t = "touch key c"
  have core: "core_inv c" using inv by (simp add: cache_inv_def)
  note t = touch_core [OF core, of key]
  have "core_inv c'" unfolding c' using t by (intro update_entry_core) (auto simp: entry_ok_def)
  moreover have h: "holdings c' = map (\<lambda>(k, v, b, l). (k, v, b, if k = key then l + 1 else l)) (holdings c)"
    unfolding c' holdings_lease using t by simp
  moreover have "(key, en_value e, en_bytes e, en_leases e) \<in> set (holdings c)"
    using e unfolding holdings_def by force
  moreover from this have "\<exists>l \<ge> 1. (key, en_value e, en_bytes e, l) \<in> set (holdings c')"
    unfolding h by (intro exI [of _ "en_leases e + 1"]) force
  moreover have "keeps_leases c c'"
    unfolding keeps_leases_def h
  proof (intro allI impI)
    let ?f = "\<lambda>(k, v, b, l). (k, v, b, if k = key then l + 1 else l)"
    fix k v b l
    assume "(k, v, b, l) \<in> set (holdings c)" "0 < l"
    from imageI [OF this(1), of ?f]
    show "\<exists>l' \<ge> l. (k, v, b, l') \<in> set (map ?f (holdings c))"
      by (intro exI [of _ "if k = key then l + 1 else l"]) simp
  qed
  moreover have "ec_resident_bytes c' = ec_resident_bytes c" "ec_budget_bytes c' = ec_budget_bytes c"
    "\<not> ec_loading c'" "ec_pending_bytes c' = 0" "ec_budget_bytes c' \<le> SIZE_MAX"
    using inv t unfolding cache_inv_def c' by auto
  ultimately show ?thesis unfolding cache_inv_def by blast
qed

text \<open>A miss for which room was made.\<close>

lemma acquire_miss_ok:
  assumes inv: "cache_inv c" and key: "key \<noteq> []" "key \<notin> fst ` set (ec_entries c)" and bytes: "0 < bytes"
    and room: "make_room bytes c = (True, c2)"
    and run: "insert_loaded key bytes load
      (c2\<lparr>ec_pending_bytes := ec_pending_bytes c2 + bytes, ec_loading := True\<rparr>) = (r, c')"
  shows "cache_inv c' \<and> keeps_leases c c' \<and> ec_budget_bytes c' = ec_budget_bytes c \<and>
    (\<forall>v. r = Inr v \<longrightarrow> load = Inr (Some v) \<and> (key, v, bytes, 1) \<in> set (holdings c') \<and>
       ec_resident_bytes c' \<le> ec_budget_bytes c)"
proof -
  let ?c3 = "c2\<lparr>ec_pending_bytes := ec_pending_bytes c2 + bytes, ec_loading := True\<rparr>"
  have core: "core_inv c" and idle: "ec_pending_bytes c = 0" "ec_budget_bytes c \<le> SIZE_MAX"
    using inv by (auto simp: cache_inv_def)
  note made = make_room_ok [OF core idle room]
  have core2: "core_inv c2" and frame: "ec_budget_bytes c2 = ec_budget_bytes c" "ec_pending_bytes c2 = 0"
    using made idle by (auto simp: evicted_from_def)
  have core3: "core_inv ?c3" by (rule core_inv_cong [OF core2]) simp_all
  have "set (ec_entries c2) \<subseteq> set (ec_entries c)" using made by (simp add: evicted_from_def)
  then have absent: "key \<notin> fst ` set (ec_entries ?c3)" using key(2) by auto
  have "bytes \<le> SIZE_MAX" using made idle by auto
  note ins = insert_loaded_ok [OF core3 absent key(1) bytes this run]
  have keep: "keeps_leases c c2" using made evicted_from_keeps by blast
  have h3: "holdings ?c3 = holdings c2" by (simp add: holdings_def)
  have "keeps_leases c2 c'"
    using ins h3 unfolding keeps_leases_def by (auto split: sum.splits)
  with keep have "keeps_leases c c'" by (rule keeps_leases_trans)
  then show ?thesis
    using ins frame made idle unfolding cache_inv_def by (auto split: sum.splits)
qed

lemma acquire_ok:
  assumes inv: "cache_inv c" and run: "acquire key bytes loader c = (r, c')"
  shows "cache_inv c' \<and> keeps_leases c c' \<and> ec_budget_bytes c' = ec_budget_bytes c \<and>
    (\<forall>v. r = Inr v \<longrightarrow> (\<exists>l \<ge> 1. (key, v, bytes, l) \<in> set (holdings c')) \<and>
       (if key \<in> fst ` set (ec_entries c) then ec_resident_bytes c' = ec_resident_bytes c
        else loader = Some (Inr (Some v)) \<and> ec_resident_bytes c' \<le> ec_budget_bytes c))"
proof -
  let ?c = "begin_operation c"
  have core: "core_inv c" and idle: "\<not> ec_loading c" "ec_pending_bytes c = 0" "ec_budget_bytes c \<le> SIZE_MAX"
    using inv by (auto simp: cache_inv_def)
  have core1: "core_inv ?c" by (rule begin_operation_core [OF core])
  have keys: "fst ` set (ec_entries ?c) = fst ` set (ec_entries c)"
    using keys_holdings begin_operation_frame(1) by metis
  have stats: "cache_inv (?c\<lparr>ec_stats := s\<rparr>) \<and> keeps_leases c (?c\<lparr>ec_stats := s\<rparr>)"
    if "st_peak_bytes s = st_peak_bytes (ec_stats ?c)" for s
  proof
    have "core_inv (?c\<lparr>ec_stats := s\<rparr>)" by (rule core_inv_cong [OF core1]) (simp_all add: that)
    then show "cache_inv (?c\<lparr>ec_stats := s\<rparr>)" using idle by (simp add: cache_inv_def begin_operation_frame)
    have "holdings (?c\<lparr>ec_stats := s\<rparr>) = holdings ?c" by (simp add: holdings_def)
    then show "keeps_leases c (?c\<lparr>ec_stats := s\<rparr>)"
      by (simp add: keeps_leases_same begin_operation_frame)
  qed
  have refused: ?thesis if "cache_inv d" "keeps_leases c d" "ec_budget_bytes d = ec_budget_bytes c"
      "refuse msg d = (r, c')" for msg d
  proof -
    have "core_inv d" using that(1) by (simp add: cache_inv_def)
    from refuse_ok [OF this that(4)] cache_inv_from_refuse [OF that(1,4)] that(2,3)
    show ?thesis using keeps_leases_trans by auto
  qed
  show ?thesis
  proof (cases "key = [] \<or> bytes = 0")
    case True
    then obtain msg where "refuse msg c = (r, c')"
      using run idle by (auto simp: acquire_def split: if_splits)
    with inv show ?thesis by (intro refused) (auto simp: keeps_leases_same)
  next
    case False
    show ?thesis
    proof (cases "map_of (ec_entries ?c) key")
      case None
      let ?s = "(ec_stats ?c)\<lparr>st_misses := sz_add (st_misses (ec_stats ?c)) 1,
        st_miss_bytes := add_stat (st_miss_bytes (ec_stats ?c)) bytes\<rparr>"
      let ?c1 = "?c\<lparr>ec_stats := ?s\<rparr>"
      have s: "cache_inv ?c1" "keeps_leases c ?c1" using stats [of ?s] by auto
      have b: "ec_budget_bytes ?c1 = ec_budget_bytes c" by (simp add: begin_operation_frame)
      have absent: "key \<notin> fst ` set (ec_entries ?c1)" using None by (simp add: map_of_eq_None_iff)
      obtain ok c2 where room: "make_room bytes ?c1 = (ok, c2)" by fastforce
      have c2: "evicted_from ?c1 c2"
        using make_room_ok [OF _ _ _ room] s(1) by (auto simp: cache_inv_def)
      consider msg where "refuse msg ?c1 = (r, c')" | msg where "\<not> ok" "refuse msg c2 = (r, c')"
        | load where "ok" "loader = Some load" "insert_loaded key bytes load
            (c2\<lparr>ec_pending_bytes := ec_pending_bytes c2 + bytes, ec_loading := True\<rparr>) = (r, c')"
        using run False idle None room
        by (auto simp: acquire_def begin_operation_frame Let_def split: option.splits if_splits bool.splits)
      then show ?thesis
      proof cases
        case 1
        with s b show ?thesis by (intro refused)
      next
        case 2
        have "cache_inv c2" using c2 s(1) by (auto simp: cache_inv_def evicted_from_def)
        moreover have "keeps_leases c c2"
          using s(2) evicted_from_keeps [OF c2] keeps_leases_trans by blast
        moreover have "ec_budget_bytes c2 = ec_budget_bytes c" using c2 b by (simp add: evicted_from_def)
        ultimately show ?thesis using 2(2) by (rule refused)
      next
        case 3
        have "0 < bytes" "key \<noteq> []" using False by auto
        from acquire_miss_ok [OF s(1) this(2) absent this(1) _ 3(3)] room 3(1) s(2) b absent keys
        show ?thesis using keeps_leases_trans 3(2) by auto
      qed
    next
      case (Some e)
      have mem: "(key, e) \<in> set (ec_entries ?c)" using Some by (rule map_of_SomeD)
      then have present: "key \<in> fst ` set (ec_entries c)" using keys by force
      show ?thesis
      proof (cases "en_bytes e = bytes")
        case False2: False
        have "refuse ''expert-cache key has a different byte size'' ?c = (r, c')"
          using run idle False Some False2 by (simp add: acquire_def begin_operation_frame Let_def)
        then show ?thesis
          using core1 idle by (intro refused) (auto simp: cache_inv_def begin_operation_frame keeps_leases_same)
      next
        case True
        let ?s = "(ec_stats ?c)\<lparr>st_hits := sz_add (st_hits (ec_stats ?c)) 1,
          st_hit_bytes := add_stat (st_hit_bytes (ec_stats ?c)) bytes\<rparr>"
        let ?c1 = "?c\<lparr>ec_stats := ?s\<rparr>"
        have s: "cache_inv ?c1" "keeps_leases c ?c1" using stats [of ?s] by auto
        have r: "r = Inr (en_value e)"
          "c' = update_entry key (\<lambda>e. e\<lparr>en_leases := en_leases e + 1\<rparr>) (touch key ?c1)"
          using run idle False Some True by (auto simp: acquire_def begin_operation_frame Let_def)
        have "(key, e) \<in> set (ec_entries ?c1)" using mem by simp
        from acquire_hit_ok [OF s(1) this r(2)] s(2) r(1) True present show ?thesis
          using keeps_leases_trans by (auto simp: begin_operation_frame)
      qed
    qed
  qed
qed

subsection \<open>Trimming, clearing and releasing\<close>

lemma sync_stats_ok:
  "core_inv c \<Longrightarrow> core_inv (sync_stats c)" "holdings (sync_stats c) = holdings c"
  "ec_loading (sync_stats c) = ec_loading c" "ec_pending_bytes (sync_stats c) = ec_pending_bytes c"
  "ec_budget_bytes (sync_stats c) = ec_budget_bytes c" "ec_resident_bytes (sync_stats c) = ec_resident_bytes c"
  "ec_entries (sync_stats c) = ec_entries c"
  by (auto simp: sync_stats_def holdings_def intro: core_inv_cong)

lemma evict_all_ok:
  "core_inv c \<Longrightarrow> evicted_from c (evict_all c) \<and> (\<forall>ke \<in> set (ec_entries (evict_all c)). 0 < en_leases (snd ke))"
proof (induction c rule: evict_all.induct)
  case (1 c)
  obtain b c1 where ev: "evict_one c = (b, c1)" by fastforce
  note from1 = evict_one_from [OF 1(2) ev]
  show ?case
  proof (cases b)
    case True
    then have "evict_all c = evict_all c1" using ev by (subst evict_all.simps) simp
    moreover have "core_inv c1" using from1 by (simp add: evicted_from_def)
    ultimately show ?thesis using 1(1) [OF ev [symmetric]] True from1 evicted_from_trans by auto
  next
    case False
    then have "c1 = c" and "pick_candidate (ec_entries c) None = None" and "evict_all c = c1"
      using ev by (auto simp: evict_one_def evict_all.simps split: option.splits)
    then show ?thesis using pick_candidate_None 1(2) evicted_from_refl by auto
  qed
qed

lemma trim_ok:
  assumes inv: "cache_inv c" and run: "trim c = (r, c')"
  shows "cache_inv c' \<and> keeps_leases c c' \<and> ec_budget_bytes c' = ec_budget_bytes c \<and>
    (if ec_resident_bytes c' \<le> ec_budget_bytes c then r = Inr True
     else r = Inr False \<and> (\<forall>ke \<in> set (ec_entries c'). 0 < en_leases (snd ke)))"
proof -
  have core: "core_inv c" and idle: "\<not> ec_loading c" using inv by (auto simp: cache_inv_def)
  obtain ok c1 where ev: "evict_until (ec_budget_bytes c) c = (ok, c1)" by fastforce
  have c': "r = Inr ok" "c' = sync_stats c1" using run idle ev by (auto simp: trim_def)
  note e = evict_until_ok [OF core ev]
  have "keeps_leases c c'" using e evicted_from_keeps keeps_leases_same [of c' c1] c'(2)
    by (auto simp: sync_stats_ok intro: keeps_leases_trans)
  then show ?thesis
    using e inv c' by (auto simp: cache_inv_def evicted_from_def sync_stats_ok split: if_splits)
qed

lemma set_budget_ok:
  assumes inv: "cache_inv c" and "bytes \<le> SIZE_MAX" and run: "set_budget bytes c = (r, c')"
  shows "cache_inv c' \<and> keeps_leases c c'"
proof -
  let ?c = "c\<lparr>ec_budget_bytes := bytes\<rparr>"
  have "core_inv ?c" by (rule core_inv_cong [of c]) (use inv in \<open>simp_all add: cache_inv_def\<close>)
  then have "cache_inv ?c" using inv assms(2) by (simp add: cache_inv_def)
  moreover have "trim ?c = (r, c')" using run inv by (simp add: set_budget_def cache_inv_def)
  ultimately have "cache_inv c'" "keeps_leases ?c c'" using trim_ok by blast+
  moreover have "keeps_leases c ?c" by (rule keeps_leases_same) (simp add: holdings_def)
  ultimately show ?thesis using keeps_leases_trans by blast
qed

lemma clear_ok:
  assumes inv: "cache_inv c" and run: "clear c = (r, c')"
  shows "cache_inv c' \<and> keeps_leases c c' \<and> (\<forall>ke \<in> set (ec_entries c'). 0 < en_leases (snd ke))"
proof -
  let ?c = "(evict_all c)\<lparr>ec_history := []\<rparr>"
  have core: "core_inv c" and idle: "\<not> ec_loading c" using inv by (auto simp: cache_inv_def)
  note e = evict_all_ok [OF core]
  have "core_inv ?c" using e by (auto simp: evicted_from_def core_inv_def)
  moreover have "keeps_leases c ?c"
    by (rule keeps_leases_trans [of _ "evict_all c"])
       (use e evicted_from_keeps in \<open>auto intro: keeps_leases_same simp: holdings_def\<close>)
  moreover have "c' = sync_stats ?c" using run idle by (simp add: clear_def)
  ultimately show ?thesis
    using inv e keeps_leases_same [of c' ?c] keeps_leases_trans
    by (auto simp: cache_inv_def evicted_from_def sync_stats_ok)
qed

lemma release_ok: "cache_inv c \<Longrightarrow> cache_inv (release key c)"
  unfolding cache_inv_def release_def
  by (auto intro!: update_entry_core simp: entry_ok_def)

subsection \<open>The cache as a transition system\<close>

inductive cache_step :: "'v expert_cache \<Rightarrow> 'v expert_cache \<Rightarrow> bool" where
  acquire: "acquire key bytes loader c = (r, c') \<Longrightarrow> cache_step c c'"
| trim: "trim c = (r, c') \<Longrightarrow> cache_step c c'"
| set_budget: "bytes \<le> SIZE_MAX \<Longrightarrow> set_budget bytes c = (r, c') \<Longrightarrow> cache_step c c'"
| clear: "clear c = (r, c') \<Longrightarrow> cache_step c c'"
| release: "cache_step c (release key c)"

inductive_cases cache_stepE: "cache_step c c'"

lemma cache_inv_init:
  "expert_cache_init budget period limit = Inr c \<Longrightarrow> budget \<le> SIZE_MAX \<Longrightarrow> cache_inv c"
  by (auto simp: expert_cache_init_def cache_inv_def core_inv_def entry_bytes_def split: if_splits)

lemma cache_inv_step [inv_intros]: "cache_inv c \<Longrightarrow> cache_step c c' \<Longrightarrow> cache_inv c'"
  by (erule cache_stepE) (use acquire_ok trim_ok set_budget_ok clear_ok release_ok in blast)+

interpretation expert_cache_system: invariant_system
  "\<lambda>c. \<exists>budget period limit. budget \<le> SIZE_MAX \<and> expert_cache_init budget period limit = Inr c"
  cache_step cache_inv
  by unfold_locales (auto intro: cache_inv_init inv_intros)

text \<open>The reported statistics follow the contents.\<close>

definition stats_synced :: "'v expert_cache \<Rightarrow> bool" where
  "stats_synced c \<longleftrightarrow>
     st_resident_bytes (ec_stats c) = ec_resident_bytes c \<and> st_entries (ec_stats c) = length (ec_entries c) \<and>
     st_history_entries (ec_stats c) = length (ec_history c)"

lemma sync_stats_synced [simp]: "stats_synced (sync_stats c)"
  by (simp add: stats_synced_def sync_stats_def)

lemma evict_one_synced: "stats_synced c \<Longrightarrow> evict_one c = (r, c') \<Longrightarrow> stats_synced c'"
  by (auto simp: evict_one_def split: option.splits)

lemma evict_until_synced: "stats_synced c \<Longrightarrow> evict_until limit c = (r, c') \<Longrightarrow> stats_synced c'"
proof (induction limit c rule: evict_until.induct)
  case (1 limit c)
  obtain b c1 where ev: "evict_one c = (b, c1)" by fastforce
  have one: "stats_synced c1" using evict_one_synced [OF 1(2) ev] .
  show ?case
  proof (cases "ec_resident_bytes c > limit")
    case True
    show ?thesis
    proof (cases b)
      case True
      then have "evict_until limit c1 = (r, c')"
        using 1(3) ev \<open>ec_resident_bytes c > limit\<close> by (subst (asm) evict_until.simps) simp
      then show ?thesis using 1(1) [OF \<open>ec_resident_bytes c > limit\<close> ev [symmetric]] True one by blast
    next
      case False
      then have "c' = c1" using 1(3) ev True by (subst (asm) evict_until.simps) simp
      then show ?thesis using one by simp
    qed
  next
    case False
    then have "c' = c" using 1(3) by (subst (asm) evict_until.simps) simp
    then show ?thesis using 1(2) by simp
  qed
qed

lemma begin_operation_synced: "stats_synced c \<Longrightarrow> stats_synced (begin_operation c)"
  by (auto simp: stats_synced_def begin_operation_def Let_def)

lemma update_entry_synced: "stats_synced c \<Longrightarrow> stats_synced (update_entry key f c)"
  by (simp add: stats_synced_def update_entry_def)

lemma touch_synced: "stats_synced c \<Longrightarrow> stats_synced (touch key c)"
  by (simp add: touch_def next_tick_def stats_synced_def update_entry_def Let_def)

lemma refuse_synced: "stats_synced c \<Longrightarrow> refuse msg c = (r, c') \<Longrightarrow> stats_synced c'"
  by (auto simp: refuse_def stats_synced_def)

lemma make_room_synced: "stats_synced c \<Longrightarrow> make_room bytes c = (r, c') \<Longrightarrow> stats_synced c'"
  by (auto simp: make_room_def evict_until_synced split: if_splits)

lemma insert_loaded_synced: "insert_loaded key bytes loaded c = (r, c') \<Longrightarrow> stats_synced c'"
  by (auto simp: insert_loaded_def load_failed_def Let_def split: sum.splits option.splits if_splits prod.splits)

lemma acquire_synced:
  assumes "stats_synced c" and run: "acquire key bytes loader c = (r, c')"
  shows "stats_synced c'"
proof (cases "ec_loading c \<or> key = [] \<or> bytes = 0")
  case True
  then obtain msg where "refuse msg c = (r, c')" using run by (auto simp: acquire_def split: if_splits)
  then show ?thesis using refuse_synced assms(1) by blast
next
  case False
  let ?c = "begin_operation c"
  have c: "stats_synced ?c" using begin_operation_synced [OF assms(1)] .
  show ?thesis
  proof (cases "map_of (ec_entries ?c) key")
    case None
    let ?c1 = "?c\<lparr>ec_stats := (ec_stats ?c)\<lparr>st_misses := sz_add (st_misses (ec_stats ?c)) 1,
      st_miss_bytes := add_stat (st_miss_bytes (ec_stats ?c)) bytes\<rparr>\<rparr>"
    have c1: "stats_synced ?c1" using c by (simp add: stats_synced_def)
    obtain ok c2 where room: "make_room bytes ?c1 = (ok, c2)" by fastforce
    have c2: "stats_synced c2" using make_room_synced [OF c1 room] .
    consider msg where "refuse msg ?c1 = (r, c')" | msg where "refuse msg c2 = (r, c')"
      | load where "insert_loaded key bytes load
          (c2\<lparr>ec_pending_bytes := ec_pending_bytes c2 + bytes, ec_loading := True\<rparr>) = (r, c')"
      using run False None room
      by (auto simp: acquire_def begin_operation_frame Let_def split: option.splits if_splits bool.splits)
    then show ?thesis using refuse_synced [OF c1] refuse_synced [OF c2] insert_loaded_synced by cases blast+
  next
    case (Some e)
    let ?c1 = "?c\<lparr>ec_stats := (ec_stats ?c)\<lparr>st_hits := sz_add (st_hits (ec_stats ?c)) 1,
      st_hit_bytes := add_stat (st_hit_bytes (ec_stats ?c)) bytes\<rparr>\<rparr>"
    have "stats_synced ?c1" using c by (simp add: stats_synced_def)
    then have "stats_synced (update_entry key f (touch key ?c1))" for f
      by (intro update_entry_synced touch_synced)
    moreover consider msg where "refuse msg ?c = (r, c')"
      | "c' = update_entry key (\<lambda>e. e\<lparr>en_leases := en_leases e + 1\<rparr>) (touch key ?c1)"
      using run False Some by (auto simp: acquire_def Let_def split: if_splits)
    ultimately show ?thesis using refuse_synced [OF c] by cases blast+
  qed
qed

lemma trim_synced: "stats_synced c \<Longrightarrow> trim c = (r, c') \<Longrightarrow> stats_synced c'"
  by (auto simp: trim_def split: if_splits prod.splits)

lemma stats_synced_step: "stats_synced c \<Longrightarrow> cache_step c c' \<Longrightarrow> stats_synced c'"
proof (erule cache_stepE)
  fix bytes r
  assume "stats_synced c" "set_budget bytes c = (r, c')"
  moreover have "stats_synced (c\<lparr>ec_budget_bytes := bytes\<rparr>)"
    using \<open>stats_synced c\<close> by (simp add: stats_synced_def)
  ultimately show "stats_synced c'" using trim_synced by (auto simp: set_budget_def split: if_splits)
next
  fix r
  assume "stats_synced c" "clear c = (r, c')"
  then show "stats_synced c'" by (auto simp: clear_def split: if_splits)
next
  fix key
  assume "stats_synced c" "c' = release key c"
  then show "stats_synced c'" by (simp add: release_def update_entry_synced)
qed (use acquire_synced trim_synced in blast)+

interpretation expert_cache_stats: invariant_system
  "\<lambda>c. \<exists>budget period limit. expert_cache_init budget period limit = Inr c" cache_step stats_synced
proof (unfold_locales, goal_cases)
  case (1 c)
  then show ?case by (auto simp: expert_cache_init_def stats_synced_def split: if_splits)
next
  case (2 c c')
  then show ?case by (rule stats_synced_step)
qed

text \<open>C21. Accounting is exact in every reachable cache: the resident byte counter is the sum of the
  sizes of the entries, it never exceeds the reported peak, keys are unique, no key is both resident
  and in the eviction history, the history respects its limit, the reported resident bytes, entries
  and history entries are those of the contents, and between calls nothing is pending and no load is
  in progress, also after loaders have thrown.\<close>

theorem expert_cache_accounting:
  assumes "budget \<le> SIZE_MAX" and "expert_cache_init budget period limit = Inr c0" and "cache_step\<^sup>*\<^sup>* c0 c"
  shows "ec_resident_bytes c = sum_list (map (\<lambda>(_, e). en_bytes e) (ec_entries c)) \<and>
    ec_resident_bytes c \<le> st_peak_bytes (ec_stats c) \<and>
    distinct (map fst (ec_entries c)) \<and> distinct (map fst (ec_history c)) \<and>
    fst ` set (ec_entries c) \<inter> fst ` set (ec_history c) = {} \<and>
    length (ec_history c) \<le> ec_history_limit c \<and>
    st_resident_bytes (ec_stats c) = ec_resident_bytes c \<and> st_entries (ec_stats c) = length (ec_entries c) \<and>
    st_history_entries (ec_stats c) = length (ec_history c) \<and> ec_pending_bytes c = 0 \<and> \<not> ec_loading c"
proof -
  have "cache_inv c" using expert_cache_system.inv_reachable [OF _ assms(3)] assms(1,2) by blast
  moreover have "stats_synced c" using expert_cache_stats.inv_reachable [OF _ assms(3)] assms(2) by blast
  ultimately show ?thesis by (auto simp: cache_inv_def core_inv_def entry_bytes_def stats_synced_def)
qed

definition sample_cache :: "nat expert_cache" where
  "sample_cache = (case expert_cache_init 100 64 4 of Inr c \<Rightarrow> c)"

lemma sample_cache_init: "expert_cache_init 100 64 4 = Inr sample_cache"
  by (simp add: sample_cache_def expert_cache_init_def)

theorem expert_cache_accounting_witness:
  "let c = snd (acquire ''w1'' 60 (Some (Inr (Some 7))) sample_cache) in
    cache_step\<^sup>*\<^sup>* sample_cache c \<and>
    ec_resident_bytes c = sum_list (map (\<lambda>(_, e). en_bytes e) (ec_entries c)) \<and>
    st_resident_bytes (ec_stats c) = ec_resident_bytes c \<and> st_entries (ec_stats c) = length (ec_entries c)"
proof -
  let ?r = "acquire ''w1'' 60 (Some (Inr (Some 7))) sample_cache"
  have "cache_step sample_cache (snd ?r)" by (rule cache_step.acquire) (rule surjective_pairing)
  then have run: "cache_step\<^sup>*\<^sup>* sample_cache (snd ?r)" by (rule r_into_rtranclp)
  from expert_cache_accounting [OF _ sample_cache_init run] run show ?thesis
    by (simp add: Let_def SIZE_MAX_def)
qed

text \<open>A failing acquisition may have evicted, but it adds nothing.\<close>

definition shrinks :: "'v expert_cache \<Rightarrow> 'v expert_cache \<Rightarrow> bool" where
  "shrinks c c' \<longleftrightarrow> set (holdings c') \<subseteq> set (holdings c) \<and> ec_resident_bytes c' \<le> ec_resident_bytes c"

lemma shrinks_same: "holdings c' = holdings c \<Longrightarrow> ec_resident_bytes c' = ec_resident_bytes c \<Longrightarrow> shrinks c c'"
  by (simp add: shrinks_def)

lemma shrinks_trans: "shrinks c c1 \<Longrightarrow> shrinks c1 c2 \<Longrightarrow> shrinks c c2"
  unfolding shrinks_def by (metis order_trans subset_trans)

lemma evicted_from_shrinks: "evicted_from c c' \<Longrightarrow> shrinks c c'"
  by (auto simp: evicted_from_def shrinks_def holdings_def)

lemma refuse_shrinks: "refuse msg c = (r, c') \<Longrightarrow> shrinks c c'"
  by (intro shrinks_same) (auto simp: refuse_def holdings_def)

lemma acquire_error_shrinks:
  fixes c :: "'v expert_cache"
  assumes inv: "cache_inv c" and run: "acquire key bytes loader c = (Inl e :: 'v result, c')"
  shows "shrinks c c'"
proof -
  have idle: "\<not> ec_loading c" "ec_pending_bytes c = 0" "ec_budget_bytes c \<le> SIZE_MAX" and core: "core_inv c"
    using inv by (auto simp: cache_inv_def)
  show ?thesis
  proof (cases "key = [] \<or> bytes = 0")
    case True
    then obtain msg where "refuse msg c = (Inl e :: 'v result, c')" using run idle by (auto simp: acquire_def split: if_splits)
    then show ?thesis by (rule refuse_shrinks)
  next
    case False
    let ?c = "begin_operation c"
    have start: "shrinks c (?c\<lparr>ec_stats := s\<rparr>)" for s
      using begin_operation_frame(1) [of c] by (intro shrinks_same) (simp_all add: holdings_def begin_operation_frame)
    show ?thesis
    proof (cases "map_of (ec_entries ?c) key")
      case (Some x)
      then have "refuse ''expert-cache key has a different byte size'' ?c = (Inl e :: 'v result, c')"
        using run False idle by (auto simp: acquire_def Let_def split: if_splits)
      then show ?thesis using shrinks_trans [OF start [of "ec_stats ?c"]] refuse_shrinks by fastforce
    next
      case None
      let ?c1 = "?c\<lparr>ec_stats := (ec_stats ?c)\<lparr>st_misses := sz_add (st_misses (ec_stats ?c)) 1,
        st_miss_bytes := add_stat (st_miss_bytes (ec_stats ?c)) bytes\<rparr>\<rparr>"
      have core1: "core_inv ?c1" by (rule core_inv_cong [OF begin_operation_core [OF core]]) simp_all
      have absent: "key \<notin> fst ` set (ec_entries ?c1)" using None by (simp add: map_of_eq_None_iff)
      obtain ok c2 where room: "make_room bytes ?c1 = (ok, c2)" by fastforce
      have made: "evicted_from ?c1 c2" "ok \<longrightarrow> bytes \<le> ec_budget_bytes ?c1"
        using make_room_ok [OF core1 _ _ room] idle by (auto simp: begin_operation_frame)
      have c2: "shrinks c c2" using shrinks_trans [OF start evicted_from_shrinks [OF made(1)]] .
      let ?c3 = "c2\<lparr>ec_pending_bytes := ec_pending_bytes c2 + bytes, ec_loading := True\<rparr>"
      consider msg where "refuse msg ?c1 = (Inl e :: 'v result, c')" | msg where "refuse msg c2 = (Inl e :: 'v result, c')"
        | load where "ok" "insert_loaded key bytes load ?c3 = (Inl e :: 'v result, c')"
        using run False None room idle
        by (auto simp: acquire_def begin_operation_frame Let_def split: option.splits if_splits bool.splits)
      then show ?thesis
      proof cases
        case 1
        then show ?thesis using shrinks_trans [OF start] refuse_shrinks by blast
      next
        case 2
        then show ?thesis using shrinks_trans [OF c2] refuse_shrinks by blast
      next
        case 3
        have "core_inv ?c3" by (rule core_inv_cong [of c2]) (use made(1) in \<open>simp_all add: evicted_from_def\<close>)
        moreover have "key \<notin> fst ` set (ec_entries ?c3)" using made(1) absent by (auto simp: evicted_from_def)
        moreover have "bytes \<le> SIZE_MAX" "0 < bytes" "key \<noteq> []"
          using made(2) 3(1) idle False by (auto simp: begin_operation_frame)
        ultimately have "holdings c' = holdings ?c3" "ec_resident_bytes c' = ec_resident_bytes ?c3"
          using insert_loaded_ok [OF _ _ _ _ _ 3(2)] by auto
        then have "shrinks c2 c'" by (intro shrinks_same) (simp_all add: holdings_def)
        then show ?thesis by (rule shrinks_trans [OF c2])
      qed
    qed
  qed
qed

text \<open>C22. Admission respects the budget and the caller's leases, whether the acquisition succeeds or
  not: every entry that was leased before is still resident with its value, its size and no fewer
  leases, and the budget is unchanged. When a value is returned, the entry is resident under that key
  and size with at least the caller's lease; a miss returns exactly what the loader produced and
  leaves the resident bytes within the budget; a hit changes the resident bytes not at all. When the
  acquisition fails, by a refusal, a full cache or a loader that throws or returns null, nothing was
  added: what is resident was resident before.\<close>

theorem acquire_respects_budget_and_leases:
  assumes "cache_inv c" and "acquire key bytes loader c = (r, c')"
  shows "keeps_leases c c' \<and> ec_budget_bytes c' = ec_budget_bytes c \<and>
    (case r of
       Inr v \<Rightarrow> (\<exists>l \<ge> 1. (key, v, bytes, l) \<in> set (holdings c')) \<and>
         (if key \<in> fst ` set (ec_entries c) then ec_resident_bytes c' = ec_resident_bytes c
          else loader = Some (Inr (Some v)) \<and> ec_resident_bytes c' \<le> ec_budget_bytes c')
     | Inl _ \<Rightarrow> set (holdings c') \<subseteq> set (holdings c) \<and> ec_resident_bytes c' \<le> ec_resident_bytes c)"
proof (cases r)
  case (Inl e)
  then show ?thesis
    using acquire_ok [OF assms] acquire_error_shrinks [OF assms(1)] assms(2) by (simp add: shrinks_def)
next
  case (Inr v)
  then show ?thesis using acquire_ok [OF assms] by (auto split: if_splits)
qed

theorem acquire_respects_budget_and_leases_witness:
  "\<exists>c'. acquire ''w1'' 60 (Some (Inr (Some 7))) sample_cache = (Inr 7, c') \<and>
    (\<exists>l \<ge> 1. (''w1'', 7, 60, l) \<in> set (holdings c')) \<and> ec_resident_bytes c' \<le> ec_budget_bytes c'"
proof -
  have inv: "cache_inv sample_cache"
    by (rule cache_inv_init [OF sample_cache_init]) (simp add: SIZE_MAX_def)
  have c: "ec_entries sample_cache = []" by (simp add: sample_cache_def expert_cache_init_def)
  have "fst (acquire ''w1'' 60 (Some (Inr (Some 7))) sample_cache) = Inr 7"
    by (simp add: acquire_def sample_cache_def expert_cache_init_def begin_operation_def make_room_def
        evict_until.simps insert_loaded_def next_tick_def SIZE_MAX_def Let_def)
  then obtain c' where run: "acquire ''w1'' 60 (Some (Inr (Some 7))) sample_cache = (Inr 7, c')"
    by (metis prod.collapse)
  show ?thesis using run acquire_respects_budget_and_leases [OF inv run] c by auto
qed

text \<open>Trimming reports the truth: it returns true exactly when the cache is within its budget
  afterwards, and when it returns false every entry that is still resident is pinned by a lease, so
  nothing more could have been evicted. Leased entries survive in both cases.\<close>

theorem trim_reports_truth:
  assumes "cache_inv c" and "trim c = (r, c')"
  shows "(r = Inr True \<longleftrightarrow> ec_resident_bytes c' \<le> ec_budget_bytes c) \<and>
    (r = Inr False \<longleftrightarrow> ec_budget_bytes c < ec_resident_bytes c') \<and>
    (r = Inr False \<longrightarrow> (\<forall>ke \<in> set (ec_entries c'). 0 < en_leases (snd ke))) \<and> keeps_leases c c'"
  using trim_ok [OF assms] by (auto split: if_splits)

theorem trim_reports_truth_witness:
  "cache_inv sample_cache \<and> fst (trim sample_cache) = Inr True \<and>
    ec_resident_bytes (snd (trim sample_cache)) \<le> ec_budget_bytes sample_cache"
proof -
  have inv: "cache_inv sample_cache"
    by (rule cache_inv_init [OF sample_cache_init]) (simp add: SIZE_MAX_def)
  have r: "fst (trim sample_cache) = Inr True"
    by (simp add: trim_def sample_cache_def expert_cache_init_def evict_until.simps)
  have "trim sample_cache = (fst (trim sample_cache), snd (trim sample_cache))" by simp
  from trim_reports_truth [OF inv this] inv r show ?thesis by simp
qed

end
