(* ===== verification/Geometry.thy ===== *)
theory Geometry
  imports Prelude
begin

unbundle bit_operations_syntax

text \<open>
  Pure sizing arithmetic: quantisation geometry and packed codes
  (\<^verbatim>\<open>src/quantization_geometry.cpp\<close>), the block-pooling checkpoint
  (\<^verbatim>\<open>include/qwen38/qsa_checkpoint.hpp\<close>) and the expert memory budget
  (\<^verbatim>\<open>include/qwen38/memory_budget.hpp\<close>). Sizes are \<open>size_t\<close>: products and sums that the
  code does not guard are written with their wrap-around.
\<close>

subsection \<open>Quantisation geometry\<close>

definition supports_segmented_vq :: "int \<Rightarrow> int \<Rightarrow> bool" where
  "supports_segmented_vq dimension packed_bits \<longleftrightarrow>
     dimension = 2 \<and> packed_bits = 0 \<or> dimension = 4 \<and> packed_bits = 8 \<or>
     dimension = 8 \<and> packed_bits = 14"

definition infer_affine_quantization_bits :: "int list \<Rightarrow> int list \<Rightarrow> nat \<Rightarrow> string \<Rightarrow> int result" where
  "infer_affine_quantization_bits packed_weight_shape scale_shape group_size label =
     (if packed_weight_shape = [] \<or> length packed_weight_shape \<noteq> length scale_shape \<or>
         last packed_weight_shape \<le> 0 \<or> last scale_shape \<le> 0 \<or> group_size = 0 then
        Inl (RuntimeError (''cannot infer '' @ label @ '' quantization geometry''))
      else
        let packed = nat (last packed_weight_shape); groups = nat (last scale_shape) in
        if groups > SIZE_MAX div group_size then
          Inl (RuntimeError (label @ '' quantization geometry overflows''))
        else
          let width = sz_mul groups group_size in
          if width = 0 \<or> packed > SIZE_MAX div 32 \<or> sz_mul packed 32 mod width \<noteq> 0 then
            Inl (RuntimeError (''non-integral '' @ label @ '' quantization bits''))
          else
            let bits = sz_mul packed 32 div width in
            if bits \<notin> {2, 3, 4, 5, 6, 8} then
              Inl (RuntimeError (label @ '' projections must use affine Q2, Q3, Q4, Q5, Q6, or Q8''))
            else Inr (int bits))"

definition packed_vq_word_count :: "nat \<Rightarrow> nat \<Rightarrow> nat result" where
  "packed_vq_word_count code_count bits_per_code =
     (if bits_per_code = 0 \<or> bits_per_code > 31 then
        Inl (RuntimeError ''packed VQ codes must use 1 to 31 bits'')
      else
        let blocks = code_count div 32 + (if code_count mod 32 \<noteq> 0 then 1 else 0) in
        if blocks > SIZE_MAX div bits_per_code then Inl (RuntimeError ''packed VQ word count overflows'')
        else Inr (sz_mul blocks bits_per_code))"

definition unpack_vq_code :: "u32 list \<Rightarrow> nat \<Rightarrow> nat \<Rightarrow> u32 result" where
  "unpack_vq_code words code_index bits_per_code =
     res_bind (packed_vq_word_count (sz_add code_index 1) bits_per_code) (\<lambda>required.
       if length words < required then Inl (OutOfRange ''packed VQ code is out of range'')
       else
         let in_block = code_index mod 32;
             bit_offset = in_block * bits_per_code;
             word = (code_index div 32) * bits_per_code + bit_offset div 32;
             shift = bit_offset mod 32;
             low = drop_bit shift (ucast (words ! word) :: u64);
             v = (if shift + bits_per_code > 32
                  then low OR push_bit (32 - shift) (ucast (words ! (word + 1)))
                  else low)
         in Inr (ucast (v AND mask bits_per_code)))"

lemma packed_vq_word_count_eq:
  assumes "0 < bits" and "bits \<le> 31" and "n \<le> SIZE_MAX"
  shows "packed_vq_word_count n bits =
    (if (n + 31) div 32 * bits \<le> SIZE_MAX then Inr ((n + 31) div 32 * bits)
     else Inl (RuntimeError ''packed VQ word count overflows''))"
proof -
  have "n div 32 + (if n mod 32 \<noteq> 0 then 1 else 0) = (n + 31) div 32"
  proof (cases "n mod 32 = 0")
    case True
    then show ?thesis using div_add1_eq [of n 31 32] by simp
  next
    case False
    have "n mod 32 < 32" by simp
    then have "(n mod 32 + 31) div 32 = 1" using False by (intro div_nat_eqI) auto
    then show ?thesis using False div_add1_eq [of n 31 32] by simp
  qed
  moreover have "(n + 31) div 32 > SIZE_MAX div bits \<longleftrightarrow> \<not> (n + 31) div 32 * bits \<le> SIZE_MAX"
    using assms(1) by (simp add: div_less_iff_less_mult not_le)
  ultimately show ?thesis using assms by (auto simp: packed_vq_word_count_def Let_def)
qed

text \<open>A code occupies the bits from \<open>code_index * bits\<close> of the words read as one bit stream.\<close>

definition stream_bit :: "u32 list \<Rightarrow> nat \<Rightarrow> bool" where
  "stream_bit words i \<longleftrightarrow> bit (words ! (i div 32)) (i mod 32)"

lemma div_mod_offset:
  fixes w r :: nat
  assumes "i = 32 * w + r" and "r < 32"
  shows "i div 32 = w" and "i mod 32 = r"
  using assms by auto

lemma code_position:
  fixes i b :: nat
  shows "(i div 32) * b + (i mod 32 * b) div 32 = (i * b) div 32" and "(i mod 32 * b) mod 32 = (i * b) mod 32"
proof -
  have "i * b = 32 * ((i div 32) * b) + i mod 32 * b"
    by (metis distrib_right mult.assoc mult_div_mod_eq)
  then show "(i div 32) * b + (i mod 32 * b) div 32 = (i * b) div 32" by simp
  show "(i mod 32 * b) mod 32 = (i * b) mod 32" by (simp add: mod_mult_left_eq)
qed

lemma unpacked_bit:
  assumes "b \<le> 31" and "j < b" and "shift < 32"
  shows "bit (ucast ((if shift + b > 32
        then drop_bit shift (ucast lo :: u64) OR push_bit (32 - shift) (ucast hi)
        else drop_bit shift (ucast lo)) AND mask b) :: u32) j \<longleftrightarrow>
    (if shift + j < 32 then bit (lo :: u32) (shift + j) else bit (hi :: u32) (shift + j - 32))"
  using assms
  by (auto simp: bit_simps add.commute dest: bit_imp_le_length)

text \<open>C23. Unpacking a code reads exactly its own bits: for a valid width and a code inside the
  words, \<open>unpack_vq_code\<close> succeeds, every bit below the width is the corresponding bit of the
  packed stream, and all higher bits are zero, also when the code straddles two words.\<close>

theorem unpack_vq_code_reads_stream:
  assumes "0 < bits" and "bits \<le> 31" and "code_index < SIZE_MAX"
    and "(code_index + 32) div 32 * bits \<le> length words" and "length words \<le> SIZE_MAX"
  shows "\<exists>v. unpack_vq_code words code_index bits = Inr v \<and>
    (\<forall>j < 32. bit v j \<longleftrightarrow> j < bits \<and> stream_bit words (code_index * bits + j))"
proof -
  let ?w = "(code_index * bits) div 32" and ?s = "(code_index * bits) mod 32"
  let ?v = "ucast ((if ?s + bits > 32
        then drop_bit ?s (ucast (words ! ?w) :: u64) OR push_bit (32 - ?s) (ucast (words ! (?w + 1)))
        else drop_bit ?s (ucast (words ! ?w))) AND mask bits) :: u32"
  have count: "packed_vq_word_count (sz_add code_index 1) bits = Inr ((code_index + 32) div 32 * bits)"
    using packed_vq_word_count_eq [of bits "code_index + 1"] assms by (simp add: add.commute)
  have v: "unpack_vq_code words code_index bits = Inr ?v"
    using assms(4) by (simp add: unpack_vq_code_def count [unfolded One_nat_def] Let_def code_position)
  moreover have "bit ?v j \<longleftrightarrow> j < bits \<and> stream_bit words (code_index * bits + j)" if "j < 32" for j
  proof (cases "j < bits")
    case True
    have s: "?s < 32" by simp
    have pos: "code_index * bits + j = 32 * ?w + (?s + j)" by simp
    have "stream_bit words (code_index * bits + j) \<longleftrightarrow>
      (if ?s + j < 32 then bit (words ! ?w) (?s + j) else bit (words ! (?w + 1)) (?s + j - 32))"
    proof (cases "?s + j < 32")
      case True
      then have "(code_index * bits + j) div 32 = ?w" "(code_index * bits + j) mod 32 = ?s + j"
        using div_mod_offset [OF pos] by simp_all
      then show ?thesis using True by (simp add: stream_bit_def)
    next
      case False
      then have "code_index * bits + j = 32 * (?w + 1) + (?s + j - 32)" "?s + j - 32 < 32"
        using that s pos by auto
      then have "(code_index * bits + j) div 32 = ?w + 1" "(code_index * bits + j) mod 32 = ?s + j - 32"
        using div_mod_offset by blast+
      then show ?thesis using False by (simp add: stream_bit_def)
    qed
    then show ?thesis using unpacked_bit [OF assms(2) True s] True by simp
  next
    case False
    then show ?thesis by (auto simp: bit_simps)
  qed
  ultimately show ?thesis by blast
qed

theorem unpack_vq_code_reads_stream_witness:
  "\<exists>v. unpack_vq_code [2882400001, 305419896, 7] 2 3 = Inr v \<and>
    (\<forall>j < 32. bit v j = (j < 3 \<and> stream_bit [2882400001, 305419896, 7] (2 * 3 + j)))"
  using unpack_vq_code_reads_stream [of 3 2 "[2882400001, 305419896, 7]"] by (simp add: SIZE_MAX_def)

text \<open>An inferred width is the true one: whenever the affine bit width is inferred, it is one of
  the supported widths and the packed weight words hold exactly the weights of the groups at that
  width, with no overflow on the way.\<close>

theorem inferred_bits_are_exact:
  assumes "infer_affine_quantization_bits weight scale group_size label = Inr bits"
  shows "bits \<in> {2, 3, 4, 5, 6, 8} \<and>
    bits * (last scale * int group_size) = last weight * 32 \<and> last scale * int group_size \<le> int SIZE_MAX"
proof -
  let ?p = "nat (last weight)" and ?g = "nat (last scale)"
  let ?pb = "sz_mul ?p 32" and ?e = "sz_mul ?g group_size"
  from assms have pos: "0 < last weight" "0 < last scale" "0 < group_size"
    and g: "?g \<le> SIZE_MAX div group_size" and p: "?p \<le> SIZE_MAX div 32"
    and m: "?pb mod ?e = 0" "?e \<noteq> 0" and b: "?pb div ?e \<in> {2, 3, 4, 5, 6, 8}" "bits = int (?pb div ?e)"
    by (simp_all add: infer_affine_quantization_bits_def Let_def not_le not_less del: insert_iff split: if_splits)
  have gm: "?g * group_size \<le> SIZE_MAX" and pm: "?p * 32 \<le> SIZE_MAX"
    using g p pos(3) by (auto simp: less_eq_div_iff_mult_less_eq)
  then have w: "sz_mul ?g group_size = ?g * group_size" "sz_mul ?p 32 = ?p * 32" by auto
  have "(?p * 32) div (?g * group_size) * (?g * group_size) = ?p * 32"
    using m(1) w by (metis dvd_div_mult_self mod_0_imp_dvd)
  then have "int ((?p * 32) div (?g * group_size)) * (int ?g * int group_size) = int ?p * 32"
    by (metis of_nat_mult of_nat_numeral)
  moreover have "int ?g * int group_size \<le> int SIZE_MAX" using gm by (metis of_nat_le_iff of_nat_mult)
  ultimately show ?thesis using b w pos by auto
qed

theorem inferred_bits_are_exact_witness:
  "infer_affine_quantization_bits [64, 16] [64, 2] 64 ''MTP'' = Inr 4 \<and>
    (4 :: int) * (last [64, 2] * int 64) = last [64, 16] * 32"
proof -
  have i: "infer_affine_quantization_bits [64, 16] [64, 2] 64 ''MTP'' = Inr 4"
    by (simp add: infer_affine_quantization_bits_def SIZE_MAX_def sz_mul_def Let_def)
  show ?thesis using i inferred_bits_are_exact [OF i] by simp
qed

subsection \<open>Pooling checkpoint\<close>

record QsaCheckpointPlan =
  qc_pooled_blocks :: nat
  qc_raw_start :: nat

definition plan_qsa_checkpoint ::
    "nat \<Rightarrow> nat \<Rightarrow> nat \<Rightarrow> nat \<Rightarrow> nat \<Rightarrow> nat \<Rightarrow> QsaCheckpointPlan result" where
  "plan_qsa_checkpoint complete_tokens complete_pooled_blocks complete_raw_start checkpoint_tokens
       ratio window =
     (if ratio = 0 \<or> checkpoint_tokens > complete_tokens \<or> complete_raw_start > checkpoint_tokens \<or>
         complete_pooled_blocks > complete_tokens div ratio then
        Inl (RuntimeError ''invalid QSA checkpoint geometry'')
      else
        let blocks = min complete_pooled_blocks (checkpoint_tokens div ratio);
            frontier = sz_mul blocks ratio
        in if complete_raw_start > frontier then
             Inl (RuntimeError ''QSA checkpoint raw window misses the pooling frontier'')
           else
             let desired_start = (if window = 0 then complete_raw_start
                   else if checkpoint_tokens > window then checkpoint_tokens - window else 0)
             in Inr \<lparr>qc_pooled_blocks = blocks,
                     qc_raw_start = max complete_raw_start (min desired_start frontier)\<rparr>)"

text \<open>A rollback checkpoint of the pooled attention keys loses no token: every planned
  checkpoint keeps only complete blocks that existed, every position before the first raw key is
  covered by a pooled block, the raw keys were available, and with a positive window the last
  \<open>window\<close> positions stay raw as far as they were raw before.\<close>

theorem qsa_checkpoint_covers_tokens:
  assumes "plan_qsa_checkpoint tokens pooled raw n ratio window = Inr plan" and "tokens \<le> SIZE_MAX"
  shows "qc_pooled_blocks plan \<le> pooled \<and> qc_pooled_blocks plan * ratio \<le> n \<and>
    raw \<le> qc_raw_start plan \<and> qc_raw_start plan \<le> qc_pooled_blocks plan * ratio \<and>
    (0 < window \<longrightarrow> qc_raw_start plan \<le> max raw (n - window))"
proof -
  define b where "b = min pooled (n div ratio)"
  have le: "b * ratio \<le> n" "b \<le> pooled"
    unfolding b_def by (metis div_times_less_eq_dividend min.cobounded2 mult_le_mono1 order_trans, simp)
  from assms have n: "n \<le> SIZE_MAX" by (auto simp: plan_qsa_checkpoint_def split: if_splits)
  with le have f: "sz_mul b ratio = b * ratio" by (intro sz_mul_exact) simp
  define d where "d = (if window = 0 then raw else if n > window then n - window else 0)"
  from assms(1) have raw: "raw \<le> b * ratio"
    and plan: "plan = \<lparr>qc_pooled_blocks = b, qc_raw_start = max raw (min d (b * ratio))\<rparr>"
    unfolding plan_qsa_checkpoint_def Let_def b_def [symmetric] d_def [symmetric] f
    by (simp_all split: if_splits)
  have "0 < window \<Longrightarrow> d \<le> n - window" by (simp add: d_def)
  then show ?thesis unfolding plan using raw le by auto
qed

theorem qsa_checkpoint_covers_tokens_witness:
  "plan_qsa_checkpoint 100 6 90 95 16 8 =
      Inl (RuntimeError ''QSA checkpoint raw window misses the pooling frontier'') \<and>
    plan_qsa_checkpoint 100 6 64 95 16 8 = Inr \<lparr>qc_pooled_blocks = 5, qc_raw_start = 80\<rparr> \<and>
    (80 :: nat) \<le> 5 * 16"
proof -
  have p: "plan_qsa_checkpoint 100 6 64 95 16 8 = Inr \<lparr>qc_pooled_blocks = 5, qc_raw_start = 80\<rparr>"
    by (simp add: plan_qsa_checkpoint_def sz_mul_def)
  have "plan_qsa_checkpoint 100 6 90 95 16 8 =
      Inl (RuntimeError ''QSA checkpoint raw window misses the pooling frontier'')"
    by (simp add: plan_qsa_checkpoint_def sz_mul_def)
  then show ?thesis using p qsa_checkpoint_covers_tokens [OF p] by (simp add: SIZE_MAX_def)
qed

subsection \<open>Expert memory budget\<close>

record ProcessMemoryRange =
  mr_steady_bytes :: nat
  mr_ceiling_bytes :: nat

record ExpertBudgetRequest =
  br_non_expert_bytes :: nat
  br_transient_bytes :: nat
  br_safety_reserve_bytes :: nat
  br_minimum_expert_bytes :: nat
  br_pressure_expert_limit :: nat

datatype BudgetFailure = Failure_none | Failure_base_exceeds_ceiling | Failure_working_set_exceeds_allowance

record ExpertBudgetPlan =
  bp_feasible :: bool
  bp_steady_feasible :: bool
  bp_accounted_overhead_bytes :: nat
  bp_steady_expert_bytes :: nat
  bp_burst_expert_bytes :: nat
  bp_failure :: BudgetFailure

text \<open>The accounting loop: the overhead so far and whether every item fitted.\<close>

fun account_overhead :: "nat \<Rightarrow> nat list \<Rightarrow> nat \<Rightarrow> nat \<times> bool" where
  "account_overhead ceiling [] overhead = (overhead, True)"
| "account_overhead ceiling (bytes # rest) overhead =
     (if bytes > ceiling - overhead then (overhead, False)
      else account_overhead ceiling rest (sz_add overhead bytes))"

definition plan_expert_budget :: "ProcessMemoryRange \<Rightarrow> ExpertBudgetRequest \<Rightarrow> ExpertBudgetPlan result" where
  "plan_expert_budget memory request =
     (if mr_ceiling_bytes memory = 0 \<or> mr_steady_bytes memory > mr_ceiling_bytes memory then
        Inl (InvalidArgument ''invalid steady/ceiling memory memory'')
      else
        let (overhead, fits) = account_overhead (mr_ceiling_bytes memory)
              [br_non_expert_bytes request, br_transient_bytes request, br_safety_reserve_bytes request] 0
        in if \<not> fits then
             Inr \<lparr>bp_feasible = False, bp_steady_feasible = False, bp_accounted_overhead_bytes = overhead,
                  bp_steady_expert_bytes = 0, bp_burst_expert_bytes = 0,
                  bp_failure = Failure_base_exceeds_ceiling\<rparr>
           else
             let steady0 = (if mr_steady_bytes memory > overhead then mr_steady_bytes memory - overhead else 0);
                 burst0 = mr_ceiling_bytes memory - overhead;
                 steady = min steady0 (br_pressure_expert_limit request);
                 burst = min burst0 (br_pressure_expert_limit request);
                 feasible = (br_minimum_expert_bytes request \<le> burst)
             in Inr \<lparr>bp_feasible = feasible,
                     bp_steady_feasible = (overhead \<le> mr_steady_bytes memory \<and>
                       br_minimum_expert_bytes request \<le> steady),
                     bp_accounted_overhead_bytes = overhead, bp_steady_expert_bytes = steady,
                     bp_burst_expert_bytes = burst,
                     bp_failure = (if feasible then Failure_none
                       else Failure_working_set_exceeds_allowance)\<rparr>)"

lemma account_overhead_exact:
  "overhead \<le> ceiling \<Longrightarrow> ceiling \<le> SIZE_MAX \<Longrightarrow>
    account_overhead ceiling items overhead = (ov, fits) \<Longrightarrow>
    ov \<le> ceiling \<and> (fits \<longleftrightarrow> overhead + sum_list items \<le> ceiling) \<and>
      (fits \<longrightarrow> ov = overhead + sum_list items)"
proof (induction items arbitrary: overhead)
  case Nil
  then show ?case by simp
next
  case (Cons x items)
  show ?case
  proof (cases "x \<le> ceiling - overhead")
    case True
    then have "overhead + x \<le> ceiling" using Cons.prems by linarith
    with Cons.IH [of "overhead + x"] Cons.prems True show ?thesis by (simp add: add.assoc)
  next
    case False
    then show ?thesis using Cons.prems by auto
  qed
qed

text \<open>The budget plan is exact and safe for every \<open>size_t\<close> input: it is feasible exactly when
  overhead plus minimal working set fit under the ceiling and the pressure limit, in which case
  overhead and burst tier together never exceed the ceiling, overhead and a positive steady tier
  never exceed the steady target, and the steady tier never exceeds the burst tier; the sum of
  the requested overheads is never lost to overflow.\<close>

theorem expert_budget_exact:
  assumes "0 < mr_ceiling_bytes memory" and "mr_steady_bytes memory \<le> mr_ceiling_bytes memory"
    and "mr_ceiling_bytes memory \<le> SIZE_MAX"
    and "overhead = br_non_expert_bytes request + br_transient_bytes request + br_safety_reserve_bytes request"
  shows "\<exists>plan. plan_expert_budget memory request = Inr plan \<and>
    (bp_feasible plan \<longleftrightarrow> overhead + br_minimum_expert_bytes request \<le> mr_ceiling_bytes memory \<and>
       br_minimum_expert_bytes request \<le> br_pressure_expert_limit request) \<and>
    (bp_feasible plan \<longrightarrow> bp_accounted_overhead_bytes plan = overhead \<and>
       overhead + bp_burst_expert_bytes plan \<le> mr_ceiling_bytes memory) \<and>
    (0 < bp_steady_expert_bytes plan \<longrightarrow> overhead + bp_steady_expert_bytes plan \<le> mr_steady_bytes memory) \<and>
    bp_steady_expert_bytes plan \<le> bp_burst_expert_bytes plan \<and>
    (bp_steady_feasible plan \<longrightarrow> bp_feasible plan) \<and>
    (bp_failure plan = Failure_none \<longleftrightarrow> bp_feasible plan)"
proof -
  obtain ov fits where a: "account_overhead (mr_ceiling_bytes memory)
      [br_non_expert_bytes request, br_transient_bytes request, br_safety_reserve_bytes request] 0 = (ov, fits)"
    by fastforce
  have ex: "fits \<longleftrightarrow> overhead \<le> mr_ceiling_bytes memory" "fits \<Longrightarrow> ov = overhead"
    using account_overhead_exact [OF _ assms(3) a] assms(4) by (auto simp: add.assoc)
  show ?thesis
  proof (cases fits)
    case True
    then show ?thesis using ex assms(1,2) unfolding plan_expert_budget_def a by (simp add: Let_def) linarith
  next
    case False
    then show ?thesis using ex assms(1,2) unfolding plan_expert_budget_def a by (simp add: Let_def)
  qed
qed

theorem expert_budget_exact_witness:
  "\<exists>plan. plan_expert_budget \<lparr>mr_steady_bytes = 12, mr_ceiling_bytes = 20\<rparr>
      \<lparr>br_non_expert_bytes = 5, br_transient_bytes = 2, br_safety_reserve_bytes = 1,
       br_minimum_expert_bytes = 3, br_pressure_expert_limit = 10\<rparr> = Inr plan \<and> bp_feasible plan"
  using expert_budget_exact [of "\<lparr>mr_steady_bytes = 12, mr_ceiling_bytes = 20\<rparr>" 8
      "\<lparr>br_non_expert_bytes = 5, br_transient_bytes = 2, br_safety_reserve_bytes = 1,
       br_minimum_expert_bytes = 3, br_pressure_expert_limit = 10\<rparr>"]
  by (auto simp: SIZE_MAX_def)

end
