(* ===== verification/Runtime_State.thy ===== *)
theory Runtime_State
  imports Prelude
begin

text \<open>
  \<^verbatim>\<open>runtime.cpp\<close>: the shared runtime state that every request thread updates and the status
  endpoint reads.

  The runtime state is a set of atomics and a mutex-protected block of metadata. Each member
  function is a list of atomic actions in program order, and threads interleave their actions:
  a step runs the next action of one thread. Interleavings are sequentially consistent; the
  uptime of a snapshot, a clock reading, is left out.
\<close>

subsection \<open>Shared runtime state\<close>

datatype ModelState = Unloaded | Loading | Ready | Failed

definition state_to_string :: "ModelState \<Rightarrow> string" where
  "state_to_string state =
     (case state of Unloaded \<Rightarrow> ''unloaded'' | Loading \<Rightarrow> ''loading'' | Ready \<Rightarrow> ''ready''
      | Failed \<Rightarrow> ''failed'')"

record RuntimeSnapshot =
  sn_model_state :: ModelState
  sn_model_id :: string
  sn_model_path :: string
  sn_last_error :: string
  sn_requests_total :: u64
  sn_requests_active :: u64
  sn_requests_cancelled :: u64
  sn_prompt_tokens_total :: u64
  sn_generated_tokens_total :: u64

definition snapshot_init :: RuntimeSnapshot where
  "snapshot_init = \<lparr>sn_model_state = Unloaded, sn_model_id = [], sn_model_path = [], sn_last_error = [],
     sn_requests_total = 0, sn_requests_active = 0, sn_requests_cancelled = 0,
     sn_prompt_tokens_total = 0, sn_generated_tokens_total = 0\<rparr>"

record RuntimeState =
  rt_model_state :: ModelState
  rt_requests_total :: u64
  rt_requests_active :: u64
  rt_requests_cancelled :: u64
  rt_prompt_tokens_total :: u64
  rt_generated_tokens_total :: u64
  rt_model_id :: string
  rt_model_path :: string
  rt_last_error :: string

definition runtime_init :: RuntimeState where
  "runtime_init = \<lparr>rt_model_state = Unloaded, rt_requests_total = 0, rt_requests_active = 0,
     rt_requests_cancelled = 0, rt_prompt_tokens_total = 0, rt_generated_tokens_total = 0,
     rt_model_id = [], rt_model_path = [], rt_last_error = []\<rparr>"

text \<open>
  The atomic actions: a store or load of the model state, an addition to or a load of one
  counter, and one critical section of the metadata mutex.
\<close>

datatype counter = Requests_total | Requests_active | Requests_cancelled | Prompt_tokens | Generated_tokens

datatype action =
    Store_state ModelState
  | Load_state
  | Fetch_add counter u64
  | Load_counter counter
  | Lock_loading string
  | Lock_ready string
  | Lock_failed string
  | Lock_read

fun counter_of :: "counter \<Rightarrow> RuntimeState \<Rightarrow> u64" where
  "counter_of Requests_total s = rt_requests_total s"
| "counter_of Requests_active s = rt_requests_active s"
| "counter_of Requests_cancelled s = rt_requests_cancelled s"
| "counter_of Prompt_tokens s = rt_prompt_tokens_total s"
| "counter_of Generated_tokens s = rt_generated_tokens_total s"

fun add_counter :: "counter \<Rightarrow> u64 \<Rightarrow> RuntimeState \<Rightarrow> RuntimeState" where
  "add_counter Requests_total n s = s\<lparr>rt_requests_total := rt_requests_total s + n\<rparr>"
| "add_counter Requests_active n s = s\<lparr>rt_requests_active := rt_requests_active s + n\<rparr>"
| "add_counter Requests_cancelled n s = s\<lparr>rt_requests_cancelled := rt_requests_cancelled s + n\<rparr>"
| "add_counter Prompt_tokens n s = s\<lparr>rt_prompt_tokens_total := rt_prompt_tokens_total s + n\<rparr>"
| "add_counter Generated_tokens n s = s\<lparr>rt_generated_tokens_total := rt_generated_tokens_total s + n\<rparr>"

fun read_counter :: "counter \<Rightarrow> RuntimeState \<Rightarrow> RuntimeSnapshot \<Rightarrow> RuntimeSnapshot" where
  "read_counter Requests_total s l = l\<lparr>sn_requests_total := rt_requests_total s\<rparr>"
| "read_counter Requests_active s l = l\<lparr>sn_requests_active := rt_requests_active s\<rparr>"
| "read_counter Requests_cancelled s l = l\<lparr>sn_requests_cancelled := rt_requests_cancelled s\<rparr>"
| "read_counter Prompt_tokens s l = l\<lparr>sn_prompt_tokens_total := rt_prompt_tokens_total s\<rparr>"
| "read_counter Generated_tokens s l = l\<lparr>sn_generated_tokens_total := rt_generated_tokens_total s\<rparr>"

fun perform :: "action \<Rightarrow> RuntimeState \<times> RuntimeSnapshot \<Rightarrow> RuntimeState \<times> RuntimeSnapshot" where
  "perform (Store_state v) (s, l) = (s\<lparr>rt_model_state := v\<rparr>, l)"
| "perform Load_state (s, l) = (s, l\<lparr>sn_model_state := rt_model_state s\<rparr>)"
| "perform (Fetch_add c n) (s, l) = (add_counter c n s, l)"
| "perform (Load_counter c) (s, l) = (s, read_counter c s l)"
| "perform (Lock_loading path) (s, l) =
     (s\<lparr>rt_model_path := path, rt_model_id := [], rt_last_error := []\<rparr>, l)"
| "perform (Lock_ready i) (s, l) = (s\<lparr>rt_model_id := i, rt_last_error := []\<rparr>, l)"
| "perform (Lock_failed message) (s, l) = (s\<lparr>rt_last_error := message\<rparr>, l)"
| "perform Lock_read (s, l) =
     (s, l\<lparr>sn_model_id := rt_model_id s, sn_model_path := rt_model_path s,
           sn_last_error := rt_last_error s\<rparr>)"

text \<open>The member functions, as their actions in program order.\<close>

definition begin_loading :: "string \<Rightarrow> action list" where
  "begin_loading path = [Lock_loading path, Store_state Loading]"

definition mark_ready :: "string \<Rightarrow> action list" where
  "mark_ready i = [Lock_ready i, Store_state Ready]"

definition mark_failed :: "string \<Rightarrow> action list" where
  "mark_failed message = [Lock_failed message, Store_state Failed]"

definition request_started :: "action list" where
  "request_started = [Fetch_add Requests_total 1, Fetch_add Requests_active 1]"

definition request_finished :: "u64 \<Rightarrow> u64 \<Rightarrow> bool \<Rightarrow> action list" where
  "request_finished prompt_tokens generated_tokens cancelled =
     Fetch_add Requests_active (- 1) #
     (if cancelled then [Fetch_add Requests_cancelled 1] else []) @
     [Fetch_add Prompt_tokens prompt_tokens, Fetch_add Generated_tokens generated_tokens]"

definition snapshot :: "action list" where
  "snapshot = [Load_state, Load_counter Requests_total, Load_counter Requests_active,
     Load_counter Requests_cancelled, Load_counter Prompt_tokens, Load_counter Generated_tokens, Lock_read]"

definition is_ready :: "RuntimeState \<Rightarrow> bool" where
  "is_ready s \<longleftrightarrow> rt_model_state s = Ready"

text \<open>
  Threads: each has the snapshot it is building and the actions it still has to run. A thread
  that has run out of actions may enter another member function.
\<close>

record thread =
  th_local :: RuntimeSnapshot
  th_todo :: "action list"

datatype runtime_call =
    Call_begin_loading string
  | Call_mark_ready string
  | Call_mark_failed string
  | Call_request_started
  | Call_request_finished u64 u64 bool
  | Call_snapshot

fun call_actions :: "runtime_call \<Rightarrow> action list" where
  "call_actions (Call_begin_loading path) = begin_loading path"
| "call_actions (Call_mark_ready i) = mark_ready i"
| "call_actions (Call_mark_failed message) = mark_failed message"
| "call_actions Call_request_started = request_started"
| "call_actions (Call_request_finished p g c) = request_finished p g c"
| "call_actions Call_snapshot = snapshot"

lemmas call_action_defs =
  begin_loading_def mark_ready_def mark_failed_def request_started_def request_finished_def snapshot_def

text \<open>A configuration: the shared state, the threads, and the log of the calls entered so far.\<close>

type_synonym config = "RuntimeState \<times> thread list \<times> runtime_call list"

inductive runtime_step :: "config \<Rightarrow> config \<Rightarrow> bool" where
  run_action: "i < length ts \<Longrightarrow> th_todo (ts ! i) = a # rest \<Longrightarrow> perform a (s, th_local (ts ! i)) = (s', l') \<Longrightarrow>
    runtime_step (s, ts, log) (s', ts[i := \<lparr>th_local = l', th_todo = rest\<rparr>], log)"
| enter_call: "i < length ts \<Longrightarrow> th_todo (ts ! i) = [] \<Longrightarrow>
    runtime_step (s, ts, log)
      (s, ts[i := \<lparr>th_local = snapshot_init, th_todo = call_actions c\<rparr>], log @ [c])"

inductive_cases runtime_stepE: "runtime_step x y"

definition runtime_initial :: "config \<Rightarrow> bool" where
  "runtime_initial = (\<lambda>(s, ts, log). s = runtime_init \<and> (\<forall>t \<in> set ts. th_todo t = []) \<and> log = [])"

subsubsection \<open>Counters\<close>

fun action_delta :: "counter \<Rightarrow> action \<Rightarrow> u64" where
  "action_delta c (Fetch_add c' n) = (if c = c' then n else 0)"
| "action_delta c _ = 0"

definition todo_delta :: "counter \<Rightarrow> thread \<Rightarrow> u64" where
  "todo_delta c t = (\<Sum>a\<leftarrow>th_todo t. action_delta c a)"

definition call_delta :: "counter \<Rightarrow> runtime_call \<Rightarrow> u64" where
  "call_delta c k = (\<Sum>a\<leftarrow>call_actions k. action_delta c a)"

definition counters_inv :: "config \<Rightarrow> bool" where
  "counters_inv = (\<lambda>(s, ts, log). \<forall>c.
     counter_of c s + (\<Sum>t\<leftarrow>ts. todo_delta c t) = (\<Sum>k\<leftarrow>log. call_delta c k))"

lemma sum_list_update_group:
  fixes f :: "'a \<Rightarrow> 'b :: ab_group_add"
  shows "i < length ts \<Longrightarrow> (\<Sum>t\<leftarrow>ts[i := u]. f t) = (\<Sum>t\<leftarrow>ts. f t) - f (ts ! i) + f u"
  by (induction ts arbitrary: i) (auto split: nat.splits)

lemma counter_of_add_counter:
  "counter_of c (add_counter c' n s) = counter_of c s + (if c = c' then n else 0)"
  by (cases c; cases c') auto

lemma perform_counter:
  assumes "perform a (s, l) = (s', l')"
  shows "counter_of c s' = counter_of c s + action_delta c a"
proof (cases a)
  case (Fetch_add c' n)
  then show ?thesis using assms by (auto simp: counter_of_add_counter)
qed (use assms in \<open>cases c; auto\<close>)+

interpretation counter_system: invariant_system runtime_initial runtime_step counters_inv
proof
  fix x
  assume "runtime_initial x"
  then show "counters_inv x"
  proof (cases x)
    case (fields s ts log)
    have "counter_of c runtime_init = 0" for c by (cases c) (simp_all add: runtime_init_def)
    moreover have "(\<Sum>t\<leftarrow>ts. todo_delta c t) = 0" if "\<forall>t \<in> set ts. th_todo t = []" for c
      using that by (induction ts) (auto simp: todo_delta_def)
    ultimately show ?thesis
      using \<open>runtime_initial x\<close> fields by (simp add: runtime_initial_def counters_inv_def)
  qed
next
  fix x y
  assume "counters_inv x" "runtime_step x y"
  from this(2,1) show "counters_inv y"
  proof (cases rule: runtime_step.cases)
    case (run_action i ts a rest s s' l' log)
    then show ?thesis using \<open>counters_inv x\<close>
      by (auto simp: counters_inv_def sum_list_update_group todo_delta_def perform_counter algebra_simps)
  next
    case (enter_call i ts s log c)
    then show ?thesis using \<open>counters_inv x\<close>
      by (auto simp: counters_inv_def sum_list_update_group todo_delta_def call_delta_def algebra_simps)
  qed
qed

lemma call_delta_sums:
  "(\<Sum>k\<leftarrow>log. call_delta Requests_total k) = of_nat (length (filter (\<lambda>k. k = Call_request_started) log))"
  "(\<Sum>k\<leftarrow>log. call_delta Requests_active k) = of_nat (length (filter (\<lambda>k. k = Call_request_started) log)) -
      of_nat (length (filter (\<lambda>k. \<exists>p g c. k = Call_request_finished p g c) log))"
  "(\<Sum>k\<leftarrow>log. call_delta Requests_cancelled k) =
      of_nat (length (filter (\<lambda>k. \<exists>p g. k = Call_request_finished p g True) log))"
  "(\<Sum>k\<leftarrow>log. call_delta Prompt_tokens k) = (\<Sum>k\<leftarrow>log. case k of Call_request_finished p g c \<Rightarrow> p | _ \<Rightarrow> 0)"
  "(\<Sum>k\<leftarrow>log. call_delta Generated_tokens k) = (\<Sum>k\<leftarrow>log. case k of Call_request_finished p g c \<Rightarrow> g | _ \<Rightarrow> 0)"
proof (induction log)
  case (Cons k log)
  {
    case 1 show ?case using Cons by (cases k) (simp_all add: call_delta_def call_action_defs)
  next
    case 2 show ?case using Cons by (cases k) (simp_all add: call_delta_def call_action_defs)
  next
    case 3 show ?case using Cons by (cases k) (auto simp: call_delta_def call_action_defs)
  next
    case 4 show ?case using Cons by (cases k) (simp_all add: call_delta_def call_action_defs)
  next
    case 5 show ?case using Cons by (cases k) (simp_all add: call_delta_def call_action_defs)
  }
qed simp_all

text \<open>C25. The request counters are exact under every interleaving: when no thread is inside a
  member function, the total is the number of started requests, the active count is started
  minus finished requests, the cancelled count is the number of cancelled ones and the token
  counters are the sums reported, all modulo \<open>2 ^ 64\<close>.\<close>

theorem request_counters_exact:
  assumes "runtime_initial start" and "runtime_step\<^sup>*\<^sup>* start (s, ts, log)"
    and "\<forall>t \<in> set ts. th_todo t = []"
  shows "rt_requests_total s = of_nat (length (filter (\<lambda>k. k = Call_request_started) log)) \<and>
    rt_requests_active s = of_nat (length (filter (\<lambda>k. k = Call_request_started) log)) -
      of_nat (length (filter (\<lambda>k. \<exists>p g c. k = Call_request_finished p g c) log)) \<and>
    rt_requests_cancelled s = of_nat (length (filter (\<lambda>k. \<exists>p g. k = Call_request_finished p g True) log)) \<and>
    rt_prompt_tokens_total s = (\<Sum>k\<leftarrow>log. case k of Call_request_finished p g c \<Rightarrow> p | _ \<Rightarrow> 0) \<and>
    rt_generated_tokens_total s = (\<Sum>k\<leftarrow>log. case k of Call_request_finished p g c \<Rightarrow> g | _ \<Rightarrow> 0)"
proof -
  have "counters_inv (s, ts, log)" using counter_system.inv_reachable assms(1,2) by blast
  moreover have "(\<Sum>t\<leftarrow>ts. todo_delta c t) = 0" for c
    using assms(3) by (induction ts) (auto simp: todo_delta_def)
  ultimately have "counter_of c s = (\<Sum>k\<leftarrow>log. call_delta c k)" for c by (simp add: counters_inv_def)
  then show ?thesis by (metis call_delta_sums counter_of.simps)
qed

theorem request_counters_exact_witness:
  "\<exists>s t. runtime_step\<^sup>*\<^sup>* (runtime_init, [\<lparr>th_local = snapshot_init, th_todo = []\<rparr>], [])
      (s, [\<lparr>th_local = t, th_todo = []\<rparr>], [Call_request_started]) \<and>
    rt_requests_total s = 1 \<and> rt_requests_active s = 1 \<and> rt_requests_cancelled s = 0"
proof -
  let ?idle = "\<lparr>th_local = snapshot_init, th_todo = []\<rparr>"
  let ?start = "(runtime_init, [?idle], [])"
  let ?s1 = "add_counter Requests_total 1 runtime_init"
  let ?s2 = "add_counter Requests_active 1 ?s1"
  have "runtime_step ?start
      (runtime_init, [\<lparr>th_local = snapshot_init, th_todo = request_started\<rparr>], [Call_request_started])"
    using runtime_step.enter_call [of 0 "[?idle]" runtime_init "[]" Call_request_started] by simp
  moreover have "runtime_step
      (runtime_init, [\<lparr>th_local = snapshot_init, th_todo = request_started\<rparr>], [Call_request_started])
      (?s1, [\<lparr>th_local = snapshot_init, th_todo = [Fetch_add Requests_active 1]\<rparr>], [Call_request_started])"
    using runtime_step.run_action [of 0 "[\<lparr>th_local = snapshot_init, th_todo = request_started\<rparr>]"]
    by (simp add: request_started_def)
  moreover have "runtime_step
      (?s1, [\<lparr>th_local = snapshot_init, th_todo = [Fetch_add Requests_active 1]\<rparr>], [Call_request_started])
      (?s2, [?idle], [Call_request_started])"
    using runtime_step.run_action
      [of 0 "[\<lparr>th_local = snapshot_init, th_todo = [Fetch_add Requests_active 1]\<rparr>]"] by simp
  ultimately have run: "runtime_step\<^sup>*\<^sup>* ?start (?s2, [?idle], [Call_request_started])"
    by (meson converse_rtranclp_into_rtranclp rtranclp.rtrancl_refl)
  have "runtime_initial ?start" by (simp add: runtime_initial_def)
  then show ?thesis using run request_counters_exact [OF _ run] by (intro exI conjI) auto
qed

subsubsection \<open>Publication of the loaded model\<close>

text \<open>
  The server loads its model on one thread while others serve requests: thread 0 runs
  \<open>begin_loading\<close> and then \<open>mark_ready\<close>, every other call is a request or a snapshot.
\<close>

definition writes_model :: "action \<Rightarrow> bool" where
  "writes_model a = (case a of Store_state _ \<Rightarrow> True | Lock_loading _ \<Rightarrow> True | Lock_ready _ \<Rightarrow> True
     | Lock_failed _ \<Rightarrow> True | _ \<Rightarrow> False)"

definition loader_script :: "string \<Rightarrow> string \<Rightarrow> action list" where
  "loader_script path i = begin_loading path @ mark_ready i"

inductive server_step :: "RuntimeState \<times> thread list \<Rightarrow> RuntimeState \<times> thread list \<Rightarrow> bool" where
  server_action: "i < length ts \<Longrightarrow> th_todo (ts ! i) = a # rest \<Longrightarrow> perform a (s, th_local (ts ! i)) = (s', l') \<Longrightarrow>
    server_step (s, ts) (s', ts[i := \<lparr>th_local = l', th_todo = rest\<rparr>])"
| server_call: "i < length ts \<Longrightarrow> th_todo (ts ! i) = [] \<Longrightarrow> \<forall>a \<in> set (call_actions c). \<not> writes_model a \<Longrightarrow>
    server_step (s, ts) (s, ts[i := \<lparr>th_local = snapshot_init, th_todo = call_actions c\<rparr>])"

definition server_initial :: "string \<Rightarrow> string \<Rightarrow> RuntimeState \<times> thread list \<Rightarrow> bool" where
  "server_initial path i = (\<lambda>(s, ts). s = runtime_init \<and>
     (\<exists>others. ts = \<lparr>th_local = snapshot_init, th_todo = loader_script path i\<rparr> # others \<and>
        (\<forall>t \<in> set others. t = \<lparr>th_local = snapshot_init, th_todo = []\<rparr>)))"

definition published :: "string \<Rightarrow> string \<Rightarrow> RuntimeState \<Rightarrow> bool" where
  "published path i s \<longleftrightarrow> rt_model_state s = Ready \<and> rt_model_id s = i \<and> rt_model_path s = path \<and> rt_last_error s = []"

text \<open>What the shared state holds after the loader has run the first \<open>k\<close> of its actions.\<close>

definition loader_phase :: "string \<Rightarrow> string \<Rightarrow> nat \<Rightarrow> RuntimeState \<Rightarrow> bool" where
  "loader_phase path i k s \<longleftrightarrow> k \<le> 4 \<and> (1 \<le> k \<longrightarrow> rt_model_path s = path \<and> rt_last_error s = []) \<and>
     (3 \<le> k \<longrightarrow> rt_model_id s = i) \<and> (rt_model_state s = Ready \<longleftrightarrow> k = 4)"

definition thread_ok :: "string \<Rightarrow> string \<Rightarrow> RuntimeState \<Rightarrow> thread \<Rightarrow> bool" where
  "thread_ok path i s t \<longleftrightarrow>
     (\<forall>xs ys. th_todo t = xs @ Load_state # ys \<longrightarrow> Lock_read \<in> set ys) \<and>
     (sn_model_state (th_local t) = Ready \<longrightarrow> published path i s \<and>
       (Lock_read \<in> set (th_todo t) \<or>
        sn_model_id (th_local t) = i \<and> sn_model_path (th_local t) = path \<and> sn_last_error (th_local t) = []))"

definition loader_inv :: "string \<Rightarrow> string \<Rightarrow> RuntimeState \<times> thread list \<Rightarrow> bool" where
  "loader_inv path i = (\<lambda>(s, ts). ts \<noteq> [] \<and>
     (\<exists>k. loader_phase path i k s \<and> filter writes_model (th_todo (ts ! 0)) = drop k (loader_script path i)) \<and>
     (\<forall>n. 0 < n \<and> n < length ts \<longrightarrow> (\<forall>a \<in> set (th_todo (ts ! n)). \<not> writes_model a)) \<and>
     (\<forall>n < length ts. thread_ok path i s (ts ! n)))"

lemma loader_script_eq: "loader_script path i = [Lock_loading path, Store_state Loading, Lock_ready i, Store_state Ready]"
  by (simp add: loader_script_def call_action_defs)

lemma phase_published: "loader_phase path i k s \<Longrightarrow> published path i s \<longleftrightarrow> k = 4"
  by (auto simp: loader_phase_def published_def)

lemma silent_action_model:
  assumes "\<not> writes_model a" and "perform a (s, l) = (s', l')"
  shows "rt_model_state s' = rt_model_state s" "rt_model_id s' = rt_model_id s"
    "rt_model_path s' = rt_model_path s" "rt_last_error s' = rt_last_error s"
proof -
  have "rt_model_state (add_counter c n s) = rt_model_state s \<and> rt_model_id (add_counter c n s) = rt_model_id s \<and>
    rt_model_path (add_counter c n s) = rt_model_path s \<and> rt_last_error (add_counter c n s) = rt_last_error s" for c n
    by (cases c) auto
  then show "rt_model_state s' = rt_model_state s" "rt_model_id s' = rt_model_id s"
    "rt_model_path s' = rt_model_path s" "rt_last_error s' = rt_last_error s"
    using assms by (cases a; auto simp: writes_model_def)+
qed

lemma writing_action_local: "writes_model a \<Longrightarrow> perform a (s, l) = (s', l') \<Longrightarrow> l' = l"
  by (cases a) (auto simp: writes_model_def)

lemma loader_phase_step:
  assumes "loader_phase path i k s" and "a # rest = drop k (loader_script path i)" and "perform a (s, l) = (s', l')"
  shows "loader_phase path i (Suc k) s' \<and> rest = drop (Suc k) (loader_script path i) \<and> k < 4"
proof -
  have "k < 4" using assms(2) by (auto simp: loader_script_eq intro: ccontr)
  then consider "k = 0" | "k = 1" | "k = 2" | "k = 3" by linarith
  then show ?thesis
    by cases (use assms in \<open>auto simp: loader_script_eq loader_phase_def\<close>)
qed

lemma thread_ok_published:
  "thread_ok path i s t \<Longrightarrow> (published path i s \<Longrightarrow> published path i s') \<Longrightarrow> thread_ok path i s' t"
  by (auto simp: thread_ok_def)

lemma thread_ok_tail:
  "thread_ok path i s t \<Longrightarrow> th_todo t = a # rest \<Longrightarrow> rest = xs @ Load_state # ys \<Longrightarrow> Lock_read \<in> set ys"
  unfolding thread_ok_def by (metis append_Cons)

lemma thread_ok_action:
  assumes ok: "thread_ok path i s t" and todo: "th_todo t = a # rest"
    and run: "perform a (s, th_local t) = (s', l')" and silent: "\<not> writes_model a"
    and ready: "rt_model_state s = Ready \<Longrightarrow> published path i s"
  shows "thread_ok path i s' \<lparr>th_local = l', th_todo = rest\<rparr>"
proof -
  have same: "published path i s' = published path i s"
    using silent_action_model [OF silent run] by (simp add: published_def)
  have tail: "Lock_read \<in> set ys" if "rest = xs @ Load_state # ys" for xs ys
    using thread_ok_tail [OF ok todo that] .
  have head: "a = Load_state \<Longrightarrow> Lock_read \<in> set rest"
    using ok todo unfolding thread_ok_def by (metis append_Nil)
  have counter: "sn_model_state (read_counter c s x) = sn_model_state x \<and> sn_model_id (read_counter c s x) = sn_model_id x \<and>
    sn_model_path (read_counter c s x) = sn_model_path x \<and> sn_last_error (read_counter c s x) = sn_last_error x" for c x
    by (cases c) auto
  show ?thesis
  proof (cases a)
    case Load_state
    then have "sn_model_state l' = rt_model_state s" "Lock_read \<in> set rest" using run head by auto
    then show ?thesis using ready tail same by (simp add: thread_ok_def)
  next
    case Lock_read
    have "sn_model_state l' = Ready \<Longrightarrow> published path i s"
      using run ok Lock_read by (auto simp: thread_ok_def)
    then show ?thesis using run Lock_read tail same by (auto simp: thread_ok_def published_def)
  next
    case (Fetch_add c n)
    then have "l' = th_local t" "a \<noteq> Lock_read" using run by auto
    then show ?thesis using ok tail same by (simp add: thread_ok_def todo)
  next
    case (Load_counter c)
    then have "l' = read_counter c s (th_local t)" "a \<noteq> Lock_read" using run by auto
    then show ?thesis using ok tail same counter by (simp add: thread_ok_def todo)
  qed (use silent in \<open>auto simp: writes_model_def\<close>)
qed

lemma calls_well_formed:
  assumes "call_actions c = xs @ Load_state # ys"
  shows "Lock_read \<in> set ys"
proof (cases "c = Call_snapshot")
  case True
  have "last (call_actions Call_snapshot) = Lock_read" by (simp add: snapshot_def)
  then have "last (Load_state # ys) = Lock_read" unfolding assms [unfolded True] by simp
  then show ?thesis by (cases "ys = []") (simp, metis last_ConsR last_in_set)
next
  case False
  have "Load_state \<in> set (call_actions c)" using assms by simp
  with False show ?thesis by (cases c) (auto simp: call_action_defs split: if_splits)
qed

lemma loader_inv_silent:
  assumes inv: "loader_inv path i (s, ts)" and n: "n < length ts" and todo: "th_todo (ts ! n) = a # rest"
    and run: "perform a (s, th_local (ts ! n)) = (s', l')" and silent: "\<not> writes_model a"
  shows "loader_inv path i (s', ts[n := \<lparr>th_local = l', th_todo = rest\<rparr>])"
proof -
  from inv obtain k where k: "loader_phase path i k s"
      "filter writes_model (th_todo (ts ! 0)) = drop k (loader_script path i)"
    and others: "\<forall>n. 0 < n \<and> n < length ts \<longrightarrow> (\<forall>a \<in> set (th_todo (ts ! n)). \<not> writes_model a)"
    and ok: "\<forall>n < length ts. thread_ok path i s (ts ! n)"
    by (auto simp: loader_inv_def)
  note same = silent_action_model [OF silent run]
  have "rt_model_state s = Ready \<Longrightarrow> published path i s"
    using k(1) by (auto simp: loader_phase_def published_def)
  then have new: "thread_ok path i s' \<lparr>th_local = l', th_todo = rest\<rparr>"
    using thread_ok_action [OF _ todo run silent] ok n by blast
  have old: "thread_ok path i s' (ts ! m)" if "m < length ts" for m
    using thread_ok_published ok that same by (metis published_def)
  have "loader_phase path i k s'" using k(1) same by (simp add: loader_phase_def)
  moreover have "filter writes_model (th_todo (ts[n := \<lparr>th_local = l', th_todo = rest\<rparr>] ! 0)) =
      drop k (loader_script path i)"
    using k(2) todo silent n by (cases "n = 0") auto
  ultimately show ?thesis
    using inv others new old n todo by (auto simp: loader_inv_def nth_list_update)
qed

lemma loader_inv_write:
  assumes inv: "loader_inv path i (s, ts)" and n: "n < length ts" and todo: "th_todo (ts ! n) = a # rest"
    and run: "perform a (s, th_local (ts ! n)) = (s', l')" and wr: "writes_model a"
  shows "loader_inv path i (s', ts[n := \<lparr>th_local = l', th_todo = rest\<rparr>])"
proof -
  from inv obtain k where k: "loader_phase path i k s"
      "filter writes_model (th_todo (ts ! 0)) = drop k (loader_script path i)"
    and others: "\<forall>n. 0 < n \<and> n < length ts \<longrightarrow> (\<forall>a \<in> set (th_todo (ts ! n)). \<not> writes_model a)"
    and ok: "\<forall>n < length ts. thread_ok path i s (ts ! n)"
    by (auto simp: loader_inv_def)
  have n0: "n = 0" using others n todo wr by (metis gr0I list.set_intros(1))
  have step: "loader_phase path i (Suc k) s'" "filter writes_model rest = drop (Suc k) (loader_script path i)" "k < 4"
    using loader_phase_step [OF k(1) _ run] k(2) todo n0 wr by auto
  have "\<not> published path i s" using phase_published [OF k(1)] step(3) by simp
  then have idle: "thread_ok path i s' (ts ! m)" "sn_model_state (th_local (ts ! m)) \<noteq> Ready"
    if "m < length ts" for m
    using ok that by (auto simp: thread_ok_def)
  have "thread_ok path i s' \<lparr>th_local = l', th_todo = rest\<rparr>"
    using thread_ok_tail [OF idle(1) [OF n] todo] idle(2) [OF n] writing_action_local [OF wr run]
    by (simp add: thread_ok_def)
  then show ?thesis
    using inv others n0 step idle todo unfolding loader_inv_def
    by (auto simp: nth_list_update intro!: exI [of _ "Suc k"])
qed

lemma loader_inv_call:
  assumes inv: "loader_inv path i (s, ts)" and n: "n < length ts" and todo: "th_todo (ts ! n) = []"
    and silent: "\<forall>a \<in> set (call_actions c). \<not> writes_model a"
  shows "loader_inv path i (s, ts[n := \<lparr>th_local = snapshot_init, th_todo = call_actions c\<rparr>])"
proof -
  have "thread_ok path i s \<lparr>th_local = snapshot_init, th_todo = call_actions c\<rparr>"
    using calls_well_formed by (auto simp: thread_ok_def snapshot_init_def)
  moreover have "filter writes_model (call_actions c) = []" using silent by (simp add: filter_empty_conv)
  ultimately show ?thesis
    using inv n todo silent unfolding loader_inv_def by (auto simp: nth_list_update)
qed

interpretation loader_system: invariant_system "server_initial path i" server_step "loader_inv path i" for path i
proof
  fix x
  assume "server_initial path i x"
  then obtain others where x: "x = (runtime_init, \<lparr>th_local = snapshot_init, th_todo = loader_script path i\<rparr> # others)"
    and idle: "\<forall>t \<in> set others. t = \<lparr>th_local = snapshot_init, th_todo = []\<rparr>"
    by (auto simp: server_initial_def)
  have "loader_phase path i 0 runtime_init" by (simp add: loader_phase_def runtime_init_def)
  moreover have "filter writes_model (loader_script path i) = loader_script path i"
    by (simp add: loader_script_eq writes_model_def)
  moreover have "thread_ok path i s \<lparr>th_local = snapshot_init, th_todo = []\<rparr>"
    "thread_ok path i s \<lparr>th_local = snapshot_init, th_todo = loader_script path i\<rparr>" for s
    by (auto simp: thread_ok_def snapshot_init_def loader_script_eq Cons_eq_append_conv)
  moreover have "others ! n = \<lparr>th_local = snapshot_init, th_todo = []\<rparr>" if "n < length others" for n
    using idle that by simp
  ultimately show "loader_inv path i x"
    unfolding x loader_inv_def
    by (auto simp: nth_Cons split: nat.splits intro!: exI [of _ 0])
next
  fix x y
  assume "loader_inv path i x" "server_step x y"
  from this(2,1) show "loader_inv path i y"
    by (cases rule: server_step.cases) (metis loader_inv_silent loader_inv_write loader_inv_call)+
qed

text \<open>The scheduler that runs one thread: the next \<open>n\<close> actions of thread \<open>i\<close>.\<close>

fun run_thread :: "nat \<Rightarrow> nat \<Rightarrow> RuntimeState \<times> thread list \<Rightarrow> RuntimeState \<times> thread list" where
  "run_thread 0 i x = x"
| "run_thread (Suc n) i (s, ts) =
     (case th_todo (ts ! i) of
        [] \<Rightarrow> (s, ts)
      | a # rest \<Rightarrow>
          (case perform a (s, th_local (ts ! i)) of
             (s', l') \<Rightarrow> run_thread n i (s', ts[i := \<lparr>th_local = l', th_todo = rest\<rparr>])))"

lemma run_thread_steps: "i < length (snd x) \<Longrightarrow> server_step\<^sup>*\<^sup>* x (run_thread n i x)"
proof (induction n arbitrary: x)
  case (Suc n)
  obtain s ts where x: "x = (s, ts)" by fastforce
  show ?case
  proof (cases "th_todo (ts ! i)")
    case (Cons a rest)
    obtain s' l' where r: "perform a (s, th_local (ts ! i)) = (s', l')" by fastforce
    have "server_step x (s', ts[i := \<lparr>th_local = l', th_todo = rest\<rparr>])"
      using Suc.prems Cons r unfolding x by (intro server_step.server_action) auto
    moreover have "server_step\<^sup>*\<^sup>* (s', ts[i := \<lparr>th_local = l', th_todo = rest\<rparr>]) (run_thread (Suc n) i x)"
      using Suc Cons r x by simp
    ultimately show ?thesis by (rule converse_rtranclp_into_rtranclp)
  qed (simp add: x)
qed simp

text \<open>C26. A ready model is fully published: while one thread loads the model and any number of
  others serve requests and take snapshots, in every interleaving, a finished snapshot that
  says \<open>ready\<close> carries the identifier and path of the loaded model and no error, and the
  shared state is ready only once the loader has stored everything.\<close>

theorem ready_snapshot_is_published:
  assumes "server_initial path i start" and "server_step\<^sup>*\<^sup>* start (s, ts)"
    and "n < length ts" and "th_todo (ts ! n) = []" and "sn_model_state (th_local (ts ! n)) = Ready"
  shows "sn_model_id (th_local (ts ! n)) = i \<and> sn_model_path (th_local (ts ! n)) = path \<and>
    sn_last_error (th_local (ts ! n)) = [] \<and> is_ready s \<and> rt_model_id s = i"
proof -
  have "loader_inv path i (s, ts)" using loader_system.inv_reachable assms(1,2) by blast
  then have "thread_ok path i s (ts ! n)" using assms(3) by (simp add: loader_inv_def)
  then show ?thesis using assms(4,5) by (auto simp: thread_ok_def published_def is_ready_def)
qed

theorem ready_snapshot_is_published_witness:
  "\<exists>s ts. server_step\<^sup>*\<^sup>*
      (runtime_init, [\<lparr>th_local = snapshot_init, th_todo = loader_script ''/m'' ''qwen''\<rparr>,
        \<lparr>th_local = snapshot_init, th_todo = []\<rparr>]) (s, ts) \<and>
    sn_model_state (th_local (ts ! 1)) = Ready \<and> sn_model_id (th_local (ts ! 1)) = ''qwen''"
proof -
  let ?idle = "\<lparr>th_local = snapshot_init, th_todo = []\<rparr>"
  let ?start = "(runtime_init, [\<lparr>th_local = snapshot_init, th_todo = loader_script ''/m'' ''qwen''\<rparr>, ?idle])"
  let ?s = "runtime_init\<lparr>rt_model_path := ''/m'', rt_model_id := ''qwen'', rt_model_state := Ready\<rparr>"
  let ?mid = "(?s, [?idle, \<lparr>th_local = snapshot_init, th_todo = snapshot\<rparr>])"
  have "run_thread 4 0 ?start = (?s, [?idle, ?idle])"
    by (simp add: loader_script_eq eval_nat_numeral runtime_init_def)
  then have load: "server_step\<^sup>*\<^sup>* ?start (?s, [?idle, ?idle])"
    using run_thread_steps [of 0 ?start 4] by simp
  have "server_step (?s, [?idle, ?idle]) ?mid"
    using server_step.server_call [of 1 "[?idle, ?idle]" Call_snapshot ?s] by (simp add: snapshot_def writes_model_def)
  moreover obtain s ts where fin: "run_thread 7 1 ?mid = (s, ts)" by fastforce
  moreover have "server_step\<^sup>*\<^sup>* ?mid (s, ts)" using run_thread_steps [of 1 ?mid 7] fin by simp
  ultimately have reach: "server_step\<^sup>*\<^sup>* ?start (s, ts)" using load by (meson converse_rtranclp_into_rtranclp rtranclp_trans)
  have fin': "length ts = 2" "th_todo (ts ! 1) = []" "sn_model_state (th_local (ts ! 1)) = Ready"
    using fin by (auto simp: snapshot_def eval_nat_numeral)
  have "server_initial ''/m'' ''qwen'' ?start" by (simp add: server_initial_def)
  from ready_snapshot_is_published [OF this reach, of 1] show ?thesis using reach fin' by auto
qed

end
