(* ===== verification/Chat_Template.thy ===== *)
theory Chat_Template
  imports Prelude
begin

text \<open>
  \<^verbatim>\<open>chat_template.cpp\<close>: rendering of a conversation, its tools and its tool calls into the prompt
  text the model was trained on. Strings are byte strings; every \<open>throw\<close> is an \<open>Inl\<close>.
\<close>

datatype ChatRole = Role_system | Role_user | Role_assistant | Role_tool

record ChatToolArgument =
  ta_name :: string
  ta_rendered_value :: string

record ChatToolCall =
  tc_name :: string
  tc_arguments :: "ChatToolArgument list"

record ChatMessage =
  cm_role :: ChatRole
  cm_content :: string
  cm_reasoning_content :: "string option"
  cm_tool_calls :: "ChatToolCall list"

datatype ReasoningEffort = Effort_xhigh | Effort_medium | Effort_low

record ChatTemplateOptions =
  co_add_generation_prompt :: bool
  co_enable_thinking :: bool
  co_preserve_thinking :: bool
  co_reasoning_effort :: ReasoningEffort
  co_tools_json :: "string list"

definition xhigh_instruction :: string where
  "xhigh_instruction =
    ''Reasoning effort is set to xhigh. Please think carefully through the task, validate key '' @
    ''assumptions, consider plausible alternatives, and prioritize correctness, consistency, and '' @
    ''clarity in the final answer.''"

definition low_instruction :: string where
  "low_instruction =
    ''Reasoning effort is set to low. Keep your thinking brief and focused, moving directly to the '' @
    ''conclusion without unnecessary elaboration.''"

definition tool_instructions :: string where
  "tool_instructions = ''# Tools\<newline>\<newline>You have access to the following functions:\<newline>\<newline><tools>''"

definition tool_suffix :: string where
  "tool_suffix =
    ''\<newline></tools>\<newline>\<newline>If you choose to call a function ONLY reply in the following format with NO '' @
    ''suffix:\<newline>\<newline><tool_call>\<newline><function=example_function_name>\<newline>'' @
    ''<parameter=example_parameter_1>\<newline>value_1\<newline></parameter>\<newline>'' @
    ''<parameter=example_parameter_2>\<newline>This is the value for the second parameter\<newline>'' @
    ''that can span\<newline>multiple lines\<newline></parameter>\<newline></function>\<newline></tool_call>\<newline>\<newline>'' @
    ''<IMPORTANT>\<newline>Reminder:\<newline>- Function calls MUST follow the specified format: an inner '' @
    ''<function=...></function> block must be nested within <tool_call></tool_call> XML tags\<newline>'' @
    ''- Required parameters MUST be specified\<newline>- You may provide optional reasoning for your '' @
    ''function call in natural language BEFORE the function call, but NOT after\<newline>'' @
    ''- If there is no function call available, answer the question like normal with your current '' @
    ''knowledge and do not tell the user about function calls\<newline></IMPORTANT>''"

definition is_ascii_blank :: "char \<Rightarrow> bool" where
  "is_ascii_blank c \<longleftrightarrow> c = CHR '' '' \<or> c = CHR 0x09 \<or> c = CHR 0x0D \<or> c = CHR 0x0A"

definition trim_ascii :: "string \<Rightarrow> string" where
  "trim_ascii s = trim_both is_ascii_blank s"

definition reasoning_instruction :: "ChatTemplateOptions \<Rightarrow> string" where
  "reasoning_instruction options =
     (if \<not> co_enable_thinking options then []
      else case co_reasoning_effort options of
          Effort_xhigh \<Rightarrow> xhigh_instruction
        | Effort_medium \<Rightarrow> []
        | Effort_low \<Rightarrow> low_instruction)"

definition is_tool_response :: "ChatMessage \<Rightarrow> bool" where
  "is_tool_response message \<longleftrightarrow> cm_role message = Role_user \<and>
     (let content = trim_ascii (cm_content message)
      in prefix ''<tool_response>'' content \<and> suffix ''</tool_response>'' content)"

definition require_xml_name :: "string \<Rightarrow> string \<Rightarrow> unit result" where
  "require_xml_name v kind =
     (if v = [] \<or> (\<exists>c \<in> set v. is_xml_reserved c) then Inl (RuntimeError (''invalid '' @ kind @ '' name''))
      else Inr ())"

text \<open>One argument and one call of an assistant message, \<open>call_index\<close> counting from zero.\<close>

definition render_argument :: "ChatToolArgument \<Rightarrow> string result" where
  "render_argument argument =
     res_bind (require_xml_name (ta_name argument) ''tool parameter'') (\<lambda>_.
       Inr (''<parameter='' @ ta_name argument @ ''>\<newline>'' @ ta_rendered_value argument @ ''\<newline></parameter>\<newline>''))"

definition render_call :: "string \<Rightarrow> nat \<times> ChatToolCall \<Rightarrow> string result" where
  "render_call content indexed =
     (case indexed of (call_index, call) \<Rightarrow>
        res_bind (require_xml_name (tc_name call) ''tool'') (\<lambda>_.
        res_bind (res_map render_argument (tc_arguments call)) (\<lambda>arguments.
          Inr ((if call_index = 0 \<and> content \<noteq> [] then ''\<newline>\<newline>'' else if call_index \<noteq> 0 then ''\<newline>'' else []) @
            ''<tool_call>\<newline><function='' @ tc_name call @ ''>\<newline>'' @ concat arguments @
            ''</function>\<newline></tool_call>''))))"

definition render_tool_calls :: "string \<Rightarrow> ChatToolCall list \<Rightarrow> string result" where
  "render_tool_calls content calls =
     res_bind (res_map (render_call content) (zip [0..<length calls] calls)) (\<lambda>ts. Inr (concat ts))"

definition role_at :: "ChatMessage list \<Rightarrow> nat \<Rightarrow> ChatRole" where
  "role_at messages i = cm_role (messages ! i)"

text \<open>The body of the message loop.\<close>

definition render_message :: "ChatTemplateOptions \<Rightarrow> ChatMessage list \<Rightarrow> nat \<Rightarrow> nat \<Rightarrow> string result" where
  "render_message options messages last_query i =
     (let message = messages ! i; content = trim_ascii (cm_content message) in
      case cm_role message of
        Role_system \<Rightarrow> Inr []
      | Role_user \<Rightarrow> Inr (''<|im_start|>user\<newline>'' @ content @ ''<|im_end|>\<newline>'')
      | Role_assistant \<Rightarrow>
          let reasoning = (case cm_reasoning_content message of Some r \<Rightarrow> trim_ascii r | None \<Rightarrow> []);
              thinking = (if co_preserve_thinking options \<or> i > last_query
                then ''<think>\<newline>'' @ reasoning @ ''\<newline></think>\<newline>\<newline>'' else [])
          in res_bind (render_tool_calls content (cm_tool_calls message)) (\<lambda>calls.
               Inr (''<|im_start|>assistant\<newline>'' @ thinking @ content @ calls @ ''<|im_end|>\<newline>''))
      | Role_tool \<Rightarrow>
          Inr ((if i = 0 \<or> role_at messages (i - 1) \<noteq> Role_tool then ''<|im_start|>user'' else []) @
            ''\<newline><tool_response>\<newline>'' @ content @ ''\<newline></tool_response>'' @
            (if i + 1 = length messages \<or> role_at messages (i + 1) \<noteq> Role_tool then ''<|im_end|>\<newline>'' else [])))"

definition find_last_query :: "ChatMessage list \<Rightarrow> nat" where
  "find_last_query messages =
     (case filter (\<lambda>i. role_at messages i = Role_user \<and> \<not> is_tool_response (messages ! i))
         (rev [0..<length messages]) of
        [] \<Rightarrow> length messages
      | i # _ \<Rightarrow> i)"

definition render_header :: "ChatTemplateOptions \<Rightarrow> ChatMessage list \<Rightarrow> string" where
  "render_header options messages =
     (let instruction = reasoning_instruction options;
          has_system = (cm_role (hd messages) = Role_system);
          system_content = (if has_system then trim_ascii (cm_content (hd messages)) else [])
      in if co_tools_json options \<noteq> [] then
           ''<|im_start|>system\<newline>'' @ (if instruction \<noteq> [] then instruction @ ''\<newline>\<newline>'' else []) @
           tool_instructions @ concat (map (\<lambda>tool. ''\<newline>'' @ tool) (co_tools_json options)) @ tool_suffix @
           (if system_content \<noteq> [] then ''\<newline>\<newline>'' @ system_content else []) @ ''<|im_end|>\<newline>''
         else if has_system then
           (if system_content \<noteq> [] \<or> instruction \<noteq> [] then
              ''<|im_start|>system\<newline>'' @
              (if instruction \<noteq> [] then instruction @ (if system_content \<noteq> [] then ''\<newline>\<newline>'' else []) else []) @
              system_content @ ''<|im_end|>\<newline>''
            else [])
         else if instruction \<noteq> [] then ''<|im_start|>system\<newline>'' @ instruction @ ''<|im_end|>\<newline>''
         else [])"

definition generation_prompt :: "ChatTemplateOptions \<Rightarrow> string" where
  "generation_prompt options =
     (if co_add_generation_prompt options then
        ''<|im_start|>assistant\<newline>'' @
        (if co_enable_thinking options then ''<think>\<newline>'' else ''<think>\<newline>\<newline></think>\<newline>\<newline>'')
      else [])"

definition render_chat_prompt :: "ChatMessage list \<Rightarrow> ChatTemplateOptions \<Rightarrow> string result" where
  "render_chat_prompt messages options =
     (if messages = [] then Inl (RuntimeError ''no chat messages provided'')
      else if \<exists>i \<in> set [0..<length messages]. role_at messages i = Role_system \<and> i \<noteq> 0 then
        Inl (RuntimeError ''system message must be first'')
      else
        let last_query = find_last_query messages
        in if last_query = length messages then Inl (RuntimeError ''no user query found in messages'')
           else
             res_bind (res_map (render_message options messages last_query) [0..<length messages]) (\<lambda>turns.
               Inr (render_header options messages @ concat turns @ generation_prompt options)))"

definition parse_chat_role :: "string \<Rightarrow> ChatRole result" where
  "parse_chat_role role =
     (if role = ''system'' then Inr Role_system
      else if role = ''user'' then Inr Role_user
      else if role = ''assistant'' then Inr Role_assistant
      else if role = ''tool'' then Inr Role_tool
      else Inl (RuntimeError (''unsupported chat role: '' @ role)))"

subsection \<open>Turn structure\<close>

text \<open>
  The specification of the message loop: turns, a maximal run of consecutive tool messages
  being one user turn that holds all their responses.
\<close>

definition tool_block :: "ChatMessage \<Rightarrow> string" where
  "tool_block m = ''\<newline><tool_response>\<newline>'' @ trim_ascii (cm_content m) @ ''\<newline></tool_response>''"

definition assistant_turn :: "ChatTemplateOptions \<Rightarrow> bool \<Rightarrow> ChatMessage \<Rightarrow> string result" where
  "assistant_turn options recent m =
     res_bind (render_tool_calls (trim_ascii (cm_content m)) (cm_tool_calls m)) (\<lambda>calls.
       Inr (''<|im_start|>assistant\<newline>'' @
         (if co_preserve_thinking options \<or> recent
          then ''<think>\<newline>'' @ (case cm_reasoning_content m of Some r \<Rightarrow> trim_ascii r | None \<Rightarrow> []) @ ''\<newline></think>\<newline>\<newline>''
          else []) @ trim_ascii (cm_content m) @ calls @ ''<|im_end|>\<newline>''))"

function turns :: "ChatTemplateOptions \<Rightarrow> nat \<Rightarrow> nat \<Rightarrow> ChatMessage list \<Rightarrow> string result" where
  "turns options last_query i [] = Inr []"
| "turns options last_query i (m # ms) =
     (if cm_role m = Role_tool then
        let run = m # takeWhile (\<lambda>x. cm_role x = Role_tool) ms;
            rest = dropWhile (\<lambda>x. cm_role x = Role_tool) ms
        in res_bind (turns options last_query (i + length run) rest) (\<lambda>later.
             Inr (''<|im_start|>user'' @ concat (map tool_block run) @ ''<|im_end|>\<newline>'' @ later))
      else
        res_bind
          (case cm_role m of
             Role_user \<Rightarrow> Inr (''<|im_start|>user\<newline>'' @ trim_ascii (cm_content m) @ ''<|im_end|>\<newline>'')
           | Role_assistant \<Rightarrow> assistant_turn options (i > last_query) m
           | _ \<Rightarrow> Inr [])
          (\<lambda>turn. res_bind (turns options last_query (Suc i) ms) (\<lambda>later. Inr (turn @ later))))"
  by pat_completeness auto
termination
  by (relation "measure (\<lambda>(options, last_query, i, ms). length ms)") (auto simp: less_Suc_eq_le length_dropWhile_le)

lemma concat_with_end:
  "a < m \<Longrightarrow> concat (map (\<lambda>i. b i @ (if Suc i = m then E else [])) [a..<m]) = concat (map b [a..<m]) @ E"
proof (induction "m - a" arbitrary: a)
  case (Suc d)
  show ?case
  proof (cases "Suc a = m")
    case True
    then show ?thesis by (simp add: upt_conv_Cons)
  next
    case False
    then have "d = m - Suc a" "Suc a < m" using Suc.hyps(2) Suc.prems by auto
    from Suc.hyps(1) [OF this] show ?thesis
      unfolding upt_conv_Cons [OF Suc.prems] list.map concat.simps using False by simp
  qed
qed simp

lemma concat_with_ends:
  assumes "a < m"
  shows "concat (map (\<lambda>i. (if i = a then S else []) @ b i @ (if Suc i = m then E else [])) [a..<m]) =
    S @ concat (map b [a..<m]) @ E"
proof -
  have rest: "map (\<lambda>i. (if i = a then S else []) @ b i @ (if Suc i = m then E else [])) [Suc a..<m] =
      map (\<lambda>i. b i @ (if Suc i = m then E else [])) [Suc a..<m]" by simp
  have "concat (map (\<lambda>i. (if i = a then S else []) @ b i @ (if Suc i = m then E else [])) [a..<m]) =
      S @ concat (map (\<lambda>i. b i @ (if Suc i = m then E else [])) [a..<m])"
    unfolding upt_conv_Cons [OF assms] list.map concat.simps rest by simp
  then show ?thesis using concat_with_end [OF assms, of b E] by simp
qed

text \<open>The length of the run of tool messages that starts at a position.\<close>

lemma tool_run:
  assumes "k < length ms"
  defines "r \<equiv> length (takeWhile (\<lambda>x. cm_role x = Role_tool) (drop k ms))"
  shows "k + r \<le> length ms" "\<And>i. k \<le> i \<Longrightarrow> i < k + r \<Longrightarrow> cm_role (ms ! i) = Role_tool"
    "k + r < length ms \<Longrightarrow> cm_role (ms ! (k + r)) \<noteq> Role_tool"
    "map ((!) ms) [k..<k + r] = takeWhile (\<lambda>x. cm_role x = Role_tool) (drop k ms)"
    "drop (k + r) ms = dropWhile (\<lambda>x. cm_role x = Role_tool) (drop k ms)"
proof -
  let ?P = "\<lambda>x. cm_role x = Role_tool"
  have le: "r \<le> length (drop k ms)" unfolding r_def by (rule length_takeWhile_le)
  then show "k + r \<le> length ms" using assms(1) by simp
  show "cm_role (ms ! i) = Role_tool" if "k \<le> i" "i < k + r" for i
  proof -
    have "drop k ms ! (i - k) \<in> set (takeWhile ?P (drop k ms))"
      using that takeWhile_nth [of "i - k" ?P "drop k ms"] unfolding r_def by (metis add_diff_inverse_nat nat_add_left_cancel_less not_le nth_mem)
    then show ?thesis using that assms(1) by (auto dest: set_takeWhileD)
  qed
  show "cm_role (ms ! (k + r)) \<noteq> Role_tool" if "k + r < length ms"
    using nth_length_takeWhile [of ?P "drop k ms"] that assms(1) unfolding r_def by simp
  show "map ((!) ms) [k..<k + r] = takeWhile ?P (drop k ms)"
  proof (rule nth_equalityI)
    show "length (map ((!) ms) [k..<k + r]) = length (takeWhile ?P (drop k ms))" by (simp add: r_def)
    fix i
    assume "i < length (map ((!) ms) [k..<k + r])"
    then show "map ((!) ms) [k..<k + r] ! i = takeWhile ?P (drop k ms) ! i"
      using assms(1) by (simp add: r_def takeWhile_nth)
  qed
  show "drop (k + r) ms = dropWhile ?P (drop k ms)"
    unfolding r_def dropWhile_eq_drop by (simp add: add.commute)
qed

lemma render_tool_run:
  assumes "k < length ms" and "k = 0 \<or> role_at ms (k - 1) \<noteq> Role_tool"
    and r: "r = length (takeWhile (\<lambda>x. cm_role x = Role_tool) (drop k ms))" and "0 < r"
  shows "\<exists>ts. res_map (render_message options ms lq) [k..<k + r] = Inr ts \<and>
    concat ts = ''<|im_start|>user'' @ concat (map tool_block (map ((!) ms) [k..<k + r])) @ ''<|im_end|>\<newline>''"
proof -
  note run = tool_run [OF assms(1), folded r]
  let ?t = "\<lambda>i. (if i = k then ''<|im_start|>user'' else []) @ tool_block (ms ! i) @
      (if Suc i = k + r then ''<|im_end|>\<newline>'' else [])"
  have "render_message options ms lq i = Inr (?t i)" if i: "i \<in> set [k..<k + r]" for i
  proof -
    have "cm_role (ms ! i) = Role_tool" using run(2) i by simp
    moreover have "(i = 0 \<or> role_at ms (i - 1) \<noteq> Role_tool) \<longleftrightarrow> i = k"
    proof (cases "i = k")
      case False
      then have "k \<le> i - 1" "i - 1 < k + r" using i by auto
      then have "cm_role (ms ! (i - 1)) = Role_tool" by (rule run(2))
      then show ?thesis using False i by (simp add: role_at_def)
    qed (use assms(2) in auto)
    moreover have "(i + 1 = length ms \<or> role_at ms (i + 1) \<noteq> Role_tool) \<longleftrightarrow> Suc i = k + r"
    proof (cases "Suc i = k + r")
      case False
      then have "k \<le> Suc i" "Suc i < k + r" using i by auto
      then have "cm_role (ms ! Suc i) = Role_tool" by (rule run(2))
      then show ?thesis using False run(1) i by (simp add: role_at_def)
    next
      case True
      then show ?thesis using run(1,3) by (auto simp: role_at_def)
    qed
    ultimately show ?thesis by (simp add: render_message_def tool_block_def)
  qed
  then have "res_map (render_message options ms lq) [k..<k + r] = Inr (map ?t [k..<k + r])"
    by (rule res_map_all_Inr)
  moreover have "concat (map ?t [k..<k + r]) =
      ''<|im_start|>user'' @ concat (map (\<lambda>i. tool_block (ms ! i)) [k..<k + r]) @ ''<|im_end|>\<newline>''"
    by (rule concat_with_ends) (use assms(4) in simp)
  ultimately show ?thesis by (simp add: comp_def)
qed

lemma render_loop_turns:
  assumes "k \<le> length ms" and "k = 0 \<or> role_at ms (k - 1) \<noteq> Role_tool \<or> k = length ms \<or> role_at ms k \<noteq> Role_tool"
  shows "res_bind (res_map (render_message options ms lq) [k..<length ms]) (\<lambda>ts. Inr (concat ts)) =
    turns options lq k (drop k ms)"
  using assms
proof (induction "length ms - k" arbitrary: k rule: less_induct)
  case less
  show ?case
  proof (cases "k = length ms")
    case True
    then show ?thesis by simp
  next
    case False
    then have k: "k < length ms" using less.prems by simp
    have d: "drop k ms = ms ! k # drop (Suc k) ms" using k by (simp add: Cons_nth_drop_Suc)
    show ?thesis
    proof (cases "cm_role (ms ! k) = Role_tool")
      case True
      define r where "r = length (takeWhile (\<lambda>x. cm_role x = Role_tool) (drop k ms))"
      note run = tool_run [OF k, folded r_def]
      have r0: "0 < r" using True d by (simp add: r_def)
      have boundary: "k = 0 \<or> role_at ms (k - 1) \<noteq> Role_tool" using less.prems(2) True k by (auto simp: role_at_def)
      obtain ts where ts: "res_map (render_message options ms lq) [k..<k + r] = Inr ts"
        "concat ts = ''<|im_start|>user'' @ concat (map tool_block (map ((!) ms) [k..<k + r])) @ ''<|im_end|>\<newline>''"
        using render_tool_run [OF k boundary r_def r0] by blast
      have "res_bind (res_map (render_message options ms lq) [k + r..<length ms]) (\<lambda>ts. Inr (concat ts)) =
          turns options lq (k + r) (drop (k + r) ms)"
      proof (rule less.hyps)
        show "length ms - (k + r) < length ms - k" "k + r \<le> length ms" using run(1) r0 k by auto
        show "k + r = 0 \<or> role_at ms (k + r - 1) \<noteq> Role_tool \<or> k + r = length ms \<or> role_at ms (k + r) \<noteq> Role_tool"
          using run(1,3) by (auto simp: role_at_def)
      qed
      moreover have "[k..<length ms] = [k..<k + r] @ [k + r..<length ms]"
        using run(1) by (metis le_add1 upt_add_eq_append le_Suc_ex)
      ultimately have lhs: "res_bind (res_map (render_message options ms lq) [k..<length ms]) (\<lambda>ts. Inr (concat ts)) =
          res_bind (turns options lq (k + r) (drop (k + r) ms)) (\<lambda>later. Inr (concat ts @ later))"
        using ts(1) by (simp only: res_map_append res_bind.simps res_bind_assoc concat_append flip: res_bind_assoc)
          (simp add: res_bind_assoc flip: \<open>_ = turns options lq (k + r) (drop (k + r) ms)\<close>)
      have tw: "takeWhile (\<lambda>x. cm_role x = Role_tool) (drop k ms) =
          ms ! k # takeWhile (\<lambda>x. cm_role x = Role_tool) (drop (Suc k) ms)"
        and dw: "dropWhile (\<lambda>x. cm_role x = Role_tool) (drop k ms) = dropWhile (\<lambda>x. cm_role x = Role_tool) (drop (Suc k) ms)"
        using True d by auto
      have len: "length (ms ! k # takeWhile (\<lambda>x. cm_role x = Role_tool) (drop (Suc k) ms)) = r"
        unfolding r_def tw ..
      have "turns options lq k (drop k ms) =
          res_bind (turns options lq (k + r) (drop (k + r) ms)) (\<lambda>later. Inr (concat ts @ later))"
        unfolding ts(2) run(4,5) tw dw d
        by (simp only: turns.simps takeWhile.simps dropWhile.simps True if_True Let_def len append_assoc simp_thms)
      then show ?thesis using lhs by simp
    next
      case False
      have later: "res_bind (res_map (render_message options ms lq) [Suc k..<length ms]) (\<lambda>ts. Inr (concat ts)) =
          turns options lq (Suc k) (drop (Suc k) ms)"
        using less.hyps [of "Suc k"] k False by (simp add: role_at_def)
      have "render_message options ms lq k =
          (case cm_role (ms ! k) of
             Role_user \<Rightarrow> Inr (''<|im_start|>user\<newline>'' @ trim_ascii (cm_content (ms ! k)) @ ''<|im_end|>\<newline>'')
           | Role_assistant \<Rightarrow> assistant_turn options (k > lq) (ms ! k)
           | _ \<Rightarrow> Inr [])"
        using False by (cases "cm_role (ms ! k)") (simp_all add: render_message_def assistant_turn_def Let_def)
      then show ?thesis using False k
        unfolding d upt_conv_Cons [OF k]
        by (simp only: res_map.simps turns.simps if_False res_bind_assoc res_bind.simps concat.simps flip: later)
    qed
  qed
qed

text \<open>C29. Rendering is a concatenation of complete turns: for a conversation that starts with at
  most one system message and has a user query, the prompt is the system header, one closed
  turn per message with a maximal run of tool results sharing one user turn, and the generation
  prompt; it throws exactly when rendering a turn throws. Everything else is rejected.\<close>

theorem render_chat_prompt_turns:
  "render_chat_prompt messages options =
     (if messages = [] then Inl (RuntimeError ''no chat messages provided'')
      else if \<exists>m \<in> set (tl messages). cm_role m = Role_system then
        Inl (RuntimeError ''system message must be first'')
      else if \<not> (\<exists>m \<in> set messages. cm_role m = Role_user \<and> \<not> is_tool_response m) then
        Inl (RuntimeError ''no user query found in messages'')
      else res_bind (turns options (find_last_query messages) 0 messages) (\<lambda>body.
        Inr (render_header options messages @ body @ generation_prompt options)))"
proof (cases messages)
  case (Cons m ms)
  have system: "(\<exists>i \<in> set [0..<length messages]. role_at messages i = Role_system \<and> i \<noteq> 0) \<longleftrightarrow>
      (\<exists>m \<in> set (tl messages). cm_role m = Role_system)"
  proof
    assume "\<exists>i \<in> set [0..<length messages]. role_at messages i = Role_system \<and> i \<noteq> 0"
    then obtain j where "j < length ms" "cm_role (ms ! j) = Role_system"
      using Cons by (auto simp: role_at_def gr0_conv_Suc simp del: upt_Suc)
    then show "\<exists>m \<in> set (tl messages). cm_role m = Role_system" using Cons nth_mem by force
  next
    assume "\<exists>m \<in> set (tl messages). cm_role m = Role_system"
    then obtain j where "j < length ms" "cm_role (ms ! j) = Role_system" using Cons by (auto simp: in_set_conv_nth)
    then show "\<exists>i \<in> set [0..<length messages]. role_at messages i = Role_system \<and> i \<noteq> 0"
      using Cons by (intro bexI [of _ "Suc j"]) (auto simp: role_at_def)
  qed
  let ?q = "\<lambda>i. role_at messages i = Role_user \<and> \<not> is_tool_response (messages ! i)"
  have query: "find_last_query messages = length messages \<longleftrightarrow>
      \<not> (\<exists>m \<in> set messages. cm_role m = Role_user \<and> \<not> is_tool_response m)"
  proof (cases "filter ?q (rev [0..<length messages])")
    case Nil
    then have "\<forall>i < length messages. \<not> ?q i" by (auto simp: filter_empty_conv)
    then show ?thesis using Nil by (auto simp: find_last_query_def role_at_def in_set_conv_nth)
  next
    case (Cons i rest)
    then have "i \<in> set (filter ?q (rev [0..<length messages]))" by simp
    then have "i < length messages" "?q i" by auto
    then show ?thesis using Cons by (auto simp: find_last_query_def role_at_def)
  qed
  have loop: "res_bind (res_map (render_message options messages lq) [0..<length messages]) (\<lambda>ts.
      Inr (h @ concat ts @ g)) = res_bind (turns options lq 0 messages) (\<lambda>body. Inr (h @ body @ g))" for lq h g
    using render_loop_turns [of 0 messages options lq, symmetric] by (simp add: res_bind_assoc)
  show ?thesis
    unfolding render_chat_prompt_def Let_def system query loop ..
qed (simp add: render_chat_prompt_def)

end
