(* ===== verification/Tool_Call.thy ===== *)
theory Tool_Call
  imports Json Chat_Template
begin

text \<open>
  \<^verbatim>\<open>tool_call.cpp\<close>: recovery of tool calls from generated text. The cursor is the input that is
  left. A \<open>nullopt\<close> is \<open>None\<close>; the only exception that can leave the parser is one of \<open>dump\<close>.
\<close>

definition call_open :: string where "call_open = ''<tool_call>''"
definition call_close :: string where "call_close = ''</tool_call>''"
definition function_open :: string where "function_open = ''<function=''"
definition function_close :: string where "function_close = ''</function>''"
definition parameter_open :: string where "parameter_open = ''<parameter=''"
definition parameter_close :: string where "parameter_close = ''</parameter>''"

lemmas tag_defs = call_open_def call_close_def function_open_def function_close_def
  parameter_open_def parameter_close_def

record ParsedToolCall =
  pc_name :: string
  pc_arguments_json :: string

record ParsedToolOutput =
  po_content :: string
  po_calls :: "ParsedToolCall list"

definition skip_blank :: "string \<Rightarrow> string" where
  "skip_blank s = dropWhile is_space_char s"

definition trim_blank :: "string \<Rightarrow> string" where
  "trim_blank s = trim_both is_space_char s"

definition consume_tag :: "string \<Rightarrow> string \<Rightarrow> string option" where
  "consume_tag tag s = (if take (length tag) s = tag then Some (drop (length tag) s) else None)"

definition tagged_name :: "string \<Rightarrow> string \<Rightarrow> (string \<times> string) option" where
  "tagged_name opening s =
     (case consume_tag opening s of
        None \<Rightarrow> None
      | Some r \<Rightarrow>
          (case find_split ''>'' r of
             None \<Rightarrow> None
           | Some (name, after) \<Rightarrow>
               if name = [] \<or> (\<exists>c \<in> set name. is_xml_reserved c) then None else Some (name, after)))"

text \<open>One schema: \<open>None\<close> when the loop goes on to the next schema, by \<open>continue\<close> or by a caught exception.\<close>

definition schema_verdict :: "'d double_conversion \<Rightarrow> string \<Rightarrow> string \<Rightarrow> string \<Rightarrow> bool option" where
  "schema_verdict D source tool_name parameter_name =
     (case parse_document D source of
        Inl _ \<Rightarrow> None
      | Inr schema \<Rightarrow>
          let function = (case json_find ''function'' schema of None \<Rightarrow> schema | Some f \<Rightarrow> f)
          in (case res_bind (json_at ''name'' function) as_string of
                Inl _ \<Rightarrow> None
              | Inr name \<Rightarrow>
                  if name \<noteq> tool_name then None
                  else
                    let properties = Option.bind (json_find ''parameters'' function) (json_find ''properties'');
                        property = Option.bind properties (json_find parameter_name)
                    in (case Option.bind property (json_find ''type'') of
                          None \<Rightarrow> Some False
                        | Some (JString t) \<Rightarrow> Some (t = ''string'')
                        | Some (JArray candidates) \<Rightarrow>
                            Some (\<exists>c \<in> set candidates. case c of JString t \<Rightarrow> t = ''string'' | _ \<Rightarrow> False)
                        | Some _ \<Rightarrow> Some False)))"

fun schema_requires_string :: "'d double_conversion \<Rightarrow> string list \<Rightarrow> string \<Rightarrow> string \<Rightarrow> bool" where
  "schema_requires_string D [] tool_name parameter_name = False"
| "schema_requires_string D (source # schemas) tool_name parameter_name =
     (case schema_verdict D source tool_name parameter_name of
        Some b \<Rightarrow> b
      | None \<Rightarrow> schema_requires_string D schemas tool_name parameter_name)"

definition inferred_argument :: "'d double_conversion \<Rightarrow> string \<Rightarrow> bool \<Rightarrow> 'd Json" where
  "inferred_argument D v force_string =
     (if force_string then JString v
      else case parse_document D v of Inr j \<Rightarrow> j | Inl _ \<Rightarrow> JString v)"

definition skip_char :: "char \<Rightarrow> string \<Rightarrow> string" where
  "skip_char c s = (case s of d # r \<Rightarrow> if d = c then r else s | [] \<Rightarrow> [])"

lemma consume_tag_iff [simp]: "consume_tag tag s = Some r \<longleftrightarrow> s = tag @ r"
  by (auto simp: consume_tag_def) (metis append_take_drop_id)

lemma consume_tag_append [simp]: "consume_tag tag (tag @ r) = Some r"
  by simp

lemma tagged_name_length: "tagged_name opening s = Some (name, r) \<Longrightarrow> length r < length s"
  by (auto simp: tagged_name_def split: option.splits if_splits dest!: find_split_shorter)

lemma skip_char_length: "length (skip_char c s) \<le> length s"
  by (auto simp: skip_char_def split: list.splits)

lemma skip_blank_length: "length (skip_blank s) \<le> length s"
  by (simp add: skip_blank_def length_dropWhile_le)

text \<open>The parameter loop of \<open>parse_call\<close>, after the function's name.\<close>

function parse_parameters ::
    "'d double_conversion \<Rightarrow> string list \<Rightarrow> string \<Rightarrow> (string \<times> 'd Json) list \<Rightarrow> string \<Rightarrow>
     ((string \<times> 'd Json) list \<times> string) option" where
  "parse_parameters D schemas name arguments s =
     (case consume_tag function_close (skip_blank s) of
        Some r \<Rightarrow> Some (arguments, r)
      | None \<Rightarrow>
          (case tagged_name parameter_open (skip_blank s) of
             None \<Rightarrow> None
           | Some (parameter, s1) \<Rightarrow>
               (case find_split parameter_close (skip_char (CHR 0x0A) (skip_char (CHR 0x0D) s1)) of
                  None \<Rightarrow> None
                | Some (v, s2) \<Rightarrow>
                    if map_of arguments parameter \<noteq> None then None
                    else parse_parameters D schemas name
                      (arguments @ [(parameter, inferred_argument D (trim_blank v)
                         (schema_requires_string D schemas name parameter))]) s2)))"
  by pat_completeness auto
termination
proof (relation "measure (\<lambda>(D, schemas, name, arguments, s). length s)", goal_cases)
  case (2 D schemas name arguments s x parameter s1 y v s2)
  then show ?case
    using tagged_name_length [of parameter_open "skip_blank s" parameter s1] skip_blank_length [of s]
      find_split_shorter [of parameter_close _ v s2] skip_char_length [of "CHR 0x0A" "skip_char (CHR 0x0D) s1"]
      skip_char_length [of "CHR 0x0D" s1]
    by fastforce
qed simp

declare parse_parameters.simps [simp del]

definition parse_call ::
    "'d double_conversion \<Rightarrow> string list \<Rightarrow> string \<Rightarrow> (ParsedToolCall \<times> string) option result" where
  "parse_call D schemas s =
     (case consume_tag call_open s of
        None \<Rightarrow> Inr None
      | Some s1 \<Rightarrow>
          (case tagged_name function_open (skip_blank s1) of
             None \<Rightarrow> Inr None
           | Some (name, s2) \<Rightarrow>
               (case parse_parameters D schemas name [] s2 of
                  None \<Rightarrow> Inr None
                | Some (arguments, s3) \<Rightarrow>
                    (case consume_tag call_close (skip_blank s3) of
                       None \<Rightarrow> Inr None
                     | Some s4 \<Rightarrow>
                         res_bind (dump D (JObject arguments)) (\<lambda>json.
                           Inr (Some (\<lparr>pc_name = name, pc_arguments_json = json\<rparr>, s4)))))))"

lemma parse_parameters_length:
  "parse_parameters D schemas name arguments s = Some (args, r) \<Longrightarrow> length r \<le> length s"
proof (induction D schemas name arguments s rule: parse_parameters.induct)
  case (1 D schemas name arguments s)
  show ?case
  proof (cases "consume_tag function_close (skip_blank s)")
    case (Some x)
    then show ?thesis using 1(2) skip_blank_length [of s] by (simp add: parse_parameters.simps [of _ _ _ _ s])
  next
    case None
    with 1(2) obtain parameter s1 v s2 where n: "tagged_name parameter_open (skip_blank s) = Some (parameter, s1)"
      and f: "find_split parameter_close (skip_char (CHR 0x0A) (skip_char (CHR 0x0D) s1)) = Some (v, s2)"
      and m: "map_of arguments parameter = None"
      and rec: "parse_parameters D schemas name (arguments @ [(parameter, inferred_argument D (trim_blank v)
            (schema_requires_string D schemas name parameter))]) s2 = Some (args, r)"
      by (auto simp: parse_parameters.simps [of _ _ _ _ s] split: option.splits if_splits)
    have "length r \<le> length s2" using 1(1) [OF None n refl f refl _ rec] m by simp
    then show ?thesis
      using tagged_name_length [OF n] skip_blank_length [of s] find_split_shorter [OF f]
        skip_char_length [of "CHR 0x0A" "skip_char (CHR 0x0D) s1"] skip_char_length [of "CHR 0x0D" s1] by linarith
  qed
qed

lemma parse_call_length: "parse_call D schemas s = Inr (Some (call, r)) \<Longrightarrow> length r < length s"
proof -
  assume "parse_call D schemas s = Inr (Some (call, r))"
  then obtain s1 name s2 args s3 where "s = call_open @ s1" "tagged_name function_open (skip_blank s1) = Some (name, s2)"
    "parse_parameters D schemas name [] s2 = Some (args, s3)" "skip_blank s3 = call_close @ r"
    by (auto simp: parse_call_def split: option.splits)
  then show "length r < length s"
    using skip_blank_length [of s1] skip_blank_length [of s3] tagged_name_length parse_parameters_length by fastforce
qed

text \<open>The loop over calls: \<open>None\<close> when a wrapper is malformed.\<close>

function parse_calls ::
    "'d double_conversion \<Rightarrow> string list \<Rightarrow> ParsedToolCall list \<Rightarrow> string \<Rightarrow> ParsedToolCall list option result" where
  "parse_calls D schemas calls s =
     (if skip_blank s = [] then Inr (Some calls)
      else
        case parse_call D schemas (skip_blank s) of
          Inl e \<Rightarrow> Inl e
        | Inr None \<Rightarrow> Inr None
        | Inr (Some (call, r)) \<Rightarrow> parse_calls D schemas (calls @ [call]) r)"
  by pat_completeness auto
termination
proof (relation "measure (\<lambda>(D, schemas, calls, s). length s)", goal_cases)
  case (2 D schemas calls s x y call r)
  then show ?case using parse_call_length [of D schemas "skip_blank s" call r] skip_blank_length [of s] by simp
qed simp

declare parse_calls.simps [simp del]

definition parse_qwen_tool_output :: "'d double_conversion \<Rightarrow> string \<Rightarrow> string list \<Rightarrow> ParsedToolOutput result" where
  "parse_qwen_tool_output D text schemas =
     (let visible = \<lparr>po_content = trim_blank text, po_calls = []\<rparr> in
      case find_split call_open text of
        None \<Rightarrow> Inr visible
      | Some (before, after) \<Rightarrow>
          (case parse_calls D schemas [] (call_open @ after) of
             Inl e \<Rightarrow> Inl e
           | Inr None \<Rightarrow> Inr visible
           | Inr (Some calls) \<Rightarrow>
               if calls = [] then Inr visible else Inr \<lparr>po_content = trim_blank before, po_calls = calls\<rparr>))"

subsection \<open>Rendered calls parse back\<close>

lemma find_split_first:
  assumes "\<And>i. i < length u \<Longrightarrow> \<not> prefix pat (drop i (u @ pat @ r))" and "pat \<noteq> []"
  shows "find_split pat (u @ pat @ r) = Some (u, r)"
  using assms(1)
proof (induction u)
  case Nil
  obtain c p where "pat = c # p" using assms(2) by (cases pat) auto
  then show ?case by simp
next
  case (Cons c u)
  have "find_split pat (u @ pat @ r) = Some (u, r)" using Cons.IH Cons.prems [of "Suc _"] by simp
  then show ?case using Cons.prems [of 0] by simp
qed

text \<open>A separator that shares no character with the pattern keeps occurrences apart.\<close>

lemma find_split_separated:
  assumes "\<not> sublist pat v" and "set w \<inter> set pat = {}" and "pat \<noteq> []" and "w \<noteq> [] \<or> v = []"
  shows "find_split pat (v @ w @ pat @ r) = Some (v @ w, r)"
proof -
  have "\<not> prefix pat (drop i ((v @ w) @ pat @ r))" if i: "i < length (v @ w)" for i
  proof
    assume p: "prefix pat (drop i ((v @ w) @ pat @ r))"
    then obtain z where z: "drop i ((v @ w) @ pat @ r) = pat @ z" by (auto simp: prefix_def)
    show False
    proof (cases "i + length pat \<le> length v")
      case True
      then have "pat = take (length pat) (drop i v)"
        using arg_cong [OF z, of "take (length pat)"] by simp
      then show False using assms(1) by (metis sublist_drop sublist_order.order_trans sublist_take)
    next
      case False
      let ?k = "if i < length v then length v - i else 0"
      have k: "?k < length pat" "length v \<le> i + ?k" "i + ?k < length (v @ w)"
        using False i assms(3,4) by (auto split: if_splits)
      have "pat ! ?k = ((v @ w) @ pat @ r) ! (i + ?k)"
        using arg_cong [OF z, of "\<lambda>x. x ! ?k"] k(1) i by (simp add: nth_append split: if_splits)
      then have "pat ! ?k \<in> set w" using k(2,3) by (auto simp: nth_append split: if_splits)
      then show False using assms(2) k(1) nth_mem by blast
    qed
  qed
  from find_split_first [OF this assms(3)] show ?thesis by simp
qed

lemma trim_both_snoc: "blank c \<Longrightarrow> trim_both blank (v @ [c]) = trim_both blank v"
  by (cases "\<forall>x \<in> set v. blank x") (auto simp: trim_both_def dropWhile_append1 dropWhile_append2 dest: set_dropWhileD)

lemma tagged_name_rendered:
  assumes "require_xml_name name kind = Inr ()"
  shows "tagged_name opening (opening @ name @ CHR ''>'' # r) = Some (name, r)"
proof -
  have ok: "name \<noteq> []" "\<forall>c \<in> set name. \<not> is_xml_reserved c"
    using assms by (auto simp: require_xml_name_def split: if_splits)
  then have "CHR ''>'' \<notin> set name" by (auto simp: is_xml_reserved_def)
  then have "find_split ''>'' (name @ CHR ''>'' # r) = Some (name, r)" by (induction name) auto
  then show ?thesis using ok by (auto simp: tagged_name_def)
qed

definition parsed_arguments :: "'d double_conversion \<Rightarrow> string list \<Rightarrow> ChatToolCall \<Rightarrow> (string \<times> 'd Json) list" where
  "parsed_arguments D schemas call =
     map (\<lambda>a. (ta_name a, inferred_argument D (trim_blank (ta_rendered_value a))
       (schema_requires_string D schemas (tc_name call) (ta_name a)))) (tc_arguments call)"

text \<open>What \<open>render_tool_calls\<close> prints for one argument and one call, newline before the tags.\<close>

definition argument_text :: "ChatToolArgument \<Rightarrow> string" where
  "argument_text a = ''<parameter='' @ ta_name a @ ''>\<newline>'' @ ta_rendered_value a @ ''\<newline></parameter>\<newline>''"

definition call_text :: "ChatToolCall \<Rightarrow> string" where
  "call_text call = ''<tool_call>\<newline><function='' @ tc_name call @ ''>\<newline>'' @
     concat (map argument_text (tc_arguments call)) @ ''</function>\<newline></tool_call>''"

definition renders :: "ChatToolCall \<Rightarrow> bool" where
  "renders call \<longleftrightarrow> require_xml_name (tc_name call) ''tool'' = Inr () \<and>
     (\<forall>a \<in> set (tc_arguments call). require_xml_name (ta_name a) ''tool parameter'' = Inr ())"

definition readable :: "ChatToolCall \<Rightarrow> bool" where
  "readable call \<longleftrightarrow> distinct (map ta_name (tc_arguments call)) \<and>
     (\<forall>a \<in> set (tc_arguments call). \<not> sublist parameter_close (ta_rendered_value a))"

lemma render_call_Inr:
  assumes "render_call content (n, call) = Inr t"
  shows "renders call \<and> t = (if n = 0 \<and> content \<noteq> [] then ''\<newline>\<newline>'' else if n \<noteq> 0 then ''\<newline>'' else []) @ call_text call"
proof -
  from assms obtain u ts where n: "require_xml_name (tc_name call) ''tool'' = Inr u"
    and ts: "res_map render_argument (tc_arguments call) = Inr ts"
    and t: "t = (if n = 0 \<and> content \<noteq> [] then ''\<newline>\<newline>'' else if n \<noteq> 0 then ''\<newline>'' else []) @
            ''<tool_call>\<newline><function='' @ tc_name call @ ''>\<newline>'' @ concat ts @ ''</function>\<newline></tool_call>''"
    unfolding render_call_def by (auto simp only: prod.case res_bind_Inr_iff sum.inject)
  have "require_xml_name (ta_name a) ''tool parameter'' = Inr () \<and> render_argument a = Inr (argument_text a)"
    if "a \<in> set (tc_arguments call)" for a
  proof -
    from that obtain i where i: "i < length (tc_arguments call)" "a = tc_arguments call ! i"
      unfolding in_set_conv_nth by (elim exE conjE) simp
    have "render_argument a = Inr (ts ! i)" using res_map_Inr_nth [OF ts i(1)] i(2) by simp
    then obtain u where "require_xml_name (ta_name a) ''tool parameter'' = Inr u"
      unfolding render_argument_def by (auto simp only: res_bind_Inr_iff)
    then show ?thesis unfolding render_argument_def argument_text_def by simp
  qed
  then have "renders call" "res_map render_argument (tc_arguments call) = Inr (map argument_text (tc_arguments call))"
    using n by (auto simp: renders_def intro: res_map_all_Inr)
  then show ?thesis using ts t by (simp add: call_text_def)
qed

lemma parse_rendered_parameters:
  assumes "\<forall>a \<in> set as. require_xml_name (ta_name a) ''tool parameter'' = Inr () \<and> \<not> sublist parameter_close (ta_rendered_value a)"
    and "distinct (map fst acc @ map ta_name as)"
  shows "parse_parameters D schemas name acc (CHR 0x0A # concat (map argument_text as) @ ''</function>'' @ r) =
    Some (acc @ map (\<lambda>a. (ta_name a, inferred_argument D (trim_blank (ta_rendered_value a))
       (schema_requires_string D schemas name (ta_name a)))) as, r)"
  using assms
proof (induction as arbitrary: acc)
  case Nil
  have "skip_blank (CHR 0x0A # ''</function>'' @ r) = function_close @ r"
    by (simp add: skip_blank_def is_space_char_def function_close_def)
  then show ?case by (simp add: parse_parameters.simps [of _ _ _ _ "_ # _"])
next
  case (Cons a as)
  let ?rest = "CHR 0x0A # concat (map argument_text as) @ ''</function>'' @ r"
  let ?s = "CHR 0x0A # concat (map argument_text (a # as)) @ ''</function>'' @ r"
  have blank: "skip_blank ?s = parameter_open @ ta_name a @ CHR ''>'' # CHR 0x0A # ta_rendered_value a @ [CHR 0x0A] @ parameter_close @ ?rest"
    by (simp add: skip_blank_def is_space_char_def parameter_open_def parameter_close_def argument_text_def)
  then have no: "consume_tag function_close (skip_blank ?s) = None"
    by (simp add: consume_tag_def function_close_def parameter_open_def)
  have tag: "tagged_name parameter_open (skip_blank ?s) =
      Some (ta_name a, CHR 0x0A # ta_rendered_value a @ [CHR 0x0A] @ parameter_close @ ?rest)"
    unfolding blank by (rule tagged_name_rendered) (use Cons.prems(1) in auto)
  have skip: "skip_char (CHR 0x0A) (skip_char (CHR 0x0D) (CHR 0x0A # x)) = x" for x by (simp add: skip_char_def)
  have find: "find_split parameter_close (ta_rendered_value a @ [CHR 0x0A] @ parameter_close @ ?rest) =
      Some (ta_rendered_value a @ [CHR 0x0A], ?rest)"
    by (rule find_split_separated) (use Cons.prems(1) in \<open>auto simp: parameter_close_def\<close>)
  have fresh: "map_of acc (ta_name a) = None" using Cons.prems(2) by (auto simp: map_of_eq_None_iff)
  have trim: "trim_blank (ta_rendered_value a @ [CHR 0x0A]) = trim_blank (ta_rendered_value a)"
    unfolding trim_blank_def by (rule trim_both_snoc) (simp add: is_space_char_def)
  let ?acc = "acc @ [(ta_name a, inferred_argument D (trim_blank (ta_rendered_value a))
      (schema_requires_string D schemas name (ta_name a)))]"
  have "parse_parameters D schemas name acc ?s = parse_parameters D schemas name ?acc ?rest"
    unfolding parse_parameters.simps [of D schemas name acc ?s]
    by (simp only: no tag skip find fresh trim option.case prod.case simp_thms if_False)
  also have "\<dots> = Some (?acc @ map (\<lambda>a. (ta_name a, inferred_argument D (trim_blank (ta_rendered_value a))
       (schema_requires_string D schemas name (ta_name a)))) as, r)"
    by (rule Cons.IH) (use Cons.prems in auto)
  finally show ?case by simp
qed

lemma parse_rendered_call:
  assumes "renders call" and "readable call" and "dump D (JObject (parsed_arguments D schemas call)) = Inr json"
  shows "parse_call D schemas (call_text call @ r) = Inr (Some (\<lparr>pc_name = tc_name call, pc_arguments_json = json\<rparr>, r))"
proof -
  let ?body = "CHR 0x0A # concat (map argument_text (tc_arguments call)) @ ''</function>'' @ CHR 0x0A # call_close @ r"
  have eq: "call_text call @ r = call_open @ CHR 0x0A # function_open @ tc_name call @ CHR ''>'' # ?body"
    by (simp add: call_text_def tag_defs)
  have name: "tagged_name function_open (skip_blank (CHR 0x0A # function_open @ tc_name call @ CHR ''>'' # ?body)) =
      Some (tc_name call, ?body)"
  proof -
    have "skip_blank (CHR 0x0A # function_open @ x) = function_open @ x" for x
      by (simp add: skip_blank_def is_space_char_def function_open_def)
    moreover have "tagged_name function_open (function_open @ tc_name call @ CHR ''>'' # ?body) = Some (tc_name call, ?body)"
      by (rule tagged_name_rendered [where kind = "''tool''"]) (use assms(1) in \<open>simp add: renders_def\<close>)
    ultimately show ?thesis by simp
  qed
  have params: "parse_parameters D schemas (tc_name call) [] ?body =
      Some (parsed_arguments D schemas call, CHR 0x0A # call_close @ r)"
    using parse_rendered_parameters [of "tc_arguments call" "[]"] assms(1,2)
    by (simp add: renders_def readable_def parsed_arguments_def)
  have close: "consume_tag call_close (skip_blank (CHR 0x0A # call_close @ r)) = Some r"
    by (simp add: skip_blank_def is_space_char_def call_close_def)
  show ?thesis
    unfolding eq parse_call_def
    by (simp only: consume_tag_append name params close assms(3) option.case prod.case res_bind.simps)
qed

lemma parse_calls_blank: "is_space_char c \<Longrightarrow> parse_calls D schemas acc (c # s) = parse_calls D schemas acc s"
  by (simp add: parse_calls.simps [of _ _ _ "c # s"] parse_calls.simps [of _ _ _ s] skip_blank_def)

lemma parse_rendered_calls:
  assumes "\<forall>call \<in> set calls. renders call \<and> readable call \<and>
      dump D (JObject (parsed_arguments D schemas call)) = Inr (json call)"
  shows "parse_calls D schemas acc (concat (map (\<lambda>call. CHR 0x0A # call_text call) calls)) =
    Inr (Some (acc @ map (\<lambda>call. \<lparr>pc_name = tc_name call, pc_arguments_json = json call\<rparr>) calls))"
  using assms
proof (induction calls arbitrary: acc)
  case Nil
  then show ?case by (simp add: parse_calls.simps skip_blank_def)
next
  case (Cons call calls)
  let ?rest = "concat (map (\<lambda>call. CHR 0x0A # call_text call) calls)"
  have blank: "skip_blank (CHR 0x0A # call_text call @ ?rest) = call_text call @ ?rest"
    by (simp add: skip_blank_def is_space_char_def call_text_def)
  have ne: "call_text call @ ?rest \<noteq> []" by (simp add: call_text_def)
  have "parse_call D schemas (call_text call @ ?rest) =
      Inr (Some (\<lparr>pc_name = tc_name call, pc_arguments_json = json call\<rparr>, ?rest))"
    by (rule parse_rendered_call) (use Cons.prems in auto)
  then have "parse_calls D schemas acc (CHR 0x0A # call_text call @ ?rest) =
      parse_calls D schemas (acc @ [\<lparr>pc_name = tc_name call, pc_arguments_json = json call\<rparr>]) ?rest"
    unfolding parse_calls.simps [of D schemas acc "CHR 0x0A # call_text call @ ?rest"] blank
    using ne by (simp only: if_False sum.case option.case prod.case)
  then show ?case using Cons.IH Cons.prems by simp
qed

lemma render_tool_calls_Inr:
  assumes "render_tool_calls content (call # calls) = Inr t"
  shows "(\<forall>c \<in> set (call # calls). renders c) \<and>
    t = (if content \<noteq> [] then ''\<newline>\<newline>'' else []) @ call_text call @ concat (map (\<lambda>c. CHR 0x0A # call_text c) calls)"
proof -
  let ?xs = "zip [0..<length (call # calls)] (call # calls)"
  let ?sep = "\<lambda>n. if n = 0 \<and> content \<noteq> [] then ''\<newline>\<newline>'' else if n \<noteq> 0 then ''\<newline>'' else []"
  from assms obtain ts where ts: "res_map (render_call content) ?xs = Inr ts" "t = concat ts"
    by (auto simp only: render_tool_calls_def res_bind_Inr_iff sum.inject)
  have each: "renders (snd x) \<and> render_call content x = Inr (?sep (fst x) @ call_text (snd x))" if "x \<in> set ?xs" for x
  proof -
    from that obtain i where i: "i < length ?xs" "x = ?xs ! i"
      unfolding in_set_conv_nth by (elim exE conjE) simp
    have "render_call content x = Inr (ts ! i)" using res_map_Inr_nth [OF ts(1) i(1)] i(2) by simp
    then show ?thesis using render_call_Inr [of content "fst x" "snd x"] by simp
  qed
  then have ts': "ts = map (\<lambda>x. ?sep (fst x) @ call_text (snd x)) ?xs"
    using res_map_all_Inr [of ?xs "render_call content" "\<lambda>x. ?sep (fst x) @ call_text (snd x)"] ts(1) by simp
  have zip: "?xs = (0, call) # zip [Suc 0..<Suc (length calls)] calls" by (simp add: upt_conv_Cons del: upt_Suc)
  have "map (\<lambda>x. ?sep (fst x) @ call_text (snd x)) (zip [Suc 0..<Suc (length calls)] calls) =
      map (\<lambda>c. CHR 0x0A # call_text c) calls"
    by (rule nth_equalityI) (auto simp del: upt_Suc)
  then have "t = ?sep 0 @ call_text call @ concat (map (\<lambda>c. CHR 0x0A # call_text c) calls)"
    unfolding ts(2) ts' zip by simp
  moreover have "\<forall>c \<in> set (call # calls). renders c"
  proof
    fix c
    assume "c \<in> set (call # calls)"
    then obtain i where "i < length (call # calls)" "c = (call # calls) ! i"
      unfolding in_set_conv_nth by (elim exE conjE) simp
    then have "(i, c) \<in> set ?xs" by (auto simp: set_zip simp del: upt_Suc intro!: exI [of _ i])
    then show "renders c" using each [of "(i, c)"] by simp
  qed
  ultimately show ?thesis by auto
qed

text \<open>C30. Tool calls survive the prompt: whatever the chat template renders for the calls of an
  assistant message after its text, the output parser reads back as the same calls in the same
  order, with the arguments decoded from their trimmed text, and the text as visible content;
  needed are distinct argument names, values without a closing parameter tag, a text without an
  opening call tag and arguments that serialize.\<close>

theorem tool_calls_round_trip:
  assumes "render_tool_calls content calls = Inr rendered" and "calls \<noteq> []"
    and "\<not> sublist call_open content" and "\<forall>call \<in> set calls. readable call"
    and "\<forall>call \<in> set calls. dump D (JObject (parsed_arguments D schemas call)) = Inr (json call)"
  shows "parse_qwen_tool_output D (content @ rendered) schemas =
    Inr \<lparr>po_content = trim_blank content,
         po_calls = map (\<lambda>call. \<lparr>pc_name = tc_name call, pc_arguments_json = json call\<rparr>) calls\<rparr>"
proof -
  obtain call rest where calls: "calls = call # rest" using assms(2) by (cases calls) auto
  let ?sep = "if content \<noteq> [] then ''\<newline>\<newline>'' else []"
  let ?later = "concat (map (\<lambda>c. CHR 0x0A # call_text c) rest)"
  have r: "\<forall>c \<in> set calls. renders c" "rendered = ?sep @ call_text call @ ?later"
    using render_tool_calls_Inr assms(1) calls by blast+
  define body where "body = drop (length call_open) (call_text call)"
  have body: "call_text call = call_open @ body" by (simp add: body_def call_text_def call_open_def)
  have find: "find_split call_open (content @ rendered) = Some (content @ ?sep, body @ ?later)"
    unfolding r(2) body append_assoc
  proof (rule find_split_separated)
    show "set ?sep \<inter> set call_open = {}" "call_open \<noteq> []" "?sep \<noteq> [] \<or> content = []" by (simp_all add: call_open_def)
  qed (rule assms(3))
  have "parse_calls D schemas [] (CHR 0x0A # call_text call @ ?later) =
      Inr (Some (map (\<lambda>call. \<lparr>pc_name = tc_name call, pc_arguments_json = json call\<rparr>) calls))"
    using parse_rendered_calls [of calls D schemas json "[]"] assms(4,5) r(1) calls by simp
  then have "parse_calls D schemas [] (call_open @ body @ ?later) =
      Inr (Some (map (\<lambda>call. \<lparr>pc_name = tc_name call, pc_arguments_json = json call\<rparr>) calls))"
    using body by (simp add: parse_calls_blank is_space_char_def)
  moreover have "trim_blank (content @ ?sep) = trim_blank content"
    using trim_both_snoc [of is_space_char "CHR 0x0A" "content @ [CHR 0x0A]"]
      trim_both_snoc [of is_space_char "CHR 0x0A" content]
    by (auto simp: trim_blank_def is_space_char_def)
  ultimately show ?thesis using find assms(2) by (simp add: parse_qwen_tool_output_def)
qed

theorem tool_calls_round_trip_witness:
  "\<exists>rendered out. render_tool_calls ''Hi'' [\<lparr>tc_name = ''f'', tc_arguments = [\<lparr>ta_name = ''x'', ta_rendered_value = ''a<b''\<rparr>]\<rparr>] =
      Inr rendered \<and>
    parse_qwen_tool_output sample_conversion (''Hi'' @ rendered) [] = Inr out \<and>
    po_content out = ''Hi'' \<and> map pc_name (po_calls out) = [''f'']"
proof -
  let ?a = "\<lparr>ta_name = ''x'', ta_rendered_value = ''a<b''\<rparr>"
  let ?c = "\<lparr>tc_name = ''f'', tc_arguments = [?a]\<rparr>"
  obtain rendered where r: "render_tool_calls ''Hi'' [?c] = Inr rendered"
    by (simp add: render_tool_calls_def render_call_def render_argument_def require_xml_name_def is_xml_reserved_def)
  have sub: "\<not> sublist call_open ''Hi''" "\<forall>call \<in> set [?c]. readable call"
    by (simp_all add: call_open_def parameter_close_def readable_def sublist_code)
  have trim: "trim_blank ''a<b'' = ''a<b''" "trim_blank ''Hi'' = ''Hi''"
    by (simp_all add: trim_blank_def trim_both_def is_space_char_def)
  have "parse_document sample_conversion ''a<b'' =
      Inl (RuntimeError (''JSON parse error at byte '' @ show_nat 0 @ '': '' @ ''unexpected token''))"
    by (simp add: parse_document_def parse_value.simps parse_atom_def parse_fail_def skip_space_def
        is_json_space_def is_digit_char_def)
  then have "parsed_arguments sample_conversion [] ?c = [(''x'', JString ''a<b'')]"
    by (simp add: parsed_arguments_def inferred_argument_def trim)
  then have "\<forall>call \<in> set [?c]. dump sample_conversion (JObject (parsed_arguments sample_conversion [] call)) =
      Inr ''{\"x\":\"a<b\"}''"
    by (simp add: quote_json_string_def quote_char_def)
  from tool_calls_round_trip [OF r _ sub this] show ?thesis using r by (auto simp: trim)
qed

end
