(* ===== verification/Decode_State_Io.thy ===== *)
theory Decode_State_Io
  imports Decode_State
begin

text \<open>
  \<^verbatim>\<open>decode_state_io.cpp\<close>: the decode state of a prompt prefix written to and read from a safetensors
  file. The file format is a third-party library's: a file is a value of type \<open>'f\<close>, and the
  library's operations that the code calls are the fields of \<open>tensor_files\<close>: writing named arrays
  and string metadata, looking up an array and a metadata value by name, the third dimension of
  an array, and the array a default-constructed handle stands for.
\<close>

type_synonym metadata = "(string \<times> string) list"
type_synonym 'a named_arrays = "(string \<times> 'a) list"

record ('a, 'f) tensor_files =
  tf_save :: "'a named_arrays \<Rightarrow> metadata \<Rightarrow> 'f"
  tf_tensor :: "'f \<Rightarrow> string \<Rightarrow> 'a option"
  tf_metadata :: "'f \<Rightarrow> string \<Rightarrow> string option"
  tf_dim2 :: "'a \<Rightarrow> nat"
  tf_empty :: 'a

record 'a PersistedPrefixState =
  ps_target :: "'a DecoderLayerState decode_state"
  ps_mtp :: "'a DecoderLayerState mtp_decode_state"
  ps_previous_target_stream :: "'a option"
  ps_pending_mtp_streams :: "'a list"
  ps_pending_mtp_tokens :: "u32 list"
  ps_mtp_profitable :: "bool option"
  ps_mtp_profitability_current_token :: "u32 option"
  ps_mtp_cumulative_profitability_keep :: bool

subsection \<open>Writing\<close>

definition size_metadata :: "string \<Rightarrow> nat \<Rightarrow> string \<times> string" where
  "size_metadata key v = (key, show_nat v)"

definition bool_metadata :: "string \<Rightarrow> bool \<Rightarrow> string \<times> string" where
  "bool_metadata key v = (key, if v then ''1'' else ''0'')"

definition decoder_metadata :: "string \<Rightarrow> 'a DecoderLayerState \<Rightarrow> metadata" where
  "decoder_metadata pfx state =
     (let linear = dl_linear_attention state; attention = dl_full_attention state; ple = dl_ple state in
      [bool_metadata (pfx @ ''.linear.initialized'') (gd_initialized linear),
       size_metadata (pfx @ ''.attention.token_count'') (sa_token_count attention),
       size_metadata (pfx @ ''.attention.position_base'') (sa_position_base attention),
       size_metadata (pfx @ ''.attention.qsa_raw_start'') (sa_qsa_raw_start attention),
       size_metadata (pfx @ ''.attention.qsa_pooled_count'') (sa_qsa_pooled_count attention),
       bool_metadata (pfx @ ''.attention.kv_q8'') (sa_kv_q8 attention),
       size_metadata (pfx @ ''.attention.kv_q8_cold_tokens'') (sa_kv_q8_cold_tokens attention),
       bool_metadata (pfx @ ''.ple.ngram.initialized'') (ng_initialized (ple_ngram ple)),
       size_metadata (pfx @ ''.ple.ngram.previous0'') (unat (ng_previous0 (ple_ngram ple))),
       size_metadata (pfx @ ''.ple.ngram.previous1'') (unat (ng_previous1 (ple_ngram ple))),
       size_metadata (pfx @ ''.ple.ngram.segment_length'') (ng_segment_length (ple_ngram ple)),
       bool_metadata (pfx @ ''.ple.convolution_initialized'') (ple_convolution_initialized ple)])"

definition decoder_arrays :: "string \<Rightarrow> 'a DecoderLayerState \<Rightarrow> 'a named_arrays" where
  "decoder_arrays pfx state =
     (let linear = dl_linear_attention state; attention = dl_full_attention state; ple = dl_ple state in
      (if gd_initialized linear then
         [(pfx @ ''.linear.convolution'', gd_convolution linear),
          (pfx @ ''.linear.recurrent'', gd_recurrent linear)]
       else []) @
      (if sa_token_count attention \<noteq> 0 then
         (if sa_kv_q8 attention then
            [(pfx @ ''.attention.key_weights'', sa_key_weights attention),
             (pfx @ ''.attention.key_scales'', sa_key_scales attention),
             (pfx @ ''.attention.key_biases'', sa_key_biases attention),
             (pfx @ ''.attention.value_weights'', sa_value_weights attention),
             (pfx @ ''.attention.value_scales'', sa_value_scales attention),
             (pfx @ ''.attention.value_biases'', sa_value_biases attention)] @
            (if sa_token_count attention > sa_kv_q8_cold_tokens attention then
               [(pfx @ ''.attention.keys'', sa_keys attention),
                (pfx @ ''.attention.values'', sa_values attention)]
             else [])
          else
            [(pfx @ ''.attention.keys'', sa_keys attention),
             (pfx @ ''.attention.values'', sa_values attention)]) @
         [(pfx @ ''.attention.qsa_raw_keys'', sa_qsa_raw_keys attention)] @
         (if sa_qsa_pooled_count attention \<noteq> 0 then
            [(pfx @ ''.attention.qsa_pooled_keys'', sa_qsa_pooled_keys attention)]
          else [])
       else []) @
      (if ple_convolution_initialized ple then [(pfx @ ''.ple.convolution'', ple_convolution ple)] else []))"

definition layer_prefix :: "nat \<Rightarrow> string" where
  "layer_prefix i = ''target.layer.'' @ show_nat i"

definition profitability_code :: "bool option \<Rightarrow> nat" where
  "profitability_code p = (case p of None \<Rightarrow> 2 | Some True \<Rightarrow> 1 | Some False \<Rightarrow> 0)"

definition state_metadata :: "'a PersistedPrefixState \<Rightarrow> metadata" where
  "state_metadata state =
     [(''format'', ''qwen38-prefix-state-v1''),
      size_metadata ''target.layer_count'' (length (ds_layers (ps_target state))),
      size_metadata ''target.token_count'' (ds_token_count (ps_target state))] @
     concat (map (\<lambda>i. decoder_metadata (layer_prefix i) (ds_layers (ps_target state) ! i))
       [0..<length (ds_layers (ps_target state))]) @
     decoder_metadata ''mtp.layer'' (ms_layer (ps_mtp state)) @
     [size_metadata ''mtp.row_count'' (ms_row_count (ps_mtp state)),
      bool_metadata ''mtp.position_base.present'' (ms_position_base (ps_mtp state) \<noteq> None),
      size_metadata ''mtp.position_base'' (case ms_position_base (ps_mtp state) of Some b \<Rightarrow> b | None \<Rightarrow> 0),
      bool_metadata ''previous_target_stream.present'' (ps_previous_target_stream state \<noteq> None),
      size_metadata ''pending_mtp.count'' (length (ps_pending_mtp_streams state))] @
     map (\<lambda>i. size_metadata (''pending_mtp.token.'' @ show_nat i) (unat (ps_pending_mtp_tokens state ! i)))
       [0..<length (ps_pending_mtp_streams state)] @
     [size_metadata ''mtp.profitable'' (profitability_code (ps_mtp_profitable state)),
      bool_metadata ''mtp.profitability_token.present'' (ps_mtp_profitability_current_token state \<noteq> None),
      size_metadata ''mtp.profitability_token''
        (case ps_mtp_profitability_current_token state of Some t \<Rightarrow> unat t | None \<Rightarrow> 0),
      bool_metadata ''mtp.cumulative_profitability_keep'' (ps_mtp_cumulative_profitability_keep state)]"

definition state_arrays :: "'a PersistedPrefixState \<Rightarrow> 'a named_arrays" where
  "state_arrays state =
     concat (map (\<lambda>i. decoder_arrays (layer_prefix i) (ds_layers (ps_target state) ! i))
       [0..<length (ds_layers (ps_target state))]) @
     decoder_arrays ''mtp.layer'' (ms_layer (ps_mtp state)) @
     (case ps_previous_target_stream state of Some a \<Rightarrow> [(''previous_target_stream'', a)] | None \<Rightarrow> []) @
     map (\<lambda>i. (''pending_mtp.stream.'' @ show_nat i, ps_pending_mtp_streams state ! i))
       [0..<length (ps_pending_mtp_streams state)]"

definition save_prefix_state :: "('a, 'f) tensor_files \<Rightarrow> 'a PersistedPrefixState \<Rightarrow> 'f result" where
  "save_prefix_state F state =
     (if length (ps_pending_mtp_streams state) \<noteq> length (ps_pending_mtp_tokens state) then
        Inl (RuntimeError ''pending MTP stream/token count mismatch'')
      else Inr (tf_save F (state_arrays state) (state_metadata state)))"

subsection \<open>Reading\<close>

definition required_metadata :: "('a, 'f) tensor_files \<Rightarrow> 'f \<Rightarrow> string \<Rightarrow> string result" where
  "required_metadata F file key =
     (case tf_metadata F file key of
        None \<Rightarrow> Inl (RuntimeError (''prefix state metadata missing: '' @ key))
      | Some v \<Rightarrow> Inr v)"

definition from_chars_size :: "string \<Rightarrow> nat option" where
  "from_chars_size digits =
     (if digits = [] \<or> \<not> list_all is_digit_char digits \<or> digits_value digits > SIZE_MAX then None
      else Some (digits_value digits))"

definition parse_size :: "('a, 'f) tensor_files \<Rightarrow> 'f \<Rightarrow> string \<Rightarrow> nat result" where
  "parse_size F file key =
     res_bind (required_metadata F file key) (\<lambda>v.
       case from_chars_size v of
         None \<Rightarrow> Inl (RuntimeError (''invalid prefix state metadata: '' @ key))
       | Some n \<Rightarrow> Inr n)"

definition parse_bool :: "('a, 'f) tensor_files \<Rightarrow> 'f \<Rightarrow> string \<Rightarrow> bool result" where
  "parse_bool F file key =
     res_bind (required_metadata F file key) (\<lambda>v.
       if v = ''0'' then Inr False
       else if v = ''1'' then Inr True
       else Inl (RuntimeError (''invalid prefix state boolean: '' @ key)))"

definition file_tensor :: "('a, 'f) tensor_files \<Rightarrow> 'f \<Rightarrow> string \<Rightarrow> 'a result" where
  "file_tensor F file name =
     (case tf_tensor F file name of
        None \<Rightarrow> Inl (OutOfRange (''tensor not found in MLX shard: '' @ name))
      | Some a \<Rightarrow> Inr a)"

text \<open>A field that is read only under a condition and keeps its default otherwise.\<close>

definition read_if :: "bool \<Rightarrow> 'b result \<Rightarrow> 'b \<Rightarrow> 'b result" where
  "read_if c r d = (if c then r else Inr d)"

definition load_linear :: "('a, 'f) tensor_files \<Rightarrow> string \<Rightarrow> 'f \<Rightarrow> 'a GatedDeltaNetState result" where
  "load_linear F pfx file =
     res_bind (parse_bool F file (pfx @ ''.linear.initialized'')) (\<lambda>initialized.
     res_bind (read_if initialized (file_tensor F file (pfx @ ''.linear.convolution'')) (tf_empty F)) (\<lambda>convolution.
     res_bind (read_if initialized (file_tensor F file (pfx @ ''.linear.recurrent'')) (tf_empty F)) (\<lambda>recurrent.
       Inr \<lparr>gd_convolution = convolution, gd_recurrent = recurrent, gd_rollback_key = tf_empty F,
            gd_rollback_value = tf_empty F, gd_rollback_decay = tf_empty F, gd_rollback_beta = tf_empty F,
            gd_rollback_rows = 0, gd_initialized = initialized\<rparr>)))"

text \<open>The quantized keys and values, when the state has them: the arrays and the cold frontier.\<close>

definition load_cold_tokens :: "('a, 'f) tensor_files \<Rightarrow> string \<Rightarrow> 'f \<Rightarrow> 'a \<Rightarrow> nat \<Rightarrow> nat result" where
  "load_cold_tokens F pfx file key_weights token_count =
     res_bind
       (if tf_metadata F file (pfx @ ''.attention.kv_q8_cold_tokens'') \<noteq> None
        then parse_size F file (pfx @ ''.attention.kv_q8_cold_tokens'')
        else Inr (tf_dim2 F key_weights)) (\<lambda>cold.
       if cold > token_count then Inl (RuntimeError ''Q8 prefix state cold frontier is out of range'')
       else Inr cold)"

definition load_attention :: "('a, 'f) tensor_files \<Rightarrow> string \<Rightarrow> 'f \<Rightarrow> 'a SelfAttentionState result" where
  "load_attention F pfx file =
     res_bind (parse_size F file (pfx @ ''.attention.token_count'')) (\<lambda>token_count.
     res_bind (parse_size F file (pfx @ ''.attention.position_base'')) (\<lambda>position_base.
     res_bind (read_if (tf_metadata F file (pfx @ ''.attention.qsa_raw_start'') \<noteq> None)
         (parse_size F file (pfx @ ''.attention.qsa_raw_start'')) 0) (\<lambda>qsa_raw_start.
     res_bind (parse_size F file (pfx @ ''.attention.qsa_pooled_count'')) (\<lambda>qsa_pooled_count.
     res_bind (read_if (tf_metadata F file (pfx @ ''.attention.kv_q8'') \<noteq> None)
         (parse_bool F file (pfx @ ''.attention.kv_q8'')) False) (\<lambda>kv_q8.
     let present = (token_count \<noteq> 0); q8 = (present \<and> kv_q8); tensor = (\<lambda>name. file_tensor F file (pfx @ name)) in
     res_bind (read_if q8 (tensor ''.attention.key_weights'') (tf_empty F)) (\<lambda>key_weights.
     res_bind (read_if q8 (tensor ''.attention.key_scales'') (tf_empty F)) (\<lambda>key_scales.
     res_bind (read_if q8 (tensor ''.attention.key_biases'') (tf_empty F)) (\<lambda>key_biases.
     res_bind (read_if q8 (tensor ''.attention.value_weights'') (tf_empty F)) (\<lambda>value_weights.
     res_bind (read_if q8 (tensor ''.attention.value_scales'') (tf_empty F)) (\<lambda>value_scales.
     res_bind (read_if q8 (tensor ''.attention.value_biases'') (tf_empty F)) (\<lambda>value_biases.
     res_bind (read_if q8 (load_cold_tokens F pfx file key_weights token_count) 0) (\<lambda>cold.
     let exact = (present \<and> (kv_q8 \<longrightarrow> cold < token_count)) in
     res_bind (read_if exact (tensor ''.attention.keys'') (tf_empty F)) (\<lambda>keys.
     res_bind (read_if exact (tensor ''.attention.values'') (tf_empty F)) (\<lambda>values.
     res_bind (read_if present (tensor ''.attention.qsa_raw_keys'') (tf_empty F)) (\<lambda>qsa_raw_keys.
     res_bind (read_if (present \<and> qsa_pooled_count \<noteq> 0) (tensor ''.attention.qsa_pooled_keys'') (tf_empty F))
         (\<lambda>qsa_pooled_keys.
       Inr \<lparr>sa_keys = keys, sa_values = values, sa_key_weights = key_weights, sa_key_scales = key_scales,
            sa_key_biases = key_biases, sa_value_weights = value_weights, sa_value_scales = value_scales,
            sa_value_biases = value_biases, sa_kv_q8 = kv_q8, sa_kv_q8_cold_tokens = cold,
            sa_qsa_raw_keys = qsa_raw_keys, sa_qsa_raw_start = qsa_raw_start,
            sa_qsa_pooled_keys = qsa_pooled_keys, sa_qsa_pooled_count = qsa_pooled_count,
            sa_token_count = token_count, sa_position_base = position_base\<rparr>))))))))))))))))"

definition load_ple :: "('a, 'f) tensor_files \<Rightarrow> string \<Rightarrow> 'f \<Rightarrow> 'a PleState result" where
  "load_ple F pfx file =
     res_bind (parse_bool F file (pfx @ ''.ple.ngram.initialized'')) (\<lambda>initialized.
     res_bind (parse_size F file (pfx @ ''.ple.ngram.previous0'')) (\<lambda>previous0.
     res_bind (parse_size F file (pfx @ ''.ple.ngram.previous1'')) (\<lambda>previous1.
     if previous0 > 4294967295 \<or> previous1 > 4294967295 then
       Inl (RuntimeError ''prefix state ngram token is out of range'')
     else
     res_bind (parse_size F file (pfx @ ''.ple.ngram.segment_length'')) (\<lambda>segment_length.
     res_bind (parse_bool F file (pfx @ ''.ple.convolution_initialized'')) (\<lambda>convolution_initialized.
     res_bind (read_if convolution_initialized (file_tensor F file (pfx @ ''.ple.convolution'')) (tf_empty F))
         (\<lambda>convolution.
       Inr \<lparr>ple_ngram = \<lparr>ng_previous0 = of_nat previous0, ng_previous1 = of_nat previous1,
              ng_segment_length = segment_length, ng_initialized = initialized\<rparr>,
            ple_convolution = convolution, ple_convolution_initialized = convolution_initialized\<rparr>))))))"

definition load_decoder :: "('a, 'f) tensor_files \<Rightarrow> string \<Rightarrow> 'f \<Rightarrow> 'a DecoderLayerState result" where
  "load_decoder F pfx file =
     res_bind (load_linear F pfx file) (\<lambda>linear.
     res_bind (load_attention F pfx file) (\<lambda>attention.
     res_bind (load_ple F pfx file) (\<lambda>ple.
       Inr \<lparr>dl_linear_attention = linear, dl_full_attention = attention, dl_ple = ple\<rparr>)))"

definition load_pending :: "('a, 'f) tensor_files \<Rightarrow> 'f \<Rightarrow> nat \<Rightarrow> ('a \<times> u32) result" where
  "load_pending F file i =
     res_bind (file_tensor F file (''pending_mtp.stream.'' @ show_nat i)) (\<lambda>stream.
     res_bind (parse_size F file (''pending_mtp.token.'' @ show_nat i)) (\<lambda>token.
       if token > 4294967295 then Inl (RuntimeError ''pending MTP token is out of range'')
       else Inr (stream, of_nat token)))"

definition load_profitability_token :: "('a, 'f) tensor_files \<Rightarrow> 'f \<Rightarrow> u32 option result" where
  "load_profitability_token F file =
     res_bind (parse_bool F file ''mtp.profitability_token.present'') (\<lambda>present.
     if \<not> present then Inr None
     else
       res_bind (parse_size F file ''mtp.profitability_token'') (\<lambda>token.
         if token > 4294967295 then Inl (RuntimeError ''MTP profitability token is out of range'')
         else Inr (Some (of_nat token))))"

definition load_prefix_state :: "('a, 'f) tensor_files \<Rightarrow> 'f \<Rightarrow> nat \<Rightarrow> 'a PersistedPrefixState result" where
  "load_prefix_state F file expected_layer_count =
     res_bind (required_metadata F file ''format'') (\<lambda>format.
     if format \<noteq> ''qwen38-prefix-state-v1'' then Inl (RuntimeError ''unsupported prefix state format'')
     else
     res_bind (parse_size F file ''target.layer_count'') (\<lambda>layer_count.
     if layer_count \<noteq> expected_layer_count then
       Inl (RuntimeError ''prefix state layer count does not match model'')
     else
     res_bind (parse_size F file ''target.token_count'') (\<lambda>token_count.
     res_bind (res_map (\<lambda>i. load_decoder F (layer_prefix i) file) [0..<layer_count]) (\<lambda>layers.
     res_bind (load_decoder F ''mtp.layer'' file) (\<lambda>mtp_layer.
     res_bind (parse_size F file ''mtp.row_count'') (\<lambda>row_count.
     res_bind (parse_bool F file ''mtp.position_base.present'') (\<lambda>base_present.
     res_bind (if base_present then res_bind (parse_size F file ''mtp.position_base'') (\<lambda>b. Inr (Some b)) else Inr None)
         (\<lambda>position_base.
     res_bind (parse_bool F file ''previous_target_stream.present'') (\<lambda>stream_present.
     res_bind (if stream_present then res_bind (file_tensor F file ''previous_target_stream'') (\<lambda>a. Inr (Some a)) else Inr None)
         (\<lambda>previous_target_stream.
     res_bind (parse_size F file ''pending_mtp.count'') (\<lambda>pending_count.
     res_bind (res_map (load_pending F file) [0..<pending_count]) (\<lambda>pending.
     res_bind (parse_size F file ''mtp.profitable'') (\<lambda>profitability.
     if profitability > 2 then Inl (RuntimeError ''invalid MTP profitability state'')
     else
     res_bind (load_profitability_token F file) (\<lambda>profitability_token.
     res_bind (parse_bool F file ''mtp.cumulative_profitability_keep'') (\<lambda>keep.
       Inr \<lparr>ps_target = \<lparr>ds_layers = layers, ds_token_count = token_count\<rparr>,
            ps_mtp = \<lparr>ms_layer = mtp_layer, ms_row_count = row_count, ms_position_base = position_base\<rparr>,
            ps_previous_target_stream = previous_target_stream,
            ps_pending_mtp_streams = map fst pending, ps_pending_mtp_tokens = map snd pending,
            ps_mtp_profitable = (if profitability < 2 then Some (profitability = 1) else None),
            ps_mtp_profitability_current_token = profitability_token,
            ps_mtp_cumulative_profitability_keep = keep\<rparr>)))))))))))))))"

subsection \<open>What survives\<close>

text \<open>
  The part of a state that a file keeps: rollback data and arrays that the counters declare absent
  are dropped.
\<close>

definition persisted_linear :: "'a \<Rightarrow> 'a GatedDeltaNetState \<Rightarrow> 'a GatedDeltaNetState" where
  "persisted_linear e l =
     \<lparr>gd_convolution = (if gd_initialized l then gd_convolution l else e),
      gd_recurrent = (if gd_initialized l then gd_recurrent l else e),
      gd_rollback_key = e, gd_rollback_value = e, gd_rollback_decay = e, gd_rollback_beta = e,
      gd_rollback_rows = 0, gd_initialized = gd_initialized l\<rparr>"

definition persisted_attention :: "'a \<Rightarrow> 'a SelfAttentionState \<Rightarrow> 'a SelfAttentionState" where
  "persisted_attention e a =
     (let present = (sa_token_count a \<noteq> 0); q8 = (present \<and> sa_kv_q8 a);
          exact = (present \<and> (sa_kv_q8 a \<longrightarrow> sa_kv_q8_cold_tokens a < sa_token_count a)) in
      a\<lparr>sa_keys := if exact then sa_keys a else e, sa_values := if exact then sa_values a else e,
        sa_key_weights := if q8 then sa_key_weights a else e, sa_key_scales := if q8 then sa_key_scales a else e,
        sa_key_biases := if q8 then sa_key_biases a else e, sa_value_weights := if q8 then sa_value_weights a else e,
        sa_value_scales := if q8 then sa_value_scales a else e, sa_value_biases := if q8 then sa_value_biases a else e,
        sa_kv_q8_cold_tokens := if q8 then sa_kv_q8_cold_tokens a else 0,
        sa_qsa_raw_keys := if present then sa_qsa_raw_keys a else e,
        sa_qsa_pooled_keys := if present \<and> sa_qsa_pooled_count a \<noteq> 0 then sa_qsa_pooled_keys a else e\<rparr>)"

definition persisted_ple :: "'a \<Rightarrow> 'a PleState \<Rightarrow> 'a PleState" where
  "persisted_ple e p = p\<lparr>ple_convolution := if ple_convolution_initialized p then ple_convolution p else e\<rparr>"

definition persisted_layer :: "'a \<Rightarrow> 'a DecoderLayerState \<Rightarrow> 'a DecoderLayerState" where
  "persisted_layer e l =
     \<lparr>dl_linear_attention = persisted_linear e (dl_linear_attention l),
      dl_full_attention = persisted_attention e (dl_full_attention l), dl_ple = persisted_ple e (dl_ple l)\<rparr>"

definition persisted :: "'a \<Rightarrow> 'a PersistedPrefixState \<Rightarrow> 'a PersistedPrefixState" where
  "persisted e state =
     state\<lparr>ps_target := (ps_target state)\<lparr>ds_layers := map (persisted_layer e) (ds_layers (ps_target state))\<rparr>,
           ps_mtp := (ps_mtp state)\<lparr>ms_layer := persisted_layer e (ms_layer (ps_mtp state))\<rparr>\<rparr>"

text \<open>Counters are \<open>size_t\<close> values and a quantized cache is cold for at most its tokens.\<close>

definition layer_ok :: "'a DecoderLayerState \<Rightarrow> bool" where
  "layer_ok l \<longleftrightarrow>
     (let a = dl_full_attention l in
      sa_token_count a \<le> SIZE_MAX \<and> sa_position_base a \<le> SIZE_MAX \<and> sa_qsa_raw_start a \<le> SIZE_MAX \<and>
      sa_qsa_pooled_count a \<le> SIZE_MAX \<and> sa_kv_q8_cold_tokens a \<le> SIZE_MAX \<and>
      (sa_token_count a \<noteq> 0 \<and> sa_kv_q8 a \<longrightarrow> sa_kv_q8_cold_tokens a \<le> sa_token_count a) \<and>
      ng_segment_length (ple_ngram (dl_ple l)) \<le> SIZE_MAX)"

definition state_ok :: "'a PersistedPrefixState \<Rightarrow> bool" where
  "state_ok state \<longleftrightarrow>
     (\<forall>l \<in> set (ds_layers (ps_target state)). layer_ok l) \<and> layer_ok (ms_layer (ps_mtp state)) \<and>
     length (ds_layers (ps_target state)) \<le> SIZE_MAX \<and> ds_token_count (ps_target state) \<le> SIZE_MAX \<and>
     ms_row_count (ps_mtp state) \<le> SIZE_MAX \<and> (\<forall>b. ms_position_base (ps_mtp state) = Some b \<longrightarrow> b \<le> SIZE_MAX) \<and>
     length (ps_pending_mtp_streams state) \<le> SIZE_MAX \<and>
     length (ps_pending_mtp_tokens state) = length (ps_pending_mtp_streams state)"

text \<open>The documented behaviour of the file library: entries with distinct names are found again.\<close>

definition files_faithful :: "('a, 'f) tensor_files \<Rightarrow> bool" where
  "files_faithful F \<longleftrightarrow>
     (\<forall>arrays metadata. distinct (map fst arrays) \<and> distinct (map fst metadata) \<longrightarrow>
        (\<forall>(name, a) \<in> set arrays. tf_tensor F (tf_save F arrays metadata) name = Some a) \<and>
        (\<forall>(key, v) \<in> set metadata. tf_metadata F (tf_save F arrays metadata) key = Some v))"

subsection \<open>Names are distinct\<close>

lemma show_nat_inject [simp]: "show_nat i = show_nat j \<longleftrightarrow> i = j"
  by (metis show_nat_value)

lemma show_nat_dot_inject:
  assumes "show_nat i @ CHR ''.'' # x = show_nat j @ CHR ''.'' # y"
  shows "i = j"
proof -
  have "takeWhile is_digit_char (show_nat n @ CHR ''.'' # z) = show_nat n" for n z
    using show_nat_digits [of _ n] by (subst takeWhile_append2) (auto simp: is_digit_char_def)
  then show ?thesis using assms by (metis show_nat_inject)
qed

lemma decoder_metadata_keys:
  "map fst (decoder_metadata pfx l) = map (\<lambda>f. pfx @ CHR ''.'' # f)
     [''linear.initialized'', ''attention.token_count'', ''attention.position_base'', ''attention.qsa_raw_start'',
      ''attention.qsa_pooled_count'', ''attention.kv_q8'', ''attention.kv_q8_cold_tokens'', ''ple.ngram.initialized'',
      ''ple.ngram.previous0'', ''ple.ngram.previous1'', ''ple.ngram.segment_length'', ''ple.convolution_initialized'']"
  by (simp add: decoder_metadata_def size_metadata_def bool_metadata_def Let_def)

lemma decoder_metadata_distinct: "distinct (map fst (decoder_metadata pfx l))"
  unfolding decoder_metadata_keys by simp

lemma decoder_metadata_prefix: "k \<in> set (map fst (decoder_metadata pfx l)) \<Longrightarrow> \<exists>f. k = pfx @ CHR ''.'' # f"
  unfolding decoder_metadata_keys by auto

lemma decoder_arrays_distinct: "distinct (map fst (decoder_arrays pfx l))"
  unfolding decoder_arrays_def Let_def
  by (cases "gd_initialized (dl_linear_attention l)"; cases "ple_convolution_initialized (dl_ple l)";
      cases "sa_token_count (dl_full_attention l) = 0"; cases "sa_kv_q8 (dl_full_attention l)";
      cases "sa_token_count (dl_full_attention l) > sa_kv_q8_cold_tokens (dl_full_attention l)";
      cases "sa_qsa_pooled_count (dl_full_attention l) = 0") simp_all

lemma decoder_arrays_prefix: "k \<in> set (map fst (decoder_arrays pfx l)) \<Longrightarrow> \<exists>f. k = pfx @ CHR ''.'' # f"
  by (auto simp: decoder_arrays_def Let_def split: if_splits)

lemma distinct_layers:
  assumes "\<And>i. distinct (map fst (g i))" and "\<And>i k. k \<in> set (map fst (g i)) \<Longrightarrow> \<exists>f. k = layer_prefix i @ CHR ''.'' # f"
  shows "distinct (map fst (concat (map g [0..<n])))"
proof (induction n)
  case (Suc n)
  have "set (map fst (concat (map g [0..<n]))) \<inter> set (map fst (g n)) = {}"
  proof (rule ccontr)
    assume "set (map fst (concat (map g [0..<n]))) \<inter> set (map fst (g n)) \<noteq> {}"
    then obtain k where "k \<in> set (map fst (concat (map g [0..<n])))" and kn: "k \<in> set (map fst (g n))" by blast
    then obtain i where "i < n" "k \<in> set (map fst (g i))" by fastforce
    with kn obtain x y where "layer_prefix i @ CHR ''.'' # x = layer_prefix n @ CHR ''.'' # y"
      using assms(2) by metis
    then have "i = n" by (auto simp: layer_prefix_def dest: show_nat_dot_inject)
    then show False using \<open>i < n\<close> by simp
  qed
  then show ?case using Suc assms(1) [of n] by simp
qed simp

lemma layer_metadata_names:
  "(k, v) \<in> set (decoder_metadata (layer_prefix i) l) \<Longrightarrow> \<exists>f. k = ''target.layer.'' @ show_nat i @ CHR ''.'' # f"
  using decoder_metadata_prefix [of k "layer_prefix i" l] by (force simp: layer_prefix_def)

lemma mtp_metadata_names: "(k, v) \<in> set (decoder_metadata ''mtp.layer'' l) \<Longrightarrow> \<exists>f. k = ''mtp.layer.'' @ f"
  using decoder_metadata_prefix [of k "''mtp.layer''" l] by force

lemma state_metadata_distinct: "distinct (map fst (state_metadata st))"
proof -
  let ?layers = "concat (map (\<lambda>i. decoder_metadata (layer_prefix i) (ds_layers (ps_target st) ! i))
      [0..<length (ds_layers (ps_target st))])"
  have layers: "distinct (map fst ?layers)"
    by (rule distinct_layers, rule decoder_metadata_distinct, erule decoder_metadata_prefix)
  have pend: "distinct (map (\<lambda>i. ''pending_mtp.token.'' @ show_nat i) [0..<n])" for n
    by (simp add: distinct_map inj_on_def)
  show ?thesis
    unfolding state_metadata_def map_append distinct_append
    using layers decoder_metadata_distinct [of "''mtp.layer''" "ms_layer (ps_mtp st)"] pend [of "length (ps_pending_mtp_streams st)"]
    by (auto simp: size_metadata_def bool_metadata_def comp_def split: option.splits dest!: layer_metadata_names mtp_metadata_names)
qed

lemma layer_arrays_names:
  "(k, v) \<in> set (decoder_arrays (layer_prefix i) l) \<Longrightarrow> \<exists>f. k = ''target.layer.'' @ show_nat i @ CHR ''.'' # f"
  using decoder_arrays_prefix [of k "layer_prefix i" l] by (force simp: layer_prefix_def)

lemma mtp_arrays_names: "(k, v) \<in> set (decoder_arrays ''mtp.layer'' l) \<Longrightarrow> \<exists>f. k = ''mtp.layer.'' @ f"
  using decoder_arrays_prefix [of k "''mtp.layer''" l] by force

lemma state_arrays_distinct: "distinct (map fst (state_arrays st))"
proof -
  let ?layers = "concat (map (\<lambda>i. decoder_arrays (layer_prefix i) (ds_layers (ps_target st) ! i))
      [0..<length (ds_layers (ps_target st))])"
  have layers: "distinct (map fst ?layers)"
    by (rule distinct_layers, rule decoder_arrays_distinct, erule decoder_arrays_prefix)
  have pend: "distinct (map (\<lambda>i. ''pending_mtp.stream.'' @ show_nat i) [0..<n])" for n
    by (simp add: distinct_map inj_on_def)
  show ?thesis
    unfolding state_arrays_def map_append distinct_append
    using layers decoder_arrays_distinct [of "''mtp.layer''" "ms_layer (ps_mtp st)"] pend [of "length (ps_pending_mtp_streams st)"]
    by (auto simp: size_metadata_def bool_metadata_def comp_def split: option.splits dest!: layer_arrays_names mtp_arrays_names)
qed

subsection \<open>Reading back\<close>

lemma read_size:
  assumes "tf_metadata F file key = Some (show_nat n)" and "n \<le> SIZE_MAX"
  shows "parse_size F file key = Inr n"
proof -
  have "list_all is_digit_char (show_nat n)" using show_nat_digits by (auto simp: list_all_iff)
  then show ?thesis using assms by (simp add: parse_size_def required_metadata_def from_chars_size_def)
qed

lemma read_bool: "tf_metadata F file key = Some (if b then ''1'' else ''0'') \<Longrightarrow> parse_bool F file key = Inr b"
  by (cases b) (auto simp: parse_bool_def required_metadata_def)

lemma read_tensor: "tf_tensor F file name = Some a \<Longrightarrow> file_tensor F file name = Inr a"
  by (simp add: file_tensor_def)

text \<open>A file that holds at least the given entries.\<close>

definition holds :: "('a, 'f) tensor_files \<Rightarrow> 'f \<Rightarrow> 'a named_arrays \<Rightarrow> metadata \<Rightarrow> bool" where
  "holds F file arrays metadata \<longleftrightarrow>
     (\<forall>(name, a) \<in> set arrays. tf_tensor F file name = Some a) \<and>
     (\<forall>(key, v) \<in> set metadata. tf_metadata F file key = Some v)"

lemma holds_subset:
  "holds F file arrays md \<Longrightarrow> set arrays' \<subseteq> set arrays \<Longrightarrow> set md' \<subseteq> set md \<Longrightarrow> holds F file arrays' md'"
  by (auto simp: holds_def)

lemma holds_size: "holds F file arrays md \<Longrightarrow> size_metadata key n \<in> set md \<Longrightarrow> n \<le> SIZE_MAX \<Longrightarrow> parse_size F file key = Inr n"
  unfolding holds_def size_metadata_def by (intro read_size) auto

lemma holds_bool: "holds F file arrays md \<Longrightarrow> bool_metadata key b \<in> set md \<Longrightarrow> parse_bool F file key = Inr b"
  unfolding holds_def bool_metadata_def by (intro read_bool) auto

lemma holds_tensor: "holds F file arrays md \<Longrightarrow> (name, a) \<in> set arrays \<Longrightarrow> file_tensor F file name = Inr a"
  unfolding holds_def by (intro read_tensor) auto

lemma holds_present: "holds F file arrays md \<Longrightarrow> (key, v) \<in> set md \<Longrightarrow> tf_metadata F file key \<noteq> None"
  unfolding holds_def by auto

lemma read_if_holds: "(c \<Longrightarrow> r = Inr a) \<Longrightarrow> read_if c r e = Inr (if c then a else e)"
  by (simp add: read_if_def)

lemma load_linear_saved:
  assumes h: "holds F f (decoder_arrays pfx l) (decoder_metadata pfx l)"
  shows "load_linear F pfx f = Inr (persisted_linear (tf_empty F) (dl_linear_attention l))"
proof -
  let ?g = "dl_linear_attention l"
  have "parse_bool F f (pfx @ ''.linear.initialized'') = Inr (gd_initialized ?g)"
    by (rule holds_bool [OF h]) (simp add: decoder_metadata_def Let_def)
  moreover have "file_tensor F f (pfx @ ''.linear.convolution'') = Inr (gd_convolution ?g)"
    "file_tensor F f (pfx @ ''.linear.recurrent'') = Inr (gd_recurrent ?g)" if "gd_initialized ?g"
    by (rule holds_tensor [OF h], use that in \<open>simp add: decoder_arrays_def Let_def\<close>)+
  ultimately show ?thesis by (simp add: load_linear_def persisted_linear_def read_if_def)
qed

lemma load_ple_saved:
  assumes h: "holds F f (decoder_arrays pfx l) (decoder_metadata pfx l)" and ok: "layer_ok l"
  shows "load_ple F pfx f = Inr (persisted_ple (tf_empty F) (dl_ple l))"
proof -
  let ?p = "dl_ple l" and ?n = "ple_ngram (dl_ple l)"
  have bools: "parse_bool F f (pfx @ ''.ple.ngram.initialized'') = Inr (ng_initialized ?n)"
    "parse_bool F f (pfx @ ''.ple.convolution_initialized'') = Inr (ple_convolution_initialized ?p)"
    by (rule holds_bool [OF h], simp add: decoder_metadata_def Let_def)+
  have word: "unat w \<le> 4294967295" for w :: u32
    using unsigned_less [of w, where ?'a = nat] by simp
  then have small: "unat w \<le> SIZE_MAX" for w :: u32
    by (rule order_trans) (simp add: SIZE_MAX_def)
  have sizes: "parse_size F f (pfx @ ''.ple.ngram.previous0'') = Inr (unat (ng_previous0 ?n))"
    "parse_size F f (pfx @ ''.ple.ngram.previous1'') = Inr (unat (ng_previous1 ?n))"
    by (rule holds_size [OF h _ small], simp add: decoder_metadata_def Let_def)+
  have seg: "parse_size F f (pfx @ ''.ple.ngram.segment_length'') = Inr (ng_segment_length ?n)"
    by (rule holds_size [OF h]) (use ok in \<open>simp_all add: decoder_metadata_def layer_ok_def Let_def\<close>)
  have conv: "file_tensor F f (pfx @ ''.ple.convolution'') = Inr (ple_convolution ?p)" if "ple_convolution_initialized ?p"
    by (rule holds_tensor [OF h]) (use that in \<open>simp add: decoder_arrays_def Let_def\<close>)
  show ?thesis
    using word [of "ng_previous0 ?n"] word [of "ng_previous1 ?n"] conv
    by (simp add: load_ple_def bools sizes seg persisted_ple_def read_if_def not_less)
qed

lemma load_attention_saved:
  assumes h: "holds F f (decoder_arrays pfx l) (decoder_metadata pfx l)" and ok: "layer_ok l"
  shows "load_attention F pfx f = Inr (persisted_attention (tf_empty F) (dl_full_attention l))"
proof -
  let ?a = "dl_full_attention l"
  note ok' = ok [unfolded layer_ok_def Let_def]
  have sizes: "parse_size F f (pfx @ ''.attention.token_count'') = Inr (sa_token_count ?a)"
    "parse_size F f (pfx @ ''.attention.position_base'') = Inr (sa_position_base ?a)"
    "parse_size F f (pfx @ ''.attention.qsa_raw_start'') = Inr (sa_qsa_raw_start ?a)"
    "parse_size F f (pfx @ ''.attention.qsa_pooled_count'') = Inr (sa_qsa_pooled_count ?a)"
    "parse_size F f (pfx @ ''.attention.kv_q8_cold_tokens'') = Inr (sa_kv_q8_cold_tokens ?a)"
    by (rule holds_size [OF h], simp add: decoder_metadata_def Let_def, use ok' in simp)+
  have q8: "parse_bool F f (pfx @ ''.attention.kv_q8'') = Inr (sa_kv_q8 ?a)"
    by (rule holds_bool [OF h]) (simp add: decoder_metadata_def Let_def)
  have present: "tf_metadata F f (pfx @ ''.attention.kv_q8'') \<noteq> None"
    "tf_metadata F f (pfx @ ''.attention.qsa_raw_start'') \<noteq> None"
    "tf_metadata F f (pfx @ ''.attention.kv_q8_cold_tokens'') \<noteq> None"
    by (rule holds_present [OF h], simp add: decoder_metadata_def size_metadata_def bool_metadata_def Let_def)+
  let ?p = "sa_token_count ?a \<noteq> 0" and ?x = "sa_token_count ?a \<noteq> 0 \<and> (sa_kv_q8 ?a \<longrightarrow> sa_kv_q8_cold_tokens ?a < sa_token_count ?a)"
  have quant: "file_tensor F f (pfx @ ''.attention.key_weights'') = Inr (sa_key_weights ?a)"
    "file_tensor F f (pfx @ ''.attention.key_scales'') = Inr (sa_key_scales ?a)"
    "file_tensor F f (pfx @ ''.attention.key_biases'') = Inr (sa_key_biases ?a)"
    "file_tensor F f (pfx @ ''.attention.value_weights'') = Inr (sa_value_weights ?a)"
    "file_tensor F f (pfx @ ''.attention.value_scales'') = Inr (sa_value_scales ?a)"
    "file_tensor F f (pfx @ ''.attention.value_biases'') = Inr (sa_value_biases ?a)"
    if "?p \<and> sa_kv_q8 ?a"
    by (rule holds_tensor [OF h], use that in \<open>simp add: decoder_arrays_def Let_def\<close>)+
  have exact: "file_tensor F f (pfx @ ''.attention.keys'') = Inr (sa_keys ?a)"
    "file_tensor F f (pfx @ ''.attention.values'') = Inr (sa_values ?a)" if ?x
    by (rule holds_tensor [OF h], use that in \<open>simp add: decoder_arrays_def Let_def\<close>)+
  have raw: "file_tensor F f (pfx @ ''.attention.qsa_raw_keys'') = Inr (sa_qsa_raw_keys ?a)" if ?p
    by (rule holds_tensor [OF h]) (use that in \<open>simp add: decoder_arrays_def Let_def\<close>)
  have pooled: "file_tensor F f (pfx @ ''.attention.qsa_pooled_keys'') = Inr (sa_qsa_pooled_keys ?a)"
    if "?p \<and> sa_qsa_pooled_count ?a \<noteq> 0"
    by (rule holds_tensor [OF h]) (use that in \<open>simp add: decoder_arrays_def Let_def\<close>)
  have cold: "load_cold_tokens F pfx f w (sa_token_count ?a) = Inr (sa_kv_q8_cold_tokens ?a)" if "?p \<and> sa_kv_q8 ?a" for w
    using ok' that present(3) by (auto simp: load_cold_tokens_def sizes)
  let ?q = "?p \<and> sa_kv_q8 ?a"
  let ?c = "if ?q then sa_kv_q8_cold_tokens ?a else 0"
  let ?y = "?p \<and> (sa_kv_q8 ?a \<longrightarrow> ?c < sa_token_count ?a)"
  have opt: "read_if (tf_metadata F f (pfx @ ''.attention.qsa_raw_start'') \<noteq> None)
      (Inr (sa_qsa_raw_start ?a)) 0 = Inr (sa_qsa_raw_start ?a)"
    "read_if (tf_metadata F f (pfx @ ''.attention.kv_q8'') \<noteq> None)
      (Inr (sa_kv_q8 ?a)) False = Inr (sa_kv_q8 ?a)"
    using present by (simp_all only: read_if_def if_True simp_thms)
  have exact': "?y \<Longrightarrow> file_tensor F f (pfx @ ''.attention.keys'') = Inr (sa_keys ?a)"
    "?y \<Longrightarrow> file_tensor F f (pfx @ ''.attention.values'') = Inr (sa_values ?a)"
    by (rule exact, simp split: if_splits)+
  have reads: "read_if ?q (file_tensor F f (pfx @ ''.attention.key_weights'')) e = Inr (if ?q then sa_key_weights ?a else e)"
    "read_if ?q (file_tensor F f (pfx @ ''.attention.key_scales'')) e = Inr (if ?q then sa_key_scales ?a else e)"
    "read_if ?q (file_tensor F f (pfx @ ''.attention.key_biases'')) e = Inr (if ?q then sa_key_biases ?a else e)"
    "read_if ?q (file_tensor F f (pfx @ ''.attention.value_weights'')) e = Inr (if ?q then sa_value_weights ?a else e)"
    "read_if ?q (file_tensor F f (pfx @ ''.attention.value_scales'')) e = Inr (if ?q then sa_value_scales ?a else e)"
    "read_if ?q (file_tensor F f (pfx @ ''.attention.value_biases'')) e = Inr (if ?q then sa_value_biases ?a else e)"
    "read_if ?q (load_cold_tokens F pfx f w (sa_token_count ?a)) 0 = Inr ?c"
    "read_if ?y (file_tensor F f (pfx @ ''.attention.keys'')) e = Inr (if ?y then sa_keys ?a else e)"
    "read_if ?y (file_tensor F f (pfx @ ''.attention.values'')) e = Inr (if ?y then sa_values ?a else e)"
    "read_if ?p (file_tensor F f (pfx @ ''.attention.qsa_raw_keys'')) e = Inr (if ?p then sa_qsa_raw_keys ?a else e)"
    "read_if (?p \<and> sa_qsa_pooled_count ?a \<noteq> 0) (file_tensor F f (pfx @ ''.attention.qsa_pooled_keys'')) e =
      Inr (if ?p \<and> sa_qsa_pooled_count ?a \<noteq> 0 then sa_qsa_pooled_keys ?a else e)" for e w
    by (rule read_if_holds, (rule quant cold exact' raw pooled; assumption))+
  show ?thesis
    by (simp only: load_attention_def Let_def sizes q8 opt reads res_bind.simps)
      (simp add: persisted_attention_def Let_def)
qed

lemma load_decoder_saved:
  assumes "holds F f (decoder_arrays pfx l) (decoder_metadata pfx l)" and "layer_ok l"
  shows "load_decoder F pfx f = Inr (persisted_layer (tf_empty F) l)"
  using assms by (simp add: load_decoder_def load_linear_saved load_attention_saved load_ple_saved persisted_layer_def)

lemma saved_holds:
  assumes "files_faithful F"
  shows "holds F (tf_save F (state_arrays st) (state_metadata st)) (state_arrays st) (state_metadata st)"
  using assms state_arrays_distinct [of st] state_metadata_distinct [of st] by (auto simp: files_faithful_def holds_def)

lemma u32_le: "unat (w :: u32) \<le> 4294967295"
  using unsigned_less [of w, where ?'a = nat] by simp

lemma u32_le_SIZE_MAX: "unat (w :: u32) \<le> SIZE_MAX"
  by (rule order_trans [OF u32_le]) (simp add: SIZE_MAX_def)

lemma load_layers_saved:
  assumes h: "holds F f (state_arrays st) (state_metadata st)" and ok: "state_ok st"
  shows "res_map (\<lambda>i. load_decoder F (layer_prefix i) f) [0..<length (ds_layers (ps_target st))] =
      Inr (map (persisted_layer (tf_empty F)) (ds_layers (ps_target st)))"
proof -
  let ?ls = "ds_layers (ps_target st)"
  have "load_decoder F (layer_prefix i) f = Inr (persisted_layer (tf_empty F) (?ls ! i))" if "i < length ?ls" for i
  proof (rule load_decoder_saved)
    show "holds F f (decoder_arrays (layer_prefix i) (?ls ! i)) (decoder_metadata (layer_prefix i) (?ls ! i))"
      by (rule holds_subset [OF h]) (use that in \<open>auto simp: state_arrays_def state_metadata_def\<close>)
    show "layer_ok (?ls ! i)" using ok that by (auto simp: state_ok_def)
  qed
  then have "res_map (\<lambda>i. load_decoder F (layer_prefix i) f) [0..<length ?ls] =
      Inr (map (\<lambda>i. persisted_layer (tf_empty F) (?ls ! i)) [0..<length ?ls])"
    by (intro res_map_all_Inr) simp
  also have "map (\<lambda>i. persisted_layer (tf_empty F) (?ls ! i)) [0..<length ?ls] = map (persisted_layer (tf_empty F)) ?ls"
    by (rule nth_equalityI) simp_all
  finally show ?thesis .
qed

lemma load_pending_saved:
  assumes h: "holds F f (state_arrays st) (state_metadata st)" and ok: "state_ok st"
  shows "res_map (load_pending F f) [0..<length (ps_pending_mtp_streams st)] =
      Inr (zip (ps_pending_mtp_streams st) (ps_pending_mtp_tokens st))"
proof -
  let ?xs = "ps_pending_mtp_streams st" and ?ts = "ps_pending_mtp_tokens st"
  have "load_pending F f i = Inr (?xs ! i, ?ts ! i)" if "i < length ?xs" for i
  proof -
    have "file_tensor F f (''pending_mtp.stream.'' @ show_nat i) = Inr (?xs ! i)"
      by (rule holds_tensor [OF h]) (use that in \<open>auto simp: state_arrays_def\<close>)
    moreover have "parse_size F f (''pending_mtp.token.'' @ show_nat i) = Inr (unat (?ts ! i))"
      by (rule holds_size [OF h _ u32_le_SIZE_MAX]) (use that in \<open>auto simp: state_metadata_def\<close>)
    ultimately show ?thesis using u32_le [of "?ts ! i"] by (simp add: load_pending_def not_less)
  qed
  then have "res_map (load_pending F f) [0..<length ?xs] = Inr (map (\<lambda>i. (?xs ! i, ?ts ! i)) [0..<length ?xs])"
    by (intro res_map_all_Inr) simp
  also have "map (\<lambda>i. (?xs ! i, ?ts ! i)) [0..<length ?xs] = zip ?xs ?ts"
    using ok by (intro nth_equalityI) (simp_all add: state_ok_def)
  finally show ?thesis .
qed

lemma load_saved:
  assumes h: "holds F f (state_arrays st) (state_metadata st)" and ok: "state_ok st"
  shows "load_prefix_state F f (length (ds_layers (ps_target st))) = Inr (persisted (tf_empty F) st)"
proof -
  note ok' = ok [unfolded state_ok_def]
  have fmt: "required_metadata F f ''format'' = Inr ''qwen38-prefix-state-v1''"
    using h by (simp add: holds_def state_metadata_def required_metadata_def)
  have sizes: "parse_size F f ''target.layer_count'' = Inr (length (ds_layers (ps_target st)))"
    "parse_size F f ''target.token_count'' = Inr (ds_token_count (ps_target st))"
    "parse_size F f ''mtp.row_count'' = Inr (ms_row_count (ps_mtp st))"
    "parse_size F f ''pending_mtp.count'' = Inr (length (ps_pending_mtp_streams st))"
    by (rule holds_size [OF h], simp add: state_metadata_def, use ok' in simp)+
  have base: "parse_size F f ''mtp.position_base'' = Inr b" if "ms_position_base (ps_mtp st) = Some b" for b
    by (rule holds_size [OF h]) (use ok' that in \<open>simp_all add: state_metadata_def\<close>)
  have prof: "parse_size F f ''mtp.profitable'' = Inr (profitability_code (ps_mtp_profitable st))"
    by (rule holds_size [OF h])
      (auto simp: state_metadata_def profitability_code_def SIZE_MAX_def split: option.splits bool.splits)
  have tok: "parse_size F f ''mtp.profitability_token'' = Inr (unat t)" if "ps_mtp_profitability_current_token st = Some t" for t
    by (rule holds_size [OF h _ u32_le_SIZE_MAX]) (use that in \<open>simp add: state_metadata_def\<close>)
  have bools: "parse_bool F f ''mtp.position_base.present'' = Inr (ms_position_base (ps_mtp st) \<noteq> None)"
    "parse_bool F f ''previous_target_stream.present'' = Inr (ps_previous_target_stream st \<noteq> None)"
    "parse_bool F f ''mtp.profitability_token.present'' = Inr (ps_mtp_profitability_current_token st \<noteq> None)"
    "parse_bool F f ''mtp.cumulative_profitability_keep'' = Inr (ps_mtp_cumulative_profitability_keep st)"
    by (rule holds_bool [OF h], simp add: state_metadata_def)+
  have stream: "file_tensor F f ''previous_target_stream'' = Inr a" if "ps_previous_target_stream st = Some a" for a
    by (rule holds_tensor [OF h]) (use that in \<open>simp add: state_arrays_def\<close>)
  have mtp: "load_decoder F ''mtp.layer'' f = Inr (persisted_layer (tf_empty F) (ms_layer (ps_mtp st)))"
  proof (rule load_decoder_saved)
    show "holds F f (decoder_arrays ''mtp.layer'' (ms_layer (ps_mtp st))) (decoder_metadata ''mtp.layer'' (ms_layer (ps_mtp st)))"
      by (rule holds_subset [OF h]) (auto simp: state_arrays_def state_metadata_def)
  qed (use ok' in simp)
  have base': "(if ms_position_base (ps_mtp st) \<noteq> None then res_bind (parse_size F f ''mtp.position_base'') (\<lambda>b. Inr (Some b))
      else Inr None) = Inr (ms_position_base (ps_mtp st))"
    using base by (cases "ms_position_base (ps_mtp st)") simp_all
  have stream': "(if ps_previous_target_stream st \<noteq> None then res_bind (file_tensor F f ''previous_target_stream'') (\<lambda>a. Inr (Some a))
      else Inr None) = Inr (ps_previous_target_stream st)"
    using stream by (cases "ps_previous_target_stream st") simp_all
  have tok': "load_profitability_token F f = Inr (ps_mtp_profitability_current_token st)"
    using tok u32_le by (cases "ps_mtp_profitability_current_token st") (simp_all add: load_profitability_token_def bools not_less)
  have code: "\<not> profitability_code (ps_mtp_profitable st) > 2"
    "(if profitability_code (ps_mtp_profitable st) < 2 then Some (profitability_code (ps_mtp_profitable st) = 1) else None) =
      ps_mtp_profitable st"
    by (auto simp: profitability_code_def split: option.splits bool.splits)
  have zips: "map fst (zip (ps_pending_mtp_streams st) (ps_pending_mtp_tokens st)) = ps_pending_mtp_streams st"
    "map snd (zip (ps_pending_mtp_streams st) (ps_pending_mtp_tokens st)) = ps_pending_mtp_tokens st"
    using ok' by simp_all
  show ?thesis
    by (simp only: load_prefix_state_def fmt sizes bools prof mtp base' stream' tok' code zips res_bind.simps simp_thms if_False
        load_layers_saved [OF h ok] load_pending_saved [OF h ok])
      (simp add: persisted_def)
qed

lemma decoder_arrays_persisted: "decoder_arrays pfx (persisted_layer e l) = decoder_arrays pfx l"
  by (simp add: decoder_arrays_def persisted_layer_def persisted_linear_def persisted_attention_def persisted_ple_def Let_def)

lemma persisted_layer_idem: "persisted_layer e (persisted_layer e l) = persisted_layer e l"
  by (simp add: persisted_layer_def persisted_linear_def persisted_attention_def persisted_ple_def Let_def)

lemma persisted_idem: "persisted e (persisted e st) = persisted e st"
  by (simp add: persisted_def persisted_layer_idem comp_def)

lemma state_arrays_persisted: "state_arrays (persisted e st) = state_arrays st"
  by (auto simp: state_arrays_def persisted_def decoder_arrays_persisted intro!: arg_cong [where f = concat])

text \<open>A file library that keeps both lists and looks names up in them.\<close>

definition list_files :: "'a \<Rightarrow> ('a, 'a named_arrays \<times> metadata) tensor_files" where
  "list_files e = \<lparr>tf_save = Pair, tf_tensor = (\<lambda>f name. map_of (fst f) name), tf_metadata = (\<lambda>f key. map_of (snd f) key),
     tf_dim2 = (\<lambda>_. 0), tf_empty = e\<rparr>"

lemma list_files_faithful: "files_faithful (list_files e)"
  by (auto simp: files_faithful_def list_files_def map_of_is_SomeI)

text \<open>C31. Saving the decode state of a prefix and loading the file gives back the same state, for the
  model that saved it: every layer's recurrent, attention and n-gram state, the draft head's
  state, the pending rows and the profitability record. Only arrays that the counters declare
  absent and the rollback data come back empty, and none of them is in the file: the arrays
  written for the loaded state are the ones written before.
\<close>

theorem prefix_state_round_trip:
  assumes "files_faithful F" and "state_ok st"
  shows "\<exists>f. save_prefix_state F st = Inr f \<and>
      load_prefix_state F f (length (ds_layers (ps_target st))) = Inr (persisted (tf_empty F) st) \<and>
      state_arrays (persisted (tf_empty F) st) = state_arrays st"
  using load_saved [OF saved_holds [OF assms(1)] assms(2)] assms(2)
  by (auto simp: save_prefix_state_def state_ok_def state_arrays_persisted)

definition example_layer :: "(nat \<Rightarrow> 'a) \<Rightarrow> 'a DecoderLayerState" where
  "example_layer a =
     \<lparr>dl_linear_attention = \<lparr>gd_convolution = a 1, gd_recurrent = a 2, gd_rollback_key = a 3, gd_rollback_value = a 4,
        gd_rollback_decay = a 5, gd_rollback_beta = a 6, gd_rollback_rows = 2, gd_initialized = True\<rparr>,
      dl_full_attention = \<lparr>sa_keys = a 7, sa_values = a 8, sa_key_weights = a 9, sa_key_scales = a 10, sa_key_biases = a 11,
        sa_value_weights = a 12, sa_value_scales = a 13, sa_value_biases = a 14, sa_kv_q8 = True, sa_kv_q8_cold_tokens = 3,
        sa_qsa_raw_keys = a 15, sa_qsa_raw_start = 1, sa_qsa_pooled_keys = a 16, sa_qsa_pooled_count = 1,
        sa_token_count = 4, sa_position_base = 0\<rparr>,
      dl_ple = \<lparr>ple_ngram = \<lparr>ng_previous0 = 17, ng_previous1 = 18, ng_segment_length = 2, ng_initialized = True\<rparr>,
        ple_convolution = a 19, ple_convolution_initialized = True\<rparr>\<rparr>"

definition example_state :: "(nat \<Rightarrow> 'a) \<Rightarrow> 'a PersistedPrefixState" where
  "example_state a =
     \<lparr>ps_target = \<lparr>ds_layers = [example_layer a, example_layer a], ds_token_count = 4\<rparr>,
      ps_mtp = \<lparr>ms_layer = example_layer a, ms_row_count = 3, ms_position_base = Some 1\<rparr>,
      ps_previous_target_stream = Some (a 20), ps_pending_mtp_streams = [a 21], ps_pending_mtp_tokens = [22],
      ps_mtp_profitable = Some True, ps_mtp_profitability_current_token = Some 23,
      ps_mtp_cumulative_profitability_keep = True\<rparr>"

lemma list_files_simps: "tf_empty (list_files e) = e"
  by (simp add: list_files_def)

lemma example_state_layers: "length (ds_layers (ps_target (example_state a))) = 2"
  by (simp add: example_state_def)

lemma example_state_ok: "state_ok (example_state a)"
  by (simp add: state_ok_def layer_ok_def example_state_def example_layer_def SIZE_MAX_def Let_def)

theorem prefix_state_round_trip_witness:
  "\<exists>f. save_prefix_state (list_files 0) (example_state (\<lambda>n. n)) = Inr f \<and>
      load_prefix_state (list_files 0) f 2 = Inr (persisted 0 (example_state (\<lambda>n. n))) \<and>
      state_arrays (persisted 0 (example_state (\<lambda>n. n))) = state_arrays (example_state (\<lambda>n. n))"
  using prefix_state_round_trip [OF list_files_faithful [of 0] example_state_ok [of "\<lambda>n. n"]]
  unfolding list_files_simps example_state_layers .

end
