(* ===== verification/Prefix_Store.thy ===== *)
theory Prefix_Store
  imports Decode_State_Io "HOL-Library.Multiset"
begin

text \<open>
  \<^verbatim>\<open>prefix_cache_store.cpp\<close>: prefixes and their decode states kept in a directory across runs. A
  directory is the list of its entries in the order a listing returns them; files are byte
  strings, so that the tensor library of theory \<open>Decode_State_Io\<close> is used at byte strings. Every
  write and rename of \<open>save\<close> may fail, or the process may end there.
\<close>

unbundle bit_operations_syntax

type_synonym byte = "8 word"

record cache_file =
  cf_bytes :: "byte list"
  cf_modified :: nat
  cf_regular :: bool

type_synonym directory = "(string \<times> cache_file) list"

record 'a StoredPrefixState =
  sp_tokens :: "u32 list"
  sp_state :: "'a PersistedPrefixState"

subsection \<open>Keys and names\<close>

definition fnv_step :: "u64 \<Rightarrow> u64 \<Rightarrow> u64" where
  "fnv_step hash v = (hash XOR v) * 1099511628211"

definition fnv_token :: "u64 \<Rightarrow> u32 \<Rightarrow> u64" where
  "fnv_token hash token = foldl (\<lambda>h shift. fnv_step h (ucast (ucast (drop_bit shift token) :: byte))) hash [0, 8, 16, 24]"

definition fnv1a_tokens :: "u32 list \<Rightarrow> u64" where
  "fnv1a_tokens tokens = fnv_step (foldl fnv_token 14695981039346656037 tokens) (of_nat (length tokens))"

definition hex_digit :: "nat \<Rightarrow> char" where
  "hex_digit d = (if d < 10 then char_of (48 + d) else char_of (87 + d))"

definition hex16 :: "u64 \<Rightarrow> string" where
  "hex16 h = map (\<lambda>i. hex_digit (unat (drop_bit (4 * (15 - i)) h AND 15))) [0..<16]"

definition cache_key :: "u32 list \<Rightarrow> string" where
  "cache_key tokens = hex16 (fnv1a_tokens tokens) @ CHR ''-'' # show_nat (length tokens)"

definition temporary_path :: "string \<Rightarrow> u64 \<Rightarrow> string \<Rightarrow> string" where
  "temporary_path destination counter sfx = destination @ ''.tmp-'' @ show_nat (unat counter) @ sfx"

text \<open>\<open>std::filesystem::path::extension\<close> and \<open>stem\<close> of a file name.\<close>

definition extension :: "string \<Rightarrow> string" where
  "extension name =
     (let tail = takeWhile (\<lambda>c. c \<noteq> CHR ''.'') (rev name); rest = drop (length tail) (rev name) in
      if length rest \<le> 1 \<or> name = ''..'' then '''' else CHR ''.'' # rev tail)"

definition stem :: "string \<Rightarrow> string" where
  "stem name = take (length name - length (extension name)) name"

definition contains :: "string \<Rightarrow> string \<Rightarrow> bool" where
  "contains needle hay = (\<exists>i \<in> {0..length hay}. take (length needle) (drop i hay) = needle)"

definition recognized_cache_file :: "string \<Rightarrow> string \<Rightarrow> bool" where
  "recognized_cache_file directory name \<longleftrightarrow>
     extension name = ''.tokens'' \<or> extension name = ''.safetensors'' \<or> contains ''.tmp-'' (directory @ ''/'' @ name)"

subsection \<open>Token files\<close>

fun little_endian :: "nat \<Rightarrow> nat \<Rightarrow> byte list" where
  "little_endian 0 v = []"
| "little_endian (Suc n) v = of_nat v # little_endian n (v div 256)"

fun little_endian_value :: "byte list \<Rightarrow> nat" where
  "little_endian_value [] = 0"
| "little_endian_value (b # bs) = unat b + 256 * little_endian_value bs"

definition token_magic :: "byte list" where
  "token_magic = map (\<lambda>c. of_nat (of_char c)) ''Q38PFX1'' @ [0]"

definition token_header_bytes :: nat where
  "token_header_bytes = length token_magic + 8"

definition write_tokens :: "u32 list \<Rightarrow> byte list" where
  "write_tokens tokens = token_magic @ little_endian 8 (length tokens) @ concat (map (\<lambda>t. little_endian 4 (unat t)) tokens)"

fun read_words :: "nat \<Rightarrow> byte list \<Rightarrow> u32 list" where
  "read_words 0 bs = []"
| "read_words (Suc n) bs = of_nat (little_endian_value (take 4 bs)) # read_words n (drop 4 bs)"

definition read_tokens :: "byte list \<Rightarrow> nat \<Rightarrow> u32 list option" where
  "read_tokens bytes maximum_count =
     (let count = little_endian_value (take 8 (drop 8 bytes)) in
      if length bytes < 16 \<or> take 8 bytes \<noteq> token_magic \<or> count > maximum_count then None
      else if length bytes \<noteq> (token_header_bytes + count * 4) mod 2 ^ 64 then None
      else if length bytes < token_header_bytes + count * 4 then None
      else Some (read_words count (drop 16 bytes)))"

subsection \<open>The directory\<close>

definition is_regular_file :: "directory \<Rightarrow> string \<Rightarrow> bool" where
  "is_regular_file dir name = (case map_of dir name of None \<Rightarrow> False | Some f \<Rightarrow> cf_regular f)"

definition remove_file :: "string \<Rightarrow> directory \<Rightarrow> directory" where
  "remove_file name dir = filter (\<lambda>(n, _). n \<noteq> name) dir"

definition write_file :: "nat \<Rightarrow> string \<Rightarrow> byte list \<Rightarrow> directory \<Rightarrow> directory" where
  "write_file now name bytes dir =
     (name, \<lparr>cf_bytes = bytes, cf_modified = now, cf_regular = True\<rparr>) # remove_file name dir"

definition rename_file :: "string \<Rightarrow> string \<Rightarrow> directory \<Rightarrow> directory" where
  "rename_file old name dir =
     (case map_of dir old of None \<Rightarrow> dir | Some f \<Rightarrow> (name, f) # remove_file name (remove_file old dir))"

definition last_write_time :: "nat \<Rightarrow> string \<Rightarrow> directory \<Rightarrow> directory" where
  "last_write_time now name dir = map (\<lambda>(n, f). (n, if n = name then f\<lparr>cf_modified := now\<rparr> else f)) dir"

definition state_name :: "string \<Rightarrow> string" where
  "state_name token_name = stem token_name @ ''.safetensors''"

definition is_token_entry :: "directory \<Rightarrow> string \<times> cache_file \<Rightarrow> bool" where
  "is_token_entry dir e \<longleftrightarrow>
     cf_regular (snd e) \<and> extension (fst e) = ''.tokens'' \<and> is_regular_file dir (state_name (fst e))"

definition prefix_cache_store :: "string \<Rightarrow> nat \<Rightarrow> nat \<Rightarrow> (string \<times> nat \<times> nat) result" where
  "prefix_cache_store directory max_bytes model_layer_count =
     (if directory = [] then Inl (RuntimeError ''prefix cache directory is empty'')
      else if max_bytes = 0 then Inl (RuntimeError ''prefix cache size must be positive'')
      else if model_layer_count = 0 then Inl (RuntimeError ''model layer count must be positive'')
      else Inr (directory, max_bytes, model_layer_count))"

subsection \<open>Loading\<close>

definition consider_entry ::
    "directory \<Rightarrow> u32 list \<Rightarrow> u32 list \<times> string \<Rightarrow> string \<times> cache_file \<Rightarrow> u32 list \<times> string" where
  "consider_entry dir prompt best e =
     (if \<not> is_token_entry dir e then best
      else
        case read_tokens (cf_bytes (snd e)) (length prompt) of
          None \<Rightarrow> best
        | Some c \<Rightarrow> if length c \<le> length (fst best) \<or> c \<noteq> take (length c) prompt then best else (c, fst e))"

definition load_longest ::
    "('a, byte list) tensor_files \<Rightarrow> nat \<Rightarrow> nat \<Rightarrow> directory \<Rightarrow> u32 list \<Rightarrow> directory \<times> 'a StoredPrefixState option" where
  "load_longest F model_layer_count now dir prompt_tokens =
     (let best = foldl (consider_entry dir prompt_tokens) ([], '''') dir; tokens = fst best; token_path = snd best in
      if tokens = [] then (dir, None)
      else
        case map_of dir (state_name token_path) of
          None \<Rightarrow> (dir, None)
        | Some f \<Rightarrow>
            (case load_prefix_state F (cf_bytes f) model_layer_count of
               Inl _ \<Rightarrow> (dir, None)
             | Inr state \<Rightarrow>
                 if ds_token_count (ps_target state) \<noteq> length tokens then (dir, None)
                 else (last_write_time now (state_name token_path) (last_write_time now token_path dir),
                       Some \<lparr>sp_tokens = tokens, sp_state = state\<rparr>)))"

subsection \<open>Eviction and clearing\<close>

record Entry =
  en_token_path :: string
  en_state_path :: string
  en_modified :: nat
  en_bytes :: nat

definition file_size :: "directory \<Rightarrow> string \<Rightarrow> nat" where
  "file_size dir name = (case map_of dir name of None \<Rightarrow> 0 | Some f \<Rightarrow> length (cf_bytes f))"

definition collect_entries :: "directory \<Rightarrow> Entry list" where
  "collect_entries dir =
     map (\<lambda>(name, f). \<lparr>en_token_path = name, en_state_path = state_name name, en_modified = cf_modified f,
            en_bytes = length (cf_bytes f) + file_size dir (state_name name)\<rparr>)
       (filter (is_token_entry dir) dir)"

fun evict_entries :: "nat \<Rightarrow> nat \<Rightarrow> Entry list \<Rightarrow> directory \<Rightarrow> directory" where
  "evict_entries max_bytes total_bytes [] dir = dir"
| "evict_entries max_bytes total_bytes (entry # entries) dir =
     (if total_bytes \<le> max_bytes then dir
      else evict_entries max_bytes (total_bytes - en_bytes entry) entries
             (remove_file (en_state_path entry) (remove_file (en_token_path entry) dir)))"

definition evict_to_limit :: "nat \<Rightarrow> directory \<Rightarrow> directory" where
  "evict_to_limit max_bytes dir =
     (let entries = collect_entries dir in
      evict_entries max_bytes (sum_list (map en_bytes entries)) (sort_key en_modified entries) dir)"

definition clear_store :: "string \<Rightarrow> directory \<Rightarrow> directory" where
  "clear_store directory dir = filter (\<lambda>(name, f). \<not> (cf_regular f \<and> recognized_cache_file directory name)) dir"

subsection \<open>Saving\<close>

datatype file_action = WriteFile string "byte list" | RenameFile string string

fun perform_action :: "nat \<Rightarrow> directory \<Rightarrow> file_action \<Rightarrow> directory" where
  "perform_action now dir (WriteFile name bytes) = write_file now name bytes dir"
| "perform_action now dir (RenameFile old name) = rename_file old name dir"

text \<open>
  The file operations of one \<open>save\<close>, in order. The counter is the process-wide
  \<open>temporary_counter\<close>; a call takes two values of it.
\<close>

definition save_actions :: "u64 \<Rightarrow> u32 list \<Rightarrow> byte list \<Rightarrow> file_action list" where
  "save_actions counter tokens state_bytes =
     (let token_path = cache_key tokens @ ''.tokens''; state_path = cache_key tokens @ ''.safetensors'';
          temporary_tokens = temporary_path token_path counter ''.tokens'';
          temporary_state = temporary_path state_path (counter + 1) ''.safetensors'' in
      [WriteFile temporary_state state_bytes, WriteFile temporary_tokens (write_tokens tokens),
       RenameFile temporary_state state_path, RenameFile temporary_tokens token_path])"

definition remove_temporaries :: "u64 \<Rightarrow> u32 list \<Rightarrow> directory \<Rightarrow> directory" where
  "remove_temporaries counter tokens dir =
     remove_file (temporary_path (cache_key tokens @ ''.safetensors'') (counter + 1) ''.safetensors'')
       (remove_file (temporary_path (cache_key tokens @ ''.tokens'') counter ''.tokens'') dir)"

text \<open>
  \<open>fault\<close> is the file operation that throws, if one does, with its error: the operations before
  it have happened, the temporaries are removed and the error leaves \<open>save\<close>.
\<close>

definition store_save ::
    "('a, byte list) tensor_files \<Rightarrow> nat \<Rightarrow> nat \<Rightarrow> u64 \<Rightarrow> nat \<Rightarrow> (nat \<times> error) option \<Rightarrow> directory \<Rightarrow> u32 list \<Rightarrow>
       'a PersistedPrefixState \<Rightarrow> directory \<times> bool result" where
  "store_save F model_layer_count max_bytes counter now fault dir tokens state =
     (if tokens = [] then (dir, Inr False)
      else if ds_token_count (ps_target state) \<noteq> length tokens \<or> length (ds_layers (ps_target state)) \<noteq> model_layer_count
      then (dir, Inl (RuntimeError ''prefix token/state timeline mismatch''))
      else
        case save_prefix_state F state of
          Inl e \<Rightarrow> (remove_temporaries counter tokens dir, Inl e)
        | Inr bytes \<Rightarrow>
            (let actions = save_actions counter tokens bytes in
             case fault of
               Some (k, e) \<Rightarrow> (remove_temporaries counter tokens (foldl (perform_action now) dir (take k actions)), Inl e)
             | None \<Rightarrow>
                 (let dir' = evict_to_limit max_bytes (foldl (perform_action now) dir actions) in
                  (dir', Inr (is_regular_file dir' (cache_key tokens @ ''.tokens'') \<and>
                              is_regular_file dir' (cache_key tokens @ ''.safetensors''))))))"

text \<open>The directory a process leaves when it ends during operation \<open>k\<close>, a write perhaps in part.\<close>

definition torn_action :: "byte list \<Rightarrow> file_action \<Rightarrow> file_action list" where
  "torn_action junk a = (case a of WriteFile name _ \<Rightarrow> [WriteFile name junk] | RenameFile _ _ \<Rightarrow> [])"

definition crashed_save :: "u64 \<Rightarrow> nat \<Rightarrow> nat \<Rightarrow> byte list \<Rightarrow> directory \<Rightarrow> u32 list \<Rightarrow> byte list \<Rightarrow> directory" where
  "crashed_save counter now k junk dir tokens state_bytes =
     (let actions = save_actions counter tokens state_bytes in
      foldl (perform_action now) dir (take k actions @ concat (map (torn_action junk) (take 1 (drop k actions)))))"

subsection \<open>Token files read back\<close>

lemma little_endian_length [simp]: "length (little_endian n v) = n"
  by (induction n v rule: little_endian.induct) simp_all

lemma little_endian_value_bytes: "little_endian_value (little_endian n v) = v mod 256 ^ n"
proof (induction n v rule: little_endian.induct)
  case (2 n v)
  have "unat (of_nat v :: byte) = v mod 256" by (simp add: unsigned_of_nat take_bit_eq_mod)
  then show ?case using 2 by (simp add: mod_mult2_eq)
qed simp

lemma token_magic_length [simp]: "length token_magic = 8"
  by (simp add: token_magic_def)

lemma read_words_write: "read_words (length ts) (concat (map (\<lambda>t. little_endian 4 (unat t)) ts)) = ts"
proof (induction ts)
  case (Cons t ts)
  have "unat t < 256 ^ 4" using unsigned_less [of t, where ?'a = nat] by simp
  then show ?case using Cons by (simp add: little_endian_value_bytes)
qed simp

lemma token_payload_length [simp]: "length (concat (map (\<lambda>t. little_endian 4 (unat t)) ts)) = 4 * length ts"
  by (induction ts) simp_all

lemma write_tokens_length: "length (write_tokens ts) = 16 + 4 * length ts"
  by (simp add: write_tokens_def del: length_concat)

lemma read_write_tokens:
  assumes "16 + 4 * length ts < 2 ^ 64"
  shows "read_tokens (write_tokens ts) n = (if length ts \<le> n then Some ts else None)"
proof -
  have count: "little_endian_value (take 8 (drop 8 (write_tokens ts))) = length ts"
    using assms by (simp add: write_tokens_def little_endian_value_bytes del: length_concat)
  have magic: "take 8 (write_tokens ts) = token_magic" by (simp add: write_tokens_def)
  have payload: "drop 16 (write_tokens ts) = concat (map (\<lambda>t. little_endian 4 (unat t)) ts)" by (simp add: write_tokens_def)
  have size: "(token_header_bytes + length ts * 4) mod 2 ^ 64 = 16 + 4 * length ts"
    using assms by (simp add: token_header_bytes_def)
  show ?thesis
    unfolding read_tokens_def Let_def count magic payload size write_tokens_length read_words_write
    by (simp add: token_header_bytes_def)
qed

subsection \<open>Names\<close>

lemma stem_extension: "name = stem name @ extension name"
proof -
  let ?t = "takeWhile (\<lambda>c. c \<noteq> CHR ''.'') (rev name)" and ?r = "dropWhile (\<lambda>c. c \<noteq> CHR ''.'') (rev name)"
  have drop: "drop (length ?t) (rev name) = ?r" by (metis dropWhile_eq_drop)
  have rn: "rev name = ?t @ ?r" by simp
  show ?thesis
  proof (cases "length ?r \<le> 1 \<or> name = ''..''")
    case True
    then have "extension name = ''''" by (simp only: extension_def Let_def drop if_True)
    then show ?thesis by (simp add: stem_def)
  next
    case False
    then obtain r where r: "?r = CHR ''.'' # r" by (cases ?r) (use hd_dropWhile [of "\<lambda>c. c \<noteq> CHR ''.''" "rev name"] in auto)
    have "name = rev ?r @ rev ?t" by (metis rn rev_append rev_rev_ident)
    then have n: "name = rev r @ CHR ''.'' # rev ?t" using r by simp
    have e: "extension name = CHR ''.'' # rev ?t" using False by (simp only: extension_def Let_def drop if_False)
    have "stem name = rev r" unfolding stem_def e by (subst (1 2) n) simp
    then show ?thesis using n e by simp
  qed
qed

lemma extension_append:
  assumes "x \<noteq> []" and "CHR ''.'' \<notin> set e" and "e \<noteq> []"
  shows "extension (x @ CHR ''.'' # e) = CHR ''.'' # e" "stem (x @ CHR ''.'' # e) = x"
proof -
  have "takeWhile (\<lambda>c. c \<noteq> CHR ''.'') (rev e @ CHR ''.'' # rev x) = rev e"
    using assms(2) by (subst takeWhile_append2) auto
  moreover have "x @ CHR ''.'' # e \<noteq> ''..''" using assms by (cases x; cases e) auto
  ultimately show e: "extension (x @ CHR ''.'' # e) = CHR ''.'' # e"
    using assms(1) by (simp add: extension_def Let_def Suc_le_eq)
  show "stem (x @ CHR ''.'' # e) = x" using stem_extension [of "x @ CHR ''.'' # e"] unfolding e by simp
qed

lemma cache_key_chars: "CHR ''.'' \<notin> set (cache_key ts)" "cache_key ts \<noteq> []"
proof -
  have hex: "hex_digit d \<noteq> CHR ''.''" if "d \<le> 15" for d
  proof
    assume "hex_digit d = CHR ''.''"
    then have "of_char (hex_digit d) = (46 :: nat)" by simp
    then show False using that by (auto simp: hex_digit_def split: if_splits)
  qed
  have "unat (w AND 15 :: u64) \<le> 15" for w
    using word_and_le1 [of w 15] by (simp add: word_le_nat_alt)
  then have "hex_digit (unat (w AND 15 :: u64)) \<noteq> CHR ''.''" for w by (rule hex)
  from this [symmetric] have "CHR ''.'' \<notin> set (hex16 h)" for h unfolding hex16_def set_map image_iff by blast
  moreover have "CHR ''.'' \<notin> set (show_nat n)" for n
    using show_nat_digits [of "CHR ''.''" n] by (auto simp: is_digit_char_def)
  ultimately show "CHR ''.'' \<notin> set (cache_key ts)" by (simp add: cache_key_def)
  show "cache_key ts \<noteq> []" by (simp add: cache_key_def)
qed

lemma cache_key_length: "cache_key ts = cache_key us \<Longrightarrow> length ts = length us"
  by (drule arg_cong [where f = "drop 17"]) (simp add: cache_key_def hex16_def)

subsection \<open>Directories\<close>

lemma map_of_remove_file [simp]: "map_of (remove_file name dir) n = (if n = name then None else map_of dir n)"
  by (induction dir) (auto simp: remove_file_def)

lemma set_remove_file: "set (remove_file name dir) = {e \<in> set dir. fst e \<noteq> name}"
  by (auto simp: remove_file_def)

lemma names_remove_file: "distinct (map fst dir) \<Longrightarrow> distinct (map fst (remove_file name dir))"
  by (induction dir) (auto simp: remove_file_def)

lemma names_last_write_time: "map fst (last_write_time now name dir) = map fst dir"
  by (auto simp: last_write_time_def)

lemma entry_lookup: "distinct (map fst dir) \<Longrightarrow> (name, f) \<in> set dir \<longleftrightarrow> map_of dir name = Some f"
  by (meson map_of_SomeD map_of_is_SomeI)

lemma names_rename_file:
  "distinct (map fst dir) \<Longrightarrow> distinct (map fst (rename_file old name dir))"
  by (auto simp: rename_file_def set_remove_file names_remove_file split: option.split)

subsection \<open>What a cache directory holds\<close>

text \<open>
  Every pair of a prefix and a state that was ever handed to \<open>save\<close> is in \<open>S\<close>. A file is the token
  file of one of the prefixes, the state file of one of the states, or a temporary.
\<close>

definition saved_ok :: "nat \<Rightarrow> u32 list \<Rightarrow> 'a PersistedPrefixState \<Rightarrow> bool" where
  "saved_ok n ts st \<longleftrightarrow>
     ts \<noteq> [] \<and> 16 + 4 * length ts < 2 ^ 64 \<and> ds_token_count (ps_target st) = length ts \<and>
     length (ds_layers (ps_target st)) = n \<and> state_ok st"

definition file_ok ::
    "('a, byte list) tensor_files \<Rightarrow> (u32 list \<times> 'a PersistedPrefixState) set \<Rightarrow> string \<Rightarrow> cache_file \<Rightarrow> bool" where
  "file_ok F S name file \<longleftrightarrow>
     cf_regular file \<and>
     ((\<exists>ts st. (ts, st) \<in> S \<and> name = cache_key ts @ ''.tokens'' \<and> cf_bytes file = write_tokens ts) \<or>
      (\<exists>ts st. (ts, st) \<in> S \<and> name = cache_key ts @ ''.safetensors'' \<and> save_prefix_state F st = Inr (cf_bytes file)) \<or>
      (\<exists>ts c. name = temporary_path (cache_key ts @ ''.tokens'') c ''.tokens'') \<or>
      (\<exists>ts c. name = temporary_path (cache_key ts @ ''.safetensors'') c ''.safetensors''))"

definition store_inv ::
    "('a, byte list) tensor_files \<Rightarrow> nat \<Rightarrow> directory \<Rightarrow> (u32 list \<times> 'a PersistedPrefixState) set \<Rightarrow> bool" where
  "store_inv F n dir S \<longleftrightarrow>
     distinct (map fst dir) \<and> (\<forall>e \<in> set dir. file_ok F S (fst e) (snd e)) \<and> (\<forall>s \<in> S. saved_ok n (fst s) (snd s))"

inductive store_reachable ::
    "('a, byte list) tensor_files \<Rightarrow> nat \<Rightarrow> directory \<Rightarrow> (u32 list \<times> 'a PersistedPrefixState) set \<Rightarrow> bool"
  for F n where
  start: "store_reachable F n [] {}"
| saved: "store_reachable F n dir S \<Longrightarrow> saved_ok n ts st \<Longrightarrow>
    store_reachable F n (fst (store_save F n max_bytes counter now fault dir ts st)) (insert (ts, st) S)"
| crashed: "store_reachable F n dir S \<Longrightarrow> saved_ok n ts st \<Longrightarrow> save_prefix_state F st = Inr bytes \<Longrightarrow>
    store_reachable F n (crashed_save counter now k junk dir ts bytes) (insert (ts, st) S)"
| loaded: "store_reachable F n dir S \<Longrightarrow> store_reachable F n (fst (load_longest F n now dir prompt)) S"
| cleared: "store_reachable F n dir S \<Longrightarrow> store_reachable F n (clear_store directory dir) S"
| listed: "store_reachable F n dir S \<Longrightarrow> mset dir' = mset dir \<Longrightarrow> store_reachable F n dir' S"

lemma inv_filter: "store_inv F n dir S \<Longrightarrow> store_inv F n (filter P dir) S"
  by (auto simp: store_inv_def distinct_map_filter)

lemma inv_remove: "store_inv F n dir S \<Longrightarrow> store_inv F n (remove_file name dir) S"
  unfolding remove_file_def by (rule inv_filter)

lemma inv_add: "store_inv F n dir S \<Longrightarrow> file_ok F S name f \<Longrightarrow> store_inv F n ((name, f) # remove_file name dir) S"
  using inv_remove [of F n dir S name] by (auto simp: store_inv_def set_remove_file)

lemma inv_rename:
  "store_inv F n dir S \<Longrightarrow> map_of dir old = Some f \<Longrightarrow> file_ok F S name f \<Longrightarrow> store_inv F n (rename_file old name dir) S"
  by (simp add: rename_file_def inv_add inv_remove)

lemma file_ok_touch: "file_ok F S name (f\<lparr>cf_modified := m\<rparr>) \<longleftrightarrow> file_ok F S name f"
  by (simp add: file_ok_def)

lemma file_ok_mono: "file_ok F S name f \<Longrightarrow> S \<subseteq> S' \<Longrightarrow> file_ok F S' name f"
  unfolding file_ok_def by blast

lemma inv_last_write_time: "store_inv F n dir S \<Longrightarrow> store_inv F n (last_write_time now name dir) S"
  by (auto simp: store_inv_def names_last_write_time) (auto simp: last_write_time_def file_ok_touch)

lemma inv_evict: "store_inv F n dir S \<Longrightarrow> store_inv F n (evict_entries m t es dir) S"
  by (induction m t es dir rule: evict_entries.induct) (auto intro: inv_remove)

lemma inv_insert: "store_inv F n dir S \<Longrightarrow> saved_ok n ts st \<Longrightarrow> store_inv F n dir (insert (ts, st) S)"
  unfolding store_inv_def by (auto intro: file_ok_mono [OF _ subset_insertI])

lemma inv_temporaries: "store_inv F n dir S \<Longrightarrow> store_inv F n (remove_temporaries counter ts dir) S"
  by (simp add: remove_temporaries_def inv_remove)

lemma file_ok_temporary:
  "cf_regular f \<Longrightarrow> file_ok F S (temporary_path (cache_key ts @ ''.tokens'') c ''.tokens'') f"
  "cf_regular f \<Longrightarrow> file_ok F S (temporary_path (cache_key ts @ ''.safetensors'') c ''.safetensors'') f"
  by (auto simp: file_ok_def)

lemma inv_write: "store_inv F n dir S \<Longrightarrow> (\<And>m. file_ok F S name \<lparr>cf_bytes = bytes, cf_modified = m, cf_regular = True\<rparr>) \<Longrightarrow>
    store_inv F n (write_file now name bytes dir) S"
  by (simp add: write_file_def inv_add)

lemma temporary_names_differ:
  "temporary_path (cache_key ts @ ''.tokens'') c ''.tokens'' \<noteq> temporary_path (cache_key us @ ''.safetensors'') d ''.safetensors''"
proof
  assume "temporary_path (cache_key ts @ ''.tokens'') c ''.tokens'' = temporary_path (cache_key us @ ''.safetensors'') d ''.safetensors''"
  then have "rev (temporary_path (cache_key ts @ ''.tokens'') c ''.tokens'') =
      rev (temporary_path (cache_key us @ ''.safetensors'') d ''.safetensors'')" by simp
  then show False by (simp add: temporary_path_def)
qed

lemma inv_actions:
  fixes ts :: "u32 list"
  assumes inv: "store_inv F n dir S" and st: "(ts, st) \<in> S" and bytes: "save_prefix_state F st = Inr bytes"
  shows "store_inv F n (foldl (perform_action now) dir (take k (save_actions counter ts bytes))) S"
proof -
  let ?tt = "temporary_path (cache_key ts @ ''.tokens'') counter ''.tokens''"
    and ?ts = "temporary_path (cache_key ts @ ''.safetensors'') (counter + 1) ''.safetensors''"
  let ?d1 = "write_file now ?ts bytes dir"
  let ?d2 = "write_file now ?tt (write_tokens ts) ?d1"
  let ?d3 = "rename_file ?ts (cache_key ts @ ''.safetensors'') ?d2"
  have i1: "store_inv F n ?d1 S" by (rule inv_write [OF inv]) (simp add: file_ok_temporary)
  have i2: "store_inv F n ?d2 S" by (rule inv_write [OF i1]) (simp add: file_ok_temporary)
  have l2: "map_of ?d2 ?ts = Some \<lparr>cf_bytes = bytes, cf_modified = now, cf_regular = True\<rparr>"
    using temporary_names_differ [THEN not_sym] by (simp add: write_file_def)
  have i3: "store_inv F n ?d3 S"
    by (rule inv_rename [OF i2 l2]) (use st bytes in \<open>auto simp: file_ok_def\<close>)
  have "cache_key ts @ ''.safetensors'' \<noteq> ?tt"
  proof
    assume "cache_key ts @ ''.safetensors'' = ?tt"
    from arg_cong [OF this, of rev] show False by (simp add: temporary_path_def)
  qed
  then have l3: "map_of ?d3 ?tt = Some \<lparr>cf_bytes = write_tokens ts, cf_modified = now, cf_regular = True\<rparr>"
    using temporary_names_differ [of ts counter ts "counter + 1"] l2 by (simp add: rename_file_def write_file_def)
  have i4: "store_inv F n (rename_file ?tt (cache_key ts @ ''.tokens'') ?d3) S"
    by (rule inv_rename [OF i3 l3]) (use st in \<open>auto simp: file_ok_def\<close>)
  consider "k = 0" | "k = 1" | "k = 2" | "k = 3" | "4 \<le> k" by linarith
  then show ?thesis
  proof cases
    case 5
    then have "take k (save_actions counter ts bytes) = save_actions counter ts bytes" by (simp add: save_actions_def Let_def)
    then show ?thesis using i4 by (simp add: save_actions_def Let_def)
  qed (use inv i1 i2 i3 in \<open>simp_all add: save_actions_def Let_def numeral_eq_Suc\<close>)
qed

lemma inv_torn:
  assumes "store_inv F n dir S"
  shows "store_inv F n (foldl (perform_action now) dir
    (concat (map (torn_action junk) (take 1 (drop k (save_actions counter ts bytes)))))) S"
proof -
  have w: "store_inv F n (write_file now (temporary_path (cache_key ts @ ''.tokens'') c ''.tokens'') junk dir) S"
    "store_inv F n (write_file now (temporary_path (cache_key ts @ ''.safetensors'') c ''.safetensors'') junk dir) S" for c
    by (rule inv_write [OF assms], simp add: file_ok_temporary)+
  show ?thesis
  proof (cases "k < 4")
    case True
    then consider "k = 0" | "k = 1" | "k = 2" | "k = 3" by linarith
    then show ?thesis
      by cases (use assms w in \<open>simp_all add: save_actions_def torn_action_def Let_def numeral_eq_Suc\<close>)
  qed (use assms in \<open>simp add: save_actions_def Let_def\<close>)
qed

lemma inv_save:
  assumes inv: "store_inv F n dir S" and ok: "saved_ok n ts st"
  shows "store_inv F n (fst (store_save F n max_bytes counter now fault dir ts st)) (insert (ts, st) S)"
proof -
  have i: "store_inv F n dir (insert (ts, st) S)" by (rule inv_insert [OF inv ok])
  note run = inv_actions [OF i insertI1]
  have "store_inv F n (foldl (perform_action now) dir (save_actions counter ts bytes)) (insert (ts, st) S)"
    if "save_prefix_state F st = Inr bytes" for bytes
    using run [OF that, of now 4 counter] by (simp add: save_actions_def Let_def)
  then show ?thesis
    using i run
    by (auto simp: store_save_def Let_def evict_to_limit_def inv_temporaries inv_evict split: sum.splits option.splits)
qed

lemma inv_load: "store_inv F n dir S \<Longrightarrow> store_inv F n (fst (load_longest F n now dir prompt)) S"
  by (auto simp: load_longest_def Let_def inv_last_write_time split: sum.splits option.splits)

lemma reachable_inv: "store_reachable F n dir S \<Longrightarrow> store_inv F n dir S"
proof (induction rule: store_reachable.induct)
  case (crashed dir S ts st bytes counter now k junk)
  then show ?case
    unfolding crashed_save_def Let_def foldl_append by (intro inv_torn inv_actions [OF inv_insert]) auto
next
  case (listed dir S dir')
  then have "set dir' = set dir" "distinct (map fst dir') = distinct (map fst dir)"
    by (metis set_mset_mset, metis mset_eq_imp_distinct_iff mset_map)
  then show ?case using listed by (simp add: store_inv_def)
qed (simp_all add: inv_save inv_load inv_filter clear_store_def store_inv_def [of F n "[]"])

subsection \<open>Complete entries\<close>

text \<open>A prefix with both its files in place.\<close>

definition holds_prefix :: "directory \<Rightarrow> u32 list \<Rightarrow> bool" where
  "holds_prefix dir ts \<longleftrightarrow>
     (case map_of dir (cache_key ts @ ''.tokens'') of
        None \<Rightarrow> False
      | Some f \<Rightarrow> cf_regular f \<and> cf_bytes f = write_tokens ts \<and> is_regular_file dir (cache_key ts @ ''.safetensors''))"

lemma key_names:
  "extension (cache_key ts @ ''.tokens'') = ''.tokens''" "stem (cache_key ts @ ''.tokens'') = cache_key ts"
  "extension (cache_key ts @ ''.safetensors'') = ''.safetensors''" "stem (cache_key ts @ ''.safetensors'') = cache_key ts"
  using extension_append [OF cache_key_chars(2), of "''tokens''"] extension_append [OF cache_key_chars(2), of "''safetensors''"]
  by simp_all

lemma temporary_names:
  "stem (temporary_path (cache_key ts @ ''.tokens'') c ''.tokens'') = cache_key ts @ ''.tokens.tmp-'' @ show_nat (unat c)"
  "extension (temporary_path (cache_key ts @ ''.safetensors'') c ''.safetensors'') = ''.safetensors''"
  "stem (temporary_path (cache_key ts @ ''.safetensors'') c ''.safetensors'') =
     cache_key ts @ ''.safetensors.tmp-'' @ show_nat (unat c)"
  using extension_append [of "cache_key ts @ ''.tokens.tmp-'' @ show_nat (unat c)" "''tokens''"]
    extension_append [of "cache_key ts @ ''.safetensors.tmp-'' @ show_nat (unat c)" "''safetensors''"]
  by (simp_all add: temporary_path_def)

lemma before_dot: "CHR ''.'' \<notin> set x \<Longrightarrow> takeWhile (\<lambda>c. c \<noteq> CHR ''.'') (x @ CHR ''.'' # y) = x"
  by (subst takeWhile_append2) auto

lemma key_stem_differs: "cache_key ts \<noteq> cache_key us @ CHR ''.'' # y"
  using cache_key_chars(1) [of ts] by (metis in_set_conv_decomp)

lemma state_file_of_key:
  assumes inv: "store_inv F n dir S" and reg: "is_regular_file dir (k @ ''.safetensors'')"
    and k: "k = cache_key ts \<or> k = cache_key ts @ ''.tokens.tmp-'' @ j"
  shows "\<exists>us st g. map_of dir (k @ ''.safetensors'') = Some g \<and> (us, st) \<in> S \<and> k = cache_key us \<and>
      save_prefix_state F st = Inr (cf_bytes g)"
proof -
  obtain g where g: "map_of dir (k @ ''.safetensors'') = Some g"
    using reg by (auto simp: is_regular_file_def split: option.splits)
  then have ok: "file_ok F S (k @ ''.safetensors'') g" using inv map_of_SomeD by (fastforce simp: store_inv_def)
  have kne: "k \<noteq> []" using k cache_key_chars(2) [of ts] by auto
  have "k @ ''.safetensors'' \<noteq> cache_key us @ ''.tokens''" for us
    using key_names(1) [of us] extension_append(1) [OF kne, of "''safetensors''"] by auto
  moreover have "k @ ''.safetensors'' \<noteq> temporary_path x c ''.tokens''" for x c
    by (auto simp: temporary_path_def dest: arg_cong [where f = rev])
  moreover have "k @ ''.safetensors'' \<noteq> temporary_path (cache_key us @ ''.safetensors'') c ''.safetensors''" for us c
  proof
    assume "k @ ''.safetensors'' = temporary_path (cache_key us @ ''.safetensors'') c ''.safetensors''"
    also have "\<dots> = (cache_key us @ CHR ''.'' # ''safetensors.tmp-'' @ show_nat (unat c)) @ ''.safetensors''"
      by (simp add: temporary_path_def)
    finally have eq: "k = cache_key us @ CHR ''.'' # ''safetensors.tmp-'' @ show_nat (unat c)"
      by (simp only: append_same_eq)
    then show False
    proof (cases "k = cache_key ts")
      case True
      then show False using eq key_stem_differs by metis
    next
      case False
      then have two: "cache_key ts @ CHR ''.'' # ''tokens.tmp-'' @ j = cache_key us @ CHR ''.'' # ''safetensors.tmp-'' @ show_nat (unat c)"
        using k eq by simp
      from arg_cong [OF this, of "takeWhile (\<lambda>c. c \<noteq> CHR ''.'')"]
      have "cache_key ts = cache_key us" by (simp only: before_dot [OF cache_key_chars(1)])
      then show False using two by simp
    qed
  qed
  ultimately obtain us st where "(us, st) \<in> S" "k @ ''.safetensors'' = cache_key us @ ''.safetensors''"
    "save_prefix_state F st = Inr (cf_bytes g)"
    using ok unfolding file_ok_def by metis
  then show ?thesis using g by auto
qed

lemma token_entry:
  assumes inv: "store_inv F n dir S" and e: "(name, f) \<in> set dir" and te: "is_token_entry dir (name, f)"
  shows "\<exists>ts us st st' g. name = cache_key ts @ ''.tokens'' \<and> cf_bytes f = write_tokens ts \<and> (ts, st') \<in> S \<and> holds_prefix dir ts \<and>
      map_of dir (state_name name) = Some g \<and> (us, st) \<in> S \<and> cache_key us = cache_key ts \<and> save_prefix_state F st = Inr (cf_bytes g)"
proof -
  have ok: "file_ok F S name f" using inv e by (fastforce simp: store_inv_def)
  have ext: "extension name = ''.tokens''" and reg: "is_regular_file dir (state_name name)" and f: "cf_regular f"
    using te by (simp_all add: is_token_entry_def)
  from ok ext consider ts st where "(ts, st) \<in> S" "name = cache_key ts @ ''.tokens''" "cf_bytes f = write_tokens ts"
    | ts c where "name = temporary_path (cache_key ts @ ''.tokens'') c ''.tokens''"
    by (auto simp: file_ok_def key_names temporary_names)
  then show ?thesis
  proof cases
    case 1
    have sn: "state_name name = cache_key ts @ ''.safetensors''" using 1 by (simp add: state_name_def key_names)
    from state_file_of_key [OF inv reg [unfolded sn]] obtain us st' g where g:
      "map_of dir (cache_key ts @ ''.safetensors'') = Some g" "(us, st') \<in> S" "cache_key ts = cache_key us"
      "save_prefix_state F st' = Inr (cf_bytes g)" by blast
    have "map_of dir name = Some f" using inv e by (simp add: store_inv_def)
    then have "holds_prefix dir ts" using 1 f reg sn by (simp add: holds_prefix_def)
    then show ?thesis using 1 g unfolding sn by metis
  next
    case 2
    have sn: "state_name name = (cache_key ts @ ''.tokens.tmp-'' @ show_nat (unat c)) @ ''.safetensors''"
      using 2 by (simp add: state_name_def temporary_names)
    from state_file_of_key [OF inv reg [unfolded sn]] obtain us where
      eq: "cache_key ts @ ''.tokens.tmp-'' @ show_nat (unat c) = cache_key us" by blast
    have False using key_stem_differs [of us ts "''tokens.tmp-'' @ show_nat (unat c)"] unfolding eq [symmetric] by simp
    then show ?thesis ..
  qed
qed

lemma complete_token_entry:
  assumes "holds_prefix dir ts"
  shows "\<exists>f. (cache_key ts @ ''.tokens'', f) \<in> set dir \<and> is_token_entry dir (cache_key ts @ ''.tokens'', f) \<and> cf_bytes f = write_tokens ts"
  using assms by (auto simp: holds_prefix_def is_token_entry_def state_name_def key_names split: option.splits dest: map_of_SomeD)

subsection \<open>The longest stored prefix\<close>

definition candidate :: "directory \<Rightarrow> u32 list \<Rightarrow> string \<times> cache_file \<Rightarrow> u32 list \<Rightarrow> bool" where
  "candidate dir prompt e c \<longleftrightarrow>
     is_token_entry dir e \<and> read_tokens (cf_bytes (snd e)) (length prompt) = Some c \<and> take (length c) prompt = c"

lemma consider_cases:
  "consider_entry dir prompt best e = best \<and> (\<forall>c. candidate dir prompt e c \<longrightarrow> length c \<le> length (fst best)) \<or>
   (\<exists>c. consider_entry dir prompt best e = (c, fst e) \<and> candidate dir prompt e c \<and> length (fst best) < length c \<and>
      (\<forall>d. candidate dir prompt e d \<longrightarrow> d = c))"
  unfolding consider_entry_def candidate_def
  by (cases "read_tokens (cf_bytes (snd e)) (length prompt)"; cases "is_token_entry dir e") (auto simp: not_le)

lemma scan_longest:
  assumes "best' = foldl (consider_entry dir prompt) best es"
  shows "(best' = best \<or> (\<exists>e \<in> set es. candidate dir prompt e (fst best') \<and> snd best' = fst e \<and> fst best' \<noteq> [])) \<and>
      length (fst best) \<le> length (fst best') \<and>
      (\<forall>e \<in> set es. \<forall>c. candidate dir prompt e c \<longrightarrow> length c \<le> length (fst best'))"
  using assms
proof (induction es arbitrary: best)
  case (Cons e es)
  let ?b = "consider_entry dir prompt best e"
  have IH: "(best' = ?b \<or> (\<exists>e \<in> set es. candidate dir prompt e (fst best') \<and> snd best' = fst e \<and> fst best' \<noteq> [])) \<and>
      length (fst ?b) \<le> length (fst best') \<and>
      (\<forall>e \<in> set es. \<forall>c. candidate dir prompt e c \<longrightarrow> length c \<le> length (fst best'))"
    using Cons.IH [of ?b] Cons.prems by simp
  from consider_cases [of dir prompt best e] show ?case
  proof (elim disjE exE conjE)
    assume 1: "?b = best" "\<forall>c. candidate dir prompt e c \<longrightarrow> length c \<le> length (fst best)"
    have "length c \<le> length (fst best')" if "candidate dir prompt e c" for c
      using 1 that IH order_trans by metis
    then show ?thesis using IH 1(1) by auto
  next
    fix c assume 2: "?b = (c, fst e)" "candidate dir prompt e c" "length (fst best) < length c"
      "\<forall>d. candidate dir prompt e d \<longrightarrow> d = c"
    have best: "length c \<le> length (fst best')" using IH 2(1) by simp
    then have "length d \<le> length (fst best')" if "candidate dir prompt e d" for d using 2(4) that by blast
    moreover have "candidate dir prompt e (fst best') \<and> snd best' = fst e \<and> fst best' \<noteq> []" if "best' = ?b"
      using that 2(1,2) 2(3) by force
    moreover have "length (fst best) \<le> length (fst best')" using best 2(3) by simp
    ultimately show ?thesis using IH by (metis list.set_intros set_ConsD)
  qed
qed simp

lemma candidate_of_inv:
  assumes inv: "store_inv F n dir S" and e: "e \<in> set dir" and c: "candidate dir prompt e c"
  shows "holds_prefix dir c \<and> (\<exists>us st g. map_of dir (state_name (fst e)) = Some g \<and> (us, st) \<in> S \<and> cache_key us = cache_key c \<and>
      save_prefix_state F st = Inr (cf_bytes g))"
proof -
  obtain name f where ef: "e = (name, f)" by (cases e)
  from token_entry [OF inv e [unfolded ef]] c obtain ts us st st' g where
    t: "cf_bytes f = write_tokens ts" "(ts, st') \<in> S" "holds_prefix dir ts" and
    g: "map_of dir (state_name name) = Some g" "(us, st) \<in> S" "cache_key us = cache_key ts" "save_prefix_state F st = Inr (cf_bytes g)"
    unfolding candidate_def ef by blast
  have "saved_ok n ts st'" using inv t(2) by (fastforce simp: store_inv_def)
  then have "c = ts" using c t(1) by (simp add: candidate_def ef saved_ok_def read_write_tokens split: if_splits)
  then show ?thesis using t g ef by auto
qed

lemma held_candidate:
  assumes inv: "store_inv F n dir S" and h: "holds_prefix dir ts" and pr: "take (length ts) prompt = ts"
  shows "\<exists>e \<in> set dir. candidate dir prompt e ts"
proof -
  obtain f where f: "(cache_key ts @ ''.tokens'', f) \<in> set dir" "is_token_entry dir (cache_key ts @ ''.tokens'', f)"
    "cf_bytes f = write_tokens ts" using complete_token_entry [OF h] by blast
  from token_entry [OF inv f(1,2)] obtain us st' where us: "cf_bytes f = write_tokens us" "(us, st') \<in> S" by blast
  have "16 + 4 * length us < 2 ^ 64" using inv us(2) by (fastforce simp: store_inv_def saved_ok_def)
  then have "16 + 4 * length ts < 2 ^ 64" using us(1) f(3) write_tokens_length by metis
  moreover have "length ts \<le> length prompt" using pr by (metis length_take min.cobounded1)
  ultimately have "candidate dir prompt (cache_key ts @ ''.tokens'', f) ts"
    using f pr by (simp add: candidate_def read_write_tokens)
  then show ?thesis using f(1) by blast
qed

lemma load_longest_cases:
  assumes "files_faithful F" and inv: "store_inv F n dir S"
  shows "(snd (load_longest F n now dir prompt) = None \<and> (\<forall>ts. holds_prefix dir ts \<and> take (length ts) prompt = ts \<longrightarrow> ts = [])) \<or>
      (\<exists>ts us st. snd (load_longest F n now dir prompt) = Some \<lparr>sp_tokens = ts, sp_state = persisted (tf_empty F) st\<rparr> \<and>
         holds_prefix dir ts \<and> take (length ts) prompt = ts \<and> (us, st) \<in> S \<and> cache_key us = cache_key ts \<and>
         (\<forall>vs. holds_prefix dir vs \<and> take (length vs) prompt = vs \<longrightarrow> length vs \<le> length ts))"
proof -
  define best where "best = foldl (consider_entry dir prompt) ([], '''') dir"
  note sc = scan_longest [OF best_def]
  have longest: "length vs \<le> length (fst best)" if "holds_prefix dir vs" "take (length vs) prompt = vs" for vs
    using held_candidate [OF inv that] sc by blast
  show ?thesis
  proof (cases "fst best = []")
    case True
    then have "snd (load_longest F n now dir prompt) = None" by (simp add: load_longest_def best_def Let_def)
    then show ?thesis using longest True by auto
  next
    case False
    then obtain e where e: "e \<in> set dir" "candidate dir prompt e (fst best)" "snd best = fst e" using sc by auto
    from candidate_of_inv [OF inv e(1,2)] obtain us st g where
      g: "map_of dir (state_name (fst e)) = Some g" "(us, st) \<in> S" "cache_key us = cache_key (fst best)"
        "save_prefix_state F st = Inr (cf_bytes g)" and h: "holds_prefix dir (fst best)" by blast
    have ok: "saved_ok n us st" using inv g(2) by (fastforce simp: store_inv_def)
    then have load: "load_prefix_state F (cf_bytes g) n = Inr (persisted (tf_empty F) st)"
      using load_saved [OF saved_holds [OF assms(1)], of st] g(4) by (auto simp: saved_ok_def save_prefix_state_def split: if_splits)
    have "ds_token_count (ps_target (persisted (tf_empty F) st)) = length (fst best)"
      using ok cache_key_length [OF g(3)] by (simp add: saved_ok_def persisted_def)
    then have "snd (load_longest F n now dir prompt) = Some \<lparr>sp_tokens = fst best, sp_state = persisted (tf_empty F) st\<rparr>"
      using False g(1) e(3) load by (simp add: load_longest_def best_def [symmetric] Let_def)
    then show ?thesis using h g(2,3) longest e(2) by (auto simp: candidate_def)
  qed
qed

subsection \<open>Eviction\<close>

lemma stem_nonempty: "extension name = CHR ''.'' # e \<Longrightarrow> stem name \<noteq> []"
  by (auto simp: extension_def stem_def Let_def split: if_splits)

lemma state_name_extension: "extension name = ''.tokens'' \<Longrightarrow> extension (state_name name) = ''.safetensors''"
  unfolding state_name_def using extension_append(1) [OF stem_nonempty, of name "''tokens''" "''safetensors''"] by simp

lemma state_name_inject:
  "extension n = ''.tokens'' \<Longrightarrow> extension m = ''.tokens'' \<Longrightarrow> state_name n = state_name m \<longleftrightarrow> n = m"
  unfolding state_name_def using stem_extension [of n] stem_extension [of m] by (metis append_same_eq)

lemma file_size_remove: "n \<noteq> name \<Longrightarrow> file_size (remove_file name dir) n = file_size dir n"
  by (simp add: file_size_def)

lemma is_regular_remove: "is_regular_file (remove_file name dir) n \<longleftrightarrow> n \<noteq> name \<and> is_regular_file dir n"
  by (simp add: is_regular_file_def)

lemma collect_remove:
  assumes dist: "distinct (map fst dir)" and e: "e \<in> set (collect_entries dir)"
  shows "collect_entries (remove_file (en_state_path e) (remove_file (en_token_path e) dir)) = filter (\<lambda>x. x \<noteq> e) (collect_entries dir)"
proof -
  define g where "g d x = \<lparr>en_token_path = fst x, en_state_path = state_name (fst x), en_modified = cf_modified (snd x),
      en_bytes = length (cf_bytes (snd x)) + file_size d (state_name (fst x))\<rparr>" for d and x :: "string \<times> cache_file"
  have coll: "collect_entries d = map (g d) (filter (is_token_entry d) d)" for d
    by (simp add: collect_entries_def g_def case_prod_beta)
  obtain x where x: "x \<in> set dir" "is_token_entry dir x" "e = g dir x" using e by (auto simp: coll)
  let ?t = "fst x" and ?s = "state_name (fst x)"
  let ?d = "remove_file ?s (remove_file ?t dir)"
  have xt: "extension ?t = ''.tokens''" using x by (simp add: is_token_entry_def)
  have names: "en_token_path e = ?t" "en_state_path e = ?s" using x by (simp_all add: g_def)
  have inj: "inj_on fst (set dir)" using dist by (simp add: distinct_map)
  have keep: "is_token_entry ?d y \<and> fst y \<noteq> ?t \<and> fst y \<noteq> ?s \<longleftrightarrow> is_token_entry dir y \<and> g dir y \<noteq> e" if y: "y \<in> set dir" for y
  proof -
    have "g dir y = e \<longleftrightarrow> fst y = ?t"
      using x y inj_onD [OF inj, of y x] by (auto simp: g_def)
    then show ?thesis
      using state_name_extension [of "fst y"] state_name_inject [OF _ xt, of "fst y"] xt state_name_extension [OF xt]
      by (auto simp: is_token_entry_def is_regular_remove)
  qed
  have same: "g ?d y = g dir y" if "is_token_entry dir y" "g dir y \<noteq> e" "y \<in> set dir" for y
  proof -
    have "fst y \<noteq> ?t" "extension (fst y) = ''.tokens''" using keep [OF that(3)] that by (simp_all add: is_token_entry_def)
    then have "state_name (fst y) \<noteq> ?s" "state_name (fst y) \<noteq> ?t"
      using state_name_inject [OF _ xt, of "fst y"] state_name_extension [of "fst y"] xt by auto
    then show ?thesis by (simp add: g_def file_size_remove)
  qed
  have "filter P ?d = filter (\<lambda>y. P y \<and> fst y \<noteq> ?t \<and> fst y \<noteq> ?s) dir" for P
    by (auto simp: remove_file_def case_prod_beta intro!: filter_cong)
  then have "collect_entries ?d = map (g ?d) (filter (\<lambda>y. is_token_entry ?d y \<and> fst y \<noteq> ?t \<and> fst y \<noteq> ?s) dir)"
    by (simp only: coll)
  also have "\<dots> = map (g ?d) (filter (\<lambda>y. is_token_entry dir y \<and> g dir y \<noteq> e) dir)"
    using keep by (intro arg_cong [where f = "map (g ?d)"] filter_cong) auto
  also have "\<dots> = map (g dir) (filter (\<lambda>y. is_token_entry dir y \<and> g dir y \<noteq> e) dir)"
    using same by (intro map_cong) auto
  also have "\<dots> = filter (\<lambda>x. x \<noteq> e) (collect_entries dir)"
    by (simp add: coll filter_map comp_def conj_commute)
  finally show ?thesis unfolding names .
qed

lemma collect_distinct: "distinct (map fst dir) \<Longrightarrow> distinct (collect_entries dir)"
proof -
  assume "distinct (map fst dir)"
  then have "distinct (map en_token_path (collect_entries dir))"
    by (simp add: collect_entries_def comp_def case_prod_beta distinct_map_filter)
  then show ?thesis by (simp add: distinct_map)
qed

abbreviation total_entry_bytes :: "Entry list \<Rightarrow> nat" where
  "total_entry_bytes es \<equiv> sum_list (map en_bytes es)"

lemma evict_entries_spec:
  assumes "distinct (map fst dir)" and "mset (collect_entries dir) = mset es" and "t = total_entry_bytes es"
  shows "\<exists>k \<le> length es. mset (collect_entries (evict_entries m t es dir)) = mset (drop k es) \<and>
      total_entry_bytes (drop k es) \<le> m \<and> (\<forall>j < k. m < total_entry_bytes (drop j es))"
  using assms
proof (induction es arbitrary: dir t)
  case (Cons e es)
  show ?case
  proof (cases "t \<le> m")
    case True
    then show ?thesis using Cons.prems by (intro exI [of _ 0]) auto
  next
    case False
    let ?d = "remove_file (en_state_path e) (remove_file (en_token_path e) dir)"
    have e: "e \<in> set (collect_entries dir)" using Cons.prems(2) by (metis list.set_intros(1) set_mset_mset)
    have "distinct (e # es)" using collect_distinct [OF Cons.prems(1)] Cons.prems(2) by (metis mset_eq_imp_distinct_iff)
    then have "filter (\<lambda>x. x \<noteq> e) (e # es) = es" by (auto simp: filter_id_conv)
    then have "mset (collect_entries ?d) = mset es"
      using collect_remove [OF Cons.prems(1) e] Cons.prems(2) by (metis mset_filter)
    moreover have "distinct (map fst ?d)" by (intro names_remove_file Cons.prems(1))
    moreover have "t - en_bytes e = total_entry_bytes es" using Cons.prems(3) by simp
    ultimately obtain k where k: "k \<le> length es"
      "mset (collect_entries (evict_entries m (t - en_bytes e) es ?d)) = mset (drop k es)"
      "total_entry_bytes (drop k es) \<le> m" "\<forall>j < k. m < total_entry_bytes (drop j es)"
      using Cons.IH by blast
    have "m < total_entry_bytes (drop j (e # es))" if "j < Suc k" for j
      using that k(4) False Cons.prems(3) by (cases j) auto
    then show ?thesis using k False by (intro exI [of _ "Suc k"]) auto
  qed
qed auto

lemma evict_keeps_files:
  "map_of (evict_entries m t es dir) name = Some f \<Longrightarrow> map_of dir name = Some f"
  by (induction m t es dir rule: evict_entries.induct) (auto split: if_splits)

subsection \<open>The store as a whole\<close>

text \<open>C32. In every directory that saves, failed and interrupted saves, loads, clears and listing
  orders can produce, a lookup answers for the longest stored prefix of the prompt: it returns
  nothing only when no stored prefix matches, and otherwise the tokens of a stored entry, at
  least as long as every other match, with the persisted form of a state that was saved under
  the same key.
\<close>

theorem load_longest_correct:
  assumes "files_faithful F" and "store_reachable F n dir S"
  shows "(snd (load_longest F n now dir prompt) = None \<and> (\<forall>ts. holds_prefix dir ts \<and> take (length ts) prompt = ts \<longrightarrow> ts = [])) \<or>
      (\<exists>ts us st. snd (load_longest F n now dir prompt) = Some \<lparr>sp_tokens = ts, sp_state = persisted (tf_empty F) st\<rparr> \<and>
         holds_prefix dir ts \<and> take (length ts) prompt = ts \<and> (us, st) \<in> S \<and> cache_key us = cache_key ts \<and>
         (\<forall>vs. holds_prefix dir vs \<and> take (length vs) prompt = vs \<longrightarrow> length vs \<le> length ts))"
  using load_longest_cases [OF assms(1) reachable_inv [OF assms(2)]] .

lemma actions_lookup:
  fixes d :: directory and dir :: directory and now :: nat and c :: u64 and ts :: "u32 list" and bytes :: "byte list"
  defines "d \<equiv> foldl (perform_action now) dir (save_actions c ts bytes)"
  shows "map_of d (cache_key ts @ ''.tokens'') = Some \<lparr>cf_bytes = write_tokens ts, cf_modified = now, cf_regular = True\<rparr>"
    and "map_of d (cache_key ts @ ''.safetensors'') = Some \<lparr>cf_bytes = bytes, cf_modified = now, cf_regular = True\<rparr>"
proof -
  let ?tt = "temporary_path (cache_key ts @ ''.tokens'') c ''.tokens''"
    and ?ts = "temporary_path (cache_key ts @ ''.safetensors'') (c + 1) ''.safetensors''"
  have "cache_key ts @ ''.safetensors'' \<noteq> ?tt" "cache_key ts @ ''.tokens'' \<noteq> ?ts" "cache_key ts @ ''.safetensors'' \<noteq> ?ts"
    "cache_key ts @ ''.tokens'' \<noteq> ?tt" by (auto simp: temporary_path_def dest: arg_cong [where f = rev])
  moreover have "cache_key ts @ ''.tokens'' \<noteq> cache_key ts @ ''.safetensors''" by simp
  ultimately show "map_of d (cache_key ts @ ''.tokens'') = Some \<lparr>cf_bytes = write_tokens ts, cf_modified = now, cf_regular = True\<rparr>"
    "map_of d (cache_key ts @ ''.safetensors'') = Some \<lparr>cf_bytes = bytes, cf_modified = now, cf_regular = True\<rparr>"
    using temporary_names_differ [of ts c ts "c + 1"]
    by (simp_all add: d_def save_actions_def Let_def write_file_def rename_file_def)
qed

lemma save_holds:
  assumes "snd (store_save F n m c now None dir ts st) = Inr True"
  shows "holds_prefix (fst (store_save F n m c now None dir ts st)) ts"
proof -
  obtain bytes where b: "save_prefix_state F st = Inr bytes" and ne: "ts \<noteq> []"
    using assms by (auto simp: store_save_def split: if_splits sum.splits)
  let ?d = "evict_to_limit m (foldl (perform_action now) dir (save_actions c ts bytes))"
  have sv: "store_save F n m c now None dir ts st = (?d, Inr (is_regular_file ?d (cache_key ts @ ''.tokens'') \<and>
         is_regular_file ?d (cache_key ts @ ''.safetensors'')))"
    using assms b ne by (auto simp: store_save_def Let_def split: if_splits)
  have reg: "is_regular_file ?d (cache_key ts @ ''.tokens'')" "is_regular_file ?d (cache_key ts @ ''.safetensors'')"
    using assms by (simp_all add: sv)
  then obtain f where f: "map_of ?d (cache_key ts @ ''.tokens'') = Some f" by (auto simp: is_regular_file_def split: option.splits)
  then have "f = \<lparr>cf_bytes = write_tokens ts, cf_modified = now, cf_regular = True\<rparr>"
    using evict_keeps_files [OF f [unfolded evict_to_limit_def Let_def]] by (simp add: actions_lookup(1))
  then show ?thesis using f reg(2) by (simp add: holds_prefix_def sv)
qed

lemma save_succeeds:
  assumes "saved_ok n ts st" and b: "save_prefix_state F st = Inr bytes"
    and d: "d = foldl (perform_action now) dir (save_actions c ts bytes)" and "total_entry_bytes (collect_entries d) \<le> m"
  shows "store_save F n m c now None dir ts st = (d, Inr True)"
proof -
  have "evict_to_limit m d = d"
    using assms(4) by (cases "sort_key en_modified (collect_entries d)") (simp_all add: evict_to_limit_def Let_def)
  then show ?thesis
    using assms(1) b by (simp add: store_save_def saved_ok_def d [symmetric] Let_def)
      (simp add: d is_regular_file_def actions_lookup)
qed

text \<open>C33. A save that reports success is found again: a lookup for any prompt that starts with the
  saved tokens returns a stored prefix at least as long, with the state of a save under its key.
\<close>

theorem saved_prefix_found:
  assumes "files_faithful F" and "store_reachable F n dir S" and "saved_ok n ts st"
    and "store_save F n m c now None dir ts st = (dir', Inr True)" and "take (length ts) prompt = ts"
  shows "\<exists>vs us st'. snd (load_longest F n now' dir' prompt) = Some \<lparr>sp_tokens = vs, sp_state = persisted (tf_empty F) st'\<rparr> \<and>
      length ts \<le> length vs \<and> take (length vs) prompt = vs \<and> (us, st') \<in> insert (ts, st) S \<and> cache_key us = cache_key vs"
proof -
  have "store_inv F n dir' (insert (ts, st) S)"
    using inv_save [OF reachable_inv [OF assms(2)] assms(3), of m c now None] assms(4) by simp
  note cases = load_longest_cases [OF assms(1) this, of now' prompt]
  have "holds_prefix dir' ts" using save_holds [of F n m c now dir ts st] assms(4) by simp
  moreover have "ts \<noteq> []" using assms(3) by (simp add: saved_ok_def)
  ultimately have stored: "holds_prefix dir' ts \<and> take (length ts) prompt = ts" "ts \<noteq> []" using assms(5) by simp_all
  from cases show ?thesis
  proof (elim disjE conjE exE)
    assume "\<forall>ts. holds_prefix dir' ts \<and> take (length ts) prompt = ts \<longrightarrow> ts = []"
    then show ?thesis using stored by blast
  next
    fix vs us st'
    assume "snd (load_longest F n now' dir' prompt) = Some \<lparr>sp_tokens = vs, sp_state = persisted (tf_empty F) st'\<rparr>"
      "take (length vs) prompt = vs" "(us, st') \<in> insert (ts, st) S" "cache_key us = cache_key vs"
      "\<forall>ws. holds_prefix dir' ws \<and> take (length ws) prompt = ws \<longrightarrow> length ws \<le> length vs"
    then show ?thesis using stored(1) by (intro exI [of _ vs] exI [of _ us] exI [of _ st']) simp
  qed
qed

text \<open>Eviction removes complete entries oldest first and stops as soon as the rest fits the
  limit: what remains is the shortest run of oldest entries less, and within the limit.
\<close>

theorem evict_oldest_until_fit:
  assumes "distinct (map fst dir)"
  shows "\<exists>k. mset (collect_entries (evict_to_limit m dir)) = mset (drop k (sort_key en_modified (collect_entries dir))) \<and>
      total_entry_bytes (collect_entries (evict_to_limit m dir)) \<le> m \<and>
      (\<forall>j < k. m < total_entry_bytes (drop j (sort_key en_modified (collect_entries dir))))"
proof -
  have total: "sum_list (map en_bytes (collect_entries dir)) = total_entry_bytes (sort_key en_modified (collect_entries dir))"
    by (metis mset_map mset_sort sum_mset_sum_list)
  from evict_entries_spec [OF assms _ total, of m] obtain k where k: "mset (collect_entries (evict_to_limit m dir)) = mset (drop k (sort_key en_modified (collect_entries dir)))"
    "total_entry_bytes (drop k (sort_key en_modified (collect_entries dir))) \<le> m"
    "\<forall>j < k. m < total_entry_bytes (drop j (sort_key en_modified (collect_entries dir)))"
    unfolding evict_to_limit_def Let_def mset_sort by blast
  then have "total_entry_bytes (collect_entries (evict_to_limit m dir)) \<le> m"
    using arg_cong [OF k(1), of "\<lambda>M. sum_mset (image_mset en_bytes M)"] by (simp flip: sum_mset_sum_list)
  with k show ?thesis by blast
qed

subsection \<open>Concrete instances\<close>

text \<open>A file library that writes every entry as three terminated strings: its kind, name and value.\<close>

fun terminated :: "string \<Rightarrow> byte list" where
  "terminated [] = [0]"
| "terminated (c # cs) = 1 # of_nat (of_char c) # terminated cs"

fun split_terminated :: "string \<Rightarrow> byte list \<Rightarrow> string list" where
  "split_terminated acc [] = []"
| "split_terminated acc [b] = [rev acc]"
| "split_terminated acc (b # c # bs) =
     (if b = 0 then rev acc # split_terminated [] (c # bs) else split_terminated (char_of (unat c) # acc) bs)"

fun find_entry :: "string \<Rightarrow> string \<Rightarrow> string list \<Rightarrow> string option" where
  "find_entry kind name (k # n # v # rest) = (if k = kind \<and> n = name then Some v else find_entry kind name rest)"
| "find_entry kind name _ = None"

definition entry_strings :: "string \<Rightarrow> (string \<times> string) list \<Rightarrow> string list" where
  "entry_strings kind es = concat (map (\<lambda>(n, v). [kind, n, v]) es)"

definition text_files :: "(string, byte list) tensor_files" where
  "text_files =
     \<lparr>tf_save = (\<lambda>arrays md. concat (map terminated (entry_strings ''A'' arrays @ entry_strings ''M'' md))),
      tf_tensor = (\<lambda>f name. find_entry ''A'' name (split_terminated [] f)),
      tf_metadata = (\<lambda>f key. find_entry ''M'' key (split_terminated [] f)),
      tf_dim2 = length, tf_empty = ''''\<rparr>"

lemma split_terminated_one: "split_terminated acc (terminated s @ r) = (rev acc @ s) # split_terminated [] r"
proof (induction s arbitrary: acc)
  case Nil
  then show ?case by (cases r) simp_all
next
  case (Cons c s)
  have "unat (of_nat (of_char c) :: byte) = of_char c" by (simp add: unsigned_of_nat take_bit_eq_mod)
  then show ?case using Cons by simp
qed

lemma split_terminated_all: "split_terminated [] (concat (map terminated ss)) = ss"
  by (induction ss) (simp_all add: split_terminated_one)

lemma find_entry_append:
  "find_entry kind name (entry_strings k es @ r) =
     (if k = kind then case map_of es name of None \<Rightarrow> find_entry kind name r | Some v \<Rightarrow> Some v else find_entry kind name r)"
  by (induction es) (auto simp: entry_strings_def)

lemma text_files_faithful: "files_faithful text_files"
  using find_entry_append [of _ _ "''M''" _ "[]"]
  by (auto simp: files_faithful_def text_files_def split_terminated_all find_entry_append map_of_is_SomeI
      simp del: map_append concat_append)

definition example_saved :: "string PersistedPrefixState" where
  "example_saved = example_state (\<lambda>n. show_nat n)"

lemma example_saved_ok: "saved_ok 2 [3, 1, 4, 1] example_saved"
  by (simp add: saved_ok_def example_saved_def example_state_ok) (simp add: example_state_def)

definition example_directory :: directory where
  "example_directory = fst (store_save text_files 2 4096 0 5 None [] [3, 1, 4, 1] example_saved)"

lemma example_reachable: "store_reachable text_files 2 example_directory {([3, 1, 4, 1], example_saved)}"
  unfolding example_directory_def by (rule store_reachable.saved [OF store_reachable.start example_saved_ok])

theorem load_longest_correct_witness:
  "(snd (load_longest text_files 2 9 example_directory [3, 1, 4, 1, 5]) = None \<and>
      (\<forall>ts. holds_prefix example_directory ts \<and> take (length ts) [3, 1, 4, 1, 5] = ts \<longrightarrow> ts = [])) \<or>
   (\<exists>ts us st. snd (load_longest text_files 2 9 example_directory [3, 1, 4, 1, 5]) =
        Some \<lparr>sp_tokens = ts, sp_state = persisted (tf_empty text_files) st\<rparr> \<and>
      holds_prefix example_directory ts \<and> take (length ts) [3, 1, 4, 1, 5] = ts \<and>
      (us, st) \<in> {([3, 1, 4, 1], example_saved)} \<and> cache_key us = cache_key ts \<and>
      (\<forall>vs. holds_prefix example_directory vs \<and> take (length vs) [3, 1, 4, 1, 5] = vs \<longrightarrow> length vs \<le> length ts))"
  by (rule load_longest_correct [OF text_files_faithful example_reachable])

theorem saved_prefix_found_witness:
  "\<exists>m d vs us st'. store_save text_files 2 m 0 5 None [] [3, 1, 4, 1] example_saved = (d, Inr True) \<and>
      snd (load_longest text_files 2 9 d [3, 1, 4, 1, 5]) = Some \<lparr>sp_tokens = vs, sp_state = persisted (tf_empty text_files) st'\<rparr> \<and>
      length [3, 1, 4, 1 :: u32] \<le> length vs \<and> take (length vs) [3, 1, 4, 1, 5] = vs \<and>
      (us, st') \<in> {([3, 1, 4, 1], example_saved)} \<and> cache_key us = cache_key vs"
proof -
  obtain bytes where b: "save_prefix_state text_files example_saved = Inr bytes"
    using example_saved_ok by (simp add: save_prefix_state_def saved_ok_def state_ok_def)
  define d where "d = foldl (perform_action 5) [] (save_actions 0 [3, 1, 4, 1] bytes)"
  have s: "store_save text_files 2 (total_entry_bytes (collect_entries d)) 0 5 None [] [3, 1, 4, 1] example_saved = (d, Inr True)"
    by (rule save_succeeds [OF example_saved_ok b d_def]) simp
  have "take (length [3, 1, 4, 1 :: u32]) [3, 1, 4, 1, 5] = [3, 1, 4, 1]" by simp
  from saved_prefix_found [OF text_files_faithful store_reachable.start example_saved_ok s this]
  show ?thesis using s by blast
qed

definition example_files :: directory where
  "example_files =
     [(''b.tokens'', \<lparr>cf_bytes = [0, 0], cf_modified = 7, cf_regular = True\<rparr>),
      (''a.tokens'', \<lparr>cf_bytes = [0], cf_modified = 3, cf_regular = True\<rparr>),
      (''a.safetensors'', \<lparr>cf_bytes = [1, 1, 1], cf_modified = 3, cf_regular = True\<rparr>),
      (''b.safetensors'', \<lparr>cf_bytes = [1, 1], cf_modified = 7, cf_regular = True\<rparr>)]"

theorem evict_oldest_until_fit_witness:
  "map fst (evict_to_limit 6 example_files) = [''b.tokens'', ''b.safetensors''] \<and>
   total_entry_bytes (collect_entries (evict_to_limit 6 example_files)) \<le> 6"
proof -
  have "distinct (map fst example_files)" by (simp add: example_files_def)
  from evict_oldest_until_fit [OF this, of 6]
  have "total_entry_bytes (collect_entries (evict_to_limit 6 example_files)) \<le> 6" by blast
  moreover have "map fst (evict_to_limit 6 example_files) = [''b.tokens'', ''b.safetensors'']" by code_simp
  ultimately show ?thesis by blast
qed

end
