(* ===== verification/Ngram_Hash.thy ===== *)
theory Ngram_Hash
  imports Decode_State "HOL-Library.Signed_Division"
begin

text \<open>
  The n-gram hash, class \<open>NgramHash\<close> of \<^verbatim>\<open>src/ngram.cpp\<close>: every token is given sixteen rows of one
  large embedding table, eight from the last two tokens and eight from the last three. Hashing is
  64-bit arithmetic with wrap-around; the row numbers are \<open>int64_t\<close>.
\<close>

unbundle bit_operations_syntax

subsection \<open>Mixing and primes\<close>

definition splitmix_gamma :: u64 where "splitmix_gamma = 0x9E3779B97F4A7C15"

definition splitmix64 :: "u64 \<Rightarrow> u64" where
  "splitmix64 value0 =
     (let value1 = value0 + splitmix_gamma;
          value2 = (value1 XOR drop_bit 30 value1) * 0xBF58476D1CE4E5B9;
          value3 = (value2 XOR drop_bit 27 value2) * 0x94D049BB133111EB
      in value3 XOR drop_bit 31 value3)"

text \<open>Trial division by the odd numbers; the loop ends where the divisor passes the square root.\<close>

function no_odd_divisor :: "nat \<Rightarrow> nat \<Rightarrow> bool" where
  "no_odd_divisor v divisor =
     (if 0 < divisor \<and> divisor \<le> v div divisor then
        (if v mod divisor = 0 then False else no_odd_divisor v (divisor + 2))
      else True)"
  by pat_completeness auto
termination
proof (relation "measure (\<lambda>(v, divisor). v + 1 - divisor)")
  fix v divisor :: nat
  assume "0 < divisor \<and> divisor \<le> v div divisor"
  then have "divisor \<le> v" using div_le_dividend order_trans by blast
  then show "((v, divisor + 2), (v, divisor)) \<in> measure (\<lambda>(v, divisor). v + 1 - divisor)" by simp
qed simp

declare no_odd_divisor.simps [simp del]

definition is_prime :: "u64 \<Rightarrow> bool" where
  "is_prime value \<longleftrightarrow>
     (if value < 2 then False
      else if value mod 2 = 0 then value = 2
      else no_odd_divisor (unat value) 3)"

text \<open>The search wraps around at the largest number; it ends because 2 is a prime.\<close>

lemma is_prime_2: "is_prime 2" and is_prime_3: "is_prime 3"
  by (simp_all add: is_prime_def no_odd_divisor.simps)

function next_prime :: "u64 \<Rightarrow> u64" where
  "next_prime value = (if is_prime (value + 1) then value + 1 else next_prime (value + 1))"
  by pat_completeness auto
termination
proof (relation "measure (\<lambda>value. unat (2 - value))")
  fix v :: u64
  assume "\<not> is_prime (v + 1)"
  then have "v \<noteq> 2" using is_prime_3 by auto
  then have ne: "2 - v \<noteq> 0" by (metis eq_iff_diff_eq_0)
  have "2 - (v + 1) = (2 - v) - 1" by simp
  moreover have "unat (2 - v - 1) < unat (2 - v)"
    using unat_minus_one [OF ne] ne unfolding unat_gt_0 [symmetric] by linarith
  ultimately show "(v + 1, v) \<in> measure (\<lambda>value. unat (2 - value))" by simp
qed simp

declare next_prime.simps [simp del]

primrec nth_prime_after :: "u64 \<Rightarrow> nat \<Rightarrow> u64" where
  "nth_prime_after start 0 = start"
| "nth_prime_after start (Suc count) = next_prime (nth_prime_after start count)"

text \<open>C++ \<open>%\<close> truncates; a negative remainder is moved up by the divisor.\<close>

definition positive_remainder :: "u64 \<Rightarrow> int \<Rightarrow> int" where
  "positive_remainder bits divisor =
     (let r = sint bits smod divisor in if r < 0 then r + divisor else r)"

subsection \<open>The hash\<close>

text \<open>What the constructor reads of the configuration.\<close>

record ngram_config =
  nc_vocabulary_size :: nat
  nc_ngram_seed :: u64
  nc_ngram_vocabulary_base :: u64
  nc_ngram_vocabulary_divisor :: u64
  nc_end_of_sequence_token :: u32

record NgramHash =
  nh_eos :: u32
  nh_multipliers :: "u64 list"
  nh_vocabulary :: "u64 list"
  nh_offsets :: "u64 list"
  nh_total_rows :: u64

definition ngram_half_bound :: "ngram_config \<Rightarrow> u64" where
  "ngram_half_bound config =
     max 1 ((0x7FFFFFFFFFFFFFFF div of_nat (max (nc_vocabulary_size config) 1)) div 2)"

definition ngram_multiplier :: "ngram_config \<Rightarrow> nat \<Rightarrow> u64" where
  "ngram_multiplier config i =
     2 * (splitmix64 (nc_ngram_seed config + splitmix_gamma * of_nat (i + 1)) mod ngram_half_bound config) + 1"

definition ngram_size :: "ngram_config \<Rightarrow> nat \<Rightarrow> u64" where
  "ngram_size config i = nth_prime_after (nc_ngram_vocabulary_base config - 1) (i + 1)"

definition ngram_hash :: "ngram_config \<Rightarrow> NgramHash" where
  "ngram_hash config =
     (let sizes = map (ngram_size config) [0..<16];
          rows = sum_list sizes; divisor = nc_ngram_vocabulary_divisor config
      in \<lparr>nh_eos = nc_end_of_sequence_token config,
          nh_multipliers = map (ngram_multiplier config) [0..<3],
          nh_vocabulary = sizes,
          nh_offsets = map (\<lambda>i. sum_list (take i sizes)) [0..<16],
          nh_total_rows = ((rows + divisor - 1) div divisor) * divisor\<rparr>)"

definition head_row :: "NgramHash \<Rightarrow> u64 \<Rightarrow> nat \<Rightarrow> int" where
  "head_row H mixed head =
     positive_remainder mixed (sint (nh_vocabulary H ! head)) + sint (nh_offsets H ! head)"

text \<open>The rows of a token whose two predecessors are given.\<close>

definition rows_of_gram :: "NgramHash \<Rightarrow> u32 \<Rightarrow> u32 \<Rightarrow> u32 \<Rightarrow> int list" where
  "rows_of_gram H token previous_one previous_two =
     (let mixed2 = (ucast token * nh_multipliers H ! 0) XOR (ucast previous_one * nh_multipliers H ! 1);
          mixed3 = mixed2 XOR (ucast previous_two * nh_multipliers H ! 2)
      in map (head_row H mixed2) [0..<8] @ map (head_row H mixed3) [8..<16])"

definition ensure_initialized :: "NgramHash \<Rightarrow> NgramState \<Rightarrow> NgramState" where
  "ensure_initialized H st =
     (if ng_initialized st then st
      else st\<lparr>ng_previous0 := nh_eos H, ng_previous1 := nh_eos H, ng_initialized := True\<rparr>)"

definition row_ids :: "NgramHash \<Rightarrow> u32 \<Rightarrow> NgramState \<Rightarrow> int list \<times> NgramState" where
  "row_ids H token st0 =
     (let st = ensure_initialized H st0;
          previous_one = (if ng_segment_length st \<ge> 1 then ng_previous1 st else nh_eos H);
          previous_two = (if ng_segment_length st \<ge> 2 then ng_previous0 st else nh_eos H)
      in (rows_of_gram H token previous_one previous_two,
          if token = nh_eos H
          then st\<lparr>ng_previous0 := nh_eos H, ng_previous1 := nh_eos H, ng_segment_length := 0\<rparr>
          else st\<lparr>ng_previous0 := ng_previous1 st, ng_previous1 := token,
                  ng_segment_length := min 2 (sz_add (ng_segment_length st) 1)\<rparr>))"

primrec row_ids_run :: "NgramHash \<Rightarrow> u32 list \<Rightarrow> NgramState \<Rightarrow> int list list \<times> NgramState" where
  "row_ids_run H [] st = ([], st)"
| "row_ids_run H (t # ts) st =
     (case row_ids H t st of (ids, st1) \<Rightarrow> case row_ids_run H ts st1 of (rest, st2) \<Rightarrow> (ids # rest, st2))"

definition fresh_ngram :: NgramState where
  "fresh_ngram = \<lparr>ng_previous0 = 0, ng_previous1 = 0, ng_segment_length = 0, ng_initialized = False\<rparr>"

subsection \<open>Primes\<close>

definition prime_number :: "nat \<Rightarrow> bool" where
  "prime_number p \<longleftrightarrow> 2 \<le> p \<and> (\<forall>d. d dvd p \<longrightarrow> d = 1 \<or> d = p)"

lemma no_odd_divisor_iff:
  "odd v \<Longrightarrow> odd divisor \<Longrightarrow>
     no_odd_divisor v divisor \<longleftrightarrow> (\<forall>d \<ge> divisor. d \<le> v div d \<longrightarrow> \<not> d dvd v)"
proof (induction v divisor rule: no_odd_divisor.induct)
  case (1 v divisor)
  have pos: "0 < divisor" using 1(3) by (rule odd_pos)
  show ?case
  proof (cases "divisor \<le> v div divisor")
    case False
    have "\<not> d \<le> v div d" if "d \<ge> divisor" for d
      using False that pos div_le_mono2 [OF pos that, of v] by linarith
    then show ?thesis using False by (auto simp: no_odd_divisor.simps [of v divisor])
  next
    case True
    show ?thesis
    proof (cases "divisor dvd v")
      case dvd: True
      then show ?thesis using True pos by (auto simp: no_odd_divisor.simps [of v divisor] dvd_eq_mod_eq_0)
    next
      case ndvd: False
      have split: "divisor \<le> d \<longleftrightarrow> d = divisor \<or> d = Suc divisor \<or> divisor + 2 \<le> d" for d by auto
      have "\<not> Suc divisor dvd v" using 1(2,3) by (meson dvd_trans even_Suc)
      then have "(\<forall>d \<ge> divisor + 2. d \<le> v div d \<longrightarrow> \<not> d dvd v) =
          (\<forall>d \<ge> divisor. d \<le> v div d \<longrightarrow> \<not> d dvd v)"
        using ndvd unfolding split by blast
      then show ?thesis
        using 1(1) [OF conjI [OF pos True]] ndvd pos True 1(2,3)
        by (simp add: no_odd_divisor.simps [of v divisor] dvd_eq_mod_eq_0)
    qed
  qed
qed

lemma small_divisor:
  fixes v d :: nat
  assumes "d dvd v" "d \<noteq> 1" "d \<noteq> v" "0 < v"
  shows "\<exists>e. e dvd v \<and> 2 \<le> e \<and> e \<le> v div e"
proof -
  obtain k where k: "v = d * k" using assms(1) by blast
  have "2 \<le> d" using assms k by (cases d) auto
  have "2 \<le> k" using assms k by (cases k; cases "k - 1") auto
  show ?thesis
  proof (cases "d \<le> k")
    case True
    then show ?thesis using \<open>2 \<le> d\<close> k by (intro exI [of _ d]) simp
  next
    case False
    then show ?thesis using \<open>2 \<le> k\<close> k by (intro exI [of _ k]) simp
  qed
qed

lemma even_unat: "even (unat v) \<longleftrightarrow> v mod 2 = 0" for v :: u64
proof -
  have "odd (unat v) \<longleftrightarrow> bit v 0" by (simp only: bit_0 [symmetric]) (simp add: bit_unsigned_iff)
  then have "even (unat v) \<longleftrightarrow> even v" unfolding bit_0 by blast
  then show ?thesis unfolding even_iff_mod_2_eq_zero [of v] .
qed

lemma is_prime_prime_number: "is_prime v \<longleftrightarrow> prime_number (unat v)"
proof -
  let ?n = "unat v"
  have two: "v < 2 \<longleftrightarrow> ?n < 2" "v = 2 \<longleftrightarrow> ?n = 2" by (simp_all add: word_less_nat_alt word_unat_eq_iff)
  consider (small) "?n < 2" | (even) "2 \<le> ?n" "even ?n" | (odd) "3 \<le> ?n" "odd ?n"
    by (cases "?n < 2"; cases "even ?n"; cases "?n = 2") auto
  then show ?thesis
  proof cases
    case small
    then show ?thesis by (simp add: is_prime_def prime_number_def two)
  next
    case even
    then have "is_prime v \<longleftrightarrow> ?n = 2" by (simp add: is_prime_def two even_unat)
    moreover have "prime_number ?n \<longleftrightarrow> ?n = 2"
    proof
      assume "?n = 2"
      have "d = 1 \<or> d = 2" if "d dvd 2" for d :: nat
        using dvd_imp_le [OF that] that by (cases "d = 0") auto
      then show "prime_number ?n" unfolding \<open>?n = 2\<close> prime_number_def by simp
    qed (use even in \<open>auto simp: prime_number_def\<close>)
    ultimately show ?thesis by simp
  next
    case odd
    have "is_prime v \<longleftrightarrow> no_odd_divisor ?n 3"
      using odd by (auto simp: is_prime_def two even_unat [symmetric])
    also have "\<dots> \<longleftrightarrow> (\<forall>d \<ge> 3. d \<le> ?n div d \<longrightarrow> \<not> d dvd ?n)"
      using odd by (intro no_odd_divisor_iff) auto
    also have "\<dots> \<longleftrightarrow> prime_number ?n"
    proof
      assume free: "\<forall>d \<ge> 3. d \<le> ?n div d \<longrightarrow> \<not> d dvd ?n"
      have "d = 1 \<or> d = ?n" if dvd: "d dvd ?n" for d
      proof (rule ccontr)
        assume "\<not> (d = 1 \<or> d = ?n)"
        then obtain e where e: "e dvd ?n" "2 \<le> e" "e \<le> ?n div e"
          using small_divisor [OF dvd] odd by auto
        then have "e \<noteq> 2" using odd by auto
        then show False using free e by auto
      qed
      then show "prime_number ?n" using odd by (simp add: prime_number_def)
    next
      assume prime: "prime_number ?n"
      show "\<forall>d \<ge> 3. d \<le> ?n div d \<longrightarrow> \<not> d dvd ?n"
      proof (intro allI impI notI)
        fix d assume d: "3 \<le> d" "d \<le> ?n div d" "d dvd ?n"
        then have "d = ?n" using prime by (auto simp: prime_number_def)
        then show False using d by simp
      qed
    qed
    finally show ?thesis .
  qed
qed

lemma next_prime_is_prime: "is_prime (next_prime v)"
  by (induction v rule: next_prime.induct) (subst next_prime.simps, simp)

lemma nth_prime_after_is_prime: "0 < n \<Longrightarrow> is_prime (nth_prime_after start n)"
  by (cases n) (simp_all add: next_prime_is_prime)

subsection \<open>Each token sees its predecessors in the segment\<close>

text \<open>
  The reference: the segment of a list of tokens is what follows its last end-of-sequence token, and
  the predecessors of the next token are the last two tokens of the segment, the end-of-sequence
  token standing in for those that do not exist.
\<close>

definition eos_segment :: "u32 \<Rightarrow> u32 list \<Rightarrow> u32 list" where
  "eos_segment eos ts = rev (takeWhile (\<lambda>t. t \<noteq> eos) (rev ts))"

definition predecessor :: "u32 \<Rightarrow> nat \<Rightarrow> u32 list \<Rightarrow> u32" where
  "predecessor eos k ts =
     (let s = eos_segment eos ts in if k \<le> length s then s ! (length s - k) else eos)"

definition reference_rows :: "NgramHash \<Rightarrow> u32 list \<Rightarrow> u32 \<Rightarrow> int list" where
  "reference_rows H before token =
     rows_of_gram H token (predecessor (nh_eos H) 1 before) (predecessor (nh_eos H) 2 before)"

definition ngram_follows :: "NgramHash \<Rightarrow> u32 list \<Rightarrow> NgramState \<Rightarrow> bool" where
  "ngram_follows H ts st \<longleftrightarrow>
     (let s = eos_segment (nh_eos H) ts; st1 = ensure_initialized H st in
      ng_segment_length st1 = min 2 (length s) \<and>
      (1 \<le> length s \<longrightarrow> ng_previous1 st1 = s ! (length s - 1)) \<and>
      (2 \<le> length s \<longrightarrow> ng_previous0 st1 = s ! (length s - 2)))"

lemma eos_segment_snoc:
  "eos_segment eos (ts @ [t]) = (if t = eos then [] else eos_segment eos ts @ [t])"
  by (simp add: eos_segment_def)

lemma fresh_ngram_follows: "ngram_follows H [] fresh_ngram"
  by (simp add: ngram_follows_def fresh_ngram_def eos_segment_def ensure_initialized_def)

lemma ensure_initialized_idem [simp]: "ensure_initialized H (ensure_initialized H st) = ensure_initialized H st"
  by (simp add: ensure_initialized_def)

lemma row_ids_initialized:
  "ng_initialized (snd (row_ids H t st))"
  by (simp add: row_ids_def Let_def ensure_initialized_def)

lemma row_ids_step:
  assumes "ngram_follows H ts st"
  shows "fst (row_ids H t st) = reference_rows H ts t" and "ngram_follows H (ts @ [t]) (snd (row_ids H t st))"
proof -
  let ?s = "eos_segment (nh_eos H) ts" and ?st = "ensure_initialized H st"
  have F: "ng_segment_length ?st = min 2 (length ?s)"
    "1 \<le> length ?s \<longrightarrow> ng_previous1 ?st = ?s ! (length ?s - 1)"
    "2 \<le> length ?s \<longrightarrow> ng_previous0 ?st = ?s ! (length ?s - 2)"
    using assms by (simp_all add: ngram_follows_def Let_def)
  show "fst (row_ids H t st) = reference_rows H ts t"
    using F by (simp add: row_ids_def reference_rows_def predecessor_def Let_def)
  have keep: "ensure_initialized H (snd (row_ids H t st)) = snd (row_ids H t st)"
    using row_ids_initialized [of H t st] by (simp add: ensure_initialized_def)
  have inc: "sz_add (ng_segment_length ?st) 1 = ng_segment_length ?st + 1"
    using F(1) by (simp add: SIZE_MAX_def)
  have grown: "snd (row_ids H t st) = ?st\<lparr>ng_previous0 := ng_previous1 ?st, ng_previous1 := t,
      ng_segment_length := min 2 (ng_segment_length ?st + 1)\<rparr>" if "t \<noteq> nh_eos H"
    unfolding row_ids_def Let_def inc using that by simp
  consider "t = nh_eos H" | "t \<noteq> nh_eos H" "?s = []" | "t \<noteq> nh_eos H" "1 \<le> length ?s"
    by (cases "t = nh_eos H"; cases "?s = []") (simp_all add: Suc_le_eq)
  then show "ngram_follows H (ts @ [t]) (snd (row_ids H t st))"
  proof cases
    case 1
    then show ?thesis unfolding ngram_follows_def keep by (simp add: eos_segment_snoc row_ids_def Let_def)
  next
    case 2
    then show ?thesis
      using F(1) unfolding ngram_follows_def keep by (simp add: eos_segment_snoc grown)
  next
    case 3
    then have "length ?s - 1 < length ?s" by simp
    then show ?thesis
      using 3 F unfolding ngram_follows_def keep by (simp add: eos_segment_snoc grown nth_append)
  qed
qed

lemma row_ids_run_reference:
  "ngram_follows H before st \<Longrightarrow>
     fst (row_ids_run H ts st) = map (\<lambda>i. reference_rows H (before @ take i ts) (ts ! i)) [0..<length ts] \<and>
     ngram_follows H (before @ ts) (snd (row_ids_run H ts st))"
proof (induction ts arbitrary: before st)
  case (Cons t ts)
  note step = row_ids_step [OF Cons.prems, of t]
  have upt: "[0..<length (t # ts)] = 0 # map Suc [0..<length ts]"
    by (simp add: upt_conv_Cons map_Suc_upt del: upt_Suc)
  show ?case
    using Cons.IH [OF step(2)] step(1) unfolding upt by (simp add: case_prod_unfold comp_def)
qed simp

subsection \<open>Row numbers stay inside the table\<close>

definition ngram_rows_fit :: "ngram_config \<Rightarrow> bool" where
  "ngram_rows_fit config \<longleftrightarrow>
     nc_ngram_vocabulary_divisor config \<noteq> 0 \<and>
     (\<Sum>i \<leftarrow> [0..<16]. unat (ngram_size config i)) + unat (nc_ngram_vocabulary_divisor config) < 2 ^ 63"

definition head_begin :: "ngram_config \<Rightarrow> nat \<Rightarrow> nat" where
  "head_begin config head = (\<Sum>i \<leftarrow> [0..<head]. unat (ngram_size config i))"

lemma unat_sum_list:
  fixes xs :: "u64 list"
  shows "(\<Sum>x \<leftarrow> xs. unat x) < 2 ^ 64 \<Longrightarrow> unat (sum_list xs) = (\<Sum>x \<leftarrow> xs. unat x)"
proof (induction xs)
  case (Cons x xs)
  then have "unat (sum_list xs) = (\<Sum>x \<leftarrow> xs. unat x)" by simp
  then show ?case using Cons.prems by (simp add: unat_plus_if_size word_size)
qed simp

lemma sint_small: "unat w < 2 ^ 63 \<Longrightarrow> sint w = int (unat w)" for w :: u64
proof -
  assume "unat w < 2 ^ 63"
  then have "int (unat w) < int (2 ^ 63)" by (simp only: of_nat_less_iff)
  then have small: "uint w < 2 ^ 63" by simp
  have "signed_take_bit 63 (uint w) = uint w"
    using small by (intro signed_take_bit_int_eq_self) (auto intro: order_trans [OF _ uint_ge_0])
  then show ?thesis by (simp add: sint_uint)
qed

lemma positive_remainder_range: "0 < d \<Longrightarrow> 0 \<le> positive_remainder bits d \<and> positive_remainder bits d < d"
proof -
  assume d: "0 < d"
  have "- \<bar>d\<bar> + 1 \<le> sint bits smod d \<and> sint bits smod d \<le> \<bar>d\<bar> - 1"
    using smod_int_range [of d "sint bits"] d unfolding atLeastAtMost_iff by blast
  then show ?thesis using d by (auto simp: positive_remainder_def Let_def)
qed

lemma head_begin_Suc: "head_begin config (Suc head) = head_begin config head + unat (ngram_size config head)"
  by (simp add: head_begin_def)

lemma head_begin_mono: "i \<le> j \<Longrightarrow> head_begin config i \<le> head_begin config j"
  by (rule lift_Suc_mono_le [where f = "head_begin config"]) (simp_all add: head_begin_Suc)

lemma ngram_size_prime: "prime_number (unat (ngram_size config head))"
  using nth_prime_after_is_prime [of "head + 1"] by (simp add: ngram_size_def is_prime_prime_number del: nth_prime_after.simps)

lemma total_rows_cover:
  fixes rows divisor :: u64
  assumes "divisor \<noteq> 0" and "unat rows + unat divisor < 2 ^ 63"
  shows "unat rows \<le> unat (((rows + divisor - 1) div divisor) * divisor)"
proof -
  let ?r = "unat rows" and ?d = "unat divisor"
  have d: "0 < ?d" using assms(1) by (simp add: unat_gt_0)
  have "unat (rows + divisor) = ?r + ?d" using assms(2) by (simp add: unat_plus_if_size word_size)
  moreover have "rows + divisor \<noteq> 0" using calculation d by (metis add_is_0 less_numeral_extra(3) unat_0)
  ultimately have top: "unat (rows + divisor - 1) = ?r + ?d - 1" by (simp add: unat_minus_one)
  let ?q = "(?r + ?d - 1) div ?d"
  have "?q * ?d \<le> ?r + ?d - 1" by (rule div_times_less_eq_dividend)
  moreover have "?r + ?d - 1 < 2 ^ 64" using assms(2) by simp
  ultimately have small: "?q * ?d < 2 ^ 64" by (rule le_less_trans)
  have quotient: "unat ((rows + divisor - 1) div divisor) = ?q" by (simp only: unat_div top)
  have len: "LENGTH(64) = 64" by simp
  have "unat ((rows + divisor - 1) div divisor) * ?d < 2 ^ LENGTH(64)"
    unfolding quotient len by (rule small)
  from iffD1 [OF unat_mult_lem this]
  have "unat (((rows + divisor - 1) div divisor) * divisor) = ?q * ?d" unfolding quotient .
  moreover have "?r \<le> ?q * ?d"
    using div_mult_mod_eq [of "?r + ?d - 1" ?d] mod_less_divisor [OF d, of "?r + ?d - 1"] by linarith
  ultimately show ?thesis by simp
qed

lemma row_ids_ids: "fst (row_ids H t st) = rows_of_gram H t
    (if ng_segment_length (ensure_initialized H st) \<ge> 1 then ng_previous1 (ensure_initialized H st) else nh_eos H)
    (if ng_segment_length (ensure_initialized H st) \<ge> 2 then ng_previous0 (ensure_initialized H st) else nh_eos H)"
  by (simp add: row_ids_def Let_def)

lemma ngram_hash_layout:
  assumes "ngram_rows_fit config" and "head < 16"
  shows "sint (nh_vocabulary (ngram_hash config) ! head) = int (unat (ngram_size config head))"
    and "sint (nh_offsets (ngram_hash config) ! head) = int (head_begin config head)"
proof -
  have whole: "head_begin config 16 < 2 ^ 63"
    using assms(1) by (simp add: ngram_rows_fit_def head_begin_def)
  have below: "head_begin config (Suc head) \<le> head_begin config 16" using assms(2) by (intro head_begin_mono) simp
  have "unat (ngram_size config head) < 2 ^ 63" using whole below by (simp add: head_begin_Suc)
  then show "sint (nh_vocabulary (ngram_hash config) ! head) = int (unat (ngram_size config head))"
    using assms(2) by (simp add: ngram_hash_def Let_def sint_small)
  have take: "take head (map (ngram_size config) [0..<16]) = map (ngram_size config) [0..<head]"
    using assms(2) by (simp add: take_map)
  have sum: "(\<Sum>x \<leftarrow> map (ngram_size config) [0..<head]. unat x) = head_begin config head"
    by (simp add: head_begin_def comp_def)
  have "head_begin config head < 2 ^ 63" using whole below by (simp add: head_begin_Suc)
  then have "unat (sum_list (map (ngram_size config) [0..<head])) = head_begin config head"
    using unat_sum_list [of "map (ngram_size config) [0..<head]"] unfolding sum by simp
  then show "sint (nh_offsets (ngram_hash config) ! head) = int (head_begin config head)"
    using assms(2) \<open>head_begin config head < 2 ^ 63\<close> unfolding ngram_hash_def Let_def
    by (simp add: take sint_small)
qed

lemma rows_of_gram_length [simp]: "length (rows_of_gram H t p1 p2) = 16"
  by (simp add: rows_of_gram_def Let_def)

lemma rows_of_gram_nth:
  "head < 16 \<Longrightarrow> \<exists>mixed. rows_of_gram H t p1 p2 ! head = head_row H mixed head"
  by (cases "head < 8") (auto simp: rows_of_gram_def Let_def nth_append simp del: upt_rec_numeral)

lemma head_row_range:
  assumes "ngram_rows_fit config" and "head < 16"
  shows "int (head_begin config head) \<le> head_row (ngram_hash config) mixed head"
    and "head_row (ngram_hash config) mixed head < int (head_begin config (Suc head))"
proof -
  have "0 < unat (ngram_size config head)" using ngram_size_prime [of config head] by (simp add: prime_number_def)
  then have "0 < int (unat (ngram_size config head))" by (simp only: of_nat_0_less_iff)
  from positive_remainder_range [OF this, of mixed]
  show "int (head_begin config head) \<le> head_row (ngram_hash config) mixed head"
    and "head_row (ngram_hash config) mixed head < int (head_begin config (Suc head))"
    using ngram_hash_layout [OF assms] by (simp_all add: head_row_def head_begin_Suc)
qed

lemma head_begin_total:
  assumes "ngram_rows_fit config"
  shows "head_begin config 16 \<le> unat (nh_total_rows (ngram_hash config))"
proof -
  let ?sizes = "map (ngram_size config) [0..<16]"
  have sum: "(\<Sum>x \<leftarrow> ?sizes. unat x) = head_begin config 16" by (simp only: head_begin_def map_map comp_def)
  have fit: "head_begin config 16 + unat (nc_ngram_vocabulary_divisor config) < 2 ^ 63"
    "nc_ngram_vocabulary_divisor config \<noteq> 0"
    using assms unfolding ngram_rows_fit_def head_begin_def by blast+
  then have "unat (sum_list ?sizes) = head_begin config 16"
    using unat_sum_list [of ?sizes] unfolding sum by simp
  then have "head_begin config 16 \<le> unat (((sum_list ?sizes + nc_ngram_vocabulary_divisor config - 1) div
      nc_ngram_vocabulary_divisor config) * nc_ngram_vocabulary_divisor config)"
    using total_rows_cover [OF fit(2), of "sum_list ?sizes"] fit(1) by (simp only:)
  then show ?thesis by (simp only: ngram_hash_def Let_def NgramHash.simps)
qed

subsection \<open>Properties\<close>

text \<open>C38. Whatever tokens are fed to the hash from a fresh state, the rows of every token are those of the token
  and of its two predecessors in the current segment: the state of the hash is no more than a window,
  and an end-of-sequence token starts afresh.\<close>

theorem row_ids_see_the_segment:
  "fst (row_ids_run H ts fresh_ngram) = map (\<lambda>i. reference_rows H (take i ts) (ts ! i)) [0..<length ts]"
  using row_ids_run_reference [OF fresh_ngram_follows, of H ts] by simp

text \<open>C39. Where the table sizes fit into 63 bits, the sixteen rows of a token lie in the sixteen consecutive
  ranges of the table, one in each: they are strictly increasing, not negative and below the
  number of rows, whatever state the hash is in. Each range has a prime size.\<close>

theorem row_ids_inside_table:
  assumes "ngram_rows_fit config" and "row_ids (ngram_hash config) token st = (ids, st')"
  shows "length ids = 16 \<and> sorted_wrt (<) ids \<and>
    (\<forall>id \<in> set ids. 0 \<le> id \<and> id < int (unat (nh_total_rows (ngram_hash config)))) \<and>
    (\<forall>head < 16. int (head_begin config head) \<le> ids ! head \<and> ids ! head < int (head_begin config (Suc head)) \<and>
       prime_number (head_begin config (Suc head) - head_begin config head))"
proof -
  obtain p1 p2 where ids: "ids = rows_of_gram (ngram_hash config) token p1 p2"
    using assms(2) row_ids_ids [of "ngram_hash config" token st] by force
  have range: "int (head_begin config i) \<le> ids ! i \<and> ids ! i < int (head_begin config (Suc i))" if "i < 16" for i
    using rows_of_gram_nth [OF that, of "ngram_hash config" token p1 p2] head_row_range [OF assms(1) that]
    unfolding ids by fastforce
  have len: "length ids = 16" by (simp add: ids)
  have "ids ! i < ids ! j" if "i < j" "j < 16" for i j
  proof -
    have "head_begin config (Suc i) \<le> head_begin config j" using that by (intro head_begin_mono) simp
    then have "int (head_begin config (Suc i)) \<le> int (head_begin config j)" by (simp only: of_nat_le_iff)
    then show ?thesis using range [of i] range [of j] that by linarith
  qed
  then have "sorted_wrt (<) ids" by (simp add: sorted_wrt_iff_nth_less len)
  moreover have "0 \<le> ids ! i \<and> ids ! i < int (unat (nh_total_rows (ngram_hash config)))" if "i < 16" for i
  proof -
    have "head_begin config (Suc i) \<le> unat (nh_total_rows (ngram_hash config))"
      using head_begin_mono [of "Suc i" 16 config] head_begin_total [OF assms(1)] that by linarith
    then have "int (head_begin config (Suc i)) \<le> int (unat (nh_total_rows (ngram_hash config)))"
      by (simp only: of_nat_le_iff)
    then show ?thesis using range [OF that] by linarith
  qed
  then have "\<forall>id \<in> set ids. 0 \<le> id \<and> id < int (unat (nh_total_rows (ngram_hash config)))"
    using len by (metis in_set_conv_nth)
  moreover have "prime_number (head_begin config (Suc i) - head_begin config i)" for i
    by (simp add: head_begin_Suc ngram_size_prime)
  ultimately show ?thesis using range len by blast
qed

definition sample_ngram_config :: ngram_config where
  "sample_ngram_config = \<lparr>nc_vocabulary_size = 100, nc_ngram_seed = 1234, nc_ngram_vocabulary_base = 1,
     nc_ngram_vocabulary_divisor = 8, nc_end_of_sequence_token = 9\<rparr>"

lemma sample_next_primes:
  "next_prime 0 = 2" "next_prime 2 = 3" "next_prime 3 = 5" "next_prime 5 = 7" "next_prime 7 = 11" "next_prime 11 = 13" "next_prime 13 = 17" "next_prime 17 = 19"
  "next_prime 19 = 23" "next_prime 23 = 29" "next_prime 29 = 31" "next_prime 31 = 37" "next_prime 37 = 41" "next_prime 41 = 43" "next_prime 43 = 47" "next_prime 47 = 53"
  by (simp_all add: next_prime.simps is_prime_def no_odd_divisor.simps)

lemma sample_primes: "map (ngram_size sample_ngram_config) [0..<16] =
    [2, 3, 5, 7, 11, 13, 17, 19, 23, 29, 31, 37, 41, 43, 47, 53]"
  by (simp add: ngram_size_def sample_ngram_config_def sample_next_primes eval_nat_numeral)

lemma sample_rows_fit: "ngram_rows_fit sample_ngram_config"
proof -
  have "(\<Sum>i \<leftarrow> [0..<16]. unat (ngram_size sample_ngram_config i)) =
      (\<Sum>x \<leftarrow> map (ngram_size sample_ngram_config) [0..<16]. unat x)"
    by (simp only: map_map comp_def)
  also have "\<dots> = 381" unfolding sample_primes by simp
  finally show ?thesis unfolding ngram_rows_fit_def by (simp add: sample_ngram_config_def)
qed

theorem row_ids_inside_table_witness:
  "\<exists>ids st'. row_ids (ngram_hash sample_ngram_config) 5 fresh_ngram = (ids, st') \<and> length ids = 16 \<and> sorted_wrt (<) ids"
proof -
  obtain ids st' where run: "row_ids (ngram_hash sample_ngram_config) 5 fresh_ngram = (ids, st')" by fastforce
  show ?thesis using row_ids_inside_table [OF sample_rows_fit run] run by blast
qed

end
