(* ===== verification/Api.thy ===== *)
theory Api
  imports Tool_Call Runtime_State Native_Engine
begin

text \<open>
  The HTTP routes of \<^verbatim>\<open>src/api.cpp\<close>: the fields of a request body, the rendering of responses and of
  server-sent events, the splitting of generated text into reasoning, content and tool calls, as a
  whole and fragment by fragment, and \<open>Api::handle\<close>.

  The engine is an argument, called as \<open>complete_impl\<close> is: with an optional callback that decides from
  the fragments before and the next one whether to go on. So is the sink of a stream. Conversions to
  \<open>float\<close> (\<open>number_casts\<close>), the numbers the clocks give, already printed (\<open>timings\<close>), and the order
  in which an \<open>unordered_map\<close> is walked are arguments too. What \<open>handle\<close> does to the shared runtime
  state is the list of its actions.
\<close>

subsection \<open>Escaping\<close>

definition escape_char :: "char \<Rightarrow> string" where
  "escape_char c =
     (if c = CHR 0x22 then [CHR 0x5C, CHR 0x22]
      else if c = CHR 0x5C then [CHR 0x5C, CHR 0x5C]
      else if c = CHR 0x08 then [CHR 0x5C, CHR ''b'']
      else if c = CHR 0x0C then [CHR 0x5C, CHR ''f'']
      else if c = CHR 0x0A then [CHR 0x5C, CHR ''n'']
      else if c = CHR 0x0D then [CHR 0x5C, CHR ''r'']
      else if c = CHR 0x09 then [CHR 0x5C, CHR ''t'']
      else if (of_char c :: nat) < 32 then
        CHR 0x5C # ''u00'' @ [hexadecimal (of_char c div 16), hexadecimal (of_char c mod 16)]
      else [c])"

definition json_escape :: "string \<Rightarrow> string" where
  "json_escape input = concat (map escape_char input)"

definition what :: "error \<Rightarrow> string" where
  "what e = (case e of RuntimeError m \<Rightarrow> m | InvalidArgument m \<Rightarrow> m | OutOfRange m \<Rightarrow> m)"

subsection \<open>The fields of a request\<close>

record 'd number_casts =
  nc_float_of_double :: "'d \<Rightarrow> rat"
  nc_float_of_integer :: "int \<Rightarrow> rat"

definition as_float :: "'d number_casts \<Rightarrow> 'd Json \<Rightarrow> rat result" where
  "as_float N j =
     (case j of
        JInt i \<Rightarrow> Inr (nc_float_of_integer N i)
      | JDouble d \<Rightarrow> Inr (nc_float_of_double N d)
      | _ \<Rightarrow> Inl (not_kind ''a number''))"

text \<open>An optional field: the default, or what a conversion makes of the value.\<close>

definition with_field :: "'d Json \<Rightarrow> string \<Rightarrow> 'a \<Rightarrow> ('d Json \<Rightarrow> 'a result) \<Rightarrow> 'a result" where
  "with_field body key absent convert =
     (case json_find key body of None \<Rightarrow> Inr absent | Some value \<Rightarrow> convert value)"

definition max_tokens :: "'d Json \<Rightarrow> nat result" where
  "max_tokens body =
     (case (case json_find ''max_completion_tokens'' body of
              None \<Rightarrow> json_find ''max_tokens'' body | Some value \<Rightarrow> Some value) of
        None \<Rightarrow> Inr 16
      | Some value \<Rightarrow> res_bind (as_integer value) (\<lambda>parsed.
          if parsed < 1 then Inl (RuntimeError ''max_tokens must be positive'') else Inr (nat parsed)))"

definition default_sampling :: "bool \<Rightarrow> SamplingOptions" where
  "default_sampling thinking =
     (if thinking
      then \<lparr>so_temperature = 1, so_top_p = 15938355 / 16777216, so_top_k = 20, so_seed = 0,
            so_frequency_penalty = 0, so_thinking_budget_tokens = 0\<rparr>
      else \<lparr>so_temperature = 0, so_top_p = 1, so_top_k = 0, so_seed = 0,
            so_frequency_penalty = 0, so_thinking_budget_tokens = 0\<rparr>)"

definition natural_field :: "string \<Rightarrow> 'd Json \<Rightarrow> int result" where
  "natural_field name value =
     res_bind (as_integer value) (\<lambda>parsed.
       if parsed < 0 then Inl (RuntimeError (name @ '' must not be negative'')) else Inr parsed)"

definition sampling_options :: "'d number_casts \<Rightarrow> 'd Json \<Rightarrow> bool \<Rightarrow> SamplingOptions result" where
  "sampling_options N body thinking =
     (let base = default_sampling thinking in
      res_bind (with_field body ''temperature'' (so_temperature base) (as_float N)) (\<lambda>temperature.
      res_bind (with_field body ''top_p'' (so_top_p base) (as_float N)) (\<lambda>top_p.
      res_bind (with_field body ''top_k'' (int (so_top_k base)) (natural_field ''top_k'')) (\<lambda>top_k.
      res_bind (with_field body ''seed'' (uint (so_seed base)) (natural_field ''seed'')) (\<lambda>seed.
      res_bind (with_field body ''frequency_penalty'' (so_frequency_penalty base) (as_float N)) (\<lambda>penalty.
        if temperature < 0 \<or> top_p \<le> 0 \<or> top_p > 1 \<or> penalty < 0 \<or> penalty > 2 \<or>
           (temperature > 0 \<and> (nat top_k = 0 \<or> nat top_k > 256))
        then Inl (RuntimeError (''sampling requires temperature >= 0, top_p in (0, 1], top_k in 1..256, '' @
               ''and frequency_penalty in [0, 2]''))
        else Inr \<lparr>so_temperature = temperature, so_top_p = top_p, so_top_k = nat top_k, so_seed = of_int seed,
               so_frequency_penalty = penalty, so_thinking_budget_tokens = 0\<rparr>))))))"

definition automatic_thinking_budget :: "nat \<Rightarrow> ReasoningEffort \<Rightarrow> nat" where
  "automatic_thinking_budget limit effort =
     (if limit < 512 then 0
      else case effort of
        Effort_low \<Rightarrow> limit div 4
      | Effort_medium \<Rightarrow> limit div 2
      | Effort_xhigh \<Rightarrow> sz_mul limit 2 div 3)"

definition streaming_enabled :: "'d Json \<Rightarrow> bool result" where
  "streaming_enabled body = with_field body ''stream'' False as_boolean"

definition stream_usage_enabled :: "'d Json \<Rightarrow> bool result" where
  "stream_usage_enabled body =
     with_field body ''stream_options'' False (\<lambda>options. with_field options ''include_usage'' False as_boolean)"

definition thinking_option :: "'d Json \<Rightarrow> bool result" where
  "thinking_option body =
     (case (json_find ''enable_thinking'' body, json_find ''thinking'' body) of
        (Some e, Some t) \<Rightarrow>
          res_bind (as_boolean e) (\<lambda>b. res_bind (as_boolean t) (\<lambda>c.
            if b \<noteq> c then Inl (RuntimeError ''thinking and enable_thinking must agree'') else Inr b))
      | (Some e, None) \<Rightarrow> as_boolean e
      | (None, Some t) \<Rightarrow> as_boolean t
      | (None, None) \<Rightarrow> Inr True)"

definition effort_option :: "'d Json \<Rightarrow> ReasoningEffort result" where
  "effort_option value =
     res_bind (as_string value) (\<lambda>effort.
       if effort = ''xhigh'' then Inr Effort_xhigh
       else if effort = ''medium'' then Inr Effort_medium
       else if effort = ''low'' then Inr Effort_low
       else Inl (RuntimeError ''reasoning_effort must be xhigh, medium, or low''))"

definition tools_option :: "'d double_conversion \<Rightarrow> 'd Json \<Rightarrow> string list result" where
  "tools_option D value =
     res_bind (as_array value) (res_map (\<lambda>tool.
       if \<not> is_object tool then Inl (RuntimeError ''tools entries must be objects'') else dump D tool))"

definition chat_template_options :: "'d double_conversion \<Rightarrow> 'd Json \<Rightarrow> ChatTemplateOptions result" where
  "chat_template_options D body =
     res_bind (thinking_option body) (\<lambda>thinking.
     res_bind (with_field body ''reasoning_effort'' Effort_xhigh effort_option) (\<lambda>effort.
     res_bind (with_field body ''tools'' [] (tools_option D)) (\<lambda>tools.
       Inr \<lparr>co_add_generation_prompt = True, co_enable_thinking = thinking, co_preserve_thinking = True,
            co_reasoning_effort = effort, co_tools_json = tools\<rparr>)))"

subsection \<open>The messages of a chat\<close>

definition message_content :: "'d Json \<Rightarrow> string result" where
  "message_content message =
     (case json_find ''content'' message of
        None \<Rightarrow> Inr []
      | Some content \<Rightarrow> if is_null content then Inr [] else as_string content)"

type_synonym 'd walk = "(string \<times> 'd Json) list \<Rightarrow> (string \<times> 'd Json) list"

definition rendered_argument :: "'d double_conversion \<Rightarrow> string \<times> 'd Json \<Rightarrow> ChatToolArgument result" where
  "rendered_argument D member =
     res_bind (if is_string (snd member) then as_string (snd member) else dump D (snd member)) (\<lambda>text.
       Inr \<lparr>ta_name = fst member, ta_rendered_value = text\<rparr>)"

definition call_arguments :: "'d double_conversion \<Rightarrow> 'd walk \<Rightarrow> 'd Json option \<Rightarrow> ChatToolArgument list result" where
  "call_arguments D walk arguments =
     (case arguments of
        None \<Rightarrow> Inr []
      | Some value \<Rightarrow>
          if is_null value \<or> value = JString [] then Inr []
          else res_bind (case value of JString text \<Rightarrow> parse_document D text | _ \<Rightarrow> Inr value) (\<lambda>parsed.
            res_bind (as_object parsed) (\<lambda>members. res_map (rendered_argument D) (walk members))))"

definition message_tool_call :: "'d double_conversion \<Rightarrow> 'd walk \<Rightarrow> 'd Json \<Rightarrow> ChatToolCall result" where
  "message_tool_call D walk item =
     (let fn = (case json_find ''function'' item of None \<Rightarrow> item | Some fn \<Rightarrow> fn) in
      res_bind (res_bind (json_at ''name'' fn) as_string) (\<lambda>name.
      res_bind (call_arguments D walk (json_find ''arguments'' fn)) (\<lambda>arguments.
        Inr \<lparr>tc_name = name, tc_arguments = arguments\<rparr>)))"

definition message_tool_calls :: "'d double_conversion \<Rightarrow> 'd walk \<Rightarrow> 'd Json \<Rightarrow> ChatToolCall list result" where
  "message_tool_calls D walk message =
     (case json_find ''tool_calls'' message of
        None \<Rightarrow> Inr []
      | Some calls \<Rightarrow>
          if is_null calls then Inr []
          else res_bind (as_array calls) (res_map (message_tool_call D walk)))"

definition chat_message :: "'d double_conversion \<Rightarrow> 'd walk \<Rightarrow> 'd Json \<Rightarrow> ChatMessage result" where
  "chat_message D walk item =
     res_bind (res_bind (res_bind (json_at ''role'' item) as_string) parse_chat_role) (\<lambda>role.
     res_bind (message_content item) (\<lambda>content.
     res_bind (case json_find ''reasoning_content'' item of
         None \<Rightarrow> Inr None | Some value \<Rightarrow> res_bind (as_string value) (\<lambda>text. Inr (Some text))) (\<lambda>reasoning.
     res_bind (message_tool_calls D walk item) (\<lambda>calls.
       Inr \<lparr>cm_role = role, cm_content = content, cm_reasoning_content = reasoning, cm_tool_calls = calls\<rparr>))))"

subsection \<open>Splitting a whole answer\<close>

record ChatOutput =
  ho_content :: string
  ho_reasoning_content :: "string option"
  ho_tool_calls :: "ParsedToolCall list"

definition think_close :: string where "think_close = ''</think>''"

definition trim_chat_segment :: "string \<Rightarrow> string" where
  "trim_chat_segment value = trim_both is_space_char value"

definition split_chat_output ::
    "'d double_conversion \<Rightarrow> string \<Rightarrow> bool \<Rightarrow> string list \<Rightarrow> ChatOutput result" where
  "split_chat_output D bytes enable_thinking tool_schemas =
     (let (content, reasoning) =
        (case (if enable_thinking then find_split think_close bytes else None) of
           None \<Rightarrow> (bytes, None)
         | Some (before, after) \<Rightarrow> (trim_chat_segment after, Some (trim_chat_segment before)))
      in if tool_schemas = []
         then Inr \<lparr>ho_content = content, ho_reasoning_content = reasoning, ho_tool_calls = []\<rparr>
         else res_bind (parse_qwen_tool_output D content tool_schemas) (\<lambda>parsed.
           Inr \<lparr>ho_content = po_content parsed, ho_reasoning_content = reasoning, ho_tool_calls = po_calls parsed\<rparr>))"

subsection \<open>Rendering\<close>

definition json_error :: "nat \<Rightarrow> string \<Rightarrow> string \<Rightarrow> nat \<times> string" where
  \<open>json_error status code message =
     (status, ''{"error":{"code":"'' @ json_escape code @ ''","message":"'' @ json_escape message @
        ''","type":"server_error"}}'')\<close>

definition tool_call_json :: "bool \<Rightarrow> nat \<times> ParsedToolCall \<Rightarrow> string" where
  \<open>tool_call_json streaming indexed =
     (case indexed of (i, call) \<Rightarrow>
        ''{'' @ (if streaming then ''"index":'' @ show_nat i @ '','' else []) @
        ''"id":"call_qwen38_'' @ show_nat i @ ''","type":"function","function":{"name":"'' @
        json_escape (pc_name call) @ ''","arguments":"'' @ json_escape (pc_arguments_json call) @ ''"}}'')\<close>

definition tool_calls_json :: "ParsedToolCall list \<Rightarrow> bool \<Rightarrow> string" where
  \<open>tool_calls_json calls streaming =
     ''"tool_calls":['' @ join_commas (map (tool_call_json streaming) (enumerate 0 calls)) @ '']''\<close>

record timings =
  tm_prompt_ms :: string
  tm_generation_ms :: string
  tm_generation_tps :: string
  tm_draft_ms :: string
  tm_verify_ms :: string
  tm_commit_ms :: string

definition show_bool :: "bool \<Rightarrow> string" where
  "show_bool b = (if b then ''true'' else ''false'')"

text \<open>The four counters of an array; the fields have four elements.\<close>

definition positions_json :: "nat list \<Rightarrow> string" where
  "positions_json xs = ''['' @ join_commas (map show_nat xs) @ '']''"

definition message_json ::
    "'d double_conversion \<Rightarrow> GenerationResult \<Rightarrow> bool \<Rightarrow> string list \<Rightarrow> (string \<times> string) result" where
  \<open>message_json D res enable_thinking tool_schemas =
     res_bind (split_chat_output D (gr_text res) enable_thinking tool_schemas) (\<lambda>output.
       Inr (''"index":0,"message":{"role":"assistant","content":"'' @ json_escape (ho_content output) @ ''"'' @
         (case ho_reasoning_content output of
            None \<Rightarrow> []
          | Some reasoning \<Rightarrow> '',"reasoning_content":"'' @ json_escape reasoning @ ''"'') @
         (if ho_tool_calls output = [] then [] else '','' @ tool_calls_json (ho_tool_calls output) False) @ ''}'',
         if ho_tool_calls output = [] then gr_finish_reason res else ''tool_calls''))\<close>

definition usage_json :: "GenerationResult \<Rightarrow> string" where
  \<open>usage_json res =
     ''{"prompt_tokens":'' @ show_nat (gr_prompt_tokens res) @
     '',"completion_tokens":'' @ show_nat (length (gr_tokens res)) @
     '',"total_tokens":'' @ show_nat (sz_add (gr_prompt_tokens res) (length (gr_tokens res))) @
     '',"prompt_tokens_details":{"cached_tokens":'' @ show_nat (gr_cached_prompt_tokens res) @ ''}}''\<close>

definition mtp_json :: "timings \<Rightarrow> GenerationResult \<Rightarrow> string" where
  \<open>mtp_json t res =
     ''{"rounds":'' @ show_nat (gr_mtp_rounds res) @
     '',"proposed":'' @ show_nat (gr_mtp_proposed res) @
     '',"accepted":'' @ show_nat (gr_mtp_accepted res) @
     '',"proposed_by_position":'' @ positions_json (gr_mtp_proposed_by_position res) @
     '',"accepted_by_position":'' @ positions_json (gr_mtp_accepted_by_position res) @
     '',"top2_rejected_by_position":'' @ positions_json (gr_mtp_top2_rejected_by_position res) @
     '',"top2_recovered_by_position":'' @ positions_json (gr_mtp_top2_recovered_by_position res) @
     '',"top2_descendant_recovered_by_position":'' @
       positions_json (gr_mtp_top2_descendant_recovered_by_position res) @
     '',"top2_descendant_accepted_by_position":'' @
       positions_json (gr_mtp_top2_descendant_accepted_by_position res) @
     '',"fallbacks":'' @ show_nat (gr_mtp_fallbacks res) @
     '',"depth":'' @ show_nat (gr_mtp_final_depth res) @
     '',"promotions":'' @ show_nat (gr_mtp_promotions res) @
     '',"demotions":'' @ show_nat (gr_mtp_demotions res) @
     '',"profitability_cache_skip":'' @ show_bool (gr_mtp_profitability_cache_skip res) @
     '',"profitability_cache_keep":'' @ show_bool (gr_mtp_profitability_cache_keep res) @
     '',"draft_ms":'' @ tm_draft_ms t @ '',"verify_ms":'' @ tm_verify_ms t @
     '',"commit_ms":'' @ tm_commit_ms t @ ''}''\<close>

definition performance_json :: "timings \<Rightarrow> GenerationResult \<Rightarrow> string" where
  \<open>performance_json t res =
     ''{"prompt_ms":'' @ tm_prompt_ms t @
     '',"cached_prompt_tokens":'' @ show_nat (gr_cached_prompt_tokens res) @
     '',"generation_ms":'' @ tm_generation_ms t @ '',"generation_tps":'' @ tm_generation_tps t @
     '',"mtp":'' @ mtp_json t res @
     '',"history_draft":{"rounds":'' @ show_nat (gr_history_draft_rounds res) @
     '',"proposed":'' @ show_nat (gr_history_draft_proposed res) @
     '',"accepted":'' @ show_nat (gr_history_draft_accepted res) @
     '',"activations":'' @ show_nat (gr_history_draft_activations res) @
     '',"deactivations":'' @ show_nat (gr_history_draft_deactivations res) @
     ''},"context_copy":{"rounds":'' @ show_nat (gr_context_copy_rounds res) @
     '',"proposed":'' @ show_nat (gr_context_copy_proposed res) @
     '',"accepted":'' @ show_nat (gr_context_copy_accepted res) @
     '',"suspensions":'' @ show_nat (gr_context_copy_suspensions res) @
     ''},"thinking":{"budget_tokens":'' @ show_nat (gr_thinking_budget_tokens res) @
     '',"forced":'' @ show_bool (gr_thinking_budget_forced res) @ ''}}''\<close>

definition completion_json ::
    "'d double_conversion \<Rightarrow> timings \<Rightarrow> string \<Rightarrow> GenerationResult \<Rightarrow> bool \<Rightarrow> bool \<Rightarrow> string list \<Rightarrow> string result" where
  \<open>completion_json D t model_id res chat enable_thinking tool_schemas =
     res_bind (if chat then message_json D res enable_thinking tool_schemas
       else Inr (''"index":0,"text":"'' @ json_escape (gr_text res) @ ''"'', gr_finish_reason res))
       (\<lambda>(choice, finish_reason).
         Inr (''{"id":"qwen38-native","object":"'' @ (if chat then ''chat.completion'' else ''text_completion'') @
           ''","model":"'' @ json_escape model_id @ ''","choices":[{'' @ choice @
           '',"finish_reason":"'' @ json_escape finish_reason @ ''"}],"usage":'' @ usage_json res @
           '',"performance":'' @ performance_json t res @ ''}''))\<close>

definition stream_head :: "string \<Rightarrow> bool \<Rightarrow> string" where
  \<open>stream_head model_id chat =
     ''{"id":"qwen38-native","object":"'' @ (if chat then ''chat.completion.chunk'' else ''text_completion'') @
     ''","model":"'' @ json_escape model_id @ ''","choices":[{"index":0,''\<close>

definition stream_delta_json :: "string \<Rightarrow> bool \<Rightarrow> string \<Rightarrow> string \<Rightarrow> string" where
  \<open>stream_delta_json model_id chat field delta =
     stream_head model_id chat @
     (if chat then ''"delta":{"'' @ field @ ''":"'' @ json_escape delta @ ''"}''
      else ''"text":"'' @ json_escape delta @ ''"'') @ '',"finish_reason":null}]}''\<close>

definition stream_finish_json :: "string \<Rightarrow> GenerationResult \<Rightarrow> bool \<Rightarrow> bool \<Rightarrow> string" where
  \<open>stream_finish_json model_id res chat include_usage =
     stream_head model_id chat @ (if chat then ''"delta":{}'' else ''"text":""'') @
     '',"finish_reason":"'' @ json_escape (gr_finish_reason res) @ ''"}]'' @
     (if include_usage then '',"usage":'' @ usage_json res else []) @ ''}''\<close>

definition stream_tool_calls_json :: "string \<Rightarrow> ParsedToolCall list \<Rightarrow> string" where
  \<open>stream_tool_calls_json model_id calls =
     stream_head model_id True @ ''"delta":{'' @ tool_calls_json calls True @ ''},"finish_reason":null}]}''\<close>

definition sse_data :: "string \<Rightarrow> string" where
  "sse_data json = ''data: '' @ json @ ''\<newline>\<newline>''"

definition status_json :: "string \<Rightarrow> RuntimeSnapshot \<Rightarrow> string" where
  \<open>status_json uptime_seconds s =
     ''{"object":"qwen38.runtime_status","state":"'' @ state_to_string (sn_model_state s) @
     ''","model":"'' @ json_escape (sn_model_id s) @ ''","model_path":"'' @ json_escape (sn_model_path s) @
     ''","last_error":"'' @ json_escape (sn_last_error s) @ ''","uptime_seconds":'' @ uptime_seconds @
     '',"requests":{"total":'' @ show_nat (unat (sn_requests_total s)) @
     '',"active":'' @ show_nat (unat (sn_requests_active s)) @
     '',"cancelled":'' @ show_nat (unat (sn_requests_cancelled s)) @
     ''},"tokens":{"prompt":'' @ show_nat (unat (sn_prompt_tokens_total s)) @
     '',"generated":'' @ show_nat (unat (sn_generated_tokens_total s)) @ ''}}''\<close>

definition models_json :: "RuntimeSnapshot \<Rightarrow> string" where
  \<open>models_json s =
     (if sn_model_id s = [] then ''{"object":"list","data":[]}''
      else ''{"object":"list","data":[{"id":"'' @ json_escape (sn_model_id s) @
        ''","object":"model","owned_by":"qwen38-flash.cpp"}]}'')\<close>

definition metric :: "string \<Rightarrow> string \<Rightarrow> u64 \<Rightarrow> string" where
  "metric name kind n =
     ''# TYPE qwen38_'' @ name @ '' '' @ kind @ ''\<newline>qwen38_'' @ name @ '' '' @ show_nat (unat n) @ ''\<newline>''"

definition metrics_text :: "RuntimeSnapshot \<Rightarrow> string" where
  "metrics_text s =
     metric ''requests_total'' ''counter'' (sn_requests_total s) @
     metric ''requests_active'' ''gauge'' (sn_requests_active s) @
     metric ''requests_cancelled_total'' ''counter'' (sn_requests_cancelled s) @
     metric ''prompt_tokens_total'' ''counter'' (sn_prompt_tokens_total s) @
     metric ''generated_tokens_total'' ''counter'' (sn_generated_tokens_total s)"

subsection \<open>Streams\<close>

record stream_job =
  sj_prompt :: string
  sj_requested_tokens :: nat
  sj_chat :: bool
  sj_template :: ChatTemplateOptions
  sj_sampling :: SamplingOptions
  sj_include_usage :: bool
  sj_model_id :: string

text \<open>What is passed to the sink: each event renders to one fragment of the response body.\<close>

datatype stream_event =
    Delta string string
  | Tool_calls "ParsedToolCall list"
  | Keep_alive
  | Finish GenerationResult
  | Stream_error string
  | Stream_done

definition generation_error_json :: "string \<Rightarrow> string" where
  \<open>generation_error_json message =
     ''{"error":{"code":"generation_error","message":"'' @ json_escape message @ ''","type":"server_error"}}''\<close>

fun render_event :: "stream_job \<Rightarrow> stream_event \<Rightarrow> string" where
  "render_event job (Delta field delta) = sse_data (stream_delta_json (sj_model_id job) (sj_chat job) field delta)"
| "render_event job (Tool_calls calls) = sse_data (stream_tool_calls_json (sj_model_id job) calls)"
| "render_event job Keep_alive = '': qwen38 tool-call\<newline>\<newline>''"
| "render_event job (Finish res) =
     sse_data (stream_finish_json (sj_model_id job) res (sj_chat job) (sj_include_usage job))"
| "render_event job (Stream_error message) = sse_data (generation_error_json message)"
| "render_event job Stream_done = ''data: [DONE]\<newline>\<newline>''"

type_synonym sink = "string list \<Rightarrow> string \<Rightarrow> bool"

record api_stream =
  ap_connected :: bool
  ap_events :: "stream_event list"
  ap_thinking_carry :: string
  ap_in_reasoning :: bool
  ap_tool_carry :: string
  ap_capturing_tool_calls :: bool
  ap_captured_tool_deltas :: nat

definition api_stream_start :: "stream_job \<Rightarrow> api_stream" where
  "api_stream_start job =
     \<lparr>ap_connected = True, ap_events = [], ap_thinking_carry = [],
      ap_in_reasoning = (sj_chat job \<and> co_enable_thinking (sj_template job)), ap_tool_carry = [],
      ap_capturing_tool_calls = False, ap_captured_tool_deltas = 0\<rparr>"

definition parse_tools :: "stream_job \<Rightarrow> bool" where
  "parse_tools job \<longleftrightarrow> sj_chat job \<and> co_tools_json (sj_template job) \<noteq> []"

text \<open>Nothing is sent any more once the sink has refused a fragment.\<close>

definition send_event :: "stream_job \<Rightarrow> sink \<Rightarrow> stream_event \<Rightarrow> api_stream \<Rightarrow> api_stream" where
  "send_event job sink event st =
     (if ap_connected st
      then st\<lparr>ap_events := ap_events st @ [event],
              ap_connected := sink (map (render_event job) (ap_events st)) (render_event job event)\<rparr>
      else st)"

definition emit_text :: "stream_job \<Rightarrow> sink \<Rightarrow> string \<Rightarrow> string \<Rightarrow> api_stream \<Rightarrow> api_stream" where
  "emit_text job sink field bytes st = (if bytes = [] then st else send_event job sink (Delta field bytes) st)"

definition emit_content :: "stream_job \<Rightarrow> sink \<Rightarrow> string \<Rightarrow> api_stream \<Rightarrow> api_stream" where
  "emit_content job sink bytes st =
     (if \<not> parse_tools job then emit_text job sink ''content'' bytes st
      else
        let st1 = st\<lparr>ap_tool_carry := ap_tool_carry st @ bytes\<rparr>; carry = ap_tool_carry st1 in
        if ap_capturing_tool_calls st1 then
          (let st2 = st1\<lparr>ap_captured_tool_deltas := ap_captured_tool_deltas st1 + 1\<rparr> in
           if ap_captured_tool_deltas st2 mod 16 = 0 then send_event job sink Keep_alive st2 else st2)
        else case find_split call_open carry of
          Some (before, after) \<Rightarrow>
            (emit_text job sink ''content'' before st1)\<lparr>ap_tool_carry := call_open @ after,
              ap_capturing_tool_calls := True\<rparr>
        | None \<Rightarrow>
            if length carry \<ge> length call_open then
              (let rdy = length carry - (length call_open - 1) in
               (emit_text job sink ''content'' (take rdy carry) st1)\<lparr>ap_tool_carry := drop rdy carry\<rparr>)
            else st1)"

definition reasoning_holdback :: "stream_job \<Rightarrow> nat" where
  "reasoning_holdback job =
     (if parse_tools job then max (length think_close) (length call_open) - 1 else length think_close - 1)"

definition stream_delta :: "stream_job \<Rightarrow> sink \<Rightarrow> api_stream \<Rightarrow> string \<Rightarrow> api_stream" where
  "stream_delta job sink st raw_delta =
     (if \<not> ap_connected st then st
      else if \<not> sj_chat job then emit_text job sink ''text'' raw_delta st
      else if \<not> ap_in_reasoning st then emit_content job sink raw_delta st
      else
        let st1 = st\<lparr>ap_thinking_carry := ap_thinking_carry st @ raw_delta\<rparr>; carry = ap_thinking_carry st1 in
        case find_split think_close carry of
          Some (before, after) \<Rightarrow>
            (emit_content job sink (dropWhile is_space_char after)
               (emit_text job sink ''reasoning_content'' before st1))\<lparr>ap_thinking_carry := [], ap_in_reasoning := False\<rparr>
        | None \<Rightarrow>
            (case (if parse_tools job then find_split call_open carry else None) of
               Some (before, after) \<Rightarrow>
                 emit_content job sink (call_open @ after)
                   ((emit_text job sink ''reasoning_content'' before st1)\<lparr>ap_thinking_carry := [], ap_in_reasoning := False\<rparr>)
             | None \<Rightarrow>
                 if length carry \<le> reasoning_holdback job then st1
                 else
                   let rdy = length carry - reasoning_holdback job in
                   (emit_text job sink ''reasoning_content'' (take rdy carry) st1)\<lparr>ap_thinking_carry := drop rdy carry\<rparr>))"

text \<open>The callback given to the engine, and the end of a stream.\<close>

definition stream_callback :: "stream_job \<Rightarrow> sink \<Rightarrow> api_stream \<Rightarrow> text_delta_callback" where
  "stream_callback job sink st deltas delta =
     ap_connected (stream_delta job sink (foldl (stream_delta job sink) st deltas) delta)"

definition flush_thinking :: "stream_job \<Rightarrow> sink \<Rightarrow> api_stream \<Rightarrow> api_stream" where
  "flush_thinking job sink st =
     (if ap_thinking_carry st = [] then st
      else if ap_in_reasoning st then emit_text job sink ''reasoning_content'' (ap_thinking_carry st) st
      else emit_content job sink (ap_thinking_carry st) st)"

definition flush_tools ::
    "'d double_conversion \<Rightarrow> stream_job \<Rightarrow> sink \<Rightarrow> GenerationResult \<Rightarrow> api_stream \<Rightarrow>
     (GenerationResult \<times> api_stream) result" where
  "flush_tools D job sink res st =
     (if \<not> parse_tools job \<or> ap_tool_carry st = [] then Inr (res, st)
      else if ap_capturing_tool_calls st then
        res_bind (parse_qwen_tool_output D (ap_tool_carry st) (co_tools_json (sj_template job))) (\<lambda>parsed.
          let st1 = emit_text job sink ''content'' (po_content parsed) st in
          if po_calls parsed = [] then Inr (res, st1)
          else Inr (res\<lparr>gr_finish_reason := ''tool_calls''\<rparr>, send_event job sink (Tool_calls (po_calls parsed)) st1))
      else Inr (res, emit_text job sink ''content'' (ap_tool_carry st) st))"

text \<open>
  The engine as the routes call it: callback, prompt, token limit, sampling and the state of the engine;
  the answer with the fragments its caller was given.
\<close>

type_synonym 'w engine_call =
  "text_delta_callback option \<Rightarrow> string \<Rightarrow> nat \<Rightarrow> SamplingOptions \<Rightarrow> 'w \<Rightarrow>
   (GenerationResult result \<times> string list \<times> 'w) option"

definition finish_stream ::
    "'d double_conversion \<Rightarrow> stream_job \<Rightarrow> sink \<Rightarrow> GenerationResult result \<Rightarrow> api_stream \<Rightarrow> api_stream \<times> action list" where
  "finish_stream D job sink r st =
     (let st1 = (case r of Inl e \<Rightarrow> st | Inr res \<Rightarrow> flush_thinking job sink st) in
      case res_bind r (\<lambda>res. flush_tools D job sink res st1) of
        Inl e \<Rightarrow> (send_event job sink (Stream_error (what e)) st1, request_finished 0 0 False)
      | Inr (res, st2) \<Rightarrow>
          (send_event job sink (Finish res) st2,
           request_finished (of_nat (gr_prompt_tokens res)) (of_nat (length (gr_tokens res)))
             (gr_finish_reason res = ''cancelled'')))"

definition stream_opened :: "stream_job \<Rightarrow> sink \<Rightarrow> api_stream" where
  "stream_opened job sink =
     (if sj_chat job then send_event job sink (Delta ''role'' ''assistant'') (api_stream_start job)
      else api_stream_start job)"

definition run_stream ::
    "'d double_conversion \<Rightarrow> 'w engine_call \<Rightarrow> sink \<Rightarrow> stream_job \<Rightarrow> 'w \<Rightarrow>
     (stream_event list \<times> action list \<times> 'w) option" where
  "run_stream D engine sink job w =
     (let st1 = stream_opened job sink
      in if \<not> ap_connected st1 then Some (ap_events st1, request_started @ request_finished 0 0 True, w)
         else Option.bind
           (engine (Some (stream_callback job sink st1)) (sj_prompt job) (sj_requested_tokens job) (sj_sampling job) w)
           (\<lambda>(r, deltas, w').
             case finish_stream D job sink r (foldl (stream_delta job sink) st1 deltas) of
               (st2, actions) \<Rightarrow> Some (ap_events (send_event job sink Stream_done st2), request_started @ actions, w')))"

subsection \<open>Routes\<close>

record HttpRequest =
  hq_method :: string
  hq_target :: string
  hq_body :: string

record HttpResponse =
  hs_status :: nat
  hs_content_type :: string
  hs_body :: string
  hs_body_stream :: "stream_job option"

definition json_response :: "nat \<times> string \<Rightarrow> HttpResponse" where
  "json_response r = \<lparr>hs_status = fst r, hs_content_type = ''application/json'', hs_body = snd r, hs_body_stream = None\<rparr>"

record ('d, 'w) api =
  api_doubles :: "'d double_conversion"
  api_casts :: "'d number_casts"
  api_walk :: "'d walk"
  api_timings :: "GenerationResult \<Rightarrow> timings"
  api_uptime_seconds :: string
  api_ready :: bool
  api_snapshot :: RuntimeSnapshot
  api_complete :: "'w engine_call option"
  api_clear_cache :: "'w \<Rightarrow> 'w"

text \<open>What a completion request asks for.\<close>

definition completion_prompt ::
    "('d, 'w) api \<Rightarrow> bool \<Rightarrow> 'd Json \<Rightarrow> (string \<times> ChatTemplateOptions) result" where
  "completion_prompt A chat body =
     (if chat then
        res_bind (chat_template_options (api_doubles A) body) (\<lambda>options.
        res_bind (res_bind (json_at ''messages'' body) as_array) (\<lambda>items.
        res_bind (res_map (chat_message (api_doubles A) (api_walk A)) items) (\<lambda>messages.
          if messages = [] then Inl (RuntimeError ''messages must not be empty'')
          else res_bind (render_chat_prompt messages options) (\<lambda>prompt. Inr (prompt, options)))))
      else res_bind (res_bind (json_at ''prompt'' body) as_string) (\<lambda>prompt.
        Inr (prompt, \<lparr>co_add_generation_prompt = True, co_enable_thinking = True, co_preserve_thinking = True,
                     co_reasoning_effort = Effort_xhigh, co_tools_json = []\<rparr>)))"

definition completion_job :: "('d, 'w) api \<Rightarrow> bool \<Rightarrow> string \<Rightarrow> (bool \<times> stream_job) result" where
  "completion_job A chat text =
     res_bind (parse_document (api_doubles A) text) (\<lambda>body.
     res_bind (streaming_enabled body) (\<lambda>stream.
     res_bind (if stream then stream_usage_enabled body else Inr False) (\<lambda>usage.
     res_bind (completion_prompt A chat body) (\<lambda>(prompt, options).
     res_bind (max_tokens body) (\<lambda>requested_tokens.
     res_bind (sampling_options (api_casts A) body (chat \<and> co_enable_thinking options)) (\<lambda>sampling.
       Inr (stream, \<lparr>sj_prompt = prompt, sj_requested_tokens = requested_tokens, sj_chat = chat,
         sj_template = options,
         sj_sampling = (if chat \<and> co_enable_thinking options
           then sampling\<lparr>so_thinking_budget_tokens :=
             automatic_thinking_budget requested_tokens (co_reasoning_effort options)\<rparr>
           else sampling),
         sj_include_usage = usage, sj_model_id = sn_model_id (api_snapshot A)\<rparr>)))))))"

text \<open>A completion that is not streamed; an exception of the rendering counts the request as finished again.\<close>

definition run_completion ::
    "('d, 'w) api \<Rightarrow> 'w engine_call \<Rightarrow> stream_job \<Rightarrow> 'w \<Rightarrow> (string result \<times> action list \<times> 'w) option" where
  "run_completion A engine job w =
     Option.bind (engine None (sj_prompt job) (sj_requested_tokens job) (sj_sampling job) w) (\<lambda>(r, _, w').
       case r of
         Inl e \<Rightarrow> Some (Inl e, request_started @ request_finished 0 0 False, w')
       | Inr res \<Rightarrow>
           let counted = request_started @
             request_finished (of_nat (gr_prompt_tokens res)) (of_nat (length (gr_tokens res))) False in
           case completion_json (api_doubles A) (api_timings A res) (sj_model_id job) res (sj_chat job)
               (co_enable_thinking (sj_template job)) (co_tools_json (sj_template job)) of
             Inl e \<Rightarrow> Some (Inl e, counted @ request_finished 0 0 False, w')
           | Inr body \<Rightarrow> Some (Inr body, counted, w'))"

definition handle_completion ::
    "('d, 'w) api \<Rightarrow> bool \<Rightarrow> string \<Rightarrow> 'w \<Rightarrow> (HttpResponse \<times> action list \<times> 'w) option" where
  "handle_completion A chat body w =
     (case api_complete A of
        None \<Rightarrow> Some (json_response (json_error 503 ''model_not_ready'' ''Inference backend is not loaded''), [], w)
      | Some engine \<Rightarrow>
          if \<not> api_ready A then
            Some (json_response (json_error 503 ''model_not_ready'' ''Inference backend is not loaded''), [], w)
          else (case completion_job A chat body of
            Inl e \<Rightarrow> Some (json_response (json_error 400 ''invalid_request'' (what e)), [], w)
          | Inr (True, job) \<Rightarrow>
              Some (\<lparr>hs_status = 200, hs_content_type = ''text/event-stream; charset=utf-8'', hs_body = [],
                     hs_body_stream = Some job\<rparr>, [], w)
          | Inr (False, job) \<Rightarrow>
              Option.bind (run_completion A engine job w) (\<lambda>(r, actions, w').
                case r of
                  Inl e \<Rightarrow> Some (json_response (json_error 400 ''invalid_request'' (what e)), actions, w')
                | Inr response \<Rightarrow> Some (json_response (200, response), actions, w'))))"

definition handle :: "('d, 'w) api \<Rightarrow> HttpRequest \<Rightarrow> 'w \<Rightarrow> (HttpResponse \<times> action list \<times> 'w) option" where
  \<open>handle A rq w =
     (let get = (\<lambda>target. hq_method rq = ''GET'' \<and> hq_target rq = target);
          post = (\<lambda>target. hq_method rq = ''POST'' \<and> hq_target rq = target)
      in if get ''/healthz'' then Some (json_response (200, ''{"status":"ok"}''), [], w)
         else if get ''/readyz'' then
           Some (json_response (if api_ready A then (200, ''{"status":"ready"}'')
             else json_error 503 ''model_not_ready'' ''The model is not ready''), [], w)
         else if get ''/v1/status'' then
           Some (json_response (200, status_json (api_uptime_seconds A) (api_snapshot A)), [], w)
         else if get ''/v1/models'' then Some (json_response (200, models_json (api_snapshot A)), [], w)
         else if get ''/metrics'' then
           Some (\<lparr>hs_status = 200, hs_content_type = ''text/plain; version=0.0.4'',
                  hs_body = metrics_text (api_snapshot A), hs_body_stream = None\<rparr>, [], w)
         else if post ''/v1/chat/completions'' then handle_completion A True (hq_body rq) w
         else if post ''/v1/completions'' then handle_completion A False (hq_body rq) w
         else if post ''/admin/cache/clear'' then
           (if \<not> api_ready A then
              Some (json_response (json_error 503 ''model_not_ready'' ''No loaded model cache to clear''), [], w)
            else case api_complete A of
              None \<Rightarrow> Some (json_response (json_error 503 ''model_not_ready'' ''Inference backend is not loaded''), [], w)
            | Some _ \<Rightarrow> Some (json_response (200, ''{"status":"cleared"}''), [], api_clear_cache A w))
         else Some (json_response (json_error 404 ''not_found'' ''Route not found''), [], w))\<close>

end
