(* ===== verification/Spec2Isabelle.thy ===== *)
theory Spec2Isabelle
  imports Executor Expert_Cache Geometry Runtime_State Tool_Call Prefix_Store Ngram_Hash Api
begin

text \<open>
  A verification development of \<^verbatim>\<open>qwen38-flash.cpp\<close>.
\<close>

end
